(* ===== verification/Ir.thy ===== *)
theory Ir
  imports Main
begin

text \<open>
  The operator and select tags of the frozen IR, \<open>crates/sim-ir/src/lib.rs\<close>, and the set of
  storage bits a write through a constant select touches (\<open>sel_written_bits\<close>).
\<close>

datatype un_op = Plus | Minus | LogNot | BitNot | RedAnd | RedNand | RedOr | RedNor | RedXor | RedXnor

datatype bin_op =
    Add | Sub | Mul | Div | Mod | Pow
  | BitAnd | BitOr | BitXor | BitXnor
  | LogAnd | LogOr
  | Lt | Le | Gt | Ge | Eq | Ne | CaseEq | CaseNe
  | Shl | Shr | AShl | AShr
  | CasezEq | CasexEq

datatype sel_kind = Bit | PartConst | PartIdxUp | PartIdxDown

section \<open>Bits written through a select\<close>

text \<open>\<open>i32::try_from(off).ok()?\<close> on an \<open>i128\<close> read as the integer it is.\<close>

definition sel_written_bits :: "sel_kind \<Rightarrow> int \<Rightarrow> nat \<Rightarrow> nat \<Rightarrow> (nat \<times> nat) option" where
  "sel_written_bits kind off width net_w =
     (if - (2 ^ 31) \<le> off \<and> off < 2 ^ 31 then
        (let w = int width;
             lsb = (case kind of
                      PartIdxDown \<Rightarrow> off - w + 1
                    | _ \<Rightarrow> off);
             lo = max lsb 0;
             hi = min (lsb + w) (int net_w)
         in if lo < hi then Some (nat lo, nat hi) else None)
      else None)"

text \<open>The bits a select names, before clipping to the net.\<close>

definition sel_bits :: "sel_kind \<Rightarrow> int \<Rightarrow> nat \<Rightarrow> int set" where
  "sel_bits kind off width =
     (case kind of
        PartIdxDown \<Rightarrow> {off - int width + 1 .. off}
      | _ \<Rightarrow> {off ..< off + int width})"

lemma sel_written_bits_set:
  assumes "- (2 ^ 31) \<le> off" and "off < 2 ^ 31"
  shows "(case sel_written_bits kind off width net_w of
            None \<Rightarrow> {} | Some (lo, hi) \<Rightarrow> {int lo ..< int hi})
         = sel_bits kind off width \<inter> {0 ..< int net_w}"
  using assms by (cases kind) (auto simp: sel_written_bits_def sel_bits_def Let_def)

lemma sel_written_bits_bound:
  assumes "sel_written_bits kind off width net_w = Some (lo, hi)"
  shows "lo < hi \<and> hi \<le> net_w \<and> hi - lo \<le> width"
  using assms by (cases kind) (auto simp: sel_written_bits_def Let_def split: if_splits)

section \<open>Properties\<close>

text \<open>The storage bits a write through one chunk stores are exactly the bits the select names that
  lie in the net, for every select form (the descending form counts down from its offset); an
  offset outside the 32-bit range stores nothing.\<close>

theorem written_bits_are_named_bits:
  "(case sel_written_bits kind off width net_w of
      None \<Rightarrow> {} | Some (lo, hi) \<Rightarrow> {int lo ..< int hi})
   = (if - (2 ^ 31) \<le> off \<and> off < 2 ^ 31 then sel_bits kind off width \<inter> {0 ..< int net_w} else {})"
proof (cases "- (2 ^ 31) \<le> off \<and> off < 2 ^ 31")
  case True
  then show ?thesis using sel_written_bits_set by simp
qed (auto simp: sel_written_bits_def)

end
