(* ===== verification/Prelude.thy ===== *)
theory Prelude
  imports Main "HOL-Library.Word"
begin

text \<open>
  Shared vocabulary of the development: the machine-word types the simulator uses,
  the total read \<open>slice.get(k).copied().unwrap_or(0)\<close> that its word-vector code is
  written with, Rust's \<open>overflowing_add\<close>, and the two readings of a little-endian
  vector of 64-bit words on which all later theories rest: its number (\<open>wval\<close>) and
  its bits (\<open>pbit\<close>).  The collections \<open>wget_simps\<close>, \<open>wval_simps\<close> and \<open>pbit_simps\<close> gather the
  rewrite rules of the three.
\<close>

unbundle bit_operations_syntax

named_theorems wget_simps \<open>reads of word vectors\<close>
named_theorems wval_simps \<open>numbers denoted by word vectors\<close>
named_theorems pbit_simps \<open>single bits of word vectors\<close>

type_synonym u8 = "8 word"
type_synonym u32 = "32 word"
type_synonym u64 = "64 word"
type_synonym u128 = "128 word"

section \<open>Reads with a default\<close>

definition wget :: "'a::zero list \<Rightarrow> nat \<Rightarrow> 'a" where
  "wget xs k = (if k < length xs then xs ! k else 0)"

lemma wget_Nil [simp, wget_simps]: "wget [] k = 0"
  by (simp add: wget_def)

lemma wget_Cons_0 [simp, wget_simps]: "wget (x # xs) 0 = x"
  by (simp add: wget_def)

lemma wget_Cons_Suc [simp, wget_simps]: "wget (x # xs) (Suc k) = wget xs k"
  by (simp add: wget_def)

lemma wget_in [wget_simps]: "k < length xs \<Longrightarrow> wget xs k = xs ! k"
  by (simp add: wget_def)

lemma wget_out [wget_simps]: "length xs \<le> k \<Longrightarrow> wget xs k = 0"
  by (simp add: wget_def)

lemma wget_map_upt [simp, wget_simps]:
  "wget (map f [0..<n]) k = (if k < n then f k else 0)"
  by (simp add: wget_def)

lemma wget_replicate_0 [simp, wget_simps]: "wget (replicate n 0) k = 0"
  by (simp add: wget_def)

lemma wget_replicate [wget_simps]: "wget (replicate n x) k = (if k < n then x else 0)"
  by (simp add: wget_def)

lemma wget_append [wget_simps]:
  "wget (xs @ ys) k = (if k < length xs then wget xs k else wget ys (k - length xs))"
  by (auto simp: wget_def nth_append)

lemma wget_take [wget_simps]: "wget (take n xs) k = (if k < n then wget xs k else 0)"
  by (simp add: wget_def)

lemma wget_drop [wget_simps]: "wget (drop n xs) k = wget xs (n + k)"
  by (auto simp: wget_def)

lemma wget_list_update [wget_simps]:
  "wget (xs[i := x]) k = (if k = i \<and> i < length xs then x else wget xs k)"
  by (auto simp: wget_def nth_list_update)

lemma wget_ext:
  "length xs = length ys \<Longrightarrow> (\<And>k. k < length xs \<Longrightarrow> wget xs k = wget ys k) \<Longrightarrow> xs = ys"
  by (rule nth_equalityI) (simp_all add: wget_def)

lemma map_wget_self: "n = length xs \<Longrightarrow> map (wget xs) [0..<n] = xs"
  by (rule nth_equalityI) (simp_all add: wget_def)

section \<open>Rust arithmetic on words\<close>

text \<open>\<open>overflowing_add\<close>: the wrapped sum and whether it wrapped.\<close>

definition overflowing_add :: "u64 \<Rightarrow> u64 \<Rightarrow> u64 \<times> bool" where
  "overflowing_add a b = (a + b, 2 ^ 64 \<le> unat a + unat b)"

lemma unat_lt_64: "unat (x :: u64) < 2 ^ 64"
  using unsigned_less [of x] by simp

lemma unat_mod_64 [simp]: "unat (x :: u64) mod 18446744073709551616 = unat x"
  using unat_lt_64 [of x] by simp

lemma unat_div_64 [simp]: "unat (x :: u64) div 18446744073709551616 = 0"
  using unat_lt_64 [of x] by simp

lemma overflowing_add_exact:
  assumes "overflowing_add a b = (s, c)"
  shows "unat s + 2 ^ 64 * of_bool c = unat a + unat b"
proof -
  have "unat (a + b) = (unat a + unat b) mod 2 ^ 64"
    by (simp add: unat_word_ariths)
  moreover have "unat a + unat b < 2 * 2 ^ 64"
    using unat_lt_64 [of a] unat_lt_64 [of b] by linarith
  ultimately show ?thesis
    using assms by (auto simp: overflowing_add_def mod_if le_mod_geq)
qed

text \<open>Rust's \<open>as\<close> between the unsigned types, and the shifts, on the numbers they denote.\<close>

lemma unat_ucast_up [simp]: "unat (ucast (x :: u64) :: u128) = unat x"
proof -
  have "unat x < 2 ^ 128" using unat_lt_64 [of x] by simp
  then show ?thesis by (simp add: unsigned_ucast_eq take_bit_nat_eq_self)
qed

lemma unat_ucast_down: "unat (ucast (x :: u128) :: u64) = unat x mod 2 ^ 64"
  by (simp add: unsigned_ucast_eq take_bit_eq_mod)

lemma unat_drop: "unat (drop_bit n x) = unat (x :: 'a::len word) div 2 ^ n"
proof -
  have "unat (drop_bit n x) = drop_bit n (unat x)" by (fact unat_drop_bit_eq)
  then show ?thesis by (simp only: drop_bit_eq_div)
qed

section \<open>The number a word vector denotes\<close>

primrec wval :: "u64 list \<Rightarrow> nat" where
  "wval [] = 0"
| "wval (x # xs) = unat x + 2 ^ 64 * wval xs"

declare wval.simps [wval_simps]

lemma wval_append [wval_simps]: "wval (xs @ ys) = wval xs + 2 ^ (64 * length xs) * wval ys"
  by (induction xs) (simp_all add: algebra_simps power_add)

lemma wval_bound: "wval xs < 2 ^ (64 * length xs)"
proof (induction xs)
  case (Cons x xs)
  have "unat x + 2 ^ 64 * wval xs < 2 ^ 64 * Suc (wval xs)"
    using unat_lt_64 [of x] by simp
  also have "\<dots> \<le> 2 ^ 64 * 2 ^ (64 * length xs)"
    using Cons by (intro mult_le_mono2) simp
  finally show ?case by (simp add: power_add)
qed simp

lemma wval_replicate_0 [simp, wval_simps]: "wval (replicate n 0) = 0"
  by (induction n) simp_all

lemma wval_take_drop: "wval xs = wval (take k xs) + 2 ^ (64 * min k (length xs)) * wval (drop k xs)"
  by (metis append_take_drop_id length_take min.commute wval_append)

lemma wval_eq_0_iff [wval_simps]: "wval xs = 0 \<longleftrightarrow> (\<forall>x \<in> set xs. x = 0)"
  by (induction xs) (auto simp: unat_eq_zero)

lemma wval_inj: "length xs = length ys \<Longrightarrow> wval xs = wval ys \<Longrightarrow> xs = ys"
proof (induction xs ys rule: list_induct2)
  case (Cons x xs y ys)
  have h: "unat x + 2 ^ 64 * wval xs = unat y + 2 ^ 64 * wval ys"
    using Cons.prems by simp
  have "unat x = unat y"
    using arg_cong [OF h, of "\<lambda>n. n mod 2 ^ 64"] by simp
  moreover from h this have "wval xs = wval ys" by simp
  ultimately show ?case using Cons.IH by (simp add: word_unat_eq_iff)
qed simp

lemma limb_mod:
  fixes r y B M :: nat
  assumes "r < B"
  shows "r + B * (y mod M) = (r + B * y) mod (B * M)"
  using assms by (simp add: mod_mult2_eq)

lemma wval_hd_tl: "wval b = unat (wget b 0) + 2 ^ 64 * wval (tl b)"
  by (cases b) simp_all

lemma wval_update:
  "j < length ws \<Longrightarrow> wval (ws[j := x]) + 2 ^ (64 * j) * unat (ws ! j) = wval ws + 2 ^ (64 * j) * unat x"
proof (induction ws arbitrary: j)
  case (Cons w ws)
  show ?case
  proof (cases j)
    case 0
    then show ?thesis by simp
  next
    case (Suc i)
    then have "wval (ws[i := x]) + 2 ^ (64 * i) * unat (ws ! i) = wval ws + 2 ^ (64 * i) * unat x"
      using Cons by simp
    then have "2 ^ 64 * (wval (ws[i := x]) + 2 ^ (64 * i) * unat (ws ! i))
        = 2 ^ 64 * (wval ws + 2 ^ (64 * i) * unat x)"
      by (simp only:)
    then show ?thesis using Suc by (simp add: power_add algebra_simps)
  qed
qed simp

section \<open>The bits of a word vector\<close>

definition pbit :: "u64 list \<Rightarrow> nat \<Rightarrow> bool" where
  "pbit ws i = bit (wget ws (i div 64)) (i mod 64)"

lemma bit_add_high:
  fixes x y :: nat
  assumes "x < 2 ^ n"
  shows "bit (x + 2 ^ n * y) i = (if i < n then bit x i else bit y (i - n))"
proof (cases "i < n")
  case True
  then obtain d where d: "n = i + Suc d"
    using less_imp_Suc_add by (metis add_Suc_right)
  have "x + 2 ^ n * y = x + 2 ^ i * (2 * (2 ^ d * y))"
    by (simp add: d power_add)
  then have "(x + 2 ^ n * y) div 2 ^ i = x div 2 ^ i + 2 * (2 ^ d * y)"
    by (simp only: div_mult_self2 power_not_zero) simp
  then show ?thesis using True by (simp add: bit_iff_odd)
next
  case False
  then obtain d where d: "i = n + d" using le_Suc_ex not_less by blast
  have "(x + 2 ^ n * y) div 2 ^ i = y div 2 ^ d"
    using assms by (simp add: d power_add div_mult2_eq)
  then show ?thesis using False d by (simp add: bit_iff_odd)
qed

lemma bit_wval [wval_simps]: "bit (wval ws) i = pbit ws i"
proof (induction ws arbitrary: i)
  case Nil
  then show ?case by (simp add: pbit_def)
next
  case (Cons w ws)
  show ?case
  proof (cases "i < 64")
    case True
    then show ?thesis
      using bit_add_high [OF unat_lt_64, of w "wval ws" i]
      by (simp add: pbit_def bit_unsigned_iff)
  next
    case False
    then obtain j where j: "i = 64 + j" using le_Suc_ex not_less by blast
    have "bit (wval (w # ws)) i = bit (wval ws) j"
      using bit_add_high [OF unat_lt_64, of w "wval ws" i] by (simp add: j)
    also have "\<dots> = pbit ws j" by (rule Cons.IH)
    also have "\<dots> = pbit (w # ws) i"
    proof -
      have "(64 + j) div 64 = Suc (j div 64)" by simp
      then show ?thesis by (simp only: pbit_def j) simp
    qed
    finally show ?thesis .
  qed
qed

lemma pbit_out [pbit_simps]: "64 * length ws \<le> i \<Longrightarrow> \<not> pbit ws i"
proof -
  assume "64 * length ws \<le> i"
  then have "length ws \<le> i div 64" by (simp add: less_eq_div_iff_mult_less_eq mult.commute)
  then show ?thesis by (simp add: pbit_def wget_out)
qed

lemma pbit_replicate_0 [simp, pbit_simps]: "\<not> pbit (replicate n 0) i"
  by (simp add: pbit_def)

lemma pbit_Nil [simp, pbit_simps]: "\<not> pbit [] i"
  by (simp add: pbit_def)

lemma pbit_ext:
  assumes "length xs = length ys" and "\<And>i. i < 64 * length xs \<Longrightarrow> pbit xs i = pbit ys i"
  shows "xs = ys"
proof (rule wget_ext)
  fix k assume k: "k < length xs"
  show "wget xs k = wget ys k"
  proof (rule bit_word_eqI)
    fix n assume "n < LENGTH(64)"
    then have n: "n < 64" by simp
    with k have "64 * k + n < 64 * length xs" by linarith
    then have "pbit xs (64 * k + n) = pbit ys (64 * k + n)" by (rule assms(2))
    with n show "bit (wget xs k) n = bit (wget ys k) n" by (simp add: pbit_def)
  qed
qed (rule assms(1))

end
