(* ===== verification/Limbs.thy ===== *)
theory Limbs
  imports Prelude
begin

text \<open>
  The multi-word integer kernels of \<open>crates/sim-ir/src/mw.rs\<close>: addition, negation,
  masking, schoolbook multiplication, comparison, short and restoring long division,
  square-and-multiply power and decimal rendering over little-endian vectors of 64-bit
  words.  Each routine is a recursion over the vector in the order of the source's loop,
  with the carries kept as machine words; a read past the end of a shorter operand is the
  source's \<open>unwrap_or(0)\<close> (\<open>wget\<close>).  Where the source would panic (an index into an
  empty vector, a division by zero) the routine returns \<open>None\<close>.

  The lemmas say which number each routine computes: \<open>wval\<close> of the result is the
  integer result modulo \<open>2 ^ (64 * n)\<close>, or modulo \<open>2 ^ w\<close> after masking.
\<close>

section \<open>Word counts and masks\<close>

definition mw_nwords :: "nat \<Rightarrow> nat" where
  "mw_nwords width = (width + 63) div 64"

definition low_mask :: "nat \<Rightarrow> u64" where
  "low_mask width = (if 64 \<le> width then - 1 else if width = 0 then 0 else push_bit width 1 - 1)"

lemma low_mask_eq: "low_mask w = mask (min 64 w)"
proof (cases "64 \<le> w")
  case True
  then have "low_mask w = - 1" by (simp add: low_mask_def)
  also have "\<dots> = mask 64" by (simp add: mask_eq_exp_minus_1)
  finally show ?thesis using True by (simp add: min_def)
next
  case False
  then show ?thesis by (simp add: low_mask_def mask_eq_exp_minus_1 push_bit_of_1)
qed

section \<open>Addition and negation\<close>

fun mw_add_go :: "u64 \<Rightarrow> u64 list \<Rightarrow> u64 list \<Rightarrow> u64 list" where
  "mw_add_go carry [] b = []"
| "mw_add_go carry (x # a) b =
     (let (s1, c1) = overflowing_add x (wget b 0);
          (s2, c2) = overflowing_add s1 carry
      in s2 # mw_add_go (of_bool c1 + of_bool c2) a (tl b))"

definition mw_add :: "u64 list \<Rightarrow> u64 list \<Rightarrow> u64 list" where
  "mw_add a b = mw_add_go 0 a b"

fun mw_add_inplace_go :: "u64 \<Rightarrow> u64 list \<Rightarrow> u64 list \<Rightarrow> u64 list" where
  "mw_add_inplace_go carry [] b = []"
| "mw_add_inplace_go carry (d # dest) b =
     (let (s1, c1) = overflowing_add d (wget b 0);
          (s2, c2) = overflowing_add s1 carry
      in s2 # mw_add_inplace_go (of_bool c1 + of_bool c2) dest (tl b))"

definition mw_add_inplace :: "u64 list \<Rightarrow> u64 list \<Rightarrow> u64 list" where
  "mw_add_inplace dest b = mw_add_inplace_go 0 dest b"

fun mw_neg_go :: "u64 \<Rightarrow> u64 list \<Rightarrow> u64 list" where
  "mw_neg_go carry [] = []"
| "mw_neg_go carry (x # a) =
     (let (s, c) = overflowing_add (NOT x) carry in s # mw_neg_go (of_bool c) a)"

definition mw_neg :: "u64 list \<Rightarrow> u64 list" where
  "mw_neg a = mw_neg_go 1 a"

lemma length_mw_add_go [simp]: "length (mw_add_go c a b) = length a"
  by (induction a arbitrary: c b) (simp_all add: Let_def case_prod_beta)

lemma length_mw_add [simp]: "length (mw_add a b) = length a"
  by (simp add: mw_add_def)

lemma length_mw_neg_go [simp]: "length (mw_neg_go c a) = length a"
  by (induction a arbitrary: c) (simp_all add: Let_def case_prod_beta)

lemma length_mw_neg [simp]: "length (mw_neg a) = length a"
  by (simp add: mw_neg_def)

lemma unat_of_bool_sum: "unat (of_bool c1 + of_bool c2 :: u64) = of_bool c1 + of_bool c2"
  by (cases c1; cases c2) simp_all

lemma wval_mw_add_go:
  "wval (mw_add_go c a b) = (wval a + wval b + unat c) mod 2 ^ (64 * length a)"
proof (induction c a b rule: mw_add_go.induct)
  case (1 carry b)
  then show ?case by simp
next
  case (2 carry x a b)
  obtain s1 c1 where s1: "overflowing_add x (wget b 0) = (s1, c1)" by fastforce
  obtain s2 c2 where s2: "overflowing_add s1 carry = (s2, c2)" by fastforce
  let ?k = "of_bool c1 + of_bool c2 :: nat"
  have e1: "unat s1 + 2 ^ 64 * of_bool c1 = unat x + unat (wget b 0)"
    using s1 by (rule overflowing_add_exact)
  have e2: "unat s2 + 2 ^ 64 * of_bool c2 = unat s1 + unat carry"
    using s2 by (rule overflowing_add_exact)
  have "wval (mw_add_go carry (x # a) b)
      = unat s2 + 2 ^ 64 * ((wval a + wval (tl b) + ?k) mod 2 ^ (64 * length a))"
    using "2.IH" [OF s1 [symmetric] refl s2 [symmetric] refl] s1 s2
    by (simp add: unat_of_bool_sum)
  also have "\<dots> = (unat s2 + 2 ^ 64 * (wval a + wval (tl b) + ?k)) mod (2 ^ 64 * 2 ^ (64 * length a))"
    by (rule limb_mod) (rule unat_lt_64)
  also have "unat s2 + 2 ^ 64 * (wval a + wval (tl b) + ?k) = wval (x # a) + wval b + unat carry"
    using e1 e2 wval_hd_tl [of b] by (simp add: algebra_simps)
  finally show ?case by (simp add: power_add)
qed

lemma wval_mw_add [wval_simps]:
  "wval (mw_add a b) = (wval a + wval b) mod 2 ^ (64 * length a)"
  by (simp add: mw_add_def wval_mw_add_go)

lemma mw_add_inplace_eq: "mw_add_inplace dest b = mw_add dest b"
proof -
  have "mw_add_inplace_go c dest b = mw_add_go c dest b" for c
    by (induction dest arbitrary: c b) (simp_all add: Let_def case_prod_beta)
  then show ?thesis by (simp add: mw_add_inplace_def mw_add_def)
qed

lemma unat_not_64: "unat (NOT x :: u64) = 2 ^ 64 - 1 - unat x"
proof -
  have "NOT x = - 1 - x" by (simp add: not_eq_complement)
  also have "unat (- 1 - x) = unat (- 1 :: u64) - unat x"
    by (rule unat_sub) simp
  also have "unat (- 1 :: u64) = 2 ^ 64 - 1"
    by (simp add: unsigned_minus_1_eq_mask mask_eq_exp_minus_1)
  finally show ?thesis .
qed

lemma complement_step:
  fixes x v B M :: nat
  assumes "x < B" and "v < M"
  shows "(B - 1 - x) + B * (M - 1 - v) = B * M - 1 - (x + B * v)"
proof -
  obtain f where f: "B = Suc (x + f)" using assms(1) less_imp_Suc_add by blast
  obtain d where d: "M = Suc (v + d)" using assms(2) less_imp_Suc_add by blast
  have "B * M = B + B * v + B * d" by (simp add: d algebra_simps)
  then show ?thesis by (simp add: d) (simp add: f)
qed

lemma wval_mw_neg_go:
  "wval (mw_neg_go c a) = (2 ^ (64 * length a) - 1 - wval a + unat c) mod 2 ^ (64 * length a)"
proof (induction c a rule: mw_neg_go.induct)
  case (1 carry)
  then show ?case by simp
next
  case (2 carry x a)
  obtain s c where s: "overflowing_add (NOT x) carry = (s, c)" by fastforce
  let ?B = "2 ^ 64 :: nat" and ?M = "2 ^ (64 * length a) :: nat"
  have e: "unat s + ?B * of_bool c = ?B - 1 - unat x + unat carry"
    using overflowing_add_exact [OF s] by (simp add: unat_not_64)
  have "wval (mw_neg_go carry (x # a)) = unat s + ?B * ((?M - 1 - wval a + of_bool c) mod ?M)"
    using "2.IH" [OF s [symmetric] refl] s by simp
  also have "\<dots> = (unat s + ?B * (?M - 1 - wval a + of_bool c)) mod (?B * ?M)"
    by (rule limb_mod) (rule unat_lt_64)
  also have "unat s + ?B * (?M - 1 - wval a + of_bool c)
      = ?B * ?M - 1 - wval (x # a) + unat carry"
    using e complement_step [OF unat_lt_64 [of x] wval_bound [of a]] wval_bound [of a]
    by (simp add: algebra_simps)
  finally show ?case by (simp add: power_add)
qed

lemma wval_mw_neg [wval_simps]:
  "wval (mw_neg a) = (2 ^ (64 * length a) - wval a) mod 2 ^ (64 * length a)"
proof -
  have "2 ^ (64 * length a) - 1 - wval a + 1 = 2 ^ (64 * length a) - wval a"
    using wval_bound [of a] by simp
  then show ?thesis by (simp add: mw_neg_def wval_mw_neg_go)
qed

section \<open>Masking, zero, one\<close>

definition mw_mask :: "u64 list \<Rightarrow> nat \<Rightarrow> u64 list" where
  "mw_mask a w =
     (let n = max (mw_nwords w) 1;
          a1 = take n a @ replicate (n - length a) 0;
          top = w - 64 * (n - 1)
      in a1[n - 1 := (a1 ! (n - 1)) AND low_mask top])"

definition mw_is_zero :: "u64 list \<Rightarrow> bool" where
  "mw_is_zero a = list_all (\<lambda>x. x = 0) a"

definition mw_one :: "nat \<Rightarrow> u64 list option" where
  "mw_one n = (if n = 0 then None else Some ((replicate n 0)[0 := 1]))"

lemma length_mw_mask [simp]: "length (mw_mask a w) = max (mw_nwords w) 1"
  by (simp add: mw_mask_def Let_def)

lemma mw_is_zero_iff: "mw_is_zero a \<longleftrightarrow> wval a = 0"
  by (simp add: mw_is_zero_def list_all_iff wval_eq_0_iff)

lemma mw_one_Some: "mw_one (Suc m) = Some (1 # replicate m 0)"
  by (simp add: mw_one_def)

lemma wval_take: "wval (take n a) = wval a mod 2 ^ (64 * n)"
proof (cases "n \<le> length a")
  case True
  then have "wval a = wval (take n a) + 2 ^ (64 * n) * wval (drop n a)"
    using wval_take_drop [of a n] by (simp add: min_def)
  moreover have "wval (take n a) < 2 ^ (64 * n)"
    using wval_bound [of "take n a"] True by simp
  ultimately show ?thesis by simp
next
  case False
  have "wval a < 2 ^ (64 * length a)" by (rule wval_bound)
  also have "\<dots> \<le> 2 ^ (64 * n)" using False by simp
  finally show ?thesis using False by simp
qed

lemma wval_update_last:
  assumes "length a = Suc m"
  shows "wval (a[m := x]) = wval a mod 2 ^ (64 * m) + 2 ^ (64 * m) * unat x"
proof -
  have "a[m := x] = take m a @ [x]"
    using assms by (simp add: list_update_append upd_conv_take_nth_drop)
  then show ?thesis using assms by (simp add: wval_append wval_take)
qed

lemma nth_unat_wval:
  assumes "k < length a"
  shows "unat (a ! k) = wval a div 2 ^ (64 * k) mod 2 ^ 64"
  using assms
proof (induction a arbitrary: k)
  case (Cons x a)
  show ?case
  proof (cases k)
    case 0
    then show ?thesis by simp
  next
    case (Suc j)
    have "(unat x + 2 ^ 64 * wval a) div 2 ^ (64 * Suc j) = wval a div 2 ^ (64 * j)"
      using unat_lt_64 [of x] by (simp add: power_add div_mult2_eq)
    then show ?thesis using Suc Cons by simp
  qed
qed simp

lemma nwords_bounds:
  assumes "0 < w"
  shows "64 * (mw_nwords w - 1) < w" and "w \<le> 64 * mw_nwords w" and "0 < mw_nwords w"
  using assms by (simp_all add: mw_nwords_def)

lemma unat_and_mask: "unat (x AND mask n :: u64) = unat x mod 2 ^ n"
proof -
  have "unat (x AND mask n) = take_bit n (unat x)"
    by (simp only: take_bit_eq_mask [symmetric] unsigned_take_bit_eq)
  then show ?thesis by (simp only: take_bit_eq_mod)
qed

lemma wval_mw_mask [wval_simps]: "wval (mw_mask a w) = wval a mod 2 ^ w"
proof (cases "w = 0")
  case True
  then show ?thesis by (cases a) (simp_all add: mw_mask_def mw_nwords_def low_mask_def)
next
  case False
  define n where "n = mw_nwords w"
  define m where "m = n - 1"
  define a1 where "a1 = take n a @ replicate (n - length a) 0"
  have n: "n = Suc m" "64 * m < w" "w \<le> 64 * n"
    using nwords_bounds [of w] False by (auto simp: m_def n_def)
  define t where "t = w - 64 * m"
  have t: "t \<le> 64" "w = 64 * m + t" using n by (simp_all add: t_def)
  have len: "length a1 = Suc m" using n by (simp add: a1_def)
  have v: "wval a1 = wval a mod 2 ^ (64 * n)"
    by (simp add: a1_def wval_append wval_take)
  have u: "unat (a1 ! m AND low_mask t) = wval a1 div 2 ^ (64 * m) mod 2 ^ t"
  proof -
    have "unat (a1 ! m AND low_mask t) = unat (a1 ! m) mod 2 ^ t"
      using t by (simp add: low_mask_eq unat_and_mask min_def)
    also have "\<dots> = wval a1 div 2 ^ (64 * m) mod 2 ^ 64 mod 2 ^ t"
      using len by (simp add: nth_unat_wval)
    also have "\<dots> = wval a1 div 2 ^ (64 * m) mod 2 ^ t"
      by (rule mod_mod_cancel) (rule le_imp_power_dvd [OF t(1)])
    finally show ?thesis .
  qed
  have "mw_mask a w = a1[m := (a1 ! m) AND low_mask t]"
    using n by (simp add: mw_mask_def Let_def a1_def t_def flip: n_def)
  then have "wval (mw_mask a w) = wval a1 mod 2 ^ (64 * m) + 2 ^ (64 * m) * (wval a1 div 2 ^ (64 * m) mod 2 ^ t)"
    using len u by (simp add: wval_update_last)
  also have "\<dots> = wval a1 mod 2 ^ w"
    by (simp add: t(2) power_add mod_mult2_eq)
  also have "\<dots> = wval a mod 2 ^ w"
    using n by (simp add: v mod_mod_cancel le_imp_power_dvd)
  finally show ?thesis .
qed

section \<open>Multiplication\<close>

text \<open>
  The inner loop of \<open>mw_mul\<close> for one multiplier word \<open>ai\<close>: it walks the output words
  from position \<open>i\<close> on and the words of \<open>b\<close> from 0 on, with a 128-bit accumulator.
  The outer loop runs it for every word of \<open>a\<close> below \<open>n\<close> and skips zero words.
\<close>

fun mul_row :: "u64 \<Rightarrow> u64 list \<Rightarrow> u64 list \<Rightarrow> u128 \<Rightarrow> u64 list" where
  "mul_row ai [] b carry = []"
| "mul_row ai (out # outs) b carry =
     (let cur = ucast ai * ucast (wget b 0) + ucast out + carry
      in ucast cur # mul_row ai outs (tl b) (drop_bit 64 cur))"

definition mw_mul :: "u64 list \<Rightarrow> u64 list \<Rightarrow> nat \<Rightarrow> u64 list" where
  "mw_mul a b n =
     fold (\<lambda>i out. if a ! i = 0 then out else take i out @ mul_row (a ! i) (drop i out) b 0)
       [0..<min n (length a)] (replicate n 0)"

lemma mul_row_no_overflow:
  fixes a b o' :: u64 and c :: u128
  assumes "unat c < 2 ^ 64"
  defines "cur \<equiv> ucast a * ucast b + ucast o' + c :: u128"
  shows "unat cur = unat a * unat b + unat o' + unat c"
proof -
  have p: "unat a * unat b \<le> (2 ^ 64 - 1) * (2 ^ 64 - 1)"
    using unat_lt_64 [of a] unat_lt_64 [of b] by (intro mult_le_mono) linarith+
  have b: "unat a * unat b + unat o' + unat c < 2 ^ 128"
    using p unat_lt_64 [of o'] assms(1) by simp
  have "unat (ucast a * ucast b :: u128) = unat a * unat b"
    using b by (simp add: unat_word_ariths)
  then show ?thesis using b by (simp add: cur_def unat_word_ariths)
qed

lemma length_mul_row [simp]: "length (mul_row ai outs b c) = length outs"
  by (induction outs arbitrary: b c) (simp_all add: Let_def)

lemma wval_mul_row:
  assumes "unat c < 2 ^ 64"
  shows "wval (mul_row ai outs b c)
    = (wval outs + unat ai * wval b + unat c) mod 2 ^ (64 * length outs)"
  using assms
proof (induction ai outs b c rule: mul_row.induct)
  case (1 ai b carry)
  then show ?case by simp
next
  case (2 ai out outs b carry)
  let ?cur = "ucast ai * ucast (wget b 0) + ucast out + carry :: u128"
  let ?t = "unat ai * unat (wget b 0) + unat out + unat carry"
  let ?M = "2 ^ (64 * length outs) :: nat"
  have cur: "unat ?cur = ?t" using "2.prems" by (rule mul_row_no_overflow)
  have hi: "unat (drop_bit 64 ?cur) = ?t div 2 ^ 64"
    by (simp only: unat_drop cur)
  have lo: "unat (ucast ?cur :: u64) = ?t mod 2 ^ 64"
    by (simp only: unat_ucast_down cur)
  have "unat ?cur < 2 ^ 128" using unsigned_less [of ?cur] by simp
  then have "unat (drop_bit 64 ?cur) < 2 ^ 64"
    by (simp only: hi cur) (simp add: div_less_iff_less_mult)
  from "2.IH" [OF refl this]
  have "wval (mul_row ai (out # outs) b carry)
      = ?t mod 2 ^ 64 + 2 ^ 64 * ((wval outs + unat ai * wval (tl b) + ?t div 2 ^ 64) mod ?M)"
    by (simp only: mul_row.simps Let_def wval.simps lo hi)
  also have "\<dots> = (?t mod 2 ^ 64 + 2 ^ 64 * (wval outs + unat ai * wval (tl b) + ?t div 2 ^ 64)) mod (2 ^ 64 * ?M)"
    by (rule limb_mod) simp
  also have "?t mod 2 ^ 64 + 2 ^ 64 * (wval outs + unat ai * wval (tl b) + ?t div 2 ^ 64)
      = (?t mod 2 ^ 64 + 2 ^ 64 * (?t div 2 ^ 64)) + 2 ^ 64 * (wval outs + unat ai * wval (tl b))"
    by (simp only: distrib_left)
  also have "\<dots> = ?t + 2 ^ 64 * (wval outs + unat ai * wval (tl b))"
    by (simp only: mod_mult_div_eq)
  also have "\<dots> = wval (out # outs) + unat ai * wval b + unat carry"
    using wval_hd_tl [of b] by (simp add: algebra_simps)
  finally show ?case by (simp add: power_add)
qed

lemma mul_outer_step:
  assumes "length out = n" and "i < n" and "i < length a"
    and out: "wval out = (wval (take i a) * wval b) mod 2 ^ (64 * n)"
  shows "wval (take i out @ mul_row (a ! i) (drop i out) b 0)
    = (wval (take (Suc i) a) * wval b) mod 2 ^ (64 * n)"
proof -
  let ?p = "2 ^ (64 * i) :: nat"
  have M: "2 ^ (64 * n) = ?p * 2 ^ (64 * (n - i))"
    using assms(2) by (simp flip: power_add)
  have split: "wval out = wval (take i out) + ?p * wval (drop i out)"
    using wval_take_drop [of out i] assms by (simp add: min_def)
  have lt: "wval (take i out) < ?p"
    using wval_bound [of "take i out"] assms by simp
  have "wval (take i out @ mul_row (a ! i) (drop i out) b 0)
      = wval (take i out) + ?p * ((wval (drop i out) + unat (a ! i) * wval b) mod 2 ^ (64 * (n - i)))"
    using assms by (simp add: wval_append wval_mul_row)
  also have "\<dots> = (wval (take i out) + ?p * (wval (drop i out) + unat (a ! i) * wval b)) mod 2 ^ (64 * n)"
    unfolding M by (rule limb_mod) (rule lt)
  also have "wval (take i out) + ?p * (wval (drop i out) + unat (a ! i) * wval b)
      = wval out + ?p * unat (a ! i) * wval b"
    by (simp add: split algebra_simps)
  also have "\<dots> mod 2 ^ (64 * n) = (wval (take i a) * wval b + ?p * unat (a ! i) * wval b) mod 2 ^ (64 * n)"
    by (simp add: out mod_add_left_eq)
  also have "wval (take i a) * wval b + ?p * unat (a ! i) * wval b = wval (take (Suc i) a) * wval b"
    using assms(3) by (simp add: take_Suc_conv_app_nth wval_append algebra_simps min_def)
  finally show ?thesis .
qed

lemma wval_mw_mul_upto:
  assumes "k \<le> min n (length a)"
  shows "length (fold (\<lambda>i out. if a ! i = 0 then out else take i out @ mul_row (a ! i) (drop i out) b 0)
           [0..<k] (replicate n 0)) = n
    \<and> wval (fold (\<lambda>i out. if a ! i = 0 then out else take i out @ mul_row (a ! i) (drop i out) b 0)
           [0..<k] (replicate n 0)) = (wval (take k a) * wval b) mod 2 ^ (64 * n)"
  using assms
proof (induction k)
  case 0
  then show ?case by simp
next
  case (Suc k)
  let ?o = "fold (\<lambda>i out. if a ! i = 0 then out else take i out @ mul_row (a ! i) (drop i out) b 0)
       [0..<k] (replicate n 0)"
  have IH: "length ?o = n" "wval ?o = (wval (take k a) * wval b) mod 2 ^ (64 * n)"
    using Suc by simp_all
  show ?case
  proof (cases "a ! k = 0")
    case True
    then have "wval (take (Suc k) a) = wval (take k a)"
      using Suc.prems by (simp add: take_Suc_conv_app_nth wval_append)
    then show ?thesis using IH True by simp
  next
    case False
    then show ?thesis using IH Suc.prems mul_outer_step [of ?o n k a b] by simp
  qed
qed

lemma length_mw_mul [simp]: "length (mw_mul a b n) = n"
  using wval_mw_mul_upto [of "min n (length a)" n a b] by (simp add: mw_mul_def)

lemma wval_mw_mul [wval_simps]: "wval (mw_mul a b n) = (wval a * wval b) mod 2 ^ (64 * n)"
proof -
  have "wval (mw_mul a b n) = (wval (take (min n (length a)) a) * wval b) mod 2 ^ (64 * n)"
    using wval_mw_mul_upto [of "min n (length a)" n a b] by (simp add: mw_mul_def)
  also have "wval (take (min n (length a)) a) = wval a mod 2 ^ (64 * n)"
    by (simp add: min_def flip: wval_take)
  finally show ?thesis by (simp add: mod_mult_left_eq)
qed

section \<open>Comparison\<close>

datatype ordering = Less | Equal | Greater

definition cmp_of :: "'a::linorder \<Rightarrow> 'a \<Rightarrow> ordering" where
  "cmp_of a b = (if a < b then Less else if a = b then Equal else Greater)"

fun mw_cmp_go :: "nat \<Rightarrow> u64 list \<Rightarrow> u64 list \<Rightarrow> ordering" where
  "mw_cmp_go 0 a b = Equal"
| "mw_cmp_go (Suc k) a b =
     (case cmp_of (wget a k) (wget b k) of
        Equal \<Rightarrow> mw_cmp_go k a b
      | ord \<Rightarrow> ord)"

definition mw_cmp :: "u64 list \<Rightarrow> u64 list \<Rightarrow> ordering" where
  "mw_cmp a b = mw_cmp_go (max (length a) (length b)) a b"

lemma cmp_of_unat: "cmp_of (x :: u64) y = cmp_of (unat x) (unat y)"
  by (simp add: cmp_of_def word_less_nat_alt word_unat_eq_iff)

lemma wval_take_Suc_wget: "wval (take (Suc k) a) = wval (take k a) + 2 ^ (64 * k) * unat (wget a k)"
proof (cases "k < length a")
  case True
  then show ?thesis by (simp add: take_Suc_conv_app_nth wval_append wget_in min_def)
next
  case False
  then show ?thesis by (simp add: wget_out)
qed

lemma cmp_of_high:
  fixes x y u v B :: nat
  assumes "x < B" and "y < B"
  shows "cmp_of (x + B * u) (y + B * v) = (case cmp_of u v of Equal \<Rightarrow> cmp_of x y | ord \<Rightarrow> ord)"
proof (cases u v rule: linorder_cases)
  case less
  then have "B * Suc u \<le> B * v" by (intro mult_le_mono2) simp
  then show ?thesis using assms less by (simp add: cmp_of_def)
next
  case greater
  then have "B * Suc v \<le> B * u" by (intro mult_le_mono2) simp
  then show ?thesis using assms greater by (simp add: cmp_of_def)
qed (simp add: cmp_of_def)

lemma mw_cmp_go_eq: "mw_cmp_go k a b = cmp_of (wval (take k a)) (wval (take k b))"
proof (induction k)
  case 0
  then show ?case by (simp add: cmp_of_def)
next
  case (Suc k)
  have "wval (take k c) < 2 ^ (64 * k)" for c
    by (simp add: wval_take)
  then show ?case
    by (simp add: Suc wval_take_Suc_wget cmp_of_high cmp_of_unat split: ordering.split)
qed

lemma mw_cmp_eq [wval_simps]: "mw_cmp a b = cmp_of (wval a) (wval b)"
  by (simp add: mw_cmp_def mw_cmp_go_eq)

section \<open>Division\<close>

text \<open>
  The one-word-divisor loop, from the top word down: the quotient words and the running
  remainder.  The same loop, with the divisor \<open>10 ^ 19\<close>, is the body of \<open>mw_decimal\<close>.
\<close>

fun short_div :: "u128 \<Rightarrow> u64 list \<Rightarrow> u64 list \<times> u128" where
  "short_div d [] = ([], 0)"
| "short_div d (x # a) =
     (let (q, rem) = short_div d a;
          cur = push_bit 64 rem OR ucast x
      in (ucast (cur div d) # q, cur mod d))"

text \<open>\<open>rem = (rem << 1) | carry\<close> over the words of \<open>rem\<close>.\<close>

fun shl1 :: "u64 \<Rightarrow> u64 list \<Rightarrow> u64 list" where
  "shl1 carry [] = []"
| "shl1 carry (word # rem) = (push_bit 1 word OR carry) # shl1 (drop_bit 63 word) rem"

text \<open>One round of the restoring division, for dividend bit \<open>i\<close>.\<close>

definition restoring_step ::
    "u64 list \<Rightarrow> u64 list \<Rightarrow> u64 list \<Rightarrow> nat \<Rightarrow> u64 list \<times> u64 list \<Rightarrow> u64 list \<times> u64 list" where
  "restoring_step a bx neg_bx i qr =
     (let (q, rem) = qr;
          carry = drop_bit (i mod 64) (a ! (i div 64)) AND 1;
          rem = shl1 carry rem
      in if mw_cmp rem bx \<noteq> Less
         then (q[i div 64 := (q ! (i div 64)) OR push_bit (i mod 64) 1], mw_add_inplace rem neg_bx)
         else (q, rem))"

definition mw_divmod :: "u64 list \<Rightarrow> u64 list \<Rightarrow> (u64 list \<times> u64 list) option" where
  "mw_divmod a b =
     (let n = length a in
      if list_all (\<lambda>x. x = 0) (drop 1 b) then
        (if b = [] \<or> n = 0 \<or> b ! 0 = 0 then None
         else let (q, rem) = short_div (ucast (b ! 0)) a
              in Some (q, (replicate n 0)[0 := ucast rem]))
      else
        (let bx = b @ [0];
             neg_bx = mw_neg bx;
             (q, rem) = foldr (restoring_step a bx neg_bx) [0..<n * 64]
                          (replicate n 0, replicate (n + 1) 0)
         in Some (q, take n rem)))"

lemma cur_exact:
  fixes rem :: u128 and x :: u64
  assumes "unat rem < 2 ^ 64"
  shows "unat (push_bit 64 rem OR ucast x) = unat x + 2 ^ 64 * unat rem"
proof -
  have "push_bit 64 rem OR ucast x = push_bit 64 rem + (ucast x :: u128)"
    by (rule disjunctive_add [symmetric])
      (auto simp: bit_push_bit_iff bit_ucast_iff dest: bit_imp_le_length)
  moreover have "unat (push_bit 64 rem) = 2 ^ 64 * unat rem"
  proof -
    have "unat (push_bit 64 rem) = (unat rem * 2 ^ 64) mod 2 ^ 128"
      by (simp add: push_bit_eq_mult unat_word_ariths)
    then show ?thesis using assms by (simp add: mult.commute)
  qed
  ultimately show ?thesis
    using assms unat_lt_64 [of x] by (simp add: unat_word_ariths)
qed

lemma length_short_div [simp]: "length (fst (short_div d a)) = length a"
  by (induction a) (simp_all add: Let_def case_prod_beta)

lemma short_div_correct:
  assumes "0 < unat d" and "unat d < 2 ^ 64"
  shows "wval (fst (short_div d a)) = wval a div unat d \<and> unat (snd (short_div d a)) = wval a mod unat d"
proof (induction a)
  case Nil
  then show ?case by simp
next
  case (Cons x a)
  obtain q rem where qr: "short_div d a = (q, rem)" by fastforce
  let ?d = "unat d" and ?cur = "push_bit 64 rem OR ucast x :: u128"
  have IH: "wval q = wval a div ?d" "unat rem = wval a mod ?d"
    using Cons qr by simp_all
  have rem: "unat rem < ?d" using assms(1) by (simp add: IH)
  then have cur: "unat ?cur = unat x + 2 ^ 64 * unat rem"
    using assms(2) by (intro cur_exact) linarith
  have "unat x + 2 ^ 64 * unat rem < 2 ^ 64 * ?d"
  proof -
    have "unat x + 2 ^ 64 * unat rem < 2 ^ 64 * Suc (unat rem)"
      using unat_lt_64 [of x] by simp
    also have "\<dots> \<le> 2 ^ 64 * ?d" using rem by (intro mult_le_mono2) simp
    finally show ?thesis .
  qed
  then have small: "unat ?cur div ?d < 2 ^ 64"
    using assms(1) by (simp add: cur div_less_iff_less_mult mult.commute)
  have wa: "wval (x # a) = unat ?cur + 2 ^ 64 * (wval q * ?d)"
  proof -
    have "wval a = wval q * ?d + unat rem" by (simp add: IH)
    then show ?thesis by (simp only: wval.simps cur) (simp add: algebra_simps)
  qed
  have "wval (x # a) div ?d = unat ?cur div ?d + 2 ^ 64 * wval q"
    using assms(1) unfolding wa by (simp only: mult.assoc [symmetric] div_mult_self1)
  moreover have "wval (x # a) mod ?d = unat ?cur mod ?d"
    unfolding wa by (simp add: mult.assoc [symmetric])
  moreover have "unat (ucast (?cur div d) :: u64) = unat ?cur div ?d"
    using small by (simp add: unat_ucast_down unat_div)
  ultimately show ?case
    by (simp add: qr Let_def unat_mod)
qed

lemma shift_and_1: "drop_bit s (x :: 'a::len word) AND 1 = of_bool (bit x s)"
  by (simp add: and_one_eq mod_2_eq_odd bit_iff_odd_drop_bit)

lemma odd_wval_div: "odd (wval a div 2 ^ i) \<longleftrightarrow> pbit a i"
  using bit_wval [of a i] by (simp add: bit_iff_odd)

lemma length_shl1 [simp]: "length (shl1 c ws) = length ws"
  by (induction ws arbitrary: c) simp_all

lemma unat_shl1_word:
  assumes "unat c < 2"
  shows "unat (push_bit 1 w OR c :: u64) = (2 * unat w) mod 2 ^ 64 + unat c"
proof -
  have c: "c = 0 \<or> c = 1"
    using assms by (auto simp: less_2_cases_iff word_unat_eq_iff)
  have "push_bit 1 w OR c = push_bit 1 w + c"
  proof (rule disjunctive_add [symmetric])
    fix n
    have "\<not> bit (push_bit 1 w) 0" by (simp only: bit_push_bit_iff) simp
    moreover have "n \<noteq> 0 \<Longrightarrow> \<not> bit c n" using c by (auto simp: bit_1_iff)
    ultimately show "\<not> bit (push_bit 1 w) n \<or> \<not> bit c n" by (cases n) auto
  qed
  moreover have "unat (push_bit 1 w) = (2 * unat w) mod 2 ^ 64"
    by (simp add: push_bit_eq_mult unat_word_ariths mult.commute)
  moreover have "(2 * unat w) mod 2 ^ 64 + unat c < 2 ^ 64"
  proof -
    have "even ((2 * unat w) mod 2 ^ 64)" by (simp add: dvd_mod)
    then obtain y where y: "(2 * unat w) mod 2 ^ 64 = 2 * y" by (rule evenE)
    have "(2 * unat w) mod 2 ^ 64 < 2 ^ 64" by simp
    then show ?thesis using assms unfolding y by simp
  qed
  ultimately show ?thesis by (simp add: unat_word_ariths)
qed

lemma wval_shl1:
  assumes "unat c < 2"
  shows "wval (shl1 c ws) = (2 * wval ws + unat c) mod 2 ^ (64 * length ws)"
  using assms
proof (induction ws arbitrary: c)
  case (Cons w ws)
  have h: "unat (drop_bit 63 w) = unat w div 2 ^ 63" by (rule unat_drop)
  have "unat w div 2 ^ 63 < 2" using unat_lt_64 [of w] by simp
  then have IH: "wval (shl1 (drop_bit 63 w) ws) = (2 * wval ws + unat w div 2 ^ 63) mod 2 ^ (64 * length ws)"
    using Cons.IH [of "drop_bit 63 w"] by (simp only: h)
  have lt: "(2 * unat w) mod 2 ^ 64 + unat c < 2 ^ 64"
    using unat_shl1_word [OF Cons.prems, of w] unat_lt_64 [of "push_bit 1 w OR c"] by (simp only:)
  have dm: "(2 * unat w) mod 2 ^ 64 + 2 ^ 64 * (unat w div 2 ^ 63) = 2 * unat w"
  proof -
    have "(2 * unat w) div 2 ^ 64 = unat w div 2 ^ 63" by simp
    then show ?thesis using mod_mult_div_eq [of "2 * unat w" "2 ^ 64"] by (simp only:)
  qed
  have "wval (shl1 c (w # ws))
      = ((2 * unat w) mod 2 ^ 64 + unat c) + 2 ^ 64 * ((2 * wval ws + unat w div 2 ^ 63) mod 2 ^ (64 * length ws))"
    by (simp only: shl1.simps wval.simps IH unat_shl1_word [OF Cons.prems])
  also have "\<dots> = (((2 * unat w) mod 2 ^ 64 + unat c) + 2 ^ 64 * (2 * wval ws + unat w div 2 ^ 63))
      mod (2 ^ 64 * 2 ^ (64 * length ws))"
    using lt by (rule limb_mod)
  also have "((2 * unat w) mod 2 ^ 64 + unat c) + 2 ^ 64 * (2 * wval ws + unat w div 2 ^ 63)
      = ((2 * unat w) mod 2 ^ 64 + 2 ^ 64 * (unat w div 2 ^ 63)) + 2 ^ 64 * (2 * wval ws) + unat c"
    by (simp only: distrib_left ac_simps)
  also have "\<dots> = 2 * wval (w # ws) + unat c"
    by (simp only: dm wval.simps) simp
  finally show ?case by (simp add: power_add)
qed simp

lemma wval_set_bit:
  assumes "i < 64 * length q" and "\<not> pbit q i"
  shows "wval (q[i div 64 := (q ! (i div 64)) OR push_bit (i mod 64) 1]) = wval q + 2 ^ i"
proof -
  let ?j = "i div 64" and ?s = "i mod 64"
  have j: "?j < length q" using assms(1) by (simp add: less_mult_imp_div_less mult.commute)
  have nb: "\<not> bit (q ! ?j) ?s" using assms(2) j by (simp add: pbit_def wget_in)
  have u: "unat ((q ! ?j) OR push_bit ?s 1) = unat (q ! ?j) + 2 ^ ?s"
  proof -
    have "bit (unat ((q ! ?j) OR push_bit ?s 1)) n = bit (unat (q ! ?j) OR 2 ^ ?s) n" for n
      by (auto simp: bit_unsigned_iff bit_or_iff bit_push_bit_iff bit_1_iff bit_exp_iff)
    then have "unat ((q ! ?j) OR push_bit ?s 1) = unat (q ! ?j) OR 2 ^ ?s"
      by (rule bit_eqI)
    also have "\<dots> = unat (q ! ?j) + 2 ^ ?s"
      using nb by (intro disjunctive_add [symmetric]) (auto simp: bit_exp_iff bit_unsigned_iff)
    finally show ?thesis .
  qed
  have "(2 :: nat) ^ (64 * ?j) * 2 ^ ?s = 2 ^ i"
    by (simp flip: power_add)
  then show ?thesis
    using wval_update [OF j, of "(q ! ?j) OR push_bit ?s 1"]
    unfolding u distrib_left by linarith
qed

text \<open>Long division of \<open>a\<close> by \<open>b\<close> after the bits from \<open>k\<close> up: quotient bits and remainder.\<close>

definition div_state :: "u64 list \<Rightarrow> u64 list \<Rightarrow> nat \<Rightarrow> u64 list \<times> u64 list \<Rightarrow> bool" where
  "div_state a b k qr \<longleftrightarrow>
     length (fst qr) = length a \<and> length (snd qr) = length a + 1 \<and>
     wval (fst qr) = 2 ^ k * (wval a div 2 ^ k div wval b) \<and>
     wval (snd qr) = wval a div 2 ^ k mod wval b"

lemma div_mod_double:
  fixes x B b :: nat
  assumes "0 < B" and "b < 2"
  shows "(2 * x + b) div B = 2 * (x div B) + (if B \<le> 2 * (x mod B) + b then 1 else 0)"
    and "(2 * x + b) mod B = 2 * (x mod B) + b - (if B \<le> 2 * (x mod B) + b then B else 0)"
proof -
  let ?r = "2 * (x mod B) + b"
  have e: "2 * x + b = ?r + B * (2 * (x div B))"
  proof -
    have "B * (2 * (x div B)) = 2 * (B * (x div B))" by simp
    then show ?thesis using mult_div_mod_eq [of B x] by linarith
  qed
  have r: "?r < 2 * B" using assms mod_less_divisor [of B x] by linarith
  have d: "?r div B = (if B \<le> ?r then 1 else 0)"
    using r assms(1) by (auto simp: div_nat_eqI)
  show "(2 * x + b) div B = 2 * (x div B) + (if B \<le> ?r then 1 else 0)"
    using assms(1) by (subst e) (simp add: d)
  have m: "?r mod B = ?r - (if B \<le> ?r then B else 0)"
    using r by (auto simp: le_mod_geq)
  show "(2 * x + b) mod B = ?r - (if B \<le> ?r then B else 0)"
    by (subst e) (simp add: m)
qed

lemma restoring_step_state:
  assumes st: "div_state a b (Suc k) qr" and k: "k < 64 * length a"
    and b: "wval b \<noteq> 0" "length a \<le> length b"
  shows "div_state a b k (restoring_step a (b @ [0]) (mw_neg (b @ [0])) k qr)"
proof -
  obtain q rem where qr: "qr = (q, rem)" by fastforce
  let ?n = "length a" and ?B = "wval b"
  define x where "x = wval a div 2 ^ Suc k"
  define c where "c = (of_bool (pbit a k) :: nat)"
  have len: "length q = ?n" "length rem = ?n + 1"
    and q: "wval q = 2 ^ Suc k * (x div ?B)" and rem: "wval rem = x mod ?B"
    using st by (simp_all add: div_state_def qr x_def)
  have top: "wval a div 2 ^ k = 2 * x + c"
  proof -
    have "wval a div 2 ^ k = 2 * (wval a div 2 ^ k div 2) + (wval a div 2 ^ k) mod 2"
      by (rule mult_div_mod_eq [symmetric])
    also have "wval a div 2 ^ k div 2 = x" by (simp only: x_def power_Suc2 div_mult2_eq)
    also have "(wval a div 2 ^ k) mod 2 = c"
      by (simp add: c_def mod_2_eq_odd odd_wval_div)
    finally show ?thesis .
  qed
  let ?c = "drop_bit (k mod 64) (a ! (k div 64)) AND 1"
  have cw: "unat ?c = c"
    using k by (simp add: shift_and_1 c_def pbit_def wget_in less_mult_imp_div_less mult.commute)
  let ?r = "shl1 ?c rem"
  have "2 * (x mod ?B) + c \<le> wval a div 2 ^ k"
    using top by simp
  also have "\<dots> \<le> wval a" by simp
  also have "\<dots> < 2 ^ (64 * (?n + 1))"
    using wval_bound [of a] less_le_trans by (metis le_add1 mult_le_mono2 one_le_numeral power_increasing)
  finally have small: "2 * (x mod ?B) + c < 2 ^ (64 * (?n + 1))" .
  have "unat ?c < 2" by (simp add: cw c_def)
  then have r: "wval ?r = 2 * (x mod ?B) + c"
    using small by (simp add: wval_shl1 len rem cw)
  have lr: "length ?r = ?n + 1" by (simp add: len)
  have c2: "c < 2" by (simp add: c_def)
  have B0: "0 < ?B" using b(1) by simp
  note dm = div_mod_double [OF B0 c2, of x, folded top r]
  show ?thesis
  proof (cases "?B \<le> wval ?r")
    case True
    let ?q = "q[k div 64 := (q ! (k div 64)) OR push_bit (k mod 64) 1]"
    let ?rem = "mw_add_inplace ?r (mw_neg (b @ [0]))"
    have ge: "mw_cmp ?r (b @ [0]) \<noteq> Less"
      using True by (simp add: mw_cmp_eq cmp_of_def wval_append)
    have "\<not> pbit q k"
      by (simp add: bit_wval [symmetric] q bit_iff_odd mult.assoc)
    then have wq: "wval ?q = wval q + 2 ^ k"
      using k len by (intro wval_set_bit) simp_all
    have wr: "wval ?rem = wval ?r - ?B"
    proof -
      let ?M = "2 ^ (64 * (?n + 1)) :: nat" and ?N = "2 ^ (64 * (length b + 1)) :: nat"
      have dvd: "?M dvd ?N" using b(2) by (intro le_imp_power_dvd) simp
      have BN: "?B < ?N"
        using wval_bound [of "b @ [0]"] by (simp add: wval_append)
      have rM: "wval ?r < ?M" using small r by simp
      have "wval ?rem = (wval ?r + (?N - ?B) mod ?N) mod ?M"
        by (simp add: mw_add_inplace_eq wval_mw_add wval_mw_neg len wval_append del: power_Suc)
      also have "(?N - ?B) mod ?N = ?N - ?B"
        using b(1) BN by (intro mod_less) linarith
      also have "wval ?r + (?N - ?B) = (wval ?r - ?B) + ?N"
        using True BN by simp
      also have "\<dots> mod ?M = (wval ?r - ?B) mod ?M"
      proof -
        obtain t where "?N = ?M * t" using dvd by (rule dvdE)
        then show ?thesis by (simp only: mod_mult_self2)
      qed
      finally show ?thesis using rM by simp
    qed
    have "restoring_step a (b @ [0]) (mw_neg (b @ [0])) k qr = (?q, ?rem)"
      using ge by (simp add: restoring_step_def qr Let_def)
    moreover have "wval ?q = 2 ^ k * (wval a div 2 ^ k div ?B)"
      unfolding wq q using dm(1) True by (simp add: algebra_simps)
    moreover have "wval ?rem = wval a div 2 ^ k mod ?B"
      using dm(2) True wr by simp
    ultimately show ?thesis
      by (simp add: div_state_def len mw_add_inplace_eq)
  next
    case False
    then have lt: "mw_cmp ?r (b @ [0]) = Less"
      by (simp add: mw_cmp_eq cmp_of_def wval_append)
    then have "restoring_step a (b @ [0]) (mw_neg (b @ [0])) k qr = (q, ?r)"
      by (simp add: restoring_step_def qr Let_def)
    moreover have "wval q = 2 ^ k * (wval a div 2 ^ k div ?B)"
      using dm(1) False by (simp add: q)
    moreover have "wval ?r = wval a div 2 ^ k mod ?B"
      using dm(2) False by simp
    ultimately show ?thesis
      by (simp add: div_state_def len)
  qed
qed

lemma restoring_division:
  assumes "wval b \<noteq> 0" and "length a \<le> length b" and "k \<le> length a * 64"
  shows "div_state a b k (foldr (restoring_step a (b @ [0]) (mw_neg (b @ [0]))) [k..<length a * 64]
           (replicate (length a) 0, replicate (length a + 1) 0))"
  using assms(3)
proof (induction rule: inc_induct)
  case base
  have "wval a div 2 ^ (length a * 64) = 0"
    using wval_bound [of a] by (simp add: mult.commute)
  then show ?case by (simp add: div_state_def del: replicate_Suc)
next
  case (step k)
  then show ?case
    using restoring_step_state [OF step.IH, of] assms by (simp add: upt_conv_Cons mult.commute)
qed

lemma mw_divmod_correct:
  assumes "a \<noteq> []" and "wval b \<noteq> 0" and "length a \<le> length b \<or> list_all (\<lambda>x. x = 0) (drop 1 b)"
  obtains q r where "mw_divmod a b = Some (q, r)" "length q = length a" "length r = length a"
    "wval q = wval a div wval b" "wval r = wval a mod wval b"
proof (cases "list_all (\<lambda>x. x = 0) (drop 1 b)")
  case True
  obtain d ds where b: "b = d # ds" using assms by (cases b) auto
  have ds: "wval ds = 0" using True by (simp add: b list_all_iff wval_eq_0_iff)
  have d: "0 < unat d" "wval b = unat d" using assms(2) ds by (simp_all add: b)
  obtain q rem where qr: "short_div (ucast d) a = (q, rem)" by fastforce
  have sd: "wval q = wval a div wval b" "unat rem = wval a mod wval b" "length q = length a"
    using short_div_correct [of "ucast d" a] d qr unat_lt_64 [of d] length_short_div [of "ucast d" a]
    by simp_all
  obtain x xs where a: "a = x # xs" using assms(1) by (cases a) auto
  have "unat rem < 2 ^ 64" using sd(2) d unat_lt_64 [of d] by (metis mod_less_divisor less_trans)
  then have "wval ((replicate (length a) 0)[0 := ucast rem]) = wval a mod wval b"
    using sd(2) by (simp add: a unat_ucast_down)
  moreover have "d \<noteq> 0" using d(1) by auto
  then have "mw_divmod a b = Some (q, (replicate (length a) 0)[0 := ucast rem])"
    using True qr assms(1) by (simp add: mw_divmod_def b)
  ultimately show ?thesis using sd that by simp
next
  case False
  obtain q rem where fold: "foldr (restoring_step a (b @ [0]) (mw_neg (b @ [0]))) [0..<length a * 64]
      (replicate (length a) 0, replicate (length a + 1) 0) = (q, rem)" by fastforce
  have "length a \<le> length b" using assms(3) False by blast
  then have "div_state a b 0 (q, rem)"
    using restoring_division [of b a 0] assms(2) fold by simp
  then have st: "length q = length a" "length rem = length a + 1"
      "wval q = wval a div wval b" "wval rem = wval a mod wval b"
    by (simp_all add: div_state_def)
  have "wval rem < 2 ^ (64 * length a)"
    using st(4) wval_bound [of a] by (metis le_less_trans mod_less_eq_dividend)
  then have "wval (take (length a) rem) = wval a mod wval b"
    using st(4) by (simp add: wval_take)
  moreover have "mw_divmod a b = Some (q, take (length a) rem)"
    using False fold by (simp add: mw_divmod_def Let_def)
  ultimately show ?thesis using st that by simp
qed

end
