(* ===== verification/LimbPower.thy ===== *)
theory LimbPower
  imports Limbs
begin

text \<open>
  The two remaining kernels of \<open>crates/sim-ir/src/mw.rs\<close> on top of multiplication and
  short division: square-and-multiply power modulo \<open>2 ^ w\<close> (\<open>mw_pow\<close>, with
  \<open>mw_top_set_bit\<close>) and exact decimal rendering (\<open>mw_decimal\<close>).
\<close>

section \<open>Highest set bit\<close>

text \<open>\<open>(0..v.len() * 64).rev().find(..)\<close>: the search from the top bit down.\<close>

fun top_bit_below :: "u64 list \<Rightarrow> nat \<Rightarrow> nat option" where
  "top_bit_below v 0 = None"
| "top_bit_below v (Suc i) =
     (if drop_bit (i mod 64) (wget v (i div 64)) AND 1 = 1 then Some i else top_bit_below v i)"

definition mw_top_set_bit :: "u64 list \<Rightarrow> nat option" where
  "mw_top_set_bit v = top_bit_below v (length v * 64)"

lemma top_bit_test: "drop_bit (i mod 64) (wget v (i div 64)) AND 1 = 1 \<longleftrightarrow> pbit v i"
  by (simp add: shift_and_1 pbit_def)

lemma top_bit_below_None: "top_bit_below v n = None \<longleftrightarrow> (\<forall>i<n. \<not> pbit v i)"
  by (induction n) (auto simp: top_bit_test less_Suc_eq)

lemma top_bit_below_Some:
  "top_bit_below v n = Some t \<longleftrightarrow> t < n \<and> pbit v t \<and> (\<forall>i<n. t < i \<longrightarrow> \<not> pbit v i)"
  by (induction n) (auto simp: top_bit_test less_Suc_eq)

lemma nat_less_power_iff_bits: "(n :: nat) < 2 ^ k \<longleftrightarrow> (\<forall>i\<ge>k. \<not> bit n i)"
proof
  assume "n < 2 ^ k"
  then show "\<forall>i\<ge>k. \<not> bit n i"
    by (auto simp: bit_iff_odd) (metis div_less even_zero le_imp_power_dvd less_le_trans
        nat_dvd_not_less one_le_numeral power_increasing)
next
  assume h: "\<forall>i\<ge>k. \<not> bit n i"
  have "take_bit k n = n"
  proof (rule bit_eqI)
    fix i show "bit (take_bit k n) i = bit n i"
      using h by (cases "i < k") (auto simp: bit_take_bit_iff)
  qed
  then show "n < 2 ^ k" by (metis take_bit_nat_less_exp)
qed

lemma mw_top_set_bit_None: "mw_top_set_bit v = None \<longleftrightarrow> wval v = 0"
proof -
  have "mw_top_set_bit v = None \<longleftrightarrow> (\<forall>i. \<not> bit (wval v) i)"
    by (auto simp: mw_top_set_bit_def top_bit_below_None bit_wval mult.commute)
      (metis mult.commute not_less pbit_out)
  also have "\<dots> \<longleftrightarrow> wval v = 0"
    using nat_less_power_iff_bits [of "wval v" 0] by simp
  finally show ?thesis .
qed

lemma mw_top_set_bit_Some:
  assumes "mw_top_set_bit v = Some t"
  shows "wval v < 2 ^ Suc t"
proof -
  have "\<not> pbit v i" if "Suc t \<le> i" for i
    using assms that pbit_out [of v i]
    by (cases "i < length v * 64") (auto simp: mw_top_set_bit_def top_bit_below_Some mult.commute)
  then show ?thesis by (simp only: nat_less_power_iff_bits bit_wval) simp
qed

section \<open>Power\<close>

definition pow_step :: "u64 list \<Rightarrow> nat \<Rightarrow> nat \<Rightarrow> nat \<Rightarrow> nat \<Rightarrow> u64 list \<times> u64 list \<Rightarrow> u64 list \<times> u64 list" where
  "pow_step exp w n hib i st =
     (let (acc, sq) = st;
          acc = (if drop_bit (i mod 64) (wget exp (i div 64)) AND 1 = 1
                 then mw_mask (mw_mul acc sq n) w else acc);
          sq = (if i < hib then mw_mask (mw_mul sq sq n) w else sq)
      in (acc, sq))"

definition mw_pow :: "u64 list \<Rightarrow> u64 list \<Rightarrow> nat \<Rightarrow> u64 list option" where
  "mw_pow base exp w =
     (let n = length base in
      case mw_top_set_bit exp of
        None \<Rightarrow> mw_one n
      | Some hib \<Rightarrow>
          map_option (\<lambda>one. fst (fold (pow_step exp w n hib) [0..<Suc hib] (one, base))) (mw_one n))"

definition pow_state :: "u64 list \<Rightarrow> u64 list \<Rightarrow> nat \<Rightarrow> nat \<Rightarrow> nat \<Rightarrow> u64 list \<times> u64 list \<Rightarrow> bool" where
  "pow_state base exp w hib i st \<longleftrightarrow>
     length (fst st) = length base \<and>
     wval (fst st) = wval base ^ (wval exp mod 2 ^ i) mod 2 ^ w \<and>
     (i \<le> hib \<longrightarrow> wval (snd st) mod 2 ^ w = wval base ^ 2 ^ i mod 2 ^ w)"

lemma mod_2_pow_Suc: "(m :: nat) mod 2 ^ Suc i = m mod 2 ^ i + (if bit m i then 2 ^ i else 0)"
proof -
  have "m mod 2 ^ Suc i = 2 ^ i * (m div 2 ^ i mod 2) + m mod 2 ^ i"
    by (simp only: power_Suc2 mod_mult2_eq)
  then show ?thesis by (auto simp: bit_iff_odd mod_2_eq_odd)
qed

lemma wval_mul_mask:
  assumes "w \<le> 64 * n"
  shows "wval (mw_mask (mw_mul a b n) w) = wval a * wval b mod 2 ^ w"
  using assms by (simp add: wval_mw_mask wval_mw_mul mod_mod_cancel le_imp_power_dvd)

lemma pow_step_state:
  assumes "pow_state base exp w hib i st" and "i \<le> hib" and "0 < w" and "length base = mw_nwords w"
  shows "pow_state base exp w hib (Suc i) (pow_step exp w (length base) hib i st)"
proof -
  obtain acc sq where st: "st = (acc, sq)" by fastforce
  let ?n = "length base" and ?b = "wval base" and ?E = "wval exp"
  have w: "w \<le> 64 * ?n" and n: "max (mw_nwords w) 1 = ?n"
    using nwords_bounds [of w] assms by simp_all
  have acc: "length acc = ?n" "wval acc = ?b ^ (?E mod 2 ^ i) mod 2 ^ w"
    and sq: "wval sq mod 2 ^ w = ?b ^ 2 ^ i mod 2 ^ w"
    using assms by (simp_all add: pow_state_def st)
  let ?acc = "if pbit exp i then mw_mask (mw_mul acc sq ?n) w else acc"
  have "wval ?acc = ?b ^ (?E mod 2 ^ Suc i) mod 2 ^ w"
  proof (cases "pbit exp i")
    case True
    have "wval ?acc = wval acc * wval sq mod 2 ^ w"
      using True w by (simp add: wval_mul_mask)
    also have "\<dots> = (wval acc mod 2 ^ w) * (wval sq mod 2 ^ w) mod 2 ^ w"
      by (rule mod_mult_eq [symmetric])
    also have "\<dots> = ?b ^ (?E mod 2 ^ i) * ?b ^ 2 ^ i mod 2 ^ w"
      by (simp add: acc sq mod_mult_eq)
    finally show ?thesis
      using True by (simp add: mod_2_pow_Suc bit_wval power_add del: power_Suc)
  next
    case False
    then show ?thesis by (simp add: acc mod_2_pow_Suc bit_wval del: power_Suc)
  qed
  moreover have "length ?acc = ?n" using acc n by simp
  moreover have "wval (if i < hib then mw_mask (mw_mul sq sq ?n) w else sq) mod 2 ^ w
      = ?b ^ 2 ^ Suc i mod 2 ^ w" if "Suc i \<le> hib"
  proof -
    have "wval (mw_mask (mw_mul sq sq ?n) w) mod 2 ^ w = (wval sq mod 2 ^ w) * (wval sq mod 2 ^ w) mod 2 ^ w"
      using w by (simp add: wval_mul_mask mod_mult_eq)
    also have "\<dots> = ?b ^ 2 ^ i * ?b ^ 2 ^ i mod 2 ^ w"
      by (simp add: sq mod_mult_eq)
    finally show ?thesis using that by (simp add: mult_2 flip: power_add)
  qed
  ultimately show ?thesis
    by (simp add: pow_state_def pow_step_def st Let_def top_bit_test)
qed

lemma pow_fold_state:
  assumes "pow_state base exp w hib 0 st" and "k \<le> Suc hib" and "0 < w" and "length base = mw_nwords w"
  shows "pow_state base exp w hib k (fold (pow_step exp w (length base) hib) [0..<k] st)"
  using assms(2)
  by (induction k) (auto simp: assms(1) intro: pow_step_state [OF _ _ assms(3,4)])

lemma wval_mw_one: "mw_one n = Some one \<Longrightarrow> wval one = 1 \<and> length one = n"
  by (cases n) (auto simp: mw_one_def)

lemma mw_pow_correct:
  assumes "0 < w" and "length base = mw_nwords w"
  obtains p where "mw_pow base exp w = Some p" "length p = length base"
    "wval p = wval base ^ wval exp mod 2 ^ w"
proof -
  have "0 < length base" using assms nwords_bounds by simp
  then obtain one where one: "mw_one (length base) = Some one" by (auto simp: mw_one_def)
  have v1: "wval one = 1" "length one = length base" using wval_mw_one [OF one] by simp_all
  have w1: "(1 :: nat) < 2 ^ w" using assms(1) by (rule one_less_power [OF _, rotated]) simp
  show ?thesis
  proof (cases "mw_top_set_bit exp")
    case None
    then have "wval exp = 0" by (simp add: mw_top_set_bit_None)
    then have "wval one = wval base ^ wval exp mod 2 ^ w"
      using v1 w1 by (simp only: power_0 mod_less)
    moreover have "mw_pow base exp w = Some one" using None one by (simp add: mw_pow_def)
    ultimately show ?thesis using that v1 by blast
  next
    case (Some hib)
    let ?st = "fold (pow_step exp w (length base) hib) [0..<Suc hib] (one, base)"
    have "pow_state base exp w hib 0 (one, base)"
      using v1 w1 assms(1) by (simp add: pow_state_def)
    then have st: "pow_state base exp w hib (Suc hib) ?st"
      using assms by (intro pow_fold_state) simp_all
    have "wval exp < 2 ^ Suc hib" using Some by (rule mw_top_set_bit_Some)
    then have "wval (fst ?st) = wval base ^ wval exp mod 2 ^ w" "length (fst ?st) = length base"
      using st by (simp_all add: pow_state_def del: upt_Suc power_Suc)
    then show ?thesis using that Some one by (simp add: mw_pow_def del: upt_Suc)
  qed
qed

section \<open>Decimal rendering\<close>

text \<open>\<open>u64::to_string\<close> and the \<open>{c:019}\<close> format.\<close>

definition dec_digit :: "nat \<Rightarrow> char" where
  "dec_digit d = char_of (48 + d)"

fun dec_string :: "nat \<Rightarrow> string" where
  "dec_string n = (if n < 10 then [dec_digit n] else dec_string (n div 10) @ [dec_digit (n mod 10)])"

declare dec_string.simps [simp del]

definition zero_pad :: "nat \<Rightarrow> string \<Rightarrow> string" where
  "zero_pad k s = replicate (k - length s) (dec_digit 0) @ s"

lemma short_div_D:
  "wval (fst (short_div 10000000000000000000 w)) = wval w div 10 ^ 19"
  "unat (snd (short_div 10000000000000000000 w)) = wval w mod 10 ^ 19"
  using short_div_correct [of 10000000000000000000 w] by simp_all

function mw_chunks :: "u64 list \<Rightarrow> u64 list" where
  "mw_chunks w =
     (if mw_is_zero w then []
      else (case short_div 10000000000000000000 w of
              (w', rem) \<Rightarrow> ucast rem # mw_chunks w'))"
  by pat_completeness auto

termination
proof (relation "measure wval")
  fix w x w' rem
  assume "\<not> mw_is_zero w" and "(w', rem) = short_div 10000000000000000000 w"
  then show "(w', w) \<in> measure wval"
    using short_div_D(1) [of w] by (simp add: mw_is_zero_iff) (metis fst_conv div_less_dividend one_less_numeral_iff semiring_norm(76) gr0I)
qed simp

declare mw_chunks.simps [simp del]

definition mw_decimal :: "u64 list \<Rightarrow> string option" where
  "mw_decimal words =
     (if mw_is_zero words then Some [dec_digit 0]
      else (case rev (mw_chunks words) of
              [] \<Rightarrow> None
            | c # cs \<Rightarrow> Some (dec_string (unat c) @ concat (map (\<lambda>c. zero_pad 19 (dec_string (unat c))) cs))))"

lemma dec_string_small: "n < 10 \<Longrightarrow> dec_string n = [dec_digit n]"
  by (simp add: dec_string.simps)

lemma dec_string_big: "10 \<le> n \<Longrightarrow> dec_string n = dec_string (n div 10) @ [dec_digit (n mod 10)]"
  by (subst dec_string.simps) simp

lemma zero_pad_step:
  assumes "0 < k"
  shows "zero_pad (Suc k) (dec_string b) = zero_pad k (dec_string (b div 10)) @ [dec_digit (b mod 10)]"
proof (cases "b < 10")
  case True
  obtain j where "k = Suc j" using assms gr0_implies_Suc by blast
  then show ?thesis using True
    by (simp add: dec_string_small zero_pad_def replicate_append_same)
next
  case False
  then show ?thesis by (simp add: dec_string_big zero_pad_def)
qed

lemma dec_string_concat:
  assumes "0 < a" and "b < 10 ^ Suc k"
  shows "dec_string (a * 10 ^ Suc k + b) = dec_string a @ zero_pad (Suc k) (dec_string b)"
  using assms(2)
proof (induction k arbitrary: b)
  case 0
  then show ?case using assms(1)
    by (simp add: dec_string_big [of "a * 10 + b"] dec_string_small zero_pad_def)
next
  case (Suc k)
  let ?n = "a * 10 ^ Suc (Suc k) + b"
  have e: "?n = b + 10 * (a * 10 ^ Suc k)" by simp
  have d: "?n div 10 = a * 10 ^ Suc k + b div 10" unfolding e by simp
  have m: "?n mod 10 = b mod 10" unfolding e by (rule mod_mult_self2)
  have "10 * 1 \<le> 10 * (a * 10 ^ Suc k)" using assms(1) by (intro mult_le_mono2) simp
  then have "10 \<le> ?n" unfolding e by linarith
  then have "dec_string ?n = dec_string (a * 10 ^ Suc k + b div 10) @ [dec_digit (b mod 10)]"
    by (simp only: dec_string_big d m)
  also have "\<dots> = dec_string a @ zero_pad (Suc k) (dec_string (b div 10)) @ [dec_digit (b mod 10)]"
    using Suc by (simp add: less_mult_imp_div_less mult.commute)
  finally show ?case by (simp only: zero_pad_step zero_less_Suc append_assoc)
qed

lemma mw_chunks_join:
  "\<not> mw_is_zero w \<Longrightarrow>
     \<exists>c cs. rev (mw_chunks w) = c # cs \<and>
       dec_string (unat c) @ concat (map (\<lambda>c. zero_pad 19 (dec_string (unat c))) cs) = dec_string (wval w)"
proof (induction w rule: mw_chunks.induct)
  case (1 w)
  obtain w' rem where sd: "short_div 10000000000000000000 w = (w', rem)" by fastforce
  have v: "wval w' = wval w div 10 ^ 19" "unat rem = wval w mod 10 ^ 19"
    using short_div_D [of w] by (simp_all add: sd)
  have "unat rem < 10 ^ 19" unfolding v by simp
  then have c: "unat (ucast rem :: u64) = unat rem" by (simp add: unat_ucast_down)
  have ch: "mw_chunks w = ucast rem # mw_chunks w'"
    using "1.prems" sd by (subst mw_chunks.simps) simp
  have w: "wval w = wval w' * 10 ^ Suc 18 + unat rem"
  proof -
    have "(10 :: nat) ^ Suc 18 = 10 ^ 19" by simp
    then show ?thesis by (simp only: v div_mult_mod_eq)
  qed
  show ?case
  proof (cases "mw_is_zero w'")
    case True
    then have "mw_chunks w' = []" by (subst mw_chunks.simps) simp
    moreover have "wval w = unat rem" using True w by (simp add: mw_is_zero_iff)
    ultimately show ?thesis by (simp add: ch c)
  next
    case False
    then obtain d ds where ds: "rev (mw_chunks w') = d # ds"
      "dec_string (unat d) @ concat (map (\<lambda>c. zero_pad 19 (dec_string (unat c))) ds) = dec_string (wval w')"
      using "1.IH" [OF "1.prems" sd [symmetric] False] by blast
    have "0 < wval w'" using False by (simp add: mw_is_zero_iff)
    then have "dec_string (wval w) = dec_string (wval w') @ zero_pad (Suc 18) (dec_string (unat rem))"
      unfolding w using \<open>unat rem < 10 ^ 19\<close> by (intro dec_string_concat) simp_all
    then have "dec_string (unat d) @ concat (map (\<lambda>c. zero_pad 19 (dec_string (unat c))) (ds @ [ucast rem]))
        = dec_string (wval w)"
      by (simp add: c ds(2) [symmetric] del: wval.simps)
    moreover have "rev (mw_chunks w) = d # (ds @ [ucast rem])" by (simp add: ch ds(1))
    ultimately show ?thesis by blast
  qed
qed

lemma mw_decimal_correct: "mw_decimal ws = Some (dec_string (wval ws))"
proof (cases "mw_is_zero ws")
  case True
  then show ?thesis by (simp add: mw_decimal_def mw_is_zero_iff dec_string_small)
next
  case False
  then show ?thesis using mw_chunks_join [OF False] by (auto simp: mw_decimal_def)
qed

text \<open>\<open>dec_string\<close> is the decimal numeral: reading it back gives the number.\<close>

definition dec_value :: "string \<Rightarrow> nat" where
  "dec_value s = foldl (\<lambda>n c. 10 * n + (of_char c - 48)) 0 s"

lemma of_dec_digit: "d < 10 \<Longrightarrow> of_char (dec_digit d) = (48 + d :: nat)"
  by (simp add: dec_digit_def)

lemma dec_value_dec_string: "dec_value (dec_string n) = n"
proof (induction n rule: dec_string.induct)
  case (1 n)
  then show ?case
    by (cases "n < 10") (simp_all add: dec_string_small dec_string_big dec_value_def of_dec_digit)
qed

section \<open>Properties\<close>

text \<open>The ring kernels are exact modulo their word grid: \<open>mw_add\<close> and its in-place twin,
  \<open>mw_neg\<close> and \<open>mw_mul\<close> compute the sum, the two's complement and the product modulo
  \<open>2 ^ (64 n)\<close> for the \<open>n\<close> words they return, and \<open>mw_mask\<close> reduces modulo \<open>2 ^ w\<close>.\<close>

theorem mw_ring_exact:
  "wval (mw_add a b) = (wval a + wval b) mod 2 ^ (64 * length a)
   \<and> mw_add_inplace a b = mw_add a b
   \<and> wval (mw_neg a) = (2 ^ (64 * length a) - wval a) mod 2 ^ (64 * length a)
   \<and> wval (mw_mul a b n) = wval a * wval b mod 2 ^ (64 * n)
   \<and> wval (mw_mask a w) = wval a mod 2 ^ w"
  by (intro conjI wval_mw_add mw_add_inplace_eq wval_mw_neg wval_mw_mul wval_mw_mask)

text \<open>C17: Multi-word division is exact: for a non-empty dividend and a non-zero divisor whose words
  above the first are zero, or which has at least as many words as the dividend, \<open>mw_divmod\<close>
  returns the quotient and the remainder, each in as many words as the dividend.\<close>

theorem mw_divmod_exact:
  assumes "a \<noteq> []" and "wval b \<noteq> 0" and "length a \<le> length b \<or> list_all (\<lambda>x. x = 0) (drop 1 b)"
  shows "\<exists>q r. mw_divmod a b = Some (q, r) \<and> length q = length a \<and> length r = length a
    \<and> wval a = wval q * wval b + wval r \<and> wval r < wval b"
proof -
  obtain q r where "mw_divmod a b = Some (q, r)" "length q = length a" "length r = length a"
    "wval q = wval a div wval b" "wval r = wval a mod wval b"
    using mw_divmod_correct [OF assms] by blast
  then show ?thesis using assms(2) by simp
qed

theorem mw_divmod_exact_witness:
  "\<exists>q r. mw_divmod [7, 5] [3, 2] = Some (q, r) \<and> length q = 2 \<and> length r = 2
    \<and> wval [7, 5] = wval q * wval [3, 2] + wval r \<and> wval r < wval [3, 2]"
  using mw_divmod_exact [of "[7, 5]" "[3, 2]"] by (simp del: wval.simps) (simp add: numeral_2_eq_2 [symmetric])

text \<open>Multi-word power is exact modulo \<open>2 ^ w\<close>, for every exponent of any number of words; the
  square-and-multiply loop stops at the exponent's top set bit.\<close>

theorem mw_pow_exact:
  assumes "0 < w" and "length base = mw_nwords w"
  shows "\<exists>p. mw_pow base exp w = Some p \<and> length p = length base \<and> wval p = wval base ^ wval exp mod 2 ^ w"
  using mw_pow_correct [OF assms] by blast

theorem mw_pow_exact_witness:
  "\<exists>p. mw_pow [3, 0] [100] 128 = Some p \<and> length p = 2 \<and> wval p = 3 ^ 100 mod 2 ^ 128"
  using mw_pow_exact [of 128 "[3, 0]" "[100]"] by (simp add: mw_nwords_def numeral_2_eq_2 [symmetric])

text \<open>Decimal rendering of a multi-word number never panics, and reading the digits back gives the
  number: there are no leading zeros and no lost zeros between the 19-digit chunks.\<close>

theorem mw_decimal_reads_back:
  "\<exists>s. mw_decimal words = Some s \<and> dec_value s = wval words \<and> (hd s = CHR ''0'') = (s = ''0'')"
proof -
  have "hd (dec_string n) \<noteq> CHR ''0'' \<or> dec_string n = ''0''" for n
  proof (induction n rule: dec_string.induct)
    case (1 n)
    show ?case
    proof (cases "n < 10")
      case True
      have "d < 10 \<Longrightarrow> dec_digit d = CHR ''0'' \<Longrightarrow> d = 0" for d
        using of_dec_digit [of d] by auto
      then show ?thesis using True by (cases "n = 0") (auto simp: dec_string_small dec_digit_def)
    next
      case False
      have "dec_string (n div 10) \<noteq> ''0''"
        using False dec_value_dec_string [of "n div 10"] by (auto simp: dec_value_def)
      moreover have "dec_string (n div 10) \<noteq> []" by (subst dec_string.simps) simp
      ultimately show ?thesis using 1 False by (simp add: dec_string_big)
    qed
  qed
  then have "(hd (dec_string n) = CHR ''0'') = (dec_string n = ''0'')" for n by (metis list.sel(1))
  then show ?thesis using mw_decimal_correct [of words] dec_value_dec_string by blast
qed

text \<open>Multi-word comparison is numeric comparison, whatever the two lengths.\<close>

theorem mw_cmp_numeric:
  "(mw_cmp a b = Less) = (wval a < wval b) \<and> (mw_cmp a b = Equal) = (wval a = wval b)
   \<and> (mw_cmp a b = Greater) = (wval b < wval a)"
  by (auto simp: mw_cmp_eq cmp_of_def)

end
