(* ===== verification/PlaneWords.thy ===== *)
theory PlaneWords
  imports Prelude
begin

text \<open>
  The word store of a bit plane, \<open>enum Words\<close> of \<open>crates/sim-engine/src/value.rs\<close>: up to two
  words inline, more on the heap.  Every operation is shown to act on the dereferenced
  slice as the \<open>Vec<u64>\<close> operation it replaces, so the rest of the development reads a
  plane as a list of words.  The contract is the interface \<open>word_store\<close>, interpreted on
  the code's representation.
\<close>

section \<open>The representation\<close>

text \<open>\<open>Inline w0 w1 len\<close> stands for \<open>Inline { w: [w0, w1], len }\<close>.\<close>

datatype words = Inline u64 u64 nat | Heap "u64 list"

text \<open>\<open>&w[..len]\<close>; the slice panics when \<open>len > 2\<close>, which \<open>words_ok\<close> excludes.\<close>

primrec deref :: "words \<Rightarrow> u64 list" where
  "deref (Inline a b n) = take n [a, b]"
| "deref (Heap v) = v"

primrec words_ok :: "words \<Rightarrow> bool" where
  "words_ok (Inline a b n) \<longleftrightarrow> n \<le> 2"
| "words_ok (Heap v) \<longleftrightarrow> True"

definition vec_resize :: "'a list \<Rightarrow> nat \<Rightarrow> 'a \<Rightarrow> 'a list" where
  "vec_resize v n x = take n v @ replicate (n - length v) x"

definition words_zeros :: "nat \<Rightarrow> words" where
  "words_zeros n = (if n \<le> 2 then Inline 0 0 n else Heap (replicate n 0))"

definition words_ones :: "nat \<Rightarrow> words" where
  "words_ones n = (if n \<le> 2 then Inline (- 1) (- 1) n else Heap (replicate n (- 1)))"

definition words_from_word :: "u64 \<Rightarrow> words" where
  "words_from_word x = Inline x 0 1"

text \<open>\<open>w[..c].copy_from_slice(&s[..c])\<close> writes a prefix.\<close>

definition copy_prefix :: "'a list \<Rightarrow> 'a list \<Rightarrow> nat \<Rightarrow> 'a list" where
  "copy_prefix w s c = take c s @ drop c w"

definition words_from_slice_padded :: "u64 list \<Rightarrow> nat \<Rightarrow> words" where
  "words_from_slice_padded s n =
     (let c = min (length s) n in
      if n \<le> 2
      then (let w = copy_prefix [0, 0] s c in Inline (w ! 0) (w ! 1) n)
      else Heap (copy_prefix (replicate n 0) s c))"

text \<open>\<open>w.iter_mut().take(new_len).skip(len)\<close>: the slots the loop of \<open>resize\<close> writes.\<close>

definition fill_slot :: "nat \<Rightarrow> nat \<Rightarrow> u64 \<Rightarrow> nat \<Rightarrow> u64 \<Rightarrow> u64" where
  "fill_slot len new_len fill i x = (if len \<le> i \<and> i < new_len then fill else x)"

fun words_resize :: "words \<Rightarrow> nat \<Rightarrow> u64 \<Rightarrow> words" where
  "words_resize (Inline a b len) new_len fill =
     (if new_len \<le> 2
      then Inline (fill_slot len new_len fill 0 a) (fill_slot len new_len fill 1 b) new_len
      else Heap (vec_resize (take len [a, b]) new_len fill))"
| "words_resize (Heap v) new_len fill = Heap (vec_resize v new_len fill)"

primrec words_into_vec :: "words \<Rightarrow> u64 list" where
  "words_into_vec (Inline a b n) = take n [a, b]"
| "words_into_vec (Heap v) = v"

text \<open>Indexing through \<open>deref_mut\<close>: \<open>None\<close> is the out-of-bounds panic.\<close>

fun words_set :: "words \<Rightarrow> nat \<Rightarrow> u64 \<Rightarrow> words option" where
  "words_set (Inline a b n) i x =
     (if i < n \<and> i < 2 then Some (if i = 0 then Inline x b n else Inline a x n) else None)"
| "words_set (Heap v) i x = (if i < length v then Some (Heap (v[i := x])) else None)"

text \<open>\<open>PartialEq\<close> is equality of the slices, so it does not see the representation.\<close>

definition words_eq :: "words \<Rightarrow> words \<Rightarrow> bool" where
  "words_eq a b \<longleftrightarrow> deref a = deref b"

section \<open>The contract\<close>

lemma length_vec_resize [simp]: "length (vec_resize v n x) = n"
  by (simp add: vec_resize_def)

lemma wget_vec_resize_0: "wget (vec_resize v n 0) k = (if k < n then wget v k else 0)"
  by (auto simp: wget_def vec_resize_def nth_append)

lemma vec_resize_same [simp]: "vec_resize v (length v) x = v"
  by (simp add: vec_resize_def)

locale word_store =
  fixes view :: "'r \<Rightarrow> u64 list" and ok :: "'r \<Rightarrow> bool"
    and zeros_op :: "nat \<Rightarrow> 'r" and from_op :: "u64 list \<Rightarrow> nat \<Rightarrow> 'r"
    and resize_op :: "'r \<Rightarrow> nat \<Rightarrow> u64 \<Rightarrow> 'r" and set_op :: "'r \<Rightarrow> nat \<Rightarrow> u64 \<Rightarrow> 'r option"
  assumes zeros_view: "ok (zeros_op n) \<and> view (zeros_op n) = replicate n 0"
    and from_view: "ok (from_op s n) \<and> view (from_op s n) = vec_resize s n 0"
    and resize_view: "ok r \<Longrightarrow> ok (resize_op r n x) \<and> view (resize_op r n x) = vec_resize (view r) n x"
    and set_view: "ok r \<Longrightarrow> (case set_op r i x of
           None \<Rightarrow> length (view r) \<le> i
         | Some r' \<Rightarrow> i < length (view r) \<and> ok r' \<and> view r' = (view r)[i := x])"
begin

text \<open>A write is seen by the read at its index and by no other.\<close>

lemma set_get:
  assumes "ok r" and "set_op r i x = Some r'"
  shows "wget (view r') j = (if j = i then x else wget (view r) j)"
  using set_view [OF assms(1), of i x] assms(2) by (auto simp: wget_list_update)

lemma set_Some_iff: "ok r \<Longrightarrow> (\<exists>r'. set_op r i x = Some r') \<longleftrightarrow> i < length (view r)"
  using set_view [of r i x] by (auto split: option.splits)

text \<open>Growing with zeros is invisible to defaulted reads; so is shrinking below \<open>k\<close>.\<close>

lemma resize_get: "ok r \<Longrightarrow> wget (view (resize_op r n 0)) k = (if k < n then wget (view r) k else 0)"
  by (simp add: resize_view wget_vec_resize_0)

lemma resize_twice:
  assumes "ok r" and "length (view r) \<le> n" and "n \<le> m"
  shows "view (resize_op (resize_op r n x) m x) = view (resize_op r m x)"
  using assms by (simp add: resize_view vec_resize_def flip: replicate_add)

lemma from_get: "wget (view (from_op s n)) k = (if k < n then wget s k else 0)"
  by (simp add: from_view wget_vec_resize_0)

end

lemma le_2E:
  fixes n :: nat
  assumes "n \<le> 2"
  obtains "n = 0" | "n = 1" | "n = 2"
  using assms by linarith

lemma deref_zeros: "words_ok (words_zeros n) \<and> deref (words_zeros n) = replicate n 0"
proof (cases "n \<le> 2")
  case True
  then show ?thesis by (rule le_2E) (simp_all add: words_zeros_def numeral_2_eq_2)
qed (simp add: words_zeros_def)

lemma deref_ones: "words_ok (words_ones n) \<and> deref (words_ones n) = replicate n (- 1)"
proof (cases "n \<le> 2")
  case True
  then show ?thesis by (rule le_2E) (simp_all add: words_ones_def numeral_2_eq_2)
qed (simp add: words_ones_def)

lemma copy_prefix_replicate:
  "copy_prefix (replicate n 0) s (min (length s) n) = vec_resize s n 0"
  by (auto simp: copy_prefix_def vec_resize_def min_def)

lemma deref_from_slice: "words_ok (words_from_slice_padded s n) \<and>
    deref (words_from_slice_padded s n) = vec_resize s n 0"
proof (cases "n \<le> 2")
  case True
  let ?w = "copy_prefix [0, 0] s (min (length s) n)"
  have l: "length ?w = 2" using True by (simp add: copy_prefix_def)
  then obtain a b where w: "?w = [a, b]" by (auto simp: length_Suc_conv numeral_2_eq_2)
  have "take n ?w = vec_resize s n 0"
    using True
    by (rule le_2E; cases s; cases "tl s")
      (auto simp: copy_prefix_def vec_resize_def min_def numeral_2_eq_2)
  then show ?thesis using True by (simp add: words_from_slice_padded_def Let_def w)
next
  case False
  then show ?thesis by (simp add: words_from_slice_padded_def copy_prefix_replicate)
qed

lemma deref_resize:
  assumes "words_ok r"
  shows "words_ok (words_resize r n x) \<and> deref (words_resize r n x) = vec_resize (deref r) n x"
proof (cases r)
  case (Inline a b len)
  then have "len \<le> 2" using assms by simp
  then show ?thesis
  proof (cases "n \<le> 2")
    case True
    from this \<open>len \<le> 2\<close> show ?thesis
      by (elim le_2E) (simp_all add: Inline vec_resize_def fill_slot_def numeral_2_eq_2)
  qed (simp add: Inline)
qed simp

lemma deref_set:
  assumes "words_ok r"
  shows "case words_set r i x of
           None \<Rightarrow> length (deref r) \<le> i
         | Some r' \<Rightarrow> i < length (deref r) \<and> words_ok r' \<and> deref r' = (deref r)[i := x]"
proof (cases r)
  case (Inline a b len)
  then have "len \<le> 2" using assms by simp
  then show ?thesis
    by (rule le_2E) (auto simp: Inline numeral_2_eq_2 less_Suc_eq)
qed simp

interpretation ws: word_store deref words_ok words_zeros words_from_slice_padded words_resize words_set
  by unfold_locales (simp_all add: deref_zeros deref_from_slice deref_resize deref_set)

lemma words_into_vec_deref: "words_into_vec r = deref r"
  by (cases r) simp_all

section \<open>Properties\<close>

text \<open>The small-vector \<open>Words\<close> (two words inline, more on the heap) is a growable word vector:
  seen through \<open>deref\<close>, construction, \<open>resize\<close>, indexed write and equality are those of the
  vector, so the inline form is invisible, and the inline invariant is kept.\<close>

theorem words_refine_vector:
  assumes "words_ok r" and "words_ok r'"
  shows "deref (words_zeros n) = replicate n 0 \<and> deref (words_ones n) = replicate n (- 1)
    \<and> deref (words_from_slice_padded s n) = vec_resize s n 0
    \<and> words_ok (words_resize r n x) \<and> deref (words_resize r n x) = vec_resize (deref r) n x
    \<and> (words_set r i x \<noteq> None) = (i < length (deref r))
    \<and> (case words_set r i x of None \<Rightarrow> True | Some q \<Rightarrow> words_ok q \<and> deref q = (deref r)[i := x])
    \<and> words_eq r r' = (deref r = deref r') \<and> words_into_vec r = deref r"
  using deref_set [OF assms(1), of i x] deref_resize [OF assms(1), of n x] ws.set_Some_iff [OF assms(1), of i x]
  by (auto simp: deref_zeros deref_ones deref_from_slice words_into_vec_deref words_eq_def split: option.splits)

theorem words_refine_vector_witness:
  "deref (words_resize (Inline 5 0 1) 3 7) = [5, 7, 7] \<and> words_set (Inline 5 0 1) 1 7 = None"
  using words_refine_vector [of "Inline 5 0 1" "Inline 5 0 1" 3 "[]" 7 1]
  by (simp add: vec_resize_def numeral_2_eq_2)

end
