(* ===== verification/Planes.thy ===== *)
theory Planes
  imports Limbs PlaneWords
begin

text \<open>
  One bit plane of a value: the masking, filling and shifting loops that
  \<open>crates/sim-engine/src/value.rs\<close> runs on each of the two planes alike (\<open>top_mask\<close>,
  \<open>mask_top\<close>, \<open>fill_bits\<close>, \<open>resize_word\<close> and the word loops of \<open>resize\<close>, \<open>shr_fill\<close>,
  \<open>shl_grow\<close>), each with the bits of its result.  \<open>plane_ok w\<close> is the canonical form every
  producer maintains: as many words as \<open>w\<close> bits need, at least one, nothing set from bit
  \<open>w\<close> up.
\<close>

section \<open>Word count and top mask\<close>

definition v_nwords :: "nat \<Rightarrow> nat" where
  "v_nwords width = (width + 63) div 64"

definition top_mask :: "nat \<Rightarrow> u64" where
  "top_mask width =
     (let r = width mod 64 in if width = 0 then 0 else if r = 0 then - 1 else push_bit r 1 - 1)"

text \<open>\<open>nwords(width).max(1)\<close>, the length of every plane.\<close>

definition nw1 :: "nat \<Rightarrow> nat" where
  "nw1 w = max (v_nwords w) 1"

lemma v_nwords_eq: "v_nwords w = mw_nwords w"
  by (simp add: v_nwords_def mw_nwords_def)

lemma bit_exp_minus_1: "bit (push_bit n 1 - 1 :: u64) j \<longleftrightarrow> j < n \<and> j < 64"
proof -
  have "push_bit n 1 - 1 = (mask n :: u64)" by (simp add: push_bit_of_1 mask_eq_exp_minus_1)
  then show ?thesis by (simp only: bit_mask_iff) auto
qed

lemma below_word: "i div 64 < m \<Longrightarrow> 64 * m \<le> w \<Longrightarrow> i < (w :: nat)"
  by linarith

lemma nw1_bounds: "0 < nw1 w" "w \<le> 64 * nw1 w" "64 * (nw1 w - 1) \<le> w"
  by (auto simp: nw1_def v_nwords_def max_def)

lemma nw1_less: "i < w \<Longrightarrow> i div 64 < nw1 w"
  using nw1_bounds(2) [of w] by (simp add: less_mult_imp_div_less mult.commute)

lemma nw1_v_nwords: "0 < w \<Longrightarrow> nw1 w = v_nwords w"
  by (simp add: nw1_def v_nwords_def)

lemma bit_top_mask:
  assumes "j < 64"
  shows "bit (top_mask w) j \<longleftrightarrow> 64 * (nw1 w - 1) + j < w"
proof -
  define q r where "q = w div 64" and "r = w mod 64"
  then have w: "w = 64 * q + r" and r: "r < 64" by simp_all
  consider "w = 0" | "r = 0" "0 < q" | "0 < r" using w by fastforce
  then show ?thesis
  proof cases
    case 1
    then show ?thesis by (simp add: top_mask_def nw1_def v_nwords_def)
  next
    case 2
    then have "nw1 w = q" by (simp add: nw1_def v_nwords_def w)
    then show ?thesis using 2 assms by (simp add: top_mask_def w Let_def)
  next
    case 3
    then have "nw1 w = Suc q" using r by (simp add: nw1_def v_nwords_def w)
    then show ?thesis using 3 assms r
      by (simp add: top_mask_def w Let_def bit_exp_minus_1 del: push_bit_of_1)
  qed
qed

section \<open>Canonical planes\<close>

definition plane_ok :: "nat \<Rightarrow> u64 list \<Rightarrow> bool" where
  "plane_ok w ws \<longleftrightarrow> length ws = nw1 w \<and> wget ws (nw1 w - 1) AND NOT (top_mask w) = 0"

lemma and_not_0_iff: "x AND NOT m = 0 \<longleftrightarrow> (\<forall>j<64. bit (x :: u64) j \<longrightarrow> bit m j)"
  by (auto simp: bit_eq_iff bit_simps)

lemma plane_ok_iff:
  "plane_ok w ws \<longleftrightarrow> length ws = nw1 w \<and> (\<forall>i. pbit ws i \<longrightarrow> i < w)"
proof (cases "length ws = nw1 w")
  case l: True
  let ?n = "nw1 w - 1"
  have n: "?n < length ws" using l nw1_bounds(1) [of w] by simp
  have "wget ws ?n AND NOT (top_mask w) = 0 \<longleftrightarrow> (\<forall>j<64. bit (wget ws ?n) j \<longrightarrow> 64 * ?n + j < w)"
    by (auto simp: and_not_0_iff bit_top_mask)
  also have "\<dots> \<longleftrightarrow> (\<forall>i. pbit ws i \<longrightarrow> i < w)"
  proof (intro iffI allI impI)
    fix i assume h: "\<forall>j<64. bit (wget ws ?n) j \<longrightarrow> 64 * ?n + j < w" and b: "pbit ws i"
    from b have i: "i < 64 * nw1 w" using l pbit_out [of ws i] by (simp only:) (meson not_less)
    then have d: "i div 64 \<le> ?n" by linarith
    show "i < w"
    proof (cases "i div 64 = ?n")
      case True
      then have "bit (wget ws ?n) (i mod 64)" using b by (simp add: pbit_def)
      then have "64 * ?n + i mod 64 < w" using h by simp
      then show ?thesis using True by (metis mult_div_mod_eq)
    next
      case False
      then have "i div 64 < ?n" using d by (rule le_neq_implies_less [rotated])
      then show ?thesis using nw1_bounds(3) by (rule below_word)
    qed
  next
    fix j :: nat assume h: "\<forall>i. pbit ws i \<longrightarrow> i < w" and j: "j < 64" and b: "bit (wget ws ?n) j"
    then have "pbit ws (64 * ?n + j)" by (simp add: pbit_def)
    then show "64 * ?n + j < w" using h by blast
  qed
  finally show ?thesis using l by (simp add: plane_ok_def)
qed (simp add: plane_ok_def)

lemma plane_ok_out: "plane_ok w ws \<Longrightarrow> w \<le> i \<Longrightarrow> \<not> pbit ws i"
  by (auto simp: plane_ok_iff)

lemma plane_ext:
  assumes "plane_ok w xs" and "plane_ok w ys" and "\<And>i. i < w \<Longrightarrow> pbit xs i = pbit ys i"
  shows "xs = ys"
proof (rule pbit_ext)
  show "length xs = length ys" using assms by (simp add: plane_ok_iff)
  show "pbit xs i = pbit ys i" for i
    using assms by (cases "i < w") (auto simp: plane_ok_iff)
qed

lemma plane_ok_wval:
  assumes "plane_ok w ws"
  shows "wval ws < 2 ^ w"
proof -
  have "\<not> bit (wval ws) i" if "w \<le> i" for i
    using assms that by (auto simp: bit_wval plane_ok_iff)
  then have "take_bit w (wval ws) = wval ws"
    by (intro bit_eqI) (metis bit_take_bit_iff not_less)
  then show ?thesis by (metis take_bit_nat_less_exp)
qed

lemma wval_less_plane_ok: "length ws = nw1 w \<Longrightarrow> wval ws < 2 ^ w \<Longrightarrow> plane_ok w ws"
proof -
  assume l: "length ws = nw1 w" and v: "wval ws < 2 ^ w"
  have "take_bit w (wval ws) = wval ws" using v by (simp add: take_bit_nat_eq_self)
  then have "i < w" if "bit (wval ws) i" for i using that by (metis bit_take_bit_iff)
  then show ?thesis using l by (simp add: plane_ok_iff bit_wval)
qed

section \<open>Masking\<close>

definition mask_last :: "u64 list \<Rightarrow> nat \<Rightarrow> u64 \<Rightarrow> u64 list" where
  "mask_last ws k m = (if k < length ws then ws[k := (ws ! k) AND m] else ws)"

definition mask_plane :: "nat \<Rightarrow> u64 list \<Rightarrow> u64 list" where
  "mask_plane w ws =
     (let n = nw1 w; ws1 = (if length ws \<noteq> n then vec_resize ws n 0 else ws)
      in mask_last ws1 (n - 1) (top_mask w))"

lemma length_mask_plane [simp]: "length (mask_plane w ws) = nw1 w"
  by (simp add: mask_plane_def mask_last_def Let_def)

lemma wget_mask_plane:
  "wget (mask_plane w ws) k =
     (if k = nw1 w - 1 then wget ws k AND top_mask w else if k < nw1 w then wget ws k else 0)"
proof -
  define ws1 where "ws1 = (if length ws \<noteq> nw1 w then vec_resize ws (nw1 w) 0 else ws)"
  have l: "length ws1 = nw1 w" by (simp add: ws1_def)
  have g: "wget ws1 j = (if j < nw1 w then wget ws j else 0)" for j
    by (cases "length ws = nw1 w") (auto simp: ws1_def wget_vec_resize_0 intro: wget_out)
  have n: "nw1 w - 1 < nw1 w" using nw1_bounds(1) [of w] by linarith
  have "mask_plane w ws = ws1[nw1 w - 1 := wget ws1 (nw1 w - 1) AND top_mask w]"
    using n by (simp only: mask_plane_def Let_def ws1_def [symmetric] mask_last_def l wget_in if_True)
  then show ?thesis using n by (simp only: wget_list_update g l) auto
qed

lemma pbit_mask_plane [pbit_simps]: "pbit (mask_plane w ws) i \<longleftrightarrow> i < w \<and> pbit ws i"
proof (cases "i div 64" "nw1 w - 1" rule: linorder_cases)
  case less
  then have "i < w" using nw1_bounds(3) by (rule below_word)
  moreover have "i div 64 < nw1 w" "i div 64 \<noteq> nw1 w - 1" using less by simp_all
  ultimately show ?thesis by (simp only: pbit_def wget_mask_plane) simp
next
  case equal
  then have "64 * (nw1 w - 1) + i mod 64 = i" by (metis mult_div_mod_eq)
  then have "bit (top_mask w) (i mod 64) \<longleftrightarrow> i < w"
    using bit_top_mask [of "i mod 64" w] by simp
  then show ?thesis using equal by (auto simp: pbit_def wget_mask_plane bit_and_iff)
next
  case greater
  then have "nw1 w \<le> i div 64" using nw1_bounds(1) [of w] by linarith
  then have "\<not> i < w" using nw1_less [of i w] by linarith
  then show ?thesis using greater \<open>nw1 w \<le> i div 64\<close> by (simp add: pbit_def wget_mask_plane)
qed

lemma plane_ok_mask_plane [simp]: "plane_ok w (mask_plane w ws)"
  by (simp add: plane_ok_iff pbit_mask_plane)

lemma mask_plane_id: "plane_ok w ws \<Longrightarrow> mask_plane w ws = ws"
  by (rule plane_ext [where w = w]) (simp_all add: pbit_mask_plane)

lemma plane_ok_zeros [simp]: "plane_ok w (replicate (nw1 w) 0)"
  by (simp add: plane_ok_iff)

lemma pbit_at: "b < 64 \<Longrightarrow> pbit ws (64 * a + b) = bit (wget ws a) b"
  by (simp add: pbit_def)

lemma index_split:
  obtains a b :: nat where "i = 64 * a + b" and "b < 64"
  using that [of "i div 64" "i mod 64"] by simp

section \<open>Constant fill\<close>

text \<open>
  \<open>fill_bits\<close> walks \<open>[lo, hi)\<close> word by word; \<open>window_mask bits s\<close> is the mask it builds for
  \<open>bits\<close> bits from bit \<open>s\<close> of a word.
\<close>

definition window_mask :: "nat \<Rightarrow> nat \<Rightarrow> u64" where
  "window_mask bits s = (if 64 \<le> bits then - 1 else push_bit s (push_bit bits 1 - 1))"

definition fill_word :: "u64 list \<Rightarrow> nat \<Rightarrow> u64 \<Rightarrow> u64 \<Rightarrow> u64 list" where
  "fill_word ws w m f = (if w < length ws then ws[w := ((ws ! w) AND NOT m) OR (f AND m)] else ws)"

lemma word_end: "i < hi \<Longrightarrow> i < min ((i div 64 + 1) * 64) (hi :: nat)"
  by simp

function fill_bits_go ::
  "nat \<Rightarrow> nat \<Rightarrow> u64 \<Rightarrow> u64 \<Rightarrow> u64 list \<times> u64 list \<Rightarrow> u64 list \<times> u64 list" where
  "fill_bits_go i hi fvw fuw (val, unk) =
     (if i < hi
      then (let w = i div 64;
                s = i mod 64;
                e = min ((w + 1) * 64) hi;
                bits = e - i;
                m = window_mask bits s
            in fill_bits_go e hi fvw fuw (fill_word val w m fvw, fill_word unk w m fuw))
      else (val, unk))"
  by pat_completeness auto

termination
proof (relation "measure (\<lambda>(i, hi, _). hi - i)", goal_cases)
  case (2 i hi)
  then show ?case
    by (simp only: in_measure split_conv) (intro diff_less_mono2 word_end)
qed simp

definition fill_bits ::
  "u64 list \<Rightarrow> u64 list \<Rightarrow> nat \<Rightarrow> nat \<Rightarrow> u64 \<Rightarrow> u64 \<Rightarrow> u64 list \<times> u64 list" where
  "fill_bits val unk lo hi fv fu =
     (if hi \<le> lo then (val, unk)
      else fill_bits_go lo hi (if fv \<noteq> 0 then - 1 else 0) (if fu \<noteq> 0 then - 1 else 0) (val, unk))"

lemma bit_window_mask:
  assumes "s + bits \<le> 64"
  shows "bit (window_mask bits s) j \<longleftrightarrow> s \<le> j \<and> j < s + bits"
proof (cases "64 \<le> bits")
  case True
  then have "s = 0" "bits = 64" using assms by simp_all
  then show ?thesis by (simp add: window_mask_def)
next
  case False
  then show ?thesis using assms
    by (auto simp: window_mask_def bit_push_bit_iff bit_exp_minus_1 simp del: push_bit_of_1)
qed

lemma length_fill_word [simp]: "length (fill_word ws w m f) = length ws"
  by (simp add: fill_word_def)

lemma pbit_fill_word:
  assumes "s + bits \<le> 64"
  shows "pbit (fill_word ws w (window_mask bits s) f) j =
    (if j div 64 = w \<and> s \<le> j mod 64 \<and> j mod 64 < s + bits \<and> w < length ws
     then bit f (j mod 64) else pbit ws j)"
proof -
  have "bit (((wget ws w) AND NOT (window_mask bits s)) OR (f AND window_mask bits s)) b
      = (if s \<le> b \<and> b < s + bits then bit f b else bit (wget ws w) b)" if "b < 64" for b
    using that by (auto simp: bit_simps bit_window_mask [OF assms])
  then show ?thesis
    by (auto simp: pbit_def fill_word_def wget_list_update simp flip: wget_in)
qed

lemma word_window:
  fixes i j e :: nat
  assumes "i < e" and "e \<le> 64 * (i div 64) + 64"
  shows "j div 64 = i div 64 \<and> i mod 64 \<le> j mod 64 \<and> j mod 64 < i mod 64 + (e - i) \<longleftrightarrow> i \<le> j \<and> j < e"
    and "i \<le> j \<Longrightarrow> j < e \<Longrightarrow> i div 64 < k \<longleftrightarrow> j < 64 * k"
proof -
  obtain a b where i: "i = 64 * a + b" "b < 64" by (rule index_split)
  obtain c d where j: "j = 64 * c + d" "d < 64" by (rule index_split)
  have e: "64 * a + b < e" "e \<le> 64 * a + 64" using assms i by simp_all
  have ca: "c = a" if "i \<le> j" "j < e" using that i j e by linarith
  show "j div 64 = i div 64 \<and> i mod 64 \<le> j mod 64 \<and> j mod 64 < i mod 64 + (e - i) \<longleftrightarrow> i \<le> j \<and> j < e"
  proof (cases "c = a")
    case True
    have "d < b + (e - i) \<longleftrightarrow> 64 * a + d < e" if "b \<le> d" using that i e by linarith
    then show ?thesis using True i j by auto
  next
    case False
    then show ?thesis using ca i j by auto
  qed
  show "i div 64 < k \<longleftrightarrow> j < 64 * k" if "i \<le> j" "j < e"
  proof -
    have "64 * a + d < 64 * k \<longleftrightarrow> a < k" using j(2) by linarith
    then show ?thesis using ca [OF that] i j by simp
  qed
qed

lemma fill_bits_go_plane:
  "length (fst (fill_bits_go i hi fvw fuw p)) = length (fst p) \<and>
   length (snd (fill_bits_go i hi fvw fuw p)) = length (snd p) \<and>
   pbit (fst (fill_bits_go i hi fvw fuw p)) j =
     (if i \<le> j \<and> j < hi \<and> j < 64 * length (fst p) then bit fvw (j mod 64) else pbit (fst p) j) \<and>
   pbit (snd (fill_bits_go i hi fvw fuw p)) j =
     (if i \<le> j \<and> j < hi \<and> j < 64 * length (snd p) then bit fuw (j mod 64) else pbit (snd p) j)"
proof (induction i hi fvw fuw p rule: fill_bits_go.induct)
  case (1 i hi fvw fuw val unk)
  show ?case
  proof (cases "i < hi")
    case True
    define e where "e = min ((i div 64 + 1) * 64) hi"
    define m where "m = window_mask (e - i) (i mod 64)"
    have e: "i < e" "e \<le> hi" using word_end [OF True] by (simp_all add: e_def)
    have "e \<le> 64 * (i div 64) + 64" by (simp add: e_def)
    then have b: "i mod 64 + (e - i) \<le> 64" using mult_div_mod_eq [of 64 i] e by linarith
    note ww = word_window [OF e(1) \<open>e \<le> 64 * (i div 64) + 64\<close>]
    have p: "pbit (fill_word ws (i div 64) m f) j =
        (if i \<le> j \<and> j < e \<and> j < 64 * length ws then bit f (j mod 64) else pbit ws j)" for ws f
      unfolding m_def pbit_fill_word [OF b] conj_assoc [symmetric]
      using ww(1) [of j] ww(2) [of j "length ws"] by (simp only: conj_assoc) (simp cong: conj_cong)
    have "fill_bits_go i hi fvw fuw (val, unk)
        = fill_bits_go e hi fvw fuw (fill_word val (i div 64) m fvw, fill_word unk (i div 64) m fuw)"
      using True by (simp add: e_def m_def Let_def)
    moreover note "1.IH" [OF True refl refl refl refl refl, folded e_def, folded m_def]
    ultimately show ?thesis using e by (auto simp: p)
  qed auto
qed

declare fill_bits_go.simps [simp del]

lemma length_fill_bits [simp]:
  "length (fst (fill_bits val unk lo hi fv fu)) = length val"
  "length (snd (fill_bits val unk lo hi fv fu)) = length unk"
  using fill_bits_go_plane by (simp_all add: fill_bits_def)

lemma pbit_fill_bits [pbit_simps]:
  "pbit (fst (fill_bits val unk lo hi fv fu)) j =
     (if lo \<le> j \<and> j < hi \<and> j < 64 * length val then fv \<noteq> 0 else pbit val j)"
  "pbit (snd (fill_bits val unk lo hi fv fu)) j =
     (if lo \<le> j \<and> j < hi \<and> j < 64 * length unk then fu \<noteq> 0 else pbit unk j)"
  using fill_bits_go_plane [of lo hi _ _ "(val, unk)" j]
  by (auto simp: fill_bits_def bit_minus_1_iff)

section \<open>Word shifts\<close>

text \<open>Word \<open>k\<close> of the plane shifted right by \<open>64 * q + r\<close>.\<close>

definition shr_word :: "u64 list \<Rightarrow> nat \<Rightarrow> nat \<Rightarrow> nat \<Rightarrow> u64" where
  "shr_word ws q r k =
     (let lo = wget ws (k + q) in
      if r = 0 then lo
      else (let hi = wget ws (k + q + 1) in drop_bit r lo OR push_bit (64 - r) hi))"

text \<open>Word \<open>k\<close> of the plane shifted left by \<open>64 * q + r\<close>.\<close>

definition shl_word :: "u64 list \<Rightarrow> nat \<Rightarrow> nat \<Rightarrow> nat \<Rightarrow> u64" where
  "shl_word ws q r k =
     (let lo = (if q \<le> k then wget ws (k - q) else 0) in
      if r = 0 then lo
      else (let b = (if q < k then wget ws (k - q - 1) else 0) in push_bit r lo OR drop_bit (64 - r) b))"

lemma bit_shr_word:
  assumes "r < 64" and "j < 64"
  shows "bit (shr_word ws q r k) j = pbit ws (64 * k + j + (64 * q + r))"
proof (cases "j + r < 64")
  case True
  have "64 * k + j + (64 * q + r) = 64 * (k + q) + (j + r)" by simp
  then have "pbit ws (64 * k + j + (64 * q + r)) = bit (wget ws (k + q)) (j + r)"
    using True by (simp only: pbit_at)
  then show ?thesis using True assms
    by (auto simp: shr_word_def Let_def bit_simps add.commute)
next
  case False
  have "64 * k + j + (64 * q + r) = 64 * (k + q + 1) + (j + r - 64)" using False by simp
  then have "pbit ws (64 * k + j + (64 * q + r)) = bit (wget ws (k + q + 1)) (j + r - 64)"
    using False assms by (simp only: pbit_at)
  moreover have "\<not> bit (wget ws (k + q)) (j + r)" using False by (simp add: impossible_bit)
  ultimately show ?thesis using False assms
    by (auto simp: shr_word_def Let_def bit_simps add.commute)
qed

lemma bit_shl_word:
  assumes "r < 64" and "j < 64"
  shows "bit (shl_word ws q r k) j \<longleftrightarrow> 64 * q + r \<le> 64 * k + j \<and> pbit ws (64 * k + j - (64 * q + r))"
proof (cases "r \<le> j")
  case True
  have c: "64 * q + r \<le> 64 * k + j \<longleftrightarrow> q \<le> k" using True assms by linarith
  have "\<not> bit x (j + (64 - r))" for x :: u64 using True assms by (simp add: impossible_bit)
  then have "bit (shl_word ws q r k) j \<longleftrightarrow> q \<le> k \<and> bit (wget ws (k - q)) (j - r)"
    using True assms by (auto simp: shl_word_def Let_def bit_simps add.commute simp del: add_diff_assoc add_diff_assoc2)
  moreover have "pbit ws (64 * k + j - (64 * q + r)) = bit (wget ws (k - q)) (j - r)" if "q \<le> k"
  proof -
    have "64 * k + j - (64 * q + r) = 64 * (k - q) + (j - r)" using that True by simp
    then show ?thesis using assms by (simp only: pbit_at less_imp_diff_less)
  qed
  ultimately show ?thesis using c by blast
next
  case False
  have c: "64 * q + r \<le> 64 * k + j \<longleftrightarrow> q < k" using False assms by linarith
  have "bit (shl_word ws q r k) j \<longleftrightarrow> q < k \<and> bit (wget ws (k - q - 1)) (64 - r + j)"
    using False assms by (auto simp: shl_word_def Let_def bit_simps)
  moreover have "pbit ws (64 * k + j - (64 * q + r)) = bit (wget ws (k - q - 1)) (64 - r + j)" if "q < k"
  proof -
    have "64 * k + j - (64 * q + r) = 64 * (k - q - 1) + (64 - r + j)"
      using that False assms by (simp add: right_diff_distrib')
    moreover have "64 - r + j < 64" using False assms by simp
    ultimately show ?thesis by (simp only: pbit_at)
  qed
  ultimately show ?thesis using c by blast
qed

lemma pbit_shr [pbit_simps]:
  "pbit (map (shr_word ws (a div 64) (a mod 64)) [0..<n]) i \<longleftrightarrow> i < 64 * n \<and> pbit ws (i + a)"
proof -
  obtain k b where i: "i = 64 * k + b" "b < 64" by (rule index_split)
  have "k < n \<longleftrightarrow> i < 64 * n" using i by linarith
  moreover have "bit (shr_word ws (a div 64) (a mod 64) k) b = pbit ws (64 * k + b + a)"
    using i(2) bit_shr_word [of "a mod 64" b ws "a div 64" k] by simp
  ultimately show ?thesis using i by (simp add: pbit_at)
qed

lemma pbit_shl [pbit_simps]:
  "pbit (map (shl_word ws (a div 64) (a mod 64)) [0..<n]) i \<longleftrightarrow> i < 64 * n \<and> a \<le> i \<and> pbit ws (i - a)"
proof -
  obtain k b where i: "i = 64 * k + b" "b < 64" by (rule index_split)
  have "k < n \<longleftrightarrow> i < 64 * n" using i by linarith
  moreover have "bit (shl_word ws (a div 64) (a mod 64) k) b \<longleftrightarrow> a \<le> 64 * k + b \<and> pbit ws (64 * k + b - a)"
    using i(2) bit_shl_word [of "a mod 64" b ws "a div 64" k] by simp
  ultimately show ?thesis using i by (simp add: pbit_at)
qed

end
