(* ===== verification/Logic4.thy ===== *)
theory Logic4
  imports Prelude
begin

text \<open>
  The 4-state truth tables of \<open>crates/sim-engine/src/value.rs\<close>: the per-bit functions
  \<open>and1\<close>, \<open>or1\<close>, \<open>xor1\<close>, \<open>not1\<close> on \<open>(v, u)\<close> pairs and the branch-free word forms \<open>and_w\<close>,
  \<open>or_w\<close>, \<open>xor_w\<close>, \<open>xnor_w\<close>, \<open>not_w\<close>, which evaluate 64 of them at once.  The
  interface \<open>word_op\<close> says what a word form owes its table; the element-wise loops of the
  evaluator are proved against that interface only.
\<close>

section \<open>Four states\<close>

datatype logic4 = L0 | L1 | LX | LZ

text \<open>The two-plane encoding: \<open>(0,0)\<close> is 0, \<open>(1,0)\<close> is 1, \<open>(0,1)\<close> is x, \<open>(1,1)\<close> is z.\<close>

definition l4 :: "bool \<Rightarrow> bool \<Rightarrow> logic4" where
  "l4 v u = (if u then (if v then LZ else LX) else (if v then L1 else L0))"

definition l4_v :: "logic4 \<Rightarrow> bool" where "l4_v b \<longleftrightarrow> b = L1 \<or> b = LZ"
definition l4_u :: "logic4 \<Rightarrow> bool" where "l4_u b \<longleftrightarrow> b = LX \<or> b = LZ"

lemma l4_planes [simp]: "l4_v (l4 v u) = v" "l4_u (l4 v u) = u" "l4 (l4_v b) (l4_u b) = b"
  by (cases b; auto simp: l4_def l4_v_def l4_u_def)+

lemma l4_inject [simp]: "l4 v u = l4 v' u' \<longleftrightarrow> v = v' \<and> u = u'"
  by (auto simp: l4_def)

lemma l4_simps [simp]:
  "l4 False False = L0" "l4 True False = L1" "l4 False True = LX" "l4 True True = LZ"
  by (simp_all add: l4_def)

instantiation logic4 :: linorder
begin

primrec rank_logic4 :: "logic4 \<Rightarrow> nat" where
  "rank_logic4 L0 = 0" | "rank_logic4 L1 = 1" | "rank_logic4 LX = 2" | "rank_logic4 LZ = 3"

definition less_eq_logic4 :: "logic4 \<Rightarrow> logic4 \<Rightarrow> bool" where
  "a \<le> b \<longleftrightarrow> rank_logic4 a \<le> rank_logic4 b"

definition less_logic4 :: "logic4 \<Rightarrow> logic4 \<Rightarrow> bool" where
  "a < b \<longleftrightarrow> rank_logic4 a < rank_logic4 b"

instance
proof
  fix a b c :: logic4
  show "a < b \<longleftrightarrow> a \<le> b \<and> \<not> b \<le> a" by (auto simp: less_eq_logic4_def less_logic4_def)
  show "a \<le> a" by (simp add: less_eq_logic4_def)
  show "a \<le> b \<Longrightarrow> b \<le> c \<Longrightarrow> a \<le> c" by (simp add: less_eq_logic4_def)
  show "a \<le> b \<Longrightarrow> b \<le> a \<Longrightarrow> a = b" by (cases a; cases b) (simp_all add: less_eq_logic4_def)
  show "a \<le> b \<or> b \<le> a" by (auto simp: less_eq_logic4_def)
qed

end

text \<open>The tables of IEEE 1364, with z read as x.\<close>

definition not4 :: "logic4 \<Rightarrow> logic4" where
  "not4 a = (case a of L0 \<Rightarrow> L1 | L1 \<Rightarrow> L0 | _ \<Rightarrow> LX)"

definition and4 :: "logic4 \<Rightarrow> logic4 \<Rightarrow> logic4" where
  "and4 a b = (if a = L0 \<or> b = L0 then L0 else if a = L1 \<and> b = L1 then L1 else LX)"

definition or4 :: "logic4 \<Rightarrow> logic4 \<Rightarrow> logic4" where
  "or4 a b = (if a = L1 \<or> b = L1 then L1 else if a = L0 \<and> b = L0 then L0 else LX)"

definition xor4 :: "logic4 \<Rightarrow> logic4 \<Rightarrow> logic4" where
  "xor4 a b = (if l4_u a \<or> l4_u b then LX else if a = b then L0 else L1)"

definition xnor4 :: "logic4 \<Rightarrow> logic4 \<Rightarrow> logic4" where
  "xnor4 a b = not4 (xor4 a b)"

lemmas logic4_defs = not4_def and4_def or4_def xor4_def xnor4_def l4_def l4_v_def l4_u_def

section \<open>The code's per-bit tables\<close>

definition not1 :: "u64 \<times> u64 \<Rightarrow> u64 \<times> u64" where
  "not1 a = (if snd a \<noteq> 0 then (0, 1) else ((NOT (fst a)) AND 1, 0))"

definition and1 :: "u64 \<times> u64 \<Rightarrow> u64 \<times> u64 \<Rightarrow> u64 \<times> u64" where
  "and1 a b =
     (let a0 = snd a = 0 \<and> fst a = 0; b0 = snd b = 0 \<and> fst b = 0 in
      if a0 \<or> b0 then (0, 0)
      else if snd a \<noteq> 0 \<or> snd b \<noteq> 0 then (0, 1)
      else (1, 0))"

definition or1 :: "u64 \<times> u64 \<Rightarrow> u64 \<times> u64 \<Rightarrow> u64 \<times> u64" where
  "or1 a b =
     (let a1 = snd a = 0 \<and> fst a = 1; b1 = snd b = 0 \<and> fst b = 1 in
      if a1 \<or> b1 then (1, 0)
      else if snd a \<noteq> 0 \<or> snd b \<noteq> 0 then (0, 1)
      else (0, 0))"

definition xor1 :: "u64 \<times> u64 \<Rightarrow> u64 \<times> u64 \<Rightarrow> u64 \<times> u64" where
  "xor1 a b =
     (if snd a \<noteq> 0 \<or> snd b \<noteq> 0 then (0, 1) else ((fst a XOR fst b) AND 1, 0))"

text \<open>A plane pair read off at one bit, as the code's \<open>(x >> s) & 1\<close>.\<close>

definition pair1 :: "logic4 \<Rightarrow> u64 \<times> u64" where
  "pair1 b = (of_bool (l4_v b), of_bool (l4_u b))"

lemma not1_pair: "not1 (pair1 a) = pair1 (not4 a)"
  by (cases a) (simp_all add: not1_def pair1_def logic4_defs)

lemma and1_pair: "and1 (pair1 a) (pair1 b) = pair1 (and4 a b)"
  by (cases a; cases b) (simp_all add: and1_def pair1_def logic4_defs)

lemma or1_pair: "or1 (pair1 a) (pair1 b) = pair1 (or4 a b)"
  by (cases a; cases b) (simp_all add: or1_def pair1_def logic4_defs)

lemma xor1_pair: "xor1 (pair1 a) (pair1 b) = pair1 (xor4 a b)"
  by (cases a; cases b) (simp_all add: xor1_def pair1_def logic4_defs)

section \<open>The word-parallel forms\<close>

definition and_w :: "u64 \<Rightarrow> u64 \<Rightarrow> u64 \<Rightarrow> u64 \<Rightarrow> u64 \<times> u64" where
  "and_w av au bv bu =
     (let known0 = (NOT au AND NOT av) OR (NOT bu AND NOT bv);
          known1 = (NOT au AND av) AND (NOT bu AND bv)
      in (known1, NOT known0 AND NOT known1))"

definition or_w :: "u64 \<Rightarrow> u64 \<Rightarrow> u64 \<Rightarrow> u64 \<Rightarrow> u64 \<times> u64" where
  "or_w av au bv bu =
     (let known1 = (NOT au AND av) OR (NOT bu AND bv);
          known0 = (NOT au AND NOT av) AND (NOT bu AND NOT bv)
      in (known1, NOT known1 AND NOT known0))"

definition xor_w :: "u64 \<Rightarrow> u64 \<Rightarrow> u64 \<Rightarrow> u64 \<Rightarrow> u64 \<times> u64" where
  "xor_w av au bv bu = (let ru = au OR bu in ((av XOR bv) AND NOT ru, ru))"

definition xnor_w :: "u64 \<Rightarrow> u64 \<Rightarrow> u64 \<Rightarrow> u64 \<Rightarrow> u64 \<times> u64" where
  "xnor_w av au bv bu = (let ru = au OR bu in (NOT (av XOR bv) AND NOT ru, ru))"

definition not_w :: "u64 \<Rightarrow> u64 \<Rightarrow> u64 \<times> u64" where
  "not_w av au = (NOT av AND NOT au, au)"

definition lane :: "u64 \<times> u64 \<Rightarrow> nat \<Rightarrow> logic4" where
  "lane p i = l4 (bit (fst p) i) (bit (snd p) i)"

text \<open>
  What a two-operand word form promises: every lane is the table \<open>g\<close> of the operands'
  lanes.  Two clients use it: the element-wise plane loop and the one-word evaluator.
\<close>

locale word_op =
  fixes f :: "u64 \<Rightarrow> u64 \<Rightarrow> u64 \<Rightarrow> u64 \<Rightarrow> u64 \<times> u64" and g :: "logic4 \<Rightarrow> logic4 \<Rightarrow> logic4"
  assumes lane_f: "i < 64 \<Longrightarrow> lane (f av au bv bu) i = g (lane (av, au) i) (lane (bv, bu) i)"
begin

text \<open>A word form is determined by its table.\<close>

lemma table_unique:
  assumes "\<And>i. i < 64 \<Longrightarrow> lane (h av au bv bu) i = g (lane (av, au) i) (lane (bv, bu) i)"
  shows "h av au bv bu = f av au bv bu"
proof (rule prod_eqI)
  have "lane (h av au bv bu) i = lane (f av au bv bu) i" if "i < 64" for i
    using that by (simp add: assms lane_f)
  then have b: "bit (fst (h av au bv bu)) i = bit (fst (f av au bv bu)) i \<and>
                bit (snd (h av au bv bu)) i = bit (snd (f av au bv bu)) i" if "i < 64" for i
    using that by (simp add: lane_def)
  show "fst (h av au bv bu) = fst (f av au bv bu)" by (rule bit_word_eqI) (use b in simp)
  show "snd (h av au bv bu) = snd (f av au bv bu)" by (rule bit_word_eqI) (use b in simp)
qed

text \<open>A commutative table makes the word form commutative.\<close>

lemma commute_from_table:
  assumes "\<And>a b. g a b = g b a"
  shows "f av au bv bu = f bv bu av au"
  by (rule table_unique [symmetric]) (simp add: lane_f assms)

text \<open>
  The plane loop over word vectors: word \<open>k\<close> of the result is the form applied to word \<open>k\<close>
  of the operands, so bit \<open>i\<close> of the result is the table of bits \<open>i\<close>.
\<close>

lemma plane_bits:
  assumes "i < 64 * n"
  shows "l4 (pbit (map (\<lambda>k. fst (f (wget av k) (wget au k) (wget bv k) (wget bu k))) [0..<n]) i)
            (pbit (map (\<lambda>k. snd (f (wget av k) (wget au k) (wget bv k) (wget bu k))) [0..<n]) i)
         = g (l4 (pbit av i) (pbit au i)) (l4 (pbit bv i) (pbit bu i))"
proof -
  have "i div 64 < n" using assms by (simp add: less_mult_imp_div_less mult.commute)
  then show ?thesis
    using lane_f [of "i mod 64" "wget av (i div 64)" "wget au (i div 64)" "wget bv (i div 64)" "wget bu (i div 64)"]
    by (simp add: pbit_def lane_def)
qed

end

lemma lane_simps:
  assumes "i < 64"
  shows "lane (and_w av au bv bu) i = and4 (lane (av, au) i) (lane (bv, bu) i)"
    and "lane (or_w av au bv bu) i = or4 (lane (av, au) i) (lane (bv, bu) i)"
    and "lane (xor_w av au bv bu) i = xor4 (lane (av, au) i) (lane (bv, bu) i)"
    and "lane (xnor_w av au bv bu) i = xnor4 (lane (av, au) i) (lane (bv, bu) i)"
    and "lane (not_w av au) i = not4 (lane (av, au) i)"
  using assms
  by (auto simp: lane_def and_w_def or_w_def xor_w_def xnor_w_def not_w_def Let_def logic4_defs
      bit_simps)

interpretation and_op: word_op and_w and4
  by unfold_locales (rule lane_simps)

interpretation or_op: word_op or_w or4
  by unfold_locales (rule lane_simps)

interpretation xor_op: word_op xor_w xor4
  by unfold_locales (rule lane_simps)

interpretation xnor_op: word_op xnor_w xnor4
  by unfold_locales (rule lane_simps)

lemma not_w_plane_bits:
  assumes "i < 64 * n"
  shows "l4 (pbit (map (\<lambda>k. fst (not_w (wget av k) (wget au k))) [0..<n]) i)
            (pbit (map (\<lambda>k. snd (not_w (wget av k) (wget au k))) [0..<n]) i)
         = not4 (l4 (pbit av i) (pbit au i))"
proof -
  have "i div 64 < n" using assms by (simp add: less_mult_imp_div_less mult.commute)
  then show ?thesis
    using lane_simps(5) [of "i mod 64" "wget av (i div 64)" "wget au (i div 64)"]
    by (simp add: pbit_def lane_def)
qed

lemma and4_commute: "and4 a b = and4 b a" and or4_commute: "or4 a b = or4 b a"
  and xor4_commute: "xor4 a b = xor4 b a"
  by (auto simp: logic4_defs)

lemma and4_assoc: "and4 (and4 a b) c = and4 a (and4 b c)"
  by (cases a; cases b; cases c) (simp_all add: and4_def)

lemma or4_assoc: "or4 (or4 a b) c = or4 a (or4 b c)"
  by (cases a; cases b; cases c) (simp_all add: or4_def)

lemma de_morgan4: "not4 (and4 a b) = or4 (not4 a) (not4 b)"
  by (cases a; cases b) (simp_all add: logic4_defs)

section \<open>Properties\<close>

text \<open>The word-parallel forms of \<open>&\<close>, \<open>|\<close>, \<open>^\<close>, \<open>~^\<close> and \<open>~\<close> on the two planes are the IEEE
  4-state truth tables in every one of the 64 lanes, and the scalar \<open>and1\<close>, \<open>or1\<close>, \<open>xor1\<close>,
  \<open>not1\<close> are the same tables on one bit.\<close>

theorem word_forms_are_truth_tables:
  "(\<forall>i<64. lane (and_w av au bv bu) i = and4 (lane (av, au) i) (lane (bv, bu) i)
     \<and> lane (or_w av au bv bu) i = or4 (lane (av, au) i) (lane (bv, bu) i)
     \<and> lane (xor_w av au bv bu) i = xor4 (lane (av, au) i) (lane (bv, bu) i)
     \<and> lane (xnor_w av au bv bu) i = xnor4 (lane (av, au) i) (lane (bv, bu) i)
     \<and> lane (not_w av au) i = not4 (lane (av, au) i))
   \<and> and1 (pair1 a) (pair1 b) = pair1 (and4 a b) \<and> or1 (pair1 a) (pair1 b) = pair1 (or4 a b)
   \<and> xor1 (pair1 a) (pair1 b) = pair1 (xor4 a b) \<and> not1 (pair1 a) = pair1 (not4 a)"
  by (simp add: lane_simps and1_pair or1_pair xor1_pair not1_pair)

theorem word_forms_are_truth_tables_witness: "lane (and_w 1 1 0 0) 0 = L0"
  using word_forms_are_truth_tables [of 1 1 0 0] by (auto simp: lane_def and4_def l4_def)

end
