(* ===== verification/Values.thy ===== *)
theory Values
  imports Planes Logic4
begin

text \<open>
  The runtime value, \<open>struct Value\<close> of \<open>crates/sim-engine/src/value.rs\<close>: two bit planes, a
  width, a sign flag and the real/string tags, with its constructors, conversions,
  resizing and shifting.  A plane is the list of words its \<open>Words\<close> store dereferences to.
  \<open>vbit v i\<close> is the 4-state bit \<open>i\<close> and \<open>vint v\<close> the integer a 2-state value denotes under
  its own sign; every operation is characterised through one of the two.
\<close>

section \<open>The record\<close>

record sim_value =
  v_val :: "u64 list"
  v_unk :: "u64 list"
  v_width :: nat
  v_signed :: bool
  v_real :: bool
  v_str :: bool

record bit_packed =
  p_val :: "u64 list"
  p_unk :: "u64 list"

definition vbit :: "sim_value \<Rightarrow> nat \<Rightarrow> logic4" where
  "vbit v i = l4 (pbit (v_val v) i) (pbit (v_unk v) i)"

lemma vbit_eq_iff: "vbit a i = vbit b j \<longleftrightarrow>
    pbit (v_val a) i = pbit (v_val b) j \<and> pbit (v_unk a) i = pbit (v_unk b) j"
  by (simp add: vbit_def)

lemma l4_vbit [simp]: "l4_v (vbit v i) = pbit (v_val v) i" "l4_u (vbit v i) = pbit (v_unk v) i"
  by (simp_all add: vbit_def)

section \<open>Constructors\<close>

definition zeros :: "nat \<Rightarrow> bool \<Rightarrow> sim_value" where
  "zeros width sg =
     (let n = nw1 width in
      \<lparr>v_val = replicate n 0, v_unk = replicate n 0, v_width = width, v_signed = sg,
       v_real = False, v_str = False\<rparr>)"

definition mask_top :: "sim_value \<Rightarrow> sim_value" where
  "mask_top v =
     (if v_real v then v
      else v\<lparr>v_val := mask_plane (v_width v) (v_val v), v_unk := mask_plane (v_width v) (v_unk v)\<rparr>)"

definition all_x :: "nat \<Rightarrow> bool \<Rightarrow> sim_value" where
  "all_x width sg =
     (let n = nw1 width in
      mask_top \<lparr>v_val = replicate n 0, v_unk = replicate n (- 1), v_width = width, v_signed = sg,
       v_real = False, v_str = False\<rparr>)"

definition one1 :: sim_value where
  "one1 = (let v = zeros 1 False in v\<lparr>v_val := (v_val v)[0 := 1]\<rparr>)"

definition x1 :: sim_value where
  "x1 = (let v = zeros 1 False in v\<lparr>v_unk := (v_unk v)[0 := 1]\<rparr>)"

definition logic :: "bool \<Rightarrow> sim_value" where
  "logic b = (if b then one1 else zeros 1 False)"

definition from_packed :: "bit_packed \<Rightarrow> nat \<Rightarrow> bool \<Rightarrow> sim_value" where
  "from_packed b width sg =
     (let n = nw1 width in
      mask_top \<lparr>v_val = vec_resize (p_val b) n 0, v_unk = vec_resize (p_unk b) n 0, v_width = width,
       v_signed = sg, v_real = False, v_str = False\<rparr>)"

definition is_canonical :: "sim_value \<Rightarrow> bool" where
  "is_canonical v =
     (if v_real v then True
      else (let n = nw1 (v_width v) in
            if length (v_val v) \<noteq> n \<or> length (v_unk v) \<noteq> n then False
            else (let m = top_mask (v_width v) in
                  (v_val v ! (n - 1)) AND NOT m = 0 \<and> (v_unk v ! (n - 1)) AND NOT m = 0)))"

lemma is_canonical_iff:
  "is_canonical v \<longleftrightarrow> v_real v \<or> plane_ok (v_width v) (v_val v) \<and> plane_ok (v_width v) (v_unk v)"
proof -
  have "nw1 w - 1 < nw1 w" for w using nw1_bounds(1) [of w] by simp
  then show ?thesis by (auto simp: is_canonical_def plane_ok_def Let_def wget_in)
qed

text \<open>The form every producer returns: an integral value with canonical planes.\<close>

definition vec_ok :: "sim_value \<Rightarrow> bool" where
  "vec_ok v \<longleftrightarrow> \<not> v_real v \<and> plane_ok (v_width v) (v_val v) \<and> plane_ok (v_width v) (v_unk v)"

lemma vec_ok_canonical: "vec_ok v \<Longrightarrow> is_canonical v"
  by (simp add: vec_ok_def is_canonical_iff)

lemma vec_ok_bit_out: "vec_ok v \<Longrightarrow> v_width v \<le> i \<Longrightarrow> vbit v i = L0"
  using plane_ok_out [of "v_width v" "v_val v" i] plane_ok_out [of "v_width v" "v_unk v" i]
  by (simp add: vbit_def vec_ok_def)

lemma vec_ok_ext:
  assumes "vec_ok a" and "vec_ok b" and "v_width a = v_width b" and "v_signed a = v_signed b"
    and "v_str a = v_str b" and "\<And>i. i < v_width a \<Longrightarrow> vbit a i = vbit b i"
  shows "a = b"
proof -
  have "v_val a = v_val b" "v_unk a = v_unk b"
    using assms by (auto simp: vec_ok_def vbit_eq_iff intro!: plane_ext [where w = "v_width a"])
  then show ?thesis using assms by (simp add: vec_ok_def)
qed

named_theorems vec_simps \<open>widths, signs, tags and bits of produced values\<close>

lemma mask_top_simps [simp, vec_simps]:
  "v_width (mask_top v) = v_width v" "v_signed (mask_top v) = v_signed v"
  "v_real (mask_top v) = v_real v" "v_str (mask_top v) = v_str v"
  by (simp_all add: mask_top_def)

lemma vec_ok_mask_top [simp, vec_simps]: "vec_ok (mask_top v) \<longleftrightarrow> \<not> v_real v"
  by (auto simp: mask_top_def vec_ok_def)

lemma vbit_mask_top [vec_simps]:
  "\<not> v_real v \<Longrightarrow> vbit (mask_top v) i = (if i < v_width v then vbit v i else L0)"
  by (simp add: mask_top_def vbit_def pbit_mask_plane)

lemma mask_top_id: "vec_ok v \<Longrightarrow> mask_top v = v"
  by (simp add: vec_ok_def mask_top_def mask_plane_id)

lemma zeros_simps [simp, vec_simps]:
  "v_width (zeros w s) = w" "v_signed (zeros w s) = s" "\<not> v_real (zeros w s)" "\<not> v_str (zeros w s)"
  "v_val (zeros w s) = replicate (nw1 w) 0" "v_unk (zeros w s) = replicate (nw1 w) 0"
  by (simp_all add: zeros_def Let_def)

lemma vec_ok_zeros [simp, vec_simps]: "vec_ok (zeros w s)"
  by (simp add: vec_ok_def)

lemma vbit_zeros [simp, vec_simps]: "vbit (zeros w s) i = L0"
  by (simp add: vbit_def)

lemma all_x_simps [simp, vec_simps]:
  "v_width (all_x w s) = w" "v_signed (all_x w s) = s" "\<not> v_real (all_x w s)" "\<not> v_str (all_x w s)" "vec_ok (all_x w s)"
  by (simp_all add: all_x_def Let_def)

lemma pbit_ones: "pbit (replicate n (- 1)) i \<longleftrightarrow> i < 64 * n"
  by (simp add: pbit_def wget_replicate div_less_iff_less_mult mult.commute)

lemma vbit_all_x [vec_simps]: "vbit (all_x w s) i = (if i < w then LX else L0)"
  using nw1_bounds(2) [of w] by (auto simp: all_x_def Let_def vbit_mask_top) (simp add: vbit_def pbit_ones)

lemma nw1_1 [simp]: "nw1 1 = 1" "nw1 (Suc 0) = Suc 0" "nw1 0 = 1"
  by (simp_all add: nw1_def v_nwords_def)

lemma one_word_bits:
  "plane_ok 1 [of_bool b]" "pbit [of_bool b] i \<longleftrightarrow> b \<and> i = 0"
proof -
  show p: "pbit [of_bool b] i \<longleftrightarrow> b \<and> i = 0" for i
    by (cases "i < 64") (auto simp: pbit_def bit_1_iff wget_def)
  show "plane_ok 1 [of_bool b]" using p by (auto simp: plane_ok_iff)
qed

lemma one1_eq: "one1 = \<lparr>v_val = [1], v_unk = [0], v_width = 1, v_signed = False, v_real = False, v_str = False\<rparr>"
  by (simp add: one1_def zeros_def Let_def)

lemma x1_eq: "x1 = \<lparr>v_val = [0], v_unk = [1], v_width = 1, v_signed = False, v_real = False, v_str = False\<rparr>"
  by (simp add: x1_def zeros_def Let_def)

text \<open>A one-bit result from a \<open>(val, unk)\<close> pair.\<close>

definition bit1 :: "logic4 \<Rightarrow> sim_value" where
  "bit1 b = \<lparr>v_val = [of_bool (l4_v b)], v_unk = [of_bool (l4_u b)], v_width = 1, v_signed = False,
             v_real = False, v_str = False\<rparr>"

lemma vec_ok_bit1 [simp]: "vec_ok (bit1 b)"
  using one_word_bits(1) [of "l4_v b"] one_word_bits(1) [of "l4_u b"] by (simp add: vec_ok_def bit1_def)

lemma logic_eq_bit1: "logic b = bit1 (if b then L1 else L0)"
  by (simp add: logic_def one1_eq zeros_def Let_def bit1_def l4_v_def l4_u_def)

lemma x1_eq_bit1: "x1 = bit1 LX"
  by (simp add: x1_eq bit1_def l4_v_def l4_u_def)

lemma from_packed_simps [simp, vec_simps]:
  "v_width (from_packed b w s) = w" "v_signed (from_packed b w s) = s"
  "\<not> v_real (from_packed b w s)" "\<not> v_str (from_packed b w s)" "vec_ok (from_packed b w s)"
  by (simp_all add: from_packed_def Let_def)

lemma pbit_vec_resize_0: "pbit (vec_resize ws n 0) i \<longleftrightarrow> i < 64 * n \<and> pbit ws i"
proof -
  have "i div 64 < n \<longleftrightarrow> i < 64 * n" by (simp add: div_less_iff_less_mult mult.commute)
  then show ?thesis by (auto simp: pbit_def wget_vec_resize_0)
qed

lemma vbit_from_packed [vec_simps]:
  "vbit (from_packed b w s) i = (if i < w then l4 (pbit (p_val b) i) (pbit (p_unk b) i) else L0)"
  using nw1_bounds(2) [of w]
  by (auto simp: from_packed_def Let_def vbit_mask_top) (auto simp: vbit_def pbit_vec_resize_0)

end
