(* ===== verification/ValueReads.thy ===== *)
theory ValueReads
  imports Values "HOL-Library.Signed_Division"
begin

text \<open>
  Reading a value: single bits (\<open>get_vu\<close>, \<open>set_vu\<close>), the unknown tests (\<open>has_xz\<close>,
  \<open>any_definite\<close>) and the conversions to machine integers (\<open>to_u64\<close>, \<open>to_u128\<close>,
  \<open>to_i128_signed\<close>), each stated against the number the planes denote.  An \<open>i128\<close> is the
  128-bit word whose \<open>sint\<close> it is.
\<close>

section \<open>Bits\<close>

definition get_vu :: "sim_value \<Rightarrow> nat \<Rightarrow> u64 \<times> u64" where
  "get_vu v i =
     (let w = i div 64; s = i mod 64
      in (drop_bit s (wget (v_val v) w) AND 1, drop_bit s (wget (v_unk v) w) AND 1))"

lemma get_vu_eq: "get_vu v i = pair1 (vbit v i)"
  by (simp add: get_vu_def pair1_def shift_and_1 pbit_def)

text \<open>\<open>None\<close> is the index panic of \<open>self.unk[w]\<close> when the planes differ in length.\<close>

definition set_bit_of :: "u64 \<Rightarrow> nat \<Rightarrow> u64 \<Rightarrow> u64" where
  "set_bit_of x s b = (x AND NOT (push_bit s 1)) OR push_bit s (b AND 1)"

definition set_vu :: "sim_value \<Rightarrow> nat \<Rightarrow> u64 \<Rightarrow> u64 \<Rightarrow> sim_value option" where
  "set_vu v i b u =
     (let w = i div 64; s = i mod 64;
          v1 = (if length (v_val v) \<le> w
                then v\<lparr>v_val := vec_resize (v_val v) (w + 1) 0, v_unk := vec_resize (v_unk v) (w + 1) 0\<rparr>
                else v)
      in if w < length (v_unk v1)
         then Some (v1\<lparr>v_val := (v_val v1)[w := set_bit_of (v_val v1 ! w) s b],
                       v_unk := (v_unk v1)[w := set_bit_of (v_unk v1 ! w) s u]\<rparr>)
         else None)"

lemma bit_set_bit_of:
  "s < 64 \<Longrightarrow> bit (set_bit_of x s b) j \<longleftrightarrow> (if j = s then bit b 0 else bit x j)"
  by (cases "j < 64") (auto simp: set_bit_of_def bit_simps bit_1_iff impossible_bit)

lemma pbit_set_bit_of:
  assumes "i div 64 < length ws"
  shows "pbit (ws[i div 64 := set_bit_of (ws ! (i div 64)) (i mod 64) b]) j
     \<longleftrightarrow> (if j = i then bit b 0 else pbit ws j)"
proof (cases "j div 64 = i div 64")
  case True
  then have "j = i \<longleftrightarrow> j mod 64 = i mod 64" by (metis mult_div_mod_eq)
  then show ?thesis using True assms
    by (simp add: pbit_def wget_list_update bit_set_bit_of flip: wget_in)
next
  case False
  then show ?thesis by (auto simp: pbit_def wget_list_update)
qed

lemma set_vu_in:
  assumes "vec_ok v" and "i < v_width v"
  obtains v' where "set_vu v i b u = Some v'" "vec_ok v'" "v_width v' = v_width v"
    "v_signed v' = v_signed v" "v_str v' = v_str v"
    "\<And>j. vbit v' j = (if j = i then l4 (bit b 0) (bit u 0) else vbit v j)"
proof -
  let ?w = "i div 64"
  let ?v = "v\<lparr>v_val := (v_val v)[?w := set_bit_of (v_val v ! ?w) (i mod 64) b],
             v_unk := (v_unk v)[?w := set_bit_of (v_unk v ! ?w) (i mod 64) u]\<rparr>"
  have w: "?w < length (v_val v)" "?w < length (v_unk v)"
    using assms nw1_less [OF assms(2)] by (simp_all add: vec_ok_def plane_ok_iff)
  have s: "set_vu v i b u = Some ?v" using w by (simp add: set_vu_def Let_def)
  have b: "vbit ?v j = (if j = i then l4 (bit b 0) (bit u 0) else vbit v j)" for j
    using w by (simp add: vbit_def pbit_set_bit_of)
  have "vec_ok ?v" using assms w by (auto simp: vec_ok_def plane_ok_iff pbit_set_bit_of)
  then show ?thesis using that [OF s] b by simp
qed

section \<open>Unknown bits\<close>

fun xz_scan :: "sim_value \<Rightarrow> nat \<Rightarrow> nat list \<Rightarrow> bool" where
  "xz_scan v n [] = False"
| "xz_scan v n (w # ws) =
     (let m = (if w = n - 1 then top_mask (v_width v) else - 1)
      in if wget (v_unk v) w AND m \<noteq> 0 then True else xz_scan v n ws)"

definition has_xz :: "sim_value \<Rightarrow> bool" where
  "has_xz v = (let n = v_nwords (v_width v) in xz_scan v n [0..<n])"

fun definite_scan :: "sim_value \<Rightarrow> nat \<Rightarrow> nat list \<Rightarrow> bool" where
  "definite_scan v n [] = False"
| "definite_scan v n (w # ws) =
     (let m = (if w = n - 1 then top_mask (v_width v) else - 1)
      in if NOT (wget (v_unk v) w) AND m \<noteq> 0 then True else definite_scan v n ws)"

definition any_definite :: "sim_value \<Rightarrow> bool" where
  "any_definite v =
     (if v_real v then True
      else (let n = v_nwords (v_width v) in definite_scan v n [0..<n]))"

lemma word_nonzero_iff: "(x :: u64) \<noteq> 0 \<longleftrightarrow> (\<exists>j<64. bit x j)"
  by (auto simp: bit_eq_iff)

text \<open>Scanning the words under the width mask asks about the bits below the width.\<close>

lemma masked_word_bit:
  assumes "w < v_nwords W" and "j < 64"
  shows "bit (if w = v_nwords W - 1 then top_mask W else - 1 :: u64) j \<longleftrightarrow> 64 * w + j < W"
proof (cases "w = v_nwords W - 1")
  case True
  have "nw1 W = v_nwords W" using assms(1) by (simp add: nw1_def)
  then show ?thesis using True assms(2) by (simp add: bit_top_mask)
next
  case False
  then have "w < nw1 W - 1" using assms(1) by (simp add: nw1_def)
  then have "64 * Suc w \<le> 64 * (nw1 W - 1)" by (intro mult_le_mono2 Suc_leI)
  then have "64 * Suc w \<le> W" using nw1_bounds(3) by (rule le_trans)
  then have "64 * w + j < W" using assms(2) by (simp only: mult_Suc_right)
  then show ?thesis using False assms by simp
qed

lemma masked_word_nonzero:
  assumes "w < v_nwords W"
  shows "x AND (if w = v_nwords W - 1 then top_mask W else - 1) \<noteq> 0 \<longleftrightarrow> (\<exists>j<64. 64 * w + j < W \<and> bit x j)"
  unfolding word_nonzero_iff bit_and_iff using masked_word_bit [OF assms] by blast

lemma width_words: "(\<exists>w<v_nwords W. \<exists>j<64. 64 * w + j < W \<and> P (64 * w + j)) \<longleftrightarrow> (\<exists>i<W. P i)"
proof
  assume "\<exists>i<W. P i"
  then obtain i where i: "i < W" "P i" by blast
  obtain w j where wj: "i = 64 * w + j" "j < 64" by (rule index_split)
  have "w < v_nwords W" using i wj by (simp add: v_nwords_def)
  then show "\<exists>w<v_nwords W. \<exists>j<64. 64 * w + j < W \<and> P (64 * w + j)" using i wj by blast
qed blast

lemma xz_scan_iff: "xz_scan v n ws \<longleftrightarrow>
    (\<exists>w\<in>set ws. wget (v_unk v) w AND (if w = n - 1 then top_mask (v_width v) else - 1) \<noteq> 0)"
  by (induction ws) (auto simp: Let_def)

lemma definite_scan_iff: "definite_scan v n ws \<longleftrightarrow>
    (\<exists>w\<in>set ws. NOT (wget (v_unk v) w) AND (if w = n - 1 then top_mask (v_width v) else - 1) \<noteq> 0)"
  by (induction ws) (auto simp: Let_def)

lemma scan_words:
  "(\<exists>w\<in>set [0..<v_nwords W]. g w AND (if w = v_nwords W - 1 then top_mask W else - 1) \<noteq> 0)
    \<longleftrightarrow> (\<exists>w<v_nwords W. \<exists>j<64. 64 * w + j < W \<and> bit (g w) j)"
proof -
  have "(\<exists>w\<in>set [0..<v_nwords W]. g w AND (if w = v_nwords W - 1 then top_mask W else - 1) \<noteq> 0)
    \<longleftrightarrow> (\<exists>w\<in>{0..<v_nwords W}. \<exists>j<64. 64 * w + j < W \<and> bit (g w) j)"
    by (simp only: set_upt) (intro bex_cong refl masked_word_nonzero, simp)
  then show ?thesis by auto
qed

lemma has_xz_iff: "has_xz v \<longleftrightarrow> (\<exists>i<v_width v. pbit (v_unk v) i)"
proof -
  have "(\<exists>w<v_nwords W. \<exists>j<64. 64 * w + j < W \<and> bit (wget (v_unk v) w) j)
     \<longleftrightarrow> (\<exists>w<v_nwords W. \<exists>j<64. 64 * w + j < W \<and> pbit (v_unk v) (64 * w + j))" for W
    using pbit_at by blast
  then show ?thesis by (simp only: has_xz_def Let_def xz_scan_iff scan_words width_words)
qed

lemma any_definite_iff: "any_definite v \<longleftrightarrow> v_real v \<or> (\<exists>i<v_width v. \<not> pbit (v_unk v) i)"
proof -
  have "(\<exists>w<v_nwords W. \<exists>j<64. 64 * w + j < W \<and> bit (NOT (wget (v_unk v) w)) j)
     \<longleftrightarrow> (\<exists>w<v_nwords W. \<exists>j<64. 64 * w + j < W \<and> \<not> pbit (v_unk v) (64 * w + j))" for W
    by (simp add: bit_not_iff) (metis pbit_at)
  then show ?thesis
    by (simp only: any_definite_def Let_def definite_scan_iff scan_words
        width_words [where P = "\<lambda>i. \<not> pbit (v_unk v) i"] if_bool_eq_disj) blast
qed

lemma has_xz_zero_unk: "vec_ok v \<Longrightarrow> \<not> has_xz v \<longleftrightarrow> (\<forall>i. \<not> pbit (v_unk v) i)"
  by (metis has_xz_iff not_le plane_ok_out vec_ok_def)

section \<open>The number of a value\<close>

text \<open>The unsigned number of the value plane and the number under the value's own sign.\<close>

definition vnum :: "sim_value \<Rightarrow> nat" where
  "vnum v = wval (v_val v)"

definition pint :: "nat \<Rightarrow> bool \<Rightarrow> u64 list \<Rightarrow> int" where
  "pint w s ws = int (wval ws) - (if s \<and> 0 < w \<and> pbit ws (w - 1) then 2 ^ w else 0)"

definition vint :: "sim_value \<Rightarrow> int" where
  "vint v = pint (v_width v) (v_signed v) (v_val v)"

lemma vnum_bound: "vec_ok v \<Longrightarrow> vnum v < 2 ^ v_width v"
  by (simp add: vec_ok_def vnum_def plane_ok_wval)

lemma pint_unsigned [simp]: "pint w False ws = int (wval ws)"
  by (simp add: pint_def)

lemma pint_signed:
  assumes "plane_ok w ws" and "0 < w"
  shows "pint w True ws = signed_take_bit (w - 1) (int (wval ws))"
proof -
  obtain m where w: "w = Suc m" using assms(2) gr0_implies_Suc by blast
  have "take_bit w (int (wval ws)) = int (wval ws)"
    using plane_ok_wval [OF assms(1)] by (simp add: take_bit_int_eq_self flip: of_nat_less_iff)
  then have "signed_take_bit m (int (wval ws)) = int (wval ws) - 2 ^ w * of_bool (bit (int (wval ws)) m)"
    using signed_take_bit_eq_take_bit_minus [of m "int (wval ws)"] by (simp add: w)
  then show ?thesis by (simp add: pint_def w bit_of_nat_iff_bit bit_wval)
qed

lemma pint_bit:
  assumes "plane_ok w ws"
  shows "bit (pint w s ws) i \<longleftrightarrow> (if i < w then pbit ws i else s \<and> 0 < w \<and> pbit ws (w - 1))"
proof (cases "s \<and> 0 < w")
  case True
  have "min (w - 1) i = (if i < w then i else w - 1)" by auto
  then show ?thesis using True assms
    by (simp add: pint_signed bit_signed_take_bit_iff bit_of_nat_iff_bit bit_wval)
next
  case False
  then have "pint w s ws = int (wval ws)" by (auto simp: pint_def)
  then show ?thesis using False assms plane_ok_out by (auto simp: bit_of_nat_iff_bit bit_wval)
qed

lemma pint_range:
  assumes "plane_ok w ws" and "0 < w"
  shows "- (2 ^ (w - 1)) \<le> pint w True ws \<and> pint w True ws < 2 ^ (w - 1)"
  using assms by (simp add: pint_signed signed_take_bit_int_greater_eq_minus_exp signed_take_bit_int_less_exp)

lemma pint_mod: "pint w s ws mod 2 ^ w = int (wval ws) mod 2 ^ w"
  by (simp add: pint_def)

section \<open>Machine integers\<close>

definition v_low_mask :: "nat \<Rightarrow> u64" where
  "v_low_mask width = (if 64 \<le> width then - 1 else if width = 0 then 0 else push_bit width 1 - 1)"

definition to_u64 :: "sim_value \<Rightarrow> u64 option" where
  "to_u64 v =
     (if has_xz v then None
      else if list_ex (\<lambda>w. w \<noteq> 0) (drop 1 (v_val v)) then None
      else Some (wget (v_val v) 0 AND v_low_mask (v_width v)))"

definition to_u128 :: "sim_value \<Rightarrow> u128 option" where
  "to_u128 v =
     (if has_xz v then None
      else if list_ex (\<lambda>w. w \<noteq> 0) (drop 2 (v_val v)) then None
      else (let lo = ucast (wget (v_val v) 0);
                hi = ucast (wget (v_val v) 1);
                raw = lo OR push_bit 64 hi
            in if 128 \<le> v_width v then Some raw
               else Some (raw AND (push_bit (v_width v) 1 - 1))))"

text \<open>\<open>i128::try_from(u).ok()\<close> on a \<open>u128\<close>.\<close>

definition i128_try_from :: "u128 \<Rightarrow> u128 option" where
  "i128_try_from u = (if unat u < 2 ^ 127 then Some u else None)"

definition to_i128_signed :: "sim_value \<Rightarrow> u128 option" where
  "to_i128_signed v =
     (if 64 < v_width v
      then (case to_u128 v of
              None \<Rightarrow> None
            | Some u \<Rightarrow>
                if v_signed v
                then (if 128 \<le> v_width v then Some u
                      else if drop_bit (v_width v - 1) u AND 1 = 1
                      then Some (u OR push_bit (v_width v) (NOT 0))
                      else Some u)
                else i128_try_from u)
      else (case to_u64 v of
              None \<Rightarrow> None
            | Some x \<Rightarrow>
                (let u = ucast x in
                 if v_signed v \<and> 1 \<le> v_width v \<and> v_width v \<le> 64
                    \<and> drop_bit (v_width v - 1) (wget (v_val v) 0) AND 1 = 1
                 then Some (u - push_bit (v_width v) 1)
                 else Some u)))"

lemma v_low_mask_eq: "v_low_mask w = low_mask w"
  by (simp add: v_low_mask_def low_mask_def)

lemma wval_high_zero:
  "list_ex (\<lambda>w. w \<noteq> 0) (drop k ws) \<longleftrightarrow> wval ws \<noteq> wval (take k ws)"
proof -
  have h: "wval ws = wval (take k ws) + 2 ^ (64 * min k (length ws)) * wval (drop k ws)"
    by (rule wval_take_drop)
  have "list_ex (\<lambda>w. w \<noteq> 0) (drop k ws) \<longleftrightarrow> wval (drop k ws) \<noteq> 0"
    by (auto simp: wval_eq_0_iff list_ex_iff)
  also have "\<dots> \<longleftrightarrow> wval ws \<noteq> wval (take k ws)" unfolding h by simp
  finally show ?thesis .
qed

lemma wval_fits: "list_ex (\<lambda>w. w \<noteq> 0) (drop k ws) \<longleftrightarrow> \<not> wval ws < 2 ^ (64 * k)"
proof
  assume a: "list_ex (\<lambda>w. w \<noteq> 0) (drop k ws)"
  show "\<not> wval ws < 2 ^ (64 * k)"
  proof
    assume "wval ws < 2 ^ (64 * k)"
    then have "wval (take k ws) = wval ws" by (simp add: wval_take)
    then show False using a by (simp add: wval_high_zero)
  qed
next
  assume "\<not> wval ws < 2 ^ (64 * k)"
  then have "wval ws \<noteq> wval (take k ws)"
    unfolding wval_take by (metis mod_less_divisor zero_less_power zero_less_numeral)
  then show "list_ex (\<lambda>w. w \<noteq> 0) (drop k ws)" by (simp add: wval_high_zero)
qed

lemma bit_of_nat_word: "bit (word_of_nat n :: 'a::len word) i \<longleftrightarrow> i < LENGTH('a) \<and> bit n i"
proof -
  have "bit (word_of_int (int n) :: 'a word) i \<longleftrightarrow> i < LENGTH('a) \<and> bit (int n) i"
    by (rule bit_word_of_int_iff)
  then show ?thesis by (simp add: bit_of_nat_iff_bit)
qed

lemma word_of_wval: "(word_of_nat (wval ws) :: u64) = wget ws 0"
proof (rule bit_word_eqI)
  fix i assume i: "i < LENGTH(64)"
  then have "pbit ws i = bit (wget ws 0) i" by (simp add: pbit_def)
  then show "bit (word_of_nat (wval ws) :: u64) i = bit (wget ws 0) i"
    using i by (simp add: bit_of_nat_word bit_wval)
qed

lemma u128_of_words: "ucast (wget ws 0) OR push_bit 64 (ucast (wget ws 1)) = (word_of_nat (wval ws) :: u128)"
proof (rule bit_word_eqI)
  fix i assume i: "i < LENGTH(128)"
  show "bit (ucast (wget ws 0) OR push_bit 64 (ucast (wget ws 1)) :: u128) i = bit (word_of_nat (wval ws) :: u128) i"
  proof (cases "i < 64")
    case True
    then show ?thesis using i
      by (simp add: bit_of_nat_word bit_wval bit_or_iff bit_push_bit_iff bit_ucast_iff pbit_def)
  next
    case False
    then have e: "i = 64 * 1 + (i - 64)" and l: "i - 64 < 64" using i by simp_all
    have p: "pbit ws i = bit (wget ws 1) (i - 64)" using pbit_at [OF l, of ws 1] e by simp
    have "\<not> bit (wget ws 0) i" using False by (simp add: impossible_bit)
    moreover have "i - 64 < 128" using i by simp
    ultimately show ?thesis using i False p
      by (simp add: bit_of_nat_word bit_wval bit_or_iff bit_push_bit_iff bit_ucast_iff)
  qed
qed

lemma and_mask_id:
  assumes "n < 2 ^ w"
  shows "word_of_nat n AND (push_bit w 1 - 1) = (word_of_nat n :: 'a::len word)"
proof -
  have "push_bit w 1 - 1 = (mask w :: 'a word)" by (simp add: push_bit_of_1 mask_eq_exp_minus_1)
  moreover have "take_bit w (word_of_nat n) = (word_of_nat n :: 'a word)"
    using assms by (simp add: take_bit_of_nat take_bit_nat_eq_self)
  ultimately show ?thesis by (simp add: take_bit_eq_mask)
qed

lemma to_u64_eq:
  assumes "vec_ok v"
  shows "to_u64 v = (if has_xz v \<or> \<not> vnum v < 2 ^ 64 then None else Some (word_of_nat (vnum v)))"
proof -
  have "vnum v < 2 ^ v_width v" using assms by (rule vnum_bound)
  then have "wget (v_val v) 0 AND v_low_mask (v_width v) = word_of_nat (vnum v)"
    using and_mask_id [of "vnum v" "v_width v", where 'a = 64]
    by (cases "v_width v = 0"; cases "64 \<le> v_width v")
       (simp_all add: vnum_def v_low_mask_def flip: word_of_wval)
  then show ?thesis using wval_fits [of 1 "v_val v"] by (simp add: to_u64_def vnum_def)
qed

lemma to_u128_eq:
  assumes "vec_ok v"
  shows "to_u128 v = (if has_xz v \<or> \<not> vnum v < 2 ^ 128 then None else Some (word_of_nat (vnum v)))"
proof -
  have "vnum v < 2 ^ v_width v" using assms by (rule vnum_bound)
  then have "word_of_nat (vnum v) AND (push_bit (v_width v) 1 - 1) = (word_of_nat (vnum v) :: u128)"
    by (rule and_mask_id)
  then show ?thesis using wval_fits [of 2 "v_val v"]
    by (auto simp: to_u128_def vnum_def Let_def u128_of_words [unfolded One_nat_def])
qed

lemma word_of_int_bits:
  assumes "\<And>i. i < LENGTH('a) \<Longrightarrow> bit x i \<longleftrightarrow> bit k i"
  shows "(x :: 'a::len word) = word_of_int k"
  by (rule bit_word_eqI) (simp add: assms bit_word_of_int_iff)

lemma to_i128_signed_signed:
  assumes "vec_ok v" and "\<not> has_xz v" and "v_width v \<le> 128" and "v_signed v"
  shows "to_i128_signed v = Some (word_of_int (vint v))"
proof -
  let ?w = "v_width v" and ?u = "word_of_nat (vnum v) :: u128"
  have n: "vnum v < 2 ^ ?w" using assms(1) by (rule vnum_bound)
  also have "(2 :: nat) ^ ?w \<le> 2 ^ 128" using assms(3) by (rule power_increasing) simp
  finally have u: "to_u128 v = Some ?u" using assms by (simp add: to_u128_eq)
  have ok: "plane_ok ?w (v_val v)" using assms by (simp add: vec_ok_def)
  have vb: "bit (vint v) i \<longleftrightarrow> (if i < ?w then pbit (v_val v) i else 0 < ?w \<and> pbit (v_val v) (?w - 1))" for i
    using pint_bit [OF ok] assms(4) by (simp add: vint_def)
  have ub: "bit ?u i \<longleftrightarrow> i < 128 \<and> pbit (v_val v) i" for i
    by (simp add: bit_of_nat_word vnum_def bit_wval)
  show ?thesis
  proof (cases "64 < ?w")
    case True
    consider "?w = 128" | "?w < 128" using assms(3) by linarith
    then show ?thesis
    proof cases
      case 1
      have "?u = word_of_int (vint v)" by (rule word_of_int_bits) (simp add: vb ub 1)
      then show ?thesis using 1 assms u by (simp add: to_i128_signed_def)
    next
      case 2
      have o: "pbit (v_val v) i \<Longrightarrow> i < ?w" for i using ok by (simp add: plane_ok_iff)
      have "?u = word_of_int (vint v)" if "\<not> pbit (v_val v) (?w - 1)"
        by (rule word_of_int_bits) (use that o in \<open>auto simp: vb ub\<close>)
      moreover have "?u OR push_bit ?w (NOT 0) = word_of_int (vint v)" if "pbit (v_val v) (?w - 1)"
        by (rule word_of_int_bits)
          (use that True o in \<open>auto simp: vb bit_or_iff bit_push_bit_iff bit_not_iff bit_mask_iff ub not_less\<close>)
      ultimately show ?thesis using 2 True assms u
        by (simp add: to_i128_signed_def shift_and_1 ub)
    qed
  next
    case False
    then have "(2 :: nat) ^ ?w \<le> 2 ^ 64" by (intro power_increasing) simp_all
    then have n64: "vnum v < 2 ^ 64" using vnum_bound [OF assms(1)] by (rule less_le_trans [rotated])
    then have t: "to_u64 v = Some (word_of_nat (vnum v))" using assms by (simp add: to_u64_eq)
    have c: "ucast (word_of_nat (vnum v) :: u64) = ?u"
      using n64 by (simp add: word_unat_eq_iff unsigned_of_nat take_bit_nat_eq_self
          take_bit_nat_eq_self_iff)
    have p: "pbit (v_val v) (?w - 1) = bit (wget (v_val v) 0) (?w - 1)" using False by (simp add: pbit_def)
    have "to_i128_signed v = Some (if 0 < ?w \<and> pbit (v_val v) (?w - 1) then ?u - push_bit ?w 1 else ?u)"
      using False assms t by (simp add: to_i128_signed_def c shift_and_1 p [simplified] Suc_le_eq Let_def)
    moreover have "?u - push_bit ?w 1 = word_of_int (int (vnum v) - 2 ^ ?w)" by (simp add: push_bit_of_1)
    moreover have "vint v = int (vnum v) - (if 0 < ?w \<and> pbit (v_val v) (?w - 1) then 2 ^ ?w else 0)"
      using assms(4) by (simp add: vint_def pint_def vnum_def)
    ultimately show ?thesis by (simp del: of_int_diff)
  qed
qed

lemma to_i128_signed_unsigned:
  assumes "vec_ok v" and "\<not> has_xz v" and "\<not> v_signed v"
  shows "to_i128_signed v = (if vnum v < 2 ^ 127 then Some (word_of_int (vint v)) else None)"
proof (cases "64 < v_width v")
  case True
  have "unat (word_of_nat (vnum v) :: u128) = vnum v" if "vnum v < 2 ^ 128"
    using that by (simp add: unsigned_of_nat take_bit_nat_eq_self)
  then show ?thesis using True assms
    by (auto simp: to_i128_signed_def to_u128_eq i128_try_from_def vint_def vnum_def)
next
  case False
  then have "(2 :: nat) ^ v_width v \<le> 2 ^ 64" by (intro power_increasing) simp_all
  then have n64: "vnum v < 2 ^ 64" using vnum_bound [OF assms(1)] by (rule less_le_trans [rotated])
  have c: "ucast (word_of_nat (vnum v) :: u64) = (word_of_nat (vnum v) :: u128)"
    using n64 by (simp add: word_unat_eq_iff unsigned_of_nat take_bit_nat_eq_self)
  show ?thesis using False assms n64 c
    by (simp add: to_i128_signed_def to_u64_eq vint_def vnum_def)
qed

end
