(* ===== verification/ValueResize.thy ===== *)
theory ValueResize
  imports ValueReads
begin

text \<open>
  Changing a value's width (\<open>resize\<close> with its one-word fast path \<open>resize_word\<close>,
  \<open>resize_keep_sign\<close>, \<open>into_bitpacked\<close>, the store's \<open>scalar_words_resized\<close>) and shifting it
  (\<open>shr_fill\<close>, \<open>shl_grow\<close>), of \<open>crates/sim-engine/src/value.rs\<close>.  Every result is
  characterised bit by bit, and resizing of a 2-state value also as integer arithmetic
  modulo the new width.
\<close>

section \<open>The one-word rule\<close>

definition sign_fill_word :: "u64 \<Rightarrow> u64 \<Rightarrow> u64 \<Rightarrow> u64" where
  "sign_fill_word x f m = (x AND NOT m) OR ((if f \<noteq> 0 then - 1 else 0) AND m)"

definition resize_word :: "u64 \<Rightarrow> u64 \<Rightarrow> nat \<Rightarrow> nat \<Rightarrow> bool \<Rightarrow> u64 \<times> u64" where
  "resize_word v u from_w to_w sg =
     (let (v, u) = (if from_w = 0 then (0, 0) else (v, u));
          (v, u) =
            (if from_w < to_w \<and> sg \<and> 0 < from_w
             then (let b = from_w - 1;
                       fv = drop_bit b v AND 1;
                       fu = drop_bit b u AND 1
                   in if fv \<noteq> 0 \<or> fu \<noteq> 0
                      then (let bits = to_w - from_w; m = window_mask bits from_w
                            in (sign_fill_word v fv m, sign_fill_word u fu m))
                      else (v, u))
             else (v, u));
          m = top_mask to_w
      in (v AND m, u AND m))"

definition scalar_words_resized ::
  "u64 \<Rightarrow> u64 \<Rightarrow> nat \<Rightarrow> bool \<Rightarrow> nat \<Rightarrow> bool \<Rightarrow> u64 \<times> u64" where
  "scalar_words_resized val unk net_w net_signed w ctx_signed =
     (let nm = top_mask net_w;
          v = val AND nm;
          u = unk AND nm;
          eff_signed = (net_signed \<and> ctx_signed);
          (v, u) =
            (if net_w < w \<and> eff_signed
             then (let b = net_w - 1;
                       fv = drop_bit b v AND 1;
                       fu = drop_bit b u AND 1
                   in if fv \<noteq> 0 \<or> fu \<noteq> 0
                      then (let bits = w - net_w; m = window_mask bits net_w
                            in (sign_fill_word v fv m, sign_fill_word u fu m))
                      else (v, u))
             else (v, u));
          m = top_mask w
      in (v AND m, u AND m))"

text \<open>The bits of an extension: the sign bit repeats above the old width.\<close>

definition sx :: "(nat \<Rightarrow> bool) \<Rightarrow> nat \<Rightarrow> bool \<Rightarrow> nat \<Rightarrow> bool" where
  "sx p w s i \<longleftrightarrow> (if i < w then p i else s \<and> 0 < w \<and> p (w - 1))"

lemma bit_sign_fill_word:
  assumes "f + bits \<le> 64"
  shows "bit (sign_fill_word x c (window_mask bits f)) i \<longleftrightarrow>
    (if f \<le> i \<and> i < f + bits then c \<noteq> 0 else bit x i)"
  using assms by (cases "i < 64")
    (auto simp: sign_fill_word_def bit_or_iff bit_and_iff bit_not_iff bit_window_mask impossible_bit)

lemma bit_top_mask_small: "i < 64 \<Longrightarrow> w \<le> 64 \<Longrightarrow> bit (top_mask w) i \<longleftrightarrow> i < w"
proof -
  assume a: "i < 64" "w \<le> 64"
  then have "nw1 w = 1" by (simp add: nw1_def v_nwords_def)
  then show ?thesis using bit_top_mask [OF a(1), of w] by simp
qed

lemma bit_top_mask_less: "w \<le> 64 \<Longrightarrow> bit (top_mask w) i \<longleftrightarrow> i < w"
  by (cases "i < 64") (auto simp: bit_top_mask_small impossible_bit)

lemma resize_word_bits:
  assumes "from_w \<le> 64" and "to_w \<le> 64"
    and "\<And>i. bit v i \<Longrightarrow> i < from_w" and "\<And>i. bit u i \<Longrightarrow> i < from_w"
  shows "bit (fst (resize_word v u from_w to_w sg)) i \<longleftrightarrow> i < to_w \<and> sx (bit v) from_w sg i"
    and "bit (snd (resize_word v u from_w to_w sg)) i \<longleftrightarrow> i < to_w \<and> sx (bit u) from_w sg i"
proof -
  have z: "v = 0" "u = 0" if "from_w = 0"
    using assms(3,4) that by (auto intro!: bit_word_eqI)
  have n: "from_w + (to_w - from_w) \<le> 64" using assms by simp
  show "bit (fst (resize_word v u from_w to_w sg)) i \<longleftrightarrow> i < to_w \<and> sx (bit v) from_w sg i"
    using assms(2,3) z
    by (auto simp: resize_word_def Let_def sx_def shift_and_1 bit_and_iff bit_top_mask_less
        bit_sign_fill_word [OF n] split: if_splits)
  show "bit (snd (resize_word v u from_w to_w sg)) i \<longleftrightarrow> i < to_w \<and> sx (bit u) from_w sg i"
    using assms(2,4) z
    by (auto simp: resize_word_def Let_def sx_def shift_and_1 bit_and_iff bit_top_mask_less
        bit_sign_fill_word [OF n] split: if_splits)
qed

lemma scalar_words_resized_eq:
  assumes "0 < net_w" and "net_w \<le> 64"
  shows "scalar_words_resized val unk net_w net_signed w ctx_signed
    = resize_word (val AND top_mask net_w) (unk AND top_mask net_w) net_w w (net_signed \<and> ctx_signed)"
  using assms by (simp add: scalar_words_resized_def resize_word_def Let_def)

section \<open>Resizing\<close>

text \<open>The two planes of the general path: the low words copied, the extension filled.\<close>

definition copy_words :: "sim_value \<Rightarrow> nat \<Rightarrow> u64 list \<Rightarrow> u64 list" where
  "copy_words self new_width ws =
     (let n = nw1 new_width;
          copy_w = min (v_nwords (min (v_width self) new_width)) n
      in map (\<lambda>k. if k < copy_w then wget ws k else 0) [0..<n])"

definition extend_fill :: "sim_value \<Rightarrow> nat \<Rightarrow> u64 list \<Rightarrow> u64 list \<Rightarrow> u64 list \<times> u64 list" where
  "extend_fill self new_width val unk =
     (if v_width self < new_width \<and> v_signed self \<and> 0 < v_width self
      then (let (fv, fu) = get_vu self (v_width self - 1) in
            if fv \<noteq> 0 \<or> fu \<noteq> 0
            then fill_bits val unk (v_width self) new_width fv fu
            else (val, unk))
      else (val, unk))"

definition resize :: "sim_value \<Rightarrow> nat \<Rightarrow> sim_value" where
  "resize self new_width =
     (if v_real self then self
      else if new_width = v_width self then self\<lparr>v_str := False\<rparr>
      else if v_width self \<le> 64 \<and> new_width \<le> 64
      then (let (v, u) = resize_word (wget (v_val self) 0) (wget (v_unk self) 0)
                           (v_width self) new_width (v_signed self);
                val = replicate 1 0; unk = replicate 1 0
            in \<lparr>v_val = val[0 := v], v_unk = unk[0 := u], v_width = new_width,
                v_signed = v_signed self, v_real = False, v_str = False\<rparr>)
      else (let (val, unk) = extend_fill self new_width (copy_words self new_width (v_val self))
                                             (copy_words self new_width (v_unk self))
            in mask_top \<lparr>v_val = val, v_unk = unk, v_width = new_width,
                v_signed = v_signed self, v_real = False, v_str = False\<rparr>))"

definition resize_keep_sign :: "sim_value \<Rightarrow> nat \<Rightarrow> bool \<Rightarrow> sim_value" where
  "resize_keep_sign self w ctx_signed =
     (if v_real self then self
      else if v_str self then self
      else if w = v_width self then self\<lparr>v_signed := ctx_signed, v_str := False\<rparr>
      else (resize (self\<lparr>v_signed := v_signed self \<and> ctx_signed\<rparr>) w)\<lparr>v_signed := ctx_signed\<rparr>)"

definition into_bitpacked :: "sim_value \<Rightarrow> nat \<Rightarrow> bit_packed" where
  "into_bitpacked self out_width =
     (let r = resize self out_width in \<lparr>p_val = v_val r, p_unk = v_unk r\<rparr>)"

lemma pbit_copy_words:
  assumes "plane_ok (v_width v) ws" and "i < n"
  shows "pbit (copy_words v n ws) i = pbit ws i"
proof (cases "i < v_width v")
  case True
  have "i div 64 < nw1 n" using assms(2) by (rule nw1_less)
  moreover have "i div 64 < v_nwords (min (v_width v) n)" using True assms by (simp add: v_nwords_def)
  ultimately show ?thesis by (simp add: pbit_def copy_words_def Let_def)
next
  case False
  then have "\<not> pbit ws i" using plane_ok_out [OF assms(1)] by simp
  then show ?thesis by (simp add: pbit_def copy_words_def Let_def)
qed

lemma length_copy_words [simp]: "length (copy_words v n ws) = nw1 n"
  by (simp add: copy_words_def Let_def)

lemma pbit_extend_fill:
  assumes "plane_ok (v_width v) (v_val v)" and "plane_ok (v_width v) (v_unk v)" and "i < n"
  shows "pbit (fst (extend_fill v n (copy_words v n (v_val v)) (copy_words v n (v_unk v)))) i
       = sx (pbit (v_val v)) (v_width v) (v_signed v) i"
    and "pbit (snd (extend_fill v n (copy_words v n (v_val v)) (copy_words v n (v_unk v)))) i
       = sx (pbit (v_unk v)) (v_width v) (v_signed v) i"
proof -
  have l: "i < 64 * nw1 n" using nw1_bounds(2) [of n] assms(3) by linarith
  have o: "\<not> pbit (v_val v) i" "\<not> pbit (v_unk v) i" if "\<not> i < v_width v"
    using that plane_ok_out assms by simp_all
  have f: "fst (get_vu v j) = 0 \<longleftrightarrow> \<not> pbit (v_val v) j" "snd (get_vu v j) = 0 \<longleftrightarrow> \<not> pbit (v_unk v) j" for j
    by (simp_all add: get_vu_eq pair1_def)
  note c = pbit_copy_words [OF assms(1,3)] pbit_copy_words [OF assms(2,3)]
  show "pbit (fst (extend_fill v n (copy_words v n (v_val v)) (copy_words v n (v_unk v)))) i
       = sx (pbit (v_val v)) (v_width v) (v_signed v) i"
    using l o assms(3) by (auto simp: extend_fill_def sx_def case_prod_beta f c pbit_fill_bits)
  show "pbit (snd (extend_fill v n (copy_words v n (v_val v)) (copy_words v n (v_unk v)))) i
       = sx (pbit (v_unk v)) (v_width v) (v_signed v) i"
    using l o assms(3) by (auto simp: extend_fill_def sx_def case_prod_beta f c pbit_fill_bits)
qed

lemma resize_fields [simp, vec_simps]:
  "\<not> v_real v \<Longrightarrow> v_width (resize v n) = n" "v_signed (resize v n) = v_signed v"
  "v_real (resize v n) = v_real v" "\<not> v_real v \<Longrightarrow> \<not> v_str (resize v n)"
  by (auto simp: resize_def Let_def split: prod.splits)

lemma plane_ok_one_word:
  assumes "w \<le> 64" and "\<And>i. bit x i \<Longrightarrow> i < w"
  shows "plane_ok w [x]"
proof -
  have "nw1 w = 1" using assms(1) by (simp add: nw1_def v_nwords_def)
  moreover have "pbit [x] i \<Longrightarrow> i < w" for i
    using assms(2) [of i] by (cases "i < 64") (auto simp: pbit_def wget_def split: if_splits)
  ultimately show ?thesis by (simp add: plane_ok_iff)
qed

lemma pbit_one_word: "length ws = 1 \<Longrightarrow> pbit ws i = bit (wget ws 0) i"
  by (cases "i < 64") (auto simp: pbit_def wget_out impossible_bit)

lemma one_word_ok:
  assumes "plane_ok w ws" and "w \<le> 64"
  shows "length ws = 1" and "bit (wget ws 0) i \<Longrightarrow> i < w"
proof -
  show l: "length ws = 1" using assms by (simp add: plane_ok_iff nw1_def v_nwords_def)
  show "bit (wget ws 0) i \<Longrightarrow> i < w"
    using assms(1) by (simp add: plane_ok_iff flip: pbit_one_word [OF l])
qed

lemma pbit_one_word_fun: "length ws = 1 \<Longrightarrow> pbit ws = bit (wget ws 0)"
  by (rule ext) (rule pbit_one_word)

lemma sx_cong: "(\<And>i. i < w \<Longrightarrow> p i = q i) \<Longrightarrow> sx p w s i = sx q w s i"
  by (auto simp: sx_def)

lemma vbit_sx: "l4 (sx (pbit (v_val v)) w s i) (sx (pbit (v_unk v)) w s i)
   = (if i < w then vbit v i else if s \<and> 0 < w then vbit v (w - 1) else L0)"
  by (cases "s \<and> 0 < w") (auto simp: sx_def vbit_def)

lemma resize_planes:
  assumes "vec_ok v"
  shows "plane_ok n (v_val (resize v n)) \<and> plane_ok n (v_unk (resize v n)) \<and>
    pbit (v_val (resize v n)) i = (i < n \<and> sx (pbit (v_val v)) (v_width v) (v_signed v) i) \<and>
    pbit (v_unk (resize v n)) i = (i < n \<and> sx (pbit (v_unk v)) (v_width v) (v_signed v) i)"
proof -
  let ?w = "v_width v" and ?s = "v_signed v"
  have r: "\<not> v_real v" and pv: "plane_ok ?w (v_val v)" and pu: "plane_ok ?w (v_unk v)"
    using assms by (simp_all add: vec_ok_def)
  consider (same) "n = ?w" | (word) "n \<noteq> ?w" "?w \<le> 64" "n \<le> 64" | (general) "n \<noteq> ?w" "\<not> (?w \<le> 64 \<and> n \<le> 64)"
    by blast
  then show ?thesis
  proof cases
    case same
    then show ?thesis using r pv pu by (auto simp: resize_def plane_ok_iff sx_def)
  next
    case word
    obtain rv ru where rw: "resize_word (wget (v_val v) 0) (wget (v_unk v) 0) ?w n ?s = (rv, ru)" by fastforce
    have e: "v_val (resize v n) = [rv]" "v_unk (resize v n) = [ru]"
      using word r by (simp_all add: resize_def rw)
    note ov = one_word_ok [OF pv word(2)] and ou = one_word_ok [OF pu word(2)]
    have b: "bit rv i \<longleftrightarrow> i < n \<and> sx (pbit (v_val v)) ?w ?s i"
      "bit ru i \<longleftrightarrow> i < n \<and> sx (pbit (v_unk v)) ?w ?s i" for i
      using resize_word_bits [where v = "wget (v_val v) 0" and u = "wget (v_unk v) 0", OF word(2,3) ov(2) ou(2),
          where sg = ?s and i = i]
      unfolding rw pbit_one_word_fun [OF ov(1)] pbit_one_word_fun [OF ou(1)] fst_conv snd_conv
      by simp_all
    have "plane_ok n [rv]" "plane_ok n [ru]"
      by (rule plane_ok_one_word [OF word(3)], simp only: b)+
    moreover have "pbit [rv] i = bit rv i" "pbit [ru] i = bit ru i" by (simp_all add: pbit_one_word)
    ultimately show ?thesis unfolding e using b by blast
  next
    case general
    let ?q = "extend_fill v n (copy_words v n (v_val v)) (copy_words v n (v_unk v))"
    have e: "v_val (resize v n) = mask_plane n (fst ?q)" "v_unk (resize v n) = mask_plane n (snd ?q)"
      using general r by (auto simp: resize_def mask_top_def case_prod_beta)
    show ?thesis using pbit_extend_fill [OF pv pu] by (auto simp: e pbit_mask_plane)
  qed
qed

lemma vec_ok_resize [simp, vec_simps]: "vec_ok v \<Longrightarrow> vec_ok (resize v n)"
  using resize_planes [of v n] by (simp add: vec_ok_def)

lemma vbit_resize [vec_simps]:
  assumes "vec_ok v"
  shows "vbit (resize v n) i =
    (if n \<le> i then L0 else if i < v_width v then vbit v i
     else if v_signed v \<and> 0 < v_width v then vbit v (v_width v - 1) else L0)"
  using resize_planes [OF assms, of n i] vbit_sx [of v "v_width v" "v_signed v" i]
  by (auto simp: vbit_def)

lemma plane_number_of_sx:
  assumes "plane_ok w a" and "plane_ok n b" and "\<And>i. i < n \<Longrightarrow> pbit b i = sx (pbit a) w s i"
  shows "int (wval b) = pint w s a mod 2 ^ n"
proof -
  have "int (wval b) = take_bit n (pint w s a)"
  proof (rule bit_eqI)
    fix i
    show "bit (int (wval b)) i = bit (take_bit n (pint w s a)) i"
      using assms plane_ok_out [OF assms(2), of i]
      by (cases "i < n") (simp_all add: bit_take_bit_iff pint_bit bit_of_nat_iff_bit bit_wval sx_def)
  qed
  then show ?thesis by (simp add: take_bit_eq_mod)
qed

lemma vnum_resize:
  assumes "vec_ok v"
  shows "int (vnum (resize v n)) = vint v mod 2 ^ n"
  unfolding vnum_def vint_def
  using resize_planes [OF assms, of n] assms
  by (intro plane_number_of_sx) (auto simp: vec_ok_def)

section \<open>Resizing under a context sign\<close>

text \<open>
  A string is never resized by a context; strings are unsigned.  \<open>val_ok\<close> is the invariant
  of every integral value an expression evaluates to.
\<close>

definition val_ok :: "sim_value \<Rightarrow> bool" where
  "val_ok v \<longleftrightarrow> vec_ok v \<and> (v_str v \<longrightarrow> \<not> v_signed v)"

lemma val_ok_vec_ok: "val_ok v \<Longrightarrow> vec_ok v"
  by (simp add: val_ok_def)

lemma vec_ok_update [simp]:
  "vec_ok (v\<lparr>v_signed := s\<rparr>) = vec_ok v" "vec_ok (v\<lparr>v_str := t\<rparr>) = vec_ok v"
  by (simp_all add: vec_ok_def)

lemma vbit_update [simp]:
  "vbit (v\<lparr>v_signed := s\<rparr>) = vbit v" "vbit (v\<lparr>v_str := t\<rparr>) = vbit v"
  by (simp_all add: vbit_def fun_eq_iff)

lemma vec_ok_rks [simp, vec_simps]: "vec_ok v \<Longrightarrow> vec_ok (resize_keep_sign v w c)"
  by (simp add: resize_keep_sign_def)

lemma rks_fields [simp, vec_simps]:
  assumes "vec_ok v" and "\<not> v_str v"
  shows "v_width (resize_keep_sign v w c) = w" "v_signed (resize_keep_sign v w c) = c"
    "\<not> v_real (resize_keep_sign v w c)" "\<not> v_str (resize_keep_sign v w c)"
  using assms by (simp_all add: resize_keep_sign_def vec_ok_def)

lemma rks_str [simp]: "v_str v \<Longrightarrow> resize_keep_sign v w c = v"
  by (simp add: resize_keep_sign_def)

text \<open>The bits a widened operand reads as, strings included.\<close>

lemma rks_planes:
  assumes "val_ok v" and "v_width v \<le> w"
  shows "pbit (v_val (resize_keep_sign v w c)) i = (i < w \<and> sx (pbit (v_val v)) (v_width v) (v_signed v \<and> c) i)"
    and "pbit (v_unk (resize_keep_sign v w c)) i = (i < w \<and> sx (pbit (v_unk v)) (v_width v) (v_signed v \<and> c) i)"
proof -
  have ok: "vec_ok v" and pv: "plane_ok (v_width v) (v_val v)" and pu: "plane_ok (v_width v) (v_unk v)"
    and r: "\<not> v_real v"
    using assms by (simp_all add: val_ok_def vec_ok_def)
  let ?u = "v\<lparr>v_signed := v_signed v \<and> c\<rparr>"
  have "vec_ok ?u" using ok by simp
  note rp = resize_planes [OF this, of w i]
  note ov = plane_ok_out [OF pv, of i] and ou = plane_ok_out [OF pu, of i]
  show "pbit (v_val (resize_keep_sign v w c)) i = (i < w \<and> sx (pbit (v_val v)) (v_width v) (v_signed v \<and> c) i)"
    using rp ov r assms by (auto simp: resize_keep_sign_def sx_def val_ok_def)
  show "pbit (v_unk (resize_keep_sign v w c)) i = (i < w \<and> sx (pbit (v_unk v)) (v_width v) (v_signed v \<and> c) i)"
    using rp ou r assms by (auto simp: resize_keep_sign_def sx_def val_ok_def)
qed

text \<open>The integer an operand denotes in a context of sign \<open>c\<close>.\<close>

definition vint_in :: "bool \<Rightarrow> sim_value \<Rightarrow> int" where
  "vint_in c v = pint (v_width v) (v_signed v \<and> c) (v_val v)"

lemma vint_in_simps:
  "vint_in True v = vint v" "vint_in False v = int (vnum v)" "\<not> v_signed v \<Longrightarrow> vint_in c v = int (vnum v)"
  by (simp_all add: vint_in_def vint_def vnum_def)

lemma vnum_rks:
  assumes "val_ok v" and "v_width v \<le> w"
  shows "int (vnum (resize_keep_sign v w c)) = vint_in c v mod 2 ^ w"
proof -
  let ?r = "resize_keep_sign v w c"
  have ok: "vec_ok ?r" using assms by (simp add: val_ok_def)
  have vv: "plane_ok (v_width v) (v_val v)" using assms by (simp add: val_ok_def vec_ok_def)
  have "int (wval (v_val ?r)) = take_bit w (vint_in c v)"
  proof (rule bit_eqI)
    fix i show "bit (int (wval (v_val ?r))) i = bit (take_bit w (vint_in c v)) i"
      using rks_planes(1) [OF assms, of c i] pint_bit [OF vv]
      by (simp add: bit_of_nat_iff_bit bit_wval bit_take_bit_iff vint_in_def sx_def)
  qed
  then show ?thesis by (simp add: vnum_def take_bit_eq_mod)
qed

lemma has_xz_rks:
  assumes "val_ok v" and "v_width v \<le> w"
  shows "has_xz (resize_keep_sign v w c) \<longleftrightarrow> has_xz v"
proof -
  have ok: "vec_ok v" using assms(1) by (rule val_ok_vec_ok)
  have "\<not> has_xz (resize_keep_sign v w c) \<longleftrightarrow> (\<forall>i. \<not> (i < w \<and> sx (pbit (v_unk v)) (v_width v) (v_signed v \<and> c) i))"
    using ok by (simp add: has_xz_zero_unk rks_planes(2) [OF assms])
  also have "\<dots> \<longleftrightarrow> (\<forall>i. \<not> pbit (v_unk v) i)"
    using ok assms(2) plane_ok_out [of "v_width v" "v_unk v"]
    by (auto simp: sx_def vec_ok_def) (metis le_less_trans not_le order.strict_trans1)
  finally show ?thesis using ok vec_ok_rks [OF ok, of w c] by (metis has_xz_zero_unk)
qed

text \<open>Extending never changes the integer.\<close>

lemma vint_rks_signed:
  assumes "vec_ok v" and "\<not> v_str v" and "v_signed v" and "v_width v \<le> w" and "0 < v_width v"
  shows "vint (resize_keep_sign v w True) = vint v"
proof (rule bit_eqI)
  let ?r = "resize_keep_sign v w True"
  fix i
  have ok: "val_ok v" using assms by (simp add: val_ok_def)
  have r: "plane_ok w (v_val ?r)" "v_width ?r = w" "v_signed ?r"
    using assms vec_ok_rks [OF assms(1), of w True] by (simp_all add: vec_ok_def)
  have v: "plane_ok (v_width v) (v_val v)" using assms by (simp add: vec_ok_def)
  have w: "0 < w" using assms by simp
  have "bit (vint ?r) i \<longleftrightarrow> pbit (v_val ?r) (if i < w then i else w - 1)"
    using w by (simp add: vint_def r(2,3) pint_bit [OF r(1)])
  also have "\<dots> \<longleftrightarrow> sx (pbit (v_val v)) (v_width v) True (if i < w then i else w - 1)"
    using w assms(3) by (simp add: rks_planes(1) [OF ok assms(4)])
  also have "\<dots> \<longleftrightarrow> pbit (v_val v) (if i < v_width v then i else v_width v - 1)"
  proof (cases "i < v_width v")
    case False
    have "v_width v = w" if "w - 1 < v_width v" using that assms(4) w by linarith
    then show ?thesis using False assms(4,5) by (auto simp: sx_def)
  qed (use assms in \<open>simp add: sx_def\<close>)
  also have "\<dots> \<longleftrightarrow> bit (vint v) i"
    using assms(3,5) by (simp add: vint_def pint_bit [OF v])
  finally show "bit (vint ?r) i = bit (vint v) i" .
qed

lemma scalar_words_resized_keep_sign:
  assumes "vec_ok v" and "\<not> v_str v" and "0 < v_width v" and "v_width v \<le> 64" and "w \<le> 64"
  shows "scalar_words_resized (wget (v_val v) 0) (wget (v_unk v) 0) (v_width v) (v_signed v) w c
    = (wget (v_val (resize_keep_sign v w c)) 0, wget (v_unk (resize_keep_sign v w c)) 0)"
proof -
  let ?w = "v_width v" and ?r = "resize_keep_sign v w c"
  have pv: "plane_ok ?w (v_val v)" "plane_ok ?w (v_unk v)" using assms by (simp_all add: vec_ok_def)
  have m: "x AND top_mask ?w = x" if "\<And>i. bit x i \<Longrightarrow> i < ?w" for x
    by (rule bit_word_eqI) (use that assms in \<open>auto simp: bit_and_iff bit_top_mask_less\<close>)
  note ov = one_word_ok [OF pv(1) assms(4)] and ou = one_word_ok [OF pv(2) assms(4)]
  have "scalar_words_resized (wget (v_val v) 0) (wget (v_unk v) 0) ?w (v_signed v) w c
    = resize_word (wget (v_val v) 0) (wget (v_unk v) 0) ?w w (v_signed v \<and> c)"
    using assms by (simp add: scalar_words_resized_eq m [OF ov(2)] m [OF ou(2)])
  moreover have "?r = (resize (v\<lparr>v_signed := v_signed v \<and> c\<rparr>) w)\<lparr>v_signed := c\<rparr>"
    using assms by (auto simp: resize_keep_sign_def resize_def vec_ok_def)
  moreover have "resize_word (wget (v_val v) 0) (wget (v_unk v) 0) ?w ?w (v_signed v \<and> c)
    = (wget (v_val v) 0, wget (v_unk v) 0)"
    using assms m [OF ov(2)] m [OF ou(2)] by (simp add: resize_word_def)
  ultimately show ?thesis using assms
    by (cases "w = ?w") (auto simp: resize_def vec_ok_def split: prod.splits)
qed

section \<open>Shifts\<close>

definition shr_fill :: "sim_value \<Rightarrow> nat \<Rightarrow> nat \<Rightarrow> u64 \<Rightarrow> u64 \<Rightarrow> sim_value" where
  "shr_fill self amt w fv fu =
     (let n = nw1 w;
          (val, unk) =
            (if amt < w
             then (let q = amt div 64; r = amt mod 64
                   in (map (shr_word (v_val self) q r) [0..<n], map (shr_word (v_unk self) q r) [0..<n]))
             else (replicate n 0, replicate n 0));
          (val, unk) =
            (if fv \<noteq> 0 \<or> fu \<noteq> 0
             then (let lo = min (w - amt) w in fill_bits val unk lo w fv fu)
             else (val, unk))
      in mask_top \<lparr>v_val = val, v_unk = unk, v_width = w, v_signed = v_signed self,
                   v_real = False, v_str = False\<rparr>)"

definition shl_grow :: "sim_value \<Rightarrow> nat \<Rightarrow> nat \<Rightarrow> sim_value" where
  "shl_grow self amt grow_w =
     (let n = nw1 grow_w;
          (val, unk) =
            (if amt < grow_w
             then (let q = amt div 64; r = amt mod 64
                   in (map (shl_word (v_val self) q r) [0..<n], map (shl_word (v_unk self) q r) [0..<n]))
             else (replicate n 0, replicate n 0))
      in mask_top \<lparr>v_val = val, v_unk = unk, v_width = grow_w, v_signed = v_signed self,
                   v_real = False, v_str = False\<rparr>)"

lemma shr_fill_fields [simp, vec_simps]:
  "v_width (shr_fill v a w fv fu) = w" "v_signed (shr_fill v a w fv fu) = v_signed v"
  "\<not> v_real (shr_fill v a w fv fu)" "\<not> v_str (shr_fill v a w fv fu)" "vec_ok (shr_fill v a w fv fu)"
  by (simp_all add: shr_fill_def Let_def case_prod_beta)

lemma shl_grow_fields [simp, vec_simps]:
  "v_width (shl_grow v a w) = w" "v_signed (shl_grow v a w) = v_signed v"
  "\<not> v_real (shl_grow v a w)" "\<not> v_str (shl_grow v a w)" "vec_ok (shl_grow v a w)"
  by (simp_all add: shl_grow_def Let_def case_prod_beta)

text \<open>Bit \<open>i\<close> of a right shift: bit \<open>i + amt\<close> of the source, the fill above.\<close>

lemma vbit_shr_fill [vec_simps]:
  assumes "i < w"
  shows "vbit (shr_fill v amt w fv fu) i =
    (if i + amt < w \<or> (fv = 0 \<and> fu = 0 \<and> amt < w) then vbit v (i + amt)
     else l4 (fv \<noteq> 0) (fu \<noteq> 0))"
proof -
  have l: "i < 64 * nw1 w" using nw1_bounds(2) [of w] assms by linarith
  have lo: "min (w - amt) w \<le> i \<longleftrightarrow> \<not> i + amt < w" using assms by linarith
  show ?thesis
    using assms l lo
    by (simp add: shr_fill_def Let_def case_prod_beta vbit_mask_top)
      (auto simp: vbit_def pbit_fill_bits pbit_shr)
qed

lemma vbit_shl_grow [vec_simps]:
  assumes "i < w"
  shows "vbit (shl_grow v amt w) i = (if amt \<le> i then vbit v (i - amt) else L0)"
proof -
  have l: "i < 64 * nw1 w" using nw1_bounds(2) [of w] assms by linarith
  show ?thesis
    using assms l
    by (simp add: shl_grow_def Let_def case_prod_beta vbit_mask_top)
      (auto simp: vbit_def pbit_shl)
qed

section \<open>Packing\<close>

lemma packed_roundtrip:
  assumes "vec_ok v" and "\<not> v_str v"
  shows "from_packed (into_bitpacked v (v_width v)) (v_width v) (v_signed v) = v"
proof (rule vec_ok_ext)
  fix i assume "i < v_width (from_packed (into_bitpacked v (v_width v)) (v_width v) (v_signed v))"
  then show "vbit (from_packed (into_bitpacked v (v_width v)) (v_width v) (v_signed v)) i = vbit v i"
    using assms by (simp add: vbit_from_packed into_bitpacked_def Let_def resize_def vec_ok_def)
      (simp add: vbit_def)
qed (use assms in simp_all)

section \<open>Clearing a window\<close>

definition clear_bits :: "sim_value \<Rightarrow> nat \<Rightarrow> nat \<Rightarrow> sim_value" where
  "clear_bits self lo w =
     (let p = fill_bits (v_val self) (v_unk self) lo (lo + w) 0 0
      in self\<lparr>v_val := fst p, v_unk := snd p\<rparr>)"

lemma clear_bits_fields [simp, vec_simps]:
  "v_width (clear_bits v lo w) = v_width v" "v_signed (clear_bits v lo w) = v_signed v"
  "v_real (clear_bits v lo w) = v_real v" "v_str (clear_bits v lo w) = v_str v"
  "length (v_val (clear_bits v lo w)) = length (v_val v)" "length (v_unk (clear_bits v lo w)) = length (v_unk v)"
  by (simp_all add: clear_bits_def Let_def)

lemma vbit_clear_bits [vec_simps]:
  assumes "vec_ok v"
  shows "vbit (clear_bits v lo w) i = (if lo \<le> i \<and> i < lo + w then L0 else vbit v i)"
    and "vec_ok (clear_bits v lo w)"
proof -
  have p: "pbit (v_val (clear_bits v lo w)) j = (\<not> (lo \<le> j \<and> j < lo + w) \<and> pbit (v_val v) j)"
    "pbit (v_unk (clear_bits v lo w)) j = (\<not> (lo \<le> j \<and> j < lo + w) \<and> pbit (v_unk v) j)" for j
    using pbit_out [of "v_val v" j] pbit_out [of "v_unk v" j]
    by (auto simp: clear_bits_def Let_def pbit_fill_bits not_le)
  then show "vbit (clear_bits v lo w) i = (if lo \<le> i \<and> i < lo + w then L0 else vbit v i)"
    by (simp add: vbit_def)
  show "vec_ok (clear_bits v lo w)"
    using assms p by (simp add: vec_ok_def plane_ok_iff)
qed

section \<open>Sample values\<close>

text \<open>The 8-bit unsigned and signed values the examples use.\<close>

definition byte_value :: "u64 \<Rightarrow> sim_value" where
  "byte_value n = \<lparr>v_val = [n], v_unk = [0], v_width = 8, v_signed = False, v_real = False, v_str = False\<rparr>"

definition sbyte_value :: "u64 \<Rightarrow> sim_value" where
  "sbyte_value n = \<lparr>v_val = [n], v_unk = [0], v_width = 8, v_signed = True, v_real = False, v_str = False\<rparr>"

lemma byte_value_ok:
  "n AND NOT 255 = 0 \<Longrightarrow> val_ok (byte_value n) \<and> \<not> has_xz (byte_value n)"
  "n AND NOT 255 = 0 \<Longrightarrow> val_ok (sbyte_value n) \<and> \<not> has_xz (sbyte_value n)"
  by (simp_all add: byte_value_def sbyte_value_def val_ok_def vec_ok_def plane_ok_def top_mask_def nw1_def v_nwords_def
      wget_def has_xz_def)

lemma byte_value_fields [simp]:
  "v_width (byte_value n) = 8" "v_signed (byte_value n) = False" "v_str (byte_value n) = False"
  "v_real (byte_value n) = False" "v_val (byte_value n) = [n]" "v_unk (byte_value n) = [0]"
  "v_width (sbyte_value n) = 8" "v_signed (sbyte_value n) = True" "v_str (sbyte_value n) = False"
  "v_real (sbyte_value n) = False" "v_val (sbyte_value n) = [n]" "v_unk (sbyte_value n) = [0]"
  by (simp_all add: byte_value_def sbyte_value_def)

section \<open>Properties\<close>

text \<open>C18: \<open>Value::resize\<close> truncates or extends without changing what the value denotes: the result is
  canonical, its low bits are the source's, the bits above are the source's sign bit (x and z
  included) when signed and 0 otherwise, and its number is the source's integer modulo \<open>2 ^ n\<close>.\<close>

theorem resize_extends_by_sign:
  assumes "vec_ok v"
  shows "vec_ok (resize v n) \<and> v_width (resize v n) = n \<and> int (vnum (resize v n)) = vint v mod 2 ^ n
    \<and> (\<forall>i<n. vbit (resize v n) i =
         (if i < v_width v then vbit v i
          else if v_signed v \<and> 0 < v_width v then vbit v (v_width v - 1) else L0))"
proof -
  have "\<not> v_real v" using assms by (simp add: vec_ok_def)
  then show ?thesis using assms vbit_resize [OF assms, of n] vnum_resize [OF assms, of n] by simp
qed

theorem resize_extends_by_sign_witness:
  "vnum (resize (sbyte_value 254) 16) = 65534"
proof -
  have b: "pbit [254] 7" by (simp add: pbit_def wget_def)
  then show ?thesis
    using resize_extends_by_sign [of "sbyte_value 254" 16] byte_value_ok(2) [of 254] b
    by (simp add: val_ok_def vint_def pint_def)
qed

text \<open>The one-word resize of the narrow evaluator, \<open>scalar_words_resized\<close>, is the general
  \<open>resize_keep_sign\<close> on every value and target of at most 64 bits.\<close>

theorem scalar_resize_is_resize_keep_sign:
  assumes "vec_ok v" and "\<not> v_str v" and "0 < v_width v" and "v_width v \<le> 64" and "w \<le> 64"
  shows "scalar_words_resized (wget (v_val v) 0) (wget (v_unk v) 0) (v_width v) (v_signed v) w c
    = (wget (v_val (resize_keep_sign v w c)) 0, wget (v_unk (resize_keep_sign v w c)) 0)"
  by (rule scalar_words_resized_keep_sign [OF assms])

theorem scalar_resize_is_resize_keep_sign_witness:
  "scalar_words_resized 200 0 8 True 10 True
   = (wget (v_val (resize_keep_sign (sbyte_value 200) 10 True)) 0, wget (v_unk (resize_keep_sign (sbyte_value 200) 10 True)) 0)"
  using scalar_resize_is_resize_keep_sign [of "sbyte_value 200" 10 True] byte_value_ok(2) [of 200]
  by (simp add: val_ok_def wget_def)

text \<open>Shifts move bits and never invent them: \<open>shr_fill\<close> reads bit \<open>i + amt\<close> of the source (the
  fill from the old top on), \<open>shl_grow\<close> reads bit \<open>i - amt\<close> with zeros below, for any amount and
  any width, including amounts beyond it; both results are canonical.\<close>

theorem shifts_move_bits:
  assumes "i < w"
  shows "vbit (shr_fill v amt w fv fu) i =
      (if i + amt < w \<or> (fv = 0 \<and> fu = 0 \<and> amt < w) then vbit v (i + amt) else l4 (fv \<noteq> 0) (fu \<noteq> 0))
    \<and> vbit (shl_grow v amt w) i = (if amt \<le> i then vbit v (i - amt) else L0)
    \<and> vec_ok (shr_fill v amt w fv fu) \<and> vec_ok (shl_grow v amt w)"
  using assms by (simp add: vbit_shr_fill vbit_shl_grow)

theorem shifts_move_bits_witness:
  "vbit (shr_fill (byte_value 255) 3 8 0 1) 7 = LX \<and> vbit (shl_grow (byte_value 1) 70 100) 69 = L0"
  using shifts_move_bits [of 7 8 "byte_value 255" 3 0 1] shifts_move_bits [of 69 100 "byte_value 1" 70 0 0]
  by (simp add: l4_def)

text \<open>A vector survives packing: \<open>into_bitpacked\<close> at its own width followed by \<open>from_packed\<close> is the
  identity on canonical values that are not strings.\<close>

theorem pack_unpack:
  assumes "vec_ok v" and "\<not> v_str v"
  shows "from_packed (into_bitpacked v (v_width v)) (v_width v) (v_signed v) = v"
  by (rule packed_roundtrip [OF assms])

theorem pack_unpack_witness:
  "from_packed (into_bitpacked (sbyte_value 129) 8) 8 True = sbyte_value 129"
  using pack_unpack [of "sbyte_value 129"] byte_value_ok(2) [of 129] by (simp add: val_ok_def)

text \<open>The \<open>i128\<close> read the arithmetic and comparison lanes use is the integer of the value: a known
  signed vector of at most 128 bits reads as its two's-complement integer and a known unsigned one
  reads as its number, or as nothing when it does not fit.\<close>

theorem to_i128_reads_integer:
  assumes "vec_ok v" and "\<not> has_xz v" and "v_width v \<le> 128"
  shows "to_i128_signed v =
    (if v_signed v \<or> vnum v < 2 ^ 127 then Some (word_of_int (vint v)) else None)"
  using to_i128_signed_signed [OF assms] to_i128_signed_unsigned [OF assms(1,2)]
  by (cases "v_signed v") (simp_all only: if_True if_False simp_thms not_False_eq_True)

theorem to_i128_reads_integer_witness: "to_i128_signed (sbyte_value 255) = Some (- 1)"
proof -
  have b: "pbit [255] 7" by (simp add: pbit_def wget_def)
  then have "vint (sbyte_value 255) = - 1" by (simp add: vint_def pint_def)
  then show ?thesis using to_i128_reads_integer [of "sbyte_value 255"] byte_value_ok(2) [of 255] by (simp add: val_ok_def)
qed

text \<open>\<open>fill_bits\<close> writes its window and nothing else: in both planes the bits of \<open>[lo, hi)\<close> inside
  the plane take the fill and every other bit keeps its value, so clearing a window of a canonical
  value keeps it canonical.\<close>

theorem fill_bits_exact_window:
  assumes "vec_ok v"
  shows "pbit (fst (fill_bits val unk lo hi fv fu)) j =
      (if lo \<le> j \<and> j < hi \<and> j < 64 * length val then fv \<noteq> 0 else pbit val j)
    \<and> pbit (snd (fill_bits val unk lo hi fv fu)) j =
      (if lo \<le> j \<and> j < hi \<and> j < 64 * length unk then fu \<noteq> 0 else pbit unk j)
    \<and> vbit (clear_bits v lo w) j = (if lo \<le> j \<and> j < lo + w then L0 else vbit v j)
    \<and> vec_ok (clear_bits v lo w)"
  using vbit_clear_bits [OF assms] by (simp add: pbit_fill_bits)

theorem fill_bits_exact_window_witness: "vbit (clear_bits (byte_value 255) 2 3) 4 = L0"
  using fill_bits_exact_window [where v = "byte_value 255" and j = 4 and lo = 2 and w = 3] byte_value_ok(1) [of 255]
  by (simp add: val_ok_def)

end
