(* ===== verification/F64.thy ===== *)
theory F64
  imports Prelude
begin

text \<open>
  Rust's \<open>f64\<close> on its bit pattern: IEEE 754 binary64 with round-to-nearest-even, as the
  simulator's real lane uses it (\<open>+\<close>, \<open>-\<close>, \<open>*\<close>, \<open>/\<close>, \<open>==\<close>, \<open>partial_cmp\<close>, \<open>round\<close>,
  \<open>is_finite\<close>, casts).  Every finite double is an integral multiple of \<open>2 ^ -1074\<close>;
  \<open>f64_units x\<close> is that integer, so sums are exact integer sums followed by one rounding.
  A NaN produced by an operation is the canonical quiet NaN: Rust leaves its sign and
  payload open, and the simulator never looks at them.
\<close>

type_synonym f64 = u64

section \<open>Fields\<close>

definition f64_sign_bit :: u64 where
  "f64_sign_bit = push_bit 63 1"

definition f64_sign :: "f64 \<Rightarrow> bool" where
  "f64_sign x \<longleftrightarrow> bit x 63"

definition f64_mag :: "f64 \<Rightarrow> nat" where
  "f64_mag x = unat (x AND NOT f64_sign_bit)"

definition f64_exp :: "f64 \<Rightarrow> nat" where
  "f64_exp x = f64_mag x div 2 ^ 52"

definition f64_frac :: "f64 \<Rightarrow> nat" where
  "f64_frac x = f64_mag x mod 2 ^ 52"

definition f64_is_nan :: "f64 \<Rightarrow> bool" where
  "f64_is_nan x \<longleftrightarrow> 2047 * 2 ^ 52 < f64_mag x"

definition f64_is_inf :: "f64 \<Rightarrow> bool" where
  "f64_is_inf x \<longleftrightarrow> f64_mag x = 2047 * 2 ^ 52"

definition f64_is_finite :: "f64 \<Rightarrow> bool" where
  "f64_is_finite x \<longleftrightarrow> f64_mag x < 2047 * 2 ^ 52"

text \<open>Magnitude and value of a finite double, in units of \<open>2 ^ -1074\<close>.\<close>

definition mag_units :: "nat \<Rightarrow> nat" where
  "mag_units b = (let e = b div 2 ^ 52; m = b mod 2 ^ 52 in
     if e = 0 then m else (2 ^ 52 + m) * 2 ^ (e - 1))"

definition f64_units :: "f64 \<Rightarrow> int" where
  "f64_units x = (if f64_sign x then - int (mag_units (f64_mag x)) else int (mag_units (f64_mag x)))"

definition f64_pack :: "bool \<Rightarrow> nat \<Rightarrow> f64" where
  "f64_pack s b = word_of_nat (b + (if s then 2 ^ 63 else 0))"

definition f64_nan :: f64 where "f64_nan = f64_pack False (2047 * 2 ^ 52 + 2 ^ 51)"
definition f64_inf :: "bool \<Rightarrow> f64" where "f64_inf s = f64_pack s (2047 * 2 ^ 52)"
definition f64_zero :: "bool \<Rightarrow> f64" where "f64_zero s = f64_pack s 0"

section \<open>Rounding\<close>

fun bit_len :: "nat \<Rightarrow> nat" where
  "bit_len n = (if n = 0 then 0 else Suc (bit_len (n div 2)))"

declare bit_len.simps [simp del]

text \<open>
  The magnitude bits of the double nearest to \<open>n / d\<close> units, ties to even.  \<open>k\<close> is the
  exponent field less one: a hidden bit in \<open>m\<close> adds the one back, and a carry out of the
  mantissa steps the exponent field by itself.
\<close>

definition round_mag :: "nat \<Rightarrow> nat \<Rightarrow> nat" where
  "round_mag n d =
     (let k = bit_len (n div d) - 53;
          den = d * 2 ^ k;
          m = n div den;
          r = n mod den;
          m' = (if den < 2 * r \<or> (2 * r = den \<and> odd m) then m + 1 else m)
      in min (k * 2 ^ 52 + m') (2047 * 2 ^ 52))"

definition f64_round_ratio :: "bool \<Rightarrow> nat \<Rightarrow> nat \<Rightarrow> f64" where
  "f64_round_ratio s n d = f64_pack s (round_mag n d)"

definition f64_of_units :: "int \<Rightarrow> f64" where
  "f64_of_units v = f64_round_ratio (v < 0) (nat \<bar>v\<bar>) 1"

section \<open>Operations\<close>

definition f64_neg :: "f64 \<Rightarrow> f64" where
  "f64_neg x = x XOR f64_sign_bit"

definition f64_add :: "f64 \<Rightarrow> f64 \<Rightarrow> f64" where
  "f64_add x y =
     (if f64_is_nan x \<or> f64_is_nan y then f64_nan
      else if f64_is_inf x then (if f64_is_inf y \<and> f64_sign x \<noteq> f64_sign y then f64_nan else x)
      else if f64_is_inf y then y
      else (let v = f64_units x + f64_units y in
            if v = 0 then f64_zero (f64_sign x \<and> f64_sign y) else f64_of_units v))"

definition f64_sub :: "f64 \<Rightarrow> f64 \<Rightarrow> f64" where
  "f64_sub x y = (if f64_is_nan y then f64_nan else f64_add x (f64_neg y))"

definition f64_mul :: "f64 \<Rightarrow> f64 \<Rightarrow> f64" where
  "f64_mul x y =
     (let s = (f64_sign x \<noteq> f64_sign y); a = mag_units (f64_mag x); b = mag_units (f64_mag y) in
      if f64_is_nan x \<or> f64_is_nan y then f64_nan
      else if f64_is_inf x then (if f64_is_finite y \<and> b = 0 then f64_nan else f64_inf s)
      else if f64_is_inf y then (if a = 0 then f64_nan else f64_inf s)
      else f64_round_ratio s (a * b) (2 ^ 1074))"

definition f64_div :: "f64 \<Rightarrow> f64 \<Rightarrow> f64" where
  "f64_div x y =
     (let s = (f64_sign x \<noteq> f64_sign y); a = mag_units (f64_mag x); b = mag_units (f64_mag y) in
      if f64_is_nan x \<or> f64_is_nan y then f64_nan
      else if f64_is_inf x then (if f64_is_inf y then f64_nan else f64_inf s)
      else if f64_is_inf y then f64_zero s
      else if b = 0 then (if a = 0 then f64_nan else f64_inf s)
      else f64_round_ratio s (a * 2 ^ 1074) b)"

text \<open>Order of the non-NaN doubles, infinities beyond every finite one.\<close>

definition f64_key :: "f64 \<Rightarrow> int" where
  "f64_key x = (if f64_is_inf x then (if f64_sign x then - (2 ^ 2200) else 2 ^ 2200) else f64_units x)"

definition f64_eq :: "f64 \<Rightarrow> f64 \<Rightarrow> bool" where
  "f64_eq x y \<longleftrightarrow> \<not> f64_is_nan x \<and> \<not> f64_is_nan y \<and> f64_key x = f64_key y"

definition f64_lt :: "f64 \<Rightarrow> f64 \<Rightarrow> bool" where
  "f64_lt x y \<longleftrightarrow> \<not> f64_is_nan x \<and> \<not> f64_is_nan y \<and> f64_key x < f64_key y"

definition f64_abs :: "f64 \<Rightarrow> f64" where
  "f64_abs x = x AND NOT f64_sign_bit"

text \<open>\<open>f64::round\<close>: half away from zero, the sign of a zero kept.\<close>

definition f64_round :: "f64 \<Rightarrow> f64" where
  "f64_round x =
     (if f64_is_finite x
      then f64_round_ratio (f64_sign x) ((mag_units (f64_mag x) + 2 ^ 1073) div 2 ^ 1074 * 2 ^ 1074) 1
      else x)"

text \<open>\<open>x as i128\<close>: truncation toward zero, saturating, NaN to 0.\<close>

definition f64_trunc :: "f64 \<Rightarrow> int" where
  "f64_trunc x = (if f64_sign x then - int (mag_units (f64_mag x) div 2 ^ 1074)
                  else int (mag_units (f64_mag x) div 2 ^ 1074))"

definition f64_as_i128 :: "f64 \<Rightarrow> u128" where
  "f64_as_i128 x =
     (if f64_is_nan x then 0
      else if f64_is_inf x then (if f64_sign x then word_of_int (- (2 ^ 127)) else word_of_int (2 ^ 127 - 1))
      else word_of_int (max (- (2 ^ 127)) (min (2 ^ 127 - 1) (f64_trunc x))))"

section \<open>Packing\<close>

lemma bit_f64_sign_bit: "bit f64_sign_bit i \<longleftrightarrow> i = 63"
  unfolding f64_sign_bit_def bit_push_bit_iff bit_1_iff possible_bit_word by auto

lemma f64_mag_alt: "f64_mag x = unat x mod 2 ^ 63"
proof -
  have "x AND NOT f64_sign_bit = take_bit 63 x"
    by (rule bit_word_eqI) (auto simp: bit_and_iff bit_not_iff bit_take_bit_iff bit_f64_sign_bit)
  then have "f64_mag x = unat (take_bit 63 x)" by (simp only: f64_mag_def)
  also have "\<dots> = take_bit 63 (unat x)" by (rule unsigned_take_bit_eq)
  also have "\<dots> = unat x mod 2 ^ 63" by (rule take_bit_eq_mod)
  finally show ?thesis .
qed

lemma f64_mag_bound: "f64_mag x < 2 ^ 63"
  unfolding f64_mag_alt by simp

lemma unat_pack:
  assumes "b < 2 ^ 63"
  shows "unat (f64_pack s b) = b + (if s then 2 ^ 63 else 0)"
proof -
  have "b + (if s then 2 ^ 63 else 0) < 2 ^ LENGTH(64)" using assms by auto
  then show ?thesis by (simp only: f64_pack_def unsigned_of_nat take_bit_nat_eq_self of_nat_id)
qed

lemma pack_mag [simp]: "b < 2 ^ 63 \<Longrightarrow> f64_mag (f64_pack s b) = b"
  unfolding f64_mag_alt by (simp add: unat_pack)

lemma sign_unat: "f64_sign x \<longleftrightarrow> 2 ^ 63 \<le> unat x"
proof -
  have "bit x 63 \<longleftrightarrow> bit (unat x) 63" by (simp add: bit_unsigned_iff)
  also have "\<dots> \<longleftrightarrow> odd (unat x div 2 ^ 63)" by (rule bit_iff_odd)
  also have "\<dots> \<longleftrightarrow> 0 < unat x div 2 ^ 63"
  proof -
    have "unat x div 2 ^ 63 < 2"
      using unat_lt_64 [of x] by (intro less_mult_imp_div_less) simp
    then show ?thesis by (auto simp: less_2_cases_iff)
  qed
  also have "\<dots> \<longleftrightarrow> 2 ^ 63 \<le> unat x" by (simp only: div_greater_zero_iff) simp
  finally show ?thesis by (simp only: f64_sign_def)
qed

lemma pack_sign [simp]: "b < 2 ^ 63 \<Longrightarrow> f64_sign (f64_pack s b) = s"
  by (simp add: sign_unat unat_pack)

lemma pack_mag_sign: "f64_pack (f64_sign x) (f64_mag x) = x"
proof -
  have "unat x mod 2 ^ 63 + (if 2 ^ 63 \<le> unat x then 2 ^ 63 else 0) = unat x"
  proof (cases "2 ^ 63 \<le> unat x")
    case True
    moreover have "unat x - 2 ^ 63 < 2 ^ 63" using unat_lt_64 [of x] by simp
    ultimately have "unat x mod 2 ^ 63 = unat x - 2 ^ 63" by (simp only: le_mod_geq mod_less)
    then show ?thesis using True by simp
  qed simp
  then show ?thesis
    unfolding f64_pack_def f64_mag_alt sign_unat by simp
qed

lemma round_mag_le: "round_mag n d \<le> 2047 * 2 ^ 52"
  by (simp add: round_mag_def Let_def)

lemma round_mag_lt: "round_mag n d < 2 ^ 63"
  using round_mag_le [of n d] by simp

lemma round_ratio_fields [simp]:
  "f64_mag (f64_round_ratio s n d) = round_mag n d" "f64_sign (f64_round_ratio s n d) = s"
  using round_mag_lt [of n d] by (simp_all add: f64_round_ratio_def)

section \<open>Rounding is exact on representable numbers\<close>

lemma bit_len_bounds: "0 < n \<Longrightarrow> 2 ^ (bit_len n - 1) \<le> n \<and> n < 2 ^ bit_len n \<and> 0 < bit_len n"
proof (induction n rule: bit_len.induct)
  case (1 n)
  show ?case
  proof (cases "n div 2 = 0")
    case True
    then have "n = 1" using "1.prems" by linarith
    then show ?thesis by (simp add: bit_len.simps)
  next
    case False
    define h P where "h = n div 2" and "P = (2 :: nat) ^ (bit_len (n div 2) - 1)"
    have ih: "P \<le> h" "h < 2 ^ bit_len h" "0 < bit_len h"
      using "1.IH" "1.prems" False by (simp_all add: h_def P_def)
    have l: "bit_len n = Suc (bit_len h)" using "1.prems" unfolding h_def by (subst bit_len.simps) simp
    have p: "(2 :: nat) ^ bit_len h = 2 * P"
      using ih(3) unfolding P_def h_def by (cases "bit_len (n div 2)") simp_all
    have "n = 2 * h + n mod 2" "n mod 2 < 2" by (simp_all add: h_def)
    then have n: "2 * h \<le> n" "n < 2 * h + 2" by linarith+
    show ?thesis unfolding l diff_Suc_1 power_Suc p using ih(1) ih(2) [unfolded p] n by linarith
  qed
qed

lemma exp_less: "(2 :: nat) ^ a \<le> n \<Longrightarrow> n < 2 ^ k \<Longrightarrow> a < k"
  by (rule power_less_imp_less_exp [of 2], simp, rule le_less_trans)

lemma bit_len_unique:
  assumes "2 ^ k \<le> n" and "n < 2 ^ Suc k"
  shows "bit_len n = Suc k"
proof -
  have "0 < n" using assms(1) by (cases "n = 0") simp_all
  note b = bit_len_bounds [OF this]
  have "bit_len n - 1 < Suc k" using b assms(2) exp_less by blast
  moreover have "k < bit_len n" using b assms(1) exp_less by blast
  ultimately show ?thesis using b by linarith
qed

lemma bit_len_small:
  assumes "n < 2 ^ k"
  shows "bit_len n \<le> k"
proof (cases "n = 0")
  case False
  then have "bit_len n - 1 < k" using assms bit_len_bounds [of n] exp_less by blast
  then show ?thesis by simp
qed (simp add: bit_len.simps)

lemma round_mag_no_rem:
  assumes "bit_len n - 53 = k" and "n = m * 2 ^ k" and "k * 2 ^ 52 + m \<le> 2047 * 2 ^ 52"
  shows "round_mag n 1 = k * 2 ^ 52 + m"
proof -
  have "n div 2 ^ k = m" "n mod 2 ^ k = 0" by (simp_all add: assms(2))
  moreover have "\<not> (2 :: nat) ^ k < 2 * 0" "2 * 0 \<noteq> (2 :: nat) ^ k" by simp_all
  ultimately show ?thesis
    using assms(3) unfolding round_mag_def Let_def div_by_1 mult_1 assms(1) by (simp only: if_False simp_thms min_absorb1)
qed

text \<open>The units of a magnitude, and that rounding them gives the magnitude back.\<close>

lemma round_mag_exact:
  assumes "b < 2047 * 2 ^ 52"
  shows "round_mag (mag_units b) 1 = b"
proof -
  define e m where "e = b div 2 ^ 52" and "m = b mod 2 ^ 52"
  have b: "b = e * 2 ^ 52 + m" and m: "m < 2 ^ 52" by (simp_all add: e_def m_def)
  show ?thesis
  proof (cases "e = 0")
    case True
    then have u: "mag_units b = m" by (simp add: mag_units_def Let_def e_def m_def)
    have "m < 2 ^ 53" using m by simp
    then have k: "bit_len m - 53 = 0" using bit_len_small by simp
    have "round_mag m 1 = 0 * 2 ^ 52 + m" using m by (intro round_mag_no_rem [OF k]) simp_all
    then show ?thesis using b True u by simp
  next
    case False
    then have u: "mag_units b = (2 ^ 52 + m) * 2 ^ (e - 1)" by (simp add: mag_units_def Let_def e_def m_def)
    have "2 ^ (52 + (e - 1)) \<le> mag_units b" by (simp add: u power_add)
    moreover have "mag_units b < 2 ^ Suc (52 + (e - 1))"
    proof -
      have "(2 ^ 52 + m) * 2 ^ (e - 1) < 2 ^ 53 * 2 ^ (e - 1)" using m by (intro mult_strict_right_mono) simp_all
      then show ?thesis by (simp add: u power_add)
    qed
    ultimately have "bit_len (mag_units b) = Suc (52 + (e - 1))" by (rule bit_len_unique)
    then have k: "bit_len (mag_units b) - 53 = e - 1" by simp
    have e: "(e - 1) * 2 ^ 52 + (2 ^ 52 + m) = b" using False by (cases e) (simp_all add: b)
    have "round_mag (mag_units b) 1 = (e - 1) * 2 ^ 52 + (2 ^ 52 + m)"
      using assms by (intro round_mag_no_rem [OF k u]) (simp only: e less_imp_le)
    then show ?thesis by (simp only: e)
  qed
qed

lemma f64_of_units_exact:
  assumes "f64_is_finite x" and "f64_units x \<noteq> 0"
  shows "f64_of_units (f64_units x) = x"
proof -
  have "nat \<bar>f64_units x\<bar> = mag_units (f64_mag x)" and "f64_units x < 0 \<longleftrightarrow> f64_sign x"
    using assms(2) by (auto simp: f64_units_def)
  then show ?thesis
    using round_mag_exact assms(1) unfolding f64_is_finite_def f64_of_units_def f64_round_ratio_def
    by (simp only: pack_mag_sign)
qed

section \<open>Exact arithmetic\<close>

lemma div_mod_pair: "r < B \<Longrightarrow> (q * B + r) div B = q \<and> (q * B + r) mod B = (r :: nat)"
  by simp

lemma mag_units_small:
  assumes "m < 2 ^ 53" and "k \<le> 2045"
  shows "\<exists>b < 2047 * 2 ^ 52. mag_units b = m * 2 ^ k"
proof (cases "m = 0")
  case True
  then show ?thesis by (intro exI [of _ 0]) (simp add: mag_units_def)
next
  case False
  note bl = bit_len_bounds [of m]
  have L: "bit_len m \<le> 53" using assms(1) by (rule bit_len_small)
  define c where "c = min k (53 - bit_len m)"
  define m' where "m' = m * 2 ^ c"
  have eq: "m' * 2 ^ (k - c) = m * 2 ^ k" by (simp add: m'_def c_def flip: power_add)
  have hi: "m' < 2 ^ 53"
  proof -
    have "m * 2 ^ c < 2 ^ bit_len m * 2 ^ c" using bl False by simp
    also have "\<dots> = 2 ^ (bit_len m + c)" by (simp add: power_add)
    also have "\<dots> \<le> 2 ^ 53" using L by (intro power_increasing) (simp_all add: c_def)
    finally show ?thesis by (simp only: m'_def)
  qed
  show ?thesis
  proof (cases "m' < 2 ^ 52")
    case True
    have "c = k"
    proof (rule ccontr)
      assume "c \<noteq> k"
      then have c: "c = 53 - bit_len m" by (auto simp: c_def)
      have "(2 :: nat) ^ 52 = 2 ^ (bit_len m - 1) * 2 ^ c" using L bl False by (simp add: c flip: power_add)
      also have "\<dots> \<le> m'" using bl False by (simp add: m'_def)
      finally show False using True by simp
    qed
    then have "mag_units m' = m * 2 ^ k" using True by (simp add: mag_units_def m'_def)
    moreover have "m' < 2047 * 2 ^ 52" using True by linarith
    ultimately show ?thesis by blast
  next
    case False
    define b where "b = (k - c + 1) * 2 ^ 52 + (m' - 2 ^ 52)"
    have "(2 :: nat) ^ 53 = 2 * 2 ^ 52" by simp
    then have lo: "m' - 2 ^ 52 < 2 ^ 52" using hi False by linarith
    have "b div 2 ^ 52 = k - c + 1" "b mod 2 ^ 52 = m' - 2 ^ 52"
      unfolding b_def using div_mod_pair [OF lo] by (simp_all only:)
    then have "mag_units b = m' * 2 ^ (k - c)" using False by (simp add: mag_units_def)
    moreover have "b < 2047 * 2 ^ 52"
    proof -
      have "(k - c + 1) * 2 ^ 52 \<le> 2046 * 2 ^ 52" using assms(2) by (intro mult_le_mono1) simp
      then show ?thesis using lo unfolding b_def by linarith
    qed
    ultimately show ?thesis using eq by auto
  qed
qed

text \<open>A double holding exactly the integer \<open>k\<close>.\<close>

definition f64_holds :: "f64 \<Rightarrow> int \<Rightarrow> bool" where
  "f64_holds x k \<longleftrightarrow> f64_is_finite x \<and> f64_units x = k * 2 ^ 1074"

lemma round_ratio_scale: "0 < d \<Longrightarrow> round_mag (x * d) d = round_mag x 1"
proof -
  assume d: "0 < d"
  let ?k = "bit_len x - 53"
  have e: "x * d div d = x" "x div 1 = x" using d by simp_all
  have q: "x * d div (d * 2 ^ ?k) = x div (1 * 2 ^ ?k)" using d by (simp add: mult.commute [of x])
  have r: "x * d mod (d * 2 ^ ?k) = d * (x mod (1 * 2 ^ ?k))"
    by (simp only: mult.commute [of x d] mult_mod_right [symmetric] mult_1)
  have "d * 2 ^ ?k < 2 * (d * (x mod (1 * 2 ^ ?k))) \<longleftrightarrow> 1 * 2 ^ ?k < 2 * (x mod (1 * 2 ^ ?k))"
    using d by (simp only: mult.left_commute [of 2 d] nat_mult_less_cancel1 mult_1)
  moreover have "2 * (d * (x mod (1 * 2 ^ ?k))) = d * 2 ^ ?k \<longleftrightarrow> 2 * (x mod (1 * 2 ^ ?k)) = 1 * 2 ^ ?k"
    using d by (simp only: mult.left_commute [of 2 d] nat_mult_eq_cancel1 mult_1)
  ultimately show ?thesis unfolding round_mag_def Let_def e q r by (simp only:)
qed

lemma round_ratio_units:
  assumes "\<exists>b < 2047 * 2 ^ 52. mag_units b = x" and "n = x * d" and "0 < d"
  shows "mag_units (f64_mag (f64_round_ratio s n d)) = x" and "f64_is_finite (f64_round_ratio s n d)"
proof -
  obtain b where b: "b < 2047 * 2 ^ 52" "mag_units b = x" using assms(1) by blast
  have "round_mag n d = b" unfolding assms(2) round_ratio_scale [OF assms(3)]
    using round_mag_exact [OF b(1)] b(2) by (simp only:)
  then show "mag_units (f64_mag (f64_round_ratio s n d)) = x" "f64_is_finite (f64_round_ratio s n d)"
    using b by (simp_all only: round_ratio_fields f64_is_finite_def)
qed

lemma f64_holds_round:
  assumes "m < 2 ^ 53" and "k \<le> 971" and "n = m * 2 ^ k * 2 ^ 1074 * d" and "0 < d"
  shows "f64_holds (f64_round_ratio s n d) (if s then - int (m * 2 ^ k) else int (m * 2 ^ k))"
proof -
  have "\<exists>b < 2047 * 2 ^ 52. mag_units b = m * 2 ^ (k + 1074)"
    using assms(1,2) by (intro mag_units_small) simp_all
  then have "\<exists>b < 2047 * 2 ^ 52. mag_units b = m * 2 ^ k * 2 ^ 1074"
    by (simp only: power_add mult.assoc)
  note r = round_ratio_units [OF this assms(3,4), of s]
  show ?thesis
    using r(2) unfolding f64_holds_def f64_units_def r(1) round_ratio_fields(2) by auto
qed

lemma finite_not_special: "f64_is_finite x \<Longrightarrow> \<not> f64_is_nan x \<and> \<not> f64_is_inf x"
  by (simp add: f64_is_finite_def f64_is_nan_def f64_is_inf_def)

lemma f64_holds_zero: "f64_holds (f64_zero s) 0"
proof -
  have "f64_mag (f64_zero s) = 0" by (simp add: f64_zero_def)
  then show ?thesis by (simp add: f64_holds_def f64_is_finite_def f64_units_def mag_units_def)
qed

lemma scaled_sign: "0 < p \<Longrightarrow> x * p < 0 \<longleftrightarrow> x < (0 :: int)"
  by (simp add: mult_less_0_iff)

lemma f64_holds_add:
  assumes "f64_holds x a" and "f64_holds y b" and "\<bar>a + b\<bar> < 2 ^ 53"
  shows "f64_holds (f64_add x y) (a + b)"
proof -
  have u: "f64_units x + f64_units y = (a + b) * 2 ^ 1074"
    using assms by (simp only: f64_holds_def distrib_right)
  have s: "f64_add x y = (let v = f64_units x + f64_units y in
      if v = 0 then f64_zero (f64_sign x \<and> f64_sign y) else f64_of_units v)"
    using assms finite_not_special by (simp add: f64_holds_def f64_add_def)
  show ?thesis
  proof (cases "a + b = 0")
    case True
    then show ?thesis unfolding s u Let_def using f64_holds_zero by simp
  next
    case False
    define m where "m = nat \<bar>a + b\<bar>"
    have "nat \<bar>(a + b) * 2 ^ 1074\<bar> = m * 2 ^ 0 * 2 ^ 1074 * 1"
      unfolding m_def abs_mult nat_mult_distrib [OF abs_ge_zero] by (simp add: nat_power_eq)
    then have "f64_holds (f64_round_ratio (a + b < 0) (nat \<bar>(a + b) * 2 ^ 1074\<bar>) 1)
        (if a + b < 0 then - int (m * 2 ^ 0) else int (m * 2 ^ 0))"
      using assms(3) by (intro f64_holds_round) (simp_all add: m_def nat_less_iff)
    moreover have "(a + b) * 2 ^ 1074 < 0 \<longleftrightarrow> a + b < 0" by (rule scaled_sign) simp
    moreover have "(a + b) * 2 ^ 1074 \<noteq> 0" using False by (simp only: mult_eq_0_iff) simp
    moreover have "(if a + b < 0 then - int (m * 2 ^ 0) else int (m * 2 ^ 0)) = a + b"
      by (simp add: m_def)
    ultimately show ?thesis unfolding s u Let_def f64_of_units_def by (simp only: if_False)
  qed
qed

lemma f64_neg_fields: "f64_mag (f64_neg x) = f64_mag x" "f64_sign (f64_neg x) \<longleftrightarrow> \<not> f64_sign x"
proof -
  have "f64_neg x AND NOT f64_sign_bit = x AND NOT f64_sign_bit"
    by (rule bit_word_eqI) (auto simp: f64_neg_def bit_and_iff bit_not_iff bit_xor_iff bit_f64_sign_bit)
  then show "f64_mag (f64_neg x) = f64_mag x" by (simp only: f64_mag_def)
  show "f64_sign (f64_neg x) \<longleftrightarrow> \<not> f64_sign x"
    by (simp add: f64_sign_def f64_neg_def bit_xor_iff bit_f64_sign_bit)
qed

lemma f64_holds_neg: "f64_holds x k \<Longrightarrow> f64_holds (f64_neg x) (- k)"
  unfolding f64_holds_def f64_is_finite_def f64_units_def f64_neg_fields by auto

end
