(* ===== verification/ValueReal.thy ===== *)
theory ValueReal
  imports ValueResize F64
begin

text \<open>
  Crossing between reals, integers and strings: \<open>int_to_real\<close> (\<open>crates/sim-ir/src/mw.rs\<close>),
  \<open>from_f64\<close>, \<open>to_f64\<close>, \<open>from_i128\<close>, \<open>real_to_int_round\<close>, \<open>coerce_assign\<close>,
  \<open>assign_conversion\<close> and the string byte rules (\<open>crates/sim-engine/src/value.rs\<close>).
  The conversions are exact wherever a double can hold the integer.
\<close>

section \<open>Integer to real\<close>

definition leading_zeros :: "u64 \<Rightarrow> nat" where
  "leading_zeros x = 64 - bit_len (unat x)"

text \<open>\<open>limbs.iter().rposition(|&l| l != 0)\<close>.\<close>

fun rposition_nz :: "u64 list \<Rightarrow> nat \<Rightarrow> nat option" where
  "rposition_nz l 0 = None"
| "rposition_nz l (Suc i) = (if wget l i \<noteq> 0 then Some i else rposition_nz l i)"

definition f64_two :: f64 where "f64_two = f64_pack False (1024 * 2 ^ 52)"
definition f64_one :: f64 where "f64_one = f64_pack False (1023 * 2 ^ 52)"

definition add_bit_step :: "u64 list \<Rightarrow> nat \<Rightarrow> f64 \<times> f64 \<Rightarrow> f64 \<times> f64" where
  "add_bit_step limbs i mb =
     (let (mag, base) = mb in
      (if drop_bit (i mod 64) (wget limbs (i div 64)) AND 1 = 1 then f64_add mag base else mag,
       f64_mul base f64_two))"

definition int_to_real :: "u64 list \<Rightarrow> u64 list \<Rightarrow> nat \<Rightarrow> bool \<Rightarrow> f64" where
  "int_to_real val unk width sg =
     (if width = 0 then f64_zero False
      else
        (let n = mw_nwords width;
             limbs = map (\<lambda>w. wget val w AND NOT (wget unk w)) [0..<n];
             top_word = low_mask (if width mod 64 = 0 then 64 else width mod 64);
             limbs = limbs[n - 1 := (limbs ! (n - 1)) AND top_word];
             top = width - 1;
             neg = (sg \<and> drop_bit (top mod 64) (wget limbs (top div 64)) AND 1 = 1);
             limbs = (if neg then (let l = mw_neg_go 1 limbs in l[n - 1 := (l ! (n - 1)) AND top_word])
                      else limbs)
         in case rposition_nz limbs (length limbs) of
              None \<Rightarrow> f64_zero False
            | Some i \<Rightarrow>
                (let bitlen = i * 64 + (64 - leading_zeros (wget limbs i));
                     (mag, base) = fold (add_bit_step limbs) [0..<bitlen] (f64_zero False, f64_one)
                 in if neg then f64_neg mag else mag)))"

section \<open>Reals as values\<close>

definition from_f64 :: "f64 \<Rightarrow> sim_value" where
  "from_f64 x = \<lparr>v_val = [x], v_unk = [0], v_width = 64, v_signed = True, v_real = True, v_str = False\<rparr>"

definition integral_to_f64 :: "sim_value \<Rightarrow> f64 option" where
  "integral_to_f64 v =
     (if v_width v = 0 then None
      else Some (int_to_real (v_val v) (v_unk v) (v_width v) (v_signed v)))"

text \<open>\<open>self.val[0]\<close> of a real, whose plane is one word.\<close>

definition to_f64 :: "sim_value \<Rightarrow> f64 option" where
  "to_f64 v = (if v_real v then Some (v_val v ! 0) else integral_to_f64 v)"

definition to_f64_or_0 :: "sim_value \<Rightarrow> f64" where
  "to_f64_or_0 v = (case to_f64 v of None \<Rightarrow> f64_zero False | Some x \<Rightarrow> x)"

definition from_i128 :: "u128 \<Rightarrow> nat \<Rightarrow> bool \<Rightarrow> sim_value" where
  "from_i128 i width sg =
     (let v = zeros (max width 1) sg;
          bits = i;
          fill = (if sint i < 0 then - 1 else 0 :: u64);
          words = (width + 63) div 64;
          val = map (\<lambda>w. if w < min words (length (v_val v))
                         then (if w < 2 then ucast (drop_bit (w * 64) bits) else fill)
                         else wget (v_val v) w) [0..<length (v_val v)]
      in mask_top (v\<lparr>v_val := val, v_width := width\<rparr>))"

definition f64_2_127 :: f64 where "f64_2_127 = f64_pack False ((1023 + 127) * 2 ^ 52)"

definition real_to_int_round :: "f64 \<Rightarrow> nat \<Rightarrow> bool \<Rightarrow> sim_value" where
  "real_to_int_round x width sg =
     (let width = max width 1 in
      if \<not> f64_is_finite x then zeros width sg
      else
        (let r = f64_round x in
         if f64_lt (f64_abs r) f64_2_127 then from_i128 (f64_as_i128 r) width sg
         else
           (let neg = (drop_bit 63 r = 1);
                e = unat (drop_bit 52 r AND 2047) - 1075;
                m = (r AND (push_bit 52 1 - 1)) OR push_bit 52 1;
                v = zeros width sg;
                words = length (v_val v);
                wi = e div 64;
                sh = e mod 64;
                val = (if wi < words then (v_val v)[wi := (v_val v ! wi) OR push_bit sh m] else v_val v);
                val = (if sh \<noteq> 0 \<and> wi + 1 < words
                       then val[wi + 1 := (val ! (wi + 1)) OR drop_bit (64 - sh) m] else val);
                val = (if neg then mw_neg_go 1 val else val)
            in mask_top (v\<lparr>v_val := val\<rparr>))))"

definition coerce_assign :: "bool \<Rightarrow> sim_value \<Rightarrow> nat \<Rightarrow> bool \<Rightarrow> sim_value" where
  "coerce_assign dest_is_real value int_w int_signed =
     (if dest_is_real
      then (if v_real value then value else from_f64 (to_f64_or_0 value))
      else (if v_real value then real_to_int_round (to_f64_or_0 value) (max int_w 1) int_signed
            else value))"

section \<open>Strings\<close>

definition byte_at :: "u64 \<Rightarrow> u8" where "byte_at x = ucast x"

fun str_bytes_go :: "u64 list \<Rightarrow> bool \<Rightarrow> nat list \<Rightarrow> u8 list" where
  "str_bytes_go val started [] = []"
| "str_bytes_go val started (bi # bis) =
     (let b = bi * 8;
          byte = byte_at (drop_bit (b mod 64) (wget val (b div 64)))
      in if \<not> started \<and> byte = 0 then str_bytes_go val started bis
         else byte # str_bytes_go val True bis)"

definition to_str_bytes :: "sim_value \<Rightarrow> u8 list" where
  "to_str_bytes v = (let nbytes = (v_width v + 7) div 8 in str_bytes_go (v_val v) False (rev [0..<nbytes]))"

definition to_sv_string_bytes :: "sim_value \<Rightarrow> u8 list" where
  "to_sv_string_bytes self =
     (if v_str self then to_str_bytes self
      else
        (let nbytes = (v_width self + 7) div 8
         in filter (\<lambda>b. b \<noteq> 0)
              (map (\<lambda>bi. let b = bi * 8;
                             v = drop_bit (b mod 64) (wget (v_val self) (b div 64));
                             u = drop_bit (b mod 64) (wget (v_unk self) (b div 64))
                         in byte_at (v AND NOT u)) (rev [0..<nbytes]))))"

definition string_store_bytes :: "sim_value \<Rightarrow> u8 list" where
  "string_store_bytes self =
     (if v_real self then to_sv_string_bytes (coerce_assign False self 64 True)
      else to_sv_string_bytes self)"

definition or_byte :: "nat \<times> u8 \<Rightarrow> u64 list \<Rightarrow> u64 list" where
  "or_byte ib val =
     (let b = fst ib * 8
      in val[b div 64 := (val ! (b div 64)) OR push_bit (b mod 64) (ucast (snd ib))])"

definition from_str_bytes :: "u8 list \<Rightarrow> sim_value" where
  "from_str_bytes bytes =
     (let w = max (length bytes * 8) 8;
          v = zeros w False
      in v\<lparr>v_val := fold or_byte (enumerate 0 (rev bytes)) (v_val v), v_str := True\<rparr>)"

section \<open>Events and samples\<close>

definition real_bits_change_is_event :: "u64 \<Rightarrow> u64 \<Rightarrow> bool" where
  "real_bits_change_is_event old new \<longleftrightarrow>
     \<not> (old XOR new = f64_sign_bit \<and> old AND NOT f64_sign_bit = 0)"

definition real_values_same :: "sim_value \<Rightarrow> sim_value \<Rightarrow> bool" where
  "real_values_same a b =
     (let x = wget (v_val a) 0; y = wget (v_val b) 0
      in x = y \<or> \<not> real_bits_change_is_event x y)"

definition store_sample_step ::
  "sim_value \<Rightarrow> u64 \<Rightarrow> nat \<Rightarrow> nat \<Rightarrow> u64 list \<times> u64 list \<times> bool \<Rightarrow> u64 list \<times> u64 list \<times> bool" where
  "store_sample_step v m nw k st =
     (let (val, unk, changed) = st;
          nv = wget (v_val v) k;
          nu = wget (v_unk v) k;
          nv = (if k = nw - 1 then nv AND m else nv);
          nu = (if k = nw - 1 then nu AND m else nu)
      in if val ! k \<noteq> nv \<or> unk ! k \<noteq> nu then (val[k := nv], unk[k := nu], True)
         else (val, unk, changed))"

definition store_sample_words ::
  "u64 list \<Rightarrow> u64 list \<Rightarrow> u64 \<Rightarrow> sim_value \<Rightarrow> u64 list \<times> u64 list \<times> bool" where
  "store_sample_words val unk m v =
     (let nw = length val in fold (store_sample_step v m nw) [0..<nw] (val, unk, False))"

section \<open>Integer to real is exact below \<open>2 ^ 53\<close>\<close>

lemma mag_units_pow: "0 < e \<Longrightarrow> mag_units (e * 2 ^ 52) = 2 ^ (52 + (e - 1))"
proof -
  assume e: "0 < e"
  have "e * 2 ^ 52 div 2 ^ 52 = e" "e * 2 ^ 52 mod 2 ^ 52 = (0 :: nat)" by simp_all
  then show ?thesis using e unfolding mag_units_def Let_def by (simp only: power_add) simp
qed

lemma f64_pow_holds:
  assumes "0 < e" and "e < 2047" and "52 + (e - 1) = 1074 + j"
  shows "f64_holds (f64_pack False (e * 2 ^ 52)) (2 ^ j)"
    and "mag_units (f64_mag (f64_pack False (e * 2 ^ 52))) = 2 ^ (1074 + j)"
proof -
  have "e * 2 ^ 52 \<le> 2046 * 2 ^ 52" using assms by (intro mult_le_mono1) simp
  then have b: "e * 2 ^ 52 < 2 ^ 63" "e * 2 ^ 52 < 2047 * 2 ^ 52" by (simp_all add: mult_less_cancel2)
  show m: "mag_units (f64_mag (f64_pack False (e * 2 ^ 52))) = 2 ^ (1074 + j)"
    using b mag_units_pow [OF assms(1)] assms(3) by (simp only: pack_mag)
  show "f64_holds (f64_pack False (e * 2 ^ 52)) (2 ^ j)"
    using b m unfolding f64_holds_def f64_is_finite_def f64_units_def
    by (simp only: pack_mag pack_sign power_add of_nat_mult of_nat_power of_nat_numeral if_False) (simp only: mult.commute)
qed

lemma f64_one_holds: "f64_holds f64_one 1"
  using f64_pow_holds(1) [of 1023 0] by (simp add: f64_one_def)

lemma f64_holds_double:
  assumes "f64_holds x (2 ^ k)" and "k \<le> 900"
  shows "f64_holds (f64_mul x f64_two) (2 ^ Suc k)"
proof -
  have "mag_units (f64_mag f64_two) = 2 ^ (1074 + 1)"
    unfolding f64_two_def by (rule f64_pow_holds(2)) simp_all
  then have tm: "mag_units (f64_mag f64_two) = 2 * 2 ^ 1074" by (simp only: power_add mult.commute power_one_right)
  have "f64_holds f64_two (2 ^ 1)"
    unfolding f64_two_def by (rule f64_pow_holds(1)) simp_all
  then have tf: "f64_is_finite f64_two" by (simp only: f64_holds_def)
  have ts: "\<not> f64_sign f64_two"
    unfolding f64_two_def using pack_sign [of "1024 * 2 ^ 52" False] by simp
  have fx: "f64_is_finite x" and ux: "f64_units x = 2 ^ k * 2 ^ 1074"
    using assms(1) by (simp_all only: f64_holds_def)
  have "0 < f64_units x" unfolding ux by (rule mult_pos_pos) simp_all
  then have sx: "\<not> f64_sign x" by (auto simp: f64_units_def split: if_splits)
  have "int (mag_units (f64_mag x)) = 2 ^ k * 2 ^ 1074" using ux sx by (simp only: f64_units_def if_False)
  then have mx: "mag_units (f64_mag x) = 2 ^ k * 2 ^ 1074"
    by (simp only: of_nat_mult [symmetric] of_nat_power [symmetric] of_nat_eq_iff
        flip: of_nat_numeral [where 'a = int])
  have "f64_holds (f64_round_ratio False (mag_units (f64_mag x) * mag_units (f64_mag f64_two)) (2 ^ 1074))
      (if False then - int (1 * 2 ^ Suc k) else int (1 * 2 ^ Suc k))"
  proof (rule f64_holds_round)
    show "mag_units (f64_mag x) * mag_units (f64_mag f64_two) = 1 * 2 ^ Suc k * 2 ^ 1074 * 2 ^ 1074"
      by (simp only: mx tm power_Suc ac_simps mult_1_left mult_1_right)
    show "Suc k \<le> 971" using assms(2) by simp
  qed simp_all
  moreover have "f64_mul x f64_two = f64_round_ratio False (mag_units (f64_mag x) * mag_units (f64_mag f64_two)) (2 ^ 1074)"
    using finite_not_special [OF fx] finite_not_special [OF tf] sx ts
    by (simp only: f64_mul_def Let_def simp_thms if_False if_True)
  ultimately show ?thesis by simp
qed

lemma add_bits_fold:
  assumes "k \<le> n" and "n \<le> 53"
  shows "f64_holds (fst (fold (add_bit_step L) [0..<k] (f64_zero False, f64_one))) (int (wval L mod 2 ^ k)) \<and>
         f64_holds (snd (fold (add_bit_step L) [0..<k] (f64_zero False, f64_one))) (2 ^ k)"
  using assms(1)
proof (induction k)
  case 0
  show ?case using f64_holds_zero [of False] f64_one_holds by simp
next
  case (Suc k)
  obtain mag base where st: "fold (add_bit_step L) [0..<k] (f64_zero False, f64_one) = (mag, base)" by fastforce
  have ih: "f64_holds mag (int (wval L mod 2 ^ k))" "f64_holds base (2 ^ k)" and k: "k < 53"
    using Suc assms(2) by (simp_all add: st)
  have m: "wval L mod 2 ^ Suc k = wval L mod 2 ^ k + (if pbit L k then 2 ^ k else 0)"
  proof -
    have "take_bit (Suc k) (wval L) = take_bit k (wval L) + of_bool (bit (wval L) k) * 2 ^ k"
      by (simp add: take_bit_Suc_from_most)
    then show ?thesis by (simp add: take_bit_eq_mod bit_wval)
  qed
  have "int (wval L mod 2 ^ k) + 2 ^ k < 2 ^ 53"
  proof -
    have "wval L mod 2 ^ k < 2 ^ k" by simp
    then have "int (wval L mod 2 ^ k) < 2 ^ k" by (metis of_nat_less_iff of_nat_numeral of_nat_power)
    moreover have "(2 :: int) ^ Suc k \<le> 2 ^ 53" using k by (intro power_increasing) simp_all
    ultimately show ?thesis unfolding power_Suc by linarith
  qed
  then have "f64_holds (f64_add mag base) (int (wval L mod 2 ^ k) + 2 ^ k)"
    using ih by (intro f64_holds_add) simp_all
  moreover have "f64_holds (f64_mul base f64_two) (2 ^ Suc k)" using ih k by (intro f64_holds_double) simp_all
  moreover have "drop_bit (k mod 64) (wget L (k div 64)) AND 1 = 1 \<longleftrightarrow> pbit L k"
    by (simp add: shift_and_1 pbit_def)
  moreover have "fold (add_bit_step L) [0..<Suc k] (f64_zero False, f64_one)
      = (if pbit L k then f64_add mag base else mag, f64_mul base f64_two)"
    using st \<open>drop_bit (k mod 64) (wget L (k div 64)) AND 1 = 1 \<longleftrightarrow> pbit L k\<close>
    by (simp add: add_bit_step_def [of L k])
  ultimately show ?case unfolding m using ih by (cases "pbit L k") (simp_all only: fst_conv snd_conv if_True if_False of_nat_add of_nat_power of_nat_numeral add_0_right)
qed

lemma rposition_nz_None: "rposition_nz L n = None \<Longrightarrow> i < n \<Longrightarrow> wget L i = 0"
  by (induction n) (auto simp: less_Suc_eq split: if_splits)

lemma rposition_nz_Some: "rposition_nz L n = Some i \<Longrightarrow> i < n \<and> wget L i \<noteq> 0 \<and> (\<forall>j<n. i < j \<longrightarrow> wget L j = 0)"
  by (induction n) (auto simp: less_Suc_eq split: if_splits)

lemma rposition_wval:
  "rposition_nz L (length L) = None \<Longrightarrow> wval L = 0"
  "rposition_nz L (length L) = Some i \<Longrightarrow> i * 64 + bit_len (unat (wget L i)) = bit_len (wval L)"
proof -
  assume "rposition_nz L (length L) = None"
  then show "wval L = 0"
    using rposition_nz_None [of L "length L"] by (auto simp: wval_eq_0_iff in_set_conv_nth wget_def)
next
  assume "rposition_nz L (length L) = Some i"
  then have i: "i < length L" "wget L i \<noteq> 0" "\<And>j. j < length L \<Longrightarrow> i < j \<Longrightarrow> wget L j = 0"
    using rposition_nz_Some by blast+
  define x b where "x = unat (wget L i)" and "b = bit_len x"
  have "drop (Suc i) L = replicate (length L - Suc i) 0"
    using i by (intro nth_equalityI) (auto simp: wget_def)
  then have "wval L = wval (take (Suc i) L)"
    using wval_take_drop [of L "Suc i"] by simp
  also have "\<dots> = wval (take i L) + 2 ^ (64 * i) * x"
    by (simp only: wval_take_Suc_wget x_def)
  finally have v: "wval L = wval (take i L) + 2 ^ (64 * i) * x" .
  have t: "wval (take i L) < 2 ^ (64 * i)" by (simp add: wval_take)
  have "0 < x" using i(2) by (simp add: x_def unat_gt_0)
  then have bx: "2 ^ (b - 1) \<le> x" "x < 2 ^ b" "0 < b" using bit_len_bounds unfolding b_def by blast+
  have "2 ^ (64 * i + (b - 1)) \<le> wval L"
    unfolding v power_add using bx by (intro trans_le_add2 mult_le_mono2)
  moreover have "wval L < 2 ^ Suc (64 * i + (b - 1))"
  proof -
    have "wval L < 2 ^ (64 * i) * Suc x" using v t by simp
    also have "\<dots> \<le> 2 ^ (64 * i) * 2 ^ b" using bx by (intro mult_le_mono2) simp
    also have "\<dots> = 2 ^ Suc (64 * i + (b - 1))" using bx(3) by (simp flip: power_add)
    finally show ?thesis .
  qed
  ultimately have "bit_len (wval L) = Suc (64 * i + (b - 1))" by (rule bit_len_unique)
  then show "i * 64 + bit_len (unat (wget L i)) = bit_len (wval L)" using bx(3) by (simp add: b_def x_def)
qed

text \<open>The known part of a value: unknown bits read as 0.\<close>

definition known_plane :: "nat \<Rightarrow> u64 list \<Rightarrow> u64 list \<Rightarrow> u64 list" where
  "known_plane w val unk = mask_plane w (map (\<lambda>k. wget val k AND NOT (wget unk k)) [0..<nw1 w])"

lemma pbit_known_plane: "pbit (known_plane w val unk) i \<longleftrightarrow> i < w \<and> pbit val i \<and> \<not> pbit unk i"
proof (cases "i < w")
  case True
  then have "i div 64 < nw1 w" by (rule nw1_less)
  then show ?thesis using True
    by (simp add: known_plane_def pbit_mask_plane) (simp add: pbit_def bit_and_iff bit_not_iff)
qed (simp add: known_plane_def pbit_mask_plane)

lemma plane_ok_known [simp]: "plane_ok w (known_plane w val unk)"
  by (simp add: known_plane_def)

lemma top_mask_low_mask: "0 < w \<Longrightarrow> low_mask (if w mod 64 = 0 then 64 else w mod 64) = top_mask w"
proof -
  assume "0 < w"
  then show ?thesis by (auto simp: low_mask_def top_mask_def Let_def)
qed

lemma mask_plane_same_length:
  "length ws = nw1 w \<Longrightarrow> ws[nw1 w - 1 := (ws ! (nw1 w - 1)) AND top_mask w] = mask_plane w ws"
  using nw1_bounds(1) [of w] by (simp add: mask_plane_def mask_last_def Let_def)

lemma wval_mask_plane: "length ws = nw1 w \<Longrightarrow> wval (mask_plane w ws) = wval ws mod 2 ^ w"
proof (rule bit_eqI)
  fix i assume "length ws = nw1 w"
  show "bit (wval (mask_plane w ws)) i = bit (wval ws mod 2 ^ w) i"
    by (auto simp: bit_wval pbit_mask_plane bit_take_bit_iff simp flip: take_bit_eq_mod)
qed

lemma int_to_real_exact:
  assumes "0 < w" and "\<bar>pint w s (known_plane w val unk)\<bar> < 2 ^ 53"
  shows "f64_holds (int_to_real val unk w s) (pint w s (known_plane w val unk))"
proof -
  define K where "K = known_plane w val unk"
  define n where "n = mw_nwords w"
  have n: "n = nw1 w" using assms(1) by (simp add: n_def nw1_v_nwords v_nwords_eq)
  have Kok: "plane_ok w K" and Kl: "length K = nw1 w" by (simp_all add: K_def plane_ok_iff [of w "known_plane w val unk", THEN iffD1])
  define neg where "neg = (s \<and> pbit K (w - 1))"
  define L where "L = (if neg then mask_plane w (mw_neg K) else K)"
  have K: "(map (\<lambda>w. wget val w AND NOT (wget unk w)) [0..<n])
      [n - 1 := (map (\<lambda>w. wget val w AND NOT (wget unk w)) [0..<n] ! (n - 1)) AND top_mask w] = K"
    unfolding n K_def known_plane_def by (rule mask_plane_same_length) simp
  have negL: "(let l = mw_neg_go 1 K in l[n - 1 := (l ! (n - 1)) AND top_mask w]) = mask_plane w (mw_neg K)"
    unfolding Let_def n mw_neg_def [symmetric] by (rule mask_plane_same_length) (simp add: Kl)
  have "wval L = nat \<bar>pint w s K\<bar> \<and> (neg \<longleftrightarrow> pint w s K < 0)"
  proof (cases neg)
    case True
    have b: "wval K < 2 ^ w" using Kok by (rule plane_ok_wval)
    have pos: "0 < wval K"
      using True by (metis neg_def bit_wval gr0I bit_0_eq bot_apply bot_bool_def)
    have le: "(2 :: nat) ^ w \<le> 2 ^ (64 * nw1 w)" using nw1_bounds(2) by (intro power_increasing) simp_all
    have "wval L = (2 ^ (64 * nw1 w) - wval K) mod 2 ^ w"
      using True b pos le by (simp add: L_def wval_mask_plane wval_mw_neg Kl)
    also have "2 ^ (64 * nw1 w) - wval K = (2 ^ w - wval K) + 2 ^ w * (2 ^ (64 * nw1 w - w) - 1)"
    proof -
      have "(2 :: nat) ^ (64 * nw1 w) = 2 ^ w * 2 ^ (64 * nw1 w - w)"
        using nw1_bounds(2) [of w] by (simp flip: power_add)
      then show ?thesis using b by (simp add: right_diff_distrib')
    qed
    also have "\<dots> mod 2 ^ w = 2 ^ w - wval K" using pos b unfolding mod_mult_self2 by (intro mod_less) simp
    finally have "wval L = 2 ^ w - wval K" .
    moreover have "pint w s K = int (wval K) - 2 ^ w"
      using True assms(1) by (simp add: pint_def neg_def)
    ultimately show ?thesis using b True by (simp add: of_nat_diff nat_diff_distrib flip: of_nat_less_iff)
        (simp add: nat_diff_distrib' nat_power_eq)
  next
    case False
    then have "pint w s K = int (wval K)" by (auto simp: pint_def neg_def)
    then show ?thesis using False by (simp add: L_def)
  qed
  then have v: "wval L = nat \<bar>pint w s K\<bar>" and sgn: "neg \<longleftrightarrow> pint w s K < 0" by simp_all
  have small: "wval L < 2 ^ 53" using assms(2) by (simp add: v K_def nat_less_iff)
  have itr: "int_to_real val unk w s =
    (case rposition_nz L (length L) of None \<Rightarrow> f64_zero False
     | Some i \<Rightarrow> (let bitlen = i * 64 + (64 - leading_zeros (wget L i));
                     (mag, base) = fold (add_bit_step L) [0..<bitlen] (f64_zero False, f64_one)
                 in if neg then f64_neg mag else mag))"
    using assms(1) unfolding int_to_real_def Let_def n_def [symmetric] top_mask_low_mask [OF assms(1)] K
      negL [unfolded Let_def] L_def neg_def
    by (simp only: if_False shift_and_1 of_bool_eq_1_iff pbit_def) simp
  show ?thesis
  proof (cases "rposition_nz L (length L)")
    case None
    then have "pint w s K = 0" using rposition_wval(1) [OF None] v by simp
    then show ?thesis using None itr f64_holds_zero by (simp add: K_def)
  next
    case (Some i)
    have "unat (wget L i) < 2 ^ 64" by (rule unat_lt_64)
    then have "bit_len (unat (wget L i)) \<le> 64" by (rule bit_len_small)
    then have bl: "i * 64 + (64 - leading_zeros (wget L i)) = bit_len (wval L)"
      using rposition_wval(2) [OF Some] by (simp add: leading_zeros_def)
    have b53: "bit_len (wval L) \<le> 53" using small by (rule bit_len_small)
    let ?f = "fold (add_bit_step L) [0..<bit_len (wval L)] (f64_zero False, f64_one)"
    have "wval L < 2 ^ bit_len (wval L)"
      using bit_len_bounds [of "wval L"] by (cases "wval L = 0") simp_all
    then have h: "f64_holds (fst ?f) (int (wval L))"
      using add_bits_fold [OF order_refl b53, of L] by simp
    have "int_to_real val unk w s = (if neg then f64_neg (fst ?f) else fst ?f)"
      unfolding itr Some option.case Let_def bl by (simp add: case_prod_beta)
    moreover have "f64_holds (f64_neg (fst ?f)) (- int (wval L))" using h by (rule f64_holds_neg)
    ultimately show ?thesis using h v sgn by (auto simp: K_def)
  qed
qed

end
