(* ===== verification/ValueConv.thy ===== *)
theory ValueConv
  imports ValueReal
begin

text \<open>
  What the conversions of \<open>ValueReal\<close> compute: \<open>from_i128\<close> and \<open>real_to_int_round\<close> keep the
  integer modulo the width, integer-to-real-to-integer is the identity below \<open>2 ^ 53\<close>,
  strings survive packing, and a store to a real is an event exactly when the two doubles
  differ as numbers.
\<close>

section \<open>Integers into values\<close>

lemma bit_sint: "bit (sint (x :: u128)) j \<longleftrightarrow> bit x (if j < 128 then j else 127)"
proof -
  have "bit (sint x) j \<longleftrightarrow> bit x (min j 127)"
    by (simp add: sint_uint bit_signed_take_bit_iff bit_uint_iff min_def)
  then show ?thesis by (simp add: min_def)
qed

lemma sint_neg: "sint (x :: u128) < 0 \<longleftrightarrow> bit x 127"
proof -
  have "bit (sint x) 127 \<longleftrightarrow> sint x < 0"
  proof -
    have "- (2 ^ 127) \<le> sint x \<and> sint x < 2 ^ 127"
      using sint_greater_eq [of x] sint_less [of x] by simp
    then have "sint x div 2 ^ 127 = (if sint x < 0 then - 1 else 0)"
      by (auto simp: div_pos_pos_trivial div_pos_neg_trivial)
    then show ?thesis by (simp only: bit_iff_odd) simp
  qed
  then show ?thesis by (simp add: bit_sint)
qed

lemma from_i128_fields [simp, vec_simps]:
  "v_width (from_i128 i w s) = w" "v_signed (from_i128 i w s) = s"
  "\<not> v_real (from_i128 i w s)" "\<not> v_str (from_i128 i w s)" "vec_ok (from_i128 i w s)"
  by (simp_all add: from_i128_def Let_def)

lemma map_upt_if: "map (\<lambda>x. if x < n then f x else g x) [0..<n] = map f [0..<n]"
  by (rule map_cong) auto

lemma from_i128_bits:
  assumes "0 < w"
  shows "vbit (from_i128 i w s) j = (if j < w \<and> bit (sint i) j then L1 else L0)"
proof (cases "j < w")
  case False
  then show ?thesis by (simp add: vec_ok_bit_out)
next
  case True
  let ?n = "nw1 (max w 1)"
  have w: "max w 1 = w" using assms by simp
  have words: "(w + 63) div 64 = nw1 w" using assms by (simp add: nw1_def v_nwords_def)
  obtain k b where j: "j = 64 * k + b" "b < 64" by (rule index_split)
  have k: "k < nw1 w" using nw1_less [OF True] j by simp
  let ?v = "\<lambda>k. (if k < 2 then ucast (drop_bit (k * 64) i) else if sint i < 0 then - 1 else 0 :: u64)"
  have v: "v_val (from_i128 i w s) = mask_plane w (map ?v [0..<nw1 w])"
    "v_unk (from_i128 i w s) = mask_plane w (replicate (nw1 w) 0)"
    unfolding from_i128_def Let_def w words by (simp_all add: mask_top_def map_upt_if)
  have "bit (?v k) b \<longleftrightarrow> bit (sint i) j"
  proof (cases "k < 2")
    case True
    then have "j < 128" using j by simp
    then show ?thesis using True j by (simp add: bit_ucast_iff bit_drop_bit_eq bit_sint mult.commute)
  next
    case False
    then have "\<not> j < 128" using j by simp
    then show ?thesis using False j by (simp add: bit_sint sint_neg)
  qed
  then have "pbit (v_val (from_i128 i w s)) j \<longleftrightarrow> bit (sint i) j"
    unfolding v pbit_mask_plane using True j(2) k by (simp only: j(1) pbit_at wget_map_upt simp_thms if_True)
  moreover have "\<not> pbit (v_unk (from_i128 i w s)) j" by (simp add: v pbit_mask_plane)
  ultimately show ?thesis using True by (simp add: vbit_def)
qed

lemma vnum_from_bits:
  assumes "vec_ok v" and "\<And>j. vbit v j = (if j < v_width v \<and> bit k j then L1 else L0)"
  shows "int (vnum v) = k mod 2 ^ v_width v" and "\<not> has_xz v"
proof -
  have p: "pbit (v_val v) j \<longleftrightarrow> j < v_width v \<and> bit k j" "\<not> pbit (v_unk v) j" for j
    using assms(2) [of j] l4_vbit [of v j] by (simp_all add: l4_v_def l4_u_def split: if_splits)
  have "int (wval (v_val v)) = take_bit (v_width v) k"
    by (rule bit_eqI) (auto simp: bit_of_nat_iff_bit bit_wval p bit_take_bit_iff)
  then show "int (vnum v) = k mod 2 ^ v_width v" by (simp add: vnum_def take_bit_eq_mod)
  show "\<not> has_xz v" using p by (simp add: has_xz_iff)
qed

lemma vnum_from_i128:
  assumes "0 < w"
  shows "int (vnum (from_i128 i w s)) = sint i mod 2 ^ w" and "\<not> has_xz (from_i128 i w s)"
  using vnum_from_bits [of "from_i128 i w s" "sint i"] from_i128_bits [OF assms, of i s] by simp_all

section \<open>Real to integer\<close>

lemma f64_round_exact:
  assumes "f64_holds x k" and "\<bar>k\<bar> < 2 ^ 53"
  shows "f64_holds (f64_round x) k" and "f64_sign (f64_round x) = f64_sign x"
proof -
  have f: "f64_is_finite x" and u: "f64_units x = k * 2 ^ 1074"
    using assms(1) by (simp_all only: f64_holds_def)
  define m where "m = nat \<bar>k\<bar>"
  have "int (mag_units (f64_mag x)) = \<bar>f64_units x\<bar>" by (simp add: f64_units_def)
  also have "\<dots> = \<bar>k\<bar> * 2 ^ 1074" unfolding u abs_mult by simp
  also have "\<dots> = int (m * 2 ^ 1074)" by (simp add: m_def)
  finally have mu: "mag_units (f64_mag x) = m * 2 ^ 1074" by (simp only: of_nat_eq_iff)
  have "(m * 2 ^ 1074 + 2 ^ 1073) div 2 ^ 1074 = (m :: nat)"
  proof -
    have "(2 :: nat) ^ 1073 < 2 ^ 1074" by (rule power_strict_increasing) simp_all
    then show ?thesis using div_mod_pair by blast
  qed
  then have r: "f64_round x = f64_round_ratio (f64_sign x) (m * 2 ^ 1074) 1"
    using f by (simp only: f64_round_def mu if_True)
  have "f64_holds (f64_round_ratio (f64_sign x) (m * 2 ^ 1074) 1)
      (if f64_sign x then - int (m * 2 ^ 0) else int (m * 2 ^ 0))"
    using assms(2) by (intro f64_holds_round) (simp_all only: m_def nat_less_iff power_0 mult_1_right, simp_all)
  moreover have "(if f64_sign x then - int (m * 2 ^ 0) else int (m * 2 ^ 0)) = k"
  proof (cases "k = 0")
    case False
    have "f64_units x < 0 \<longleftrightarrow> k < 0" unfolding u by (rule scaled_sign) simp
    moreover have "f64_units x \<noteq> 0" unfolding u using False by (simp only: mult_eq_0_iff) simp
    ultimately have "f64_sign x \<longleftrightarrow> k < 0" by (auto simp: f64_units_def split: if_splits)
    then show ?thesis by (simp add: m_def)
  qed (simp add: m_def)
  ultimately show "f64_holds (f64_round x) k" by (simp only: r)
  show "f64_sign (f64_round x) = f64_sign x" by (simp only: r round_ratio_fields)
qed

lemma f64_abs_fields: "f64_mag (f64_abs x) = f64_mag x" "\<not> f64_sign (f64_abs x)"
proof -
  have "f64_abs x AND NOT f64_sign_bit = x AND NOT f64_sign_bit"
    by (rule bit_word_eqI) (auto simp: f64_abs_def bit_and_iff bit_not_iff)
  then show "f64_mag (f64_abs x) = f64_mag x" by (simp only: f64_mag_def)
  show "\<not> f64_sign (f64_abs x)"
    by (simp add: f64_sign_def f64_abs_def bit_and_iff bit_not_iff bit_f64_sign_bit)
qed

lemma f64_abs_holds:
  assumes "f64_holds x k"
  shows "f64_holds (f64_abs x) \<bar>k\<bar>"
proof -
  have f: "f64_is_finite x" and u: "f64_units x = k * 2 ^ 1074"
    using assms by (simp_all only: f64_holds_def)
  have "f64_units (f64_abs x) = \<bar>f64_units x\<bar>"
    by (simp add: f64_units_def f64_abs_fields)
  also have "\<dots> = \<bar>k\<bar> * 2 ^ 1074" unfolding u abs_mult by simp
  finally show ?thesis using f by (simp only: f64_holds_def f64_is_finite_def f64_abs_fields)
qed

lemma holds_mag:
  assumes "f64_holds x k"
  shows "mag_units (f64_mag x) = nat \<bar>k\<bar> * 2 ^ 1074" and "k \<noteq> 0 \<Longrightarrow> f64_sign x \<longleftrightarrow> k < 0"
proof -
  have u: "f64_units x = k * 2 ^ 1074" using assms by (simp only: f64_holds_def)
  have "int (mag_units (f64_mag x)) = \<bar>f64_units x\<bar>" by (simp add: f64_units_def)
  also have "\<dots> = \<bar>k\<bar> * 2 ^ 1074" unfolding u abs_mult by simp
  also have "\<dots> = int (nat \<bar>k\<bar> * 2 ^ 1074)" by simp
  finally show "mag_units (f64_mag x) = nat \<bar>k\<bar> * 2 ^ 1074" by (simp only: of_nat_eq_iff)
  assume "k \<noteq> 0"
  have "f64_units x < 0 \<longleftrightarrow> k < 0" unfolding u by (rule scaled_sign) simp
  moreover have "f64_units x \<noteq> 0" unfolding u using \<open>k \<noteq> 0\<close> by (simp only: mult_eq_0_iff) simp
  ultimately show "f64_sign x \<longleftrightarrow> k < 0" by (auto simp: f64_units_def split: if_splits)
qed

lemma f64_2_127_holds: "f64_holds f64_2_127 (2 ^ 127)"
  unfolding f64_2_127_def by (rule f64_pow_holds(1)) simp_all

lemma f64_lt_holds:
  assumes "f64_holds x a" and "f64_holds y b" and "a < b"
  shows "f64_lt x y"
proof -
  have n: "\<not> f64_is_nan x \<and> \<not> f64_is_inf x" "\<not> f64_is_nan y \<and> \<not> f64_is_inf y"
    using assms(1,2) finite_not_special by (auto simp only: f64_holds_def)
  have "a * 2 ^ 1074 < b * 2 ^ 1074" using assms(3) by (intro mult_strict_right_mono) simp_all
  then show ?thesis
    using n assms(1,2) by (simp add: f64_lt_def f64_key_def f64_holds_def del: power_numeral)
qed

lemma f64_as_i128_holds:
  assumes "f64_holds x k" and "\<bar>k\<bar> < 2 ^ 53"
  shows "f64_as_i128 x = word_of_int k"
proof -
  have n: "\<not> f64_is_nan x \<and> \<not> f64_is_inf x"
    using assms(1) finite_not_special by (auto simp only: f64_holds_def)
  have "mag_units (f64_mag x) div 2 ^ 1074 = nat \<bar>k\<bar>"
    unfolding holds_mag(1) [OF assms(1)] by (rule nonzero_mult_div_cancel_right) simp
  then have "f64_trunc x = k"
    using holds_mag(2) [OF assms(1)] by (cases "k = 0") (simp_all add: f64_trunc_def)
  moreover have "- (2 ^ 127) \<le> k" "k \<le> 2 ^ 127 - 1" using assms(2) by (auto simp: abs_less_iff)
  ultimately show ?thesis using n by (simp only: f64_as_i128_def if_False min_absorb2 max_absorb2)
qed

lemma real_to_int_round_holds:
  assumes "f64_holds x k" and "\<bar>k\<bar> < 2 ^ 53"
  shows "real_to_int_round x w s = from_i128 (word_of_int k) (max w 1) s"
proof -
  have f: "f64_is_finite x" using assms(1) by (simp only: f64_holds_def)
  note r = f64_round_exact(1) [OF assms]
  have "\<bar>k\<bar> < 2 ^ 127" using assms(2) by simp
  then have "f64_lt (f64_abs (f64_round x)) f64_2_127"
    by (rule f64_lt_holds [OF f64_abs_holds [OF r] f64_2_127_holds])
  then show ?thesis using f f64_as_i128_holds [OF r assms(2)]
    by (simp only: real_to_int_round_def Let_def if_True if_False simp_thms)
qed

lemma sint_of_small: "\<bar>k\<bar> < 2 ^ 53 \<Longrightarrow> sint (word_of_int k :: u128) = k"
proof -
  assume "\<bar>k\<bar> < 2 ^ 53"
  then have "- (2 ^ 127) \<le> k" "k < 2 ^ 127" by (auto simp: abs_less_iff)
  then show ?thesis by (simp add: signed_of_int signed_take_bit_int_eq_self)
qed

lemma vec_ok_num_ext:
  assumes "vec_ok a" and "vec_ok b" and "v_width a = v_width b" and "v_signed a = v_signed b"
    and "v_str a = v_str b" and "\<not> has_xz a" and "\<not> has_xz b" and "vnum a = vnum b"
  shows "a = b"
proof (rule vec_ok_ext)
  fix i
  have "pbit (v_val a) i = pbit (v_val b) i"
    using arg_cong [OF assms(8), of "\<lambda>n. bit n i"] by (simp add: vnum_def bit_wval)
  then show "vbit a i = vbit b i" using assms by (simp add: vbit_eq_iff has_xz_zero_unk)
qed (use assms in simp_all)

lemma known_plane_definite:
  assumes "vec_ok v" and "\<not> has_xz v"
  shows "known_plane (v_width v) (v_val v) (v_unk v) = v_val v"
  using assms by (intro plane_ext [where w = "v_width v"])
    (auto simp: pbit_known_plane vec_ok_def has_xz_zero_unk)

lemma real_roundtrip_value:
  assumes "vec_ok v" and "\<not> has_xz v" and "\<not> v_str v" and "0 < v_width v" and "\<bar>vint v\<bar> < 2 ^ 53"
  shows "coerce_assign False (coerce_assign True v 1 False) (v_width v) (v_signed v) = v"
proof -
  let ?w = "v_width v" and ?s = "v_signed v" and ?x = "int_to_real (v_val v) (v_unk v) (v_width v) (v_signed v)"
  have p: "pint ?w ?s (known_plane ?w (v_val v) (v_unk v)) = vint v"
    using known_plane_definite [OF assms(1,2)] by (simp add: vint_def)
  have h: "f64_holds ?x (vint v)"
    using int_to_real_exact [OF assms(4), of ?s "v_val v" "v_unk v"] assms(5) unfolding p by blast
  have c: "coerce_assign True v 1 False = from_f64 ?x"
    using assms(1,4) by (simp add: coerce_assign_def to_f64_or_0_def to_f64_def integral_to_f64_def vec_ok_def)
  have "coerce_assign False (from_f64 ?x) ?w ?s = real_to_int_round ?x (max ?w 1) ?s"
    by (simp add: coerce_assign_def from_f64_def to_f64_or_0_def to_f64_def)
  also have "\<dots> = from_i128 (word_of_int (vint v)) ?w ?s"
    using assms(4) by (simp add: real_to_int_round_holds [OF h assms(5)])
  also have "\<dots> = v"
  proof (rule vec_ok_num_ext)
    have "int (vnum (from_i128 (word_of_int (vint v)) ?w ?s)) = vint v mod 2 ^ ?w"
      using vnum_from_i128(1) [OF assms(4)] by (simp only: sint_of_small [OF assms(5)])
    also have "\<dots> = int (vnum v)"
      using vnum_bound [OF assms(1)] by (simp add: vint_def pint_mod flip: vnum_def)
    finally show "vnum (from_i128 (word_of_int (vint v)) ?w ?s) = vnum v" by simp
    show "\<not> has_xz (from_i128 (word_of_int (vint v)) ?w ?s)" by (rule vnum_from_i128(2) [OF assms(4)])
  qed (use assms in simp_all)
  finally show ?thesis by (simp only: c)
qed

section \<open>Strings\<close>

lemma word_byte: "i div 64 = i div 8 div 8" "i mod 64 = 8 * (i div 8 mod 8) + i mod (8 :: nat)"
  using div_mult2_eq [of i 8 8] mod_mult2_eq [of i 8 8] by simp_all

lemma byte_pos: "8 * k div 64 = k div 8" "8 * k mod 64 = 8 * (k mod 8 :: nat)"
  by (simp_all add: word_byte)

lemma bit_byte_at:
  assumes "i < 8"
  shows "bit (byte_at (drop_bit (8 * k mod 64) (wget ws (8 * k div 64)))) i \<longleftrightarrow> pbit ws (8 * k + i)"
proof -
  have e: "(8 * k + i) div 8 = k" "(8 * k + i) mod 8 = i" using assms by simp_all
  show ?thesis using assms
    by (simp add: byte_at_def bit_ucast_iff bit_drop_bit_eq pbit_def byte_pos word_byte [of "8 * k + i"] e)
qed

lemma length_or_byte [simp]: "length (or_byte ib val) = length val"
  by (simp add: or_byte_def Let_def)

lemma pbit_or_byte:
  assumes "8 * k < 64 * length val"
  shows "pbit (or_byte (k, b) val) i \<longleftrightarrow> pbit val i \<or> (i div 8 = k \<and> bit b (i mod 8))"
proof -
  have l: "k div 8 < length val" using assms by (simp add: div_less_iff_less_mult mult.commute)
  have ob: "or_byte (k, b) val = val[k div 8 := (val ! (k div 8)) OR push_bit (8 * (k mod 8)) (ucast b)]"
    by (simp add: or_byte_def Let_def mult.commute [of k] byte_pos)
  show ?thesis
  proof (cases "i div 8 div 8 = k div 8")
    case True
    define c where "c = i div 8 mod 8"
    have ik: "i div 8 = k \<longleftrightarrow> c = k mod 8" using True c_def by (metis div_mult_mod_eq)
    have m: "8 * (k mod 8) \<le> 8 * c + i mod 8 \<and> 8 * c + i mod 8 - 8 * (k mod 8) < 8 \<longleftrightarrow> c = k mod 8"
    proof -
      have "i mod 8 < 8" by simp
      then show ?thesis by linarith
    qed
    have "pbit (or_byte (k, b) val) i
      \<longleftrightarrow> bit ((wget val (k div 8)) OR push_bit (8 * (k mod 8)) (ucast b)) (8 * c + i mod 8)"
      using True l by (simp add: pbit_def ob wget_list_update wget_in word_byte [of i] c_def)
    also have "\<dots> \<longleftrightarrow> pbit val i \<or> (8 * (k mod 8) \<le> 8 * c + i mod 8 \<and> bit b (8 * c + i mod 8 - 8 * (k mod 8)))"
    proof -
      have "c < 8" "i mod 8 < 8" by (simp_all add: c_def)
      then have "8 * c + i mod 8 < 64" by linarith
      then show ?thesis using True
        by (auto simp: pbit_def bit_or_iff bit_push_bit_iff bit_ucast_iff word_byte [of i] simp flip: c_def)
    qed
    also have "\<dots> \<longleftrightarrow> pbit val i \<or> (i div 8 = k \<and> bit b (i mod 8))"
      using m ik bit_imp_le_length [of b "8 * c + i mod 8 - 8 * (k mod 8)"] by auto
    finally show ?thesis .
  next
    case False
    then have "i div 8 \<noteq> k" by blast
    then show ?thesis using False by (simp add: pbit_def ob wget_list_update word_byte(1) [of i])
  qed
qed

lemma pbit_or_bytes:
  assumes "8 * (n + length bs) \<le> 64 * length val"
  shows "pbit (fold or_byte (enumerate n bs) val) i \<longleftrightarrow>
    pbit val i \<or> (n \<le> i div 8 \<and> i div 8 < n + length bs \<and> bit (bs ! (i div 8 - n)) (i mod 8))"
  using assms
proof (induction bs arbitrary: n val)
  case (Cons b bs)
  have "8 * n < 64 * length val" using Cons.prems by simp
  note p = pbit_or_byte [OF this, of b i]
  have "pbit (fold or_byte (enumerate n (b # bs)) val) i \<longleftrightarrow>
     pbit (or_byte (n, b) val) i \<or>
     (Suc n \<le> i div 8 \<and> i div 8 < Suc n + length bs \<and> bit (bs ! (i div 8 - Suc n)) (i mod 8))"
    using Cons.prems by (simp add: Cons.IH)
  also have "\<dots> \<longleftrightarrow> pbit val i \<or>
      (n \<le> i div 8 \<and> i div 8 < n + length (b # bs) \<and> bit ((b # bs) ! (i div 8 - n)) (i mod 8))"
  proof (cases "n \<le> i div 8")
    case True
    then obtain q where "i div 8 = n + q" using le_Suc_ex by blast
    then show ?thesis unfolding p by (cases q) auto
  qed (auto simp: p)
  finally show ?case .
qed auto

lemma str_bytes_go_eq:
  "str_bytes_go val st ks =
    (let bs = map (\<lambda>k. byte_at (drop_bit (8 * k mod 64) (wget val (8 * k div 64)))) ks
     in if st then bs else dropWhile (\<lambda>b. b = 0) bs)"
  by (induction ks arbitrary: st) (auto simp: Let_def mult.commute)

lemma string_plane_bytes:
  assumes "length bs \<le> m" and "8 * m \<le> 64 * length z" and "\<And>i. \<not> pbit z i" and "k < m"
  shows "byte_at (drop_bit (8 * k mod 64) (wget (fold or_byte (enumerate 0 bs) z) (8 * k div 64)))
    = (if k < length bs then bs ! k else 0)"
proof (rule bit_word_eqI)
  fix i assume "i < LENGTH(8)"
  then have i: "i < 8" by simp
  then have e: "(8 * k + i) div 8 = k" "(8 * k + i) mod 8 = i" by simp_all
  have "pbit (fold or_byte (enumerate 0 bs) z) (8 * k + i) \<longleftrightarrow> k < length bs \<and> bit (bs ! k) i"
    using assms by (simp add: pbit_or_bytes e del: mod_mult_self4 mod_mult_self3)
  then show "bit (byte_at (drop_bit (8 * k mod 64) (wget (fold or_byte (enumerate 0 bs) z) (8 * k div 64)))) i
      \<longleftrightarrow> bit (if k < length bs then bs ! k else 0) i"
    by (auto simp only: bit_byte_at [OF i] bit_0_eq bot_apply bot_bool_def split: if_split)
qed

lemma str_roundtrip: "to_str_bytes (from_str_bytes bs) = dropWhile (\<lambda>b. b = 0) bs"
proof -
  let ?w = "max (length bs * 8) 8" and ?m = "max (length bs) 1"
  let ?z = "replicate (nw1 ?w) (0 :: u64)"
  have nb: "(?w + 7) div 8 = ?m" by (simp add: max_def)
  have "8 * ?m \<le> 64 * nw1 ?w" using nw1_bounds(2) [of ?w] by (simp add: max_def split: if_splits)
  then have b: "byte_at (drop_bit (8 * k mod 64) (wget (fold or_byte (enumerate 0 (rev bs)) ?z) (8 * k div 64)))
      = (if k < length bs then rev bs ! k else 0)" if "k < ?m" for k
    using that by (intro string_plane_bytes [of "rev bs" ?m, simplified length_rev]) simp_all
  have "to_str_bytes (from_str_bytes bs) = dropWhile (\<lambda>b. b = 0)
      (map (\<lambda>k. if k < length bs then rev bs ! k else 0) (rev [0..<?m]))"
  proof -
    have "map (\<lambda>k. byte_at (drop_bit (8 * k mod 64) (wget (fold or_byte (enumerate 0 (rev bs)) ?z) (8 * k div 64)))) (rev [0..<?m])
      = map (\<lambda>k. if k < length bs then rev bs ! k else 0) (rev [0..<?m])"
      by (rule map_cong) (simp_all only: set_rev set_upt atLeastLessThan_iff b)
    moreover have "v_width (from_str_bytes bs) = ?w"
      "v_val (from_str_bytes bs) = fold or_byte (enumerate 0 (rev bs)) ?z"
      by (simp_all add: from_str_bytes_def Let_def)
    ultimately show ?thesis
      unfolding to_str_bytes_def Let_def str_bytes_go_eq by (simp only: nb if_False)
  qed
  also have "\<dots> = dropWhile (\<lambda>b. b = 0) bs"
  proof (cases bs)
    case (Cons x xs)
    then have m: "?m = length bs" by simp
    have "map (\<lambda>k. if k < length bs then rev bs ! k else 0) (rev [0..<length bs]) = rev (map ((!) (rev bs)) [0..<length (rev bs)])"
      by (simp add: rev_map cong: map_cong)
    also have "\<dots> = bs" by (simp only: map_nth rev_rev_ident)
    finally show ?thesis by (simp only: m)
  qed simp
  finally show ?thesis .
qed

section \<open>Events on reals\<close>

lemma f64_mag_0: "f64_mag x = 0 \<longleftrightarrow> x AND NOT f64_sign_bit = 0"
  by (simp add: f64_mag_def unat_eq_zero)

lemma f64_eq_fields:
  assumes "f64_mag x = f64_mag y" and "f64_sign x = f64_sign y"
  shows "x = y"
proof -
  have "x = f64_pack (f64_sign x) (f64_mag x)" by (rule pack_mag_sign [symmetric])
  also have "\<dots> = y" unfolding assms by (rule pack_mag_sign)
  finally show ?thesis .
qed

lemma mag_units_inj:
  assumes "a < 2047 * 2 ^ 52" and "b < 2047 * 2 ^ 52" and "mag_units a = mag_units b"
  shows "a = b"
proof -
  have "a = round_mag (mag_units a) 1" by (rule round_mag_exact [OF assms(1), symmetric])
  also have "\<dots> = b" unfolding assms(3) by (rule round_mag_exact [OF assms(2)])
  finally show ?thesis .
qed

lemma mag_units_less:
  assumes "b < 2047 * 2 ^ 52"
  shows "mag_units b < 2 ^ 2200"
proof -
  define e m where "e = b div 2 ^ 52" and "m = b mod 2 ^ 52"
  have "e < 2047" using assms unfolding e_def by (intro less_mult_imp_div_less)
  have m: "m < 2 ^ 52" by (simp add: m_def)
  show ?thesis
  proof (cases "e = 0")
    case True
    have "mag_units b = m" using True by (simp add: mag_units_def Let_def e_def m_def)
    also have "\<dots> < 2 ^ 2200" using m by (rule less_trans) (rule power_strict_increasing, simp_all)
    finally show ?thesis .
  next
    case False
    then have "mag_units b = (2 ^ 52 + m) * 2 ^ (e - 1)" by (simp add: mag_units_def Let_def e_def m_def)
    also have "\<dots> < 2 ^ 53 * 2 ^ (e - 1)" using m by (intro mult_strict_right_mono) simp_all
    also have "\<dots> = 2 ^ (53 + (e - 1))" by (simp only: power_add)
    also have "\<dots> \<le> 2 ^ 2200" using \<open>e < 2047\<close> by (intro power_increasing) simp_all
    finally show ?thesis .
  qed
qed

lemma signed_zero_pair:
  "old \<noteq> new \<Longrightarrow> old XOR new = f64_sign_bit \<and> old AND NOT f64_sign_bit = 0
     \<longleftrightarrow> f64_mag old = 0 \<and> f64_mag new = 0"
proof
  assume h: "old XOR new = f64_sign_bit \<and> old AND NOT f64_sign_bit = 0"
  then have "new AND NOT f64_sign_bit = 0"
    by (auto simp: bit_eq_iff bit_and_iff bit_not_iff bit_xor_iff bit_f64_sign_bit)
  then show "f64_mag old = 0 \<and> f64_mag new = 0" using h by (simp add: f64_mag_0)
next
  assume n: "old \<noteq> new" and z: "f64_mag old = 0 \<and> f64_mag new = 0"
  then have s: "bit old 63 \<noteq> bit new 63" using f64_eq_fields [of old new] by (auto simp: f64_sign_def)
  have m: "bit (x AND NOT f64_sign_bit) i \<longleftrightarrow> bit x i" if "i \<noteq> 63" for x i
    using that by (auto simp: bit_and_iff bit_not_iff bit_f64_sign_bit dest: bit_imp_le_length)
  have o: "\<not> bit old i" "\<not> bit new i" if "i \<noteq> 63" for i
    using m [OF that, of old] m [OF that, of new] z by (simp_all add: f64_mag_0)
  have "old XOR new = f64_sign_bit"
    by (rule bit_word_eqI) (use s o in \<open>auto simp: bit_xor_iff bit_f64_sign_bit\<close>)
  then show "old XOR new = f64_sign_bit \<and> old AND NOT f64_sign_bit = 0" using z by (simp add: f64_mag_0)
qed

lemma f64_key_eq:
  assumes "\<not> f64_is_nan x" and "\<not> f64_is_nan y"
  shows "f64_key x = f64_key y \<longleftrightarrow> x = y \<or> f64_mag x = 0 \<and> f64_mag y = 0"
proof -
  have mu0: "mag_units b = 0 \<longleftrightarrow> b = 0" if "b < 2047 * 2 ^ 52" for b
    using mag_units_inj [OF that, of 0] by (auto simp: mag_units_def)
  have fin: "f64_is_inf z \<or> f64_mag z < 2047 * 2 ^ 52" if "\<not> f64_is_nan z" for z
    using that unfolding f64_is_nan_def f64_is_inf_def by linarith
  have lt: "\<bar>f64_units z\<bar> < 2 ^ 2200" if "f64_mag z < 2047 * 2 ^ 52" for z
  proof -
    have "int (mag_units (f64_mag z)) < int (2 ^ 2200)"
      using mag_units_less [OF that] by (simp only: of_nat_less_iff)
    then show ?thesis by (simp add: f64_units_def)
  qed
  have "f64_key x = f64_key y \<longleftrightarrow> (f64_mag x = f64_mag y \<and> f64_sign x = f64_sign y)
      \<or> f64_mag x = 0 \<and> f64_mag y = 0"
  proof (cases "f64_is_inf x"; cases "f64_is_inf y")
    assume i: "f64_is_inf x" "f64_is_inf y"
    then have "f64_mag x = f64_mag y" "f64_mag x \<noteq> 0" by (simp_all add: f64_is_inf_def)
    moreover have "(2 :: int) ^ 2200 \<noteq> - (2 ^ 2200)" by (rule notI) simp
    ultimately show ?thesis using i by (auto simp only: f64_key_def if_True if_False split: if_splits)
  next
    assume i: "f64_is_inf x" "\<not> f64_is_inf y"
    then have y: "f64_mag y < 2047 * 2 ^ 52" using fin assms by blast
    have "\<bar>f64_key x\<bar> = 2 ^ 2200" using i by (simp add: f64_key_def)
    moreover have "f64_mag x \<noteq> f64_mag y" "f64_mag x \<noteq> 0" using i y by (simp_all add: f64_is_inf_def)
    ultimately show ?thesis using i lt [OF y] by (auto simp: f64_key_def simp del: power_numeral)
  next
    assume i: "\<not> f64_is_inf x" "f64_is_inf y"
    then have x: "f64_mag x < 2047 * 2 ^ 52" using fin assms by blast
    have "\<bar>f64_key y\<bar> = 2 ^ 2200" using i by (simp add: f64_key_def)
    moreover have "f64_mag x \<noteq> f64_mag y" "f64_mag y \<noteq> 0" using i x by (simp_all add: f64_is_inf_def)
    ultimately show ?thesis using i lt [OF x] by (auto simp: f64_key_def simp del: power_numeral)
  next
    assume i: "\<not> f64_is_inf x" "\<not> f64_is_inf y"
    then have b: "f64_mag x < 2047 * 2 ^ 52" "f64_mag y < 2047 * 2 ^ 52" using fin assms by blast+
    then show ?thesis using i mag_units_inj [OF b] mu0 [OF b(1)] mu0 [OF b(2)]
      by (auto simp: f64_key_def f64_units_def)
  qed
  then show ?thesis using f64_eq_fields by blast
qed

lemma event_iff_number_change:
  assumes "old \<noteq> new"
  shows "real_bits_change_is_event old new \<longleftrightarrow> \<not> f64_eq old new"
proof (cases "f64_is_nan old \<or> f64_is_nan new")
  case True
  then have "\<not> (f64_mag old = 0 \<and> f64_mag new = 0)" by (auto simp: f64_is_nan_def)
  then show ?thesis using True signed_zero_pair [OF assms] by (auto simp: real_bits_change_is_event_def f64_eq_def)
next
  case False
  then show ?thesis using assms signed_zero_pair [OF assms] f64_key_eq [of old new]
    by (auto simp: real_bits_change_is_event_def f64_eq_def)
qed

section \<open>Clocking samples\<close>

text \<open>What word \<open>k\<close> of the sample stores.\<close>

definition sample_word :: "u64 list \<Rightarrow> u64 \<Rightarrow> nat \<Rightarrow> nat \<Rightarrow> u64" where
  "sample_word ws m nw k = (if k = nw - 1 then wget ws k AND m else wget ws k)"

lemma store_sample_step_eq:
  assumes "length val = nw" and "length unk = nw" and "k < nw"
  shows "store_sample_step v m nw k (val, unk, c) =
    (val[k := sample_word (v_val v) m nw k], unk[k := sample_word (v_unk v) m nw k],
     c \<or> val ! k \<noteq> sample_word (v_val v) m nw k \<or> unk ! k \<noteq> sample_word (v_unk v) m nw k)"
proof -
  define a b where "a = sample_word (v_val v) m nw k" and "b = sample_word (v_unk v) m nw k"
  have "store_sample_step v m nw k (val, unk, c) =
    (if val ! k \<noteq> a \<or> unk ! k \<noteq> b then (val[k := a], unk[k := b], True) else (val, unk, c))"
    by (simp add: store_sample_step_def a_def b_def sample_word_def Let_def)
  moreover have "val[k := a] = val" if "val ! k = a" using that by (metis list_update_id)
  moreover have "unk[k := b] = unk" if "unk ! k = b" using that by (metis list_update_id)
  ultimately show ?thesis by (auto simp: a_def b_def)
qed

lemma update_prefix: "k < length xs \<Longrightarrow> (map f [0..<k] @ drop k xs)[k := f k] = map f [0..<Suc k] @ drop (Suc k) xs"
  by (simp add: list_update_append Cons_nth_drop_Suc [symmetric])

lemma store_sample_fold:
  assumes "length val = nw" and "length unk = nw" and "k \<le> nw"
  shows "fold (store_sample_step v m nw) [0..<k] (val, unk, False) =
    (map (sample_word (v_val v) m nw) [0..<k] @ drop k val,
     map (sample_word (v_unk v) m nw) [0..<k] @ drop k unk,
     \<exists>j<k. val ! j \<noteq> sample_word (v_val v) m nw j \<or> unk ! j \<noteq> sample_word (v_unk v) m nw j)"
  using assms(3)
proof (induction k)
  case (Suc k)
  have l: "length (map (sample_word (v_val v) m nw) [0..<k] @ drop k val) = nw"
    "length (map (sample_word (v_unk v) m nw) [0..<k] @ drop k unk) = nw" and k: "k < nw"
    using Suc.prems assms by simp_all
  have n: "(map (sample_word (v_val v) m nw) [0..<k] @ drop k val) ! k = val ! k"
    "(map (sample_word (v_unk v) m nw) [0..<k] @ drop k unk) ! k = unk ! k"
    using k assms by (simp_all add: nth_append)
  have "fold (store_sample_step v m nw) [0..<Suc k] (val, unk, False)
    = store_sample_step v m nw k (fold (store_sample_step v m nw) [0..<k] (val, unk, False))"
    by simp
  also have "fold (store_sample_step v m nw) [0..<k] (val, unk, False) =
    (map (sample_word (v_val v) m nw) [0..<k] @ drop k val,
     map (sample_word (v_unk v) m nw) [0..<k] @ drop k unk,
     \<exists>j<k. val ! j \<noteq> sample_word (v_val v) m nw j \<or> unk ! j \<noteq> sample_word (v_unk v) m nw j)"
    using Suc by simp
  finally show ?case
    unfolding store_sample_step_eq [OF l k] n
    using k assms by (simp add: update_prefix del: upt_Suc) (auto simp: less_Suc_eq)
qed simp

lemma map_upt_eq: "length zs = n \<Longrightarrow> map f [0..<n] = zs \<longleftrightarrow> (\<forall>j<n. zs ! j = f j)"
  by (auto simp: list_eq_iff_nth_eq)

lemma store_sample_words_eq:
  assumes "length unk = length val"
  shows "store_sample_words val unk m v =
    (let val' = map (sample_word (v_val v) m (length val)) [0..<length val];
         unk' = map (sample_word (v_unk v) m (length val)) [0..<length val]
     in (val', unk', val' \<noteq> val \<or> unk' \<noteq> unk))"
proof -
  have "(map f [0..<length val] \<noteq> val \<or> map g [0..<length val] \<noteq> unk)
     \<longleftrightarrow> (\<exists>j<length val. val ! j \<noteq> f j \<or> unk ! j \<noteq> g j)" for f g
    using assms by (simp add: map_upt_eq) blast
  then show ?thesis
    using store_sample_fold [of val "length val" unk "length val" v m] assms
    by (simp add: store_sample_words_def Let_def)
qed

section \<open>Properties\<close>

text \<open>C19: An integer survives a real variable: assigning a known vector whose integer is below \<open>2 ^ 53\<close>
  in magnitude to a real and the real back to a vector of the same width and sign gives the same
  value, for every width.\<close>

theorem real_round_trip:
  assumes "vec_ok v" and "\<not> has_xz v" and "\<not> v_str v" and "0 < v_width v" and "\<bar>vint v\<bar> < 2 ^ 53"
  shows "coerce_assign False (coerce_assign True v 1 False) (v_width v) (v_signed v) = v"
  by (rule real_roundtrip_value [OF assms])

theorem real_round_trip_witness:
  "coerce_assign False (coerce_assign True (byte_value 200) 1 False) 8 False = byte_value 200"
  using real_round_trip [of "byte_value 200"] byte_value_ok(1) [of 200] by (simp add: val_ok_def vint_def)

text \<open>Promotion to real is exact where a double can be: \<open>int_to_real\<close> of a vector whose known bits
  denote an integer below \<open>2 ^ 53\<close> in magnitude is the double of exactly that integer; x and z bits
  count as 0.\<close>

theorem int_to_real_is_exact:
  assumes "0 < w" and "\<bar>pint w s (known_plane w val unk)\<bar> < 2 ^ 53"
  shows "f64_holds (int_to_real val unk w s) (pint w s (known_plane w val unk))"
  by (rule int_to_real_exact [OF assms])

theorem int_to_real_is_exact_witness: "f64_holds (int_to_real [5] [0] 8 False) 5"
proof -
  have "known_plane 8 [5] [0] = [5]" using known_plane_definite [of "byte_value 5"] byte_value_ok(1) [of 5] by (simp add: val_ok_def)
  then show ?thesis using int_to_real_is_exact [of 8 False "[5]" "[0]"] by simp
qed

text \<open>A byte string survives the value representation up to leading NULs, which the vector form
  cannot tell from padding: \<open>to_str_bytes\<close> of \<open>from_str_bytes\<close> drops exactly those.\<close>

theorem string_round_trip: "to_str_bytes (from_str_bytes bs) = dropWhile (\<lambda>b. b = 0) bs"
  by (rule str_roundtrip)

text \<open>A change of a real's bits is an event exactly when the number changes: \<open>+0.0\<close> to \<open>-0.0\<close> is
  none, and a store of a NaN is one unless the bits are the same.\<close>

theorem real_event_is_value_change:
  assumes "old \<noteq> new"
  shows "real_bits_change_is_event old new = (\<not> f64_eq old new)"
  by (rule event_iff_number_change [OF assms])

theorem real_event_is_value_change_witness:
  "real_bits_change_is_event 0 0x8000000000000000 = (\<not> f64_eq 0 0x8000000000000000)"
  using real_event_is_value_change [of 0 "0x8000000000000000"] by simp

text \<open>Storing a clocking sample writes every word of the variable (the top one masked) and reports a
  change exactly when a plane changed.\<close>

theorem store_sample_stores_all:
  assumes "length unk = length val"
  shows "store_sample_words val unk m v =
    (let val' = map (sample_word (v_val v) m (length val)) [0..<length val];
         unk' = map (sample_word (v_unk v) m (length val)) [0..<length val]
     in (val', unk', val' \<noteq> val \<or> unk' \<noteq> unk))"
  by (rule store_sample_words_eq [OF assms])

theorem store_sample_stores_all_witness:
  "store_sample_words [1, 2] [0, 0] 15 ((byte_value 1)\<lparr>v_val := [1, 255], v_unk := [0, 0], v_width := 68\<rparr>)
   = ([1, 15], [0, 0], True)"
proof -
  have "[0..<length [1 :: u64, 2]] = [0, 1]" by (simp add: upt_rec)
  then show ?thesis
    using store_sample_stores_all [of "[0, 0]" "[1, 2]" 15 "(byte_value 1)\<lparr>v_val := [1, 255], v_unk := [0, 0], v_width := 68\<rparr>"]
    by (simp add: sample_word_def Let_def wget_def)
qed

end
