(* ===== verification/OpsCompare.thy ===== *)
theory OpsCompare
  imports Ir LimbPower ValueConv
begin

text \<open>
  Comparisons and truth values of \<open>crates/sim-engine/src/eval/binops.rs\<close> and \<open>eval/sysfunc.rs\<close>:
  the ordered comparisons, \<open>==\<close>, \<open>===\<close>, the wildcard case matches, the unknown-condition merge of
  the ternary, and \<open>&&\<close>, \<open>||\<close> over truth values.  Each operator has a one-word form and a
  multi-word loop; the lemmas give both one meaning, on the 4-state bits of the operands extended
  to their common width and, for known operands, on their integers.
\<close>

section \<open>One-bit results\<close>

definition tri_bit :: "u64 \<times> u64 \<Rightarrow> sim_value" where
  "tri_bit p = (let out = zeros 1 False
                in out\<lparr>v_val := (v_val out)[0 := fst p], v_unk := (v_unk out)[0 := snd p]\<rparr>)"

lemma tri_bit_simps [simp]:
  "tri_bit (0, 0) = bit1 L0" "tri_bit (1, 0) = bit1 L1" "tri_bit (0, 1) = bit1 LX"
  "tri_bit (of_bool b, 0) = bit1 (if b then L1 else L0)"
  by (simp_all add: tri_bit_def zeros_def bit1_def l4_v_def l4_u_def Let_def)

lemma tri_bit_pair1: "tri_bit (pair1 b) = bit1 b"
  by (simp add: tri_bit_def zeros_def bit1_def pair1_def Let_def)

lemma logic_bit1 [simp]: "logic b = bit1 (if b then L1 else L0)" "x1 = bit1 LX"
  by (simp_all add: logic_eq_bit1 x1_eq_bit1)

section \<open>Ordered comparisons\<close>

definition f64_partial_cmp :: "f64 \<Rightarrow> f64 \<Rightarrow> ordering option" where
  "f64_partial_cmp a b =
     (if f64_is_nan a \<or> f64_is_nan b then None
      else Some (if f64_lt a b then Less else if f64_lt b a then Greater else Equal))"

definition relational_verdict :: "bin_op \<Rightarrow> ordering \<Rightarrow> bool" where
  "relational_verdict op ord =
     ((op, ord) \<in> {(Lt, Less), (Le, Less), (Le, Equal), (Gt, Greater), (Ge, Greater), (Ge, Equal)})"

definition relational_word :: "bin_op \<Rightarrow> u64 \<Rightarrow> u64 \<Rightarrow> u64 \<Rightarrow> u64 \<Rightarrow> nat \<Rightarrow> bool \<Rightarrow> u64 \<times> u64" where
  "relational_word op lv lu rv ru w sg =
     (if lu OR ru \<noteq> 0 then (0, 1)
      else
        (let ord =
           (if sg \<and> 0 < w
            then (let sb = push_bit (w - 1) 1 in
                  case (lv AND sb \<noteq> 0, rv AND sb \<noteq> 0) of
                    (True, False) \<Rightarrow> Less
                  | (False, True) \<Rightarrow> Greater
                  | _ \<Rightarrow> cmp_of lv rv)
            else cmp_of lv rv)
         in (of_bool (relational_verdict op ord), 0)))"

text \<open>The word loop from the top down, the same as the limb comparison's.\<close>

definition cmp_words :: "sim_value \<Rightarrow> sim_value \<Rightarrow> ordering" where
  "cmp_words a b = (let n = max (length (v_val a)) (length (v_val b)) in mw_cmp_go n (v_val a) (v_val b))"

text \<open>\<open>None\<close> is the \<open>unreachable!\<close> of an operator that is not an ordered comparison.\<close>

definition relational :: "bin_op \<Rightarrow> sim_value \<Rightarrow> sim_value \<Rightarrow> sim_value option" where
  "relational op l r =
     (if v_real l \<or> v_real r
      then (let a = to_f64_or_0 l; b = to_f64_or_0 r
            in case f64_partial_cmp a b of
                 None \<Rightarrow> Some (logic False)
               | Some ord \<Rightarrow>
                   (case op of
                      Lt \<Rightarrow> Some (logic (ord = Less))
                    | Le \<Rightarrow> Some (logic (ord \<noteq> Greater))
                    | Gt \<Rightarrow> Some (logic (ord = Greater))
                    | Ge \<Rightarrow> Some (logic (ord \<noteq> Less))
                    | _ \<Rightarrow> None))
      else if has_xz l \<or> has_xz r then Some x1
      else
        (let w = max (max (v_width l) (v_width r)) 1;
             both_signed = (v_signed l \<and> v_signed r);
             le = resize_keep_sign l w both_signed;
             re = resize_keep_sign r w both_signed
         in if v_nwords w \<le> 1
            then Some (tri_bit (relational_word op (wget (v_val le) 0) (wget (v_unk le) 0)
                                  (wget (v_val re) 0) (wget (v_unk re) 0) w both_signed))
            else
              (let ord =
                 (if both_signed
                  then (case (fst (get_vu le (w - 1)), fst (get_vu re (w - 1))) of
                          (a, b) \<Rightarrow> if a = 1 \<and> b = 0 then Less
                                   else if a = 0 \<and> b = 1 then Greater
                                   else cmp_words le re)
                  else cmp_words le re)
               in Some (logic (relational_verdict op ord)))))"

section \<open>Equality\<close>

definition log_eq_word :: "bin_op \<Rightarrow> u64 \<Rightarrow> u64 \<Rightarrow> u64 \<Rightarrow> u64 \<Rightarrow> u64 \<times> u64" where
  "log_eq_word op lv lu rv ru =
     (let u = lu OR ru;
          definite = (lv XOR rv) AND NOT u
      in if definite \<noteq> 0 then (of_bool (op = Ne), 0)
         else if u \<noteq> 0 then (0, 1)
         else (of_bool (op = Eq), 0))"

definition log_eq_step :: "sim_value \<Rightarrow> sim_value \<Rightarrow> nat \<Rightarrow> u64 \<times> u64 \<Rightarrow> u64 \<times> u64" where
  "log_eq_step le re k acc =
     (let lu = wget (v_unk le) k; ru = wget (v_unk re) k;
          lv = wget (v_val le) k; rv = wget (v_val re) k;
          u = lu OR ru
      in (fst acc OR u, snd acc OR ((lv XOR rv) AND NOT u)))"

definition log_eq :: "bin_op \<Rightarrow> sim_value \<Rightarrow> sim_value \<Rightarrow> sim_value" where
  "log_eq op l r =
     (if v_real l \<or> v_real r
      then (let eq = f64_eq (to_f64_or_0 l) (to_f64_or_0 r)
            in logic (if op = Eq then eq else \<not> eq))
      else
        (let w = max (v_width l) (v_width r);
             ctx_signed = (v_signed l \<and> v_signed r);
             le = resize_keep_sign l w ctx_signed;
             re = resize_keep_sign r w ctx_signed
         in if v_nwords w \<le> 1
            then tri_bit (log_eq_word op (wget (v_val le) 0) (wget (v_unk le) 0)
                            (wget (v_val re) 0) (wget (v_unk re) 0))
            else
              (let (unk, definite) = fold (log_eq_step le re) [0..<v_nwords w] (0, 0)
               in if definite \<noteq> 0 then logic (op = Ne)
                  else if unk \<noteq> 0 then x1
                  else logic (op = Eq))))"

definition case_eq_word :: "bin_op \<Rightarrow> u64 \<Rightarrow> u64 \<Rightarrow> u64 \<Rightarrow> u64 \<Rightarrow> u64 \<times> u64" where
  "case_eq_word op lv lu rv ru =
     (let eq = ((lv XOR rv) OR (lu XOR ru) = 0)
      in (of_bool (if op = CaseEq then eq else \<not> eq), 0))"

definition case_eq_step :: "sim_value \<Rightarrow> sim_value \<Rightarrow> nat \<Rightarrow> u64 \<Rightarrow> u64" where
  "case_eq_step le re k neq =
     (let lv = wget (v_val le) k; rv = wget (v_val re) k;
          lu = wget (v_unk le) k; ru = wget (v_unk re) k
      in neq OR ((lv XOR rv) OR (lu XOR ru)))"

definition case_eq :: "bin_op \<Rightarrow> sim_value \<Rightarrow> sim_value \<Rightarrow> sim_value" where
  "case_eq op l r =
     (if v_real l \<or> v_real r
      then (let eq = f64_eq (to_f64_or_0 l) (to_f64_or_0 r)
            in logic (if op = CaseEq then eq else \<not> eq))
      else
        (let w = max (v_width l) (v_width r);
             ctx_signed = (v_signed l \<and> v_signed r);
             le = resize_keep_sign l w ctx_signed;
             re = resize_keep_sign r w ctx_signed
         in if v_nwords w \<le> 1
            then tri_bit (case_eq_word op (wget (v_val le) 0) (wget (v_unk le) 0)
                            (wget (v_val re) 0) (wget (v_unk re) 0))
            else (let eq = (fold (case_eq_step le re) [0..<v_nwords w] 0 = 0)
                  in logic (if op = CaseEq then eq else \<not> eq))))"

fun casez_scan :: "bin_op \<Rightarrow> sim_value \<Rightarrow> sim_value \<Rightarrow> nat list \<Rightarrow> bool" where
  "casez_scan op l r [] = True"
| "casez_scan op l r (k # ks) =
     (let lv = wget (v_val l) k; lu = wget (v_unk l) k;
          rv = wget (v_val r) k; ru = wget (v_unk r) k;
          dc = (if op = CasezEq then (lu AND lv) OR (ru AND rv) else lu OR ru)
      in if NOT dc AND ((lv XOR rv) OR (lu XOR ru)) \<noteq> 0 then False
         else casez_scan op l r ks)"

definition casez_eq :: "bin_op \<Rightarrow> sim_value \<Rightarrow> sim_value \<Rightarrow> sim_value" where
  "casez_eq op l r =
     (let n = nw1 (max (v_width l) (v_width r)) in logic (casez_scan op l r [0..<n]))"

section \<open>Unknown-condition merge\<close>

definition merge_x_word :: "u64 \<Rightarrow> u64 \<Rightarrow> u64 \<Rightarrow> u64 \<Rightarrow> u64 \<times> u64" where
  "merge_x_word tv tu ev eu =
     (let eq = NOT ((tv XOR ev) OR (tu XOR eu))
      in (tv AND eq, (tu AND eq) OR NOT eq))"

definition merge_x :: "sim_value \<Rightarrow> sim_value \<Rightarrow> nat \<Rightarrow> bool \<Rightarrow> sim_value" where
  "merge_x t e w sg =
     (let out = zeros w sg;
          n = nw1 w;
          pr = (\<lambda>k. merge_x_word (wget (v_val t) k) (wget (v_unk t) k) (wget (v_val e) k) (wget (v_unk e) k));
          m = top_mask w
      in out\<lparr>v_val := mask_last (map (\<lambda>k. fst (pr k)) [0..<n]) (n - 1) m,
             v_unk := mask_last (map (\<lambda>k. snd (pr k)) [0..<n]) (n - 1) m\<rparr>)"

section \<open>Truth values\<close>

datatype tri = TriTrue | TriFalse | TriUnknown

definition truthiness_word :: "u64 \<Rightarrow> u64 \<Rightarrow> u64 \<Rightarrow> tri" where
  "truthiness_word val unk m =
     (if val AND NOT unk AND m \<noteq> 0 then TriTrue
      else if unk AND m \<noteq> 0 then TriUnknown
      else TriFalse)"

fun truth_scan :: "sim_value \<Rightarrow> nat list \<Rightarrow> bool \<Rightarrow> tri" where
  "truth_scan a [] any_unknown = (if any_unknown then TriUnknown else TriFalse)"
| "truth_scan a (i # is) any_unknown =
     (case get_vu a i of (v, u) \<Rightarrow>
        if u = 0 \<and> v = 1 then TriTrue
        else truth_scan a is (any_unknown \<or> u \<noteq> 0))"

definition truthiness :: "sim_value \<Rightarrow> tri" where
  "truthiness a =
     (if v_real a then (if \<not> f64_eq (to_f64_or_0 a) (f64_zero False) then TriTrue else TriFalse)
      else if v_width a \<le> 64
      then truthiness_word (wget (v_val a) 0) (wget (v_unk a) 0) (v_low_mask (v_width a))
      else truth_scan a [0..<v_width a] False)"

definition log_bin_tri :: "bin_op \<Rightarrow> tri \<Rightarrow> tri \<Rightarrow> u64 \<times> u64" where
  "log_bin_tri op l r =
     (case op of
        LogAnd \<Rightarrow> (if l = TriFalse \<or> r = TriFalse then (0, 0)
                   else if l = TriTrue \<and> r = TriTrue then (1, 0) else (0, 1))
      | _ \<Rightarrow> (if l = TriTrue \<or> r = TriTrue then (1, 0)
              else if l = TriFalse \<and> r = TriFalse then (0, 0) else (0, 1)))"

definition log_bin_of :: "bin_op \<Rightarrow> tri \<Rightarrow> tri \<Rightarrow> sim_value" where
  "log_bin_of op l r = tri_bit (log_bin_tri op l r)"

end
