(* ===== verification/OpsArith.thy ===== *)
theory OpsArith
  imports Ir LimbPower ValueConv
begin

text \<open>
  The arithmetic operators, \<open>arith\<close> and \<open>arith_wide\<close> of
  \<open>crates/sim-engine/src/eval/binops.rs\<close> and \<open>ipow_signed\<close> of \<open>eval/sysfunc.rs\<close>: the
  128-bit native lanes and the multi-word lane beyond them.  The result is an option,
  \<open>None\<close> for every \<open>unwrap\<close>, index or \<open>unreachable!\<close> panic; the lemmas show that it is
  never \<open>None\<close> for an arithmetic operator and that all lanes compute the one integer
  operation modulo \<open>2 ^ w\<close>.
\<close>

section \<open>Reading operands\<close>

record arith_signs =
  as_lhs :: bool
  as_rhs :: bool
  as_res :: bool

definition read_i128 :: "sim_value \<Rightarrow> nat \<Rightarrow> bool \<Rightarrow> u128 option" where
  "read_i128 v w sg =
     (if sg then to_i128_signed (resize_keep_sign v w True)
      else to_u128 (resize_keep_sign v w False))"

text \<open>\<open>i128::wrapping_div\<close> and \<open>wrapping_rem\<close> on the words holding the integers.\<close>

definition i128_div :: "u128 \<Rightarrow> u128 \<Rightarrow> u128" where
  "i128_div a b = word_of_int (sint a sdiv sint b)"

definition i128_rem :: "u128 \<Rightarrow> u128 \<Rightarrow> u128" where
  "i128_rem a b = word_of_int (sint a smod sint b)"

section \<open>Power\<close>

lemma half_word_less: "e \<noteq> 0 \<Longrightarrow> unat (drop_bit 1 (e :: u128)) < unat e"
proof -
  assume "e \<noteq> 0"
  then have "0 < unat e" by (simp add: unat_gt_0)
  then show ?thesis by (simp only: unat_drop power_one_right)
qed

function ipow_loop :: "u128 \<Rightarrow> u128 \<Rightarrow> u128 \<Rightarrow> u128" where
  "ipow_loop acc b e =
     (if e = 0 then acc
      else ipow_loop (if e AND 1 = 1 then acc * b else acc) (b * b) (drop_bit 1 e))"
  by pat_completeness auto
termination
  by (relation "measure (\<lambda>(acc, b, e). unat e)") (simp, simp only: in_measure split_conv, erule half_word_less)

text \<open>The negative rows of IEEE Table 11-6, then square-and-multiply.\<close>

definition ipow_signed :: "u128 \<Rightarrow> u128 \<Rightarrow> u128" where
  "ipow_signed base e =
     (if sint e < 0
      then (if base = 1 then 1
            else if base = - 1 then (if i128_rem e 2 = 0 then 1 else - 1)
            else 0)
      else ipow_loop 1 base e)"

function upow_loop :: "u128 \<Rightarrow> u128 \<Rightarrow> u128 \<Rightarrow> u128" where
  "upow_loop acc base e =
     (if e = 0 then acc
      else (let acc' = (if e AND 1 = 1 then acc * base else acc);
                e' = drop_bit 1 e;
                base' = (if e' \<noteq> 0 then base * base else base)
            in upow_loop acc' base' e'))"
  by pat_completeness auto
termination
  by (relation "measure (\<lambda>(acc, b, e). unat e)") (simp, simp only: in_measure split_conv, erule half_word_less)

declare ipow_loop.simps [simp del] upow_loop.simps [simp del]

lemma unat_and_1: "e AND 1 = 1 \<longleftrightarrow> odd (unat (e :: u128))"
proof -
  have "e AND 1 = 1 \<longleftrightarrow> bit e 0" using shift_and_1 [of 0 e] by simp
  also have "\<dots> \<longleftrightarrow> bit (unat e) 0" by (simp add: bit_unsigned_iff)
  finally show ?thesis by (simp add: bit_0)
qed

lemma pow_halve: "(b :: u128) ^ n = (if odd n then b else 1) * (b * b) ^ (n div 2)"
proof -
  have "b ^ n = b ^ (n mod 2 + 2 * (n div 2))" by simp
  also have "\<dots> = b ^ (n mod 2) * (b * b) ^ (n div 2)"
    by (simp only: power_add power_mult power2_eq_square)
  finally show ?thesis by (simp add: odd_iff_mod_2_eq_one)
qed

lemma ipow_loop_eq: "ipow_loop acc b e = acc * b ^ unat e"
proof (induction acc b e rule: ipow_loop.induct)
  case (1 acc b e)
  show ?case
  proof (cases "e = 0")
    case False
    have "ipow_loop acc b e = (if odd (unat e) then acc * b else acc) * (b * b) ^ (unat e div 2)"
      using False 1 by (subst ipow_loop.simps) (simp add: unat_and_1 unat_drop [of 1, simplified])
    also have "\<dots> = acc * b ^ unat e" by (subst pow_halve [of b "unat e"]) simp
    finally show ?thesis .
  qed (simp add: ipow_loop.simps)
qed

lemma upow_loop_eq: "upow_loop acc b e = acc * b ^ unat e"
proof (induction acc b e rule: upow_loop.induct)
  case (1 acc b e)
  show ?case
  proof (cases "e = 0")
    case False
    let ?e = "drop_bit 1 e"
    have u: "unat ?e = unat e div 2" by (simp add: unat_drop)
    have "upow_loop acc b e = (if odd (unat e) then acc * b else acc) * (if ?e \<noteq> 0 then b * b else b) ^ unat ?e"
      using "1.IH" [OF False refl refl refl] False by (subst upow_loop.simps) (simp add: unat_and_1 Let_def)
    also have "(if ?e \<noteq> 0 then b * b else b) ^ unat ?e = (b * b) ^ unat ?e" by simp
    finally show ?thesis unfolding u by (subst pow_halve [of b "unat e"]) simp
  qed (simp add: upow_loop.simps)
qed

section \<open>The multi-word lane\<close>

definition WIDE_ARITH_CAP :: nat where
  "WIDE_ARITH_CAP = 2 ^ 20"

definition arith_wide :: "bin_op \<Rightarrow> sim_value \<Rightarrow> sim_value \<Rightarrow> nat \<Rightarrow> arith_signs \<Rightarrow> sim_value option" where
  "arith_wide op l r w sg =
     (if WIDE_ARITH_CAP < w \<and> (op = Mul \<or> op = Div \<or> op = Mod \<or> op = Pow)
      then Some (all_x w (as_res sg))
      else
        (let n = nw1 w;
             le = resize_keep_sign l w (as_lhs sg);
             re = resize_keep_sign r w (as_rhs sg);
             a = map (wget (v_val le)) [0..<n];
             b = map (wget (v_val re)) [0..<n];
             sa = (as_lhs sg \<and> fst (get_vu le (w - 1)) = 1);
             sb = (as_rhs sg \<and> fst (get_vu re (w - 1)) = 1);
             finish = (\<lambda>words. let out = zeros w (as_res sg)
                                in mask_top (out\<lparr>v_val := copy_prefix (v_val out) words (min n (length words))\<rparr>))
         in case op of
              Add \<Rightarrow> Some (finish (mw_mask (mw_add a b) w))
            | Sub \<Rightarrow> Some (finish (mw_mask (mw_add a (mw_neg b)) w))
            | Mul \<Rightarrow> Some (finish (mw_mask (mw_mul a b n) w))
            | Div \<Rightarrow>
                if mw_is_zero b then Some (all_x w (as_res sg))
                else (let ma = (if sa then mw_mask (mw_neg a) w else a);
                          mb = (if sb then mw_mask (mw_neg b) w else b)
                      in map_option (\<lambda>(q, rem). finish (mw_mask (if sa \<noteq> sb then mw_neg q else q) w))
                           (mw_divmod ma mb))
            | Mod \<Rightarrow>
                if mw_is_zero b then Some (all_x w (as_res sg))
                else (let ma = (if sa then mw_mask (mw_neg a) w else a);
                          mb = (if sb then mw_mask (mw_neg b) w else b)
                      in map_option (\<lambda>(q, rem). finish (mw_mask (if sa then mw_neg rem else rem) w))
                           (mw_divmod ma mb))
            | Pow \<Rightarrow>
                if sb then
                  Option.bind (mw_one n) (\<lambda>one.
                    (let minus_one = mw_mask (mw_neg one) w in
                     if a = one then Some (finish one)
                     else if as_lhs sg \<and> a = minus_one
                     then Some (finish (if (b ! 0) AND 1 = 0 then one else minus_one))
                     else if mw_is_zero a then Some (all_x w (as_res sg))
                     else Some (finish (replicate n 0))))
                else map_option finish (mw_pow a b w)
            | _ \<Rightarrow> None))"

section \<open>Arithmetic\<close>

definition real_arith :: "bin_op \<Rightarrow> f64 \<Rightarrow> f64 \<Rightarrow> f64" where
  "real_arith op a b =
     (case op of
        Add \<Rightarrow> f64_add a b
      | Sub \<Rightarrow> f64_sub a b
      | Mul \<Rightarrow> f64_mul a b
      | Div \<Rightarrow> f64_div a b
      | _ \<Rightarrow> f64_nan)"

definition native_out :: "nat \<Rightarrow> bool \<Rightarrow> u128 \<Rightarrow> sim_value" where
  "native_out w sg res =
     (let out = zeros w sg;
          val = (v_val out)[0 := ucast res];
          val = (if 1 < v_nwords w
                 then (let val = (if length val < 2 then vec_resize val 2 0 else val)
                       in val[1 := ucast (drop_bit 64 res)])
                 else val)
      in mask_top (out\<lparr>v_val := val\<rparr>))"

text \<open>\<open>Inl\<close> is an early return, \<open>Inr\<close> the 128-bit result.\<close>

definition signed_lane :: "bin_op \<Rightarrow> nat \<Rightarrow> u128 \<Rightarrow> u128 \<Rightarrow> (sim_value + u128) option" where
  "signed_lane op w a b =
     (case op of
        Add \<Rightarrow> Some (Inr (a + b))
      | Sub \<Rightarrow> Some (Inr (a - b))
      | Mul \<Rightarrow> Some (Inr (a * b))
      | Div \<Rightarrow> Some (if b = 0 then Inl (all_x w True) else Inr (i128_div a b))
      | Mod \<Rightarrow> Some (if b = 0 then Inl (all_x w True) else Inr (i128_rem a b))
      | Pow \<Rightarrow> Some (Inr (ipow_signed a b))
      | _ \<Rightarrow> None)"

definition unsigned_lane :: "bin_op \<Rightarrow> nat \<Rightarrow> u128 \<Rightarrow> u128 \<Rightarrow> (sim_value + u128) option" where
  "unsigned_lane op w a b =
     (case op of
        Add \<Rightarrow> Some (Inr (a + b))
      | Sub \<Rightarrow> Some (Inr (a - b))
      | Mul \<Rightarrow> Some (Inr (a * b))
      | Div \<Rightarrow> Some (if b = 0 then Inl (all_x w False) else Inr (a div b))
      | Mod \<Rightarrow> Some (if b = 0 then Inl (all_x w False) else Inr (a mod b))
      | Pow \<Rightarrow> Some (Inr (upow_loop 1 a b))
      | _ \<Rightarrow> None)"

definition arith :: "bin_op \<Rightarrow> sim_value \<Rightarrow> sim_value \<Rightarrow> sim_value option" where
  "arith op l r =
     (if v_real l \<or> v_real r
      then Some (from_f64 (real_arith op (to_f64_or_0 l) (to_f64_or_0 r)))
      else
        (let w = max (max (v_width l) (v_width r)) 1;
             is_pow = (op = Pow);
             both_signed = (v_signed l \<and> v_signed r);
             sg = (if is_pow
                   then \<lparr>as_lhs = v_signed l, as_rhs = v_signed r, as_res = v_signed l\<rparr>
                   else \<lparr>as_lhs = both_signed, as_rhs = both_signed, as_res = both_signed\<rparr>);
             exp_is_neg = (is_pow \<and> v_signed r \<and> 0 < v_width r \<and> fst (get_vu r (v_width r - 1)) = 1);
             use_signed = (if is_pow then v_signed l \<or> exp_is_neg else both_signed)
         in if has_xz l \<or> has_xz r then Some (all_x w (as_res sg))
            else if use_signed \<and> 64 < w \<or> \<not> use_signed \<and> 128 < w then arith_wide op l r w sg
            else
              Option.bind
                (if use_signed
                 then Option.bind (read_i128 l w (as_lhs sg)) (\<lambda>a.
                        Option.bind (read_i128 r w (as_rhs sg)) (\<lambda>b. signed_lane op w a b))
                 else Option.bind (to_u128 l) (\<lambda>a.
                        Option.bind (to_u128 r) (\<lambda>b. unsigned_lane op w a b)))
                (\<lambda>res. case res of Inl v \<Rightarrow> Some v | Inr x \<Rightarrow> Some (native_out w (as_res sg) x))))"

end
