(* ===== verification/ArithWide.thy ===== *)
theory ArithWide
  imports OpsArith
begin

text \<open>
  The multi-word lane \<open>arith_wide\<close> computes the integer operation on the operands' integers
  modulo \<open>2 ^ w\<close>: the limb kernels on the two's-complement images of the operands, with the
  sign corrections of division and power.
\<close>

section \<open>The integer operation\<close>

definition int_op :: "bin_op \<Rightarrow> int \<Rightarrow> int \<Rightarrow> int" where
  "int_op op x y =
     (case op of
        Add \<Rightarrow> x + y | Sub \<Rightarrow> x - y | Mul \<Rightarrow> x * y
      | Div \<Rightarrow> x sdiv y | Mod \<Rightarrow> x smod y
      | Pow \<Rightarrow> (if 0 \<le> y then x ^ nat y else if x = 1 then 1
                else if x = - 1 then (if even y then 1 else - 1) else 0)
      | _ \<Rightarrow> 0)"

text \<open>What a result value \<open>v\<close> must be: \<open>w\<close> wide, 2-state, holding \<open>k\<close> modulo \<open>2 ^ w\<close>.\<close>

definition holds_int :: "sim_value \<Rightarrow> nat \<Rightarrow> bool \<Rightarrow> int \<Rightarrow> bool" where
  "holds_int v w s k \<longleftrightarrow> vec_ok v \<and> v_width v = w \<and> v_signed v = s \<and> \<not> v_str v \<and>
     \<not> has_xz v \<and> int (vnum v) = k mod 2 ^ w"

section \<open>Planes of results and operands\<close>

lemma holds_masked:
  assumes "length words = nw1 w" and "int (wval words) mod 2 ^ w = k mod 2 ^ w"
  shows "holds_int (mask_top ((zeros w s)\<lparr>v_val := words\<rparr>)) w s k"
proof -
  let ?v = "mask_top ((zeros w s)\<lparr>v_val := words\<rparr>)"
  have u: "\<not> pbit (v_unk ?v) i" for i by (simp add: mask_top_def pbit_mask_plane)
  have "v_val ?v = mask_plane w words" by (simp add: mask_top_def)
  then have "int (vnum ?v) = int (wval words) mod 2 ^ w"
    by (simp add: vnum_def wval_mask_plane [OF assms(1)] zmod_int)
  then show ?thesis using assms(2) u by (simp add: holds_int_def has_xz_iff)
qed

lemma copy_whole: "length words = length z \<Longrightarrow> copy_prefix z words (min (length z) (length words)) = words"
  by (simp add: copy_prefix_def)

lemma wval_map_wget: "length ws \<le> n \<Longrightarrow> wval (map (wget ws) [0..<n]) = wval ws"
proof (rule bit_eqI)
  fix i assume "length ws \<le> n"
  then have "pbit (map (wget ws) [0..<n]) i = pbit ws i"
    by (auto simp: pbit_def wget_out)
  then show "bit (wval (map (wget ws) [0..<n])) i = bit (wval ws) i" by (simp add: bit_wval)
qed

lemma pint_neg:
  assumes "plane_ok w ws"
  shows "pint w s ws < 0 \<longleftrightarrow> s \<and> 0 < w \<and> pbit ws (w - 1)"
proof -
  have "int (wval ws) < 2 ^ w" using plane_ok_wval [OF assms] by (metis of_nat_less_iff of_nat_numeral of_nat_power)
  then show ?thesis by (auto simp: pint_def)
qed

lemma pint_abs_less:
  assumes "plane_ok w ws"
  shows "\<bar>pint w s ws\<bar> < 2 ^ w"
proof (cases "s \<and> 0 < w \<and> pbit ws (w - 1)")
  case True
  have "wval ws \<noteq> 0" using True by (metis bit_wval bit_0_eq bot_apply bot_bool_def)
  moreover have "int (wval ws) < 2 ^ w" using plane_ok_wval [OF assms] by (metis of_nat_less_iff of_nat_numeral of_nat_power)
  ultimately show ?thesis using True by (simp add: pint_def)
next
  case False
  have "int (wval ws) < 2 ^ w" using plane_ok_wval [OF assms] by (metis of_nat_less_iff of_nat_numeral of_nat_power)
  then show ?thesis using False by (auto simp: pint_def)
qed

lemma vint_in_abs_less:
  assumes "val_ok v" and "v_width v \<le> w"
  shows "\<bar>vint_in c v\<bar> < 2 ^ w"
proof -
  have "\<bar>vint_in c v\<bar> < 2 ^ v_width v"
    using assms(1) by (simp add: vint_in_def pint_abs_less val_ok_def vec_ok_def)
  also have "\<dots> \<le> (2 :: int) ^ w" using assms(2) by (intro power_increasing) simp_all
  finally show ?thesis .
qed

lemma nw1_mono: "a \<le> b \<Longrightarrow> nw1 a \<le> nw1 b"
  by (simp add: nw1_def v_nwords_def div_le_mono max_def)

text \<open>The words an operand enters the wide lane with, and its sign bit there.\<close>

definition wide_words :: "sim_value \<Rightarrow> nat \<Rightarrow> bool \<Rightarrow> u64 list" where
  "wide_words v w c = map (wget (v_val (resize_keep_sign v w c))) [0..<nw1 w]"

lemma wide_words_num:
  assumes "val_ok v" and "v_width v \<le> w"
  shows "length (wide_words v w c) = nw1 w" and "int (wval (wide_words v w c)) = vint_in c v mod 2 ^ w"
proof -
  have "length (v_val (resize_keep_sign v w c)) \<le> nw1 w"
  proof (cases "v_str v")
    case True
    then show ?thesis using assms nw1_mono [OF assms(2)] by (simp add: val_ok_def vec_ok_def plane_ok_iff)
  next
    case False
    then show ?thesis using assms vec_ok_rks [of v w c] rks_fields [of v w c]
      by (simp add: val_ok_def vec_ok_def plane_ok_iff)
  qed
  then show "int (wval (wide_words v w c)) = vint_in c v mod 2 ^ w"
    using vnum_rks [OF assms, of c] by (simp add: wide_words_def wval_map_wget vnum_def)
qed (simp add: wide_words_def)

lemma wide_sign:
  assumes "val_ok v" and "v_width v \<le> w" and "0 < w" and "c \<longrightarrow> v_signed v"
  shows "(c \<and> fst (get_vu (resize_keep_sign v w c) (w - 1)) = 1) \<longleftrightarrow> vint_in c v < 0"
proof -
  have p: "plane_ok (v_width v) (v_val v)" using assms by (simp add: val_ok_def vec_ok_def)
  have "fst (get_vu (resize_keep_sign v w c) (w - 1)) = 1
      \<longleftrightarrow> sx (pbit (v_val v)) (v_width v) (v_signed v \<and> c) (w - 1)"
    using assms(3) by (simp add: get_vu_eq pair1_def rks_planes(1) [OF assms(1,2)])
  moreover have "w - 1 < v_width v \<Longrightarrow> w - 1 = v_width v - 1" using assms(2,3) by simp
  ultimately show ?thesis
    using assms(3,4) by (auto simp: vint_in_def pint_neg [OF p] sx_def)
qed

lemma int_neg_mask:
  assumes "w \<le> 64 * length a"
  shows "int (wval (mw_mask (mw_neg a) w)) = (- int (wval a)) mod 2 ^ w"
proof -
  have b: "wval a < 2 ^ (64 * length a)" by (rule wval_bound)
  have "wval (mw_mask (mw_neg a) w) = (2 ^ (64 * length a) - wval a) mod 2 ^ w"
    using assms by (simp add: wval_mw_mask wval_mw_neg mod_mod_cancel le_imp_power_dvd)
  then have "int (wval (mw_mask (mw_neg a) w)) = (2 ^ (64 * length a) - int (wval a)) mod 2 ^ w"
    using b by (simp add: zmod_int of_nat_diff less_imp_le)
  also have "\<dots> = (- int (wval a)) mod 2 ^ w"
  proof -
    have "(2 :: int) ^ w dvd 2 ^ (64 * length a)" using assms by (rule le_imp_power_dvd)
    then show ?thesis by (simp add: mod_eq_dvd_iff)
  qed
  finally show ?thesis .
qed

lemma length_nw1: "length (mw_mask a w) = nw1 w"
  by (simp add: nw1_def v_nwords_eq)

text \<open>The magnitude an operand divides with.\<close>

lemma wide_magnitude:
  assumes "length a = nw1 w" and "int (wval a) = x mod 2 ^ w" and "\<bar>x\<bar> < 2 ^ w"
  shows "wval (if x < 0 then mw_mask (mw_neg a) w else a) = nat \<bar>x\<bar>"
proof (cases "x < 0")
  case True
  have "int (wval (mw_mask (mw_neg a) w)) = (- (x mod 2 ^ w)) mod 2 ^ w"
    using assms nw1_bounds(2) [of w] by (simp add: int_neg_mask)
  also have "\<dots> = (- x) mod 2 ^ w" by (simp add: mod_minus_eq)
  also have "\<dots> = - x" using True assms(3) by simp
  finally show ?thesis using True by simp
next
  case False
  then show ?thesis using assms by simp
qed

lemma wide_negate:
  assumes "length q = nw1 w" and "int (wval q) = k"
  shows "int (wval (mw_mask (if b then mw_neg q else q) w)) = (if b then - k else k) mod 2 ^ w"
proof (cases b)
  case True
  then show ?thesis using assms nw1_bounds(2) [of w] by (simp add: int_neg_mask)
next
  case False
  then show ?thesis using assms by (simp add: wval_mw_mask zmod_int)
qed

section \<open>The lane\<close>

definition wide_finish :: "nat \<Rightarrow> bool \<Rightarrow> u64 list \<Rightarrow> sim_value" where
  "wide_finish w s words = mask_top ((zeros w s)\<lparr>v_val := copy_prefix (v_val (zeros w s)) words (min (nw1 w) (length words))\<rparr>)"

lemma wide_finish_holds:
  assumes "length words = nw1 w" and "int (wval words) mod 2 ^ w = k mod 2 ^ w"
  shows "holds_int (wide_finish w s words) w s k"
  using holds_masked [OF assms] copy_whole [of words "replicate (nw1 w) 0"] assms(1)
  by (simp add: wide_finish_def)

lemma wide_div_mod:
  assumes "length a = nw1 w" and "int (wval a) = x mod 2 ^ w" and "\<bar>x\<bar> < 2 ^ w"
    and "length b = nw1 w" and "int (wval b) = y mod 2 ^ w" and "\<bar>y\<bar> < 2 ^ w" and "y \<noteq> 0"
  obtains q r where
    "mw_divmod (if x < 0 then mw_mask (mw_neg a) w else a) (if y < 0 then mw_mask (mw_neg b) w else b) = Some (q, r)"
    "length q = nw1 w" "length r = nw1 w"
    "int (wval (mw_mask (if (x < 0) \<noteq> (y < 0) then mw_neg q else q) w)) = (x sdiv y) mod 2 ^ w"
    "int (wval (mw_mask (if x < 0 then mw_neg r else r) w)) = (x smod y) mod 2 ^ w"
proof -
  let ?a = "if x < 0 then mw_mask (mw_neg a) w else a" and ?b = "if y < 0 then mw_mask (mw_neg b) w else b"
  have v: "wval ?a = nat \<bar>x\<bar>" "wval ?b = nat \<bar>y\<bar>"
    using wide_magnitude [OF assms(1-3)] wide_magnitude [OF assms(4-6)] by simp_all
  have l: "length ?a = nw1 w" "length ?b = nw1 w" using assms(1,4) by (simp_all add: length_nw1 del: length_mw_mask)
  have ne: "?a \<noteq> []" using l(1) nw1_bounds(1) [of w] by (metis length_0_conv less_numeral_extra(3))
  have bnz: "wval ?b \<noteq> 0" unfolding v using assms(7) by simp
  obtain q r where d: "mw_divmod ?a ?b = Some (q, r)" "length q = length ?a" "length r = length ?a"
    "wval q = wval ?a div wval ?b" "wval r = wval ?a mod wval ?b"
    using mw_divmod_correct [OF ne bnz] l by (metis order_refl)
  have q: "int (wval q) = \<bar>x\<bar> div \<bar>y\<bar>" and r: "int (wval r) = \<bar>x\<bar> mod \<bar>y\<bar>"
    unfolding d(4,5) v by (simp_all add: zdiv_int zmod_int)
  have lq: "length q = nw1 w" "length r = nw1 w" using d l by simp_all
  have "x sdiv y = (if (x < 0) \<noteq> (y < 0) then - (\<bar>x\<bar> div \<bar>y\<bar>) else \<bar>x\<bar> div \<bar>y\<bar>)"
    using assms(7) by (cases "x = 0") (auto simp: signed_divide_int_def sgn_if)
  moreover have "x smod y = (if x < 0 then - (\<bar>x\<bar> mod \<bar>y\<bar>) else \<bar>x\<bar> mod \<bar>y\<bar>)"
    by (cases "x = 0") (auto simp: signed_modulo_int_def sgn_if)
  ultimately show ?thesis
    using that [OF d(1) lq] wide_negate [OF lq(1) q] wide_negate [OF lq(2) r] by simp
qed

lemma mw_is_zero_int:
  assumes "int (wval b) = y mod 2 ^ w" and "\<bar>y\<bar> < 2 ^ w"
  shows "mw_is_zero b \<longleftrightarrow> y = 0"
proof -
  have "mw_is_zero b \<longleftrightarrow> 2 ^ w dvd y" by (simp add: mw_is_zero_iff dvd_eq_mod_eq_0 flip: assms(1))
  also have "\<dots> \<longleftrightarrow> y = 0" using assms(2) dvd_imp_le_int [of y "2 ^ w"] by auto
  finally show ?thesis .
qed

lemma vint_in_signed_range:
  assumes "val_ok v" and "v_width v \<le> w" and "0 < w"
  shows "- (2 ^ (w - 1)) \<le> vint_in c v" and "c \<Longrightarrow> v_signed v \<Longrightarrow> vint_in c v < 2 ^ (w - 1)"
proof -
  have p: "plane_ok (v_width v) (v_val v)" using assms by (simp add: val_ok_def vec_ok_def)
  have m: "(2 :: int) ^ (v_width v - 1) \<le> 2 ^ (w - 1)" using assms(2) by (intro power_increasing) simp_all
  have z: "v_width v = 0 \<Longrightarrow> wval (v_val v) = 0" using plane_ok_wval [OF p] by simp
  show "- (2 ^ (w - 1)) \<le> vint_in c v"
  proof (cases "v_signed v \<and> c \<and> 0 < v_width v")
    case True
    then have "vint_in c v = pint (v_width v) True (v_val v)" by (simp add: vint_in_def)
    then show ?thesis using pint_range [OF p] m True by linarith
  next
    case False
    have "- (2 ^ (w - 1)) \<le> (0 :: int)" by simp
    also have "0 \<le> vint_in c v" using False by (auto simp: vint_in_def pint_def)
    finally show ?thesis .
  qed
  show "vint_in c v < 2 ^ (w - 1)" if "c" "v_signed v"
  proof (cases "0 < v_width v")
    case True
    have "vint_in c v = pint (v_width v) True (v_val v)" using that by (simp add: vint_in_def)
    then show ?thesis using pint_range [OF p True] m by linarith
  next
    case False
    then show ?thesis using z by (simp add: vint_in_def pint_def)
  qed
qed

lemma mw_one_nw1: "mw_one (nw1 w) = Some ((replicate (nw1 w) 0)[0 := 1])"
  using nw1_bounds(1) [of w] by (simp add: mw_one_def)

lemma wval_one: "wval ((replicate (nw1 w) 0)[0 := 1]) = 1"
  using wval_mw_one [OF mw_one_nw1] by simp

lemma words_eq_num: "length a = length b \<Longrightarrow> a = b \<longleftrightarrow> int (wval a) = int (wval b)"
  using wval_inj by auto

lemma residue_eq:
  fixes x k :: int
  assumes "x mod 2 ^ w = k mod 2 ^ w" and "\<bar>x - k\<bar> < 2 ^ w"
  shows "x = k"
proof -
  have "2 ^ w dvd x - k" using assms(1) by (simp add: mod_eq_dvd_iff)
  then show ?thesis using assms(2) dvd_imp_le_int [of "x - k" "2 ^ w"] by auto
qed

lemma wide_neg_power:
  assumes "1 < w" and "length a = nw1 w" and "int (wval a) = x mod 2 ^ w" and "\<bar>x\<bar> < 2 ^ w"
    and "- (2 ^ (w - 1)) \<le> x" and "c \<Longrightarrow> x < 2 ^ (w - 1)" and "\<not> c \<Longrightarrow> 0 \<le> x"
    and one: "one = (replicate (nw1 w) 0)[0 := 1]"
  shows "a = one \<longleftrightarrow> x = 1"
    and "c \<and> a = mw_mask (mw_neg one) w \<longleftrightarrow> x = - 1"
    and "int (wval (mw_mask (mw_neg one) w)) = (- 1) mod 2 ^ w"
proof -
  have w2: "(2 :: int) \<le> 2 ^ (w - 1)" and p: "(2 :: int) ^ w = 2 * 2 ^ (w - 1)"
    using assms(1) by (simp_all add: self_le_power flip: power_Suc)
  have l: "length one = nw1 w" and v: "wval one = 1" by (simp_all add: one wval_one)
  show m: "int (wval (mw_mask (mw_neg one) w)) = (- 1) mod 2 ^ w"
    using int_neg_mask [of w one] nw1_bounds(2) [of w] l v by simp
  have "a = one \<longleftrightarrow> x mod 2 ^ w = 1 mod 2 ^ w"
    using w2 p assms(2,3) l v by (simp add: words_eq_num)
  also have "\<dots> \<longleftrightarrow> x = 1"
    using residue_eq [of x w 1] assms(4,5) w2 p by auto
  finally show "a = one \<longleftrightarrow> x = 1" .
  have "a = mw_mask (mw_neg one) w \<longleftrightarrow> x mod 2 ^ w = (- 1) mod 2 ^ w"
    using assms(2,3) m by (simp add: words_eq_num length_nw1 del: length_mw_mask)
  moreover have "x mod 2 ^ w = (- 1) mod 2 ^ w \<Longrightarrow> c \<Longrightarrow> x = - 1"
    using residue_eq [of x w "- 1"] assms(5,6) w2 p by auto
  ultimately show "c \<and> a = mw_mask (mw_neg one) w \<longleftrightarrow> x = - 1" using assms(7) by (cases c) auto
qed

definition arith_ops :: "bin_op set" where
  "arith_ops = {Add, Sub, Mul, Div, Mod, Pow}"

text \<open>The result is unknown: division by zero, or 0 to a negative power.\<close>

definition no_result :: "bin_op \<Rightarrow> int \<Rightarrow> int \<Rightarrow> bool" where
  "no_result op x y \<longleftrightarrow> (op = Div \<or> op = Mod) \<and> y = 0 \<or> op = Pow \<and> x = 0 \<and> y < 0"

lemma arith_wide_unfold:
  assumes "val_ok l" and "val_ok r" and "v_width l \<le> w" and "v_width r \<le> w" and "0 < w"
    and "as_lhs sg \<longrightarrow> v_signed l" and "as_rhs sg \<longrightarrow> v_signed r"
    and "w \<le> WIDE_ARITH_CAP \<or> op = Add \<or> op = Sub"
  shows "arith_wide op l r w sg =
    (let a = wide_words l w (as_lhs sg); b = wide_words r w (as_rhs sg);
         x = vint_in (as_lhs sg) l; y = vint_in (as_rhs sg) r;
         fin = wide_finish w (as_res sg)
     in case op of
          Add \<Rightarrow> Some (fin (mw_mask (mw_add a b) w))
        | Sub \<Rightarrow> Some (fin (mw_mask (mw_add a (mw_neg b)) w))
        | Mul \<Rightarrow> Some (fin (mw_mask (mw_mul a b (nw1 w)) w))
        | Div \<Rightarrow> if mw_is_zero b then Some (all_x w (as_res sg))
            else map_option (\<lambda>(q, rem). fin (mw_mask (if (x < 0) \<noteq> (y < 0) then mw_neg q else q) w))
              (mw_divmod (if x < 0 then mw_mask (mw_neg a) w else a) (if y < 0 then mw_mask (mw_neg b) w else b))
        | Mod \<Rightarrow> if mw_is_zero b then Some (all_x w (as_res sg))
            else map_option (\<lambda>(q, rem). fin (mw_mask (if x < 0 then mw_neg rem else rem) w))
              (mw_divmod (if x < 0 then mw_mask (mw_neg a) w else a) (if y < 0 then mw_mask (mw_neg b) w else b))
        | Pow \<Rightarrow> if y < 0 then
              (let one = (replicate (nw1 w) 0)[0 := 1]; minus_one = mw_mask (mw_neg one) w
               in if a = one then Some (fin one)
                  else if as_lhs sg \<and> a = minus_one then Some (fin (if (b ! 0) AND 1 = 0 then one else minus_one))
                  else if mw_is_zero a then Some (all_x w (as_res sg))
                  else Some (fin (replicate (nw1 w) 0)))
            else map_option fin (mw_pow a b w)
        | _ \<Rightarrow> None)"
proof -
  have cap: "\<not> (WIDE_ARITH_CAP < w \<and> (op = Mul \<or> op = Div \<or> op = Mod \<or> op = Pow))"
    using assms(8) by auto
  note s = wide_sign [OF assms(1,3,5,6)] wide_sign [OF assms(2,4,5,7)]
  show ?thesis
    unfolding arith_wide_def Let_def s wide_words_def [symmetric] wide_finish_def [symmetric]
    using cap by (simp only: if_False mw_one_nw1 Option.bind.simps(2))
qed

lemma mw_add_length: "length (mw_mask (f :: u64 list) w) = nw1 w"
  by (rule length_nw1)

lemma wide_mod_eqs:
  fixes A B x y :: int
  assumes "A = x mod 2 ^ w" and "B = y mod 2 ^ w"
  shows "(A + B) mod 2 ^ w = (x + y) mod 2 ^ w" and "(A - B) mod 2 ^ w = (x - y) mod 2 ^ w"
    and "(A * B) mod 2 ^ w = (x * y) mod 2 ^ w" and "A ^ n mod 2 ^ w = x ^ n mod 2 ^ w"
  unfolding assms by (simp_all add: mod_add_eq mod_diff_eq mod_mult_eq power_mod)

lemma wide_kernels:
  assumes "length a = nw1 w" and "length b = nw1 w"
  shows "int (wval (mw_mask (mw_add a b) w)) = (int (wval a) + int (wval b)) mod 2 ^ w"
    and "int (wval (mw_mask (mw_add a (mw_neg b)) w)) = (int (wval a) - int (wval b)) mod 2 ^ w"
    and "int (wval (mw_mask (mw_mul a b (nw1 w)) w)) = (int (wval a) * int (wval b)) mod 2 ^ w"
proof -
  have w: "w \<le> 64 * nw1 w" by (rule nw1_bounds)
  have d: "(2 :: nat) ^ w dvd 2 ^ (64 * nw1 w)" using w by (rule le_imp_power_dvd)
  show "int (wval (mw_mask (mw_add a b) w)) = (int (wval a) + int (wval b)) mod 2 ^ w"
    using assms d by (simp add: wval_mw_mask wval_mw_add mod_mod_cancel zmod_int)
  have "int (wval (mw_neg b) mod 2 ^ w) = (- int (wval b)) mod 2 ^ w"
    using int_neg_mask [of w b] assms w by (simp add: wval_mw_mask)
  then have n: "int (wval (mw_neg b)) mod 2 ^ w = (- int (wval b)) mod 2 ^ w" by (simp add: zmod_int)
  have "int (wval (mw_mask (mw_add a (mw_neg b)) w)) = (int (wval a) + int (wval (mw_neg b))) mod 2 ^ w"
    using assms d by (simp add: wval_mw_mask wval_mw_add mod_mod_cancel zmod_int)
  also have "\<dots> = (int (wval a) + - int (wval b)) mod 2 ^ w"
    using n by (metis mod_add_right_eq)
  finally show "int (wval (mw_mask (mw_add a (mw_neg b)) w)) = (int (wval a) - int (wval b)) mod 2 ^ w"
    by simp
  show "int (wval (mw_mask (mw_mul a b (nw1 w)) w)) = (int (wval a) * int (wval b)) mod 2 ^ w"
    using d by (simp add: wval_mw_mask wval_mw_mul mod_mod_cancel zmod_int)
qed

lemma parity_mod: "0 < w \<Longrightarrow> even (y mod 2 ^ w) = even (y :: int)"
  by (simp add: dvd_mod_iff)

lemma first_word_even:
  assumes "int (wval b) = y mod 2 ^ w" and "0 < w" and "b \<noteq> []"
  shows "(b ! 0) AND 1 = 0 \<longleftrightarrow> even y"
proof -
  have "(b ! 0) AND 1 = 0 \<longleftrightarrow> \<not> pbit b 0"
    using shift_and_1 [of 0 "b ! 0"] assms(3) by (simp add: pbit_def wget_def)
  also have "\<dots> \<longleftrightarrow> even (wval b)" by (simp add: bit_0 flip: bit_wval)
  also have "\<dots> \<longleftrightarrow> even (int (wval b))" by simp
  also have "\<dots> \<longleftrightarrow> even y" unfolding assms(1) using assms(2) by (rule parity_mod)
  finally show ?thesis .
qed

text \<open>The lane on an operator of the ring, on division and on power.\<close>

lemma arith_wide_holds:
  assumes "val_ok l" and "val_ok r" and "v_width l \<le> w" and "v_width r \<le> w" and "1 < w"
    and "as_lhs sg \<longrightarrow> v_signed l" and "as_rhs sg \<longrightarrow> v_signed r"
    and "op \<in> arith_ops" and "w \<le> WIDE_ARITH_CAP \<or> op = Add \<or> op = Sub"
  defines "x \<equiv> vint_in (as_lhs sg) l" and "y \<equiv> vint_in (as_rhs sg) r"
  shows "if no_result op x y then arith_wide op l r w sg = Some (all_x w (as_res sg))
         else \<exists>v. arith_wide op l r w sg = Some v \<and> holds_int v w (as_res sg) (int_op op x y)"
proof -
  define a b where "a = wide_words l w (as_lhs sg)" and "b = wide_words r w (as_rhs sg)"
  have w0: "0 < w" using assms(5) by simp
  note an = wide_words_num [OF assms(1,3), of "as_lhs sg", folded a_def x_def]
    and bn = wide_words_num [OF assms(2,4), of "as_rhs sg", folded b_def y_def]
  have xb: "\<bar>x\<bar> < 2 ^ w" and yb: "\<bar>y\<bar> < 2 ^ w"
    using vint_in_abs_less [OF assms(1,3)] vint_in_abs_less [OF assms(2,4)] by (simp_all add: x_def y_def)
  note unf = arith_wide_unfold [OF assms(1-4) w0 assms(6,7,9), unfolded Let_def,
      folded a_def b_def x_def y_def]
  note eqs = wide_mod_eqs [OF an(2) bn(2)] and ker = wide_kernels [OF an(1) bn(1)]
  note fin = wide_finish_holds [OF length_nw1]
  have b0: "b \<noteq> []" using bn(1) nw1_bounds(1) [of w] by auto
  consider "op = Add" | "op = Sub" | "op = Mul" | "op = Div \<or> op = Mod" | "op = Pow"
    using assms(8) by (auto simp: arith_ops_def)
  then show ?thesis
  proof cases
    case 1
    then show ?thesis
      using fin [of "mw_add a b" w "x + y"] unf by (simp add: no_result_def int_op_def ker(1) eqs(1))
  next
    case 2
    then show ?thesis
      using fin [of "mw_add a (mw_neg b)" w "x - y"] unf by (simp add: no_result_def int_op_def ker(2) eqs(2))
  next
    case 3
    then show ?thesis
      using fin [of "mw_mul a b (nw1 w)" w "x * y"] unf by (simp add: no_result_def int_op_def ker(3) eqs(3))
  next
    case 4
    show ?thesis
    proof (cases "y = 0")
      case True
      then show ?thesis using 4 unf mw_is_zero_int [OF bn(2) yb] by (auto simp: no_result_def)
    next
      case False
      obtain q rm where d: "mw_divmod (if x < 0 then mw_mask (mw_neg a) w else a)
          (if y < 0 then mw_mask (mw_neg b) w else b) = Some (q, rm)"
        "int (wval (mw_mask (if (x < 0) \<noteq> (y < 0) then mw_neg q else q) w)) = (x sdiv y) mod 2 ^ w"
        "int (wval (mw_mask (if x < 0 then mw_neg rm else rm) w)) = (x smod y) mod 2 ^ w"
        using wide_div_mod [OF an xb bn yb False] by metis
      have z: "\<not> mw_is_zero b" using False mw_is_zero_int [OF bn(2) yb] by simp
      show ?thesis
        using 4 unf z False d(1)
          fin [of "if (x < 0) \<noteq> (y < 0) then mw_neg q else q" w "x sdiv y" "as_res sg", unfolded d(2)]
          fin [of "if x < 0 then mw_neg rm else rm" w "x smod y" "as_res sg", unfolded d(3)]
        by (elim disjE) (simp_all add: no_result_def int_op_def)
    qed
  next
    case 5
    show ?thesis
    proof (cases "y < 0")
      case True
      define one where "one = (replicate (nw1 w) (0 :: u64))[0 := 1]"
      have c: "as_lhs sg \<Longrightarrow> x < 2 ^ (w - 1)" "\<not> as_lhs sg \<Longrightarrow> 0 \<le> x" "- (2 ^ (w - 1)) \<le> x"
        using vint_in_signed_range [OF assms(1,3) w0] assms(6) by (auto simp: x_def vint_in_def)
      note np0 = wide_neg_power [where c = "as_lhs sg", OF assms(5) an xb c(3) _ _ one_def]
      have np: "a = one \<longleftrightarrow> x = 1" "as_lhs sg \<and> a = mw_mask (mw_neg one) w \<longleftrightarrow> x = - 1"
        "int (wval (mw_mask (mw_neg one) w)) = (- 1) mod 2 ^ w"
        by (rule np0; fact c)+
      have l: "length one = nw1 w" "int (wval one) = 1" by (simp_all add: one_def wval_one)
      have zero: "mw_is_zero a \<longleftrightarrow> x = 0" by (rule mw_is_zero_int [OF an(2) xb])
      have e: "(b ! 0) AND 1 = 0 \<longleftrightarrow> even y" by (rule first_word_even [OF bn(2) w0 b0])
      have h1: "holds_int (wide_finish w (as_res sg) one) w (as_res sg) 1"
        using l by (intro wide_finish_holds) simp_all
      have h2: "holds_int (wide_finish w (as_res sg) (mw_mask (mw_neg one) w)) w (as_res sg) (- 1)"
        using np(3) by (intro wide_finish_holds) (simp_all only: length_nw1 mod_mod_trivial)
      have h3: "holds_int (wide_finish w (as_res sg) (replicate (nw1 w) 0)) w (as_res sg) 0"
        by (intro wide_finish_holds) simp_all
      have r: "arith_wide op l r w sg =
        (if x = 1 then Some (wide_finish w (as_res sg) one)
         else if x = - 1 then Some (wide_finish w (as_res sg) (if even y then one else mw_mask (mw_neg one) w))
         else if x = 0 then Some (all_x w (as_res sg)) else Some (wide_finish w (as_res sg) (replicate (nw1 w) 0)))"
        using unf 5 True unfolding one_def [symmetric] np(1) np(2) zero e by simp
      show ?thesis using r h1 h2 h3 5 True by (auto simp: no_result_def int_op_def)
    next
      case False
      have len: "length a = mw_nwords w" using an(1) w0 by (simp add: nw1_v_nwords v_nwords_eq)
      obtain p where p: "mw_pow a b w = Some p" "length p = length a" "wval p = wval a ^ wval b mod 2 ^ w"
        using mw_pow_correct [OF w0 len] by metis
      have "int (wval b) = y" using bn(2) False yb by simp
      then have y: "nat y = wval b" by simp
      have "int (wval p) mod 2 ^ w = int (wval a) ^ wval b mod 2 ^ w" by (simp add: p(3) zmod_int)
      also have "\<dots> = x ^ nat y mod 2 ^ w" by (simp only: eqs(4) y)
      finally have "holds_int (wide_finish w (as_res sg) p) w (as_res sg) (x ^ nat y)"
        using p(2) an(1) by (intro wide_finish_holds) simp_all
      then show ?thesis using unf 5 False p(1) by (simp add: no_result_def int_op_def)
    qed
  qed
qed

end
