(* ===== verification/ArithCorrect.thy ===== *)
theory ArithCorrect
  imports ArithWide
begin

text \<open>
  \<open>arith\<close> on its three lanes: the native 128-bit lanes and the multi-word lane compute the same
  integer operation modulo \<open>2 ^ w\<close>, an unknown operand bit makes the result all-x, and a real
  operand promotes the other one.
\<close>

section \<open>The native result\<close>

lemma wval_one_word: "wval [x] = unat x"
  by simp

lemma unat_ucast_low: "unat (ucast (res :: u128) :: u64) = unat res mod 2 ^ 64"
  by (simp add: unsigned_ucast_eq take_bit_eq_mod)

lemma unat_ucast_high: "unat (ucast (drop_bit 64 (res :: u128)) :: u64) = unat res div 2 ^ 64"
proof -
  have "unat res < 2 ^ 128" using unsigned_less [of res] by simp
  then have "unat res div 2 ^ 64 < 2 ^ 64" by (simp add: less_mult_imp_div_less)
  then show ?thesis by (simp add: unsigned_ucast_eq take_bit_eq_mod unat_drop)
qed

lemma nw1_small: "0 < w \<Longrightarrow> w \<le> 64 \<Longrightarrow> v_nwords w = 1" and nw1_two: "64 < w \<Longrightarrow> w \<le> 128 \<Longrightarrow> v_nwords w = 2"
  unfolding v_nwords_def by (intro div_nat_eqI; simp)+

lemma native_out_holds:
  assumes "0 < w" and "w \<le> 128" and "int (unat res) mod 2 ^ w = k mod 2 ^ w"
  shows "holds_int (native_out w s res) w s k"
proof (cases "w \<le> 64")
  case True
  have n: "nw1 w = 1" "v_nwords w = 1" using nw1_small [OF assms(1) True] assms(1) by (simp_all add: nw1_v_nwords)
  have d: "(2 :: int) ^ w dvd 2 ^ 64" using True by (rule le_imp_power_dvd)
  have "int (wval [ucast res :: u64]) = int (unat res) mod 2 ^ 64"
    by (simp only: wval_one_word unat_ucast_low zmod_int of_nat_power of_nat_numeral)
  then have "int (wval [ucast res :: u64]) mod 2 ^ w = k mod 2 ^ w"
    by (simp only: mod_mod_cancel [OF d] assms(3))
  then have "holds_int (mask_top ((zeros w s)\<lparr>v_val := [ucast res]\<rparr>)) w s k"
    by (intro holds_masked) (simp_all add: n)
  then show ?thesis by (simp add: native_out_def n Let_def)
next
  case False
  then have n: "nw1 w = 2" "v_nwords w = 2" using nw1_two [of w] assms(2) by (simp_all add: nw1_v_nwords)
  have "wval [ucast res :: u64, ucast (drop_bit 64 res)] = unat res mod 2 ^ 64 + 2 ^ 64 * (unat res div 2 ^ 64)"
    by (simp only: wval.simps unat_ucast_low [of res] unat_ucast_high mult_0_right add_0_right)
  then have "wval [ucast res :: u64, ucast (drop_bit 64 res)] = unat res" by (simp only: mod_mult_div_eq)
  then have "holds_int (mask_top ((zeros w s)\<lparr>v_val := [ucast res, ucast (drop_bit 64 res)]\<rparr>)) w s k"
    using assms(3) by (intro holds_masked) (simp_all only: n, simp)
  moreover have "replicate 2 (0 :: u64) = [0, 0]" by (simp add: numeral_2_eq_2)
  ultimately show ?thesis by (simp add: native_out_def n Let_def)
qed

lemma native_out_int:
  assumes "0 < w" and "w \<le> 128"
  shows "holds_int (native_out w s (word_of_int k)) w s k"
proof -
  have d: "(2 :: int) ^ w dvd 2 ^ 128" using assms(2) by (rule le_imp_power_dvd)
  have "int (unat (word_of_int k :: u128)) = k mod 2 ^ 128" by (simp add: unsigned_of_int take_bit_eq_mod)
  then show ?thesis by (intro native_out_holds assms) (simp only: mod_mod_cancel [OF d])
qed

section \<open>The operands of the native lanes\<close>

lemma xz_free_rks: "val_ok v \<Longrightarrow> v_width v \<le> w \<Longrightarrow> \<not> has_xz v \<Longrightarrow> \<not> has_xz (resize_keep_sign v w c)"
  by (simp add: has_xz_rks)

lemma vint_rks:
  assumes "val_ok v" and "v_width v \<le> w" and "v_signed v"
  shows "vint (resize_keep_sign v w True) = vint v"
proof (cases "0 < v_width v")
  case True
  then show ?thesis using assms by (intro vint_rks_signed) (auto simp: val_ok_def)
next
  case False
  have p: "plane_ok (v_width v) (v_val v)" using assms by (simp add: val_ok_def vec_ok_def)
  then have z: "vint v = 0" using plane_ok_wval [OF p] False by (simp add: vint_def pint_def)
  then have "int (vnum (resize_keep_sign v w True)) = 0"
    using vnum_rks [OF assms(1,2), of True] by (simp add: vint_in_simps)
  then have "wval (v_val (resize_keep_sign v w True)) = 0" by (simp add: vnum_def)
  moreover from this have "\<not> pbit (v_val (resize_keep_sign v w True)) i" for i by (simp flip: bit_wval)
  ultimately show ?thesis using z by (simp add: vint_def pint_def)
qed

lemma read_i128_eq:
  assumes "val_ok v" and "\<not> has_xz v" and "v_width v \<le> w" and "w \<le> 64" and "c \<longrightarrow> v_signed v"
  shows "read_i128 v w c = Some (word_of_int (vint_in c v))"
proof (cases c)
  case True
  then have s: "v_signed v" "\<not> v_str v" using assms by (auto simp: val_ok_def)
  have ok: "vec_ok v" using assms(1) by (rule val_ok_vec_ok)
  have "to_i128_signed (resize_keep_sign v w True) = Some (word_of_int (vint (resize_keep_sign v w True)))"
    using assms ok s by (intro to_i128_signed_signed) (simp_all add: xz_free_rks)
  then show ?thesis using True s vint_rks [OF assms(1,3)] by (simp add: read_i128_def vint_in_simps)
next
  case False
  let ?r = "resize_keep_sign v w False"
  have ok: "vec_ok ?r" using assms by (simp add: val_ok_def)
  have n: "vnum v < 2 ^ v_width v" using assms by (intro vnum_bound val_ok_vec_ok)
  have n64: "vnum v < 2 ^ w" using n assms(3) by (meson less_le_trans one_le_numeral power_increasing)
  also have "\<dots> \<le> 2 ^ 128" using assms(4) by (intro power_increasing) simp_all
  finally have n128: "vnum v < 2 ^ 128" .
  have "int (vnum ?r) = int (vnum v) mod int (2 ^ w)"
    using vnum_rks [OF assms(1,3), of False] by (simp add: vint_in_simps)
  then have "vnum ?r = vnum v" using n64 by (simp flip: zmod_int)
  then show ?thesis using False assms n128 to_u128_eq [OF ok]
    by (simp add: read_i128_def vint_in_simps xz_free_rks)
qed

lemma to_u128_unsigned:
  assumes "val_ok v" and "\<not> has_xz v" and "v_width v \<le> 128"
  shows "to_u128 v = Some (word_of_nat (vnum v))" and "vnum v < 2 ^ 128"
proof -
  have "vnum v < 2 ^ v_width v" using assms by (intro vnum_bound val_ok_vec_ok)
  also have "\<dots> \<le> 2 ^ 128" using assms(3) by (intro power_increasing) simp_all
  finally show "vnum v < 2 ^ 128" .
  then show "to_u128 v = Some (word_of_nat (vnum v))"
    using to_u128_eq [OF val_ok_vec_ok [OF assms(1)]] assms(2) by simp
qed

lemma sint_word_of_int: "\<bar>k\<bar> < 2 ^ w \<Longrightarrow> w \<le> 64 \<Longrightarrow> sint (word_of_int k :: u128) = k"
proof -
  assume a: "\<bar>k\<bar> < 2 ^ w" "w \<le> 64"
  have "(2 :: int) ^ w \<le> 2 ^ 64" using a(2) by (intro power_increasing) simp_all
  then have k: "- (2 ^ 127) \<le> k" "k < 2 ^ 127" using a(1) by simp_all
  show ?thesis using k by (simp add: sint_sbintrunc' signed_take_bit_int_eq_self)
qed

section \<open>The native lanes\<close>

text \<open>The signed lane.  Its one divergence from the multi-word lane is 0 to a negative power.\<close>

lemma small_word_eq:
  assumes "\<bar>x\<bar> < 2 ^ w" and "w \<le> 64"
  shows "(word_of_int x :: u128) = 0 \<longleftrightarrow> x = 0" and "(word_of_int x :: u128) = 1 \<longleftrightarrow> x = 1"
    and "(word_of_int x :: u128) = - 1 \<longleftrightarrow> x = - 1"
proof -
  have s: "sint (word_of_int x :: u128) = x" by (rule sint_word_of_int [OF assms])
  show "(word_of_int x :: u128) = 0 \<longleftrightarrow> x = 0" using s by (metis sint_0 word_of_int_0)
  show "(word_of_int x :: u128) = 1 \<longleftrightarrow> x = 1" using s by (metis sint_word_of_int [of 1 64] abs_1 one_less_power less_exp order_refl of_int_1 one_less_numeral_iff semiring_norm(76) zero_less_numeral)
  show "(word_of_int x :: u128) = - 1 \<longleftrightarrow> x = - 1" using s by (metis sint_n1 of_int_minus of_int_1)
qed

lemma len128: "LENGTH(128) = 128"
  by simp

definition lane_result :: "bin_op \<Rightarrow> int \<Rightarrow> int \<Rightarrow> nat \<Rightarrow> bool \<Rightarrow> sim_value + u128" where
  "lane_result op x y w s =
     (if (op = Div \<or> op = Mod) \<and> y = 0 then Inl (all_x w s) else Inr (word_of_int (int_op op x y)))"

lemma ipow_signed_int:
  assumes "\<bar>x\<bar> < 2 ^ w" and "\<bar>y\<bar> < 2 ^ w" and "w \<le> 64"
  shows "ipow_signed (word_of_int x) (word_of_int y) = word_of_int (int_op Pow x y)"
proof (cases "y < 0")
  case True
  have "sint (2 :: u128) = 2" using sint_word_of_int [of 2 64] by simp
  then have "i128_rem (word_of_int y) 2 = word_of_int (y smod 2)"
    by (simp add: i128_rem_def sint_word_of_int [OF assms(2,3)])
  moreover have "\<bar>y smod 2\<bar> < 2 ^ 64" by (auto simp: signed_modulo_int_def sgn_if abs_mod_less)
  ultimately have "i128_rem (word_of_int y) 2 = 0 \<longleftrightarrow> y smod 2 = 0"
    using small_word_eq(1) [of "y smod 2" 64] by simp
  also have "\<dots> \<longleftrightarrow> even y" using True by (auto simp: signed_modulo_int_def sgn_if even_iff_mod_2_eq_zero zmod_zminus1_eq_if)
  finally show ?thesis
    using True by (simp add: ipow_signed_def int_op_def sint_word_of_int [OF assms(2,3)] small_word_eq [OF assms(1,3)])
next
  case False
  have "unat (word_of_int y :: u128) = nat y"
  proof -
    have "(2 :: int) ^ w \<le> 2 ^ 128" using assms(3) by (intro power_increasing) simp_all
    then have "y mod 2 ^ 128 = y" using assms(2) False by simp
    then show ?thesis by (simp add: unsigned_of_int take_bit_eq_mod)
  qed
  then show ?thesis
    using False by (simp add: ipow_signed_def int_op_def ipow_loop_eq sint_word_of_int [OF assms(2,3)])
qed

lemma signed_lane_int:
  assumes "op \<in> arith_ops" and "\<bar>x\<bar> < 2 ^ w" and "\<bar>y\<bar> < 2 ^ w" and "w \<le> 64"
  shows "signed_lane op w (word_of_int x) (word_of_int y) = Some (lane_result op x y w True)"
proof (cases "op = Pow")
  case True
  then show ?thesis using ipow_signed_int [OF assms(2-4)] by (simp add: signed_lane_def lane_result_def)
next
  case False
  then show ?thesis using assms(1)
    by (auto simp: arith_ops_def signed_lane_def lane_result_def int_op_def i128_div_def i128_rem_def
        sint_word_of_int [OF assms(2,4)] sint_word_of_int [OF assms(3,4)] small_word_eq [OF assms(3,4)])
qed

lemma unsigned_lane_int:
  assumes "op \<in> arith_ops" and "m < 2 ^ 128" and "n < 2 ^ 128"
  shows "unsigned_lane op w (word_of_nat m) (word_of_nat n) = Some (lane_result op (int m) (int n) w False)"
proof -
  have u: "unat (word_of_nat m :: u128) = m" "unat (word_of_nat n :: u128) = n"
    using assms(2,3) by (simp_all only: unsigned_of_nat take_bit_nat_eq_self len128 of_nat_id)
  have z: "(word_of_nat n :: u128) = 0 \<longleftrightarrow> n = 0" by (simp only: word_unat_eq_iff unat_0 u(2))
  have q: "(word_of_nat m :: u128) div word_of_nat n = word_of_int (int m sdiv int n)"
  proof -
    have "unat ((word_of_nat m :: u128) div word_of_nat n) = m div n" by (simp only: unat_div_distrib u)
    then have "(word_of_nat m :: u128) div word_of_nat n = word_of_nat (m div n)" by (metis of_nat_unat ucast_id)
    moreover have "int m sdiv int n = int (m div n)" by (simp add: signed_divide_int_def sgn_if zdiv_int)
    ultimately show ?thesis by simp
  qed
  have r: "(word_of_nat m :: u128) mod word_of_nat n = word_of_int (int m smod int n)"
  proof -
    have "unat ((word_of_nat m :: u128) mod word_of_nat n) = m mod n" by (simp only: unat_mod_distrib u)
    then have "(word_of_nat m :: u128) mod word_of_nat n = word_of_nat (m mod n)" by (metis of_nat_unat ucast_id)
    moreover have "int m smod int n = int (m mod n)" by (simp add: signed_modulo_int_def sgn_if zmod_int)
    ultimately show ?thesis by simp
  qed
  show ?thesis
    using assms(1) by (auto simp: arith_ops_def unsigned_lane_def lane_result_def int_op_def z q r upow_loop_eq u)
qed

section \<open>All lanes\<close>

text \<open>The three signs of one operation: how each operand is read, and the sign of the result.\<close>

definition region_signs :: "bin_op \<Rightarrow> sim_value \<Rightarrow> sim_value \<Rightarrow> arith_signs" where
  "region_signs op l r =
     (if op = Pow then \<lparr>as_lhs = v_signed l, as_rhs = v_signed r, as_res = v_signed l\<rparr>
      else (let b = v_signed l \<and> v_signed r in \<lparr>as_lhs = b, as_rhs = b, as_res = b\<rparr>))"

definition arith_width :: "sim_value \<Rightarrow> sim_value \<Rightarrow> nat" where
  "arith_width l r = max (max (v_width l) (v_width r)) 1"

lemma arith_integral:
  assumes "\<not> v_real l" and "\<not> v_real r"
  shows "arith op l r =
    (let w = arith_width l r; sg = region_signs op l r;
         neg = (op = Pow \<and> v_signed r \<and> 0 < v_width r \<and> fst (get_vu r (v_width r - 1)) = 1);
         use_signed = (if op = Pow then v_signed l \<or> neg else v_signed l \<and> v_signed r)
     in if has_xz l \<or> has_xz r then Some (all_x w (as_res sg))
        else if use_signed \<and> 64 < w \<or> \<not> use_signed \<and> 128 < w then arith_wide op l r w sg
        else Option.bind
          (if use_signed
           then Option.bind (read_i128 l w (as_lhs sg)) (\<lambda>a.
                  Option.bind (read_i128 r w (as_rhs sg)) (\<lambda>b. signed_lane op w a b))
           else Option.bind (to_u128 l) (\<lambda>a. Option.bind (to_u128 r) (\<lambda>b. unsigned_lane op w a b)))
          (\<lambda>res. case res of Inl v \<Rightarrow> Some v | Inr x \<Rightarrow> Some (native_out w (as_res sg) x)))"
  unfolding arith_def arith_width_def region_signs_def Let_def
  by (simp only: assms simp_thms if_False)

lemma neg_exponent:
  assumes "val_ok r"
  shows "(v_signed r \<and> 0 < v_width r \<and> fst (get_vu r (v_width r - 1)) = 1) \<longleftrightarrow> vint r < 0"
proof -
  have p: "plane_ok (v_width r) (v_val r)" using assms by (simp add: val_ok_def vec_ok_def)
  show ?thesis by (auto simp: vint_def pint_neg [OF p] get_vu_eq pair1_def)
qed

lemma lane_finish:
  assumes "0 < w" and "w \<le> 128"
  shows "if (op = Div \<or> op = Mod) \<and> y = 0
     then (case lane_result op x y w s of Inl v \<Rightarrow> Some v | Inr k \<Rightarrow> Some (native_out w s k)) = Some (all_x w s)
     else \<exists>v. (case lane_result op x y w s of Inl v \<Rightarrow> Some v | Inr k \<Rightarrow> Some (native_out w s k)) = Some v
       \<and> holds_int v w s (int_op op x y)"
  using native_out_int [OF assms] by (simp add: lane_result_def)

lemma arith_lanes:
  assumes ok: "val_ok l" "val_ok r" and xz: "\<not> has_xz l" "\<not> has_xz r" and op: "op \<in> arith_ops"
    and cap: "arith_width l r \<le> WIDE_ARITH_CAP \<or> op = Add \<or> op = Sub"
    and x: "x = vint_in (as_lhs sg) l" and y: "y = vint_in (as_rhs sg) r"
    and sg: "sg = region_signs op l r" and w: "w = arith_width l r"
  shows "if (op = Div \<or> op = Mod) \<and> y = 0 \<or> op = Pow \<and> x = 0 \<and> y < 0 \<and> 64 < w
    then arith op l r = Some (all_x w (as_res sg))
    else \<exists>v. arith op l r = Some v \<and> holds_int v w (as_res sg) (int_op op x y)"
proof -
  have nr: "\<not> v_real l" "\<not> v_real r" using ok by (simp_all add: val_ok_def vec_ok_def)
  have lw: "v_width l \<le> w" and rw: "v_width r \<le> w" and w0: "0 < w" by (auto simp: w arith_width_def)
  have s: "as_lhs sg \<longrightarrow> v_signed l" "as_rhs sg \<longrightarrow> v_signed r"
    by (auto simp: sg region_signs_def Let_def)
  define neg where "neg = (op = Pow \<and> v_signed r \<and> 0 < v_width r \<and> fst (get_vu r (v_width r - 1)) = 1)"
  define us where "us = (if op = Pow then v_signed l \<or> neg else v_signed l \<and> v_signed r)"
  note ar = arith_integral [OF nr, of op, folded neg_def, folded us_def, unfolded Let_def,
      folded us_def sg w]
  consider (wide) "us \<and> 64 < w \<or> \<not> us \<and> 128 < w" | (signed) "us" "w \<le> 64" | (unsigned) "\<not> us" "w \<le> 128"
    by fastforce
  then show ?thesis
  proof cases
    case wide
    then have "1 < w" by auto
    note h = arith_wide_holds [OF ok lw rw this s op cap [folded w], folded x y]
    have e: "arith op l r = arith_wide op l r w sg" using ar wide xz by simp
    have "64 < w" using wide by auto
    then have c: "no_result op x y \<longleftrightarrow> (op = Div \<or> op = Mod) \<and> y = 0 \<or> op = Pow \<and> x = 0 \<and> y < 0 \<and> 64 < w"
      by (simp add: no_result_def)
    show ?thesis using h unfolding e c .
  next
    case signed
    note ri = read_i128_eq [OF ok(1) xz(1) lw signed(2) s(1), folded x]
      read_i128_eq [OF ok(2) xz(2) rw signed(2) s(2), folded y]
    have "\<bar>x\<bar> < 2 ^ w" "\<bar>y\<bar> < 2 ^ w"
      using vint_in_abs_less [OF ok(1) lw] vint_in_abs_less [OF ok(2) rw] by (simp_all add: x y)
    note sl = signed_lane_int [OF op this signed(2)]
    have "arith op l r = (case lane_result op x y w True of Inl v \<Rightarrow> Some v | Inr k \<Rightarrow> Some (native_out w (as_res sg) k))"
      using ar signed xz ri sl by simp
    moreover have "as_res sg" if "op = Div \<or> op = Mod"
      using that signed(1) by (auto simp: us_def sg region_signs_def)
    ultimately show ?thesis
      using native_out_int [OF w0, of "as_res sg" "int_op op x y"] signed(2) by (simp add: lane_result_def)
  next
    case unsigned
    have lu: "x = int (vnum l)" using unsigned(1)
      by (auto simp: x us_def sg region_signs_def Let_def vint_in_def vnum_def)
    have ru: "y = int (vnum r)"
    proof (cases "op = Pow \<and> v_signed r")
      case True
      then have "\<not> vint r < 0" using unsigned(1) neg_exponent [OF ok(2)] unfolding us_def neg_def by (metis (full_types))
      moreover have "y = vint r" using True by (simp add: y sg region_signs_def vint_in_simps)
      ultimately show ?thesis using vnum_bound [OF val_ok_vec_ok [OF ok(2)]]
        by (auto simp: vint_def pint_def vnum_def split: if_splits)
    next
      case False
      then show ?thesis using unsigned(1)
        by (auto simp: y us_def sg region_signs_def Let_def vint_in_def vnum_def)
    qed
    have lr: "v_width l \<le> 128" "v_width r \<le> 128" using lw rw unsigned(2) by simp_all
    note tl = to_u128_unsigned [OF ok(1) xz(1) lr(1)] and tr = to_u128_unsigned [OF ok(2) xz(2) lr(2)]
    note ul = unsigned_lane_int [OF op tl(2) tr(2), of w, folded lu ru]
    have "arith op l r = (case lane_result op x y w False of Inl v \<Rightarrow> Some v | Inr k \<Rightarrow> Some (native_out w (as_res sg) k))"
      using ar unsigned xz tl(1) tr(1) ul by simp
    moreover have "\<not> as_res sg" if "op = Div \<or> op = Mod"
      using that unsigned(1) by (auto simp: us_def sg region_signs_def)
    ultimately show ?thesis
      using native_out_int [OF w0, of "as_res sg" "int_op op x y"] unsigned(2) ru by (simp add: lane_result_def)
  qed
qed

lemma arith_xz:
  assumes "\<not> v_real l" and "\<not> v_real r" and "has_xz l \<or> has_xz r"
  shows "arith op l r = Some (all_x (arith_width l r) (as_res (region_signs op l r)))"
  using assms(3) by (simp add: arith_integral [OF assms(1,2)] Let_def)

lemma arith_cap:
  assumes "\<not> v_real l" and "\<not> v_real r" and "\<not> has_xz l" and "\<not> has_xz r"
    and "WIDE_ARITH_CAP < arith_width l r" and "op \<in> {Mul, Div, Mod, Pow}"
  shows "arith op l r = Some (all_x (arith_width l r) (as_res (region_signs op l r)))"
proof -
  have "128 < arith_width l r" using assms(5) by (simp add: WIDE_ARITH_CAP_def)
  then show ?thesis using assms(3-6) arith_integral [OF assms(1,2), of op]
    by (auto simp: Let_def arith_wide_def)
qed

section \<open>Properties\<close>

text \<open>C4: Arithmetic on known operands is integer arithmetic on every lane (\<open>arith\<close> with its
  128-bit lanes and \<open>arith_wide\<close>): the result is \<open>w\<close> bits wide with the region's sign, has no
  unknown bit and holds the sum, difference, product, truncated quotient, remainder or power of the
  two operand integers modulo \<open>2 ^ w\<close>.  It is all-x exactly on division or remainder by zero and,
  beyond 64 bits, on zero to a negative power; it never panics.  Super-linear operators are exact
  up to the width cap.\<close>

theorem arith_is_integer_arithmetic:
  assumes "val_ok l" and "val_ok r" and "\<not> has_xz l" and "\<not> has_xz r" and "op \<in> arith_ops"
    and "arith_width l r \<le> WIDE_ARITH_CAP \<or> op = Add \<or> op = Sub"
  shows "let sg = region_signs op l r; w = arith_width l r;
             x = vint_in (as_lhs sg) l; y = vint_in (as_rhs sg) r
         in if (op = Div \<or> op = Mod) \<and> y = 0 \<or> op = Pow \<and> x = 0 \<and> y < 0 \<and> 64 < w
            then arith op l r = Some (all_x w (as_res sg))
            else \<exists>v. arith op l r = Some v \<and> holds_int v w (as_res sg) (int_op op x y)"
  unfolding Let_def by (rule arith_lanes [OF assms refl refl refl refl])

text \<open>An 8-bit product that wraps: \<open>8'd200 * 8'd3\<close>.\<close>

theorem arith_is_integer_arithmetic_witness:
  "\<exists>v. arith Mul (byte_value 200) (byte_value 3) = Some v \<and> vnum v = 88"
  using arith_is_integer_arithmetic [of "byte_value 200" "byte_value 3" Mul] byte_value_ok [of 200] byte_value_ok [of 3]
  by (auto simp: arith_ops_def region_signs_def arith_width_def byte_value_def WIDE_ARITH_CAP_def Let_def
      vint_in_def holds_int_def int_op_def)

text \<open>No panic: for every arithmetic operator and every pair of values an expression can produce
  (reals, or canonical vectors of any width, known or not) \<open>arith\<close> returns a value, and the value is
  canonical.\<close>

theorem arith_total:
  assumes "v_real l \<or> val_ok l" and "v_real r \<or> val_ok r" and "op \<in> arith_ops"
  shows "\<exists>v. arith op l r = Some v \<and> is_canonical v"
proof -
  let ?x = "all_x (arith_width l r) (as_res (region_signs op l r))"
  have x: "is_canonical ?x" by (simp add: vec_ok_canonical)
  consider (re) "v_real l \<or> v_real r" | (xz) "\<not> v_real l" "\<not> v_real r" "has_xz l \<or> has_xz r"
    | (cap) "\<not> v_real l" "\<not> v_real r" "\<not> has_xz l" "\<not> has_xz r" "WIDE_ARITH_CAP < arith_width l r" "op \<in> {Mul, Div, Mod, Pow}"
    | (int) "val_ok l" "val_ok r" "\<not> has_xz l" "\<not> has_xz r" "arith_width l r \<le> WIDE_ARITH_CAP \<or> op = Add \<or> op = Sub"
    using assms by (fastforce simp: arith_ops_def)
  then show ?thesis
  proof cases
    case re
    then show ?thesis by (auto simp: arith_def from_f64_def is_canonical_iff)
  next
    case xz
    then show ?thesis using arith_xz x by blast
  next
    case cap
    then show ?thesis using arith_cap x by blast
  next
    case int
    then show ?thesis using arith_lanes [OF int(1-4) assms(3) int(5) refl refl refl refl] x vec_ok_canonical
      by (auto simp: holds_int_def split: if_splits)
  qed
qed

theorem arith_total_witness:
  "\<exists>v. arith Div (byte_value 7) (from_f64 0) = Some v \<and> is_canonical v"
  using arith_total [of "byte_value 7" "from_f64 0" Div] byte_value_ok [of 7]
  by (simp add: arith_ops_def from_f64_def)

text \<open>An operand with an unknown bit poisons the whole result: every arithmetic operator then
  yields \<open>w\<close> bits of x, with the sign of the region (of the base, for \<open>**\<close>).\<close>

theorem arith_unknown_operand:
  assumes "\<not> v_real l" and "\<not> v_real r" and "\<exists>i. i < v_width l \<and> l4_u (vbit l i)"
  shows "\<exists>v. arith op l r = Some v \<and> v_width v = max (max (v_width l) (v_width r)) 1
    \<and> (\<forall>i<v_width v. vbit v i = LX) \<and> v_signed v = as_res (region_signs op l r)"
proof -
  have "has_xz l" using assms(3) by (auto simp: has_xz_iff vbit_def)
  then show ?thesis using arith_xz [OF assms(1,2)] by (auto simp: vbit_all_x arith_width_def)
qed

theorem arith_unknown_operand_witness:
  "\<exists>v. arith Add (all_x 8 True) (byte_value 3) = Some v \<and> v_width v = max (max (v_width (all_x 8 True)) (v_width (byte_value 3))) 1
    \<and> (\<forall>i<v_width v. vbit v i = LX) \<and> v_signed v = as_res (region_signs Add (all_x 8 True) (byte_value 3))"
  by (rule arith_unknown_operand) (auto simp: byte_value_def vbit_all_x l4_u_def intro: exI [of _ 0])

end
