(* ===== verification/CompareCorrect.thy ===== *)
theory CompareCorrect
  imports OpsCompare ArithCorrect
begin

text \<open>
  What the comparisons compute: one lemma per word form and loop, then the operators on the
  4-state bits and on the integers of their operands.
\<close>

section \<open>Word tests as bit tests\<close>

lemma bit_or_fold: "bit (fold (\<lambda>k a. a OR f k) ks (z :: u64)) j \<longleftrightarrow> bit z j \<or> (\<exists>k\<in>set ks. bit (f k) j)"
  by (induction ks arbitrary: z) (auto simp: bit_or_iff)

lemma or_fold_zero: "fold (\<lambda>k a. a OR f k) ks (0 :: u64) \<noteq> 0 \<longleftrightarrow> (\<exists>k\<in>set ks. f k \<noteq> 0)"
  unfolding word_nonzero_iff bit_or_fold by auto

text \<open>A test on every word below \<open>nwords w\<close>, when the bits in question lie below \<open>w\<close>.\<close>

lemma words_bits:
  assumes "\<And>k j. j < 64 \<Longrightarrow> bit (f k) j = P (64 * k + j)" and "\<And>i. P i \<Longrightarrow> i < w"
  shows "(\<exists>k\<in>set [0..<v_nwords w]. f k \<noteq> (0 :: u64)) \<longleftrightarrow> (\<exists>i<w. P i)"
proof -
  have "f k \<noteq> 0 \<longleftrightarrow> (\<exists>j<64. 64 * k + j < w \<and> P (64 * k + j))" for k
    using assms by (auto simp: word_nonzero_iff)
  then have "(\<exists>k\<in>set [0..<v_nwords w]. f k \<noteq> 0) \<longleftrightarrow> (\<exists>k<v_nwords w. \<exists>j<64. 64 * k + j < w \<and> P (64 * k + j))"
    by (simp add: Bex_def)
  then show ?thesis by (simp only: width_words)
qed

lemma one_word_test:
  assumes "\<And>j. j < 64 \<Longrightarrow> bit x j = P j" and "\<And>i. P i \<Longrightarrow> i < w" and "w \<le> 64"
  shows "(x :: u64) \<noteq> 0 \<longleftrightarrow> (\<exists>i<w. P i)"
proof -
  have "P i \<Longrightarrow> i < 64" for i using assms(2) [of i] assms(3) by linarith
  then show ?thesis using assms(1,2) by (auto simp: word_nonzero_iff)
qed

lemma v_nwords_le_1: "v_nwords w \<le> 1 \<longleftrightarrow> w \<le> 64"
  by (auto simp: v_nwords_def)

section \<open>Extended operands\<close>

text \<open>The 4-state bit \<open>i\<close> of an operand extended to \<open>w\<close> bits under sign \<open>c\<close>.\<close>

definition ext_bit :: "nat \<Rightarrow> bool \<Rightarrow> sim_value \<Rightarrow> nat \<Rightarrow> logic4" where
  "ext_bit w c v i =
     (if i < v_width v then vbit v i
      else if i < w \<and> v_signed v \<and> c \<and> 0 < v_width v then vbit v (v_width v - 1) else L0)"

lemma vbit_rks: "val_ok v \<Longrightarrow> v_width v \<le> w \<Longrightarrow> vbit (resize_keep_sign v w c) i = ext_bit w c v i"
  using rks_planes [of v w c i] by (auto simp: ext_bit_def vbit_def sx_def)

lemma rks_out:
  assumes "val_ok v" and "v_width v \<le> w"
  shows "pbit (v_val (resize_keep_sign v w c)) i \<Longrightarrow> i < w" and "pbit (v_unk (resize_keep_sign v w c)) i \<Longrightarrow> i < w"
  using rks_planes [OF assms, of c i] by auto

text \<open>Both known and different, or unknown on either side.\<close>

definition differ4 :: "logic4 \<Rightarrow> logic4 \<Rightarrow> bool" where
  "differ4 a b \<longleftrightarrow> (a, b) \<in> {(L0, L1), (L1, L0)}"

lemma differ4_l4: "differ4 (l4 v u) (l4 v' u') \<longleftrightarrow> v \<noteq> v' \<and> \<not> u \<and> \<not> u'"
  by (cases v; cases u; cases v'; cases u') (simp_all add: differ4_def)

section \<open>Equality\<close>

definition eq_value :: "bin_op \<Rightarrow> bool \<Rightarrow> bool \<Rightarrow> sim_value" where
  "eq_value op definite unk =
     (if definite then logic (op = Ne) else if unk then x1 else logic (op = Eq))"

text \<open>The words the loop tests: unknown on either side, and definitely different.\<close>

definition unk_word :: "sim_value \<Rightarrow> sim_value \<Rightarrow> nat \<Rightarrow> u64" where
  "unk_word le re k = wget (v_unk le) k OR wget (v_unk re) k"

definition diff_word :: "sim_value \<Rightarrow> sim_value \<Rightarrow> nat \<Rightarrow> u64" where
  "diff_word le re k = (wget (v_val le) k XOR wget (v_val re) k) AND NOT (unk_word le re k)"

lemma eq_word_bits:
  assumes "j < 64"
  shows "bit (unk_word le re k) j \<longleftrightarrow> l4_u (vbit le (64 * k + j)) \<or> l4_u (vbit re (64 * k + j))"
    and "bit (diff_word le re k) j \<longleftrightarrow> differ4 (vbit le (64 * k + j)) (vbit re (64 * k + j))"
  using assms by (auto simp: unk_word_def diff_word_def vbit_def differ4_l4 pbit_at bit_simps)

lemma log_eq_fold:
  "fold (log_eq_step le re) ks (a, b) =
     (fold (\<lambda>k a. a OR unk_word le re k) ks a, fold (\<lambda>k a. a OR diff_word le re k) ks b)"
  by (induction ks arbitrary: a b) (simp_all add: log_eq_step_def Let_def unk_word_def diff_word_def)

lemma log_eq_word_words:
  "log_eq_word op (wget (v_val le) 0) (wget (v_unk le) 0) (wget (v_val re) 0) (wget (v_unk re) 0)
   = (if diff_word le re 0 \<noteq> 0 then (of_bool (op = Ne), 0) else if unk_word le re 0 \<noteq> 0 then (0, 1) else (of_bool (op = Eq), 0))"
  by (simp only: log_eq_word_def Let_def diff_word_def unk_word_def)

lemma log_eq_integral:
  assumes "val_ok l" and "val_ok r"
  defines "w \<equiv> max (v_width l) (v_width r)" and "c \<equiv> v_signed l \<and> v_signed r"
  shows "log_eq op l r = eq_value op
    (\<exists>i<w. differ4 (ext_bit w c l i) (ext_bit w c r i)) (\<exists>i<w. l4_u (ext_bit w c l i) \<or> l4_u (ext_bit w c r i))"
proof -
  have lw: "v_width l \<le> w" and rw: "v_width r \<le> w" by (simp_all add: w_def)
  have nr: "\<not> (v_real l \<or> v_real r)" using assms by (simp add: val_ok_def vec_ok_def)
  define le re where "le = resize_keep_sign l w c" and "re = resize_keep_sign r w c"
  note e = vbit_rks [OF assms(1) lw, of c, folded le_def] vbit_rks [OF assms(2) rw, of c, folded re_def]
  define U where "U i \<longleftrightarrow> l4_u (vbit le i) \<or> l4_u (vbit re i)" for i
  define D where "D i \<longleftrightarrow> differ4 (vbit le i) (vbit re i)" for i
  have out: "U i \<Longrightarrow> i < w" "D i \<Longrightarrow> i < w" for i
    using rks_out [OF assms(1) lw, of c i] rks_out [OF assms(2) rw, of c i]
    by (auto simp: U_def D_def le_def re_def vbit_def differ4_l4)
  have ub: "bit (unk_word le re k) j = U (64 * k + j)" and db: "bit (diff_word le re k) j = D (64 * k + j)"
    if "j < 64" for k j
    using that by (simp_all add: U_def D_def eq_word_bits)
  have "log_eq op l r = eq_value op (\<exists>i<w. D i) (\<exists>i<w. U i)"
  proof (cases "w \<le> 64")
    case True
    have "log_eq op l r = tri_bit (log_eq_word op (wget (v_val le) 0) (wget (v_unk le) 0) (wget (v_val re) 0) (wget (v_unk re) 0))"
      using nr True by (simp only: log_eq_def Let_def if_False v_nwords_le_1 if_True flip: w_def c_def le_def re_def)
    then show ?thesis
      using one_word_test [OF ub [of _ 0, simplified] out(1) True] one_word_test [OF db [of _ 0, simplified] out(2) True]
      by (simp only: log_eq_word_words eq_value_def if_distrib [of tri_bit] tri_bit_simps logic_bit1)
  next
    case False
    have "log_eq op l r = (case fold (log_eq_step le re) [0..<v_nwords w] (0, 0) of (unk, definite) \<Rightarrow>
        if definite \<noteq> 0 then logic (op = Ne) else if unk \<noteq> 0 then x1 else logic (op = Eq))"
      using nr False by (simp only: log_eq_def Let_def if_False v_nwords_le_1 flip: w_def c_def le_def re_def)
    then show ?thesis
      using words_bits [OF ub out(1)] words_bits [OF db out(2)]
      by (simp only: log_eq_fold split_conv or_fold_zero eq_value_def)
  qed
  then show ?thesis by (simp only: D_def U_def e)
qed

text \<open>\<open>===\<close>: the planes are equal.\<close>

definition xor_word :: "sim_value \<Rightarrow> sim_value \<Rightarrow> nat \<Rightarrow> u64" where
  "xor_word le re k = (wget (v_val le) k XOR wget (v_val re) k) OR (wget (v_unk le) k XOR wget (v_unk re) k)"

lemma bit_xor_word: "j < 64 \<Longrightarrow> bit (xor_word le re k) j \<longleftrightarrow> vbit le (64 * k + j) \<noteq> vbit re (64 * k + j)"
  by (auto simp: xor_word_def vbit_def pbit_at bit_simps)

lemma case_eq_integral:
  assumes "val_ok l" and "val_ok r"
  defines "w \<equiv> max (v_width l) (v_width r)" and "c \<equiv> v_signed l \<and> v_signed r"
  shows "case_eq op l r = logic ((op = CaseEq) = (\<forall>i<w. ext_bit w c l i = ext_bit w c r i))"
proof -
  have lw: "v_width l \<le> w" and rw: "v_width r \<le> w" by (simp_all add: w_def)
  have nr: "\<not> (v_real l \<or> v_real r)" using assms by (simp add: val_ok_def vec_ok_def)
  define le re where "le = resize_keep_sign l w c" and "re = resize_keep_sign r w c"
  note e = vbit_rks [OF assms(1) lw, of c, folded le_def] vbit_rks [OF assms(2) rw, of c, folded re_def]
  define N where "N i \<longleftrightarrow> vbit le i \<noteq> vbit re i" for i
  have out: "N i \<Longrightarrow> i < w" for i
    using rks_out [OF assms(1) lw, of c i] rks_out [OF assms(2) rw, of c i]
    by (auto simp: N_def le_def re_def vbit_def)
  have nb: "j < 64 \<Longrightarrow> bit (xor_word le re k) j = N (64 * k + j)" for k j
    by (simp add: N_def bit_xor_word)
  have "case_eq op l r = logic ((op = CaseEq) = (\<not> (\<exists>i<w. N i)))"
  proof (cases "w \<le> 64")
    case True
    have "case_eq op l r = tri_bit (of_bool (if op = CaseEq then \<not> xor_word le re 0 \<noteq> 0 else \<not> \<not> xor_word le re 0 \<noteq> 0), 0)"
      using nr True
      by (simp only: case_eq_def case_eq_word_def Let_def if_False v_nwords_le_1 if_True xor_word_def not_not flip: w_def c_def le_def re_def)
    then show ?thesis
      using one_word_test [OF nb [of _ 0, simplified] out True] by (cases "op = CaseEq") (simp_all only: tri_bit_simps logic_bit1 if_True if_False simp_thms)
  next
    case False
    have "fold (case_eq_step le re) ks a = fold (\<lambda>k a. a OR xor_word le re k) ks a" for ks a
      by (intro fold_cong refl) (simp add: case_eq_step_def xor_word_def Let_def fun_eq_iff ac_simps)
    moreover have "case_eq op l r = logic (if op = CaseEq then \<not> fold (case_eq_step le re) [0..<v_nwords w] 0 \<noteq> 0
        else \<not> \<not> fold (case_eq_step le re) [0..<v_nwords w] 0 \<noteq> 0)"
      using nr False by (simp only: case_eq_def Let_def if_False v_nwords_le_1 not_not flip: w_def c_def le_def re_def)
    ultimately show ?thesis
      using words_bits [OF nb out] or_fold_zero [of "xor_word le re" "[0..<v_nwords w]"] by (cases "op = CaseEq") (simp_all only: if_True if_False simp_thms)
  qed
  then show ?thesis by (simp add: N_def e)
qed

section \<open>Ordered comparisons\<close>

definition verdict_int :: "bin_op \<Rightarrow> int \<Rightarrow> int \<Rightarrow> bool" where
  "verdict_int op x y = (case op of Lt \<Rightarrow> x < y | Le \<Rightarrow> x \<le> y | Gt \<Rightarrow> y < x | Ge \<Rightarrow> y \<le> x | _ \<Rightarrow> False)"

definition order_ops :: "bin_op set" where
  "order_ops = {Lt, Le, Gt, Ge}"

lemma relational_verdict_cmp:
  "relational_verdict op (cmp_of x y) = verdict_int op x y"
  by (cases op) (auto simp: relational_verdict_def verdict_int_def cmp_of_def)

lemma cmp_of_nat: "cmp_of (m :: nat) n = cmp_of (int m) (int n)"
  by (simp add: cmp_of_def)

lemma cmp_words_eq: "cmp_words a b = cmp_of (int (wval (v_val a))) (int (wval (v_val b)))"
  by (simp add: cmp_words_def mw_cmp_eq [unfolded mw_cmp_def] cmp_of_nat)

text \<open>Differing sign bits decide; otherwise the plain order of the planes is the order of the integers.\<close>

lemma signed_order:
  assumes "plane_ok w A" and "plane_ok w B" and "0 < w"
  shows "(if pbit A (w - 1) \<and> \<not> pbit B (w - 1) then Less
          else if \<not> pbit A (w - 1) \<and> pbit B (w - 1) then Greater
          else cmp_of (int (wval A)) (int (wval B)))
       = cmp_of (pint w True A) (pint w True B)"
proof -
  have lt: "int (wval A) < 2 ^ w" "int (wval B) < 2 ^ w"
    using plane_ok_wval [OF assms(1)] plane_ok_wval [OF assms(2)]
    by (metis of_nat_less_iff of_nat_numeral of_nat_power)+
  define p :: int where "p = 2 ^ w"
  have "0 \<le> int (wval A)" "0 \<le> int (wval B)" by simp_all
  then show ?thesis
    using lt assms(3) unfolding pint_def p_def [symmetric] cmp_of_def by auto
qed

lemma wval_one_length: "length ws = 1 \<Longrightarrow> wval ws = unat (wget ws 0)"
  by (cases ws) (auto simp: wget_def)

lemma val_length:
  assumes "val_ok v"
  shows "length (v_val v) = nw1 (v_width v)"
  using assms by (simp add: val_ok_def vec_ok_def plane_ok_def)

lemma rks_val_length:
  assumes "val_ok v" and "v_width v \<le> w" and "w \<le> 64"
  shows "length (v_val (resize_keep_sign v w c)) = 1"
proof -
  have one: "n \<le> 64 \<Longrightarrow> nw1 n = 1" for n by (cases "n = 0") (simp_all add: nw1_v_nwords nw1_small)
  show ?thesis
  proof (cases "v_str v")
    case True
    then show ?thesis using assms one [of "v_width v"] by (simp add: val_length)
  next
    case False
    then have "vec_ok (resize_keep_sign v w c)" "v_width (resize_keep_sign v w c) = w"
      using assms by (simp_all add: val_ok_def)
    then show ?thesis using one [OF assms(3)] by (simp add: vec_ok_def plane_ok_def)
  qed
qed

lemma rks_pint:
  assumes "val_ok v" and "v_width v \<le> w" and "v_signed v"
  shows "plane_ok w (v_val (resize_keep_sign v w True))" and "pint w True (v_val (resize_keep_sign v w True)) = vint v"
proof -
  have ok: "vec_ok v" "\<not> v_str v" using assms by (auto simp: val_ok_def)
  then show "plane_ok w (v_val (resize_keep_sign v w True))"
    using vec_ok_rks [OF ok(1), of w True] rks_fields [OF ok, of w True] by (simp add: vec_ok_def)
  show "pint w True (v_val (resize_keep_sign v w True)) = vint v"
    using vint_rks [OF assms] rks_fields [OF ok, of w True] by (simp add: vint_def)
qed

lemma rks_unsigned:
  assumes "val_ok v" and "v_width v \<le> w"
  shows "int (wval (v_val (resize_keep_sign v w False))) = vint_in False v"
proof -
  have "int (vnum v) < 2 ^ v_width v" using vnum_bound [OF val_ok_vec_ok [OF assms(1)]]
    by (metis of_nat_less_iff of_nat_numeral of_nat_power)
  also have "\<dots> \<le> (2 :: int) ^ w" using assms(2) by (intro power_increasing) simp_all
  finally show ?thesis using vnum_rks [OF assms, of False] by (simp add: vint_in_simps vnum_def)
qed

text \<open>The order both paths of the integral comparison compute.\<close>

definition rel_order :: "sim_value \<Rightarrow> sim_value \<Rightarrow> nat \<Rightarrow> bool \<Rightarrow> ordering" where
  "rel_order le re w c =
     (let A = v_val le; B = v_val re in
      if c \<and> pbit A (w - 1) \<and> \<not> pbit B (w - 1) then Less
      else if c \<and> \<not> pbit A (w - 1) \<and> pbit B (w - 1) then Greater
      else cmp_of (int (wval A)) (int (wval B)))"

lemma rel_order_int:
  assumes "val_ok l" and "val_ok r" and "v_width l \<le> w" and "v_width r \<le> w" and "0 < w"
    and "c = (v_signed l \<and> v_signed r)"
  shows "rel_order (resize_keep_sign l w c) (resize_keep_sign r w c) w c = cmp_of (vint_in c l) (vint_in c r)"
proof (cases c)
  case True
  then have s: "v_signed l" "v_signed r" using assms(6) by simp_all
  note L = rks_pint [OF assms(1,3) s(1)] and R = rks_pint [OF assms(2,4) s(2)]
  have t: "c = True" using True by simp
  show ?thesis
    by (simp only: t rel_order_def Let_def simp_thms signed_order [OF L(1) R(1) assms(5)] L(2) R(2) vint_in_simps)
next
  case False
  then show ?thesis using rks_unsigned [OF assms(1,3)] rks_unsigned [OF assms(2,4)]
    by (simp add: rel_order_def)
qed

lemma sign_mask: "x AND push_bit n 1 \<noteq> 0 \<longleftrightarrow> bit (x :: u64) n"
  by (simp only: bit_iff_and_push_bit_not_eq_0)

lemma relational_word_order:
  assumes "length A = 1" and "length B = 1" and "0 < w" and "w \<le> 64"
    and "wget UA 0 = 0" and "wget UB 0 = 0"
  shows "relational_word op (wget A 0) (wget UA 0) (wget B 0) (wget UB 0) w c =
    (of_bool (relational_verdict op
       (if c \<and> pbit A (w - 1) \<and> \<not> pbit B (w - 1) then Less
        else if c \<and> \<not> pbit A (w - 1) \<and> pbit B (w - 1) then Greater
        else cmp_of (int (wval A)) (int (wval B)))), 0)"
proof -
  have b: "(wget A 0 AND push_bit (w - 1) 1 \<noteq> 0) = pbit A (w - 1)" "(wget B 0 AND push_bit (w - 1) 1 \<noteq> 0) = pbit B (w - 1)"
    using assms by (simp_all only: sign_mask pbit_one_word)
  have c: "cmp_of (wget A 0) (wget B 0) = cmp_of (int (wval A)) (int (wval B))"
    using assms(1,2) by (simp only: wval_one_length cmp_of_unat cmp_of_nat)
  show ?thesis
    using assms(3) unfolding relational_word_def Let_def b c assms(5,6)
    by (cases "pbit A (w - 1)"; cases "pbit B (w - 1)"; cases c) simp_all
qed

lemma relational_integral:
  assumes "val_ok l" and "val_ok r" and "\<not> has_xz l" and "\<not> has_xz r"
  shows "relational op l r =
    Some (logic (verdict_int op (vint_in (v_signed l \<and> v_signed r) l) (vint_in (v_signed l \<and> v_signed r) r)))"
proof -
  define w c where "w = max (max (v_width l) (v_width r)) 1" and "c = (v_signed l \<and> v_signed r)"
  have lw: "v_width l \<le> w" and rw: "v_width r \<le> w" and w0: "0 < w" by (auto simp: w_def)
  have nr: "\<not> (v_real l \<or> v_real r)" and nx: "\<not> (has_xz l \<or> has_xz r)" using assms by (simp_all add: val_ok_def vec_ok_def)
  define le re where "le = resize_keep_sign l w c" and "re = resize_keep_sign r w c"
  note o = rel_order_int [OF assms(1,2) lw rw w0 c_def, folded le_def re_def]
  have rel: "relational op l r = (if v_nwords w \<le> 1
      then Some (tri_bit (relational_word op (wget (v_val le) 0) (wget (v_unk le) 0) (wget (v_val re) 0) (wget (v_unk re) 0) w c))
      else Some (logic (relational_verdict op
        (if c then (case (fst (get_vu le (w - 1)), fst (get_vu re (w - 1))) of
           (a, b) \<Rightarrow> if a = 1 \<and> b = 0 then Less else if a = 0 \<and> b = 1 then Greater else cmp_words le re)
         else cmp_words le re))))"
    using nr nx by (simp only: relational_def Let_def if_False flip: w_def c_def le_def re_def)
  have "relational op l r = Some (logic (relational_verdict op (rel_order le re w c)))"
  proof (cases "w \<le> 64")
    case True
    have z: "wget (v_unk le) 0 = 0" "wget (v_unk re) 0 = 0"
    proof -
      have "\<not> has_xz le" "\<not> has_xz re" "vec_ok le" "vec_ok re"
        using assms lw rw by (simp_all add: le_def re_def has_xz_rks val_ok_def)
      then have n: "\<not> pbit (v_unk le) i" "\<not> pbit (v_unk re) i" for i by (simp_all add: has_xz_zero_unk)
      have "j < 64 \<Longrightarrow> \<not> bit (wget (v_unk le) 0) j \<and> \<not> bit (wget (v_unk re) 0) j" for j
        using n pbit_at [of j "v_unk le" 0] pbit_at [of j "v_unk re" 0] by simp
      then show "wget (v_unk le) 0 = 0" "wget (v_unk re) 0 = 0" by (metis word_nonzero_iff)+
    qed
    have len: "length (v_val le) = 1" "length (v_val re) = 1"
      using rks_val_length [OF assms(1) lw True] rks_val_length [OF assms(2) rw True] by (simp_all add: le_def re_def)
    show ?thesis
      using rel relational_word_order [OF len w0 True z, of op c] True
      by (simp add: v_nwords_le_1 [unfolded One_nat_def] rel_order_def Let_def)
  next
    case False
    have g: "fst (get_vu v i) = 1 \<longleftrightarrow> pbit (v_val v) i" "fst (get_vu v i) = 0 \<longleftrightarrow> \<not> pbit (v_val v) i" for v i
      by (auto simp: get_vu_eq pair1_def vbit_def)
    show ?thesis
      using rel False by (cases c) (simp_all add: v_nwords_le_1 [unfolded One_nat_def] rel_order_def Let_def g cmp_words_eq)
  qed
  then show ?thesis by (simp only: o relational_verdict_cmp flip: c_def)
qed

section \<open>Wildcard matches\<close>

definition mismatch4 :: "bin_op \<Rightarrow> logic4 \<Rightarrow> logic4 \<Rightarrow> bool" where
  "mismatch4 op a b \<longleftrightarrow> a \<noteq> b \<and>
     (if op = CasezEq then a \<noteq> LZ \<and> b \<noteq> LZ else \<not> l4_u a \<and> \<not> l4_u b)"

definition mismatch_word :: "bin_op \<Rightarrow> sim_value \<Rightarrow> sim_value \<Rightarrow> nat \<Rightarrow> u64" where
  "mismatch_word op l r k =
     (let lv = wget (v_val l) k; lu = wget (v_unk l) k; rv = wget (v_val r) k; ru = wget (v_unk r) k
      in NOT (if op = CasezEq then (lu AND lv) OR (ru AND rv) else lu OR ru) AND ((lv XOR rv) OR (lu XOR ru)))"

lemma bit_mismatch_word:
  assumes "j < 64"
  shows "bit (mismatch_word op l r k) j = mismatch4 op (vbit l (64 * k + j)) (vbit r (64 * k + j))"
proof -
  have z: "l4 v u = LZ \<longleftrightarrow> v \<and> u" for v u by (auto simp: l4_def)
  show ?thesis using assms
    by (auto simp: mismatch_word_def mismatch4_def Let_def vbit_def pbit_at bit_simps z)
qed

lemma casez_scan_iff: "casez_scan op l r ks \<longleftrightarrow> \<not> (\<exists>k\<in>set ks. mismatch_word op l r k \<noteq> 0)"
  by (induction ks) (simp_all add: mismatch_word_def Let_def)

lemma words_bits_nw1:
  assumes "\<And>k j. j < 64 \<Longrightarrow> bit (f k) j = P (64 * k + j)" and "\<And>i. P i \<Longrightarrow> i < w"
  shows "(\<exists>k\<in>set [0..<nw1 w]. f k \<noteq> (0 :: u64)) \<longleftrightarrow> (\<exists>i<w. P i)"
proof
  assume "\<exists>k\<in>set [0..<nw1 w]. f k \<noteq> 0"
  then show "\<exists>i<w. P i" using assms by (auto simp: word_nonzero_iff)
next
  assume "\<exists>i<w. P i"
  then obtain i where i: "i < w" "P i" by blast
  obtain k j where kj: "i = 64 * k + j" "j < 64" by (rule index_split)
  have "k < nw1 w" using nw1_less [OF i(1)] kj by simp
  moreover have "f k \<noteq> 0" using assms(1) [OF kj(2), of k] i kj unfolding word_nonzero_iff by blast
  ultimately show "\<exists>k\<in>set [0..<nw1 w]. f k \<noteq> 0" by auto
qed

lemma casez_eq_bits:
  assumes "vec_ok l" and "vec_ok r"
  shows "casez_eq op l r = logic (\<not> (\<exists>i < max (v_width l) (v_width r). mismatch4 op (vbit l i) (vbit r i)))"
proof -
  let ?W = "max (v_width l) (v_width r)"
  have "(\<exists>k\<in>set [0..<nw1 ?W]. mismatch_word op l r k \<noteq> 0) \<longleftrightarrow> (\<exists>i < ?W. mismatch4 op (vbit l i) (vbit r i))"
  proof (rule words_bits_nw1)
    fix i assume "mismatch4 op (vbit l i) (vbit r i)"
    then show "i < ?W"
      using vec_ok_bit_out [OF assms(1), of i] vec_ok_bit_out [OF assms(2), of i]
      by (fastforce simp: mismatch4_def)
  qed (rule bit_mismatch_word)
  then show ?thesis by (simp only: casez_eq_def Let_def casez_scan_iff)
qed

section \<open>Merging the branches of an unknown condition\<close>

lemma pbit_mask_last:
  assumes "length ws = nw1 w"
  shows "pbit (mask_last ws (nw1 w - 1) (top_mask w)) i \<longleftrightarrow> i < w \<and> pbit ws i" "plane_ok w (mask_last ws (nw1 w - 1) (top_mask w))"
  using pbit_mask_plane [of w ws i] plane_ok_mask_plane [of w ws] assms by (simp_all add: mask_plane_def Let_def)

lemma merge_x_bits:
  "vec_ok (merge_x t e w sg)" "v_width (merge_x t e w sg) = w" "v_signed (merge_x t e w sg) = sg"
  "vbit (merge_x t e w sg) i = (if i < w then (if vbit t i = vbit e i then vbit t i else LX) else L0)"
proof -
  let ?p = "\<lambda>k. merge_x_word (wget (v_val t) k) (wget (v_unk t) k) (wget (v_val e) k) (wget (v_unk e) k)"
  have l: "length (map (\<lambda>k. fst (?p k)) [0..<nw1 w]) = nw1 w" "length (map (\<lambda>k. snd (?p k)) [0..<nw1 w]) = nw1 w" by simp_all
  note m = pbit_mask_last [OF l(1)] pbit_mask_last [OF l(2)]
  show "vec_ok (merge_x t e w sg)" "v_width (merge_x t e w sg) = w" "v_signed (merge_x t e w sg) = sg"
    using m by (simp_all add: merge_x_def Let_def vec_ok_def)
  have b: "l4 (bit (fst (?p k)) j) (bit (snd (?p k)) j)
      = (if vbit t (64 * k + j) = vbit e (64 * k + j) then vbit t (64 * k + j) else LX)" if "j < 64" for k j
    using that by (auto simp: merge_x_word_def Let_def vbit_def pbit_at bit_simps l4_def)
  show "vbit (merge_x t e w sg) i = (if i < w then (if vbit t i = vbit e i then vbit t i else LX) else L0)"
  proof (cases "i < w")
    case True
    obtain k j where kj: "i = 64 * k + j" "j < 64" by (rule index_split)
    have k: "k < nw1 w" using nw1_less [OF True] kj by simp
    have "vbit (merge_x t e w sg) i = l4 (pbit (map (\<lambda>k. fst (?p k)) [0..<nw1 w]) i) (pbit (map (\<lambda>k. snd (?p k)) [0..<nw1 w]) i)"
      using True m(1,3) by (simp add: merge_x_def Let_def vbit_def)
    also have "\<dots> = l4 (bit (fst (?p k)) j) (bit (snd (?p k)) j)"
      using k by (simp only: kj(1) pbit_at [OF kj(2)] wget_map_upt if_True)
    finally have "vbit (merge_x t e w sg) i = l4 (bit (fst (?p k)) j) (bit (snd (?p k)) j)" .
    then show ?thesis using b [OF kj(2), of k] True kj by simp
  qed (use m(1,3) in \<open>simp add: merge_x_def Let_def vbit_def\<close>)
qed

section \<open>Truth values\<close>

primrec tri4 :: "tri \<Rightarrow> logic4" where
  "tri4 TriTrue = L1" | "tri4 TriFalse = L0" | "tri4 TriUnknown = LX"

text \<open>True when some bit is 1, else unknown when some bit is x or z, else false.\<close>

definition truth_of :: "bool \<Rightarrow> bool \<Rightarrow> tri" where
  "truth_of one unk = (if one then TriTrue else if unk then TriUnknown else TriFalse)"

lemma vbit_cases_get_vu:
  "(snd (get_vu a i) = 0 \<and> fst (get_vu a i) = 1) = (vbit a i = L1)" "(snd (get_vu a i) \<noteq> 0) = l4_u (vbit a i)"
  by (auto simp: get_vu_eq pair1_def l4_v_def l4_u_def split: if_splits)

lemma truth_scan_eq:
  "truth_scan a is b = truth_of (\<exists>i\<in>set is. vbit a i = L1) (b \<or> (\<exists>i\<in>set is. l4_u (vbit a i)))"
proof (induction "is" arbitrary: b)
  case (Cons i "is")
  then show ?case by (auto simp: case_prod_beta vbit_cases_get_vu truth_of_def)
qed (simp add: truth_of_def)

lemma truthiness_bits:
  assumes "vec_ok a"
  shows "truthiness a = truth_of (\<exists>i<v_width a. vbit a i = L1) (\<exists>i<v_width a. l4_u (vbit a i))"
proof (cases "v_width a \<le> 64")
  case False
  have "(\<exists>i\<in>set [0..<v_width a]. P i) \<longleftrightarrow> (\<exists>i<v_width a. P i)" for P by auto
  then show ?thesis using False assms by (simp add: truthiness_def truth_scan_eq vec_ok_def)
next
  case True
  have m: "j < 64 \<Longrightarrow> bit (v_low_mask (v_width a)) j \<longleftrightarrow> j < v_width a" for j
    by (simp add: v_low_mask_eq low_mask_eq bit_mask_iff)
  have one: "l4 p q = L1 \<longleftrightarrow> p \<and> \<not> q" for p q by (auto simp: l4_def)
  have "bit (wget (v_val a) 0 AND NOT (wget (v_unk a) 0) AND v_low_mask (v_width a)) j = (j < v_width a \<and> vbit a j = L1)"
    "bit (wget (v_unk a) 0 AND v_low_mask (v_width a)) j = (j < v_width a \<and> l4_u (vbit a j))" if "j < 64" for j
    using that m pbit_at [OF that, of _ 0] by (auto simp: bit_simps one vbit_def)
  note t = one_word_test [OF this(1) _ True] one_word_test [OF this(2) _ True]
  show ?thesis using True assms t by (simp add: truthiness_def truthiness_word_def truth_of_def vec_ok_def)
qed

lemma log_bin_of_tables:
  "log_bin_of LogAnd l r = bit1 (and4 (tri4 l) (tri4 r))" "log_bin_of LogOr l r = bit1 (or4 (tri4 l) (tri4 r))"
  by (cases l; cases r; simp add: log_bin_of_def log_bin_tri_def and4_def or4_def)+

section \<open>Equality of integers\<close>

text \<open>The sign-extended bits of two known operands agree exactly when their integers do.\<close>

lemma bits_eq_int:
  assumes "val_ok l" and "val_ok r" and "\<not> has_xz l" and "\<not> has_xz r"
  defines "w \<equiv> max (v_width l) (v_width r)" and "c \<equiv> v_signed l \<and> v_signed r"
  shows "(\<exists>i<w. differ4 (ext_bit w c l i) (ext_bit w c r i)) \<longleftrightarrow> vint_in c l \<noteq> vint_in c r"
    and "\<not> (\<exists>i<w. l4_u (ext_bit w c l i) \<or> l4_u (ext_bit w c r i))"
proof -
  have lw: "v_width l \<le> w" and rw: "v_width r \<le> w" by (simp_all add: w_def)
  define le re where "le = resize_keep_sign l w c" and "re = resize_keep_sign r w c"
  note e = vbit_rks [OF assms(1) lw, of c, folded le_def] vbit_rks [OF assms(2) rw, of c, folded re_def]
  have ok: "vec_ok le" "vec_ok re" "\<not> has_xz le" "\<not> has_xz re"
    using assms lw rw by (simp_all add: le_def re_def has_xz_rks val_ok_def)
  have u: "\<not> pbit (v_unk le) i" "\<not> pbit (v_unk re) i" for i using ok by (simp_all add: has_xz_zero_unk)
  show "\<not> (\<exists>i<w. l4_u (ext_bit w c l i) \<or> l4_u (ext_bit w c r i))"
    using u by (simp add: vbit_def flip: e)
  have d: "differ4 (ext_bit w c l i) (ext_bit w c r i) \<longleftrightarrow> pbit (v_val le) i \<noteq> pbit (v_val re) i" for i
    using u by (simp add: vbit_def differ4_l4 flip: e)
  have out: "pbit (v_val le) i \<Longrightarrow> i < w" "pbit (v_val re) i \<Longrightarrow> i < w" for i
    using rks_out(1) [OF assms(1) lw, of c i] rks_out(1) [OF assms(2) rw, of c i] by (simp_all add: le_def re_def)
  have "(\<exists>i<w. pbit (v_val le) i \<noteq> pbit (v_val re) i) \<longleftrightarrow> wval (v_val le) \<noteq> wval (v_val re)"
    using out by (auto simp: bit_eq_iff bit_wval)
  also have "\<dots> \<longleftrightarrow> vint_in c l mod 2 ^ w \<noteq> vint_in c r mod 2 ^ w"
    using vnum_rks [OF assms(1) lw, of c] vnum_rks [OF assms(2) rw, of c]
    by (simp add: vnum_def flip: le_def re_def) (metis of_nat_eq_iff)
  also have "\<dots> \<longleftrightarrow> vint_in c l \<noteq> vint_in c r"
  proof -
    have "\<bar>vint_in c l - vint_in c r\<bar> < 2 ^ w"
    proof (cases "c \<and> 0 < w")
      case True
      then have s: "v_signed l" "v_signed r" "0 < w" by (simp_all add: c_def)
      have "(2 :: int) ^ w = 2 * 2 ^ (w - 1)" using s(3) by (simp flip: power_Suc)
      then show ?thesis
        using vint_in_signed_range [OF assms(1) lw s(3), of c] vint_in_signed_range [OF assms(2) rw s(3), of c] True s by linarith
    next
      case False
      have z: "0 \<le> vint_in c l" "0 \<le> vint_in c r"
        using False lw rw by (auto simp: vint_in_def pint_def)
      then show ?thesis using vint_in_abs_less [OF assms(1) lw, of c] vint_in_abs_less [OF assms(2) rw, of c] by linarith
    qed
    then show ?thesis by (auto dest: residue_eq)
  qed
  finally show "(\<exists>i<w. differ4 (ext_bit w c l i) (ext_bit w c r i)) \<longleftrightarrow> vint_in c l \<noteq> vint_in c r"
    by (simp only: d)
qed

lemma log_eq_known:
  assumes "val_ok l" and "val_ok r" and "\<not> has_xz l" and "\<not> has_xz r"
  shows "log_eq Eq l r = logic (vint_in (v_signed l \<and> v_signed r) l = vint_in (v_signed l \<and> v_signed r) r)"
  using bits_eq_int [OF assms] log_eq_integral [OF assms(1,2), of Eq]
  by (simp only: eq_value_def if_False) (simp add: logic_def)

section \<open>Properties\<close>

text \<open>C13: The ordered comparisons compare integers at any width: with an x or z bit in an operand the
  result is x; otherwise it is the comparison of the operands' integers, signed only when both
  operands are signed, whether the one-word form or the multi-word loop runs.\<close>

theorem relational_orders_integers:
  assumes "val_ok l" and "val_ok r"
  shows "relational op l r =
    Some (if has_xz l \<or> has_xz r then x1
          else logic (verdict_int op (vint_in (v_signed l \<and> v_signed r) l) (vint_in (v_signed l \<and> v_signed r) r)))"
proof (cases "has_xz l \<or> has_xz r")
  case True
  then show ?thesis using assms by (simp add: relational_def val_ok_def vec_ok_def)
next
  case False
  then show ?thesis using relational_integral [OF assms] by simp
qed

theorem relational_orders_integers_witness:
  "relational Lt (byte_value 3) (byte_value 200) = Some (bit1 L1)"
  using relational_orders_integers [of "byte_value 3" "byte_value 200" Lt] byte_value_ok(1) [of 3] byte_value_ok(1) [of 200]
  by (simp add: verdict_int_def vint_in_def)

text \<open>Logical equality on 4-state operands: one bit pair that is known on both sides and differs
  decides it, otherwise an x or z makes it x, otherwise it holds; \<open>!=\<close> is its 4-state negation.  On
  known operands it is equality of their integers.\<close>

theorem logical_equality:
  assumes "val_ok l" and "val_ok r"
  shows "let w = max (v_width l) (v_width r); c = (v_signed l \<and> v_signed r);
             res = (if \<exists>i<w. differ4 (ext_bit w c l i) (ext_bit w c r i) then L0
                    else if \<exists>i<w. l4_u (ext_bit w c l i) \<or> l4_u (ext_bit w c r i) then LX else L1)
         in log_eq Eq l r = bit1 res \<and> log_eq Ne l r = bit1 (not4 res)
          \<and> (has_xz l \<or> has_xz r \<or> log_eq Eq l r = logic (vint_in c l = vint_in c r))"
proof -
  have e: "eq_value Eq a b = bit1 (if a then L0 else if b then LX else L1)"
    "eq_value Ne a b = bit1 (not4 (if a then L0 else if b then LX else L1))" for a b
    by (simp_all add: eq_value_def not4_def)
  have k: "has_xz l \<or> has_xz r \<or> log_eq Eq l r = logic (vint_in (v_signed l \<and> v_signed r) l = vint_in (v_signed l \<and> v_signed r) r)"
    using log_eq_known [OF assms] by blast
  show ?thesis unfolding Let_def
    by (intro conjI k) (simp_all only: log_eq_integral [OF assms] e)
qed

theorem logical_equality_witness:
  "log_eq Eq (byte_value 255) (sbyte_value 255) = bit1 L1"
  using logical_equality [of "byte_value 255" "sbyte_value 255", unfolded Let_def, THEN conjunct2, THEN conjunct2]
    byte_value_ok [of 255]
  by (simp add: vint_in_def)

text \<open>Case equality compares the planes: \<open>===\<close> is 1 exactly when every 4-state bit of the
  extended operands is the same, \<open>!==\<close> is its complement, and the result is never x.\<close>

theorem case_equality:
  assumes "val_ok l" and "val_ok r"
  shows "let w = max (v_width l) (v_width r); c = (v_signed l \<and> v_signed r)
         in case_eq CaseEq l r = logic (\<forall>i<w. ext_bit w c l i = ext_bit w c r i)
          \<and> case_eq CaseNe l r = logic (\<not> (\<forall>i<w. ext_bit w c l i = ext_bit w c r i))"
  by (simp add: Let_def case_eq_integral [OF assms] del: logic_bit1)

theorem case_equality_witness: "case_eq CaseEq (all_x 70 False) (all_x 70 False) = bit1 L1"
  using case_equality [of "all_x 70 False" "all_x 70 False"] by (simp add: val_ok_def)

text \<open>The wildcard matches test exactly the positions that are not wildcards: \<open>casez\<close> ignores a bit
  that is z on either side, \<open>casex\<close> one that is x or z on either side, and every other bit must be
  4-state equal.\<close>

theorem wildcard_match:
  assumes "vec_ok l" and "vec_ok r"
  shows "casez_eq op l r = logic (\<not> (\<exists>i < max (v_width l) (v_width r). vbit l i \<noteq> vbit r i
      \<and> (if op = CasezEq then vbit l i \<noteq> LZ \<and> vbit r i \<noteq> LZ else \<not> l4_u (vbit l i) \<and> \<not> l4_u (vbit r i))))"
  unfolding casez_eq_bits [OF assms] mismatch4_def by (rule refl)

theorem wildcard_match_witness: "casez_eq CasexEq (all_x 8 False) (byte_value 7) = bit1 L1"
  using wildcard_match [of "all_x 8 False" "byte_value 7" CasexEq] byte_value_ok(1) [of 7]
  by (simp add: val_ok_def vbit_all_x l4_u_def)

text \<open>An unknown ternary condition keeps what the branches agree on: bit \<open>i\<close> of the merge is the
  branches' bit where they are the same and x where they differ, and the result is canonical.\<close>

theorem merge_keeps_agreement:
  "vec_ok (merge_x t e w sg) \<and> v_width (merge_x t e w sg) = w \<and> v_signed (merge_x t e w sg) = sg
   \<and> vbit (merge_x t e w sg) i = (if i < w then (if vbit t i = vbit e i then vbit t i else LX) else L0)"
  by (simp add: merge_x_bits)

text \<open>\<open>&&\<close> and \<open>||\<close> are the 4-state AND and OR of the operands' truth values, where a vector is
  true when some bit is 1, else unknown when some bit is x or z, else false; a false left operand
  decides \<open>&&\<close> and a true one decides \<open>||\<close> whatever the right operand is.\<close>

theorem logical_connectives:
  assumes "vec_ok a"
  shows "truthiness a = (if \<exists>i<v_width a. vbit a i = L1 then TriTrue
      else if \<exists>i<v_width a. l4_u (vbit a i) then TriUnknown else TriFalse)
    \<and> log_bin_of LogAnd (truthiness a) t = bit1 (and4 (tri4 (truthiness a)) (tri4 t))
    \<and> log_bin_of LogOr (truthiness a) t = bit1 (or4 (tri4 (truthiness a)) (tri4 t))
    \<and> log_bin_of LogAnd TriFalse t = bit1 L0 \<and> log_bin_of LogOr TriTrue t = bit1 L1"
proof (intro conjI)
  show "truthiness a = (if \<exists>i<v_width a. vbit a i = L1 then TriTrue
      else if \<exists>i<v_width a. l4_u (vbit a i) then TriUnknown else TriFalse)"
    by (simp only: truthiness_bits [OF assms] truth_of_def)
qed (simp_all add: log_bin_of_tables and4_def or4_def)

theorem logical_connectives_witness: "truthiness (all_x 100 False) = TriUnknown"
  using logical_connectives [of "all_x 100 False"]
  by (auto simp: vbit_all_x l4_u_def intro: exI [of _ 0] split: if_splits)

end
