(* ===== verification/Selects.thy ===== *)
theory Selects
  imports Ir
begin

text \<open>
  The positions a select names, least significant first, as the language defines them (IEEE 1800,
  11.5.1): \<open>[b]\<close> names \<open>b\<close> alone; \<open>[b +: w]\<close>, and a constant part select whose right bound is \<open>b\<close>,
  count up from \<open>b\<close>; \<open>[b -: w]\<close> counts down from \<open>b\<close>, which is its most significant bit.  No code is
  translated here: the reads and writes of the simulator are compared with it.
\<close>

definition named_bits :: "sel_kind \<Rightarrow> int \<Rightarrow> nat \<Rightarrow> int list" where
  "named_bits kind b w =
     (case kind of
        Bit \<Rightarrow> [b]
      | PartConst \<Rightarrow> map (\<lambda>k. b + int k) [0..<w]
      | PartIdxUp \<Rightarrow> map (\<lambda>k. b + int k) [0..<w]
      | PartIdxDown \<Rightarrow> rev (map (\<lambda>k. b - int k) [0..<w]))"

lemma length_named_bits: "length (named_bits kind b w) = (if kind = Bit then 1 else w)"
  by (cases kind) (simp_all add: named_bits_def)

lemma nth_named_bits:
  "i < length (named_bits kind b w) \<Longrightarrow>
   named_bits kind b w ! i = (if kind = PartIdxDown then b - int w + 1 + int i else b + int i)"
  by (cases kind) (auto simp: named_bits_def rev_nth)

end
