(* ===== verification/OpsBits.thy ===== *)
theory OpsBits
  imports CompareCorrect Selects
begin

text \<open>
  Moving windows of bits: \<open>window64\<close>, \<open>copy_bits\<close>, \<open>replace_bits\<close>, \<open>window_in_range\<close> of
  \<open>crates/sim-engine/src/eval/eval_core.rs\<close> and the value part of concatenation, replication and
  selection of \<open>eval/binops.rs\<close>.  Bit positions and widths are \<open>nat\<close>: a \<open>u32\<close> position never
  wraps below the width limit of a net.  \<open>None\<close> is an index panic; the lemmas show when it cannot
  happen and that the word-parallel copies move exactly the bits of the window.
\<close>

section \<open>Windows\<close>

definition window64 :: "u64 list \<Rightarrow> nat \<Rightarrow> u64" where
  "window64 plane b =
     (let w = b div 64; sh = b mod 64; lo = wget plane w
      in if sh = 0 then lo
         else (let hi = wget plane (w + 1) in drop_bit sh lo OR push_bit (64 - sh) hi))"

lemma bit_window64: "j < 64 \<Longrightarrow> bit (window64 plane b) j = pbit plane (b + j)"
proof -
  assume j: "j < 64"
  have "window64 plane b = shr_word plane (b div 64) (b mod 64) 0"
    by (simp add: window64_def shr_word_def Let_def)
  then show ?thesis
    using bit_shr_word [of "b mod 64" j plane "b div 64" 0] j by (simp add: add.commute)
qed

definition or_word :: "u64 list \<Rightarrow> nat \<Rightarrow> u64 \<Rightarrow> u64 list" where
  "or_word ws k x = ws[k := (ws ! k) OR x]"

lemma chunk_bound: "i < w \<Longrightarrow> w - (i + min (64 - d mod 64) (w - i)) < w - (i :: nat)"
  using mod_less_divisor [of 64 d] by (simp add: min_def) linarith

function copy_bits_go :: "sim_value \<Rightarrow> nat \<Rightarrow> sim_value \<Rightarrow> nat \<Rightarrow> nat \<Rightarrow> nat \<Rightarrow> sim_value option" where
  "copy_bits_go dst dst_off src src_off w i =
     (if i < w
      then (let dbit = dst_off + i;
                dw = dbit div 64;
                dsh = dbit mod 64;
                n = min (64 - dsh) (w - i);
                m = (if n = 64 then - 1 else push_bit n 1 - 1);
                sv = window64 (v_val src) (src_off + i) AND m;
                su = window64 (v_unk src) (src_off + i) AND m
            in if dw < length (v_val dst) \<and> dw < length (v_unk dst)
               then copy_bits_go (dst\<lparr>v_val := or_word (v_val dst) dw (push_bit dsh sv),
                                      v_unk := or_word (v_unk dst) dw (push_bit dsh su)\<rparr>)
                      dst_off src src_off w (i + n)
               else None)
      else Some dst)"
  by pat_completeness auto
termination
  by (relation "measure (\<lambda>(dst, dst_off, src, src_off, w, i). w - i)")
     (simp, simp only: in_measure split_conv, erule chunk_bound)

declare copy_bits_go.simps [simp del]

definition copy_bits :: "sim_value \<Rightarrow> nat \<Rightarrow> sim_value \<Rightarrow> nat \<Rightarrow> nat \<Rightarrow> sim_value option" where
  "copy_bits dst dst_off src src_off w = copy_bits_go dst dst_off src src_off w 0"

definition replace_bits :: "sim_value \<Rightarrow> nat \<Rightarrow> sim_value \<Rightarrow> nat \<Rightarrow> nat \<Rightarrow> sim_value option" where
  "replace_bits dst dst_off src src_off w =
     (if w = 0 then Some dst else copy_bits (clear_bits dst dst_off w) dst_off src src_off w)"

definition window_in_range :: "int \<Rightarrow> nat \<Rightarrow> nat \<Rightarrow> nat option" where
  "window_in_range lsb width bound =
     (if 0 < width \<and> 0 \<le> lsb \<and> lsb + int width \<le> int bound then Some (nat lsb) else None)"

section \<open>What a copy writes\<close>

lemma bit_chunk:
  assumes "d + n \<le> 64"
  shows "bit (push_bit d (x AND (if n = 64 then - 1 else push_bit n 1 - 1 :: u64))) j
    \<longleftrightarrow> d \<le> j \<and> j < d + n \<and> bit x (j - d)"
proof -
  have m: "bit (if n = 64 then - 1 else push_bit n 1 - 1 :: u64) k \<longleftrightarrow> k < n \<and> k < 64" if "n \<le> 64" for k
    using that by (auto simp: bit_exp_minus_1 simp del: push_bit_of_1)
  have "n \<le> 64" using assms by simp
  then show ?thesis using assms by (auto simp: bit_push_bit_iff bit_and_iff m simp del: push_bit_of_1)
qed

text \<open>One chunk: the bits \<open>[d, d + n)\<close> of the plane, inside one word.\<close>

lemma pbit_or_chunk:
  assumes "d div 64 < length ws" and "d mod 64 + n \<le> 64"
  shows "pbit (or_word ws (d div 64)
      (push_bit (d mod 64) (window64 src s AND (if n = 64 then - 1 else push_bit n 1 - 1)))) j
    \<longleftrightarrow> pbit ws j \<or> d \<le> j \<and> j < d + n \<and> pbit src (s + (j - d))"
proof -
  define X where "X = push_bit (d mod 64) (window64 src s AND (if n = 64 then - 1 else push_bit n 1 - 1))"
  obtain k b where kb: "j = 64 * k + b" "b < 64" by (rule index_split)
  have d: "d = 64 * (d div 64) + d mod 64" by simp
  have "b - d mod 64 < 64" using kb(2) by simp
  then have X: "bit X b \<longleftrightarrow> d mod 64 \<le> b \<and> b < d mod 64 + n \<and> pbit src (s + (b - d mod 64))"
    unfolding X_def bit_chunk [OF assms(2)] by (simp only: bit_window64)
  have o: "pbit (or_word ws (d div 64) X) j \<longleftrightarrow> pbit ws j \<or> k = d div 64 \<and> bit X b"
    using assms(1) kb by (auto simp: or_word_def pbit_at wget_list_update bit_or_iff wget_in)
  show ?thesis
  proof (cases "k = d div 64")
    case True
    have "d \<le> j \<longleftrightarrow> d mod 64 \<le> b" "j < d + n \<longleftrightarrow> b < d mod 64 + n" "j - d = b - d mod 64"
      using kb(1) True d by linarith+
    then show ?thesis using True o X by (simp only: X_def) simp
  next
    case False
    have "\<not> (d \<le> j \<and> j < d + n)"
    proof
      assume "d \<le> j \<and> j < d + n"
      then have "d div 64 \<le> k" "64 * k + b < 64 * (d div 64) + 64" using kb d assms(2) by linarith+
      then show False using False by linarith
    qed
    then show ?thesis using False o unfolding X_def by blast
  qed
qed

lemma copy_bits_go_result:
  assumes "dst_off + w \<le> 64 * length (v_val dst)" and "length (v_unk dst) = length (v_val dst)"
  shows "\<exists>V U. copy_bits_go dst dst_off src src_off w i = Some (dst\<lparr>v_val := V, v_unk := U\<rparr>)
    \<and> length V = length (v_val dst) \<and> length U = length (v_val dst)
    \<and> (\<forall>j. pbit V j = (pbit (v_val dst) j \<or> dst_off + i \<le> j \<and> j < dst_off + w \<and> pbit (v_val src) (src_off + j - dst_off)))
    \<and> (\<forall>j. pbit U j = (pbit (v_unk dst) j \<or> dst_off + i \<le> j \<and> j < dst_off + w \<and> pbit (v_unk src) (src_off + j - dst_off)))"
  using assms
proof (induction dst dst_off src src_off w i rule: copy_bits_go.induct)
  case (1 dst dst_off src src_off w i)
  show ?case
  proof (cases "i < w")
    case False
    then have "copy_bits_go dst dst_off src src_off w i = Some (dst\<lparr>v_val := v_val dst, v_unk := v_unk dst\<rparr>)"
      by (simp add: copy_bits_go.simps)
    then show ?thesis using False "1.prems" by (intro exI [of _ "v_val dst"] exI [of _ "v_unk dst"]) auto
  next
    case True
    define d where "d = dst_off + i"
    define n where "n = min (64 - d mod 64) (w - i)"
    define V0 where "V0 = or_word (v_val dst) (d div 64)
      (push_bit (d mod 64) (window64 (v_val src) (src_off + i) AND (if n = 64 then - 1 else push_bit n 1 - 1)))"
    define U0 where "U0 = or_word (v_unk dst) (d div 64)
      (push_bit (d mod 64) (window64 (v_unk src) (src_off + i) AND (if n = 64 then - 1 else push_bit n 1 - 1)))"
    have lt: "d div 64 < length (v_val dst)" "d div 64 < length (v_unk dst)"
      using "1.prems" True by (simp_all add: d_def less_mult_imp_div_less mult.commute)
    have dn: "d mod 64 + n \<le> 64" and n: "n \<le> w - i" by (simp_all add: n_def)
    let ?dst = "dst\<lparr>v_val := V0, v_unk := U0\<rparr>"
    have st: "copy_bits_go dst dst_off src src_off w i = copy_bits_go ?dst dst_off src src_off w (i + n)"
      using True lt by (subst copy_bits_go.simps) (simp only: Let_def if_True simp_thms V0_def U0_def n_def flip: d_def)
    have len: "length V0 = length (v_val dst)" "length U0 = length (v_unk dst)" by (simp_all add: V0_def U0_def or_word_def)
    have "dst_off + w \<le> 64 * length (v_val ?dst)" "length (v_unk ?dst) = length (v_val ?dst)"
      using "1.prems" len by simp_all
    then obtain V U where VU: "copy_bits_go ?dst dst_off src src_off w (i + n) = Some (?dst\<lparr>v_val := V, v_unk := U\<rparr>)"
      "length V = length V0" "length U = length V0"
      "\<And>j. pbit V j = (pbit V0 j \<or> dst_off + (i + n) \<le> j \<and> j < dst_off + w \<and> pbit (v_val src) (src_off + j - dst_off))"
      "\<And>j. pbit U j = (pbit U0 j \<or> dst_off + (i + n) \<le> j \<and> j < dst_off + w \<and> pbit (v_unk src) (src_off + j - dst_off))"
      using "1.IH" [OF True refl refl refl refl refl refl refl, folded d_def, folded n_def, folded V0_def U0_def] lt
      by auto
    have ix: "d \<le> j \<Longrightarrow> src_off + i + (j - d) = src_off + j - dst_off" for j by (simp add: d_def)
    have b0: "pbit V0 j = (pbit (v_val dst) j \<or> d \<le> j \<and> j < d + n \<and> pbit (v_val src) (src_off + j - dst_off))"
      "pbit U0 j = (pbit (v_unk dst) j \<or> d \<le> j \<and> j < d + n \<and> pbit (v_unk src) (src_off + j - dst_off))" for j
      unfolding V0_def U0_def pbit_or_chunk [OF lt(1) dn] pbit_or_chunk [OF lt(2) dn] using ix [of j] by auto
    have "d \<le> j \<and> j < d + n \<or> dst_off + (i + n) \<le> j \<and> j < dst_off + w \<longleftrightarrow> dst_off + i \<le> j \<and> j < dst_off + w" for j
      using n True by (auto simp: d_def)
    then have "\<forall>j. pbit V j = (pbit (v_val dst) j \<or> dst_off + i \<le> j \<and> j < dst_off + w \<and> pbit (v_val src) (src_off + j - dst_off))"
      "\<forall>j. pbit U j = (pbit (v_unk dst) j \<or> dst_off + i \<le> j \<and> j < dst_off + w \<and> pbit (v_unk src) (src_off + j - dst_off))"
      unfolding VU(4,5) b0 by blast+
    then show ?thesis using VU(1-3) st len "1.prems" by (intro exI [of _ V] exI [of _ U]) simp
  qed
qed

text \<open>The bits a copy into a zeroed or kept destination leaves, and the whole result.\<close>

lemma copy_bits_result:
  assumes "dst_off + w \<le> 64 * length (v_val dst)" and "length (v_unk dst) = length (v_val dst)"
  obtains V U where "copy_bits dst dst_off src src_off w = Some (dst\<lparr>v_val := V, v_unk := U\<rparr>)"
    "length V = length (v_val dst)" "length U = length (v_val dst)"
    "\<And>j. pbit V j = (pbit (v_val dst) j \<or> dst_off \<le> j \<and> j < dst_off + w \<and> pbit (v_val src) (src_off + j - dst_off))"
    "\<And>j. pbit U j = (pbit (v_unk dst) j \<or> dst_off \<le> j \<and> j < dst_off + w \<and> pbit (v_unk src) (src_off + j - dst_off))"
  using copy_bits_go_result [OF assms, of src src_off 0] by (auto simp: copy_bits_def)

lemma l4_L0: "l4 v u = L0 \<longleftrightarrow> \<not> v \<and> \<not> u"
  by (cases v; cases u) simp_all

lemma vbit_L0: "vbit v i = L0 \<longleftrightarrow> \<not> pbit (v_val v) i \<and> \<not> pbit (v_unk v) i"
  by (simp only: vbit_def l4_L0)

text \<open>A value with \<open>nw1\<close>-sized planes whose width field may be smaller (a result under construction).\<close>

definition roomy :: "nat \<Rightarrow> sim_value \<Rightarrow> bool" where
  "roomy n v \<longleftrightarrow> length (v_val v) = nw1 n \<and> length (v_unk v) = nw1 n \<and> \<not> v_real v"

lemma roomy_len: "roomy n v \<Longrightarrow> i \<le> n \<Longrightarrow> i \<le> 64 * length (v_val v)" "roomy n v \<Longrightarrow> length (v_unk v) = length (v_val v)"
  using nw1_bounds(2) [of n] by (simp_all add: roomy_def)

lemma copy_bits_roomy:
  assumes "roomy n dst" and "dst_off + w \<le> n"
    and "\<And>j. dst_off \<le> j \<Longrightarrow> j < dst_off + w \<Longrightarrow> vbit dst j = L0"
  obtains dst' where "copy_bits dst dst_off src src_off w = Some dst'" "roomy n dst'"
    "v_width dst' = v_width dst" "v_signed dst' = v_signed dst" "v_str dst' = v_str dst"
    "\<And>j. vbit dst' j = (if dst_off \<le> j \<and> j < dst_off + w then vbit src (src_off + j - dst_off) else vbit dst j)"
proof -
  obtain V U where VU: "copy_bits dst dst_off src src_off w = Some (dst\<lparr>v_val := V, v_unk := U\<rparr>)"
    "length V = length (v_val dst)" "length U = length (v_val dst)"
    "\<And>j. pbit V j = (pbit (v_val dst) j \<or> dst_off \<le> j \<and> j < dst_off + w \<and> pbit (v_val src) (src_off + j - dst_off))"
    "\<And>j. pbit U j = (pbit (v_unk dst) j \<or> dst_off \<le> j \<and> j < dst_off + w \<and> pbit (v_unk src) (src_off + j - dst_off))"
    by (rule copy_bits_result [OF roomy_len(1) [OF assms(1,2)] roomy_len(2) [OF assms(1)], of src src_off]) (rule that, assumption+)
  have z: "\<not> pbit (v_val dst) j \<and> \<not> pbit (v_unk dst) j" if "dst_off \<le> j" "j < dst_off + w" for j
    using assms(3) [OF that] unfolding vbit_L0 .
  have b: "vbit (dst\<lparr>v_val := V, v_unk := U\<rparr>) j
      = (if dst_off \<le> j \<and> j < dst_off + w then vbit src (src_off + j - dst_off) else vbit dst j)" for j
  proof (cases "dst_off \<le> j \<and> j < dst_off + w")
    case True
    then show ?thesis using z [of j] by (simp add: vbit_def VU(4,5))
  next
    case False
    then show ?thesis by (auto simp: vbit_def VU(4,5))
  qed
  show ?thesis by (rule that [OF VU(1) _ _ _ _ b]) (use VU(2,3) assms(1) in \<open>simp_all add: roomy_def\<close>)
qed

lemma replace_bits_result:
  assumes "vec_ok dst" and "dst_off + w \<le> v_width dst"
  obtains dst' where "replace_bits dst dst_off src src_off w = Some dst'" "vec_ok dst'"
    "v_width dst' = v_width dst" "v_signed dst' = v_signed dst" "v_str dst' = v_str dst"
    "\<And>j. vbit dst' j = (if dst_off \<le> j \<and> j < dst_off + w then vbit src (src_off + j - dst_off) else vbit dst j)"
proof (cases "w = 0")
  case True
  then show ?thesis using assms(1) by (intro that [of dst]) (auto simp: replace_bits_def)
next
  case False
  let ?c = "clear_bits dst dst_off w"
  have c: "roomy (v_width dst) ?c" "vbit ?c j = (if dst_off \<le> j \<and> j < dst_off + w then L0 else vbit dst j)" for j
    using assms(1) vbit_clear_bits [OF assms(1), of dst_off w] by (simp_all add: roomy_def vec_ok_def plane_ok_iff)
  obtain dst' where d: "copy_bits ?c dst_off src src_off w = Some dst'" "roomy (v_width dst) dst'"
    "v_width dst' = v_width ?c" "v_signed dst' = v_signed ?c" "v_str dst' = v_str ?c"
    "\<And>j. vbit dst' j = (if dst_off \<le> j \<and> j < dst_off + w then vbit src (src_off + j - dst_off) else vbit ?c j)"
    by (rule copy_bits_roomy [OF c(1) assms(2)]) (auto simp: c(2))
  have b: "vbit dst' j = (if dst_off \<le> j \<and> j < dst_off + w then vbit src (src_off + j - dst_off) else vbit dst j)" for j
    using d(6) c(2) by simp
  have "v_width dst \<le> j \<Longrightarrow> vbit dst' j = L0" for j
    using b [of j] assms vec_ok_bit_out [OF assms(1), of j] by simp
  then have "vec_ok dst'"
    using d(2,3) by (auto simp: vec_ok_def roomy_def plane_ok_iff vbit_L0) (meson not_le)+
  then show ?thesis using d(1,3-5) b False by (intro that [of dst']) (simp_all add: replace_bits_def)
qed

section \<open>Concatenation and replication\<close>

fun concat_fill :: "sim_value list \<Rightarrow> nat \<Rightarrow> sim_value \<Rightarrow> sim_value option" where
  "concat_fill [] pos out = Some out"
| "concat_fill (v # vals) pos out =
     (let pos = (pos + 2 ^ 32 - v_width v) mod 2 ^ 32
      in Option.bind (copy_bits out pos v 0 (v_width v)) (concat_fill vals pos))"

definition concat_value :: "sim_value list \<Rightarrow> sim_value option" where
  "concat_value vals =
     (let total = sum_list (map v_width vals) mod 2 ^ 32;
          out = (zeros (max total 1) False)\<lparr>v_width := total\<rparr>
      in map_option mask_top (concat_fill vals total out))"

fun replicate_fill :: "sim_value \<Rightarrow> nat list \<Rightarrow> sim_value \<Rightarrow> sim_value option" where
  "replicate_fill v [] out = Some out"
| "replicate_fill v (c # cs) out =
     Option.bind (copy_bits out (c * v_width v mod 2 ^ 32) v 0 (v_width v)) (replicate_fill v cs)"

definition replicate_value :: "nat \<Rightarrow> sim_value \<Rightarrow> sim_value option" where
  "replicate_value count v =
     (let total = min (v_width v * count) (2 ^ 32 - 1);
          out = (zeros (max total 1) False)\<lparr>v_width := total\<rparr>
      in map_option mask_top (replicate_fill v [0..<count] out))"

section \<open>Selection\<close>

definition select_lsb_width :: "sel_kind \<Rightarrow> int \<Rightarrow> nat \<Rightarrow> int \<times> nat" where
  "select_lsb_width kind off width =
     (case kind of
        Bit \<Rightarrow> (off, 1)
      | PartConst \<Rightarrow> (off, width)
      | PartIdxUp \<Rightarrow> (off, width)
      | PartIdxDown \<Rightarrow> (off - int width + 1, width))"

text \<open>\<open>i64\<close> addition wraps; \<open>src_idx as u32\<close> keeps the low 32 bits.\<close>

definition wrap_i64 :: "int \<Rightarrow> int" where
  "wrap_i64 x = (x + 2 ^ 63) mod 2 ^ 64 - 2 ^ 63"

fun select_fill :: "sim_value \<Rightarrow> int \<Rightarrow> nat list \<Rightarrow> sim_value \<Rightarrow> sim_value option" where
  "select_fill src lsb [] out = Some out"
| "select_fill src lsb (i # rest) out =
     (let src_idx = wrap_i64 (lsb + int i);
          idx = nat (src_idx mod 2 ^ 32)
      in Option.bind
           (if 0 \<le> src_idx \<and> idx < v_width src
            then (let p = get_vu src idx in set_vu out i (fst p) (snd p))
            else set_vu out i 0 1)
           (select_fill src lsb rest))"

text \<open>\<open>eval_select\<close> on the value of its base and of its offset, \<open>width\<close> the folded width.\<close>

definition select_value :: "sel_kind \<Rightarrow> sim_value \<Rightarrow> sim_value \<Rightarrow> nat \<Rightarrow> sim_value option" where
  "select_value kind src off_val width =
     (case Option.bind (to_u64 off_val) (\<lambda>n. if unat n < 2 ^ 63 then Some (int (unat n)) else None) of
        None \<Rightarrow> Some (all_x (max width 1) False)
      | Some off \<Rightarrow>
          (let (lsb, w) = select_lsb_width kind off width;
               out = (zeros (max w 1) False)\<lparr>v_width := w\<rparr>
           in if 0 \<le> lsb \<and> lsb + int w \<le> int (v_width src)
              then map_option mask_top (copy_bits out 0 src (nat lsb) w)
              else map_option mask_top (select_fill src lsb [0..<w] out)))"

section \<open>What they build\<close>

definition bits_of :: "sim_value \<Rightarrow> logic4 list" where
  "bits_of v = map (vbit v) [0..<v_width v]"

lemma length_bits_of [simp]: "length (bits_of v) = v_width v"
  by (simp add: bits_of_def)

lemma nth_bits_of: "i < v_width v \<Longrightarrow> bits_of v ! i = vbit v i"
  by (simp add: bits_of_def)

text \<open>The bits from position \<open>a\<close> up to \<open>b\<close>.\<close>

definition bits_from :: "sim_value \<Rightarrow> nat \<Rightarrow> nat \<Rightarrow> logic4 list" where
  "bits_from v a b = map (vbit v) [a..<b]"

lemma bits_from_copy:
  assumes "\<And>j. vbit v' j = (if p \<le> j \<and> j < p + v_width v then vbit v (0 + j - p) else vbit u j)" and "p \<le> a \<or> True"
  shows "bits_from v' p (p + v_width v) = bits_of v" and "a \<ge> p + v_width v \<or> b \<le> p \<Longrightarrow> bits_from v' a b = bits_from u a b"
proof -
  show "bits_from v' p (p + v_width v) = bits_of v"
    by (rule nth_equalityI) (auto simp: bits_from_def bits_of_def assms(1))
  show "bits_from v' a b = bits_from u a b" if "a \<ge> p + v_width v \<or> b \<le> p"
    using that by (auto simp: bits_from_def assms(1))
qed

lemma bits_from_split: "a \<le> b \<Longrightarrow> b \<le> c \<Longrightarrow> bits_from v a c = bits_from v a b @ bits_from v b c"
  by (simp add: bits_from_def flip: map_append) (metis le_add_diff_inverse upt_add_eq_append)

lemma concat_fill_result:
  assumes "roomy n out" and "pos \<le> n" and "pos < 2 ^ 32" and "sum_list (map v_width vals) \<le> pos"
    and "\<And>j. j < pos \<Longrightarrow> vbit out j = L0"
  shows "\<exists>out'. concat_fill vals pos out = Some out' \<and> roomy n out'
    \<and> v_width out' = v_width out \<and> v_signed out' = v_signed out \<and> v_str out' = v_str out
    \<and> bits_from out' (pos - sum_list (map v_width vals)) pos = concat (map bits_of (rev vals))
    \<and> (\<forall>j\<ge>pos. vbit out' j = vbit out j)"
  using assms
proof (induction vals arbitrary: pos out)
  case Nil
  then show ?case by (simp add: bits_from_def)
next
  case (Cons v vals)
  let ?p = "pos - v_width v"
  have w: "v_width v \<le> pos" "sum_list (map v_width vals) \<le> ?p" using Cons.prems(4) by simp_all
  have p: "(pos + 2 ^ 32 - v_width v) mod 2 ^ 32 = ?p"
    using w(1) Cons.prems(3) by (simp add: mod_if le_mod_geq)
  obtain o1 where o1: "copy_bits out ?p v 0 (v_width v) = Some o1" "roomy n o1"
    "v_width o1 = v_width out" "v_signed o1 = v_signed out" "v_str o1 = v_str out"
    "\<And>j. vbit o1 j = (if ?p \<le> j \<and> j < ?p + v_width v then vbit v (0 + j - ?p) else vbit out j)"
    by (rule copy_bits_roomy [OF Cons.prems(1), of ?p "v_width v" v 0]) (use Cons.prems w in auto)
  have "\<exists>out'. concat_fill vals ?p o1 = Some out' \<and> roomy n out'
    \<and> v_width out' = v_width o1 \<and> v_signed out' = v_signed o1 \<and> v_str out' = v_str o1
    \<and> bits_from out' (?p - sum_list (map v_width vals)) ?p = concat (map bits_of (rev vals))
    \<and> (\<forall>j\<ge>?p. vbit out' j = vbit o1 j)"
    by (rule Cons.IH) (use o1 Cons.prems w in auto)
  then obtain o2 where o2: "concat_fill vals ?p o1 = Some o2" "roomy n o2"
    "v_width o2 = v_width o1" "v_signed o2 = v_signed o1" "v_str o2 = v_str o1"
    "bits_from o2 (?p - sum_list (map v_width vals)) ?p = concat (map bits_of (rev vals))"
    "\<And>j. ?p \<le> j \<Longrightarrow> vbit o2 j = vbit o1 j" by blast
  have "bits_from o2 ?p pos = bits_from o1 ?p pos" using o2(7) by (auto simp: bits_from_def)
  also have "\<dots> = bits_of v" using bits_from_copy(1) [OF o1(6), of ?p] w(1) by simp
  finally have bs: "bits_from o2 (pos - sum_list (map v_width (v # vals))) pos = concat (map bits_of (rev (v # vals)))"
    using o2(6) bits_from_split [of "?p - sum_list (map v_width vals)" ?p pos o2] by simp
  have out: "vbit o2 j = vbit out j" if "pos \<le> j" for j using that o2(7) [of j] o1(6) [of j] w(1) by simp
  have "concat_fill (v # vals) pos out = Some o2" by (simp only: concat_fill.simps p Let_def o1(1) o2(1) Option.bind.simps)
  then show ?case using o1(3-5) o2(2-5) bs out by (intro exI [of _ o2]) (simp only:, blast)
qed

lemma roomy_zeros: "roomy (max n 1) ((zeros (max n 1) s)\<lparr>v_width := n\<rparr>)" "vbit ((zeros (max n 1) s)\<lparr>v_width := n\<rparr>) j = L0"
  by (simp_all add: roomy_def vbit_L0)

lemma mask_top_roomy:
  assumes "\<not> v_real v" and "bits_from v 0 (v_width v) = bs"
  shows "vec_ok (mask_top v)" and "bits_of (mask_top v) = bs"
proof -
  show "vec_ok (mask_top v)" using assms(1) by simp
  show "bits_of (mask_top v) = bs"
    unfolding assms(2) [symmetric] bits_of_def bits_from_def using vbit_mask_top [OF assms(1)] by auto
qed

lemma concat_value_bits:
  assumes "sum_list (map v_width vals) < 2 ^ 32"
  shows "\<exists>v. concat_value vals = Some v \<and> vec_ok v \<and> \<not> v_signed v \<and> \<not> v_str v
    \<and> bits_of v = concat (map bits_of (rev vals))"
proof -
  define t where "t = sum_list (map v_width vals)"
  define out where "out = (zeros (max t 1) False)\<lparr>v_width := t\<rparr>"
  have "roomy (max t 1) out" "\<And>j. vbit out j = L0" unfolding out_def by (rule roomy_zeros)+
  then obtain o2 where o2: "concat_fill vals t out = Some o2" "roomy (max t 1) o2"
    "v_width o2 = v_width out" "v_signed o2 = v_signed out" "v_str o2 = v_str out"
    "bits_from o2 (t - t) t = concat (map bits_of (rev vals))"
    using concat_fill_result [of "max t 1" out t vals] assms unfolding t_def [symmetric] by auto
  have w: "v_width out = t" "\<not> v_signed out" "\<not> v_str out" by (simp_all add: out_def)
  have "\<not> v_real o2" using o2(2) by (simp add: roomy_def)
  note m = mask_top_roomy [OF this, unfolded o2(3) w, OF o2(6) [unfolded diff_self_eq_0]]
  have "concat_value vals = Some (mask_top o2)"
    using o2(1) assms unfolding concat_value_def t_def out_def by (simp add: Let_def)
  then show ?thesis using o2 w m by (intro exI [of _ "mask_top o2"]) simp
qed

lemma nth_concat_replicate:
  "i < n * length xs \<Longrightarrow> concat (replicate n xs) ! i = xs ! (i mod length xs)"
proof (induction n arbitrary: i)
  case (Suc n)
  then show ?case by (cases "i < length xs") (auto simp: nth_append le_mod_geq)
qed simp

lemma replicate_fill_result:
  assumes "roomy n out" and "count * v_width v \<le> n" and "k \<le> count" and "count * v_width v < 2 ^ 32"
    and "\<And>j. k * v_width v \<le> j \<Longrightarrow> vbit out j = L0"
  shows "\<exists>out'. replicate_fill v [k..<count] out = Some out' \<and> roomy n out'
    \<and> v_width out' = v_width out \<and> v_signed out' = v_signed out \<and> v_str out' = v_str out
    \<and> (\<forall>j < count * v_width v. vbit out' j = (if j < k * v_width v then vbit out j else vbit v (j mod v_width v)))"
  using assms
proof (induction "count - k" arbitrary: k out)
  case 0
  then have "k = count" by simp
  then show ?case using 0 by simp
next
  case (Suc m)
  then have k: "k < count" and up: "[k..<count] = k # [Suc k..<count]" by (simp_all add: upt_conv_Cons)
  let ?w = "v_width v"
  have le: "k * ?w + ?w \<le> count * ?w" using k mult_le_mono1 [of "Suc k" count ?w] by simp
  have km: "k * ?w mod 2 ^ 32 = k * ?w" using le Suc.prems(4) by simp
  obtain o1 where o1: "copy_bits out (k * ?w) v 0 ?w = Some o1" "roomy n o1"
    "v_width o1 = v_width out" "v_signed o1 = v_signed out" "v_str o1 = v_str out"
    "\<And>j. vbit o1 j = (if k * ?w \<le> j \<and> j < k * ?w + ?w then vbit v (0 + j - k * ?w) else vbit out j)"
    by (rule copy_bits_roomy [OF Suc.prems(1), of "k * ?w" ?w v 0]) (use Suc.prems le in auto)
  have "vbit o1 j = L0" if "Suc k * ?w \<le> j" for j using that Suc.prems(5) [of j] o1(6) [of j] by simp
  moreover have "m = count - Suc k" "Suc k \<le> count" using Suc.hyps(2) k by simp_all
  ultimately obtain o2 where o2: "replicate_fill v [Suc k..<count] o1 = Some o2" "roomy n o2"
    "v_width o2 = v_width o1" "v_signed o2 = v_signed o1" "v_str o2 = v_str o1"
    "\<And>j. j < count * ?w \<Longrightarrow> vbit o2 j = (if j < Suc k * ?w then vbit o1 j else vbit v (j mod ?w))"
    using Suc.hyps(1) [of "Suc k" o1] o1(2) Suc.prems(2,4) by blast
  have b: "vbit o2 j = (if j < k * ?w then vbit out j else vbit v (j mod ?w))" if j: "j < count * ?w" for j
  proof (cases "k * ?w \<le> j \<and> j < k * ?w + ?w")
    case True
    then obtain d where d: "j = k * ?w + d" "d < ?w" by (metis le_Suc_ex nat_add_left_cancel_less)
    then have "j mod ?w = j - k * ?w" by simp
    then show ?thesis using True o2(6) [OF j] o1(6) [of j] by simp
  next
    case False
    then show ?thesis using o2(6) [OF j] o1(6) [of j] by auto
  qed
  have "replicate_fill v [k..<count] out = Some o2"
    by (simp only: up replicate_fill.simps km o1(1) o2(1) Option.bind.simps)
  then show ?case using o1(3-5) o2(2-5) b by (intro exI [of _ o2]) (simp only:, blast)
qed

lemma replicate_value_bits:
  assumes "v_width v * count < 2 ^ 32"
  shows "\<exists>r. replicate_value count v = Some r \<and> vec_ok r \<and> \<not> v_signed r \<and> \<not> v_str r
    \<and> bits_of r = concat (replicate count (bits_of v))"
proof -
  define t where "t = count * v_width v"
  define out where "out = (zeros (max t 1) False)\<lparr>v_width := t\<rparr>"
  have "roomy (max t 1) out" "\<And>j. vbit out j = L0" unfolding out_def by (rule roomy_zeros)+
  then obtain o2 where o2: "replicate_fill v [0..<count] out = Some o2" "roomy (max t 1) o2"
    "v_width o2 = v_width out" "v_signed o2 = v_signed out" "v_str o2 = v_str out"
    "\<And>j. j < t \<Longrightarrow> vbit o2 j = vbit v (j mod v_width v)"
    using replicate_fill_result [of "max t 1" out count v 0] assms unfolding t_def
    by (auto simp: mult.commute)
  have w: "v_width out = t" "\<not> v_signed out" "\<not> v_str out" by (simp_all add: out_def)
  have "bits_from o2 0 t = concat (replicate count (bits_of v))"
  proof (rule nth_equalityI)
    show "length (bits_from o2 0 t) = length (concat (replicate count (bits_of v)))"
      by (simp add: bits_from_def length_concat t_def sum_list_replicate)
    fix i assume "i < length (bits_from o2 0 t)"
    then have i: "i < t" by (simp add: bits_from_def)
    then have "0 < v_width v" by (cases "v_width v") (simp_all add: t_def)
    then show "bits_from o2 0 t ! i = concat (replicate count (bits_of v)) ! i"
      using i nth_concat_replicate [of i count "bits_of v"] o2(6) [OF i]
      by (simp add: bits_from_def nth_bits_of t_def)
  qed
  moreover have "\<not> v_real o2" using o2(2) by (simp add: roomy_def)
  ultimately have m: "vec_ok (mask_top o2)" "bits_of (mask_top o2) = concat (replicate count (bits_of v))"
    using mask_top_roomy [of o2] o2(3) w(1) by simp_all
  have "min (v_width v * count) (2 ^ 32 - 1) = t" using assms by (simp add: t_def mult.commute)
  then have "replicate_value count v = Some (mask_top o2)"
    using o2(1) unfolding replicate_value_def out_def by (simp add: Let_def)
  then show ?thesis using o2 w m by (intro exI [of _ "mask_top o2"]) simp
qed

text \<open>The bit a select reads at a source position: outside the vector it is \<open>x\<close>.\<close>

definition sel_bit :: "sim_value \<Rightarrow> int \<Rightarrow> logic4" where
  "sel_bit src s = (if 0 \<le> s \<and> s < int (v_width src) then vbit src (nat s) else LX)"

text \<open>What the per-bit path reads instead, the position narrowed to 32 bits.\<close>

definition narrow_bit :: "sim_value \<Rightarrow> int \<Rightarrow> logic4" where
  "narrow_bit src s = (if 0 \<le> s then sel_bit src (s mod 2 ^ 32) else LX)"

lemma narrow_bit_small: "s < 2 ^ 32 \<Longrightarrow> narrow_bit src s = sel_bit src s"
  by (simp add: narrow_bit_def sel_bit_def)

lemma wrap_i64_id: "- (2 ^ 63) \<le> x \<Longrightarrow> x < 2 ^ 63 \<Longrightarrow> wrap_i64 x = x"
  by (simp add: wrap_i64_def)

lemma select_fill_step:
  assumes "vec_ok out" and "i < v_width out"
    and "- (2 ^ 63) \<le> lsb + int i" and "lsb + int i < 2 ^ 63"
  obtains o1 where "select_fill src lsb (i # rest) out = select_fill src lsb rest o1" "vec_ok o1"
    "v_width o1 = v_width out" "v_signed o1 = v_signed out" "v_str o1 = v_str out"
    "\<And>j. vbit o1 j = (if j = i then narrow_bit src (lsb + int i) else vbit out j)"
proof -
  let ?s = "lsb + int i"
  let ?x = "nat (?s mod 2 ^ 32)"
  define ok where "ok \<longleftrightarrow> 0 \<le> ?s \<and> ?x < v_width src"
  have wr: "wrap_i64 ?s = ?s" using assms(3,4) by (intro wrap_i64_id) simp_all
  define bu where "bu = (if ok then get_vu src ?x else (0, 1))"
  have bu: "l4 (bit (fst bu) 0) (bit (snd bu) 0) = narrow_bit src ?s"
  proof (cases ok)
    case True
    then show ?thesis by (cases "vbit src ?x") (simp_all add: ok_def bu_def get_vu_eq narrow_bit_def sel_bit_def pair1_def l4_v_def l4_u_def nat_less_iff)
  next
    case False
    then show ?thesis by (auto simp: ok_def bu_def narrow_bit_def sel_bit_def nat_less_iff)
  qed
  obtain o1 where o1: "set_vu out i (fst bu) (snd bu) = Some o1" "vec_ok o1" "v_width o1 = v_width out"
    "v_signed o1 = v_signed out" "v_str o1 = v_str out"
    "\<And>j. vbit o1 j = (if j = i then l4 (bit (fst bu) 0) (bit (snd bu) 0) else vbit out j)"
    by (rule set_vu_in [OF assms(1,2), of "fst bu" "snd bu"]) (rule that, assumption+)
  have "select_fill src lsb (i # rest) out = select_fill src lsb rest o1"
  proof (cases ok)
    case True
    then show ?thesis using o1(1) unfolding bu_def ok_def by (simp add: wr Let_def)
  next
    case False
    then have "set_vu out i 0 1 = Some o1" using o1(1) by (simp add: bu_def)
    then show ?thesis using False unfolding ok_def select_fill.simps Let_def wr by (simp only: if_False Option.bind.simps)
  qed
  then show ?thesis by (rule that) (simp_all only: o1 bu)
qed

lemma select_fill_result:
  assumes "vec_ok out" and "\<forall>i \<in> set is. i < v_width out"
    and "- (2 ^ 63) \<le> lsb" and "lsb + int (v_width out) \<le> 2 ^ 63"
  shows "\<exists>out'. select_fill src lsb is out = Some out' \<and> vec_ok out' \<and> v_width out' = v_width out
    \<and> v_signed out' = v_signed out \<and> v_str out' = v_str out
    \<and> (\<forall>j. vbit out' j = (if j \<in> set is then narrow_bit src (lsb + int j) else vbit out j))"
  using assms
proof (induction "is" arbitrary: out)
  case Nil
  then show ?case by simp
next
  case (Cons i rest)
  have i: "i < v_width out" "- (2 ^ 63) \<le> lsb + int i" "lsb + int i < 2 ^ 63" using Cons.prems by auto
  obtain o1 where o1: "select_fill src lsb (i # rest) out = select_fill src lsb rest o1" "vec_ok o1"
    "v_width o1 = v_width out" "v_signed o1 = v_signed out" "v_str o1 = v_str out"
    "\<And>j. vbit o1 j = (if j = i then narrow_bit src (lsb + int i) else vbit out j)"
    by (rule select_fill_step [OF Cons.prems(1) i, of src rest]) (rule that, assumption+)
  have "\<exists>out'. select_fill src lsb rest o1 = Some out' \<and> vec_ok out' \<and> v_width out' = v_width o1
    \<and> v_signed out' = v_signed o1 \<and> v_str out' = v_str o1
    \<and> (\<forall>j. vbit out' j = (if j \<in> set rest then narrow_bit src (lsb + int j) else vbit o1 j))"
    by (rule Cons.IH) (use o1 Cons.prems in auto)
  then show ?case using o1 by auto
qed

lemma select_lsb_ge: "select_lsb_width kind (int n) width = (lsb, w) \<Longrightarrow> - int w \<le> lsb"
  by (cases kind) (auto simp: select_lsb_width_def)

lemma select_lsb_named:
  "select_lsb_width kind b width = (lsb, w) \<Longrightarrow> named_bits kind b width = map (\<lambda>i. lsb + int i) [0..<w]"
  by (rule nth_equalityI) (auto simp: length_named_bits nth_named_bits select_lsb_width_def split: sel_kind.splits)

lemma select_value_narrow:
  assumes "vec_ok src" and "v_width src < 2 ^ 32" and "to_u64 off_val = Some k" and "unat k < 2 ^ 63"
    and "select_lsb_width kind (int (unat k)) width = (lsb, w)"
    and "lsb + int w \<le> 2 ^ 63" and "w < 2 ^ 32"
  shows "\<exists>v. select_value kind src off_val width = Some v \<and> vec_ok v \<and> \<not> v_signed v \<and> \<not> v_str v
    \<and> bits_of v = map (\<lambda>i. narrow_bit src (lsb + int i)) [0..<w]"
proof -
  define out where "out = (zeros (max w 1) False)\<lparr>v_width := w\<rparr>"
  have out: "roomy (max w 1) out" "v_width out = w" "\<not> v_signed out" "\<not> v_str out"
    "\<And>j. vbit out j = L0" unfolding out_def by (rule roomy_zeros, simp_all only: roomy_zeros) simp_all
  have fin: ?thesis if sv: "select_value kind src off_val width = Some (mask_top v)" and v: "\<not> v_real v" "v_width v = w"
    "\<not> v_signed v" "\<not> v_str v" "\<And>i. i < w \<Longrightarrow> vbit v i = narrow_bit src (lsb + int i)" for v
  proof -
    have "bits_from v 0 (v_width v) = map (\<lambda>i. narrow_bit src (lsb + int i)) [0..<w]"
      unfolding bits_from_def v(2) by (rule map_cong) (simp_all add: v(5))
    then show ?thesis using sv v mask_top_roomy [OF v(1), of "map (\<lambda>i. narrow_bit src (lsb + int i)) [0..<w]"]
      by (intro exI [of _ "mask_top v"]) simp
  qed
  define inr where "inr \<longleftrightarrow> 0 \<le> lsb \<and> lsb + int w \<le> int (v_width src)"
  have sv: "select_value kind src off_val width = (if inr then map_option mask_top (copy_bits out 0 src (nat lsb) w)
      else map_option mask_top (select_fill src lsb [0..<w] out))"
    using assms(3-5) by (simp add: select_value_def inr_def out_def Let_def)
  show ?thesis
  proof (cases inr)
    case True
    obtain o1 where o1: "copy_bits out 0 src (nat lsb) w = Some o1" "roomy (max w 1) o1"
      "v_width o1 = v_width out" "v_signed o1 = v_signed out" "v_str o1 = v_str out"
      "\<And>j. vbit o1 j = (if 0 \<le> j \<and> j < 0 + w then vbit src (nat lsb + j - 0) else vbit out j)"
      by (rule copy_bits_roomy [OF out(1), of 0 w src "nat lsb"]) (use out(5) in auto)
    have "vbit o1 i = narrow_bit src (lsb + int i)" if "i < w" for i
    proof -
      have "lsb + int i < int (v_width src)" using that True by (simp add: inr_def)
      moreover from this have "narrow_bit src (lsb + int i) = sel_bit src (lsb + int i)"
        using assms(2) by (intro narrow_bit_small) simp
      ultimately show ?thesis using that True o1(6) [of i] by (simp add: inr_def sel_bit_def nat_add_distrib)
    qed
    then show ?thesis using sv True o1(1-5) out by (intro fin [of o1]) (simp_all add: roomy_def)
  next
    case False
    show ?thesis
    proof (cases "w = 0")
      case True
      then show ?thesis using sv False out by (intro fin [of out]) (simp_all add: roomy_def)
    next
      case w: False
      then have z: "out = zeros w False" by (simp add: out_def)
      have "- (2 ^ 63) \<le> lsb" using select_lsb_ge [OF assms(5)] assms(7) by simp
      then obtain o1 where o1: "select_fill src lsb [0..<w] out = Some o1" "vec_ok o1" "v_width o1 = w"
        "\<not> v_signed o1" "\<not> v_str o1" "\<And>j. vbit o1 j = (if j \<in> set [0..<w] then narrow_bit src (lsb + int j) else vbit out j)"
        using select_fill_result [of out "[0..<w]" lsb src] assms(6) out z by auto
      then show ?thesis using sv False by (intro fin [of o1]) (simp_all add: vec_ok_def)
    qed
  qed
qed

lemma select_value_bits:
  assumes "vec_ok src" and "v_width src < 2 ^ 32" and "to_u64 off_val = Some k" and "unat k < 2 ^ 63"
    and "select_lsb_width kind (int (unat k)) width = (lsb, w)"
    and "lsb + int w \<le> 2 ^ 32" and "w < 2 ^ 32"
  shows "\<exists>v. select_value kind src off_val width = Some v \<and> vec_ok v \<and> \<not> v_signed v \<and> \<not> v_str v
    \<and> bits_of v = map (\<lambda>i. sel_bit src (lsb + int i)) [0..<w]"
proof -
  have "map (\<lambda>i. narrow_bit src (lsb + int i)) [0..<w] = map (\<lambda>i. sel_bit src (lsb + int i)) [0..<w]"
    using assms(6) by (auto intro!: narrow_bit_small)
  moreover have "lsb + int w \<le> 2 ^ 63" using assms(6) by simp
  ultimately show ?thesis using select_value_narrow [OF assms(1-5) _ assms(7)] by (simp only:)
qed

lemma select_value_named:
  assumes "vec_ok src" and "v_width src < 2 ^ 32" and "to_u64 off_val = Some k" and "unat k < 2 ^ 63" and "width < 2 ^ 32"
    and "\<forall>p \<in> set (named_bits kind (int (unat k)) width). p < 2 ^ 63"
  shows "\<exists>v. select_value kind src off_val width = Some v \<and> vec_ok v \<and> \<not> v_signed v \<and> \<not> v_str v
    \<and> bits_of v = map (narrow_bit src) (named_bits kind (int (unat k)) width)"
proof -
  obtain lsb w where lw: "select_lsb_width kind (int (unat k)) width = (lsb, w)"
    by (cases "select_lsb_width kind (int (unat k)) width")
  note n = select_lsb_named [OF lw]
  have w: "w < 2 ^ 32" using lw assms(5) by (cases kind) (auto simp: select_lsb_width_def)
  have "lsb + int w \<le> 2 ^ 63"
  proof (cases w)
    case 0
    moreover have "int (unat k) < 2 ^ 63" using assms(4) by (simp only: of_nat_less_numeral_power_cancel_iff)
    ultimately show ?thesis using lw by (cases kind) (auto simp: select_lsb_width_def)
  next
    case (Suc u)
    then have "lsb + int u \<in> set (named_bits kind (int (unat k)) width)" unfolding n by simp
    then show ?thesis using assms(6) Suc by fastforce
  qed
  from select_value_narrow [OF assms(1-4) lw this w] show ?thesis unfolding n by (simp add: comp_def)
qed

lemma bits_of_ext:
  assumes "vec_ok a" and "vec_ok b" and "v_signed a = v_signed b" and "v_str a = v_str b" and "bits_of a = bits_of b"
  shows "a = b"
proof (rule vec_ok_ext [OF assms(1,2) _ assms(3,4)])
  show w: "v_width a = v_width b" using arg_cong [OF assms(5), of length] by simp
  show "vbit a i = vbit b i" if "i < v_width a" for i
    using that w nth_bits_of [of i a] nth_bits_of [of i b] assms(5) by simp
qed

section \<open>Properties\<close>

text \<open>Replacing a window of a vector sets exactly the window's bits to the source's and keeps
  every other bit; the word-parallel copy never leaves the planes.\<close>

theorem replace_bits_moves_window:
  assumes "vec_ok dst" and "dst_off + w \<le> v_width dst"
  shows "\<exists>dst'. replace_bits dst dst_off src src_off w = Some dst' \<and> vec_ok dst'
    \<and> v_width dst' = v_width dst \<and> v_signed dst' = v_signed dst
    \<and> (\<forall>j. vbit dst' j = (if dst_off \<le> j \<and> j < dst_off + w then vbit src (src_off + j - dst_off) else vbit dst j))"
  using replace_bits_result [OF assms, of src src_off] by metis

theorem replace_bits_moves_window_witness:
  "\<exists>dst'. replace_bits (byte_value 7) 2 (byte_value 5) 1 4 = Some dst' \<and> vec_ok dst'"
  using replace_bits_moves_window [of "byte_value 7" 2 4 "byte_value 5" 1] byte_value_ok(1) [of 7]
  by (auto simp: val_ok_def)

text \<open>C20: A concatenation never panics below \<open>2 ^ 32\<close> bits; its bits, least significant first, are
  those of the parts from the last to the first.\<close>

theorem concat_appends_parts:
  assumes "sum_list (map v_width vals) < 2 ^ 32"
  shows "\<exists>v. concat_value vals = Some v \<and> vec_ok v \<and> \<not> v_signed v
    \<and> bits_of v = concat (map bits_of (rev vals))"
  using concat_value_bits [OF assms] by blast

theorem concat_appends_parts_witness:
  "\<exists>v. concat_value [byte_value 1, byte_value 2] = Some v \<and> bits_of v = bits_of (byte_value 2) @ bits_of (byte_value 1)"
  using concat_appends_parts [of "[byte_value 1, byte_value 2]"] by (auto simp: byte_value_fields)

text \<open>A replication is the concatenation of its copies.\<close>

theorem replicate_repeats_value:
  assumes "v_width v * count < 2 ^ 32"
  shows "\<exists>r. replicate_value count v = Some r \<and> vec_ok r \<and> \<not> v_signed r
    \<and> bits_of r = concat (replicate count (bits_of v)) \<and> concat_value (replicate count v) = Some r"
proof -
  obtain r where r: "replicate_value count v = Some r" "vec_ok r" "\<not> v_signed r" "\<not> v_str r"
    "bits_of r = concat (replicate count (bits_of v))" using replicate_value_bits [OF assms] by blast
  have "sum_list (map v_width (replicate count v)) < 2 ^ 32" using assms by (simp add: sum_list_replicate mult.commute)
  from concat_value_bits [OF this] obtain c where c: "concat_value (replicate count v) = Some c" "vec_ok c"
    "\<not> v_signed c" "\<not> v_str c" "bits_of c = concat (map bits_of (rev (replicate count v)))" by blast
  have b: "bits_of c = bits_of r" using c(5) r(5) by simp
  have "c = r"
    by (rule bits_of_ext) (use b c r in \<open>simp_all\<close>)
  then show ?thesis using r c by blast
qed

theorem replicate_repeats_value_witness:
  "\<exists>r. replicate_value 3 (byte_value 5) = Some r \<and> concat_value (replicate 3 (byte_value 5)) = Some r"
  using replicate_repeats_value [of "byte_value 5" 3] by (auto simp: byte_value_fields)



text \<open>C22: The per-bit path of a select narrows a position to 32 bits before it compares it with the
  width of the vector.  So for every vector and every known offset below \<open>2 ^ 63\<close>, a named position \<open>p\<close> at or
  above \<open>2 ^ 32\<close>, which no vector has, reads the vector's bit \<open>p mod 2 ^ 32\<close> when there is one; it is \<open>x\<close>
  only when that bit too is outside.\<close>

theorem select_index_aliases:
  assumes "vec_ok src" and "v_width src < 2 ^ 32" and "to_u64 off_val = Some k" and "unat k < 2 ^ 63" and "width < 2 ^ 32"
    and "\<forall>p \<in> set (named_bits kind (int (unat k)) width). p < 2 ^ 63"
    and "i < length (named_bits kind (int (unat k)) width)"
    and "p = named_bits kind (int (unat k)) width ! i" and "2 ^ 32 \<le> p"
  shows "\<exists>v. select_value kind src off_val width = Some v
    \<and> bits_of v ! i = (if p mod 2 ^ 32 < int (v_width src) then vbit src (nat (p mod 2 ^ 32)) else LX)"
proof -
  have "0 \<le> p" using assms(9) by simp
  then have "narrow_bit src p = (if p mod 2 ^ 32 < int (v_width src) then vbit src (nat (p mod 2 ^ 32)) else LX)"
    by (simp add: narrow_bit_def sel_bit_def)
  then show ?thesis using select_value_named [OF assms(1-6)] assms(7,8) by auto
qed

text \<open>The index \<open>2 ^ 32\<close> of a byte reads its bit 0.\<close>

definition index_word :: "u64 \<Rightarrow> sim_value" where
  "index_word k = \<lparr>v_val = [k], v_unk = [0], v_width = 64, v_signed = False, v_real = False, v_str = False\<rparr>"

theorem select_index_aliases_witness:
  "\<exists>v. select_value Bit (byte_value 5) (index_word (2 ^ 32)) 1 = Some v \<and> bits_of v ! 0 = L1"
proof -
  have "to_u64 (index_word (2 ^ 32)) = Some (2 ^ 32)"
    by (simp add: index_word_def to_u64_def has_xz_def v_nwords_def v_low_mask_def Let_def)
  moreover have "vbit (byte_value 5) 0 = L1" by (simp add: vbit_def pbit_def)
  ultimately show ?thesis
    using select_index_aliases [of "byte_value 5" "index_word (2 ^ 32)" "2 ^ 32" 1 Bit 0 "2 ^ 32"] byte_value_ok(1) [of 5]
    by (auto simp: val_ok_def byte_value_fields named_bits_def)
qed

end
