(* ===== verification/IrTypes.thy ===== *)
theory IrTypes
  imports Values Ir
begin

text \<open>
  The frozen simulation IR, \<open>crates/sim-ir/src/lib.rs\<close>: expressions, statements, terminators and the
  arenas that hold them.  An id is an index into its arena, a \<open>nat\<close>.  The 86 system functions are
  grouped by the sections of the source's enumeration (one datatype per section, \<open>sys_func_id\<close> their
  sum); the order of the constructors is the source's.
\<close>

section \<open>System functions and tasks\<close>

datatype sf_base =
      S_Time | S_Realtime | S_Signed | S_Unsigned | S_Clog2 | S_Rtoi | S_Itor | S_RealToBits
    | S_BitsToReal

datatype sf_dyn =
      S_DynSize | S_QPopBack | S_QPopFront | S_AssocExists | S_AssocNum | S_AssocFirst
    | S_AssocNext | S_AssocLast | S_AssocPrev

datatype sf_v7 =
      S_Random | S_Urandom | S_UrandomRange | S_CountOnes | S_OneHot | S_OneHot0 | S_IsUnknown
    | S_Stime | S_Fopen | S_Sformatf | S_TestPlusargs | S_ValuePlusargs

datatype sf_string =
      S_StrLen | S_StrGetC | S_StrSubstr | S_StrToUpper | S_StrToLower | S_StrCmp

datatype sf_v9 =
      S_Fgets | S_Fscanf | S_Sscanf | S_Fread | S_Feof | S_Fgetc | S_Ungetc | S_DistUniform
    | S_DistNormal | S_DistExponential | S_DistPoisson | S_DistChiSquare | S_Cast

datatype sf_array =
      S_ArrSum | S_ArrProduct | S_ArrAnd | S_ArrOr | S_ArrXor

datatype sf_convert =
      S_StrAtoi | S_StrAtohex | S_StrAtooct | S_StrAtobin | S_StrAtoreal

datatype sf_math =
      S_Ln | S_Log10 | S_Exp | S_Sqrt | S_Pow | S_Floor | S_Ceil | S_Sin | S_Cos | S_Tan | S_Asin
    | S_Acos | S_Atan | S_Atan2 | S_Hypot | S_Sinh | S_Cosh | S_Tanh | S_Asinh | S_Acosh | S_Atanh

datatype sf_late =
      S_DistT | S_DistErlang | S_StrCast | S_RealToInt | S_TwoState | S_ReadmemAssocTarget

datatype sys_func_id =
      F_base sf_base | F_dyn sf_dyn | F_v7 sf_v7 | F_string sf_string | F_v9 sf_v9
    | F_array sf_array | F_convert sf_convert | F_math sf_math | F_late sf_late

datatype sys_task_id =
      T_Display | T_Write | T_Monitor | T_Strobe | T_Finish | T_Stop | T_DumpFile | T_DumpVars
    | T_DumpOn | T_DumpOff | T_DumpAll | T_DumpFlush | T_DumpLimit | T_DynNew | T_DynDelete
    | T_QPushBack | T_QPushFront | T_AssocDeleteKey | T_QInsert | T_QDeleteIdx | T_Fclose
    | T_Fdisplay | T_Fwrite | T_Sformat | T_ReadmemB | T_ReadmemH | T_StrPutC | T_WritememB
    | T_WritememH | T_Cast | T_MonitorOn | T_MonitorOff | T_ClassRandomize | T_ArrSort | T_ArrRsort
    | T_ArrReverse | T_StrItoa | T_StrHextoa | T_StrOcttoa | T_StrBintoa | T_ArrLocator

section \<open>Expressions\<close>

datatype expr =
    Const nat
  | Signal nat "nat option"
  | Select nat nat nat sel_kind
  | Concat "nat list"
  | Replicate nat nat
  | Unary un_op nat
  | Binary bin_op nat nat
  | Ternary nat nat nat
  | SysFunc sys_func_id "nat list"
  | Call nat "nat list"
  | ArrayItem bool nat bool

datatype const_repr = Numeric | StrUtf8 | RealRepr

record const_val =
  c_width :: nat
  c_signed :: bool
  c_repr :: const_repr
  c_bits :: bit_packed

section \<open>Nets\<close>

datatype net_kind =
  Wire | Reg | Logic | Integer | RealNet | DynArray | Queue | Assoc | AssocStr | StringNet

datatype port_dir = Input | Output | Inout | Internal

record net_var =
  n_kind :: net_kind
  n_width :: nat
  n_msb :: nat
  n_lsb :: nat
  n_signed :: bool
  n_array_len :: nat
  n_dir :: port_dir
  n_init :: bit_packed

section \<open>Statements\<close>

record lval_chunk =
  ch_net :: nat
  ch_word :: "nat option"
  ch_offset :: "nat option"
  ch_width :: "nat option"
  ch_kind :: sel_kind

record lvalue =
  chunks :: "lval_chunk list"

datatype disable_kind = DisFork | DisScope

datatype stmt =
    BlockingAssign lvalue nat
  | NonblockingAssign lvalue nat "nat option"
  | SysTask sys_task_id "nat option" "nat list"
  | Disable disable_kind nat
  | Force lvalue nat
  | Release lvalue

record cont_assign =
  ca_lhs :: lvalue
  ca_rhs :: nat
  ca_delay :: "nat option"

section \<open>Control flow\<close>

datatype edge_kind = Posedge | Negedge | AnyEdge

datatype delay_region = ActiveRegion | InactiveRegion

datatype wait_cause =
    WaitEdge nat edge_kind
  | WaitLevel "nat list"
  | WaitExpr nat
  | WaitNamed nat
  | WaitFork

datatype terminator =
    Goto nat
  | Branch nat nat nat
  | Delay nat delay_region nat
  | Wait wait_cause nat
  | Fork "nat list" nat nat
  | TCall nat nat
  | Return

record basic_block =
  bb_stmts :: "nat list"
  bb_term :: terminator

record func_def =
  f_entry :: nat
  f_n_params :: nat
  f_locals_len :: nat
  f_is_task :: bool

section \<open>Looking an id up\<close>

text \<open>\<open>slice.get(i)\<close>; \<open>slice[i]\<close> is the same lookup with \<open>None\<close> its panic.\<close>

definition arena_get :: "'a list \<Rightarrow> nat \<Rightarrow> 'a option" where
  "arena_get xs i = (if i < length xs then Some (xs ! i) else None)"

lemma arena_get_Some [simp]: "arena_get xs i = Some x \<longleftrightarrow> i < length xs \<and> xs ! i = x"
  by (auto simp: arena_get_def)

lemma arena_get_None [simp]: "arena_get xs i = None \<longleftrightarrow> length xs \<le> i"
  by (auto simp: arena_get_def)

lemma arena_get_in: "i < length xs \<Longrightarrow> arena_get xs i = Some (xs ! i)"
  by simp

end
