(* ===== verification/ConstFold.thy ===== *)
theory ConstFold
  imports IrTypes LimbPower
begin

text \<open>
  The constant fold of select widths and replication counts, \<open>const_u32_of_expr_ctx\<close> of
  \<open>crates/sim-ir/src/selfwidth.rs\<close>.  The fold follows expression ids and would not return on a
  cyclic arena, so it is a \<open>partial_function\<close>: the outer \<open>None\<close> is a panic or no return, the inner
  one the source's own \<open>None\<close>.  On a post-order arena it returns for every expression.
\<close>

section \<open>The arenas\<close>

record expr_ctx =
  x_exprs :: "expr list"
  x_consts :: "const_val list"
  x_nets :: "net_var list"

definition width_max :: nat where
  "width_max = 2 ^ 24"

definition u32_max :: nat where
  "u32_max = 2 ^ 32 - 1"

definition clamp_w :: "nat \<Rightarrow> nat" where
  "clamp_w w = min w width_max"

definition add_w :: "nat \<Rightarrow> nat \<Rightarrow> nat" where
  "add_w a b = clamp_w (min (a + b) u32_max)"

definition mul_w :: "nat \<Rightarrow> nat \<Rightarrow> nat" where
  "mul_w a b = clamp_w (min (a * b) u32_max)"

text \<open>\<open>u64::leading_zeros\<close>.\<close>

definition leading_zeros :: "u64 \<Rightarrow> nat" where
  "leading_zeros x = length (takeWhile (\<lambda>i. \<not> bit x i) (rev [0..<64]))"

section \<open>The fold\<close>

definition const_leaf :: "const_val \<Rightarrow> nat option" where
  "const_leaf c =
     (if list_ex (\<lambda>u. u \<noteq> 0) (p_unk (c_bits c)) then None
      else (let word0 = wget (p_val (c_bits c)) 0;
                high_words_set = list_ex (\<lambda>v. v \<noteq> 0) (drop 1 (p_val (c_bits c)))
            in if high_words_set \<or> u32_max < unat word0 then Some width_max
               else Some (min (unat word0) width_max)))"

definition clog2_leaf :: "const_val \<Rightarrow> nat option" where
  "clog2_leaf c =
     (if c_repr c \<noteq> Numeric then None
      else if list_ex (\<lambda>u. u \<noteq> 0) (p_unk (c_bits c)) \<or> list_ex (\<lambda>v. v \<noteq> 0) (drop 1 (p_val (c_bits c))) then None
      else (let n = wget (p_val (c_bits c)) 0
            in if c_signed c \<and> 1 \<le> c_width c \<and> c_width c \<le> 64 \<and> drop_bit (c_width c - 1) n AND 1 = 1 then None
               else Some (if n \<le> 1 then 0 else 64 - leading_zeros (n - 1))))"

definition clog2_arg :: "expr_ctx \<Rightarrow> nat \<Rightarrow> nat option option" where
  "clog2_arg ir a =
     Option.bind (arena_get (x_exprs ir) a)
       (\<lambda>e. case e of
              Const v \<Rightarrow> map_option clog2_leaf (arena_get (x_consts ir) v)
            | _ \<Rightarrow> Some None)"

definition is_clog2 :: "sys_func_id \<Rightarrow> nat list \<Rightarrow> bool" where
  "is_clog2 which args \<longleftrightarrow> which = F_base S_Clog2 \<and> length args = 1"

partial_function (option) const_u32_of_expr_ctx :: "expr_ctx \<Rightarrow> nat \<Rightarrow> nat option option" where
  "const_u32_of_expr_ctx ir eid =
     Option.bind (arena_get (x_exprs ir) eid)
       (\<lambda>e. case e of
          Const v \<Rightarrow> map_option const_leaf (arena_get (x_consts ir) v)
        | Binary op lhs rhs \<Rightarrow>
            (if op = Add then
               Option.bind (const_u32_of_expr_ctx ir lhs)
                 (\<lambda>a. case a of None \<Rightarrow> Some None
                   | Some a \<Rightarrow> Option.bind (const_u32_of_expr_ctx ir rhs)
                       (\<lambda>b. Some (map_option (\<lambda>b. clamp_w (min (a + b) u32_max)) b)))
             else if op = Sub then
               Option.bind (const_u32_of_expr_ctx ir lhs)
                 (\<lambda>a. case a of None \<Rightarrow> Some None
                   | Some a \<Rightarrow> Option.bind (const_u32_of_expr_ctx ir rhs)
                       (\<lambda>b. Some (map_option (\<lambda>b. a - b) b)))
             else Some None)
        | SysFunc which args \<Rightarrow>
            (if is_clog2 which args then clog2_arg ir (hd args) else Some None)
        | _ \<Rightarrow> Some None)"

declare const_u32_of_expr_ctx.simps [code]

section \<open>Post-order arenas\<close>

text \<open>The sub-expressions a node evaluates or folds.\<close>

definition expr_children :: "expr \<Rightarrow> nat list" where
  "expr_children e =
     (case e of
        Const _ \<Rightarrow> []
      | Signal _ word \<Rightarrow> (case word of None \<Rightarrow> [] | Some w \<Rightarrow> [w])
      | Select b off w _ \<Rightarrow> [b, off, w]
      | Concat parts \<Rightarrow> parts
      | Replicate n v \<Rightarrow> [n, v]
      | Unary _ a \<Rightarrow> [a]
      | Binary _ l r \<Rightarrow> [l, r]
      | Ternary c t f \<Rightarrow> [c, t, f]
      | SysFunc _ args \<Rightarrow> args
      | Call _ args \<Rightarrow> args
      | ArrayItem _ _ _ \<Rightarrow> [])"

definition node_ok :: "expr_ctx \<Rightarrow> nat \<Rightarrow> bool" where
  "node_ok ir i \<longleftrightarrow>
     (\<forall>c \<in> set (expr_children (x_exprs ir ! i)). c < i) \<and>
     (case x_exprs ir ! i of Const v \<Rightarrow> v < length (x_consts ir) | _ \<Rightarrow> True)"

definition post_order :: "expr_ctx \<Rightarrow> bool" where
  "post_order ir \<longleftrightarrow> (\<forall>i < length (x_exprs ir). node_ok ir i)"

lemma post_order_children:
  "post_order ir \<Longrightarrow> i < length (x_exprs ir) \<Longrightarrow> c \<in> set (expr_children (x_exprs ir ! i)) \<Longrightarrow> c < i"
  by (simp add: post_order_def node_ok_def)

lemma post_order_const:
  "post_order ir \<Longrightarrow> i < length (x_exprs ir) \<Longrightarrow> x_exprs ir ! i = Const v \<Longrightarrow> v < length (x_consts ir)"
  by (auto simp: post_order_def node_ok_def)

section \<open>Return and range\<close>

lemma clamp_w_le [simp]: "clamp_w w \<le> width_max"
  by (simp add: clamp_w_def)

lemma add_w_le [simp]: "add_w a b \<le> width_max" and mul_w_le [simp]: "mul_w a b \<le> width_max"
  by (simp_all add: add_w_def mul_w_def)

lemma width_max_lt: "width_max < u32_max"
  by (simp add: width_max_def u32_max_def)

lemma const_leaf_le: "const_leaf c = Some n \<Longrightarrow> n \<le> width_max"
  by (auto simp: const_leaf_def Let_def split: if_splits)

lemma clog2_leaf_le: "clog2_leaf c = Some n \<Longrightarrow> n \<le> 64"
  by (auto simp: clog2_leaf_def Let_def split: if_splits)

lemma clog2_arg_returns:
  assumes "post_order ir" and "a < length (x_exprs ir)"
  obtains r where "clog2_arg ir a = Some r" "\<And>n. r = Some n \<Longrightarrow> n \<le> 64"
proof (cases "x_exprs ir ! a")
  case (Const v)
  then have "v < length (x_consts ir)" using post_order_const [OF assms] by blast
  then show ?thesis using that [of "clog2_leaf (x_consts ir ! v)"] assms(2) Const clog2_leaf_le
    by (simp add: clog2_arg_def arena_get_in)
qed (use that [of None] assms(2) in \<open>simp_all add: clog2_arg_def arena_get_in\<close>)

lemma const_u32_returns:
  assumes "post_order ir" and "eid < length (x_exprs ir)"
  shows "\<exists>r. const_u32_of_expr_ctx ir eid = Some r \<and> (\<forall>n. r = Some n \<longrightarrow> n \<le> width_max)"
  using assms(2)
proof (induction eid rule: less_induct)
  case (less eid)
  note st = const_u32_of_expr_ctx.simps [of ir eid, unfolded arena_get_in [OF less.prems] Option.bind.simps]
  note ch = post_order_children [OF assms(1) less.prems]
  show ?case
  proof (cases "x_exprs ir ! eid")
    case (Const v)
    then show ?thesis using post_order_const [OF assms(1) less.prems] const_leaf_le
      by (simp add: st arena_get_in)
  next
    case (Binary op l r)
    then have lr: "l < eid" "r < eid" using ch by (simp_all add: expr_children_def)
    obtain a where a: "const_u32_of_expr_ctx ir l = Some a" "\<And>n. a = Some n \<Longrightarrow> n \<le> width_max"
      using less.IH [OF lr(1)] lr less.prems by auto
    obtain b where b: "const_u32_of_expr_ctx ir r = Some b" "\<And>n. b = Some n \<Longrightarrow> n \<le> width_max"
      using less.IH [OF lr(2)] lr less.prems by auto
    show ?thesis
      by (cases a; cases b) (use a b in \<open>auto simp: st Binary le_diff_conv trans_le_add1\<close>)
  next
    case (SysFunc which args)
    show ?thesis
    proof (cases "is_clog2 which args")
      case True
      then have "hd args \<in> set args" by (cases args) (auto simp: is_clog2_def)
      then have "hd args < length (x_exprs ir)" using ch SysFunc less.prems by (force simp: expr_children_def)
      then obtain r where "clog2_arg ir (hd args) = Some r" "\<And>n. r = Some n \<Longrightarrow> n \<le> 64"
        using clog2_arg_returns [OF assms(1), of "hd args"] by metis
      then show ?thesis using True SysFunc by (fastforce simp: st width_max_def)
    qed (use SysFunc in \<open>simp add: st\<close>)
  qed (simp_all add: st)
qed

section \<open>What the fold computes\<close>

text \<open>The tree's value over the integers, when every node of it is a count the fold can hold.\<close>

definition count_ok :: "int \<Rightarrow> bool" where
  "count_ok k \<longleftrightarrow> 0 \<le> k \<and> k \<le> int width_max"

text \<open>\<open>is_clog2_of n k\<close>: \<open>k\<close> is the ceiling of the binary logarithm of \<open>n\<close> (0 for 0 and 1).\<close>

definition is_clog2_of :: "nat \<Rightarrow> nat \<Rightarrow> bool" where
  "is_clog2_of n k \<longleftrightarrow> n \<le> 2 ^ k \<and> (\<forall>j. n \<le> 2 ^ j \<longrightarrow> k \<le> j)"

inductive plain_value :: "expr_ctx \<Rightarrow> nat \<Rightarrow> int \<Rightarrow> bool" for ir where
  lit: "arena_get (x_exprs ir) e = Some (Const v) \<Longrightarrow> arena_get (x_consts ir) v = Some c \<Longrightarrow>
     \<forall>u \<in> set (p_unk (c_bits c)). u = 0 \<Longrightarrow> count_ok (int (wval (p_val (c_bits c)))) \<Longrightarrow>
     plain_value ir e (int (wval (p_val (c_bits c))))"
| plus: "arena_get (x_exprs ir) e = Some (Binary Add l r) \<Longrightarrow> plain_value ir l a \<Longrightarrow> plain_value ir r b \<Longrightarrow>
     count_ok (a + b) \<Longrightarrow> plain_value ir e (a + b)"
| minus: "arena_get (x_exprs ir) e = Some (Binary Sub l r) \<Longrightarrow> plain_value ir l a \<Longrightarrow> plain_value ir r b \<Longrightarrow>
     count_ok (a - b) \<Longrightarrow> plain_value ir e (a - b)"
| clog2: "arena_get (x_exprs ir) e = Some (SysFunc (F_base S_Clog2) [x]) \<Longrightarrow>
     arena_get (x_exprs ir) x = Some (Const v) \<Longrightarrow> arena_get (x_consts ir) v = Some c \<Longrightarrow>
     c_repr c = Numeric \<Longrightarrow> \<forall>u \<in> set (p_unk (c_bits c)). u = 0 \<Longrightarrow> \<not> c_signed c \<Longrightarrow>
     wval (p_val (c_bits c)) < 2 ^ 64 \<Longrightarrow> is_clog2_of (wval (p_val (c_bits c))) k \<Longrightarrow>
     plain_value ir e (int k)"

lemma wval_split: "wval ws = unat (wget ws 0) + 2 ^ 64 * wval (drop 1 ws)"
  by (cases ws) (simp_all add: wget_def)

lemma high_words_iff: "list_ex (\<lambda>v. v \<noteq> 0) (drop 1 ws) \<longleftrightarrow> 2 ^ 64 \<le> wval ws"
proof -
  have "list_ex (\<lambda>v. v \<noteq> 0) (drop 1 ws) \<longleftrightarrow> wval (drop 1 ws) \<noteq> 0"
    by (auto simp: list_ex_iff wval_eq_0_iff)
  also have "\<dots> \<longleftrightarrow> 2 ^ 64 \<le> wval ws"
    using wval_split [of ws] unat_lt_64 [of "wget ws 0"] by (cases "wval (drop 1 ws)") auto
  finally show ?thesis .
qed

lemma low_word_val: "wval ws < 2 ^ 64 \<Longrightarrow> unat (wget ws 0) = wval ws"
  using wval_split [of ws] by (cases "wval (drop 1 ws)") auto

lemma known_words: "(\<forall>u \<in> set us. u = 0) \<longleftrightarrow> \<not> list_ex (\<lambda>u. u \<noteq> (0 :: u64)) us"
  by (auto simp: list_ex_iff)

lemma const_leaf_plain:
  assumes "\<forall>u \<in> set (p_unk (c_bits c)). u = 0" and "count_ok (int (wval (p_val (c_bits c))))"
  shows "const_leaf c = Some (wval (p_val (c_bits c)))"
proof -
  have w: "wval (p_val (c_bits c)) \<le> width_max" using assms(2) by (simp add: count_ok_def)
  then have "wval (p_val (c_bits c)) < 2 ^ 64" by (simp add: width_max_def)
  then show ?thesis using assms(1) w high_words_iff [of "p_val (c_bits c)"] low_word_val [of "p_val (c_bits c)"]
      width_max_lt by (simp add: const_leaf_def known_words)
qed

lemma takeWhile_bits:
  "leading_zeros x \<le> 64" "\<And>i. i < 64 \<Longrightarrow> 64 - leading_zeros x \<le> i \<Longrightarrow> \<not> bit x i"
  "leading_zeros x < 64 \<Longrightarrow> bit x (63 - leading_zeros x)"
proof -
  let ?P = "\<lambda>i. \<not> bit x i" and ?xs = "rev [0..<64]"
  have nth: "?xs ! k = 63 - k" if "k < 64" for k using that by (simp add: rev_nth del: upt_Suc)
  have len: "length ?xs = 64" by simp
  show le: "leading_zeros x \<le> 64"
    using length_takeWhile_le [of ?P ?xs] unfolding len leading_zeros_def .
  show "\<not> bit x i" if "i < 64" "64 - leading_zeros x \<le> i" for i
  proof -
    have k: "63 - i < leading_zeros x" using that le by linarith
    then have "takeWhile ?P ?xs ! (63 - i) = ?xs ! (63 - i)"
      unfolding leading_zeros_def by (rule takeWhile_nth)
    also have "\<dots> = i" using that(1) by (subst nth) simp_all
    finally have "i \<in> set (takeWhile ?P ?xs)" using k unfolding leading_zeros_def by (metis nth_mem)
    then show ?thesis by (metis set_takeWhileD)
  qed
  show "bit x (63 - leading_zeros x)" if "leading_zeros x < 64"
    using nth_length_takeWhile [of ?P ?xs] that unfolding len leading_zeros_def [symmetric]
    by (simp only: nth simp_thms)
qed

lemma unat_less_power_iff: "k \<le> 64 \<Longrightarrow> unat (x :: u64) < 2 ^ k \<longleftrightarrow> (\<forall>i. k \<le> i \<longrightarrow> i < 64 \<longrightarrow> \<not> bit x i)"
proof -
  have "bit (unat x) i \<longleftrightarrow> i < 64 \<and> bit x i" for i
    using bit_imp_le_length [of x i] by (auto simp: bit_unsigned_iff)
  then show ?thesis unfolding nat_less_power_iff_bits by auto
qed

lemma leading_zeros_bounds:
  "k \<le> 64 \<Longrightarrow> unat x < 2 ^ k \<longleftrightarrow> 64 - leading_zeros x \<le> k"
proof -
  assume k: "k \<le> 64"
  have "(\<forall>i. k \<le> i \<longrightarrow> i < 64 \<longrightarrow> \<not> bit x i) \<longleftrightarrow> 64 - leading_zeros x \<le> k"
  proof
    assume z: "\<forall>i. k \<le> i \<longrightarrow> i < 64 \<longrightarrow> \<not> bit x i"
    show "64 - leading_zeros x \<le> k"
    proof (rule ccontr)
      assume "\<not> 64 - leading_zeros x \<le> k"
      then have "leading_zeros x < 64" "k \<le> 63 - leading_zeros x" by linarith+
      then show False using z takeWhile_bits(3) [of x] by simp
    qed
  qed (use takeWhile_bits(2) [of _ x] in auto)
  then show ?thesis using unat_less_power_iff [OF k, of x] by simp
qed

lemma clog2_words:
  fixes n :: u64
  assumes "is_clog2_of (unat n) k"
  shows "(if n \<le> 1 then 0 else 64 - leading_zeros (n - 1)) = k"
proof (cases "n \<le> 1")
  case True
  then have "unat n \<le> 2 ^ 0" by (simp add: word_le_nat_alt)
  then show ?thesis using True assms unfolding is_clog2_of_def by (metis le_zero_eq)
next
  case False
  then have n: "1 < unat n" and nz: "n \<noteq> 0" by (auto simp: word_le_nat_alt)
  have m: "unat (n - 1) = unat n - 1" using unat_minus_one [OF nz] .
  have le: "j \<le> 64 \<Longrightarrow> unat n \<le> 2 ^ j \<longleftrightarrow> 64 - leading_zeros (n - 1) \<le> j" for j
    using leading_zeros_bounds [of j "n - 1"] n unfolding m by linarith
  have "unat n \<le> 2 ^ 64" using unat_lt_64 [of n] by simp
  then have "k \<le> 64" using assms by (simp add: is_clog2_of_def)
  then have "64 - leading_zeros (n - 1) \<le> k" using assms le [of k] by (simp add: is_clog2_of_def)
  moreover have "k \<le> 64 - leading_zeros (n - 1)"
    using assms le [of "64 - leading_zeros (n - 1)"] by (simp add: is_clog2_of_def)
  ultimately show ?thesis using False by simp
qed

lemma const_u32_plain: "plain_value ir e k \<Longrightarrow> count_ok k \<and> const_u32_of_expr_ctx ir e = Some (Some (nat k))"
proof (induction rule: plain_value.induct)
  case (lit e v c)
  then show ?case by (subst const_u32_of_expr_ctx.simps) (simp add: const_leaf_plain arena_get_in)
next
  case (plus e l r a b)
  moreover from plus have "nat a + nat b = nat (a + b)" by (simp add: count_ok_def nat_add_distrib)
  moreover have "clamp_w (min (nat (a + b)) u32_max) = nat (a + b)"
    using plus width_max_lt by (simp add: count_ok_def clamp_w_def)
  ultimately show ?case by (subst const_u32_of_expr_ctx.simps) (simp add: arena_get_in)
next
  case (minus e l r a b)
  moreover from minus have "nat a - nat b = nat (a - b)" by (simp add: count_ok_def nat_diff_distrib)
  ultimately show ?case by (subst const_u32_of_expr_ctx.simps) (simp add: arena_get_in)
next
  case (clog2 e x v c k)
  have w: "unat (wget (p_val (c_bits c)) 0) = wval (p_val (c_bits c))" using clog2 low_word_val by blast
  have c: "clog2_leaf c = Some k"
    using clog2 high_words_iff [of "p_val (c_bits c)"] clog2_words [of "wget (p_val (c_bits c)) 0" k]
    by (simp add: clog2_leaf_def known_words w Let_def)
  have "k \<le> 64" using clog2_leaf_le [OF c] .
  then have "count_ok (int k)" by (simp add: count_ok_def width_max_def)
  then show ?case using clog2 c
    by (subst const_u32_of_expr_ctx.simps) (simp add: arena_get_in is_clog2_def clog2_arg_def)
qed

section \<open>A sample arena\<close>

text \<open>The tree \<open>(7 - 0) + 1\<close> that lowering builds for the width of \<open>[7:0]\<close>.\<close>

definition int_const :: "u64 \<Rightarrow> const_val" where
  "int_const n = \<lparr>c_width = 32, c_signed = True, c_repr = Numeric, c_bits = \<lparr>p_val = [n], p_unk = [0]\<rparr>\<rparr>"

definition part_width_ctx :: expr_ctx where
  "part_width_ctx =
     \<lparr>x_exprs = [Const 0, Const 1, Binary Sub 0 1, Const 2, Binary Add 2 3],
      x_consts = [int_const 7, int_const 0, int_const 1], x_nets = []\<rparr>"

lemma part_width_ctx_ok: "post_order part_width_ctx"
  by (simp add: post_order_def node_ok_def part_width_ctx_def All_less_Suc expr_children_def
      numeral_eq_Suc)

lemma plain_int_const:
  assumes "arena_get (x_exprs ir) e = Some (Const v)" and "arena_get (x_consts ir) v = Some (int_const n)"
    and "unat n \<le> 2 ^ 24"
  shows "plain_value ir e (int (unat n))"
proof -
  have "wval (p_val (c_bits (int_const n))) = unat n" by (simp add: int_const_def)
  moreover have "count_ok (int (unat n))" unfolding count_ok_def width_max_def using assms(3) by linarith
  ultimately show ?thesis using plain_value.lit [OF assms(1,2)] by (simp add: int_const_def)
qed

lemma part_width_nodes:
  "arena_get (x_exprs part_width_ctx) 0 = Some (Const 0)" "arena_get (x_consts part_width_ctx) 0 = Some (int_const 7)"
  "arena_get (x_exprs part_width_ctx) 1 = Some (Const 1)" "arena_get (x_consts part_width_ctx) 1 = Some (int_const 0)"
  "arena_get (x_exprs part_width_ctx) 3 = Some (Const 2)" "arena_get (x_consts part_width_ctx) 2 = Some (int_const 1)"
  "arena_get (x_exprs part_width_ctx) 2 = Some (Binary Sub 0 1)"
  "arena_get (x_exprs part_width_ctx) 4 = Some (Binary Add 2 3)"
  by (simp_all add: part_width_ctx_def)

lemma part_width_value: "plain_value part_width_ctx 4 8"
proof -
  have c: "plain_value part_width_ctx 0 7" "plain_value part_width_ctx 1 0" "plain_value part_width_ctx 3 1"
    using plain_int_const [OF part_width_nodes(1,2)] plain_int_const [OF part_width_nodes(3,4)]
      plain_int_const [OF part_width_nodes(5,6)] by simp_all
  have "plain_value part_width_ctx 2 (7 - 0)"
    by (rule plain_value.minus [OF part_width_nodes(7) c(1,2)]) (simp add: count_ok_def width_max_def)
  then have "plain_value part_width_ctx 4 (7 - 0 + 1)"
    by (rule plain_value.plus [OF part_width_nodes(8) _ c(3)]) (simp add: count_ok_def width_max_def)
  then show ?thesis by simp
qed

section \<open>Properties\<close>

text \<open>On a post-order arena the constant fold returns for every expression (no panic, no endless
  descent), and a count it yields is at most \<open>WIDTH_MAX\<close>.\<close>

theorem const_fold_returns:
  assumes "post_order ir" and "eid < length (x_exprs ir)"
  shows "\<exists>r. const_u32_of_expr_ctx ir eid = Some r \<and> (r = None \<or> (\<exists>n. r = Some n \<and> n \<le> width_max))"
  using const_u32_returns [OF assms] by (metis not_None_eq)

theorem const_fold_returns_witness: "\<exists>r. const_u32_of_expr_ctx part_width_ctx 4 = Some r"
  using const_fold_returns [OF part_width_ctx_ok, of 4] by (auto simp: part_width_ctx_def)

text \<open>Where every node of a width tree holds a count from 0 to \<open>WIDTH_MAX\<close> over the integers, the
  fold yields exactly that integer; \<open>$clog2\<close> of a literal is the least exponent whose power of two
  reaches it.\<close>

theorem const_fold_exact:
  assumes "plain_value ir e k"
  shows "const_u32_of_expr_ctx ir e = Some (Some (nat k))"
  using const_u32_plain [OF assms] by blast

theorem const_fold_exact_witness: "const_u32_of_expr_ctx part_width_ctx 4 = Some (Some 8)"
  using const_fold_exact [OF part_width_value] by simp

end
