(* ===== verification/SelfWidth.thy ===== *)
theory SelfWidth
  imports ConstFold
begin

text \<open>
  Self-determined width and sign of an expression: \<open>self_width_of\<close> of
  \<open>crates/sim-ir/src/selfwidth.rs\<close>, one definition per group of match arms, and \<open>WidthTable\<close> of
  \<open>crates/sim-engine/src/width.rs\<close>, the forward pass that memoises it over the whole arena.
  \<open>None\<close> is the panic of \<open>child\<close> (an entry read before it is computed) or of an index.
\<close>

section \<open>Width and sign\<close>

record self_width =
  w_width :: nat
  w_signed :: bool

abbreviation SW :: "nat \<Rightarrow> bool \<Rightarrow> self_width" where
  "SW w s \<equiv> \<lparr>w_width = w, w_signed = s\<rparr>"

definition child :: "self_width list \<Rightarrow> nat \<Rightarrow> nat \<Rightarrow> self_width option" where
  "child sw parent c = (if c < length sw \<and> c < parent then Some (sw ! c) else None)"

section \<open>Leaves and selects\<close>

definition self_width_const :: "const_val \<Rightarrow> self_width" where
  "self_width_const c =
     (if c_repr c = RealRepr then SW 64 True
      else SW (clamp_w (max (c_width c) 1)) (c_repr c = Numeric \<and> c_signed c))"

definition self_width_signal :: "expr_ctx \<Rightarrow> nat \<Rightarrow> self_width" where
  "self_width_signal ir net =
     (case arena_get (x_nets ir) net of
        Some nv \<Rightarrow> SW (clamp_w (max (n_width nv) 1)) (n_signed nv)
      | None \<Rightarrow> SW 1 False)"

definition self_width_select :: "expr_ctx \<Rightarrow> nat \<Rightarrow> sel_kind \<Rightarrow> self_width option" where
  "self_width_select ir width kind =
     map_option (\<lambda>w. SW (clamp_w (max w 1)) False)
       (if kind = Bit then Some 1
        else map_option (\<lambda>w. case w of Some w \<Rightarrow> w | None \<Rightarrow> 1) (const_u32_of_expr_ctx ir width))"

section \<open>Concatenation and replication\<close>

fun concat_width :: "self_width list \<Rightarrow> nat \<Rightarrow> nat \<Rightarrow> nat list \<Rightarrow> nat option" where
  "concat_width sw i tot [] = Some tot"
| "concat_width sw i tot (p # parts) =
     Option.bind (child sw i p) (\<lambda>s. concat_width sw i (add_w tot (w_width s)) parts)"

definition self_width_concat :: "self_width list \<Rightarrow> nat \<Rightarrow> nat list \<Rightarrow> self_width option" where
  "self_width_concat sw i parts =
     map_option (\<lambda>tot. SW (clamp_w (max tot 1)) False) (concat_width sw i 0 parts)"

definition self_width_replicate :: "expr_ctx \<Rightarrow> self_width list \<Rightarrow> nat \<Rightarrow> nat \<Rightarrow> nat \<Rightarrow> self_width option" where
  "self_width_replicate ir sw i count value =
     Option.bind (const_u32_of_expr_ctx ir count)
       (\<lambda>n. map_option (\<lambda>v. SW (clamp_w (mul_w (case n of Some n \<Rightarrow> n | None \<Rightarrow> 0) (w_width v))) False)
              (child sw i value))"

section \<open>Operators\<close>

definition self_width_unary :: "un_op \<Rightarrow> self_width \<Rightarrow> self_width" where
  "self_width_unary op x =
     (case op of
        Plus \<Rightarrow> SW (max (w_width x) 1) (w_signed x)
      | Minus \<Rightarrow> SW (max (w_width x) 1) (w_signed x)
      | BitNot \<Rightarrow> SW (max (w_width x) 1) (w_signed x)
      | _ \<Rightarrow> SW 1 False)"

definition self_width_binary :: "bin_op \<Rightarrow> self_width \<Rightarrow> self_width \<Rightarrow> self_width" where
  "self_width_binary op l r =
     (if op \<in> {Add, Sub, Mul, Div, Mod, BitAnd, BitOr, BitXor, BitXnor}
      then SW (clamp_w (max (max (w_width l) (w_width r)) 1)) (w_signed l \<and> w_signed r)
      else if op = Pow then SW (max (w_width l) 1) (w_signed l)
      else if op \<in> {Shl, Shr, AShl, AShr} then SW (max (w_width l) 1) (w_signed l)
      else SW 1 False)"

definition self_width_ternary :: "self_width \<Rightarrow> self_width \<Rightarrow> self_width" where
  "self_width_ternary t e =
     SW (clamp_w (max (max (w_width t) (w_width e)) 1)) (w_signed t \<and> w_signed e)"

section \<open>System functions\<close>

text \<open>The first and last arms of the match answer from the id alone.\<close>

definition sysfunc_width_head :: "sys_func_id \<Rightarrow> self_width option" where
  "sysfunc_width_head which =
     (if which \<in> {F_base S_Time, F_base S_Realtime} then Some (SW 64 False)
      else if which \<in> {F_dyn S_DynSize, F_dyn S_AssocNum} then Some (SW 32 True)
      else if which = F_dyn S_AssocExists then Some (SW 1 False)
      else if which \<in> {F_dyn S_AssocFirst, F_dyn S_AssocNext, F_dyn S_AssocLast, F_dyn S_AssocPrev}
      then Some (SW 32 True)
      else None)"

definition sysfunc_width_tail :: "sys_func_id \<Rightarrow> self_width option" where
  "sysfunc_width_tail which =
     (case which of
        F_base f \<Rightarrow>
          (if f \<in> {S_Clog2, S_Rtoi} then Some (SW 32 True)
           else if f \<in> {S_Itor, S_BitsToReal} then Some (SW 64 True)
           else if f = S_RealToBits then Some (SW 64 False)
           else None)
      | F_math _ \<Rightarrow> Some (SW 64 True)
      | F_v7 f \<Rightarrow>
          (if f \<in> {S_Random, S_CountOnes, S_Fopen, S_TestPlusargs, S_ValuePlusargs} then Some (SW 32 True)
           else if f \<in> {S_Urandom, S_UrandomRange, S_Stime} then Some (SW 32 False)
           else if f \<in> {S_OneHot, S_OneHot0, S_IsUnknown} then Some (SW 1 False)
           else Some (SW 8 False))
      | F_string f \<Rightarrow>
          (if f \<in> {S_StrLen, S_StrCmp} then Some (SW 32 True) else Some (SW 8 False))
      | F_v9 _ \<Rightarrow> Some (SW 32 True)
      | F_convert f \<Rightarrow> (if f = S_StrAtoreal then Some (SW 64 True) else Some (SW 32 True))
      | F_late f \<Rightarrow>
          (if f \<in> {S_DistT, S_DistErlang} then Some (SW 32 True)
           else if f = S_StrCast then Some (SW 8 False)
           else None)
      | _ \<Rightarrow> None)"

text \<open>The handle net of a method's first argument.\<close>

definition handle_net :: "expr_ctx \<Rightarrow> nat list \<Rightarrow> net_var option" where
  "handle_net ir args =
     (case args of
        [] \<Rightarrow> None
      | a # _ \<Rightarrow>
          (case arena_get (x_exprs ir) a of
             Some (Signal net _) \<Rightarrow> arena_get (x_nets ir) net
           | _ \<Rightarrow> None))"

definition first_child :: "self_width list \<Rightarrow> nat \<Rightarrow> nat list \<Rightarrow> self_width option" where
  "first_child sw i args = (case args of [] \<Rightarrow> Some (SW 1 False) | a # _ \<Rightarrow> child sw i a)"

definition elem_funcs :: "sys_func_id set" where
  "elem_funcs = {F_dyn S_QPopBack, F_dyn S_QPopFront, F_array S_ArrSum, F_array S_ArrProduct,
     F_array S_ArrAnd, F_array S_ArrOr, F_array S_ArrXor}"

definition self_width_sysfunc :: "expr_ctx \<Rightarrow> self_width list \<Rightarrow> nat \<Rightarrow> sys_func_id \<Rightarrow> nat list \<Rightarrow> self_width option" where
  "self_width_sysfunc ir sw i which args =
     (case sysfunc_width_head which of
        Some s \<Rightarrow> Some s
      | None \<Rightarrow>
          if which \<in> elem_funcs then
            Some (case handle_net ir args of
                    Some nv \<Rightarrow> SW (max (n_width nv) 1) (n_signed nv)
                  | None \<Rightarrow> SW 32 True)
          else if which = F_base S_Signed then
            map_option (\<lambda>s. SW (max (w_width s) 1) True) (first_child sw i args)
          else if which = F_base S_Unsigned then
            map_option (\<lambda>s. SW (max (w_width s) 1) False) (first_child sw i args)
          else if which = F_late S_RealToInt then Some (SW 128 True)
          else if which = F_late S_TwoState then first_child sw i args
          else if which = F_late S_ReadmemAssocTarget then
            Some (case handle_net ir args of
                    Some nv \<Rightarrow> SW (max (n_width nv) 1) False
                  | None \<Rightarrow> SW 1 False)
          else sysfunc_width_tail which)"

section \<open>The rule\<close>

definition self_width_call :: "(nat \<Rightarrow> (nat \<times> bool) option) \<Rightarrow> nat \<Rightarrow> self_width" where
  "self_width_call call_ret func =
     (case call_ret func of
        Some (w, s) \<Rightarrow> SW (clamp_w (max w 1)) s
      | None \<Rightarrow> SW 1 False)"

definition self_width_of ::
  "expr_ctx \<Rightarrow> (nat \<Rightarrow> (nat \<times> bool) option) \<Rightarrow> self_width list \<Rightarrow> nat \<Rightarrow> self_width option" where
  "self_width_of ir call_ret sw i =
     Option.bind (arena_get (x_exprs ir) i)
       (\<lambda>e. case e of
          Const v \<Rightarrow> map_option self_width_const (arena_get (x_consts ir) v)
        | Signal net _ \<Rightarrow> Some (self_width_signal ir net)
        | ArrayItem _ width sg \<Rightarrow> Some (SW (clamp_w (max width 1)) sg)
        | Select _ _ width kind \<Rightarrow> self_width_select ir width kind
        | Concat parts \<Rightarrow> self_width_concat sw i parts
        | Replicate n v \<Rightarrow> self_width_replicate ir sw i n v
        | Unary op x \<Rightarrow> map_option (self_width_unary op) (child sw i x)
        | Binary op l r \<Rightarrow>
            Option.bind (child sw i l) (\<lambda>l. map_option (self_width_binary op l) (child sw i r))
        | Ternary _ t e \<Rightarrow>
            Option.bind (child sw i t) (\<lambda>t. map_option (self_width_ternary t) (child sw i e))
        | SysFunc which args \<Rightarrow> self_width_sysfunc ir sw i which args
        | Call f _ \<Rightarrow> Some (self_width_call call_ret f))"

section \<open>The width table\<close>

text \<open>\<open>build_with\<close>'s loop over the arena; the class-field sidecar \<open>cf\<close> overrides single entries.\<close>

fun width_pass ::
  "expr_ctx \<Rightarrow> (nat \<Rightarrow> (nat \<times> bool) option) \<Rightarrow> (nat \<rightharpoonup> nat \<times> bool) \<Rightarrow> nat list \<Rightarrow> self_width list \<Rightarrow> self_width list option" where
  "width_pass ir call_ret cf [] sw = Some sw"
| "width_pass ir call_ret cf (i # rest) sw =
     Option.bind
       (case cf i of
          Some (w, sg) \<Rightarrow> Some (SW (clamp_w (max w 1)) sg)
        | None \<Rightarrow> self_width_of ir call_ret sw i)
       (\<lambda>s. width_pass ir call_ret cf rest (sw @ [s]))"

text \<open>The frame-call sidecar, \<open>FuncMeta\<close> of \<open>crates/elaborate/src/tables.rs\<close>.\<close>

record func_meta =
  fm_base_net :: nat
  fm_n_params :: nat
  fm_return_slot :: nat
  fm_locals_len :: nat
  fm_is_automatic :: bool
  fm_ret_width :: nat
  fm_ret_signed :: bool
  fm_auto_override :: u64
  fm_str_params :: u64
  fm_has_hier_call :: bool
  fm_contains_shared_fork :: bool

definition ret_of :: "func_meta list \<Rightarrow> nat \<Rightarrow> (nat \<times> bool) option" where
  "ret_of ft f = map_option (\<lambda>m. (fm_ret_width m, fm_ret_signed m)) (arena_get ft f)"

definition width_table ::
  "expr_ctx \<Rightarrow> func_meta list \<Rightarrow> (nat \<rightharpoonup> nat \<times> bool) \<Rightarrow> self_width list option" where
  "width_table ir ft cf = width_pass ir (ret_of ft) cf [0..<length (x_exprs ir)] []"

section \<open>Totality and range\<close>

definition nets_ok :: "expr_ctx \<Rightarrow> bool" where
  "nets_ok ir \<longleftrightarrow> (\<forall>nv \<in> set (x_nets ir). n_width nv \<le> width_max)"

definition sw_ok :: "self_width list \<Rightarrow> bool" where
  "sw_ok sw \<longleftrightarrow> (\<forall>s \<in> set sw. w_width s \<le> width_max)"

lemma width_max_ge: "1 \<le> width_max" "8 \<le> width_max" "32 \<le> width_max" "64 \<le> width_max" "128 \<le> width_max"
  by (simp_all add: width_max_def)

lemma child_ok:
  assumes "sw_ok sw" and "c < i" and "length sw = i"
  shows "\<exists>s. child sw i c = Some s \<and> w_width s \<le> width_max"
  using assms by (simp add: child_def sw_ok_def)

lemma sysfunc_arms:
  assumes "sysfunc_width_head which = None" and "which \<notin> elem_funcs"
    and "which \<noteq> F_base S_Signed" and "which \<noteq> F_base S_Unsigned" and "which \<noteq> F_late S_RealToInt"
    and "which \<noteq> F_late S_TwoState" and "which \<noteq> F_late S_ReadmemAssocTarget"
  shows "\<exists>s. sysfunc_width_tail which = Some s \<and> w_width s \<le> width_max"
proof (cases which)
  case (F_base f)
  then show ?thesis using assms width_max_ge by (cases f) (simp_all add: sysfunc_width_head_def sysfunc_width_tail_def)
next
  case (F_dyn f)
  then show ?thesis using assms by (cases f) (simp_all add: sysfunc_width_head_def elem_funcs_def)
next
  case (F_array f)
  then show ?thesis using assms by (cases f) (simp_all add: elem_funcs_def)
next
  case (F_late f)
  then show ?thesis using assms width_max_ge by (cases f) (simp_all add: sysfunc_width_tail_def)
qed (use width_max_ge in \<open>simp_all add: sysfunc_width_tail_def\<close>)

lemma sysfunc_head_ok: "sysfunc_width_head which = Some s \<Longrightarrow> w_width s \<le> width_max"
  using width_max_ge by (auto simp: sysfunc_width_head_def split: if_splits)

lemma handle_net_ok: "nets_ok ir \<Longrightarrow> handle_net ir args = Some nv \<Longrightarrow> n_width nv \<le> width_max"
  by (auto simp: handle_net_def nets_ok_def split: list.splits option.splits expr.splits)

lemma first_child_ok:
  assumes "sw_ok sw" and "length sw = i" and "\<And>a. a \<in> set args \<Longrightarrow> a < i"
  shows "\<exists>s. first_child sw i args = Some s \<and> w_width s \<le> width_max"
  using assms child_ok [OF assms(1) _ assms(2)] width_max_ge(1) by (cases args) (simp_all add: first_child_def)

lemma self_width_sysfunc_ok:
  assumes "nets_ok ir" and "sw_ok sw" and "length sw = i" and "\<And>a. a \<in> set args \<Longrightarrow> a < i"
  shows "\<exists>s. self_width_sysfunc ir sw i which args = Some s \<and> w_width s \<le> width_max"
proof (cases "sysfunc_width_head which")
  case (Some s)
  then show ?thesis using sysfunc_head_ok by (simp add: self_width_sysfunc_def)
next
  case None
  obtain s where s: "first_child sw i args = Some s" "w_width s \<le> width_max"
    using first_child_ok [OF assms(2,3)] assms(4) by blast
  consider "which \<in> elem_funcs" | "which = F_base S_Signed" | "which = F_base S_Unsigned" | "which = F_late S_RealToInt"
    | "which = F_late S_TwoState" | "which = F_late S_ReadmemAssocTarget"
    | "which \<notin> elem_funcs" "which \<noteq> F_base S_Signed" "which \<noteq> F_base S_Unsigned" "which \<noteq> F_late S_RealToInt"
      "which \<noteq> F_late S_TwoState" "which \<noteq> F_late S_ReadmemAssocTarget" by blast
  then show ?thesis
  proof cases
    case 1
    then show ?thesis using None handle_net_ok [OF assms(1)] width_max_ge
      by (cases "handle_net ir args") (auto simp: self_width_sysfunc_def)
  next
    case 6
    then show ?thesis using None handle_net_ok [OF assms(1)] width_max_ge
      by (cases "handle_net ir args") (auto simp: self_width_sysfunc_def elem_funcs_def)
  next
    case 7
    then show ?thesis using sysfunc_arms [OF None] by (simp add: self_width_sysfunc_def None)
  qed (use None s width_max_ge in \<open>simp_all add: self_width_sysfunc_def elem_funcs_def\<close>)
qed

lemma concat_width_ok:
  assumes "sw_ok sw" and "length sw = i" and "\<And>p. p \<in> set parts \<Longrightarrow> p < i" and "tot \<le> width_max"
  shows "\<exists>n. concat_width sw i tot parts = Some n \<and> n \<le> width_max"
  using assms(3,4)
proof (induction parts arbitrary: tot)
  case (Cons p parts)
  then show ?case using child_ok [OF assms(1) _ assms(2), of p] by force
qed simp

lemma unary_ok: "w_width x \<le> width_max \<Longrightarrow> w_width (self_width_unary op x) \<le> width_max"
  using width_max_ge(1) by (cases op) (simp_all add: self_width_unary_def)

lemma binary_ok: "w_width l \<le> width_max \<Longrightarrow> w_width (self_width_binary op l r) \<le> width_max"
  using width_max_ge(1) by (simp add: self_width_binary_def)

lemma self_width_of_ok:
  assumes "post_order ir" and "nets_ok ir" and "i < length (x_exprs ir)" and "length sw = i" and "sw_ok sw"
  shows "\<exists>s. self_width_of ir call_ret sw i = Some s \<and> w_width s \<le> width_max"
proof -
  note ch = post_order_children [OF assms(1,3)]
  note d = self_width_of_def arena_get_in [OF assms(3)]
  have cu: "\<exists>r. const_u32_of_expr_ctx ir c = Some r" if "c < i" for c
    using const_u32_returns [OF assms(1), of c] that assms(3) by auto
  note c1 = child_ok [OF assms(5) _ assms(4)]
  show ?thesis
  proof (cases "x_exprs ir ! i")
    case (Const v)
    then show ?thesis using post_order_const [OF assms(1,3)] width_max_ge
      by (simp add: d self_width_const_def arena_get_in)
  next
    case (Signal net w)
    then show ?thesis using width_max_ge by (auto simp: d self_width_signal_def split: option.splits)
  next
    case (Select b off w kind)
    then have "w < i" using ch by (simp add: expr_children_def)
    then obtain r where "const_u32_of_expr_ctx ir w = Some r" using cu by blast
    then show ?thesis using Select by (simp add: d self_width_select_def)
  next
    case (Concat parts)
    then have "\<And>p. p \<in> set parts \<Longrightarrow> p < i" using ch by (simp add: expr_children_def)
    then obtain n where "concat_width sw i 0 parts = Some n" using concat_width_ok [OF assms(5,4)] by blast
    then show ?thesis using Concat by (simp add: d self_width_concat_def)
  next
    case (Replicate n v)
    then have nv: "n < i" "v < i" using ch by (simp_all add: expr_children_def)
    obtain r where "const_u32_of_expr_ctx ir n = Some r" using cu nv by blast
    then show ?thesis using Replicate c1 [OF nv(2)] by (auto simp: d self_width_replicate_def)
  next
    case (Unary op x)
    then have "x < i" using ch by (simp add: expr_children_def)
    then show ?thesis using Unary c1 [of x] unary_ok by (auto simp: d)
  next
    case (Binary op l r)
    then have "l < i" "r < i" using ch by (simp_all add: expr_children_def)
    then show ?thesis using Binary c1 [of l] c1 [of r] binary_ok by (auto simp: d)
  next
    case (Ternary c t e)
    then have "t < i" "e < i" using ch by (simp_all add: expr_children_def)
    then show ?thesis using Ternary c1 [of t] c1 [of e] by (auto simp: d self_width_ternary_def)
  next
    case (SysFunc which args)
    then have "\<And>a. a \<in> set args \<Longrightarrow> a < i" using ch by (simp add: expr_children_def)
    then show ?thesis using SysFunc self_width_sysfunc_ok [OF assms(2,5,4)] by (simp add: d)
  next
    case (Call f args)
    then show ?thesis using width_max_ge by (auto simp: d self_width_call_def split: option.splits)
  next
    case (ArrayItem x w sg)
    then show ?thesis by (simp add: d)
  qed
qed

section \<open>The table solves the rule\<close>

lemma child_prefix: "i \<le> length t \<Longrightarrow> child (take i t) i c = child t i c"
  by (auto simp: child_def)

lemma concat_width_prefix: "i \<le> length t \<Longrightarrow> concat_width (take i t) i tot parts = concat_width t i tot parts"
  by (induction parts arbitrary: tot) (simp_all add: child_prefix)

lemma self_width_of_prefix:
  "i \<le> length t \<Longrightarrow> self_width_of ir call_ret (take i t) i = self_width_of ir call_ret t i"
  unfolding self_width_of_def self_width_concat_def self_width_replicate_def self_width_sysfunc_def first_child_def
  by (simp only: child_prefix concat_width_prefix)

text \<open>What a table of \<open>n\<close> entries satisfies: every entry is the rule's (or the sidecar's) answer read
  off the table itself.\<close>

definition solves :: "expr_ctx \<Rightarrow> (nat \<Rightarrow> (nat \<times> bool) option) \<Rightarrow> (nat \<rightharpoonup> nat \<times> bool) \<Rightarrow> self_width list \<Rightarrow> bool" where
  "solves ir call_ret cf t \<longleftrightarrow>
     (\<forall>i < length t. (case cf i of
         Some (w, sg) \<Rightarrow> Some (SW (clamp_w (max w 1)) sg)
       | None \<Rightarrow> self_width_of ir call_ret t i) = Some (t ! i))"

lemma solves_take: "solves ir call_ret cf t \<Longrightarrow> solves ir call_ret cf (take n t)"
proof -
  assume s: "solves ir call_ret cf t"
  have "self_width_of ir call_ret (take n t) i = self_width_of ir call_ret t i" if "i < n" "i < length t" for i
    using self_width_of_prefix [of i t ir call_ret] self_width_of_prefix [of i "take n t" ir call_ret] that
    by (simp add: min_def)
  then show ?thesis using s by (auto simp: solves_def split: option.splits)
qed

lemma solves_unique:
  assumes "solves ir call_ret cf t" and "solves ir call_ret cf u" and "length t = length u"
  shows "t = u"
proof -
  have "take n t = take n u" if "n \<le> length t" for n
    using that
  proof (induction n)
    case (Suc n)
    then have eq: "take n t = take n u" and n: "n < length t" "n < length u" using assms(3) by simp_all
    have "self_width_of ir call_ret t n = self_width_of ir call_ret u n"
      using self_width_of_prefix [of n t ir call_ret] self_width_of_prefix [of n u ir call_ret] n eq by simp
    then have "Some (t ! n) = Some (u ! n)" using assms(1,2) n unfolding solves_def by (metis (no_types, lifting))
    then show ?case using eq n by (simp add: take_Suc_conv_app_nth)
  qed simp
  from this [of "length t"] show ?thesis using assms(3) by simp
qed

lemma width_pass_ok:
  assumes "post_order ir" and "nets_ok ir"
  shows "length sw \<le> length (x_exprs ir) \<Longrightarrow> sw_ok sw \<Longrightarrow> solves ir call_ret cf sw \<Longrightarrow>
    \<exists>t. width_pass ir call_ret cf [length sw..<length (x_exprs ir)] sw = Some t
      \<and> length t = length (x_exprs ir) \<and> sw_ok t \<and> solves ir call_ret cf t"
proof (induction "length (x_exprs ir) - length sw" arbitrary: sw)
  case 0
  then show ?case by simp
next
  case (Suc k)
  let ?i = "length sw"
  have i: "?i < length (x_exprs ir)" using Suc.hyps(2) by simp
  have "\<exists>s. (case cf ?i of Some (w, sg) \<Rightarrow> Some (SW (clamp_w (max w 1)) sg)
      | None \<Rightarrow> self_width_of ir call_ret sw ?i) = Some s \<and> w_width s \<le> width_max"
    using self_width_of_ok [OF assms i refl Suc.prems(2), of call_ret] by (auto split: option.splits)
  then obtain s where s: "(case cf ?i of Some (w, sg) \<Rightarrow> Some (SW (clamp_w (max w 1)) sg)
      | None \<Rightarrow> self_width_of ir call_ret sw ?i) = Some s" "w_width s \<le> width_max" by blast
  have "solves ir call_ret cf (sw @ [s])"
    unfolding solves_def
  proof (intro allI impI)
    fix j assume "j < length (sw @ [s])"
    then have j: "j \<le> ?i" by simp
    have eq: "self_width_of ir call_ret (sw @ [s]) j = self_width_of ir call_ret sw j"
      using self_width_of_prefix [of j sw ir call_ret] self_width_of_prefix [of j "sw @ [s]" ir call_ret] j by simp
    then show "(case cf j of Some (w, sg) \<Rightarrow> Some (SW (clamp_w (max w 1)) sg)
        | None \<Rightarrow> self_width_of ir call_ret (sw @ [s]) j) = Some ((sw @ [s]) ! j)"
    proof (cases "j = ?i")
      case True
      show ?thesis unfolding eq unfolding True using s(1) by (simp only: nth_append_length)
    next
      case False
      then have "j < ?i" using j by simp
      then show ?thesis unfolding eq using Suc.prems(3) unfolding solves_def by (simp only: nth_append if_True)
    qed
  qed
  moreover have "k = length (x_exprs ir) - length (sw @ [s])" "length (sw @ [s]) \<le> length (x_exprs ir)"
    using Suc.hyps(2) i by simp_all
  moreover have "sw_ok (sw @ [s])" using Suc.prems(2) s(2) by (simp add: sw_ok_def)
  ultimately have "\<exists>t. width_pass ir call_ret cf [length (sw @ [s])..<length (x_exprs ir)] (sw @ [s]) = Some t
      \<and> length t = length (x_exprs ir) \<and> sw_ok t \<and> solves ir call_ret cf t"
    using Suc.hyps(1) [of "sw @ [s]"] by blast
  moreover have "[?i..<length (x_exprs ir)] = ?i # [length (sw @ [s])..<length (x_exprs ir)]"
    using i by (simp add: upt_conv_Cons)
  ultimately show ?case using s(1) by simp
qed

section \<open>Properties\<close>

text \<open>C11: On a post-order arena whose nets keep the width limit the forward pass computes a table of one
  entry per expression without reading an entry early; no width passes the limit, and the table is
  the only one whose every entry is the rule's answer over the table itself (a class field's entry
  the sidecar's).\<close>

theorem width_table_solves_rule:
  assumes "post_order ir" and "nets_ok ir"
  shows "(\<exists>t. width_table ir ft cf = Some t \<and> length t = length (x_exprs ir) \<and> sw_ok t \<and> solves ir (ret_of ft) cf t)
    \<and> (\<exists>!t. length t = length (x_exprs ir) \<and> solves ir (ret_of ft) cf t)"
proof -
  have "solves ir (ret_of ft) cf []" "sw_ok []" by (simp_all add: solves_def sw_ok_def)
  then have t: "\<exists>t. width_table ir ft cf = Some t \<and> length t = length (x_exprs ir) \<and> sw_ok t \<and> solves ir (ret_of ft) cf t"
    using width_pass_ok [OF assms, of "[]" "ret_of ft" cf] by (simp add: width_table_def)
  then show ?thesis using solves_unique by metis
qed

theorem width_table_solves_rule_witness: "\<exists>t. width_table part_width_ctx [] Map.empty = Some t \<and> length t = 5"
  using width_table_solves_rule [OF part_width_ctx_ok, of "[]" Map.empty]
  by (auto simp: nets_ok_def part_width_ctx_def)

end
