(* ===== verification/Realness.thy ===== *)
theory Realness
  imports SelfWidth
begin

text \<open>
  Static real-ness: \<open>expr_is_real_node\<close> of \<open>crates/sim-ir/src/realness.rs\<close> and the pass of
  \<open>crates/sim-engine/src/width.rs\<close> that decides it for the whole arena, with the two predicates of
  that file on assignment targets and formals and the read aliases of the table.
\<close>

section \<open>The rule\<close>

definition real_math_arity :: "sys_func_id \<Rightarrow> nat option" where
  "real_math_arity which =
     (case which of
        F_math f \<Rightarrow> Some (if f \<in> {S_Pow, S_Atan2, S_Hypot} then 2 else 1)
      | _ \<Rightarrow> None)"

record realness_ctx =
  r_exprs :: "expr list"
  r_consts :: "const_val list"
  r_nets :: "net_var list"
  r_real_elem_dyn_nets :: "nat list"
  r_func_ret_is_real :: "nat \<Rightarrow> bool"

definition net_is_real :: "net_var list \<Rightarrow> nat \<Rightarrow> bool" where
  "net_is_real nets net = (case arena_get nets net of Some nv \<Rightarrow> n_kind nv = RealNet | None \<Rightarrow> False)"

definition expr_is_real_node :: "realness_ctx \<Rightarrow> (nat \<Rightarrow> bool) \<Rightarrow> nat \<Rightarrow> bool" where
  "expr_is_real_node cx chld eid =
     (case arena_get (r_exprs cx) eid of
        Some (Const v) \<Rightarrow> (case arena_get (r_consts cx) v of Some c \<Rightarrow> c_repr c = RealRepr | None \<Rightarrow> False)
      | Some (Signal net _) \<Rightarrow> net_is_real (r_nets cx) net \<or> net \<in> set (r_real_elem_dyn_nets cx)
      | Some (Unary op x) \<Rightarrow> op \<in> {Plus, Minus} \<and> chld x
      | Some (Binary op l r) \<Rightarrow> op \<in> {Add, Sub, Mul, Div, Pow} \<and> (chld l \<or> chld r)
      | Some (Ternary _ t e) \<Rightarrow> chld t \<or> chld e
      | Some (SysFunc which args) \<Rightarrow>
          (if which \<in> {F_base S_Signed, F_base S_Unsigned} then list_ex chld args
           else if which = F_late S_TwoState then list_ex chld args
           else which \<in> {F_base S_Realtime, F_base S_Itor, F_base S_BitsToReal, F_convert S_StrAtoreal}
             \<or> real_math_arity which \<noteq> None
             \<or> which \<in> {F_array S_ArrSum, F_array S_ArrProduct}
               \<and> (case args of [] \<Rightarrow> False | a # _ \<Rightarrow> chld a))
      | Some (Call f _) \<Rightarrow> r_func_ret_is_real cx f
      | _ \<Rightarrow> False)"

section \<open>The pass\<close>

definition func_ret_is_real :: "func_meta list \<Rightarrow> net_var list \<Rightarrow> nat \<Rightarrow> bool" where
  "func_ret_is_real ft nets f =
     (case arena_get ft f of
        Some m \<Rightarrow> net_is_real nets (fm_base_net m + fm_return_slot m)
      | None \<Rightarrow> False)"

text \<open>\<open>out.get(id).unwrap_or(&false)\<close>.\<close>

definition flag_at :: "bool list \<Rightarrow> nat \<Rightarrow> bool" where
  "flag_at out i = (case arena_get out i of Some b \<Rightarrow> b | None \<Rightarrow> False)"

fun real_pass :: "realness_ctx \<Rightarrow> nat list \<Rightarrow> bool list \<Rightarrow> bool list" where
  "real_pass cx [] out = out"
| "real_pass cx (i # rest) out = real_pass cx rest (out @ [expr_is_real_node cx (flag_at out) i])"

definition build_real :: "expr_ctx \<Rightarrow> func_meta list \<Rightarrow> nat list \<Rightarrow> bool list" where
  "build_real ir ft real_elem_dyn_nets =
     (let cx = \<lparr>r_exprs = x_exprs ir, r_consts = x_consts ir, r_nets = x_nets ir,
                r_real_elem_dyn_nets = real_elem_dyn_nets,
                r_func_ret_is_real = func_ret_is_real ft (x_nets ir)\<rparr>
      in real_pass cx [0..<length (x_exprs ir)] [])"

definition lvalue_targets_real :: "net_var list \<Rightarrow> lvalue \<Rightarrow> bool" where
  "lvalue_targets_real nets lhs \<longleftrightarrow> list_ex (\<lambda>c. net_is_real nets (ch_net c)) (chunks lhs)"

definition formal_lends_width :: "net_var \<Rightarrow> nat option" where
  "formal_lends_width nv = (if n_kind nv = RealNet then None else Some (max (n_width nv) 1))"

section \<open>The whole table\<close>

record width_tab =
  t_sw :: "self_width list"
  t_real :: "bool list"
  t_read_alias :: "nat list"
  t_read_alias_word :: "nat list"

definition build_with :: "expr_ctx \<Rightarrow> func_meta list \<Rightarrow> (nat \<rightharpoonup> nat \<times> bool) \<Rightarrow> width_tab option" where
  "build_with ir ft class_fields =
     map_option (\<lambda>sw. \<lparr>t_sw = sw, t_real = build_real ir ft [], t_read_alias = [], t_read_alias_word = []\<rparr>)
       (width_table ir ft class_fields)"

definition build :: "expr_ctx \<Rightarrow> func_meta list \<Rightarrow> width_tab option" where
  "build ir ft = build_with ir ft Map.empty"

definition build_full :: "expr_ctx \<Rightarrow> func_meta list \<Rightarrow> (nat \<rightharpoonup> nat \<times> bool) \<Rightarrow> nat list \<Rightarrow> width_tab option" where
  "build_full ir ft class_fields real_elem_dyn_nets =
     map_option (\<lambda>t. t\<lparr>t_real := build_real ir ft real_elem_dyn_nets\<rparr>) (build_with ir ft class_fields)"

definition install_read_alias :: "nat list \<Rightarrow> nat list \<Rightarrow> width_tab \<Rightarrow> width_tab" where
  "install_read_alias nets words t = t\<lparr>t_read_alias := nets, t_read_alias_word := words\<rparr>"

definition read_alias :: "width_tab \<Rightarrow> nat \<Rightarrow> (nat \<times> nat option) option" where
  "read_alias t eid =
     (case arena_get (t_read_alias t) eid of
        Some n \<Rightarrow>
          (if n \<noteq> u32_max
           then Some (n, Option.bind (arena_get (t_read_alias_word t) eid)
                          (\<lambda>w. if w \<noteq> u32_max then Some w else None))
           else None)
      | None \<Rightarrow> None)"

section \<open>What is real\<close>

text \<open>The language rule, as the least set of expressions closed under it.\<close>

inductive real_expr :: "realness_ctx \<Rightarrow> nat \<Rightarrow> bool" for cx where
  const: "arena_get (r_exprs cx) e = Some (Const v) \<Longrightarrow> arena_get (r_consts cx) v = Some c \<Longrightarrow> c_repr c = RealRepr \<Longrightarrow>
    real_expr cx e"
| signal: "arena_get (r_exprs cx) e = Some (Signal net w) \<Longrightarrow>
    net_is_real (r_nets cx) net \<or> net \<in> set (r_real_elem_dyn_nets cx) \<Longrightarrow> real_expr cx e"
| unary: "arena_get (r_exprs cx) e = Some (Unary op x) \<Longrightarrow> op \<in> {Plus, Minus} \<Longrightarrow> real_expr cx x \<Longrightarrow> real_expr cx e"
| binary: "arena_get (r_exprs cx) e = Some (Binary op l r) \<Longrightarrow> op \<in> {Add, Sub, Mul, Div, Pow} \<Longrightarrow>
    x \<in> {l, r} \<Longrightarrow> real_expr cx x \<Longrightarrow> real_expr cx e"
| ternary: "arena_get (r_exprs cx) e = Some (Ternary c t f) \<Longrightarrow> x \<in> {t, f} \<Longrightarrow> real_expr cx x \<Longrightarrow> real_expr cx e"
| transparent: "arena_get (r_exprs cx) e = Some (SysFunc which args) \<Longrightarrow>
    which \<in> {F_base S_Signed, F_base S_Unsigned, F_late S_TwoState} \<Longrightarrow> x \<in> set args \<Longrightarrow> real_expr cx x \<Longrightarrow> real_expr cx e"
| returns: "arena_get (r_exprs cx) e = Some (SysFunc which args) \<Longrightarrow>
    which \<in> {F_base S_Realtime, F_base S_Itor, F_base S_BitsToReal, F_convert S_StrAtoreal} \<union> range F_math \<Longrightarrow>
    real_expr cx e"
| reduction: "arena_get (r_exprs cx) e = Some (SysFunc which (x # args)) \<Longrightarrow>
    which \<in> {F_array S_ArrSum, F_array S_ArrProduct} \<Longrightarrow> real_expr cx x \<Longrightarrow> real_expr cx e"
| call: "arena_get (r_exprs cx) e = Some (Call f args) \<Longrightarrow> r_func_ret_is_real cx f \<Longrightarrow> real_expr cx e"

inductive_simps real_expr_iff: "real_expr cx e"

lemma real_math_range: "real_math_arity which \<noteq> None \<longleftrightarrow> which \<in> range F_math"
  by (auto simp: real_math_arity_def split: sys_func_id.splits)

text \<open>One node of the code against the rule, the sub-expressions given.\<close>

lemma expr_is_real_node_rule:
  assumes "e < length (r_exprs cx)"
    and "\<And>c. c \<in> set (expr_children (r_exprs cx ! e)) \<Longrightarrow> chld c = real_expr cx c"
  shows "expr_is_real_node cx chld e \<longleftrightarrow> real_expr cx e"
proof (cases "r_exprs cx ! e")
  case (SysFunc which args)
  have args: "list_ex chld args \<longleftrightarrow> (\<exists>a \<in> set args. real_expr cx a)"
    "(case args of [] \<Rightarrow> False | a # _ \<Rightarrow> chld a) \<longleftrightarrow> (\<exists>a as. args = a # as \<and> real_expr cx a)"
    using assms(2) SysFunc by (auto simp: expr_children_def list_ex_iff split: list.splits)
  have "expr_is_real_node cx chld e \<longleftrightarrow>
      (if which \<in> {F_base S_Signed, F_base S_Unsigned} then \<exists>a \<in> set args. real_expr cx a
       else if which = F_late S_TwoState then \<exists>a \<in> set args. real_expr cx a
       else which \<in> {F_base S_Realtime, F_base S_Itor, F_base S_BitsToReal, F_convert S_StrAtoreal}
         \<or> which \<in> range F_math
         \<or> which \<in> {F_array S_ArrSum, F_array S_ArrProduct} \<and> (\<exists>a as. args = a # as \<and> real_expr cx a))"
    unfolding args [symmetric] using assms(1) SysFunc
    by (simp add: expr_is_real_node_def real_math_range [unfolded not_None_eq] arena_get_in)
  then show ?thesis using assms(1) SysFunc by (subst real_expr_iff) (auto simp: arena_get_in)
next
  case (Const v)
  then show ?thesis using assms(1)
    by (subst real_expr_iff) (auto simp: expr_is_real_node_def arena_get_def)
next
  case (Ternary c t f)
  then show ?thesis using assms
    by (subst real_expr_iff) (auto simp: expr_is_real_node_def arena_get_in expr_children_def)
next
  case (Binary op l r)
  then show ?thesis using assms
    by (subst real_expr_iff) (auto simp: expr_is_real_node_def arena_get_in expr_children_def)
next
  case (Signal net w)
  then show ?thesis using assms
    by (subst real_expr_iff) (auto simp: expr_is_real_node_def arena_get_in expr_children_def)
next
  case (Select b off w k)
  then show ?thesis using assms
    by (subst real_expr_iff) (auto simp: expr_is_real_node_def arena_get_in expr_children_def)
next
  case (Concat ps)
  then show ?thesis using assms
    by (subst real_expr_iff) (auto simp: expr_is_real_node_def arena_get_in expr_children_def)
next
  case (Replicate n v)
  then show ?thesis using assms
    by (subst real_expr_iff) (auto simp: expr_is_real_node_def arena_get_in expr_children_def)
next
  case (Unary op x)
  then show ?thesis using assms
    by (subst real_expr_iff) (auto simp: expr_is_real_node_def arena_get_in expr_children_def)
next
  case (Call f args)
  then show ?thesis using assms
    by (subst real_expr_iff) (auto simp: expr_is_real_node_def arena_get_in expr_children_def)
next
  case (ArrayItem x w sg)
  then show ?thesis using assms
    by (subst real_expr_iff) (auto simp: expr_is_real_node_def arena_get_in expr_children_def)
qed

definition children_before :: "expr list \<Rightarrow> bool" where
  "children_before es \<longleftrightarrow> (\<forall>i < length es. \<forall>c \<in> set (expr_children (es ! i)). c < i)"

lemma real_pass_rule:
  assumes "children_before (r_exprs cx)"
  shows "length out \<le> length (r_exprs cx) \<Longrightarrow> \<forall>i < length out. out ! i = real_expr cx i \<Longrightarrow>
    real_pass cx [length out..<length (r_exprs cx)] out = map (real_expr cx) [0..<length (r_exprs cx)]"
proof (induction "length (r_exprs cx) - length out" arbitrary: out)
  case 0
  then have n: "length out = length (r_exprs cx)" by simp
  then show ?case using 0 by (auto intro: nth_equalityI)
next
  case (Suc k)
  let ?i = "length out" and ?r = "expr_is_real_node cx (flag_at out) (length out)"
  have i: "?i < length (r_exprs cx)" using Suc.hyps(2) by simp
  have r: "?r = real_expr cx ?i"
  proof (rule expr_is_real_node_rule [OF i])
    fix c assume "c \<in> set (expr_children (r_exprs cx ! ?i))"
    then have "c < ?i" using assms i by (simp add: children_before_def)
    then show "flag_at out c = real_expr cx c" using Suc.prems(2) by (simp add: flag_at_def arena_get_in)
  qed
  have "k = length (r_exprs cx) - length (out @ [?r])" "length (out @ [?r]) \<le> length (r_exprs cx)"
    "\<forall>j < length (out @ [?r]). (out @ [?r]) ! j = real_expr cx j"
    using Suc.hyps(2) Suc.prems(2) i r by (auto simp: nth_append less_Suc_eq)
  then have "real_pass cx [length (out @ [?r])..<length (r_exprs cx)] (out @ [?r]) = map (real_expr cx) [0..<length (r_exprs cx)]"
    by (rule Suc.hyps(1))
  moreover have "[?i..<length (r_exprs cx)] = ?i # [length (out @ [?r])..<length (r_exprs cx)]"
    using i by (simp add: upt_conv_Cons)
  ultimately show ?case by simp
qed

lemma post_order_before: "post_order ir \<Longrightarrow> children_before (x_exprs ir)"
  by (simp add: post_order_def node_ok_def children_before_def)

section \<open>Properties\<close>

text \<open>C23: On a post-order arena the real-ness pass marks exactly the expressions the language rule makes
  real: real literals and nets, \<open>+ - * / **\<close> and the ternary over a real operand, the real-valued
  system functions, sign casts and reductions of reals, and calls of real functions.\<close>

theorem real_table_is_least:
  assumes "post_order ir"
  shows "build_real ir ft dyn = map (real_expr
      \<lparr>r_exprs = x_exprs ir, r_consts = x_consts ir, r_nets = x_nets ir, r_real_elem_dyn_nets = dyn,
       r_func_ret_is_real = func_ret_is_real ft (x_nets ir)\<rparr>) [0..<length (x_exprs ir)]"
  using real_pass_rule [of "\<lparr>r_exprs = x_exprs ir, r_consts = x_consts ir, r_nets = x_nets ir, r_real_elem_dyn_nets = dyn,
       r_func_ret_is_real = func_ret_is_real ft (x_nets ir)\<rparr>" "[]"] post_order_before [OF assms]
  by (simp add: build_real_def Let_def)

theorem real_table_is_least_witness: "length (build_real part_width_ctx [] []) = 5"
  using real_table_is_least [OF part_width_ctx_ok, of "[]" "[]"] by (simp add: part_width_ctx_def)

end
