(* ===== verification/EdgeValue.thy ===== *)
theory EdgeValue
  imports ConstFold ArithWide
begin

text \<open>
  The decided value of a constant edge (a select bound, a select width, a replication count) and of
  a constant select offset: the second half of \<open>crates/sim-ir/src/selfwidth.rs\<close>.  A bound is one
  self-determined region: its width and sign are computed first, then its words are evaluated with
  every operation wrapping at that width.  The lemmas relate the words to the integer the tree
  denotes: the fold is that integer, wrapped once to the region's width and sign.
  As in \<open>ConstFold\<close> the outer \<open>None\<close> is a panic or an endless descent.
\<close>

section \<open>Edges and faults\<close>

datatype edge_spec =
    Part nat nat bool
  | Indexed nat
  | Count nat

datatype edge_fault = Unreduced | Negative | Unknown

datatype leaves = LWidth | LValue

section \<open>The region\<close>

definition region_leaf :: "leaves \<Rightarrow> const_val \<Rightarrow> edge_fault + nat \<times> bool" where
  "region_leaf lv c =
     (let rd = (case c_repr c of Numeric \<Rightarrow> True | StrUtf8 \<Rightarrow> lv = LValue | RealRepr \<Rightarrow> False)
      in if \<not> rd then Inl Unreduced
         else if list_ex (\<lambda>u. u \<noteq> 0) (p_unk (c_bits c)) then Inl Unknown
         else Inr (clamp_w (max (c_width c) 1), c_signed c \<and> c_repr c = Numeric))"

definition region_join :: "edge_fault + nat \<times> bool \<Rightarrow> edge_fault + nat \<times> bool \<Rightarrow> edge_fault + nat \<times> bool" where
  "region_join a b =
     (case a of
        Inl f \<Rightarrow> Inl f
      | Inr (wa, sa) \<Rightarrow>
          (case b of
             Inl f \<Rightarrow> Inl f
           | Inr (wb, sb) \<Rightarrow> Inr (max wa wb, sa \<and> sb)))"

lemma mono_option_case_sum [partial_function_mono]:
  "(\<And>x. mono_option (F x)) \<Longrightarrow> (\<And>y. mono_option (G y)) \<Longrightarrow>
   mono_option (\<lambda>f. case s of Inl x \<Rightarrow> F x f | Inr y \<Rightarrow> G y f)"
  by (cases s) simp_all

partial_function (option) edge_region :: "expr_ctx \<Rightarrow> nat \<Rightarrow> leaves \<Rightarrow> (edge_fault + nat \<times> bool) option" where
  "edge_region ir eid lv =
     Option.bind (arena_get (x_exprs ir) eid)
       (\<lambda>e. case e of
          Const v \<Rightarrow> map_option (region_leaf lv) (arena_get (x_consts ir) v)
        | Binary op lhs rhs \<Rightarrow>
            (if op = Add \<or> op = Sub then
               Option.bind (edge_region ir lhs lv)
                 (\<lambda>a. case a of
                    Inl f \<Rightarrow> Some (Inl f)
                  | Inr _ \<Rightarrow> Option.bind (edge_region ir rhs lv) (\<lambda>b. Some (region_join a b)))
             else Some (Inl Unreduced))
        | SysFunc which args \<Rightarrow>
            (if is_clog2 which args then
               map_option (\<lambda>r. case r of None \<Rightarrow> Inl Unreduced | Some _ \<Rightarrow> Inr (32, True))
                 (const_u32_of_expr_ctx ir eid)
             else Some (Inl Unreduced))
        | _ \<Rightarrow> Some (Inl Unreduced))"

section \<open>The words\<close>

definition word_bit :: "u64 list \<Rightarrow> nat \<Rightarrow> bool" where
  "word_bit v b = (case arena_get v (b div 64) of Some w \<Rightarrow> drop_bit (b mod 64) w AND 1 = 1 | None \<Rightarrow> False)"

definition resize_words :: "u64 list \<Rightarrow> nat \<Rightarrow> u64 list" where
  "resize_words v n = take n v @ replicate (n - length v) 0"

fun set_bits_up :: "u64 list \<Rightarrow> nat list \<Rightarrow> u64 list" where
  "set_bits_up v [] = v"
| "set_bits_up v (b # bs) = set_bits_up (v[b div 64 := (v ! (b div 64)) OR push_bit (b mod 64) 1]) bs"

definition edge_extend :: "u64 list \<Rightarrow> nat \<Rightarrow> nat \<Rightarrow> bool \<Rightarrow> u64 list" where
  "edge_extend bits lw w sg =
     (let keep = min lw w;
          v = mw_mask bits (max keep 1);
          v = (if keep = 0 then map (\<lambda>_. 0) v else v);
          v = resize_words v (max ((w + 63) div 64) 1);
          v = (if sg \<and> 1 \<le> keep \<and> word_bit bits (keep - 1) then set_bits_up v [keep..<w] else v)
      in mw_mask v w)"

partial_function (option) edge_eval :: "expr_ctx \<Rightarrow> nat \<Rightarrow> nat \<Rightarrow> bool \<Rightarrow> u64 list option" where
  "edge_eval ir eid w sg =
     Option.bind (arena_get (x_exprs ir) eid)
       (\<lambda>e. case e of
          Const v \<Rightarrow>
            map_option (\<lambda>c. edge_extend (p_val (c_bits c)) (clamp_w (max (c_width c) 1)) w sg)
              (arena_get (x_consts ir) v)
        | Binary op lhs rhs \<Rightarrow>
            Option.bind (edge_eval ir lhs w sg)
              (\<lambda>a. Option.bind (edge_eval ir rhs w sg)
                     (\<lambda>b. Some (mw_mask (mw_add a (if op = Sub then mw_neg b else b)) w)))
        | _ \<Rightarrow>
            map_option
              (\<lambda>r. edge_extend [of_nat (case r of Some n \<Rightarrow> n | None \<Rightarrow> 0)] 32 w sg)
              (const_u32_of_expr_ctx ir eid))"

section \<open>The value\<close>

definition i128_max :: int where
  "i128_max = 2 ^ 127 - 1"

text \<open>Reading the words of a region as a saturated \<open>i128\<close>.\<close>

definition edge_read :: "u64 list \<Rightarrow> nat \<Rightarrow> bool \<Rightarrow> int" where
  "edge_read v w sg =
     (let negative = sg \<and> word_bit v (w - 1);
          mag = (if negative then mw_mask (mw_neg v) w else v);
          wide = list_ex (\<lambda>x. x \<noteq> 0) (drop 2 mag) \<or> drop_bit 63 (wget mag 1) \<noteq> 0;
          small = (if wide then i128_max
                   else int (unat (wget mag 0)) + 2 ^ 64 * int (unat (wget mag 1)))
      in if negative then - small else small)"

definition edge_fold :: "expr_ctx \<Rightarrow> nat \<Rightarrow> leaves \<Rightarrow> (edge_fault + int) option" where
  "edge_fold ir eid lv =
     Option.bind (edge_region ir eid lv)
       (\<lambda>r. case r of
          Inl f \<Rightarrow> Some (Inl f)
        | Inr (w, sg) \<Rightarrow> map_option (\<lambda>v. Inr (edge_read v w sg)) (edge_eval ir eid w sg))"

definition edge_bound_value :: "expr_ctx \<Rightarrow> nat \<Rightarrow> (edge_fault + int) option" where
  "edge_bound_value ir eid = edge_fold ir eid LWidth"

definition offset_value :: "expr_ctx \<Rightarrow> nat \<Rightarrow> (edge_fault + int) option" where
  "offset_value ir eid = edge_fold ir eid LValue"

text \<open>\<open>u64::try_from(v).unwrap_or(u64::MAX)\<close> for a non-negative value.\<close>

definition sat_u64 :: "int \<Rightarrow> nat" where
  "sat_u64 v = (if v < 2 ^ 64 then nat v else 2 ^ 64 - 1)"

text \<open>\<open>i128::saturating_sub\<close>, \<open>saturating_add\<close>.\<close>

definition sat_i128 :: "int \<Rightarrow> int" where
  "sat_i128 x = max (- (2 ^ 127)) (min x i128_max)"

definition part_width :: "int \<Rightarrow> int \<Rightarrow> bool \<Rightarrow> edge_fault + nat" where
  "part_width m l desc =
     (let (hi, lo) = (if desc then (m, l) else (l, m))
      in if hi < lo then Inl Negative
         else Inr (sat_u64 (sat_i128 (sat_i128 (hi - lo) + 1))))"

definition edge_count :: "edge_fault + int \<Rightarrow> edge_fault + nat" where
  "edge_count r = (case r of Inl f \<Rightarrow> Inl f | Inr v \<Rightarrow> if v < 0 then Inl Negative else Inr (sat_u64 v))"

definition edge_value :: "expr_ctx \<Rightarrow> edge_spec \<Rightarrow> (edge_fault + nat) option" where
  "edge_value ir spec =
     (case spec of
        Part msb lsb desc \<Rightarrow>
          Option.bind (edge_bound_value ir msb)
            (\<lambda>m. case m of
               Inl f \<Rightarrow> Some (Inl f)
             | Inr m \<Rightarrow>
                 map_option (\<lambda>l. case l of Inl f \<Rightarrow> Inl f | Inr l \<Rightarrow> part_width m l desc)
                   (edge_bound_value ir lsb))
      | Indexed e \<Rightarrow> map_option edge_count (edge_bound_value ir e)
      | Count e \<Rightarrow> map_option edge_count (edge_bound_value ir e))"

section \<open>Bits written by a constant chunk\<close>

text \<open>\<open>const_chunk_written_bits\<close> of \<open>crates/sim-ir/src/lib.rs\<close>.\<close>

definition const_chunk_written_bits :: "expr_ctx \<Rightarrow> lval_chunk \<Rightarrow> nat \<Rightarrow> (nat \<times> nat) option option" where
  "const_chunk_written_bits ctx chunk net_w =
     (case (ch_offset chunk, ch_width chunk) of
        (None, None) \<Rightarrow> Some (sel_written_bits Bit 0 net_w net_w)
      | (Some off_e, w_e) \<Rightarrow>
          Option.bind (offset_value ctx off_e)
            (\<lambda>r. case r of
               Inl _ \<Rightarrow> Some None
             | Inr off \<Rightarrow>
                 map_option (\<lambda>w. sel_written_bits (ch_kind chunk) off w net_w)
                   (if ch_kind chunk = Bit then Some 1
                    else (case w_e of
                            None \<Rightarrow> Some net_w
                          | Some we \<Rightarrow>
                              map_option (\<lambda>w. case w of Some w \<Rightarrow> w | None \<Rightarrow> net_w) (const_u32_of_expr_ctx ctx we))))
      | (None, Some _) \<Rightarrow> Some None)"

section \<open>Words against integers\<close>

lemma word_bit_pbit: "word_bit v b = pbit v b"
proof (cases "b div 64 < length v")
  case True
  then show ?thesis by (simp add: word_bit_def pbit_def shift_and_1 wget_in arena_get_in)
next
  case False
  then show ?thesis by (simp add: word_bit_def pbit_def wget_def arena_get_def)
qed

lemma length_set_bits_up [simp]: "length (set_bits_up v bs) = length v"
  by (induction bs arbitrary: v) simp_all

lemma pbit_set_bits_up:
  "\<forall>b \<in> set bs. b div 64 < length v \<Longrightarrow> pbit (set_bits_up v bs) i \<longleftrightarrow> pbit v i \<or> i \<in> set bs"
proof (induction bs arbitrary: v)
  case (Cons b bs)
  have "pbit (v[b div 64 := (v ! (b div 64)) OR push_bit (b mod 64) 1]) i \<longleftrightarrow> pbit v i \<or> i = b"
  proof -
    obtain k j where kj: "i = 64 * k + j" "j < 64" by (rule index_split)
    have eq: "i = b \<longleftrightarrow> k = b div 64 \<and> j = b mod 64" using kj by auto
    show ?thesis
      using Cons.prems kj unfolding eq
      by (auto simp: pbit_at wget_list_update bit_or_iff wget_in bit_push_bit_iff bit_1_iff simp del: push_bit_of_1)
  qed
  then show ?case using Cons by auto
qed simp

lemma length_resize_words [simp]: "length (resize_words v n) = n"
  by (simp add: resize_words_def)

lemma wval_resize_words: "length v \<le> n \<Longrightarrow> wval (resize_words v n) = wval v"
  by (simp add: resize_words_def wval_append)

definition leaf_int :: "bool \<Rightarrow> nat \<Rightarrow> u64 list \<Rightarrow> int" where
  "leaf_int sg lw bits = (if sg then signed_take_bit (lw - 1) (int (wval bits)) else take_bit lw (int (wval bits)))"

lemma bit_int_wval: "bit (int (wval v)) i = pbit v i"
  by (simp add: bit_of_nat_iff bit_wval)

lemma edge_extend_val:
  assumes "1 \<le> lw" and "lw \<le> w"
  shows "int (wval (edge_extend bits lw w sg)) = leaf_int sg lw bits mod 2 ^ w"
proof -
  define n where "n = max ((w + 63) div 64) 1"
  define v2 where "v2 = resize_words (mw_mask bits lw) n"
  define ext where "ext \<longleftrightarrow> sg \<and> pbit bits (lw - 1)"
  define v3 where "v3 = (if ext then set_bits_up v2 [lw..<w] else v2)"
  have "length (mw_mask bits lw) \<le> n"
    using assms by (auto simp: mw_nwords_def n_def intro: div_le_mono)
  then have v2: "wval v2 = wval bits mod 2 ^ lw" "length v2 = n"
    by (simp_all add: v2_def wval_resize_words wval_mw_mask)
  have ix: "b div 64 < n" if "b < w" for b
    using that unfolding n_def by (auto simp: less_max_iff_disj less_mult_imp_div_less intro!: disjI1 div_less_mono)
  have p2: "pbit v2 j \<longleftrightarrow> j < lw \<and> pbit bits j" for j
    unfolding bit_wval [symmetric] v2(1) by (simp add: bit_take_bit_iff flip: take_bit_eq_mod)
  have p3: "pbit v3 j \<longleftrightarrow> j < lw \<and> pbit bits j \<or> ext \<and> lw \<le> j \<and> j < w" for j
    using pbit_set_bits_up [of "[lw..<w]" v2 j] ix v2(2) by (auto simp: v3_def p2)
  have e: "edge_extend bits lw w sg = mw_mask v3 w"
    using assms by (auto simp: edge_extend_def v3_def v2_def n_def ext_def word_bit_pbit Let_def min_absorb1)
  have "take_bit w (int (wval v3)) = take_bit w (leaf_int sg lw bits)"
  proof (rule bit_eqI)
    fix j
    have "bit (leaf_int sg lw bits) j \<longleftrightarrow> j < lw \<and> pbit bits j \<or> ext \<and> lw \<le> j"
      using assms(1) by (auto simp: leaf_int_def ext_def bit_signed_take_bit_iff bit_take_bit_iff bit_int_wval min_def
          not_le dest: le_antisym)
    then show "bit (take_bit w (int (wval v3))) j = bit (take_bit w (leaf_int sg lw bits)) j"
      by (auto simp: bit_take_bit_iff bit_int_wval p3)
  qed
  then show ?thesis by (simp add: e wval_mw_mask zmod_int take_bit_eq_mod)
qed

lemma length_edge_extend [simp]: "length (edge_extend bits lw w sg) = nw1 w"
  by (simp add: edge_extend_def Let_def length_nw1 del: length_mw_mask)

lemma wide_test:
  "list_ex (\<lambda>x. x \<noteq> 0) (drop 2 v) \<or> drop_bit 63 (wget v 1) \<noteq> 0 \<longleftrightarrow> 2 ^ 127 \<le> wval v"
  "\<not> 2 ^ 127 \<le> wval v \<Longrightarrow> int (unat (wget v 0)) + 2 ^ 64 * int (unat (wget v 1)) = int (wval v)"
proof -
  let ?d = "wval (drop 2 v)" and ?h = "unat (wget v 1)" and ?l = "unat (wget v 0)"
  have "wget (drop 1 v) 0 = wget v 1" by (simp add: wget_def)
  moreover have "drop 1 (drop 1 v) = drop 2 v" by (simp add: numeral_2_eq_2)
  ultimately have v: "wval v = ?l + 2 ^ 64 * (?h + 2 ^ 64 * ?d)"
    using wval_split [of v] wval_split [of "drop 1 v"] by simp
  have d: "list_ex (\<lambda>x. x \<noteq> 0) (drop 2 v) \<longleftrightarrow> ?d \<noteq> 0" by (auto simp: list_ex_iff wval_eq_0_iff)
  have h: "drop_bit 63 (wget v 1) \<noteq> 0 \<longleftrightarrow> 2 ^ 63 \<le> ?h"
    by (simp add: word_unat_eq_iff unat_drop not_less [symmetric] div_eq_0_iff)
  have b: "?l < 2 ^ 64" "?h < 2 ^ 64" by (rule unat_lt_64)+
  show t: "list_ex (\<lambda>x. x \<noteq> 0) (drop 2 v) \<or> drop_bit 63 (wget v 1) \<noteq> 0 \<longleftrightarrow> 2 ^ 127 \<le> wval v"
  proof (cases "?d = 0")
    case True
    have "2 ^ 127 = 2 ^ 64 * (2 ^ 63 :: nat)" by simp
    then have "2 ^ 63 \<le> ?h \<Longrightarrow> 2 ^ 127 \<le> wval v" "\<not> 2 ^ 63 \<le> ?h \<Longrightarrow> \<not> 2 ^ 127 \<le> wval v"
      using b v True by simp_all
    then show ?thesis unfolding d h using True by blast
  next
    case False
    then have "1 \<le> ?d" by simp
    then have "2 ^ 127 \<le> wval v" using v by simp
    then show ?thesis unfolding d using False by simp
  qed
  assume "\<not> 2 ^ 127 \<le> wval v"
  then have "?d = 0" using t d by blast
  then show "int ?l + 2 ^ 64 * int ?h = int (wval v)" using v by simp
qed

text \<open>The integer a region reads back: wrapped to the width at the region's sign, then saturated.\<close>

definition region_int :: "nat \<Rightarrow> bool \<Rightarrow> int \<Rightarrow> int" where
  "region_int w sg x = (if sg then signed_take_bit (w - 1) x else take_bit w x)"

lemma edge_read_val:
  assumes "length v = nw1 w" and "int (wval v) = x mod 2 ^ w" and "1 \<le> w"
  shows "edge_read v w sg = max (- i128_max) (min (region_int w sg x) i128_max)"
proof -
  define y where "y = region_int w sg x"
  have xm: "int (wval v) = take_bit w x" using assms(2) by (simp add: take_bit_eq_mod)
  have "pbit v (w - 1) \<longleftrightarrow> bit x (w - 1)"
    unfolding bit_int_wval [symmetric] xm using assms(3) by (simp add: bit_take_bit_iff)
  then have neg: "sg \<and> word_bit v (w - 1) \<longleftrightarrow> y < 0"
    by (auto simp: word_bit_pbit y_def region_int_def signed_take_bit_negative_iff)
  have ym: "int (wval v) = y mod 2 ^ w"
  proof (cases sg)
    case True
    then have "take_bit w y = take_bit w x"
      using assms(3) by (simp add: y_def region_int_def take_bit_signed_take_bit)
    then show ?thesis by (simp add: xm take_bit_eq_mod)
  qed (simp add: xm y_def region_int_def take_bit_eq_mod)
  have yb: "\<bar>y\<bar> < 2 ^ w"
  proof (cases sg)
    case True
    have "- (2 ^ (w - 1)) \<le> y" "y < 2 ^ (w - 1)"
      using True by (simp_all add: y_def region_int_def signed_take_bit_int_greater_eq_minus_exp signed_take_bit_int_less_exp)
    moreover have "(2 :: int) ^ (w - 1) < 2 ^ w" using assms(3) by (intro power_strict_increasing) simp_all
    ultimately show ?thesis by linarith
  qed (simp add: y_def region_int_def)
  define mag where "mag = (if y < 0 then mw_mask (mw_neg v) w else v)"
  have mag: "wval mag = nat \<bar>y\<bar>" unfolding mag_def by (rule wide_magnitude [OF assms(1) ym yb])
  have s: "(if list_ex (\<lambda>x. x \<noteq> 0) (drop 2 mag) \<or> drop_bit 63 (wget mag 1) \<noteq> 0 then i128_max
      else int (unat (wget mag 0)) + 2 ^ 64 * int (unat (wget mag 1))) = min \<bar>y\<bar> i128_max"
  proof (cases "2 ^ 127 \<le> wval mag")
    case True
    then have "i128_max < \<bar>y\<bar>" using mag by (simp add: i128_max_def)
    then show ?thesis using True by (simp only: wide_test(1) if_True)
  next
    case False
    then have "\<bar>y\<bar> \<le> i128_max" using mag by (simp add: i128_max_def)
    then have "int (wval mag) = min \<bar>y\<bar> i128_max" using mag by simp
    then show ?thesis using wide_test(2) [OF False] False by (simp only: wide_test(1) if_False)
  qed
  have "edge_read v w sg = (if y < 0 then - min \<bar>y\<bar> i128_max else min \<bar>y\<bar> i128_max)"
    unfolding edge_read_def neg Let_def mag_def [symmetric] s ..
  also have "\<dots> = max (- i128_max) (min y i128_max)" by (simp add: i128_max_def min_def max_def)
  finally show ?thesis unfolding y_def .
qed

section \<open>The tree of an edge\<close>

datatype edge_term = ELit "u64 list" nat bool | EClog nat | EAdd edge_term edge_term | ESub edge_term edge_term

inductive edge_tree :: "expr_ctx \<Rightarrow> leaves \<Rightarrow> nat \<Rightarrow> edge_term \<Rightarrow> bool" for ir lv where
  lit: "arena_get (x_exprs ir) e = Some (Const v) \<Longrightarrow> arena_get (x_consts ir) v = Some c \<Longrightarrow>
    region_leaf lv c = Inr (lw, s) \<Longrightarrow> edge_tree ir lv e (ELit (p_val (c_bits c)) lw s)"
| clog: "arena_get (x_exprs ir) e = Some (SysFunc which args) \<Longrightarrow> is_clog2 which args \<Longrightarrow>
    const_u32_of_expr_ctx ir e = Some (Some n) \<Longrightarrow> edge_tree ir lv e (EClog n)"
| plus: "arena_get (x_exprs ir) e = Some (Binary Add l r) \<Longrightarrow> edge_tree ir lv l a \<Longrightarrow> edge_tree ir lv r b \<Longrightarrow>
    edge_tree ir lv e (EAdd a b)"
| minus: "arena_get (x_exprs ir) e = Some (Binary Sub l r) \<Longrightarrow> edge_tree ir lv l a \<Longrightarrow> edge_tree ir lv r b \<Longrightarrow>
    edge_tree ir lv e (ESub a b)"

text \<open>The width and sign of the region a tree forms, and the integer it denotes at a sign.\<close>

primrec term_width :: "edge_term \<Rightarrow> nat" where
  "term_width (ELit bits lw s) = lw"
| "term_width (EClog n) = 32"
| "term_width (EAdd a b) = max (term_width a) (term_width b)"
| "term_width (ESub a b) = max (term_width a) (term_width b)"

primrec term_signed :: "edge_term \<Rightarrow> bool" where
  "term_signed (ELit bits lw s) = s"
| "term_signed (EClog n) = True"
| "term_signed (EAdd a b) = (term_signed a \<and> term_signed b)"
| "term_signed (ESub a b) = (term_signed a \<and> term_signed b)"

primrec term_int :: "bool \<Rightarrow> edge_term \<Rightarrow> int" where
  "term_int sg (ELit bits lw s) = leaf_int sg lw bits"
| "term_int sg (EClog n) = int n"
| "term_int sg (EAdd a b) = term_int sg a + term_int sg b"
| "term_int sg (ESub a b) = term_int sg a - term_int sg b"

lemma region_leaf_width: "region_leaf lv c = Inr (lw, s) \<Longrightarrow> lw = clamp_w (max (c_width c) 1) \<and> 1 \<le> lw \<and> lw \<le> width_max"
  by (auto simp: region_leaf_def clamp_w_def width_max_def Let_def split: if_splits)

lemma const_count_small: "const_u32_of_expr_ctx ir e = Some (Some n) \<Longrightarrow> arena_get (x_exprs ir) e = Some (SysFunc which args) \<Longrightarrow>
    is_clog2 which args \<Longrightarrow> n \<le> 64"
  by (subst (asm) const_u32_of_expr_ctx.simps)
    (auto simp: clog2_arg_def arena_get_in bind_eq_Some_conv dest: clog2_leaf_le split: expr.splits)

lemma term_width_pos: "edge_tree ir lv e t \<Longrightarrow> 1 \<le> term_width t"
  by (induction rule: edge_tree.induct) (auto dest: region_leaf_width)

lemma edge_region_tree: "edge_tree ir lv e t \<Longrightarrow> edge_region ir e lv = Some (Inr (term_width t, term_signed t))"
proof (induction rule: edge_tree.induct)
  case (lit e v c lw s)
  then show ?case by (subst edge_region.simps) (simp add: arena_get_in)
next
  case (clog e which args n)
  then show ?case by (subst edge_region.simps) (simp add: arena_get_in)
next
  case (plus e l r a b)
  then show ?case by (subst edge_region.simps) (simp add: arena_get_in region_join_def)
next
  case (minus e l r a b)
  then show ?case by (subst edge_region.simps) (simp add: arena_get_in region_join_def)
qed

lemma wval_add_wrap:
  assumes "length a = nw1 w" and "int (wval a) = x mod 2 ^ w" and "int (wval b) mod 2 ^ w = y mod 2 ^ w"
  shows "int (wval (mw_mask (mw_add a b) w)) = (x + y) mod 2 ^ w"
proof -
  have "wval (mw_mask (mw_add a b) w) = (wval a + wval b) mod 2 ^ w"
    using assms(1) nw1_bounds(2) [of w] by (simp add: wval_mw_mask wval_mw_add mod_mod_cancel le_imp_power_dvd)
  then have "int (wval (mw_mask (mw_add a b) w)) = (int (wval a) mod 2 ^ w + int (wval b) mod 2 ^ w) mod 2 ^ w"
    by (simp add: zmod_int mod_simps)
  also have "\<dots> = (x mod 2 ^ w + y mod 2 ^ w) mod 2 ^ w" by (simp add: assms)
  finally show ?thesis by (simp add: mod_simps)
qed

lemma wval_neg_wrap:
  assumes "length b = nw1 w" and "int (wval b) = y mod 2 ^ w"
  shows "int (wval (mw_neg b)) mod 2 ^ w = (- y) mod 2 ^ w"
proof -
  have "int (wval (mw_neg b)) mod 2 ^ w = int (wval (mw_mask (mw_neg b) w))" by (simp add: wval_mw_mask zmod_int)
  also have "\<dots> = (- int (wval b)) mod 2 ^ w" using int_neg_mask [of w b] assms(1) nw1_bounds(2) [of w] by simp
  finally show ?thesis by (simp add: assms(2) mod_minus_eq)
qed

lemma edge_eval_tree:
  "edge_tree ir lv e t \<Longrightarrow> term_width t \<le> w \<Longrightarrow>
    \<exists>v. edge_eval ir e w sg = Some v \<and> length v = nw1 w \<and> int (wval v) = term_int sg t mod 2 ^ w"
proof (induction rule: edge_tree.induct)
  case (lit e v c lw s)
  then show ?case using region_leaf_width [OF lit(3)] edge_extend_val [of lw w "p_val (c_bits c)" sg]
    by (subst edge_eval.simps) (auto simp: arena_get_in)
next
  case (clog e which args n)
  have n: "n \<le> 64" using const_count_small [OF clog(3,1,2)] .
  then have u: "unat (of_nat n :: u64) = n" by (simp add: unat_of_nat)
  have "leaf_int sg 32 [of_nat n] = int n"
    using n by (simp add: leaf_int_def u signed_take_bit_int_eq_self take_bit_int_eq_self)
  then have "int (wval (edge_extend [of_nat n] 32 w sg)) = int n mod 2 ^ w"
    using edge_extend_val [of 32 w "[of_nat n]" sg] clog.prems by simp
  then show ?case using clog by (subst edge_eval.simps) (simp add: arena_get_in)
next
  case (plus e l r a b)
  then obtain x y where "edge_eval ir l w sg = Some x" "length x = nw1 w" "int (wval x) = term_int sg a mod 2 ^ w"
    "edge_eval ir r w sg = Some y" "length y = nw1 w" "int (wval y) = term_int sg b mod 2 ^ w" by auto
  then show ?case using plus.hyps(1) wval_add_wrap [of x w "term_int sg a" y "term_int sg b"]
    by (subst edge_eval.simps) (simp add: arena_get_in length_nw1 del: length_mw_mask)
next
  case (minus e l r a b)
  then obtain x y where xy: "edge_eval ir l w sg = Some x" "length x = nw1 w" "int (wval x) = term_int sg a mod 2 ^ w"
    "edge_eval ir r w sg = Some y" "length y = nw1 w" "int (wval y) = term_int sg b mod 2 ^ w" by auto
  have "int (wval (mw_mask (mw_add x (mw_neg y)) w)) = (term_int sg a - term_int sg b) mod 2 ^ w"
    using wval_add_wrap [OF xy(2,3) wval_neg_wrap [OF xy(5,6)]] by simp
  then show ?case using minus.hyps(1) xy
    by (subst edge_eval.simps) (simp add: arena_get_in length_nw1 del: length_mw_mask)
qed

definition edge_int :: "edge_term \<Rightarrow> int" where
  "edge_int t = region_int (term_width t) (term_signed t) (term_int (term_signed t) t)"

lemma edge_fold_tree:
  assumes "edge_tree ir lv e t"
  shows "edge_fold ir e lv = Some (Inr (max (- i128_max) (min (edge_int t) i128_max)))"
proof -
  obtain v where "edge_eval ir e (term_width t) (term_signed t) = Some v" "length v = nw1 (term_width t)"
    "int (wval v) = term_int (term_signed t) t mod 2 ^ term_width t"
    using edge_eval_tree [OF assms order_refl] by blast
  then show ?thesis
    using edge_region_tree [OF assms] edge_read_val term_width_pos [OF assms] by (simp add: edge_fold_def edge_int_def)
qed

text \<open>On a post-order arena the region pass returns, and decides an edge exactly when it has a tree.\<close>

lemma edge_region_returns:
  assumes "post_order ir" and "e < length (x_exprs ir)"
  shows "(\<exists>t. edge_tree ir lv e t) \<or> (\<exists>f. edge_region ir e lv = Some (Inl f))"
  using assms(2)
proof (induction e rule: less_induct)
  case (less e)
  note st = edge_region.simps [of ir e lv, unfolded arena_get_in [OF less.prems] Option.bind.simps]
  note ch = post_order_children [OF assms(1) less.prems]
  have g: "arena_get (x_exprs ir) e = Some (x_exprs ir ! e)" using less.prems by (rule arena_get_in)
  show ?case
  proof (cases "x_exprs ir ! e")
    case (Const v)
    then have v: "arena_get (x_consts ir) v = Some (x_consts ir ! v)"
      using post_order_const [OF assms(1) less.prems] by (simp add: arena_get_in)
    show ?thesis
    proof (cases "region_leaf lv (x_consts ir ! v)")
      case (Inl f)
      then show ?thesis using Const v by (simp add: st)
    next
      case (Inr p)
      then show ?thesis using edge_tree.lit [OF g [unfolded Const] v] by (metis prod.collapse)
    qed
  next
    case (SysFunc which args)
    obtain r where r: "const_u32_of_expr_ctx ir e = Some r" using const_u32_returns [OF assms(1) less.prems] by blast
    show ?thesis
    proof (cases "is_clog2 which args \<and> r \<noteq> None")
      case True
      then show ?thesis using edge_tree.clog [OF g [unfolded SysFunc]] r by auto
    qed (use r SysFunc in \<open>auto simp: st\<close>)
  next
    case (Binary op l r)
    then have lr: "l < e" "r < e" using ch by (simp_all add: expr_children_def)
    note g' = g [unfolded Binary]
    consider t u where "edge_tree ir lv l t" "edge_tree ir lv r u"
      | f where "edge_region ir l lv = Some (Inl f)"
      | t f where "edge_tree ir lv l t" "edge_region ir r lv = Some (Inl f)"
      using less.IH [OF lr(1)] less.IH [OF lr(2)] lr less.prems by force
    then show ?thesis
    proof cases
      case (1 t u)
      then show ?thesis using Binary edge_tree.plus [of ir e l r lv t u] edge_tree.minus [of ir e l r lv t u] g'
        by (cases "op = Add"; cases "op = Sub") (auto simp: st)
    next
      case (2 f)
      then show ?thesis by (simp add: st Binary)
    next
      case (3 t f)
      then show ?thesis using edge_region_tree [OF 3(1)] by (simp add: st Binary region_join_def)
    qed
  qed (simp_all add: st)
qed

lemma edge_tree_det: "edge_tree ir lv e t \<Longrightarrow> edge_tree ir lv e u \<Longrightarrow> t = u"
proof (induction arbitrary: u rule: edge_tree.induct)
  case (lit e v c lw s)
  then show ?case by (auto elim: edge_tree.cases)
next
  case (clog e which args n)
  then show ?case by (auto elim: edge_tree.cases)
next
  case (plus e l r a b)
  from plus.prems plus.hyps(1) show ?case by (cases rule: edge_tree.cases) (auto dest: plus.IH)
next
  case (minus e l r a b)
  from minus.prems minus.hyps(1) show ?case by (cases rule: edge_tree.cases) (auto dest: minus.IH)
qed

section \<open>Properties\<close>

text \<open>C9: On a post-order arena the decision of a bound returns: either a fault, or the bound has a tree
  of literals, \<open>$clog2\<close>, sums and differences and the value is the integer that tree denotes over the
  unbounded integers, wrapped once to the region's width and sign and saturated at
  \<open>2 ^ 127 - 1\<close> in magnitude.  So wrapping at every node, as the code does, wraps once.\<close>

theorem edge_fold_is_wrapped_integer:
  assumes "post_order ir" and "e < length (x_exprs ir)"
  shows "(\<exists>t. edge_tree ir lv e t
      \<and> edge_fold ir e lv = Some (Inr (max (- i128_max) (min (edge_int t) i128_max))))
    \<or> (\<exists>f. edge_fold ir e lv = Some (Inl f) \<and> (\<nexists>t. edge_tree ir lv e t))"
  using edge_region_returns [OF assms, of lv] edge_fold_tree [of ir lv e] edge_region_tree [of ir lv e]
  by (auto simp: edge_fold_def)

theorem edge_fold_is_wrapped_integer_witness:
  "\<exists>t. edge_tree part_width_ctx LWidth 4 t \<and> edge_fold part_width_ctx 4 LWidth = Some (Inr (max (- i128_max) (min (edge_int t) i128_max)))"
proof -
  have l: "edge_tree part_width_ctx LWidth 0 (ELit [7] 32 True)" "edge_tree part_width_ctx LWidth 1 (ELit [0] 32 True)"
    "edge_tree part_width_ctx LWidth 3 (ELit [1] 32 True)"
    using edge_tree.lit [OF part_width_nodes(1,2)] edge_tree.lit [OF part_width_nodes(3,4)]
      edge_tree.lit [OF part_width_nodes(5,6)]
    by (simp_all add: region_leaf_def int_const_def clamp_w_def width_max_def)
  note t = edge_tree.plus [OF part_width_nodes(8) edge_tree.minus [OF part_width_nodes(7) l(1,2)] l(3)]
  have "4 < length (x_exprs part_width_ctx)" by (simp add: part_width_ctx_def)
  from edge_fold_is_wrapped_integer [OF part_width_ctx_ok this, of LWidth] t show ?thesis by blast
qed

text \<open>A part select's width is \<open>|m - l| + 1\<close> when its bounds are in the declared order and their
  distance is below \<open>2 ^ 64\<close>; bounds out of order are a fault, never a count.\<close>

theorem part_width_counts:
  "part_width m l desc =
     (let d = (if desc then m - l else l - m)
      in if d < 0 then Inl Negative else Inr (if d + 1 < 2 ^ 64 then nat (d + 1) else 2 ^ 64 - 1))"
proof (cases "(if desc then m - l else l - m) < 0")
  case True
  then show ?thesis by (cases desc) (simp_all add: part_width_def Let_def)
next
  case False
  define d where "d = (if desc then m - l else l - m)"
  have "sat_i128 (sat_i128 d + 1) = min (min d i128_max + 1) i128_max"
    using False by (simp add: sat_i128_def i128_max_def d_def)
  then have "sat_u64 (sat_i128 (sat_i128 d + 1)) = (if d + 1 < 2 ^ 64 then nat (d + 1) else 2 ^ 64 - 1)"
    by (simp add: sat_u64_def i128_max_def min_def)
  then show ?thesis using False unfolding d_def by (cases desc) (simp_all add: part_width_def Let_def)
qed

text \<open>The bits a chunk with a constant offset writes are those its select names at the offset's wrapped
  integer value, inside the net; the chunk's width is the folded width edge, the whole net's when
  that declines, and one for a bit select.\<close>

theorem const_chunk_bits_named:
  assumes "post_order ir" and "ch_offset chunk = Some e" and "edge_tree ir LValue e t"
    and "ch_kind chunk \<noteq> Bit \<Longrightarrow> ch_width chunk = Some we" and "we < length (x_exprs ir)"
  shows "\<exists>r w. const_chunk_written_bits ir chunk net_w = Some r
    \<and> (if ch_kind chunk = Bit then w = 1 else \<exists>f. const_u32_of_expr_ctx ir we = Some f \<and> w = (case f of Some n \<Rightarrow> n | None \<Rightarrow> net_w))
    \<and> (case r of None \<Rightarrow> {} | Some (lo, hi) \<Rightarrow> {int lo ..< int hi})
      = (if - (2 ^ 31) \<le> edge_int t \<and> edge_int t < 2 ^ 31
         then sel_bits (ch_kind chunk) (edge_int t) w \<inter> {0 ..< int net_w} else {})"
proof -
  define off where "off = max (- i128_max) (min (edge_int t) i128_max)"
  have off: "offset_value ir e = Some (Inr off)" using edge_fold_tree [OF assms(3)] by (simp add: offset_value_def off_def)
  have rng: "- (2 ^ 31) \<le> off \<and> off < 2 ^ 31 \<longleftrightarrow> - (2 ^ 31) \<le> edge_int t \<and> edge_int t < 2 ^ 31"
    "- (2 ^ 31) \<le> edge_int t \<and> edge_int t < 2 ^ 31 \<Longrightarrow> off = edge_int t"
    by (auto simp: off_def i128_max_def)
  have bits: "(case sel_written_bits k off w net_w of None \<Rightarrow> {} | Some (lo, hi) \<Rightarrow> {int lo ..< int hi})
      = (if - (2 ^ 31) \<le> edge_int t \<and> edge_int t < 2 ^ 31 then sel_bits k (edge_int t) w \<inter> {0 ..< int net_w} else {})" for k w
  proof (cases "- (2 ^ 31) \<le> edge_int t \<and> edge_int t < 2 ^ 31")
    case True
    then show ?thesis using sel_written_bits_set [of off k w net_w] rng by simp
  next
    case False
    then have "\<not> (- (2 ^ 31) \<le> off \<and> off < 2 ^ 31)" using rng(1) by blast
    then have "sel_written_bits k off w net_w = None" by (simp only: sel_written_bits_def if_False)
    then show ?thesis using False by (simp only: option.case if_False)
  qed
  obtain f where f: "const_u32_of_expr_ctx ir we = Some f" using const_u32_returns [OF assms(1,5)] by blast
  show ?thesis
  proof (cases "ch_kind chunk = Bit")
    case True
    then show ?thesis using off assms(2) bits [of Bit 1]
      by (simp add: const_chunk_written_bits_def split: option.split)
  next
    case False
    then show ?thesis using off assms(2) assms(4) [OF False] f bits [of "ch_kind chunk"]
      by (simp add: const_chunk_written_bits_def)
  qed
qed

theorem const_chunk_bits_named_witness:
  "const_chunk_written_bits part_width_ctx \<lparr>ch_net = 0, ch_word = None, ch_offset = Some 3, ch_width = Some 4, ch_kind = PartIdxUp\<rparr> 4
   = Some (Some (1, 4))" (is "const_chunk_written_bits _ ?c 4 = _")
proof -
  have t: "edge_tree part_width_ctx LValue 3 (ELit [1] 32 True)"
    using edge_tree.lit [OF part_width_nodes(5,6)] by (simp add: region_leaf_def int_const_def clamp_w_def width_max_def)
  have one: "edge_int (ELit [1] 32 True) = 1"
    by (simp add: edge_int_def region_int_def leaf_int_def signed_take_bit_int_eq_self)
  have w: "const_u32_of_expr_ctx part_width_ctx 4 = Some (Some 8)" using const_u32_plain [OF part_width_value] by simp
  have len: "4 < length (x_exprs part_width_ctx)" by (simp add: part_width_ctx_def)
  obtain r where r: "const_chunk_written_bits part_width_ctx ?c 4 = Some r"
    "(case r of None \<Rightarrow> {} | Some (lo, hi) \<Rightarrow> {int lo ..< int hi}) = {1 ..< 9} \<inter> {0 ..< 4}"
    using const_chunk_bits_named [OF part_width_ctx_ok _ t _ len, of ?c 4] w one by (auto simp: sel_bits_def)
  have "{1 ..< 9} \<inter> {0 ..< 4} = {int 1 ..< int 4}" by auto
  then have "(case r of None \<Rightarrow> {} | Some (lo, hi) \<Rightarrow> {int lo ..< int hi}) = {int 1 ..< int 4}" using r(2) by simp
  then obtain lo hi where lh: "r = Some (lo, hi)" "{int lo ..< int hi} = {int 1 ..< int 4}"
    by (cases r) auto
  have "k \<in> {int lo ..< int hi} \<longleftrightarrow> 1 \<le> k \<and> k < 4" for k using lh(2) by simp
  from this [of 0] this [of 1] this [of 3] this [of 4] have "lo = 1 \<and> hi = 4" by simp
  then show ?thesis using r(1) lh(1) by simp
qed

end
