(* ===== verification/EdgeWalk.thy ===== *)
theory EdgeWalk
  imports ConstFold
begin

text \<open>
  The two walks over every constant edge of the IR, \<open>for_each_constant_edge\<close> and
  \<open>for_each_constant_edge_mut\<close> of \<open>crates/sim-ir/src/selfwidth.rs\<close>.  A read-only visit is the list of
  the edges handed to the callback, in order; the mutable one threads the callback's state \<open>'s\<close> and
  returns the arenas it leaves behind.
\<close>

section \<open>The read-only walk\<close>

definition expr_edges :: "expr \<Rightarrow> nat option list" where
  "expr_edges e =
     (case e of
        Select _ _ width kind \<Rightarrow> (if kind \<noteq> Bit then [Some width] else [])
      | Replicate count _ \<Rightarrow> [Some count]
      | _ \<Rightarrow> [])"

definition stmt_target :: "stmt \<Rightarrow> lvalue option" where
  "stmt_target s =
     (case s of
        BlockingAssign lhs _ \<Rightarrow> Some lhs
      | NonblockingAssign lhs _ _ \<Rightarrow> Some lhs
      | Force lhs _ \<Rightarrow> Some lhs
      | Release lhs \<Rightarrow> Some lhs
      | SysTask _ _ _ \<Rightarrow> None
      | Disable _ _ \<Rightarrow> None)"

definition chunk_edges :: "lval_chunk \<Rightarrow> nat option list" where
  "chunk_edges c = (if ch_kind c \<noteq> Bit then [ch_width c] else [])"

definition lvalue_edges :: "lvalue \<Rightarrow> nat option list" where
  "lvalue_edges lv = concat (map chunk_edges (chunks lv))"

definition for_each_constant_edge ::
  "expr list \<Rightarrow> stmt list \<Rightarrow> cont_assign list \<Rightarrow> lvalue list \<Rightarrow> nat option list" where
  "for_each_constant_edge exprs stmts cont_assigns call_outs =
     concat (map expr_edges exprs)
     @ concat (map lvalue_edges (List.map_filter stmt_target stmts @ map ca_lhs cont_assigns @ call_outs))"

section \<open>The repointing walk\<close>

fun walk :: "('s \<Rightarrow> 'a \<Rightarrow> 's \<times> 'a) \<Rightarrow> 's \<Rightarrow> 'a list \<Rightarrow> 's \<times> 'a list" where
  "walk f s [] = (s, [])"
| "walk f s (x # xs) = (let (s1, y) = f s x; (s2, ys) = walk f s1 xs in (s2, y # ys))"

definition expr_edge_mut :: "('s \<Rightarrow> nat \<Rightarrow> 's \<times> nat) \<Rightarrow> 's \<Rightarrow> expr \<Rightarrow> 's \<times> expr" where
  "expr_edge_mut f s e =
     (case e of
        Select b off width kind \<Rightarrow>
          (if kind \<noteq> Bit then (let (s, w) = f s width in (s, Select b off w kind)) else (s, e))
      | Replicate count v \<Rightarrow> (let (s, n) = f s count in (s, Replicate n v))
      | _ \<Rightarrow> (s, e))"

definition chunk_mut :: "('s \<Rightarrow> nat \<Rightarrow> 's \<times> nat) \<Rightarrow> 's \<Rightarrow> lval_chunk \<Rightarrow> 's \<times> lval_chunk" where
  "chunk_mut f s c =
     (if ch_kind c \<noteq> Bit then
        (case ch_width c of
           Some w \<Rightarrow> (let (s, w) = f s w in (s, c\<lparr>ch_width := Some w\<rparr>))
         | None \<Rightarrow> (s, c))
      else (s, c))"

definition lvalue_mut :: "('s \<Rightarrow> nat \<Rightarrow> 's \<times> nat) \<Rightarrow> 's \<Rightarrow> lvalue \<Rightarrow> 's \<times> lvalue" where
  "lvalue_mut f s lv = (let (s, cs) = walk (chunk_mut f) s (chunks lv) in (s, lv\<lparr>chunks := cs\<rparr>))"

definition stmt_mut :: "('s \<Rightarrow> nat \<Rightarrow> 's \<times> nat) \<Rightarrow> 's \<Rightarrow> stmt \<Rightarrow> 's \<times> stmt" where
  "stmt_mut f s st =
     (case st of
        BlockingAssign lhs rhs \<Rightarrow> (let (s, l) = lvalue_mut f s lhs in (s, BlockingAssign l rhs))
      | NonblockingAssign lhs rhs d \<Rightarrow> (let (s, l) = lvalue_mut f s lhs in (s, NonblockingAssign l rhs d))
      | Force lhs rhs \<Rightarrow> (let (s, l) = lvalue_mut f s lhs in (s, Force l rhs))
      | Release lhs \<Rightarrow> (let (s, l) = lvalue_mut f s lhs in (s, Release l))
      | SysTask _ _ _ \<Rightarrow> (s, st)
      | Disable _ _ \<Rightarrow> (s, st))"

definition cont_assign_mut :: "('s \<Rightarrow> nat \<Rightarrow> 's \<times> nat) \<Rightarrow> 's \<Rightarrow> cont_assign \<Rightarrow> 's \<times> cont_assign" where
  "cont_assign_mut f s ca = (let (s, l) = lvalue_mut f s (ca_lhs ca) in (s, ca\<lparr>ca_lhs := l\<rparr>))"

definition for_each_constant_edge_mut ::
  "('s \<Rightarrow> nat \<Rightarrow> 's \<times> nat) \<Rightarrow> 's \<Rightarrow> expr list \<Rightarrow> stmt list \<Rightarrow> cont_assign list \<Rightarrow> lvalue list
    \<Rightarrow> 's \<times> expr list \<times> stmt list \<times> cont_assign list \<times> lvalue list" where
  "for_each_constant_edge_mut f s exprs stmts cont_assigns call_outs =
     (let (s, exprs) = walk (expr_edge_mut f) s exprs;
          (s, stmts) = walk (stmt_mut f) s stmts;
          (s, cont_assigns) = walk (cont_assign_mut f) s cont_assigns;
          (s, call_outs) = walk (lvalue_mut f) s call_outs
      in (s, exprs, stmts, cont_assigns, call_outs))"

section \<open>A visitor that records and repoints\<close>

definition repoint :: "(nat \<Rightarrow> nat) \<Rightarrow> nat list \<Rightarrow> nat \<Rightarrow> nat list \<times> nat" where
  "repoint g s e = (s @ [e], g e)"

definition present :: "'a option list \<Rightarrow> 'a list" where
  "present es = List.map_filter id es"

lemma present_simps [simp]:
  "present [] = []" "present (Some e # es) = e # present es" "present (None # es) = present es"
  "present (xs @ ys) = present xs @ present ys"
  by (simp_all add: present_def List.map_filter_def)

text \<open>\<open>visits m edges\<close>: the mutable step \<open>m\<close> hands out exactly the present edges of its argument, in
  order, and leaves the argument with every edge \<open>g\<close>-repointed.\<close>

definition visits :: "(nat \<Rightarrow> nat) \<Rightarrow> (nat list \<Rightarrow> 'a \<Rightarrow> nat list \<times> 'a) \<Rightarrow> ('a \<Rightarrow> nat option list) \<Rightarrow> bool" where
  "visits g m edges \<longleftrightarrow>
     (\<forall>s x. fst (m s x) = s @ present (edges x) \<and> edges (snd (m s x)) = map (map_option g) (edges x))"

lemma visitsD: "visits g m edges \<Longrightarrow> fst (m s x) = s @ present (edges x)"
  "visits g m edges \<Longrightarrow> edges (snd (m s x)) = map (map_option g) (edges x)"
  by (simp_all add: visits_def)

lemma visits_walk:
  assumes "visits g m edges"
  shows "visits g (walk m) (\<lambda>xs. concat (map edges xs))"
proof -
  have "fst (walk m s xs) = s @ present (concat (map edges xs))
      \<and> concat (map edges (snd (walk m s xs))) = map (map_option g) (concat (map edges xs))" for s xs
    by (induction xs arbitrary: s) (simp_all add: Let_def case_prod_beta visitsD [OF assms])
  then show ?thesis by (simp add: visits_def)
qed

lemma visits_expr: "visits g (expr_edge_mut (repoint g)) expr_edges"
  by (auto simp: visits_def expr_edge_mut_def expr_edges_def repoint_def split: expr.split)

lemma visits_chunk: "visits g (chunk_mut (repoint g)) chunk_edges"
  by (auto simp: visits_def chunk_mut_def chunk_edges_def repoint_def split: option.split)

lemma visits_lvalue: "visits g (lvalue_mut (repoint g)) lvalue_edges"
  using visitsD [OF visits_walk [OF visits_chunk]]
  by (simp add: visits_def lvalue_mut_def lvalue_edges_def case_prod_beta)

definition stmt_edges :: "stmt \<Rightarrow> nat option list" where
  "stmt_edges s = (case stmt_target s of Some lv \<Rightarrow> lvalue_edges lv | None \<Rightarrow> [])"

lemma visits_stmt: "visits g (stmt_mut (repoint g)) stmt_edges"
  by (auto simp: visits_def stmt_mut_def stmt_edges_def stmt_target_def case_prod_beta visitsD [OF visits_lvalue]
      split: stmt.split)

lemma visits_cont_assign: "visits g (cont_assign_mut (repoint g)) (\<lambda>ca. lvalue_edges (ca_lhs ca))"
  by (simp add: visits_def cont_assign_mut_def case_prod_beta visitsD [OF visits_lvalue])

lemma stmt_edges_concat:
  "concat (map lvalue_edges (List.map_filter stmt_target stmts)) = concat (map stmt_edges stmts)"
  by (induction stmts) (simp_all add: List.map_filter_simps stmt_edges_def split: option.split)

section \<open>Properties\<close>

text \<open>The repointing walk hands out exactly the edges the read-only walk reports, in the same order
  and each once, and afterwards the read-only walk reports the repointed edges: no holder of an edge
  is missed by either.\<close>

theorem walks_agree:
  "(let (seen, exprs', stmts', cas', outs') = for_each_constant_edge_mut (repoint g) [] exprs stmts cas outs
    in seen = present (for_each_constant_edge exprs stmts cas outs)
      \<and> for_each_constant_edge exprs' stmts' cas' outs'
        = map (map_option g) (for_each_constant_edge exprs stmts cas outs))"
  using visitsD [OF visits_walk [OF visits_expr]] visitsD [OF visits_walk [OF visits_stmt]]
    visitsD [OF visits_walk [OF visits_cont_assign]] visitsD [OF visits_walk [OF visits_lvalue]]
  by (simp add: for_each_constant_edge_mut_def for_each_constant_edge_def case_prod_beta stmt_edges_concat
      comp_def map_concat)

end
