(* ===== verification/Analysis.thy ===== *)
theory Analysis
  imports ConstFold
begin

text \<open>
  Frame and suspend analysis over the IR arenas, \<open>crates/sim-ir/src/analysis.rs\<close>: which system
  functions and tasks act at statement level, which functions need the statement executor, and the
  set of subroutines that must run on the suspendable path.  The worklist loops are recursive
  functions on the set of seen blocks and the stack (its top first); the theorems say that they
  terminate on every arena and compute reachability and the least fixpoint over the call graph.
\<close>

section \<open>Statement-level effects\<close>

definition sysfunc_is_stmt_effect :: "sys_func_id \<Rightarrow> nat list \<Rightarrow> bool" where
  "sysfunc_is_stmt_effect which args =
     (case which of
        F_dyn f \<Rightarrow> f \<in> {S_QPopBack, S_QPopFront, S_AssocFirst, S_AssocNext, S_AssocLast, S_AssocPrev}
      | F_v7 f \<Rightarrow> (if f = S_Random then args \<noteq> [] else f \<in> {S_ValuePlusargs, S_Fopen})
      | F_v9 f \<Rightarrow>
          (if f \<in> {S_DistUniform, S_DistNormal, S_DistExponential, S_DistPoisson, S_DistChiSquare} then args \<noteq> []
           else if f = S_Cast then length args = 2
           else f \<in> {S_Fgets, S_Fscanf, S_Sscanf, S_Fread, S_Feof, S_Fgetc, S_Ungetc})
      | F_late f \<Rightarrow> f \<in> {S_DistT, S_DistErlang} \<and> args \<noteq> []
      | _ \<Rightarrow> False)"

definition sysfunc_frame_executor_cannot_perform :: "sys_func_id \<Rightarrow> nat list \<Rightarrow> bool" where
  "sysfunc_frame_executor_cannot_perform which args =
     (if which \<in> {F_dyn S_AssocFirst, F_dyn S_AssocNext, F_dyn S_AssocLast, F_dyn S_AssocPrev} then False
      else sysfunc_is_stmt_effect which args)"

definition rhs_frame_executor_cannot_perform :: "expr list \<Rightarrow> nat \<Rightarrow> bool" where
  "rhs_frame_executor_cannot_perform exprs rhs =
     (case arena_get exprs rhs of
        Some (SysFunc which args) \<Rightarrow> sysfunc_frame_executor_cannot_perform which args
      | _ \<Rightarrow> False)"

definition rhs_is_stmt_effect :: "expr list \<Rightarrow> nat \<Rightarrow> bool" where
  "rhs_is_stmt_effect exprs rhs =
     (case arena_get exprs rhs of
        Some (SysFunc which args) \<Rightarrow> sysfunc_is_stmt_effect which args
      | _ \<Rightarrow> False)"

datatype net_write = NW_None | NW_Flat | NW_Heap

definition systask_net_write :: "sys_task_id \<Rightarrow> net_write" where
  "systask_net_write which =
     (if which \<in> {T_Sformat, T_ReadmemB, T_ReadmemH, T_Cast} then NW_Flat
      else if which \<in> {T_StrPutC, T_StrItoa, T_StrHextoa, T_StrOcttoa, T_StrBintoa, T_DynNew, T_DynDelete,
          T_QPushBack, T_QPushFront, T_QInsert, T_QDeleteIdx, T_AssocDeleteKey,
          T_ArrSort, T_ArrRsort, T_ArrReverse, T_ArrLocator, T_ClassRandomize} then NW_Heap
      else NW_None)"

definition systask_effect_is_eval_local :: "sys_task_id \<Rightarrow> bool" where
  "systask_effect_is_eval_local which \<longleftrightarrow> which \<in> {T_Display, T_Write, T_Finish, T_Stop}"

text \<open>\<open>call_out_nets\<close>: the last site of a block wins, as a map collected from pairs.\<close>

definition call_out_nets :: "(nat \<times> (nat \<times> lvalue) list) list \<Rightarrow> (nat \<rightharpoonup> nat list)" where
  "call_out_nets sites =
     map_of (rev (map (\<lambda>(block, out_binds). (block, concat (map (\<lambda>(_, lv). map ch_net (chunks lv)) out_binds))) sites))"

section \<open>The body walk\<close>

text \<open>The blocks a terminator pushes, in push order.\<close>

definition term_succs :: "terminator \<Rightarrow> nat list" where
  "term_succs t =
     (case t of
        Goto b \<Rightarrow> [b]
      | Branch _ then_bb else_bb \<Rightarrow> [then_bb, else_bb]
      | TCall _ ret_bb \<Rightarrow> [ret_bb]
      | Delay _ _ resume \<Rightarrow> [resume]
      | Wait _ resume \<Rightarrow> [resume]
      | Fork cs _ resume_bb \<Rightarrow> cs @ [resume_bb]
      | Return \<Rightarrow> [])"

definition push_succs :: "terminator \<Rightarrow> nat list \<Rightarrow> nat list" where
  "push_succs t stack = rev (term_succs t) @ stack"

definition unseen :: "basic_block list \<Rightarrow> nat list \<Rightarrow> nat" where
  "unseen blocks seen = card {b. b < length blocks \<and> b \<notin> set seen}"

lemma unseen_less: "b < length blocks \<Longrightarrow> b \<notin> set seen \<Longrightarrow> unseen blocks (b # seen) < unseen blocks seen"
  unfolding unseen_def by (intro psubset_card_mono) auto

lemma unseen_same: "\<not> b < length blocks \<Longrightarrow> unseen blocks (b # seen) = unseen blocks seen"
  unfolding unseen_def by (intro arg_cong [where f = card]) auto

text \<open>\<open>func_body_needs_stmt_executor\<close>: the walk stops at the first signal.\<close>

definition block_needs :: "stmt list \<Rightarrow> expr list \<Rightarrow> basic_block \<Rightarrow> bool" where
  "block_needs stmts exprs blk \<longleftrightarrow>
     list_ex (\<lambda>sid. case arena_get stmts sid of
                 Some (BlockingAssign _ rhs) \<Rightarrow> rhs_frame_executor_cannot_perform exprs rhs
               | _ \<Rightarrow> False) (bb_stmts blk)"

function needs_walk :: "basic_block list \<Rightarrow> stmt list \<Rightarrow> expr list \<Rightarrow> nat list \<Rightarrow> nat list \<Rightarrow> bool" where
  "needs_walk blocks stmts exprs seen [] = False"
| "needs_walk blocks stmts exprs seen (b # stack) =
     (if b \<in> set seen then needs_walk blocks stmts exprs seen stack
      else if b < length blocks then
        (if block_needs stmts exprs (blocks ! b) then True
         else needs_walk blocks stmts exprs (b # seen) (push_succs (bb_term (blocks ! b)) stack))
      else needs_walk blocks stmts exprs (b # seen) stack)"
  by pat_completeness auto
termination
  by (relation "measures [\<lambda>(blocks, stmts, exprs, seen, stack). unseen blocks seen,
                          \<lambda>(blocks, stmts, exprs, seen, stack). length stack]")
     (auto simp: unseen_less unseen_same)

definition func_body_needs_stmt_executor ::
  "func_def list \<Rightarrow> basic_block list \<Rightarrow> stmt list \<Rightarrow> expr list \<Rightarrow> nat \<Rightarrow> bool" where
  "func_body_needs_stmt_executor funcs blocks stmts exprs fid =
     (case arena_get funcs fid of
        None \<Rightarrow> False
      | Some f \<Rightarrow> needs_walk blocks stmts exprs [] [f_entry f])"

section \<open>Suspend signals\<close>

definition out_of_window :: "nat \<Rightarrow> nat \<Rightarrow> nat \<Rightarrow> bool" where
  "out_of_window lo hi n \<longleftrightarrow> n < lo \<or> hi \<le> n"

definition stmt_signal :: "expr list \<Rightarrow> stmt \<Rightarrow> nat \<Rightarrow> nat \<Rightarrow> bool" where
  "stmt_signal exprs s lo hi =
     (case s of
        Disable DisScope _ \<Rightarrow> False
      | BlockingAssign lhs rhs \<Rightarrow>
          rhs_is_stmt_effect exprs rhs \<or> list_ex (\<lambda>c. out_of_window lo hi (ch_net c)) (chunks lhs)
      | _ \<Rightarrow> True)"

definition stmts_signal :: "stmt list \<Rightarrow> expr list \<Rightarrow> basic_block \<Rightarrow> nat \<Rightarrow> nat \<Rightarrow> bool" where
  "stmts_signal stmts exprs blk lo hi \<longleftrightarrow>
     list_ex (\<lambda>sid. case arena_get stmts sid of Some s \<Rightarrow> stmt_signal exprs s lo hi | None \<Rightarrow> False) (bb_stmts blk)"

text \<open>Whether the terminator of block \<open>b\<close> is a signal: a delay, wait or fork, or a call that copies
  out past the window.\<close>

definition term_signal :: "(nat \<rightharpoonup> nat list) \<Rightarrow> nat \<Rightarrow> terminator \<Rightarrow> nat \<Rightarrow> nat \<Rightarrow> bool" where
  "term_signal outs b t lo hi =
     (case t of
        TCall _ _ \<Rightarrow> (case outs b of Some dests \<Rightarrow> list_ex (out_of_window lo hi) dests | None \<Rightarrow> False)
      | Delay _ _ _ \<Rightarrow> True
      | Wait _ _ \<Rightarrow> True
      | Fork _ _ _ \<Rightarrow> True
      | _ \<Rightarrow> False)"

definition term_calls :: "(nat \<rightharpoonup> nat) \<Rightarrow> terminator \<Rightarrow> nat list" where
  "term_calls entry_to_func t =
     (case t of
        TCall target _ \<Rightarrow> (case entry_to_func target of Some cf \<Rightarrow> [cf] | None \<Rightarrow> [])
      | _ \<Rightarrow> [])"

function susp_walk ::
  "basic_block list \<Rightarrow> stmt list \<Rightarrow> expr list \<Rightarrow> (nat \<rightharpoonup> nat list) \<Rightarrow> (nat \<rightharpoonup> nat) \<Rightarrow> nat \<Rightarrow> nat
    \<Rightarrow> nat list \<Rightarrow> nat list \<Rightarrow> bool \<times> nat list \<Rightarrow> bool \<times> nat list" where
  "susp_walk blocks stmts exprs outs ef lo hi seen [] acc = acc"
| "susp_walk blocks stmts exprs outs ef lo hi seen (b # stack) acc =
     (if b \<in> set seen then susp_walk blocks stmts exprs outs ef lo hi seen stack acc
      else if b < length blocks then
        (let blk = blocks ! b
         in susp_walk blocks stmts exprs outs ef lo hi (b # seen) (push_succs (bb_term blk) stack)
              (fst acc \<or> stmts_signal stmts exprs blk lo hi \<or> term_signal outs b (bb_term blk) lo hi,
               snd acc @ term_calls ef (bb_term blk)))
      else susp_walk blocks stmts exprs outs ef lo hi (b # seen) stack acc)"
  by pat_completeness auto
termination
  by (relation "measures [\<lambda>(blocks, stmts, exprs, outs, ef, lo, hi, seen, stack, acc). unseen blocks seen,
                          \<lambda>(blocks, stmts, exprs, outs, ef, lo, hi, seen, stack, acc). length stack]")
     (auto simp: unseen_less unseen_same)

definition entry_to_func :: "func_def list \<Rightarrow> (nat \<rightharpoonup> nat)" where
  "entry_to_func funcs = fold (\<lambda>i m. m(f_entry (funcs ! i) \<mapsto> i)) [0..<length funcs] Map.empty"

definition base_net_of :: "nat list \<Rightarrow> nat \<Rightarrow> nat" where
  "base_net_of base_nets fi = (case arena_get base_nets fi of Some n \<Rightarrow> n | None \<Rightarrow> 0)"

definition scan_func ::
  "func_def list \<Rightarrow> basic_block list \<Rightarrow> stmt list \<Rightarrow> expr list \<Rightarrow> nat list \<Rightarrow> (nat \<rightharpoonup> nat list) \<Rightarrow> nat \<Rightarrow> bool \<times> nat list" where
  "scan_func funcs blocks stmts exprs base_nets outs fi =
     (let f = funcs ! fi;
          lo = base_net_of base_nets fi;
          hi = min (lo + f_locals_len f) u32_max
      in susp_walk blocks stmts exprs outs (entry_to_func funcs) lo hi [] [f_entry f] (False, []))"

section \<open>The transitive closure\<close>

text \<open>One pass of the inner \<open>for\<close> loop, in place; the flag is \<open>changed\<close>.\<close>

fun sweep :: "nat list list \<Rightarrow> nat list \<Rightarrow> bool list \<times> bool \<Rightarrow> bool list \<times> bool" where
  "sweep calls [] acc = acc"
| "sweep calls (i # rest) acc =
     sweep calls rest
       (if \<not> fst acc ! i \<and> list_ex (\<lambda>c. fst acc ! c) (calls ! i) then ((fst acc)[i := True], True) else acc)"

definition falses :: "bool list \<Rightarrow> nat" where
  "falses s = card {i. i < length s \<and> \<not> s ! i}"

lemma sweep_length: "length (fst (sweep calls is acc)) = length (fst acc)"
  by (induction "is" arbitrary: acc) simp_all

lemma upd_true: "xs ! i \<Longrightarrow> xs[k := True] ! i"
  by (cases "k < length xs") (simp_all add: nth_list_update list_update_beyond)

lemma sweep_mono: "fst acc ! i \<Longrightarrow> fst (sweep calls is acc) ! i"
proof (induction "is" arbitrary: acc)
  case (Cons k rest)
  have "((fst acc)[k := True]) ! i" using Cons.prems by (rule upd_true)
  then show ?case using Cons by simp
qed simp

lemma sweep_falses:
  "\<forall>i \<in> set is. i < length (fst acc) \<Longrightarrow> snd (sweep calls is acc) \<Longrightarrow>
   snd acc \<or> falses (fst (sweep calls is acc)) < falses (fst acc)"
proof (induction "is" arbitrary: acc)
  case (Cons k rest)
  show ?case
  proof (cases "\<not> fst acc ! k \<and> list_ex (\<lambda>c. fst acc ! c) (calls ! k)")
    case True
    let ?acc = "((fst acc)[k := True], True)"
    have "falses (fst (sweep calls rest ?acc)) < falses (fst acc)"
      unfolding falses_def sweep_length
    proof (rule psubset_card_mono)
      show "finite {i. i < length (fst acc) \<and> \<not> fst acc ! i}" by simp
      have "k \<in> {i. i < length (fst acc) \<and> \<not> fst acc ! i}" using True Cons.prems by simp
      moreover have "fst (sweep calls rest ?acc) ! k" using Cons.prems by (intro sweep_mono) simp
      moreover have "fst (sweep calls rest ?acc) ! i" if "fst acc ! i" for i
        using that by (intro sweep_mono) (simp add: upd_true)
      ultimately show "{i. i < length (fst ?acc) \<and> \<not> fst (sweep calls rest ?acc) ! i} \<subset> {i. i < length (fst acc) \<and> \<not> fst acc ! i}"
        by auto
    qed
    then show ?thesis using True by simp
  next
    case False
    then have eq: "sweep calls (k # rest) acc = sweep calls rest acc" by (simp only: sweep.simps if_False)
    show ?thesis using Cons.IH [of acc] Cons.prems unfolding eq by simp
  qed
qed simp

function close_calls :: "nat list list \<Rightarrow> bool list \<Rightarrow> bool list" where
  "close_calls calls susp =
     (let r = sweep calls [0..<length susp] (susp, False)
      in if snd r then close_calls calls (fst r) else fst r)"
  by pat_completeness auto
termination
  by (relation "measure (\<lambda>(calls, susp). falses susp)") (auto dest: sweep_falses [rotated])

declare close_calls.simps [simp del]

definition compute_suspendable_tasks ::
  "func_def list \<Rightarrow> basic_block list \<Rightarrow> stmt list \<Rightarrow> expr list \<Rightarrow> nat list \<Rightarrow> bool list \<Rightarrow> (nat \<rightharpoonup> nat list) \<Rightarrow> nat list" where
  "compute_suspendable_tasks funcs blocks stmts exprs base_nets force_suspend outs =
     (let n = length funcs;
          scans = map (scan_func funcs blocks stmts exprs base_nets outs) [0..<n];
          direct = map (\<lambda>i. fst (scans ! i) \<or> (case arena_get force_suspend i of Some b \<Rightarrow> b | None \<Rightarrow> False)) [0..<n];
          susp = close_calls (map snd scans) direct
      in filter (\<lambda>i. susp ! i) [0..<n])"

section \<open>Reachability\<close>

text \<open>The blocks the walk visits, in order.\<close>

function visit_order :: "basic_block list \<Rightarrow> nat list \<Rightarrow> nat list \<Rightarrow> nat list" where
  "visit_order blocks seen [] = []"
| "visit_order blocks seen (b # stack) =
     (if b \<in> set seen then visit_order blocks seen stack
      else if b < length blocks then b # visit_order blocks (b # seen) (push_succs (bb_term (blocks ! b)) stack)
      else visit_order blocks (b # seen) stack)"
  by pat_completeness auto
termination
  by (relation "measures [\<lambda>(blocks, seen, stack). unseen blocks seen, \<lambda>(blocks, seen, stack). length stack]")
     (auto simp: unseen_less unseen_same)

inductive reaches :: "basic_block list \<Rightarrow> nat \<Rightarrow> nat \<Rightarrow> bool" for blocks where
  here: "reaches blocks b b"
| step: "reaches blocks a b \<Longrightarrow> b < length blocks \<Longrightarrow> c \<in> set (term_succs (bb_term (blocks ! b))) \<Longrightarrow> reaches blocks a c"

lemma reaches_first:
  "reaches blocks c d \<Longrightarrow> b < length blocks \<Longrightarrow> c \<in> set (term_succs (bb_term (blocks ! b))) \<Longrightarrow> reaches blocks b d"
  by (induction rule: reaches.induct) (auto intro: reaches.intros)

lemma set_push_succs [simp]: "set (push_succs t stack) = set (term_succs t) \<union> set stack"
  by (simp add: push_succs_def)

lemma visit_order_sound: "x \<in> set (visit_order blocks seen stack) \<Longrightarrow> x < length blocks \<and> (\<exists>s \<in> set stack. reaches blocks s x)"
proof (induction blocks seen stack rule: visit_order.induct)
  case (2 blocks seen b stack)
  consider "b \<in> set seen" | "b \<notin> set seen" "b < length blocks" | "b \<notin> set seen" "\<not> b < length blocks" by blast
  then show ?case
  proof cases
    case 1
    then show ?thesis using "2.IH"(1) "2.prems" by auto
  next
    case 2
    show ?thesis
    proof (cases "x = b")
      case True
      then show ?thesis using 2 by (auto intro: reaches.here)
    next
      case False
      then have "x < length blocks \<and> (\<exists>s \<in> set (push_succs (bb_term (blocks ! b)) stack). reaches blocks s x)"
        using "2.IH"(2) 2 "2.prems" by simp
      then show ?thesis using 2 by (auto intro: reaches_first)
    qed
  next
    case 3
    then show ?thesis using "2.IH"(3) "2.prems" by auto
  qed
qed simp

text \<open>A set of blocks closed under the edges of the in-range ones.\<close>

definition closed_in :: "basic_block list \<Rightarrow> nat set \<Rightarrow> nat set \<Rightarrow> bool" where
  "closed_in blocks A B \<longleftrightarrow> (\<forall>b \<in> A. b < length blocks \<longrightarrow> set (term_succs (bb_term (blocks ! b))) \<subseteq> B)"

lemma visit_order_closed:
  assumes "closed_in blocks (set seen) (set seen \<union> set stack)"
    and "A = set seen \<union> set (visit_order blocks seen stack) \<union> {b. length blocks \<le> b}"
  shows "set stack \<subseteq> A \<and> closed_in blocks A A"
  using assms
proof (induction blocks seen stack arbitrary: A rule: visit_order.induct)
  case (1 blocks seen)
  then show ?case by (auto simp: closed_in_def)
next
  case (2 blocks seen b stack)
  consider "b \<in> set seen" | "b \<notin> set seen" "b < length blocks" | "b \<notin> set seen" "\<not> b < length blocks" by blast
  then show ?case
  proof cases
    case 1
    then have s: "set seen \<union> set (b # stack) = set seen \<union> set stack" by auto
    have A: "A = set seen \<union> set (visit_order blocks seen stack) \<union> {b. length blocks \<le> b}" using "2.prems"(2) 1 by simp
    have "set stack \<subseteq> A \<and> closed_in blocks A A" by (rule "2.IH"(1) [OF 1 "2.prems"(1) [unfolded s] A])
    then show ?thesis using 1 A by simp
  next
    case b: 2
    let ?st = "push_succs (bb_term (blocks ! b)) stack"
    have c: "closed_in blocks (set (b # seen)) (set (b # seen) \<union> set ?st)"
      using "2.prems"(1) unfolding closed_in_def by auto
    have A: "A = set (b # seen) \<union> set (visit_order blocks (b # seen) ?st) \<union> {b. length blocks \<le> b}"
      using "2.prems"(2) b by auto
    have "set ?st \<subseteq> A \<and> closed_in blocks A A" by (rule "2.IH"(2) [OF b c A])
    then show ?thesis using A by simp
  next
    case b: 3
    have c: "closed_in blocks (set (b # seen)) (set (b # seen) \<union> set stack)"
      using "2.prems"(1) b unfolding closed_in_def by auto
    have A: "A = set (b # seen) \<union> set (visit_order blocks (b # seen) stack) \<union> {b. length blocks \<le> b}"
      using "2.prems"(2) b by auto
    have "set stack \<subseteq> A \<and> closed_in blocks A A" by (rule "2.IH"(3) [OF b c A])
    then show ?thesis using A by simp
  qed
qed

lemma visit_order_reaches:
  "set (visit_order blocks [] [e]) = {b. b < length blocks \<and> reaches blocks e b}"
proof -
  define V where "V = set (visit_order blocks [] [e])"
  have sound: "x < length blocks \<and> reaches blocks e x" if "x \<in> V" for x
    using visit_order_sound [OF that [unfolded V_def]] by simp
  define A where "A = V \<union> {b. length blocks \<le> b}"
  have eq: "A = set [] \<union> set (visit_order blocks [] [e]) \<union> {b. length blocks \<le> b}"
    by (simp only: A_def V_def list.set Un_empty_left)
  have "closed_in blocks (set []) (set [] \<union> set [e])" by (simp add: closed_in_def)
  from visit_order_closed [OF this eq] have A: "e \<in> A" "closed_in blocks A A" by simp_all
  have "b \<in> A" if "reaches blocks e b" for b
    using that A(1)
  proof (induction rule: reaches.induct)
    case (step a b c)
    then show ?case using A(2) unfolding closed_in_def by blast
  qed
  then have "b \<in> V" if "reaches blocks e b" "b < length blocks" for b
    using that unfolding A_def by (metis (mono_tags) Un_iff leD mem_Collect_eq)
  then show ?thesis using sound unfolding V_def [symmetric] by blast
qed

lemma needs_walk_order:
  "needs_walk blocks stmts exprs seen stack \<longleftrightarrow>
   (\<exists>b \<in> set (visit_order blocks seen stack). block_needs stmts exprs (blocks ! b))"
  by (induction blocks stmts exprs seen stack rule: needs_walk.induct) auto

lemma susp_walk_order:
  "susp_walk blocks stmts exprs outs ef lo hi seen stack acc =
   (fst acc \<or> (\<exists>b \<in> set (visit_order blocks seen stack).
        stmts_signal stmts exprs (blocks ! b) lo hi \<or> term_signal outs b (bb_term (blocks ! b)) lo hi),
    snd acc @ concat (map (\<lambda>b. term_calls ef (bb_term (blocks ! b))) (visit_order blocks seen stack)))"
  by (induction blocks stmts exprs outs ef lo hi seen stack acc rule: susp_walk.induct)
    (auto simp: Let_def)

section \<open>The closure is the least fixpoint\<close>

inductive calls_susp :: "nat list list \<Rightarrow> bool list \<Rightarrow> nat \<Rightarrow> bool" for calls susp where
  direct: "i < length susp \<Longrightarrow> susp ! i \<Longrightarrow> calls_susp calls susp i"
| call: "i < length susp \<Longrightarrow> c \<in> set (calls ! i) \<Longrightarrow> calls_susp calls susp c \<Longrightarrow> calls_susp calls susp i"

lemma calls_susp_bound: "calls_susp calls susp i \<Longrightarrow> i < length susp"
  by (induction rule: calls_susp.induct) simp_all

lemma sweep_flag: "snd acc \<Longrightarrow> snd (sweep calls is acc)"
  by (induction "is" arbitrary: acc) simp_all

lemma sweep_stable:
  "\<not> snd (sweep calls is acc) \<Longrightarrow>
   fst (sweep calls is acc) = fst acc \<and> (\<forall>i \<in> set is. fst acc ! i \<or> (\<forall>c \<in> set (calls ! i). \<not> fst acc ! c))"
proof (induction "is" arbitrary: acc)
  case (Cons k rest)
  let ?g = "\<not> fst acc ! k \<and> list_ex (\<lambda>c. fst acc ! c) (calls ! k)"
  have g: "\<not> ?g"
  proof
    assume ?g
    then have "snd (sweep calls (k # rest) acc)" by (simp add: sweep_flag)
    then show False using Cons.prems by blast
  qed
  then have eq: "sweep calls (k # rest) acc = sweep calls rest acc" by (simp only: sweep.simps if_False)
  show ?case using Cons.IH [of acc] Cons.prems g unfolding eq by (auto simp: list_ex_iff)
qed simp

lemma sweep_sound:
  assumes "\<And>i. i < n \<Longrightarrow> \<exists>c \<in> set (calls ! i). P c \<Longrightarrow> P i" and "\<forall>i < n. \<forall>c \<in> set (calls ! i). c < n"
  shows "length (fst acc) = n \<Longrightarrow> \<forall>i \<in> set is. i < n \<Longrightarrow> \<forall>i < n. fst acc ! i \<longrightarrow> P i \<Longrightarrow>
    i < n \<Longrightarrow> fst (sweep calls is acc) ! i \<Longrightarrow> P i"
proof (induction "is" arbitrary: acc)
  case (Cons k rest)
  show ?case
  proof (cases "\<not> fst acc ! k \<and> list_ex (\<lambda>c. fst acc ! c) (calls ! k)")
    case True
    have k: "k < n" using Cons.prems(2) by simp
    obtain c where c: "c \<in> set (calls ! k)" "fst acc ! c" using True by (auto simp: list_ex_iff)
    then have "P c" using assms(2) k Cons.prems(3) by blast
    then have "P k" using assms(1) [OF k] c(1) by blast
    then have "\<forall>j < n. ((fst acc)[k := True]) ! j \<longrightarrow> P j"
      using Cons.prems(1,3) k by (auto simp: nth_list_update split: if_splits)
    then show ?thesis using Cons.IH [of "((fst acc)[k := True], True)"] Cons.prems True by simp
  next
    case False
    then have eq: "sweep calls (k # rest) acc = sweep calls rest acc" by (simp only: sweep.simps if_False)
    show ?thesis using Cons.IH [of acc] Cons.prems unfolding eq by simp
  qed
qed simp

lemma close_calls_result:
  assumes "\<forall>i < length susp. \<forall>c \<in> set (calls ! i). c < length susp"
  shows "length (close_calls calls susp) = length susp
    \<and> (\<forall>i < length susp. susp ! i \<longrightarrow> close_calls calls susp ! i)
    \<and> (\<forall>i < length susp. (\<exists>c \<in> set (calls ! i). close_calls calls susp ! c) \<longrightarrow> close_calls calls susp ! i)
    \<and> (\<forall>i < length susp. close_calls calls susp ! i \<longrightarrow> calls_susp calls susp i)"
  using assms
proof (induction calls susp rule: close_calls.induct)
  case (1 calls susp)
  let ?n = "length susp" and ?r = "sweep calls [0..<length susp] (susp, False)"
  have len: "length (fst ?r) = ?n" by (simp add: sweep_length)
  have up: "susp ! i \<Longrightarrow> fst ?r ! i" for i using sweep_mono [of "(susp, False)" i] by simp
  have sound: "fst ?r ! i \<Longrightarrow> i < ?n \<Longrightarrow> calls_susp calls susp i" for i
    by (rule sweep_sound [of ?n calls "calls_susp calls susp" "(susp, False)" "[0..<?n]"])
      (use "1.prems" in \<open>auto intro: calls_susp.intros\<close>)
  show ?case
  proof (cases "snd ?r")
    case True
    then have eq: "close_calls calls susp = close_calls calls (fst ?r)"
      by (subst close_calls.simps) (simp add: Let_def)
    have "\<forall>i < length (fst ?r). \<forall>c \<in> set (calls ! i). c < length (fst ?r)" using "1.prems" unfolding len .
    note IH = "1.IH" [OF refl True this, unfolded len]
    have "calls_susp calls (fst ?r) i \<Longrightarrow> calls_susp calls susp i" for i
      by (induction rule: calls_susp.induct) (auto simp: len intro: sound calls_susp.call)
    then show ?thesis unfolding eq using IH up by blast
  next
    case False
    have eq: "close_calls calls susp = fst ?r" by (subst close_calls.simps) (simp add: False Let_def)
    have st: "fst ?r = susp" "\<forall>i < ?n. susp ! i \<or> (\<forall>c \<in> set (calls ! i). \<not> susp ! c)"
      using sweep_stable [OF False] by simp_all
    show ?thesis unfolding eq using st sound by auto
  qed
qed

lemma close_calls_least:
  assumes "\<forall>i < length susp. \<forall>c \<in> set (calls ! i). c < length susp" and "i < length susp"
  shows "close_calls calls susp ! i \<longleftrightarrow> calls_susp calls susp i"
proof
  show "calls_susp calls susp i" if "close_calls calls susp ! i"
    using that close_calls_result [OF assms(1)] assms(2) by blast
  show "close_calls calls susp ! i" if "calls_susp calls susp i"
    using that
  proof (induction rule: calls_susp.induct)
    case (direct i)
    then show ?case using close_calls_result [OF assms(1)] by blast
  next
    case (call i c)
    then show ?case using close_calls_result [OF assms(1)] by blast
  qed
qed

section \<open>The suspendable set\<close>

definition own_signal ::
  "func_def list \<Rightarrow> basic_block list \<Rightarrow> stmt list \<Rightarrow> expr list \<Rightarrow> nat list \<Rightarrow> (nat \<rightharpoonup> nat list) \<Rightarrow> nat \<Rightarrow> bool" where
  "own_signal funcs blocks stmts exprs base_nets outs i \<longleftrightarrow>
     (\<exists>b. b < length blocks \<and> reaches blocks (f_entry (funcs ! i)) b \<and>
       (let lo = base_net_of base_nets i; hi = min (lo + f_locals_len (funcs ! i)) u32_max
        in stmts_signal stmts exprs (blocks ! b) lo hi \<or> term_signal outs b (bb_term (blocks ! b)) lo hi))"

definition calls_func :: "func_def list \<Rightarrow> basic_block list \<Rightarrow> nat \<Rightarrow> nat \<Rightarrow> bool" where
  "calls_func funcs blocks i c \<longleftrightarrow>
     (\<exists>b. b < length blocks \<and> reaches blocks (f_entry (funcs ! i)) b
       \<and> (\<exists>t r. bb_term (blocks ! b) = TCall t r \<and> entry_to_func funcs t = Some c))"

definition forced :: "bool list \<Rightarrow> nat \<Rightarrow> bool" where
  "forced fs i \<longleftrightarrow> i < length fs \<and> fs ! i"

inductive suspendable ::
  "func_def list \<Rightarrow> basic_block list \<Rightarrow> stmt list \<Rightarrow> expr list \<Rightarrow> nat list \<Rightarrow> bool list \<Rightarrow> (nat \<rightharpoonup> nat list) \<Rightarrow> nat \<Rightarrow> bool"
  for funcs blocks stmts exprs base_nets fs outs where
  own: "i < length funcs \<Longrightarrow> own_signal funcs blocks stmts exprs base_nets outs i \<or> forced fs i \<Longrightarrow>
    suspendable funcs blocks stmts exprs base_nets fs outs i"
| calls: "i < length funcs \<Longrightarrow> calls_func funcs blocks i c \<Longrightarrow> suspendable funcs blocks stmts exprs base_nets fs outs c \<Longrightarrow>
    suspendable funcs blocks stmts exprs base_nets fs outs i"

lemma entry_to_func_range: "entry_to_func funcs t = Some c \<Longrightarrow> c < length funcs \<and> f_entry (funcs ! c) = t"
proof -
  have "fold (\<lambda>i m. m(f_entry (funcs ! i) \<mapsto> i)) is m t = Some c \<Longrightarrow>
      m t = Some c \<or> c \<in> set is \<and> f_entry (funcs ! c) = t" for "is" m
  proof (induction "is" arbitrary: m)
    case (Cons a rest)
    then have "(m(f_entry (funcs ! a) \<mapsto> a)) t = Some c \<or> c \<in> set rest \<and> f_entry (funcs ! c) = t"
      by (simp only: fold_Cons comp_apply)
    then show ?case by (auto split: if_splits)
  qed simp
  from this [of "[0..<length funcs]" Map.empty] show "entry_to_func funcs t = Some c \<Longrightarrow> ?thesis"
    by (simp add: entry_to_func_def)
qed

lemma scan_func_result:
  "fst (scan_func funcs blocks stmts exprs base_nets outs i) \<longleftrightarrow> own_signal funcs blocks stmts exprs base_nets outs i"
  "c \<in> set (snd (scan_func funcs blocks stmts exprs base_nets outs i)) \<longleftrightarrow> calls_func funcs blocks i c"
proof -
  note d = scan_func_def Let_def susp_walk_order own_signal_def calls_func_def
  show "fst (scan_func funcs blocks stmts exprs base_nets outs i) \<longleftrightarrow> own_signal funcs blocks stmts exprs base_nets outs i"
    unfolding d by (auto simp: visit_order_reaches simp del: visit_order.simps)
  have "c \<in> set (term_calls ef t) \<longleftrightarrow> (\<exists>a r. t = TCall a r \<and> ef a = Some c)" for ef t
    by (cases t) (auto simp: term_calls_def split: option.splits)
  then show "c \<in> set (snd (scan_func funcs blocks stmts exprs base_nets outs i)) \<longleftrightarrow> calls_func funcs blocks i c"
    unfolding d by (auto simp: visit_order_reaches simp del: visit_order.simps)
qed

lemma compute_suspendable_set:
  "set (compute_suspendable_tasks funcs blocks stmts exprs base_nets fs outs)
   = {i. suspendable funcs blocks stmts exprs base_nets fs outs i}"
proof -
  let ?n = "length funcs" and ?scan = "scan_func funcs blocks stmts exprs base_nets outs"
  let ?S = "suspendable funcs blocks stmts exprs base_nets fs outs"
  define calls where "calls = map snd (map ?scan [0..<?n])"
  define direct where "direct = map (\<lambda>i. fst (map ?scan [0..<?n] ! i) \<or> (case arena_get fs i of Some b \<Rightarrow> b | None \<Rightarrow> False)) [0..<?n]"
  have len: "length direct = ?n" by (simp add: direct_def)
  have c: "c \<in> set (calls ! i) \<longleftrightarrow> calls_func funcs blocks i c" if "i < ?n" for i c
    using that by (simp add: calls_def scan_func_result)
  have d: "direct ! i \<longleftrightarrow> own_signal funcs blocks stmts exprs base_nets outs i \<or> forced fs i" if "i < ?n" for i
    using that by (simp add: direct_def scan_func_result forced_def arena_get_def)
  have cn: "\<forall>i < length direct. \<forall>c \<in> set (calls ! i). c < length direct"
    using c entry_to_func_range unfolding len calls_func_def by blast
  have "calls_susp calls direct i \<longleftrightarrow> ?S i" for i
  proof
    show "?S i" if "calls_susp calls direct i"
      using that by (induction rule: calls_susp.induct) (auto simp: len c d intro: suspendable.intros)
    show "calls_susp calls direct i" if "?S i"
      using that by (induction rule: suspendable.induct) (auto simp: len c d intro: calls_susp.intros)
  qed
  then have "set (filter (\<lambda>i. close_calls calls direct ! i) [0..<?n]) = {i. ?S i}"
    using close_calls_least [OF cn] calls_susp_bound [of calls direct] by (auto simp: len)
  then show ?thesis unfolding compute_suspendable_tasks_def Let_def calls_def direct_def .
qed

section \<open>Properties\<close>

text \<open>The test of a function body terminates on every arena, however its blocks jump, and holds exactly
  when some block reachable from the entry assigns a right-hand side the frame executor cannot perform.\<close>

theorem needs_executor_is_reachability:
  "func_body_needs_stmt_executor funcs blocks stmts exprs fid \<longleftrightarrow>
   (\<exists>b lhs rhs sid. fid < length funcs \<and> b < length blocks \<and> reaches blocks (f_entry (funcs ! fid)) b
      \<and> sid \<in> set (bb_stmts (blocks ! b)) \<and> sid < length stmts \<and> stmts ! sid = BlockingAssign lhs rhs
      \<and> rhs_frame_executor_cannot_perform exprs rhs)"
proof -
  have b: "block_needs stmts exprs blk \<longleftrightarrow>
      (\<exists>lhs rhs sid. sid \<in> set (bb_stmts blk) \<and> sid < length stmts \<and> stmts ! sid = BlockingAssign lhs rhs
        \<and> rhs_frame_executor_cannot_perform exprs rhs)" for blk
  proof -
    have "(case arena_get stmts sid of Some (BlockingAssign _ rhs) \<Rightarrow> rhs_frame_executor_cannot_perform exprs rhs | _ \<Rightarrow> False)
      \<longleftrightarrow> (\<exists>lhs rhs. sid < length stmts \<and> stmts ! sid = BlockingAssign lhs rhs \<and> rhs_frame_executor_cannot_perform exprs rhs)" for sid
      by (cases "stmts ! sid") (auto simp: arena_get_def)
    then show ?thesis unfolding block_needs_def list_ex_iff by blast
  qed
  show ?thesis
    unfolding func_body_needs_stmt_executor_def arena_get_def
    by (auto simp: needs_walk_order visit_order_reaches b simp del: visit_order.simps needs_walk.simps)
qed

text \<open>C10: The suspendable set is sorted and is the least set of subroutines that contains every one with a
  suspend signal of its own in a reachable block (or forced by its flag) and every one that calls a
  member; the worklist and the closure loop terminate on every input.\<close>

theorem suspendable_is_least_fixpoint:
  "sorted (compute_suspendable_tasks funcs blocks stmts exprs base_nets fs outs)
   \<and> distinct (compute_suspendable_tasks funcs blocks stmts exprs base_nets fs outs)
   \<and> set (compute_suspendable_tasks funcs blocks stmts exprs base_nets fs outs)
     = {i. suspendable funcs blocks stmts exprs base_nets fs outs i}"
  using compute_suspendable_set [of funcs blocks stmts exprs base_nets fs outs]
  by (intro conjI) (simp_all only: compute_suspendable_tasks_def Let_def sorted_wrt_filter sorted_upt distinct_filter distinct_upt)

text \<open>C24: A subroutine outside the set runs to its end on the synchronous path: no block it can reach delays,
  waits or forks, and it only calls subroutines outside the set.\<close>

theorem synchronous_body_never_waits:
  assumes "i < length funcs" and "i \<notin> set (compute_suspendable_tasks funcs blocks stmts exprs base_nets fs outs)"
    and "b < length blocks" and "reaches blocks (f_entry (funcs ! i)) b"
  shows "(\<exists>t. bb_term (blocks ! b) = Goto t) \<or> (\<exists>c t e. bb_term (blocks ! b) = Branch c t e)
    \<or> bb_term (blocks ! b) = Return
    \<or> (\<exists>t r. bb_term (blocks ! b) = TCall t r \<and> (\<forall>c. entry_to_func funcs t = Some c \<longrightarrow>
          c \<notin> set (compute_suspendable_tasks funcs blocks stmts exprs base_nets fs outs)))"
proof -
  have n: "\<not> suspendable funcs blocks stmts exprs base_nets fs outs i"
    using assms(2) by (simp add: compute_suspendable_set)
  then have "\<not> own_signal funcs blocks stmts exprs base_nets outs i"
    using assms(1) suspendable.own by blast
  then have ts: "\<not> term_signal outs b (bb_term (blocks ! b)) lo hi"
    if "lo = base_net_of base_nets i" "hi = min (lo + f_locals_len (funcs ! i)) u32_max" for lo hi
    using assms(3,4) that unfolding own_signal_def Let_def by blast
  show ?thesis
  proof (cases "bb_term (blocks ! b)")
    case (TCall t r)
    have "c \<notin> set (compute_suspendable_tasks funcs blocks stmts exprs base_nets fs outs)"
      if "entry_to_func funcs t = Some c" for c
    proof
      assume "c \<in> set (compute_suspendable_tasks funcs blocks stmts exprs base_nets fs outs)"
      then have "suspendable funcs blocks stmts exprs base_nets fs outs c" by (simp add: compute_suspendable_set)
      moreover have "calls_func funcs blocks i c" using assms(3,4) TCall that unfolding calls_func_def by blast
      ultimately show False using n suspendable.calls [OF assms(1)] by blast
    qed
    then show ?thesis using TCall by blast
  qed (use ts [OF refl refl] in \<open>simp_all add: term_signal_def\<close>)
qed

text \<open>Two subroutines: the first calls the second, which returns at once.\<close>

definition two_funcs :: "func_def list" where
  "two_funcs = [\<lparr>f_entry = 0, f_n_params = 0, f_locals_len = 1, f_is_task = True\<rparr>,
                \<lparr>f_entry = 2, f_n_params = 0, f_locals_len = 1, f_is_task = True\<rparr>]"

definition two_blocks :: "terminator \<Rightarrow> basic_block list" where
  "two_blocks t = [\<lparr>bb_stmts = [], bb_term = TCall 2 1\<rparr>, \<lparr>bb_stmts = [], bb_term = Return\<rparr>,
                   \<lparr>bb_stmts = [], bb_term = t\<rparr>]"

lemma close_two:
  "close_calls [[Suc 0], []] [False, False] = [False, False]"
  "close_calls [[Suc 0], []] [True, True] = [True, True]"
  "close_calls [[Suc 0], []] [False, True] = [True, True]"
proof -
  show "close_calls [[Suc 0], []] [False, False] = [False, False]" "close_calls [[Suc 0], []] [True, True] = [True, True]"
    by (subst close_calls.simps, simp add: Let_def)+
  then show "close_calls [[Suc 0], []] [False, True] = [True, True]"
    by (subst close_calls.simps) (simp add: Let_def)
qed

lemma two_funcs_sets:
  "compute_suspendable_tasks two_funcs (two_blocks Return) [] [] [0, 1] [] Map.empty = []"
  "compute_suspendable_tasks two_funcs (two_blocks (Delay 0 ActiveRegion 1)) [] [] [0, 1] [] Map.empty = [0, 1]"
  by (simp_all add: compute_suspendable_tasks_def scan_func_def entry_to_func_def two_funcs_def two_blocks_def
      push_succs_def term_succs_def stmts_signal_def term_signal_def term_calls_def base_net_of_def u32_max_def
      close_two arena_get_def Let_def numeral_2_eq_2)

theorem synchronous_body_never_waits_witness:
  "bb_term (two_blocks Return ! 0) = TCall 2 1 \<and> entry_to_func two_funcs 2 = Some 1
   \<and> 1 \<notin> set (compute_suspendable_tasks two_funcs (two_blocks Return) [] [] [0, 1] [] Map.empty)"
proof -
  have e: "entry_to_func two_funcs 2 = Some 1" by (simp add: entry_to_func_def two_funcs_def)
  have "(\<exists>t. bb_term (two_blocks Return ! 0) = Goto t) \<or> (\<exists>c t e. bb_term (two_blocks Return ! 0) = Branch c t e)
    \<or> bb_term (two_blocks Return ! 0) = Return
    \<or> (\<exists>t r. bb_term (two_blocks Return ! 0) = TCall t r \<and> (\<forall>c. entry_to_func two_funcs t = Some c \<longrightarrow>
          c \<notin> set (compute_suspendable_tasks two_funcs (two_blocks Return) [] [] [0, 1] [] Map.empty)))"
    by (rule synchronous_body_never_waits [of 0])
      (simp_all only: two_funcs_sets, simp_all add: two_funcs_def two_blocks_def reaches.here)
  then show ?thesis using e by (simp add: two_blocks_def)
qed

end
