(* ===== verification/Resolution.thy ===== *)
theory Resolution
  imports ValueReads "HOL-Library.Multiset" IrTypes
begin

text \<open>
  Nets with several drivers and with transition delays, the helpers of
  \<open>crates/sim-engine/src/sched/wait_fork.rs\<close>: IEEE 1364 wire, wired-and and wired-or resolution, the
  inertial delay of a value change, and the slot edge test.  Each resolution is a word form whose
  lanes follow a 4-state table; the locale \<open>resolution\<close> states what a table must satisfy for the
  fold over the drivers not to depend on their order.
\<close>

section \<open>The word forms\<close>

definition wire_w :: "u64 \<Rightarrow> u64 \<Rightarrow> u64 \<Rightarrow> u64 \<Rightarrow> u64 \<times> u64" where
  "wire_w av au bv bu =
     (let az = av AND au;
          bz = bv AND bu;
          same = NOT (av XOR bv) AND NOT (au XOR bu);
          take_b = az;
          take_a = NOT az AND (bz OR same);
          x_bits = NOT az AND NOT bz AND NOT same
      in ((take_b AND bv) OR (take_a AND av), (take_b AND bu) OR (take_a AND au) OR x_bits))"

definition wand_w :: "u64 \<Rightarrow> u64 \<Rightarrow> u64 \<Rightarrow> u64 \<Rightarrow> u64 \<times> u64" where
  "wand_w av au bv bu =
     (let az = av AND au;
          bz = bv AND bu;
          take_b = az;
          take_a = NOT az AND bz;
          rest = NOT az AND NOT bz;
          a0 = NOT av AND NOT au;
          b0 = NOT bv AND NOT bu;
          a1 = av AND NOT au;
          b1 = bv AND NOT bu;
          one = rest AND a1 AND b1;
          xx = rest AND NOT (a0 OR b0) AND NOT (a1 AND b1)
      in ((take_b AND bv) OR (take_a AND av) OR one, (take_b AND bu) OR (take_a AND au) OR xx))"

definition wor_w :: "u64 \<Rightarrow> u64 \<Rightarrow> u64 \<Rightarrow> u64 \<Rightarrow> u64 \<times> u64" where
  "wor_w av au bv bu =
     (let az = av AND au;
          bz = bv AND bu;
          take_b = az;
          take_a = NOT az AND bz;
          rest = NOT az AND NOT bz;
          a0 = NOT av AND NOT au;
          b0 = NOT bv AND NOT bu;
          a1 = av AND NOT au;
          b1 = bv AND NOT bu;
          one = rest AND (a1 OR b1);
          xx = rest AND NOT (a1 OR b1) AND NOT (a0 AND b0)
      in ((take_b AND bv) OR (take_a AND av) OR one, (take_b AND bu) OR (take_a AND au) OR xx))"

text \<open>The loop over \<open>acc.val.len()\<close> words, in place; a word past the driver's planes reads 0.\<close>

definition resolve_with :: "(u64 \<Rightarrow> u64 \<Rightarrow> u64 \<Rightarrow> u64 \<Rightarrow> u64 \<times> u64) \<Rightarrow> sim_value \<Rightarrow> sim_value \<Rightarrow> sim_value" where
  "resolve_with f acc d =
     (let n = length (v_val acc);
          r = (\<lambda>w. f (wget (v_val acc) w) (wget (v_unk acc) w) (wget (v_val d) w) (wget (v_unk d) w))
      in mask_top (acc\<lparr>v_val := map (\<lambda>w. fst (r w)) [0..<n], v_unk := map (\<lambda>w. snd (r w)) [0..<n]\<rparr>))"

definition resolve_wire_into :: "sim_value \<Rightarrow> sim_value \<Rightarrow> sim_value" where
  "resolve_wire_into acc d = resolve_with wire_w acc d"

definition resolve_wand_into :: "sim_value \<Rightarrow> sim_value \<Rightarrow> sim_value" where
  "resolve_wand_into acc d = resolve_with wand_w acc d"

definition resolve_wor_into :: "sim_value \<Rightarrow> sim_value \<Rightarrow> sim_value" where
  "resolve_wor_into acc d = resolve_with wor_w acc d"

section \<open>The tables\<close>

definition wire4 :: "logic4 \<Rightarrow> logic4 \<Rightarrow> logic4" where
  "wire4 a b = (if a = LZ then b else if b = LZ \<or> a = b then a else LX)"

definition wand4 :: "logic4 \<Rightarrow> logic4 \<Rightarrow> logic4" where
  "wand4 a b = (if a = LZ then b else if b = LZ then a else and4 a b)"

definition wor4 :: "logic4 \<Rightarrow> logic4 \<Rightarrow> logic4" where
  "wor4 a b = (if a = LZ then b else if b = LZ then a else or4 a b)"

text \<open>What resolving a net promises: a word form whose table is commutative and associative and lets \<open>z\<close>
  yield.  Then the drivers of a net may be folded in any order.\<close>

locale resolution = word_op +
  assumes g_commute: "g a b = g b a" and g_assoc: "g (g a b) c = g a (g b c)" and g_z: "g LZ b = b"
begin

lemma vbit_resolve:
  assumes "vec_ok acc"
  shows "vbit (resolve_with f acc d) i = (if i < v_width acc then g (vbit acc i) (vbit d i) else L0)"
proof -
  have "v_width acc \<le> 64 * length (v_val acc)" using assms nw1_bounds(2) [of "v_width acc"]
    by (simp add: vec_ok_def plane_ok_iff)
  then show ?thesis
    using plane_bits [of i "length (v_val acc)" "v_val acc" "v_unk acc" "v_val d" "v_unk d"] assms
    by (simp add: resolve_with_def vbit_mask_top vec_ok_def Let_def) (simp add: vbit_def)
qed

lemma resolve_shape:
  "v_width (resolve_with f acc d) = v_width acc" "v_signed (resolve_with f acc d) = v_signed acc"
  "v_str (resolve_with f acc d) = v_str acc" "vec_ok acc \<Longrightarrow> vec_ok (resolve_with f acc d)"
  by (simp_all add: resolve_with_def Let_def) (simp add: vec_ok_def)

lemma resolve_swap:
  assumes "vec_ok acc"
  shows "resolve_with f (resolve_with f acc a) b = resolve_with f (resolve_with f acc b) a"
proof -
  have swap: "g (g u v) w = g (g u w) v" for u v w by (metis g_commute g_assoc)
  show ?thesis
    by (rule vec_ok_ext) (simp_all add: resolve_shape assms vbit_resolve swap)
qed

lemma fold_resolve:
  assumes "vec_ok acc"
  shows "vec_ok (fold (\<lambda>d a. resolve_with f a d) ds acc)"
    and "v_width (fold (\<lambda>d a. resolve_with f a d) ds acc) = v_width acc"
    and "v_signed (fold (\<lambda>d a. resolve_with f a d) ds acc) = v_signed acc"
    and "v_str (fold (\<lambda>d a. resolve_with f a d) ds acc) = v_str acc"
    and "i < v_width acc \<Longrightarrow> vbit (fold (\<lambda>d a. resolve_with f a d) ds acc) i
          = fold (\<lambda>d b. g b (vbit d i)) ds (vbit acc i)"
  using assms by (induction ds arbitrary: acc) (simp_all add: resolve_shape vbit_resolve)

lemma fold_any_order:
  assumes "mset ds = mset es" and "vec_ok acc"
  shows "fold (\<lambda>d a. resolve_with f a d) ds acc = fold (\<lambda>d a. resolve_with f a d) es acc"
proof (rule vec_ok_ext)
  have swap: "g (g u v) w = g (g u w) v" for u v w by (metis g_commute g_assoc)
  fix i assume "i < v_width (fold (\<lambda>d a. resolve_with f a d) ds acc)"
  then have i: "i < v_width acc" by (simp add: fold_resolve assms(2))
  have "fold (\<lambda>d b. g b (vbit d i)) ds = fold (\<lambda>d b. g b (vbit d i)) es"
    by (rule fold_multiset_equiv [OF _ assms(1)]) (simp add: fun_eq_iff swap)
  then show "vbit (fold (\<lambda>d a. resolve_with f a d) ds acc) i = vbit (fold (\<lambda>d a. resolve_with f a d) es acc) i"
    by (simp add: fold_resolve assms(2) i)
qed (simp_all add: fold_resolve assms(2))

text \<open>A net all of whose drivers but one are \<open>z\<close> takes that one.\<close>

lemma single_driver:
  assumes "vec_ok acc" and "i < v_width acc" and "\<And>d. d \<in> set ds \<Longrightarrow> vbit d i = LZ"
  shows "vbit (fold (\<lambda>d a. resolve_with f a d) ds acc) i = vbit acc i"
proof -
  have z: "g b LZ = b" for b by (metis g_commute g_z)
  have "fold (\<lambda>d b. g b (vbit d i)) ds c = c" if "\<And>d. d \<in> set ds \<Longrightarrow> vbit d i = LZ" for c
    using that by (induction ds arbitrary: c) (simp_all add: z)
  then show ?thesis using assms by (simp add: fold_resolve)
qed

end

interpretation wire: resolution wire_w wire4
  by unfold_locales
    (auto simp: lane_def wire_w_def wire4_def Let_def logic4_defs bit_simps)

interpretation wand: resolution wand_w wand4
  by unfold_locales
    (auto simp: lane_def wand_w_def wand4_def Let_def logic4_defs bit_simps)

interpretation wor: resolution wor_w wor4
  by unfold_locales
    (auto simp: lane_def wor_w_def wor4_def Let_def logic4_defs bit_simps)

section \<open>Slot edges\<close>

definition edge_fires_slot :: "nat \<Rightarrow> edge_kind \<Rightarrow> bool" where
  "edge_fires_slot m kind =
     (case kind of
        Posedge \<Rightarrow> m AND 1 \<noteq> 0
      | Negedge \<Rightarrow> m AND 2 \<noteq> 0
      | AnyEdge \<Rightarrow> m AND 4 \<noteq> 0)"

section \<open>Transition delays\<close>

text \<open>\<open>zero\<close>: the double's bits apart from its sign.\<close>

definition real_zero :: "sim_value \<Rightarrow> bool" where
  "real_zero v \<longleftrightarrow> wget (v_val v) 0 AND NOT (push_bit 63 1) = 0"

definition bit_delay :: "nat \<Rightarrow> nat \<Rightarrow> nat \<Rightarrow> nat \<Rightarrow> u64 \<times> u64 \<Rightarrow> nat" where
  "bit_delay rise fall toff x_delay p =
     (if p = (1, 0) then rise else if p = (0, 0) then fall else if p = (1, 1) then toff else x_delay)"

definition bit_changed :: "sim_value option \<Rightarrow> sim_value \<Rightarrow> nat \<Rightarrow> bool" where
  "bit_changed old nw i =
     (case old of
        None \<Rightarrow> True
      | Some v \<Rightarrow> v_width v \<le> i \<or> get_vu v i \<noteq> get_vu nw i)"

fun delay_scan :: "sim_value option \<Rightarrow> sim_value \<Rightarrow> nat \<Rightarrow> nat \<Rightarrow> nat \<Rightarrow> nat list \<Rightarrow> nat option \<Rightarrow> nat option" where
  "delay_scan old nw rise fall toff [] d = d"
| "delay_scan old nw rise fall toff (i # rest) d =
     (if \<not> bit_changed old nw i then delay_scan old nw rise fall toff rest d
      else (let bd = bit_delay rise fall toff (min (min rise fall) toff) (get_vu nw i)
            in delay_scan old nw rise fall toff rest (Some (case d of None \<Rightarrow> bd | Some m \<Rightarrow> max m bd))))"

definition transition_delay :: "sim_value option \<Rightarrow> sim_value \<Rightarrow> bool \<Rightarrow> nat \<Rightarrow> nat \<Rightarrow> nat \<Rightarrow> nat" where
  "transition_delay old nw rl rise fall toff =
     (if rl then
        (let falls = real_zero nw \<and> \<not> (case old of Some v \<Rightarrow> v_real v \<and> real_zero v | None \<Rightarrow> False)
         in if falls then fall else rise)
      else (case delay_scan old nw rise fall toff [0..<v_width nw] None of Some d \<Rightarrow> d | None \<Rightarrow> rise))"

text \<open>The delay of a bit by its destination value.\<close>

definition dest_delay :: "nat \<Rightarrow> nat \<Rightarrow> nat \<Rightarrow> logic4 \<Rightarrow> nat" where
  "dest_delay rise fall toff b =
     (case b of L1 \<Rightarrow> rise | L0 \<Rightarrow> fall | LZ \<Rightarrow> toff | LX \<Rightarrow> min (min rise fall) toff)"

definition changed_bits :: "sim_value option \<Rightarrow> sim_value \<Rightarrow> nat set" where
  "changed_bits old nw =
     {i. i < v_width nw \<and> (case old of None \<Rightarrow> True | Some v \<Rightarrow> v_width v \<le> i \<or> vbit v i \<noteq> vbit nw i)}"

lemma bit_delay_dest: "bit_delay rise fall toff (min (min rise fall) toff) (get_vu v i) = dest_delay rise fall toff (vbit v i)"
  by (cases "vbit v i") (simp_all add: bit_delay_def dest_delay_def get_vu_eq pair1_def l4_v_def l4_u_def)

lemma pair1_inj: "pair1 a = pair1 b \<longleftrightarrow> a = b"
  by (cases a; cases b) (simp_all add: pair1_def l4_v_def l4_u_def)

lemma bit_changed_iff: "i < v_width nw \<Longrightarrow> bit_changed old nw i \<longleftrightarrow> i \<in> changed_bits old nw"
  by (auto simp: bit_changed_def changed_bits_def get_vu_eq pair1_inj split: option.splits)

lemma Max_insert2_max: "finite R \<Longrightarrow> Max (insert m (insert x R)) = Max (insert (max m x) R)" for m :: nat
  by (cases "R = {}") (simp_all add: max.assoc)

lemma delay_scan_max:
  assumes "\<forall>i \<in> set is. i < v_width nw"
  shows "delay_scan old nw rise fall toff is d =
    (let D = (\<lambda>i. dest_delay rise fall toff (vbit nw i)) ` {i \<in> set is. i \<in> changed_bits old nw} \<union> set_option d
     in if D = {} then None else Some (Max D))"
  using assms
proof (induction "is" arbitrary: d)
  case Nil
  then show ?case by (cases d) simp_all
next
  case (Cons i rest)
  let ?f = "\<lambda>i. dest_delay rise fall toff (vbit nw i)"
  let ?R = "?f ` {i \<in> set rest. i \<in> changed_bits old nw}"
  have fin: "finite ?R" by simp
  have i: "bit_changed old nw i \<longleftrightarrow> i \<in> changed_bits old nw" using Cons.prems by (simp add: bit_changed_iff)
  have IH: "delay_scan old nw rise fall toff rest e = (let D = ?R \<union> set_option e in if D = {} then None else Some (Max D))" for e
    using Cons by simp
  show ?case
  proof (cases "i \<in> changed_bits old nw")
    case False
    then have "{j \<in> set (i # rest). j \<in> changed_bits old nw} = {j \<in> set rest. j \<in> changed_bits old nw}" by auto
    then show ?thesis using False i IH by simp
  next
    case True
    then have s: "{j \<in> set (i # rest). j \<in> changed_bits old nw} = insert i {j \<in> set rest. j \<in> changed_bits old nw}" by auto
    have "Max (?R \<union> {max m (?f i)}) = Max (insert (?f i) ?R \<union> {m})" for m
      using Max_insert2_max [OF fin, of m "?f i"] by (simp add: insert_commute)
    then show ?thesis using True i IH unfolding s by (cases d) (simp_all add: bit_delay_dest Let_def)
  qed
qed

section \<open>Properties\<close>

text \<open>C27: Resolving a wire, a wired-and or a wired-or over its drivers gives every bit the IEEE resolution
  of the drivers' bits, and the result does not depend on the order of the drivers.\<close>

theorem drivers_resolve_in_any_order:
  assumes "vec_ok acc" and "mset ds = mset es" and "i < v_width acc"
  shows "fold (\<lambda>d a. resolve_wire_into a d) ds acc = fold (\<lambda>d a. resolve_wire_into a d) es acc
    \<and> fold (\<lambda>d a. resolve_wand_into a d) ds acc = fold (\<lambda>d a. resolve_wand_into a d) es acc
    \<and> fold (\<lambda>d a. resolve_wor_into a d) ds acc = fold (\<lambda>d a. resolve_wor_into a d) es acc
    \<and> vbit (fold (\<lambda>d a. resolve_wire_into a d) ds acc) i = fold (\<lambda>d b. wire4 b (vbit d i)) ds (vbit acc i)
    \<and> vbit (fold (\<lambda>d a. resolve_wand_into a d) ds acc) i = fold (\<lambda>d b. wand4 b (vbit d i)) ds (vbit acc i)
    \<and> vbit (fold (\<lambda>d a. resolve_wor_into a d) ds acc) i = fold (\<lambda>d b. wor4 b (vbit d i)) ds (vbit acc i)"
  unfolding resolve_wire_into_def resolve_wand_into_def resolve_wor_into_def
  using wire.fold_any_order wand.fold_any_order wor.fold_any_order
    wire.fold_resolve(5) wand.fold_resolve(5) wor.fold_resolve(5) assms by blast

theorem drivers_resolve_in_any_order_witness:
  "fold (\<lambda>d a. resolve_wire_into a d) [zeros 8 False, all_x 8 False] (all_x 8 False)
   = fold (\<lambda>d a. resolve_wire_into a d) [all_x 8 False, zeros 8 False] (all_x 8 False)"
  using drivers_resolve_in_any_order [of "all_x 8 False" "[zeros 8 False, all_x 8 False]" "[all_x 8 False, zeros 8 False]" 0]
  by simp

text \<open>The inertial delay of a vector's change is the largest delay, by destination value, of the bits
  that change (every bit at a first drive): rise to 1, fall to 0, turn-off to z, the smallest of the
  three to x; the sentinel for a never-firing delay wins whenever one changed bit carries it.\<close>

theorem transition_delay_is_max_of_changes:
  "transition_delay old nw False rise fall toff =
     (if changed_bits old nw = {} then rise
      else Max ((\<lambda>i. dest_delay rise fall toff (vbit nw i)) ` changed_bits old nw))"
proof -
  have "{i \<in> set [0..<v_width nw]. i \<in> changed_bits old nw} = changed_bits old nw"
    by (auto simp: changed_bits_def)
  then show ?thesis
    using delay_scan_max [of "[0..<v_width nw]" nw old rise fall toff None]
    by (simp add: transition_delay_def Let_def)
qed

end
