(* ===== verification/ReadyQueue.thy ===== *)
theory ReadyQueue
  imports Prelude "HOL-Library.Multiset" "HOL-Library.Product_Lexorder"
begin

text \<open>
  The ready queues of \<open>crates/sim-engine/src/sched\<close>: the entry \<open>Ready\<close>, its insertion and the
  batch rejoin of \<open>wait_fork.rs\<close>, and the tie keys of fork children.  A queue is a list sorted by
  \<open>(seq, tie)\<close>; entries with equal keys keep their order of arrival.
\<close>

record ready =
  rd_seq :: nat
  rd_tie :: nat
  rd_proc :: nat
  rd_block :: nat

definition rkey :: "ready \<Rightarrow> nat \<times> nat" where
  "rkey r = (rd_seq r, rd_tie r)"

text \<open>\<open>partition_point\<close> on a slice partitioned by the predicate, which a sorted queue is.\<close>

definition partition_point :: "('a \<Rightarrow> bool) \<Rightarrow> 'a list \<Rightarrow> nat" where
  "partition_point P xs = length (takeWhile P xs)"

definition push_sorted :: "ready list \<Rightarrow> ready \<Rightarrow> ready list" where
  "push_sorted q r =
     (let pos = partition_point (\<lambda>x. rkey x \<le> rkey r) q
      in take pos q @ r # drop pos q)"

definition rejoin_sorted :: "ready list \<Rightarrow> ready list \<Rightarrow> ready list" where
  "rejoin_sorted q parked =
     (if parked \<noteq> [] \<and> q \<noteq> [] \<and> rkey (last parked) < rkey (hd q) then parked @ q
      else if parked \<noteq> [] \<and> q = [] then parked
      else fold (\<lambda>r q. push_sorted q r) parked q)"

text \<open>\<open>u32\<close> arithmetic written on \<open>nat\<close>: the shift drops what leaves 32 bits.\<close>

definition compose_child_tie :: "nat \<Rightarrow> nat \<Rightarrow> nat" where
  "compose_child_tie parent_tie child_idx = (push_bit 16 (parent_tie + 1) mod 2 ^ 32) OR (child_idx AND 0xFFFF)"

section \<open>Insertion\<close>

definition queue_ok :: "ready list \<Rightarrow> bool" where
  "queue_ok q \<longleftrightarrow> sorted (map rkey q)"

lemma push_sorted_Nil [simp]: "push_sorted [] r = [r]"
  by (simp add: push_sorted_def partition_point_def)

lemma push_sorted_Cons: "push_sorted (x # q) r = (if rkey x \<le> rkey r then x # push_sorted q r else r # x # q)"
  by (simp add: push_sorted_def partition_point_def Let_def)

lemma mset_push_sorted: "mset (push_sorted q r) = add_mset r (mset q)"
  by (induction q) (simp_all add: push_sorted_Cons)

lemma set_push_sorted: "set (push_sorted q r) = insert r (set q)"
  by (induction q) (auto simp: push_sorted_Cons)

lemma queue_ok_push_sorted: "queue_ok q \<Longrightarrow> queue_ok (push_sorted q r)"
  by (induction q) (auto simp: queue_ok_def push_sorted_Cons set_push_sorted not_le intro: order.trans less_imp_le)

text \<open>Entries of one key keep their order of arrival.\<close>

lemma push_sorted_stable:
  "queue_ok q \<Longrightarrow> filter (\<lambda>x. rkey x = k) (push_sorted q r) = filter (\<lambda>x. rkey x = k) q @ (if rkey r = k then [r] else [])"
proof (induction q)
  case (Cons x q)
  show ?case
  proof (cases "rkey x \<le> rkey r")
    case True
    then show ?thesis using Cons by (simp add: push_sorted_Cons queue_ok_def)
  next
    case False
    then have "\<forall>y \<in> set (x # q). rkey r < rkey y" using Cons.prems by (auto simp: queue_ok_def not_le intro: less_le_trans)
    then have "filter (\<lambda>x. rkey x = k) (x # q) = []" if "rkey r = k"
      using that by (auto simp: filter_empty_conv)
    then show ?thesis using False by (auto simp: push_sorted_Cons)
  qed
qed simp

lemma push_sorted_last: "\<forall>x \<in> set q. rkey x \<le> rkey r \<Longrightarrow> push_sorted q r = q @ [r]"
  by (induction q) (simp_all add: push_sorted_Cons)

lemma push_sorted_append:
  "\<forall>x \<in> set q. rkey r < rkey x \<Longrightarrow> push_sorted (p @ q) r = push_sorted p r @ q"
proof (induction p)
  case Nil
  then show ?case by (cases q) (auto simp: push_sorted_Cons not_le)
qed (simp add: push_sorted_Cons)

text \<open>The batch that sorts below a queue rejoins it in front.\<close>

lemma fold_push_sorted_front:
  "queue_ok (p @ rs) \<Longrightarrow> \<forall>r \<in> set rs. \<forall>x \<in> set q. rkey r < rkey x \<Longrightarrow>
   fold (\<lambda>r q. push_sorted q r) rs (p @ q) = p @ rs @ q"
proof (induction rs arbitrary: p)
  case (Cons r rs)
  have "push_sorted p r = p @ [r]"
    using Cons.prems(1) by (intro push_sorted_last) (auto simp: queue_ok_def sorted_append)
  then have "push_sorted (p @ q) r = (p @ [r]) @ q" using push_sorted_append [of q r p] Cons.prems(2) by simp
  then show ?case using Cons.IH [of "p @ [r]"] Cons.prems by simp
qed simp

lemma rejoin_is_fold:
  assumes "queue_ok parked" and "queue_ok q"
  shows "rejoin_sorted q parked = fold (\<lambda>r q. push_sorted q r) parked q"
proof -
  consider "parked \<noteq> []" "q \<noteq> []" "rkey (last parked) < rkey (hd q)" | "q = []"
    | "\<not> (parked \<noteq> [] \<and> q \<noteq> [] \<and> rkey (last parked) < rkey (hd q))" "q \<noteq> []" by blast
  then show ?thesis
  proof cases
    case 1
    have "rkey r < rkey x" if "r \<in> set parked" "x \<in> set q" for r x
    proof -
      have "rkey r \<le> rkey (last parked)"
        using that(1) assms(1) by (induction parked rule: rev_induct) (auto simp: queue_ok_def sorted_append)
      moreover have "rkey (hd q) \<le> rkey x" using that(2) assms(2) by (cases q) (auto simp: queue_ok_def)
      ultimately show ?thesis using 1(3) by (meson le_less_trans less_le_trans)
    qed
    then show ?thesis using fold_push_sorted_front [of "[]" parked q] assms(1) 1 by (simp add: rejoin_sorted_def)
  next
    case 2
    then show ?thesis using fold_push_sorted_front [of "[]" parked "[]"] assms(1) by (simp add: rejoin_sorted_def)
  next
    case 3
    then show ?thesis by (auto simp: rejoin_sorted_def)
  qed
qed

lemma fold_push_sorted:
  "queue_ok q \<Longrightarrow> queue_ok (fold (\<lambda>r q. push_sorted q r) rs q)"
  "mset (fold (\<lambda>r q. push_sorted q r) rs q) = mset rs + mset q"
  by (induction rs arbitrary: q) (simp_all add: queue_ok_push_sorted mset_push_sorted)

section \<open>Child ties\<close>

lemma child_tie_value:
  assumes "parent_tie < 0xFFFF" and "child_idx < 2 ^ 16"
  shows "compose_child_tie parent_tie child_idx = 2 ^ 16 * (parent_tie + 1) + child_idx"
proof -
  have tk: "take_bit 16 child_idx = child_idx" using assms(2) by (simp add: take_bit_nat_eq_self_iff)
  have "take_bit 16 child_idx = child_idx AND 0xFFFF" by (simp add: take_bit_eq_mask mask_eq_exp_minus_1)
  then have c: "child_idx AND 0xFFFF = child_idx" using tk by simp
  have p: "push_bit 16 (parent_tie + 1) mod 2 ^ 32 = push_bit 16 (parent_tie + 1)"
    using assms(1) by (simp add: push_bit_eq_mult)
  have "\<not> bit (push_bit 16 (parent_tie + 1)) n \<or> \<not> bit child_idx n" for n
    using tk by (metis bit_push_bit_iff bit_take_bit_iff not_less)
  then have "push_bit 16 (parent_tie + 1) OR child_idx = push_bit 16 (parent_tie + 1) + child_idx"
    by (intro disjunctive_add [symmetric]) blast
  then show ?thesis unfolding compose_child_tie_def c p by (simp add: push_bit_eq_mult)
qed

lemma child_tie_order:
  assumes "p < 0xFFFF" and "q < 0xFFFF" and "i < 2 ^ 16" and "j < 2 ^ 16"
  shows "compose_child_tie p i < compose_child_tie q j \<longleftrightarrow> p < q \<or> p = q \<and> i < j"
    and "compose_child_tie p i < 2 ^ 32" and "q \<le> p \<Longrightarrow> q < compose_child_tie p i"
  using assms by (auto simp: child_tie_value)

section \<open>Properties\<close>

text \<open>C26: A queue insertion keeps the queue sorted by scheduling order and declaration order, adds exactly
  the new entry, and puts it behind the queued entries of its key; rejoining a sorted batch, whether by
  the one-step splice or entry by entry, is the same as inserting its entries in order.\<close>

theorem ready_queue_laws:
  assumes "queue_ok q" and "queue_ok parked"
  shows "queue_ok (push_sorted q r) \<and> mset (push_sorted q r) = add_mset r (mset q)
    \<and> filter (\<lambda>x. rkey x = k) (push_sorted q r) = filter (\<lambda>x. rkey x = k) q @ (if rkey r = k then [r] else [])
    \<and> rejoin_sorted q parked = fold (\<lambda>r q. push_sorted q r) parked q
    \<and> queue_ok (rejoin_sorted q parked) \<and> mset (rejoin_sorted q parked) = mset parked + mset q"
  using assms by (simp add: queue_ok_push_sorted mset_push_sorted push_sorted_stable rejoin_is_fold fold_push_sorted)

theorem ready_queue_laws_witness:
  "queue_ok (push_sorted [\<lparr>rd_seq = 1, rd_tie = 2, rd_proc = 0, rd_block = 0\<rparr>] \<lparr>rd_seq = 0, rd_tie = 5, rd_proc = 1, rd_block = 0\<rparr>)"
  using ready_queue_laws [of "[\<lparr>rd_seq = 1, rd_tie = 2, rd_proc = 0, rd_block = 0\<rparr>]" "[]"] by (simp add: queue_ok_def)

text \<open>Within the limits the fork checks, children tie after every process up to their parent, siblings
  in declaration order, and children of different parents in the order of the parents: no two ties
  collide.\<close>

theorem child_ties_order_forks:
  assumes "p < 0xFFFF" and "q < 0xFFFF" and "i < 2 ^ 16" and "j < 2 ^ 16"
  shows "(compose_child_tie p i < compose_child_tie q j \<longleftrightarrow> p < q \<or> p = q \<and> i < j)
    \<and> (compose_child_tie p i = compose_child_tie q j \<longleftrightarrow> p = q \<and> i = j)
    \<and> p < compose_child_tie p i \<and> compose_child_tie p i < 2 ^ 32"
proof -
  have "compose_child_tie p i = compose_child_tie q j \<longleftrightarrow> p = q \<and> i = j"
    using child_tie_order(1) [OF assms] child_tie_order(1) [OF assms(2,1,4,3)] by (metis nat_neq_iff)
  then show ?thesis using child_tie_order [OF assms] child_tie_order(3) [OF assms(1,1,3,4)] by blast
qed

theorem child_ties_order_forks_witness: "compose_child_tie 3 1 < compose_child_tie 4 0 \<and> 3 < compose_child_tie 3 1"
  using child_ties_order_forks [of 3 4 1 0] by simp

end
