(* ===== verification/ForkJoin.thy ===== *)
theory ForkJoin
  imports ReadyQueue IrTypes
begin

text \<open>
  Fork and join, \<open>crates/sim-engine/src/sched/wait_fork.rs\<close>, \<open>exec_fork_into\<close> of
  \<open>sched/propagate.rs\<close> and \<open>k_disable_fork\<close> of \<open>sched/kernel.rs\<close>, on the activity and barrier
  arenas of \<open>sched/mod.rs\<close>.  A \<open>Vec\<close> used as a stack is a list with its top at the head (the two free
  lists); a call stack keeps the source's order, its top the last element.  \<open>None\<close> is an index panic
  or a failed \<open>debug_assert\<close>.  The deferred-report queues that \<open>disable fork\<close> also filters belong to
  another component and are left out.
\<close>

section \<open>State\<close>

type_synonym u8 = "8 word"

datatype join_mode = JoinAll | JoinAny | JoinNone

record wait_fork_park =
  wp_resume_bb :: nat
  wp_outstanding :: nat

datatype window_slot = Owned "sim_value list" | Shared nat

datatype dyn_obj =
    DO_DynArray "sim_value list"
  | DO_Queue "sim_value list"
  | DO_Assoc "(int \<times> sim_value) list"
  | DO_Str "u8 list"
  | DO_AssocStr "(u8 list \<times> sim_value) list"

record frame_rec =
  fr_callee :: nat
  fr_bb :: nat
  fr_ret_bb :: nat
  fr_out_binds :: "(nat \<times> lvalue) list"
  fr_window :: "window_slot option"
  fr_dyn_stash :: "(nat \<times> dyn_obj option) list"
  fr_dyn_parked :: "(nat \<times> dyn_obj option) list"
  fr_forked :: bool
  fr_is_arm :: bool

record activity =
  a_call_stack :: "frame_rec list"
  a_template :: nat
  a_tie :: nat
  a_join_ref :: "nat option"
  a_is_child :: bool
  a_reported :: bool
  a_dead :: bool
  a_wait_fork :: "wait_fork_park option"
  a_busy :: bool
  a_gen :: nat
  a_static_level_live :: bool
  a_static_gen :: nat

record join_barrier =
  b_parent :: nat
  b_join_bb :: nat
  b_resume_bb :: nat
  b_mode :: join_mode
  b_outstanding :: nat
  b_fired :: bool

record sched =
  s_activities :: "activity list"
  s_barriers :: "join_barrier list"
  s_free_activities :: "nat list"
  s_free_barriers :: "nat list"
  s_next_seq :: nat
  s_cur_aid :: nat
  s_cur_gen :: nat
  s_fork_modes :: "nat \<times> nat \<rightharpoonup> join_mode"
  s_func_has_auto :: "bool list"
  s_window_rc :: "nat list"
  s_had_fatal :: bool

definition upd_act :: "sched \<Rightarrow> nat \<Rightarrow> (activity \<Rightarrow> activity) \<Rightarrow> sched" where
  "upd_act s i f = s\<lparr>s_activities := (s_activities s)[i := f (s_activities s ! i)]\<rparr>"

definition upd_bar :: "sched \<Rightarrow> nat \<Rightarrow> (join_barrier \<Rightarrow> join_barrier) \<Rightarrow> sched" where
  "upd_bar s j f = s\<lparr>s_barriers := (s_barriers s)[j := f (s_barriers s ! j)]\<rparr>"

definition take_seq :: "sched \<Rightarrow> nat \<times> sched" where
  "take_seq s = (s_next_seq s, s\<lparr>s_next_seq := s_next_seq s + 1\<rparr>)"

definition set_cur_activity :: "sched \<Rightarrow> nat \<Rightarrow> sched option" where
  "set_cur_activity s aid =
     map_option (\<lambda>a. s\<lparr>s_cur_aid := aid, s_cur_gen := a_gen a\<rparr>) (arena_get (s_activities s) aid)"

text \<open>Queueing \<open>proc\<close> at \<open>block\<close> as its own resume event.\<close>

definition resume_event :: "sched \<Rightarrow> nat \<Rightarrow> nat \<Rightarrow> sched \<times> ready" where
  "resume_event s aid block =
     (let (seq, s') = take_seq s
      in (s', \<lparr>rd_seq = seq, rd_tie = a_tie (s_activities s ! aid), rd_proc = aid, rd_block = block\<rparr>))"

section \<open>wait fork\<close>

definition counts_for :: "sched \<Rightarrow> nat \<Rightarrow> activity \<Rightarrow> bool" where
  "counts_for s p c \<longleftrightarrow>
     a_is_child c \<and> \<not> a_dead c \<and> \<not> a_reported c \<and>
     (case a_join_ref c of Some jr \<Rightarrow> b_parent (s_barriers s ! jr) = p | None \<Rightarrow> False)"

definition refs_in_range :: "sched \<Rightarrow> bool" where
  "refs_in_range s \<longleftrightarrow>
     list_all (\<lambda>c. a_is_child c \<and> \<not> a_dead c \<and> \<not> a_reported c \<longrightarrow>
                 (case a_join_ref c of Some jr \<Rightarrow> jr < length (s_barriers s) | None \<Rightarrow> True))
       (s_activities s)"

definition exec_wait_fork :: "sched \<Rightarrow> nat \<Rightarrow> nat \<Rightarrow> (sched \<times> bool) option" where
  "exec_wait_fork s p resume_bb =
     (if \<not> refs_in_range s then None
      else (let outstanding = length (filter (counts_for s p) (s_activities s))
            in if outstanding = 0 then Some (s, True)
               else if p < length (s_activities s)
               then Some (upd_act s p (\<lambda>a. a\<lparr>a_wait_fork := Some \<lparr>wp_resume_bb = resume_bb, wp_outstanding = outstanding\<rparr>\<rparr>), False)
               else None))"

section \<open>A child reaches its join\<close>

definition set_top_bb :: "nat \<Rightarrow> frame_rec list \<Rightarrow> frame_rec list" where
  "set_top_bb bb st = (if st = [] then [] else butlast st @ [(last st)\<lparr>fr_bb := bb\<rparr>])"

definition report_child :: "sched \<Rightarrow> nat \<Rightarrow> sched option" where
  "report_child s c =
     (if c < length (s_activities s) \<and> \<not> a_reported (s_activities s ! c)
      then Some ((upd_act s c (\<lambda>a. a\<lparr>a_reported := True\<rparr>))\<lparr>s_free_activities := c # s_free_activities s\<rparr>)
      else None)"

definition join_fires :: "join_barrier \<Rightarrow> bool" where
  "join_fires b =
     (case b_mode b of JoinAll \<Rightarrow> b_outstanding b = 0 | JoinAny \<Rightarrow> True | JoinNone \<Rightarrow> False)"

text \<open>The decrement and the recycling of a drained barrier; then, once, the parent's resumption.\<close>

definition drain :: "sched \<Rightarrow> nat \<Rightarrow> sched" where
  "drain s j =
     (let s = upd_bar s j (\<lambda>b. b\<lparr>b_outstanding := b_outstanding b - 1\<rparr>)
      in if b_outstanding (s_barriers s ! j) = 0 then s\<lparr>s_free_barriers := j # s_free_barriers s\<rparr> else s)"

definition release_join :: "sched \<Rightarrow> nat \<Rightarrow> (sched \<times> ready list) option" where
  "release_join s j =
     (if j < length (s_barriers s) \<and> 0 < b_outstanding (s_barriers s ! j) then
        (let s = drain s j;
             b = s_barriers s ! j
         in if join_fires b \<and> \<not> b_fired b then
              (if b_parent b < length (s_activities s) then
                 (let s = upd_bar s j (\<lambda>b. b\<lparr>b_fired := True\<rparr>);
                      s = upd_act s (b_parent b) (\<lambda>a. a\<lparr>a_call_stack := set_top_bb (b_resume_bb b) (a_call_stack a)\<rparr>);
                      (s, r) = resume_event s (b_parent b) (b_resume_bb b)
                  in Some (s, [r]))
               else None)
            else Some (s, []))
      else None)"

definition release_wait_fork :: "sched \<Rightarrow> nat \<Rightarrow> (sched \<times> ready list) option" where
  "release_wait_fork s p =
     (if p < length (s_activities s) then
        (case a_wait_fork (s_activities s ! p) of
           None \<Rightarrow> Some (s, [])
         | Some pk \<Rightarrow>
             (let n = wp_outstanding pk - 1
              in if n = 0
                 then (let s = upd_act s p (\<lambda>a. a\<lparr>a_wait_fork := None\<rparr>);
                           (s, r) = resume_event s p (wp_resume_bb pk)
                       in Some (s, [r]))
                 else Some (upd_act s p (\<lambda>a. a\<lparr>a_wait_fork := Some (pk\<lparr>wp_outstanding := n\<rparr>)\<rparr>), [])))
      else None)"

definition on_child_complete_into :: "sched \<Rightarrow> nat \<Rightarrow> nat \<Rightarrow> (sched \<times> ready list) option" where
  "on_child_complete_into s join_ref child =
     Option.bind (report_child s child)
       (\<lambda>s. if join_ref < length (s_barriers s) then
              (let parent = b_parent (s_barriers s ! join_ref)
               in Option.bind (release_join s join_ref)
                    (\<lambda>(s, r1). map_option (\<lambda>(s, r2). (s, r1 @ r2)) (release_wait_fork s parent)))
            else None)"

section \<open>Fork\<close>

definition frame_fork_key :: nat where
  "frame_fork_key = 2 ^ 32 - 1"

text \<open>The frame an arm of an in-frame fork runs in; a shared parent window is retained.\<close>

definition arm_frame :: "sched \<Rightarrow> nat \<Rightarrow> nat option \<Rightarrow> nat \<Rightarrow> nat \<Rightarrow> (sched \<times> frame_rec) option" where
  "arm_frame s callee shared child_entry join =
     (if callee < length (s_func_has_auto s) then
        (let mk = (\<lambda>w. \<lparr>fr_callee = callee, fr_bb = child_entry, fr_ret_bb = join, fr_out_binds = [],
                     fr_window = w, fr_dyn_stash = [], fr_dyn_parked = [], fr_forked = False, fr_is_arm = True\<rparr>)
         in if \<not> s_func_has_auto s ! callee then Some (s, mk None)
            else (case shared of
                    Some h \<Rightarrow>
                      (if h < length (s_window_rc s) \<and> 0 < s_window_rc s ! h
                       then Some (s\<lparr>s_window_rc := (s_window_rc s)[h := s_window_rc s ! h + 1]\<rparr>, mk (Some (Shared h)))
                       else None)
                  | None \<Rightarrow> Some (s, mk (Some (Owned [])))))
      else None)"

definition new_child :: "frame_rec list \<Rightarrow> nat \<Rightarrow> nat \<Rightarrow> nat \<Rightarrow> activity" where
  "new_child stack tmpl tie join_ref =
     \<lparr>a_call_stack = stack, a_template = tmpl, a_tie = tie, a_join_ref = Some join_ref, a_is_child = True,
      a_reported = False, a_dead = False, a_wait_fork = None, a_busy = False, a_gen = 0,
      a_static_level_live = False, a_static_gen = 0\<rparr>"

text \<open>A child takes a recycled slot, its generation bumped, or a new one.\<close>

definition place_child :: "sched \<Rightarrow> activity \<Rightarrow> (sched \<times> nat) option" where
  "place_child s child =
     (case s_free_activities s of
        i # rest \<Rightarrow>
          (if i < length (s_activities s)
           then Some ((upd_act s i (\<lambda>old. child\<lparr>a_gen := (a_gen old + 1) mod 2 ^ 32\<rparr>))\<lparr>s_free_activities := rest\<rparr>, i)
           else None)
      | [] \<Rightarrow> Some (s\<lparr>s_activities := s_activities s @ [child]\<rparr>, length (s_activities s)))"

definition place_barrier :: "sched \<Rightarrow> join_barrier \<Rightarrow> (sched \<times> nat) option" where
  "place_barrier s b =
     (case s_free_barriers s of
        j # rest \<Rightarrow>
          (if j < length (s_barriers s)
           then Some (s\<lparr>s_barriers := (s_barriers s)[j := b], s_free_barriers := rest\<rparr>, j)
           else None)
      | [] \<Rightarrow> Some (s\<lparr>s_barriers := s_barriers s @ [b]\<rparr>, length (s_barriers s)))"

text \<open>What every arm of one fork shares: template, parent tie, join block, barrier, and for an in-frame
  fork the callee with its shared window.\<close>

record fork_env =
  e_tmpl :: nat
  e_tie :: nat
  e_join :: nat
  e_ref :: nat
  e_frame :: "(nat \<times> nat option) option"

definition child_stack :: "fork_env \<Rightarrow> sched \<Rightarrow> nat \<Rightarrow> (sched \<times> frame_rec list) option" where
  "child_stack env s entry =
     (case e_frame env of
        None \<Rightarrow> Some (s, [])
      | Some (callee, shared) \<Rightarrow> map_option (\<lambda>(s, f). (s, [f])) (arm_frame s callee shared entry (e_join env)))"

definition spawn_child :: "fork_env \<Rightarrow> sched \<Rightarrow> nat \<Rightarrow> nat \<Rightarrow> (sched \<times> ready) option" where
  "spawn_child env s idx entry =
     Option.bind (child_stack env s entry)
       (\<lambda>(s, stack).
          Option.bind (place_child s (new_child stack (e_tmpl env) (compose_child_tie (e_tie env) idx) (e_ref env)))
            (\<lambda>(s, aid). Some (resume_event s aid entry)))"

fun spawn_children :: "fork_env \<Rightarrow> sched \<Rightarrow> nat \<Rightarrow> nat list \<Rightarrow> (sched \<times> ready list) option" where
  "spawn_children env s idx [] = Some (s, [])"
| "spawn_children env s idx (entry # rest) =
     Option.bind (spawn_child env s idx entry)
       (\<lambda>(s, r). map_option (\<lambda>(s, rs). (s, r # rs)) (spawn_children env s (idx + 1) rest))"

text \<open>The environment of a fork by \<open>pa\<close> into barrier \<open>j\<close>; inside an automatic task the arms share the
  parent's window when it is already a shared one.\<close>

definition fork_arm_env :: "sched \<Rightarrow> activity \<Rightarrow> nat \<Rightarrow> nat \<Rightarrow> fork_env option" where
  "fork_arm_env s pa join j =
     (let mk = (\<lambda>f. \<lparr>e_tmpl = a_template pa, e_tie = a_tie pa, e_join = join, e_ref = j, e_frame = f\<rparr>)
      in if a_call_stack pa = [] then Some (mk None)
         else (let top = last (a_call_stack pa)
               in map_option
                    (\<lambda>auto. mk (Some (fr_callee top,
                       if auto then (case fr_window top of Some (Shared h) \<Rightarrow> Some h | _ \<Rightarrow> None) else None)))
                    (arena_get (s_func_has_auto s) (fr_callee top))))"

definition fork_key :: "activity \<Rightarrow> nat" where
  "fork_key pa = (if a_call_stack pa \<noteq> [] then frame_fork_key else a_template pa)"

definition exec_fork_into ::
  "sched \<Rightarrow> nat \<Rightarrow> nat list \<Rightarrow> nat \<Rightarrow> nat \<Rightarrow> (sched \<times> nat option \<times> ready list) option" where
  "exec_fork_into s p children join resume_bb =
     Option.bind (arena_get (s_activities s) p)
       (\<lambda>pa.
          case s_fork_modes s (fork_key pa, join) of
            None \<Rightarrow> Some (s\<lparr>s_had_fatal := True\<rparr>, None, [])
          | Some mode \<Rightarrow>
              Option.bind
                (place_barrier s \<lparr>b_parent = p, b_join_bb = join, b_resume_bb = resume_bb, b_mode = mode,
                   b_outstanding = length children, b_fired = False\<rparr>)
                (\<lambda>(s, j).
                   if 0xFFFF \<le> a_tie pa \<or> 0x10000 < length children
                   then Some (s\<lparr>s_had_fatal := True\<rparr>, None, [])
                   else Option.bind (fork_arm_env s pa join j)
                          (\<lambda>env. map_option
                             (\<lambda>(s, rs).
                                if mode = JoinNone \<or> children = []
                                then (upd_bar s j (\<lambda>b. b\<lparr>b_fired := True\<rparr>), Some resume_bb, rs)
                                else (s, None, rs))
                             (spawn_children env s 0 children))))"

section \<open>disable fork\<close>

text \<open>One pass of the kill walk over the arena, in index order; the flag is \<open>grew\<close>.\<close>

fun kill_pass :: "sched \<Rightarrow> nat list \<Rightarrow> nat list \<times> bool \<Rightarrow> nat list \<times> bool" where
  "kill_pass s [] acc = acc"
| "kill_pass s (aid # rest) acc =
     (let a = s_activities s ! aid
      in kill_pass s rest
           (if a_dead a \<or> a_reported a \<or> aid \<in> set (fst acc) then acc
            else case a_join_ref a of
                   None \<Rightarrow> acc
                 | Some jr \<Rightarrow>
                     if b_parent (s_barriers s ! jr) \<in> set (fst acc) then (aid # fst acc, True) else acc))"

definition left_out :: "sched \<Rightarrow> nat list \<Rightarrow> nat" where
  "left_out s kill = card ({0..<length (s_activities s)} - set kill)"

definition kill_joins :: "sched \<Rightarrow> nat set \<Rightarrow> nat \<Rightarrow> bool" where
  "kill_joins s K i \<longleftrightarrow>
     \<not> a_dead (s_activities s ! i) \<and> \<not> a_reported (s_activities s ! i) \<and> i \<notin> K \<and>
     (\<exists>jr. a_join_ref (s_activities s ! i) = Some jr \<and> b_parent (s_barriers s ! jr) \<in> K)"

lemma kill_pass_Cons:
  "kill_pass s (i # rest) acc =
     kill_pass s rest (if kill_joins s (set (fst acc)) i then (i # fst acc, True) else acc)"
  by (auto simp: Let_def kill_joins_def split: option.split)

declare kill_pass.simps(2) [simp del] kill_pass_Cons [simp]

lemma kill_pass_grows: "set (fst acc) \<subseteq> set (fst (kill_pass s is acc))"
proof (induction "is" arbitrary: acc)
  case (Cons i rest)
  show ?case
    using Cons [of acc] Cons [of "(i # fst acc, True)"] by auto
qed simp

lemma kill_pass_flag:
  "snd (kill_pass s is acc) \<Longrightarrow>
   snd acc \<or> (\<exists>i \<in> set is. i \<in> set (fst (kill_pass s is acc)) \<and> i \<notin> set (fst acc))"
proof (induction "is" arbitrary: acc)
  case (Cons i rest)
  show ?case
  proof (cases "kill_joins s (set (fst acc)) i")
    case True
    then show ?thesis
      using kill_pass_grows [of "(i # fst acc, True)" s rest] by (auto simp: kill_joins_def)
  next
    case False
    then show ?thesis
      using Cons.IH [of acc] Cons.prems by auto
  qed
qed simp

function kill_loop :: "sched \<Rightarrow> nat list \<Rightarrow> nat list" where
  "kill_loop s kill =
     (let (kill', grew) = kill_pass s [0..<length (s_activities s)] (kill, False)
      in if grew then kill_loop s kill' else kill')"
  by pat_completeness auto
termination
proof (relation "measure (\<lambda>(s, kill). left_out s kill)", simp)
  fix s kill x kill' grew
  assume x: "x = kill_pass s [0..<length (s_activities s)] (kill, False)" and p: "(kill', grew) = x" and grew
  then have g: "snd (kill_pass s [0..<length (s_activities s)] (kill, False))"
    and k: "kill' = fst (kill_pass s [0..<length (s_activities s)] (kill, False))"
    by (metis snd_conv, metis fst_conv)
  have "set kill \<subseteq> set kill'"
    using kill_pass_grows [of "(kill, False)"] k by simp
  moreover obtain i where "i < length (s_activities s)" "i \<in> set kill'" "i \<notin> set kill"
    using kill_pass_flag [OF g] k by auto
  ultimately have "{0..<length (s_activities s)} - set kill' \<subset> {0..<length (s_activities s)} - set kill"
    by fastforce
  then show "((s, kill'), (s, kill)) \<in> measure (\<lambda>(s, kill). left_out s kill)"
    by (simp add: left_out_def psubset_card_mono)
qed

declare kill_loop.simps [simp del]

definition mark_dead :: "nat list \<Rightarrow> sched \<Rightarrow> sched" where
  "mark_dead kill s = fold (\<lambda>i s. upd_act s i (\<lambda>a. a\<lparr>a_dead := True\<rparr>)) kill s"

definition k_disable_fork :: "sched \<Rightarrow> sched option" where
  "k_disable_fork s =
     (if list_all (\<lambda>i. i = s_cur_aid s \<or> a_dead (s_activities s ! i) \<or> a_reported (s_activities s ! i) \<or>
                 (case a_join_ref (s_activities s ! i) of Some jr \<Rightarrow> jr < length (s_barriers s) | None \<Rightarrow> True))
           [0..<length (s_activities s)]
      then Some (mark_dead (removeAll (s_cur_aid s) (kill_loop s [s_cur_aid s])) s)
      else None)"

end
