(* ===== verification/ForkSteps.thy ===== *)
theory ForkSteps
  imports ForkJoin
begin

text \<open>
  The fork events of a run as a step relation over the scheduler state of \<open>ForkJoin\<close>: a top-level
  process forks, waits for its children or disables them, a live child completes.  The invariant of the
  activity and barrier arenas is preserved by every step, so recycled slots never confuse two forks,
  and a process parked on \<open>wait fork\<close> is woken exactly once, by the last of its children.
\<close>

section \<open>Counting over an updated list\<close>

lemma count_update:
  assumes "i < length xs"
  shows "length (filter P (xs[i := x])) + (if P (xs ! i) then 1 else 0) =
         length (filter P xs) + (if P x then 1 else 0)"
proof -
  have a: "length (filter P (xs[i := x])) =
           length (filter P (take i xs)) + (if P x then 1 else 0) + length (filter P (drop (Suc i) xs))"
    using assms by (simp add: upd_conv_take_nth_drop)
  have b: "filter P xs = filter P (take i xs @ xs ! i # drop (Suc i) xs)"
    using assms by (simp add: id_take_nth_drop [symmetric])
  show ?thesis
    unfolding a b by simp
qed

lemma count_update_same:
  "i < length xs \<Longrightarrow> P x = P (xs ! i) \<Longrightarrow> length (filter P (xs[i := x])) = length (filter P xs)"
  using count_update [of i xs P x] by (simp split: if_splits)

lemma count_cong:
  "(\<And>a. a \<in> set xs \<Longrightarrow> P a = Q a) \<Longrightarrow> length (filter P xs) = length (filter Q xs)"
  by (simp cong: filter_cong)

lemma count_pos: "i < length xs \<Longrightarrow> P (xs ! i) \<Longrightarrow> 0 < length (filter P xs)"
  by (auto simp: filter_empty_conv)

section \<open>The invariant\<close>

definition pending_on :: "nat \<Rightarrow> activity \<Rightarrow> bool" where
  "pending_on j a \<longleftrightarrow> a_is_child a \<and> \<not> a_reported a \<and> a_join_ref a = Some j"

definition live_barrier :: "sched \<Rightarrow> nat \<Rightarrow> bool" where
  "live_barrier s j \<longleftrightarrow> j < length (s_barriers s) \<and> j \<notin> set (s_free_barriers s)"

text \<open>A recycled slot is in its list once, and holds a child that has reported.\<close>

definition slots_ok :: "sched \<Rightarrow> bool" where
  "slots_ok s \<longleftrightarrow>
     distinct (s_free_activities s) \<and> distinct (s_free_barriers s) \<and>
     (\<forall>j \<in> set (s_free_barriers s). j < length (s_barriers s)) \<and>
     (\<forall>i \<in> set (s_free_activities s). i < length (s_activities s) \<and>
        a_is_child (s_activities s ! i) \<and> a_reported (s_activities s ! i))"

text \<open>A child that has not reported names a barrier that has not been recycled, and a barrier's parent
  is a top-level process.\<close>

definition refs_ok :: "sched \<Rightarrow> bool" where
  "refs_ok s \<longleftrightarrow>
     (\<forall>a \<in> set (s_activities s).
        (a_is_child a \<and> \<not> a_reported a \<longrightarrow> (\<exists>j. a_join_ref a = Some j \<and> live_barrier s j)) \<and>
        (\<not> a_is_child a \<longrightarrow> a_join_ref a = None)) \<and>
     (\<forall>j. live_barrier s j \<longrightarrow>
        b_parent (s_barriers s ! j) < length (s_activities s) \<and>
        \<not> a_is_child (s_activities s ! b_parent (s_barriers s ! j)))"

text \<open>A barrier counts its children that have not reported, and those still to be spawned.\<close>

definition counts_ok :: "(nat \<Rightarrow> nat) \<Rightarrow> sched \<Rightarrow> bool" where
  "counts_ok owed s \<longleftrightarrow>
     (\<forall>j. live_barrier s j \<longrightarrow>
        b_outstanding (s_barriers s ! j) = length (filter (pending_on j) (s_activities s)) + owed j)"

text \<open>A process runs when no \<open>wait fork\<close> and no barrier holds it.\<close>

definition unjoined :: "sched \<Rightarrow> nat \<Rightarrow> bool" where
  "unjoined s p \<longleftrightarrow> (\<exists>j. live_barrier s j \<and> b_parent (s_barriers s ! j) = p \<and> \<not> b_fired (s_barriers s ! j))"

text \<open>A parked process counts its live children, and those that have just reported.\<close>

definition parks_ok :: "(nat \<Rightarrow> nat) \<Rightarrow> sched \<Rightarrow> bool" where
  "parks_ok late s \<longleftrightarrow>
     (\<forall>p pk. p < length (s_activities s) \<longrightarrow> a_wait_fork (s_activities s ! p) = Some pk \<longrightarrow>
        wp_outstanding pk = length (filter (counts_for s p) (s_activities s)) + late p \<and> 0 < wp_outstanding pk \<and>
        \<not> unjoined s p)"

definition fork_inv :: "(nat \<Rightarrow> nat) \<Rightarrow> (nat \<Rightarrow> nat) \<Rightarrow> sched \<Rightarrow> bool" where
  "fork_inv owed late s \<longleftrightarrow> slots_ok s \<and> refs_ok s \<and> counts_ok owed s \<and> parks_ok late s"

definition none_owed :: "nat \<Rightarrow> nat" where
  "none_owed _ = 0"

definition one_owed :: "nat \<Rightarrow> nat \<Rightarrow> nat" where
  "one_owed j x = (if x = j then 1 else 0)"

definition may_run :: "sched \<Rightarrow> nat \<Rightarrow> bool" where
  "may_run s p \<longleftrightarrow>
     p < length (s_activities s) \<and> \<not> a_is_child (s_activities s ! p) \<and>
     a_wait_fork (s_activities s ! p) = None \<and> \<not> unjoined s p"

section \<open>The steps of a run\<close>

text \<open>At the start the activities are the top-level processes.\<close>

definition fork_start :: "sched \<Rightarrow> bool" where
  "fork_start s \<longleftrightarrow>
     (\<forall>a \<in> set (s_activities s). \<not> a_is_child a \<and> a_join_ref a = None \<and> a_wait_fork a = None) \<and>
     s_barriers s = [] \<and> s_free_activities s = [] \<and> s_free_barriers s = []"

inductive fork_step :: "sched \<Rightarrow> sched \<Rightarrow> bool" where
  step_fork: "\<not> s_had_fatal s \<Longrightarrow> may_run s p \<Longrightarrow> exec_fork_into s p children join resume = Some (s', r, rs) \<Longrightarrow>
     fork_step s s'"
| step_complete: "\<not> s_had_fatal s \<Longrightarrow> c < length (s_activities s) \<Longrightarrow> a_is_child (s_activities s ! c) \<Longrightarrow>
     \<not> a_reported (s_activities s ! c) \<Longrightarrow> \<not> a_dead (s_activities s ! c) \<Longrightarrow>
     a_join_ref (s_activities s ! c) = Some j \<Longrightarrow> on_child_complete_into s j c = Some (s', rs) \<Longrightarrow>
     fork_step s s'"
| step_wait: "\<not> s_had_fatal s \<Longrightarrow> may_run s p \<Longrightarrow> exec_wait_fork s p resume = Some (s', b) \<Longrightarrow> fork_step s s'"
| step_disable: "\<not> s_had_fatal s \<Longrightarrow> set_cur_activity s p = Some s1 \<Longrightarrow>
     a_is_child (s_activities s ! p) \<or> may_run s p \<Longrightarrow> k_disable_fork s1 = Some s' \<Longrightarrow> fork_step s s'"

inductive fork_reachable :: "sched \<Rightarrow> bool" where
  reach_start: "fork_start s \<Longrightarrow> fork_reachable s"
| reach_step: "fork_reachable s \<Longrightarrow> fork_step s s' \<Longrightarrow> fork_reachable s'"

inductive_cases fork_stepE: "fork_step s s'"

lemma parks_okI:
  "(\<And>p pk. p < length (s_activities s) \<Longrightarrow> a_wait_fork (s_activities s ! p) = Some pk \<Longrightarrow>
     wp_outstanding pk = length (filter (counts_for s p) (s_activities s)) + late p \<and> 0 < wp_outstanding pk \<and>
     \<not> unjoined s p) \<Longrightarrow> parks_ok late s"
  unfolding parks_ok_def by blast

lemma parks_okD:
  "parks_ok late s \<Longrightarrow> p < length (s_activities s) \<Longrightarrow> a_wait_fork (s_activities s ! p) = Some pk \<Longrightarrow>
   wp_outstanding pk = length (filter (counts_for s p) (s_activities s)) + late p \<and> 0 < wp_outstanding pk \<and>
   \<not> unjoined s p"
  unfolding parks_ok_def by blast

lemma parks_transfer:
  assumes parks: "parks_ok late s"
    and step: "\<And>p pk. p < length (s_activities s') \<Longrightarrow> a_wait_fork (s_activities s' ! p) = Some pk \<Longrightarrow>
      p < length (s_activities s) \<and> a_wait_fork (s_activities s ! p) = Some pk \<and>
      length (filter (counts_for s' p) (s_activities s')) + late' p =
      length (filter (counts_for s p) (s_activities s)) + late p \<and>
      (unjoined s' p \<longrightarrow> unjoined s p)"
  shows "parks_ok late' s'"
proof (rule parks_okI)
  fix p pk
  assume "p < length (s_activities s')" "a_wait_fork (s_activities s' ! p) = Some pk"
  note st = step [OF this]
  then show "wp_outstanding pk = length (filter (counts_for s' p) (s_activities s')) + late' p \<and>
      0 < wp_outstanding pk \<and> \<not> unjoined s' p"
    using parks_okD [OF parks, of p pk] by auto
qed

section \<open>What the invariant depends on\<close>

definition act_view :: "activity \<Rightarrow> bool \<times> bool \<times> bool \<times> nat option \<times> wait_fork_park option" where
  "act_view a = (a_is_child a, a_reported a, a_dead a, a_join_ref a, a_wait_fork a)"

definition same_arenas :: "sched \<Rightarrow> sched \<Rightarrow> bool" where
  "same_arenas s s' \<longleftrightarrow>
     map act_view (s_activities s') = map act_view (s_activities s) \<and> s_barriers s' = s_barriers s \<and>
     s_free_activities s' = s_free_activities s \<and> s_free_barriers s' = s_free_barriers s"

lemma same_arenas_nth:
  assumes "same_arenas s s'"
  shows "length (s_activities s') = length (s_activities s)"
    and "i < length (s_activities s) \<Longrightarrow> act_view (s_activities s' ! i) = act_view (s_activities s ! i)"
proof -
  have m: "map act_view (s_activities s') = map act_view (s_activities s)"
    using assms by (simp add: same_arenas_def)
  show l: "length (s_activities s') = length (s_activities s)"
    using map_eq_imp_length_eq [OF m] .
  show "act_view (s_activities s' ! i) = act_view (s_activities s ! i)" if "i < length (s_activities s)"
    using arg_cong [OF m, of "\<lambda>xs. xs ! i"] that l by simp
qed

lemma count_view:
  assumes "map act_view xs = map act_view ys" and "\<And>a b. act_view a = act_view b \<Longrightarrow> P a = P b"
  shows "length (filter P xs) = length (filter P ys)"
  using assms(1)
proof (induction xs arbitrary: ys)
  case (Cons x xs)
  then obtain y ys' where "ys = y # ys'" "act_view x = act_view y" "map act_view xs = map act_view ys'"
    by (cases ys) auto
  then show ?case
    using Cons.IH [of ys'] assms(2) [of x y] by simp
qed simp

lemma same_arenas_inv:
  assumes same: "same_arenas s s'" and inv: "fork_inv owed late s"
  shows "fork_inv owed late s'"
proof -
  note v = same_arenas_nth [OF same]
  have bar: "s_barriers s' = s_barriers s" "s_free_activities s' = s_free_activities s"
    "s_free_barriers s' = s_free_barriers s" "live_barrier s' = live_barrier s" "unjoined s' = unjoined s"
    using same by (auto simp: same_arenas_def live_barrier_def unjoined_def fun_eq_iff)
  have m: "map act_view (s_activities s') = map act_view (s_activities s)"
    using same by (simp add: same_arenas_def)
  have c1: "length (filter (pending_on j) (s_activities s')) = length (filter (pending_on j) (s_activities s))" for j
    by (rule count_view [OF m]) (simp add: act_view_def pending_on_def)
  have c2: "length (filter (counts_for s' p) (s_activities s')) = length (filter (counts_for s p) (s_activities s))" for p
  proof -
    have "counts_for s' p = counts_for s p"
      by (simp add: counts_for_def bar fun_eq_iff cong: option.case_cong)
    then show ?thesis
      by (simp only:) (rule count_view [OF m], simp add: act_view_def counts_for_def)
  qed
  have p: "a_is_child (s_activities s' ! i) = a_is_child (s_activities s ! i)"
    "a_reported (s_activities s' ! i) = a_reported (s_activities s ! i)"
    "a_join_ref (s_activities s' ! i) = a_join_ref (s_activities s ! i)"
    "a_wait_fork (s_activities s' ! i) = a_wait_fork (s_activities s ! i)" if "i < length (s_activities s)" for i
    using v(2) [OF that] by (simp_all add: act_view_def)
  have "slots_ok s'"
    using inv by (simp add: fork_inv_def slots_ok_def bar v(1) p)
  moreover have "refs_ok s'"
    using inv by (simp add: fork_inv_def refs_ok_def bar v(1) p all_set_conv_all_nth)
  moreover have "counts_ok owed s'"
    using inv by (simp add: fork_inv_def counts_ok_def bar c1)
  moreover have "parks_ok late s'"
    using inv unfolding fork_inv_def parks_ok_def bar v(1) c2 by (metis p(4))
  ultimately show ?thesis
    by (simp add: fork_inv_def)
qed

lemma same_arenas_refl: "same_arenas s s"
  by (simp add: same_arenas_def)

lemma same_arenas_upd:
  "i < length (s_activities s) \<Longrightarrow> act_view (f (s_activities s ! i)) = act_view (s_activities s ! i) \<Longrightarrow>
   same_arenas s (upd_act s i f)"
  by (simp add: same_arenas_def upd_act_def map_update list_update_same_conv)

lemma same_arenas_seq: "same_arenas s s' \<Longrightarrow> same_arenas s (fst (resume_event s' p b))"
  by (simp add: same_arenas_def resume_event_def take_seq_def)

section \<open>A child completes\<close>

lemma counts_pending:
  "counts_for s p a \<longleftrightarrow>
     \<not> a_dead a \<and> (\<exists>j. pending_on j a \<and> b_parent (s_barriers s ! j) = p)"
  by (auto simp: counts_for_def pending_on_def split: option.split)

lemma report_child_inv:
  assumes inv: "fork_inv none_owed none_owed s"
    and c: "c < length (s_activities s)" "pending_on j (s_activities s ! c)" "\<not> a_dead (s_activities s ! c)"
    and rep: "report_child s c = Some s'"
  shows "fork_inv (one_owed j) (one_owed (b_parent (s_barriers s ! j))) s'"
    and "live_barrier s' j" and "s_barriers s' = s_barriers s"
    and "length (s_activities s') = length (s_activities s)"
proof -
  let ?x = "(s_activities s ! c)\<lparr>a_reported := True\<rparr>" and ?p = "b_parent (s_barriers s ! j)"
  have s': "s_activities s' = (s_activities s)[c := ?x]" "s_barriers s' = s_barriers s"
    "s_free_activities s' = c # s_free_activities s" "s_free_barriers s' = s_free_barriers s"
    "live_barrier s' = live_barrier s" "unjoined s' = unjoined s"
    using rep by (auto simp: report_child_def upd_act_def live_barrier_def unjoined_def fun_eq_iff split: if_splits)
  show "s_barriers s' = s_barriers s" "length (s_activities s') = length (s_activities s)"
    by (simp_all add: s')
  have child: "a_is_child (s_activities s ! c)" "\<not> a_reported (s_activities s ! c)" "a_join_ref (s_activities s ! c) = Some j"
    using c(2) by (auto simp: pending_on_def)
  have refs: "refs_ok s" and slots: "slots_ok s" and cnt: "counts_ok none_owed s" and parks: "parks_ok none_owed s"
    using inv by (simp_all add: fork_inv_def)
  show live: "live_barrier s' j"
    using refs c(1) child unfolding s' refs_ok_def by (metis nth_mem option.inject)
  have pj: "length (filter (pending_on i) (s_activities s')) + one_owed j i = length (filter (pending_on i) (s_activities s))" for i
    using count_update [OF c(1), of "pending_on i" ?x] c(2)
    by (auto simp: s' pending_on_def one_owed_def split: if_splits)
  have cp: "length (filter (counts_for s' q) (s_activities s')) + one_owed ?p q = length (filter (counts_for s q) (s_activities s))" for q
  proof -
    have e: "counts_for s' q = counts_for s q"
      by (simp add: fun_eq_iff counts_pending s')
    show ?thesis
      using count_update [OF c(1), of "counts_for s q" ?x] c(2,3)
      unfolding e by (auto simp: s' counts_pending pending_on_def one_owed_def split: if_splits)
  qed
  have "slots_ok s'"
    using slots c(1) child by (auto simp: slots_ok_def s' nth_list_update)
  moreover have "refs_ok s'"
  proof -
    have "a_is_child ((s_activities s)[c := ?x] ! i) = a_is_child (s_activities s ! i)" for i
      by (cases "i = c") (auto simp: nth_list_update child c(1))
    then show ?thesis
      using refs child unfolding refs_ok_def s'
      by (auto dest!: set_update_subset_insert [THEN subsetD])
  qed
  moreover have "counts_ok (one_owed j) s'"
    using cnt pj by (simp add: counts_ok_def s' none_owed_def)
  moreover have "parks_ok (one_owed ?p) s'"
  proof -
    have "a_wait_fork ((s_activities s)[c := ?x] ! i) = a_wait_fork (s_activities s ! i)" for i
      by (cases "i = c") (auto simp: nth_list_update c(1))
    then show ?thesis
      using cp by (intro parks_transfer [OF parks]) (simp add: s' none_owed_def)
  qed
  ultimately show "fork_inv (one_owed j) (one_owed ?p) s'"
    by (simp add: fork_inv_def)
qed

lemma bar_update_nth:
  "s_barriers (upd_bar s j f) ! i =
     (if i = j \<and> j < length (s_barriers s) then f (s_barriers s ! j) else s_barriers s ! i)"
  by (cases "j < length (s_barriers s)") (simp_all add: upd_bar_def nth_list_update list_update_beyond)

lemma bar_update_simps:
  "length (s_barriers (upd_bar s j f)) = length (s_barriers s)"
  "s_activities (upd_bar s j f) = s_activities s"
  "s_free_activities (upd_bar s j f) = s_free_activities s"
  "s_free_barriers (upd_bar s j f) = s_free_barriers s"
  "live_barrier (upd_bar s j f) = live_barrier s"
  by (simp_all add: upd_bar_def live_barrier_def fun_eq_iff)

lemma counts_for_cong:
  "(\<And>j. b_parent (s_barriers s' ! j) = b_parent (s_barriers s ! j)) \<Longrightarrow> counts_for s' p = counts_for s p"
  by (simp add: fun_eq_iff counts_pending)

lemma fired_inv:
  assumes inv: "fork_inv owed late s"
  shows "fork_inv owed late (upd_bar s j (\<lambda>b. b\<lparr>b_fired := True\<rparr>))" (is "fork_inv owed late ?t")
proof -
  have par: "b_parent (s_barriers ?t ! i) = b_parent (s_barriers s ! i)" for i
    by (simp add: bar_update_nth)
  have out: "b_outstanding (s_barriers ?t ! i) = b_outstanding (s_barriers s ! i)" for i
    by (simp add: bar_update_nth)
  have un: "unjoined ?t p \<Longrightarrow> unjoined s p" for p
    by (auto simp: unjoined_def bar_update_simps par) (auto simp: bar_update_nth split: if_splits)
  have cf: "counts_for ?t p = counts_for s p" for p
    by (rule counts_for_cong [OF par])
  have "slots_ok ?t" "refs_ok ?t" "counts_ok owed ?t"
    using inv by (simp_all add: fork_inv_def slots_ok_def refs_ok_def counts_ok_def bar_update_simps par out)
  moreover have "parks_ok late ?t"
  proof (rule parks_transfer)
    show "parks_ok late s"
      using inv by (simp add: fork_inv_def)
  qed (use un in \<open>auto simp: bar_update_simps cf\<close>)
  ultimately show ?thesis
    by (simp add: fork_inv_def)
qed

lemma drain_inv:
  assumes inv: "fork_inv (one_owed j) late s" and live: "live_barrier s j"
  shows "fork_inv none_owed late (drain s j)"
proof -
  let ?t = "drain s j" and ?n = "length (filter (pending_on j) (s_activities s))"
  have refs: "refs_ok s" and slots: "slots_ok s" and cnt: "counts_ok (one_owed j) s" and parks: "parks_ok late s"
    using inv by (simp_all add: fork_inv_def)
  have j: "j < length (s_barriers s)" "j \<notin> set (s_free_barriers s)"
    using live by (simp_all add: live_barrier_def)
  have n: "b_outstanding (s_barriers s ! j) = ?n + 1"
    using cnt live by (simp add: counts_ok_def one_owed_def)
  have par: "b_parent (s_barriers ?t ! i) = b_parent (s_barriers s ! i)"
    and fir: "b_fired (s_barriers ?t ! i) = b_fired (s_barriers s ! i)" for i
    by (simp_all add: drain_def Let_def bar_update_nth)
  have out: "b_outstanding (s_barriers ?t ! i) = (if i = j then ?n else b_outstanding (s_barriers s ! i))" for i
    using j n by (simp add: drain_def Let_def bar_update_nth)
  have t: "s_activities ?t = s_activities s" "s_free_activities ?t = s_free_activities s"
    "length (s_barriers ?t) = length (s_barriers s)"
    "s_free_barriers ?t = (if ?n = 0 then j # s_free_barriers s else s_free_barriers s)"
    using j n by (simp_all add: drain_def Let_def bar_update_simps bar_update_nth)
  have lv: "live_barrier ?t i \<longleftrightarrow> live_barrier s i \<and> \<not> (i = j \<and> ?n = 0)" for i
    by (auto simp: live_barrier_def t)
  have un: "unjoined ?t p \<Longrightarrow> unjoined s p" for p
    by (auto simp: unjoined_def lv par fir)
  have "slots_ok ?t"
    using slots j by (auto simp: slots_ok_def t)
  moreover have "refs_ok ?t"
  proof -
    have "?n \<noteq> 0" if "a \<in> set (s_activities s)" "a_is_child a" "\<not> a_reported a" "a_join_ref a = Some j" for a
      using that by (auto simp: filter_empty_conv pending_on_def)
    then show ?thesis
      using refs unfolding refs_ok_def t lv par by blast
  qed
  moreover have "counts_ok none_owed ?t"
    using cnt by (auto simp: counts_ok_def t lv out one_owed_def none_owed_def)
  moreover have "parks_ok late ?t"
    using un by (intro parks_transfer [OF parks]) (auto simp: t counts_for_cong [OF par])
  ultimately show ?thesis
    by (simp add: fork_inv_def)
qed

lemma drain_simps:
  "s_activities (drain s j) = s_activities s"
  "length (s_barriers (drain s j)) = length (s_barriers s)"
  "b_parent (s_barriers (drain s j) ! i) = b_parent (s_barriers s ! i)"
  "b_mode (s_barriers (drain s j) ! i) = b_mode (s_barriers s ! i)"
  "b_resume_bb (s_barriers (drain s j) ! i) = b_resume_bb (s_barriers s ! i)"
  "b_fired (s_barriers (drain s j) ! i) = b_fired (s_barriers s ! i)"
  by (simp_all add: drain_def Let_def bar_update_nth bar_update_simps)

lemma upd_act_view:
  "act_view (f (s_activities s ! i)) = act_view (s_activities s ! i) \<Longrightarrow>
   i < length (s_activities s) \<Longrightarrow> map act_view (s_activities (upd_act s i f)) = map act_view (s_activities s)"
  using same_arenas_upd [of i s f] by (simp add: same_arenas_def)

lemma release_join_inv:
  assumes inv: "fork_inv (one_owed j) late s" and live: "live_barrier s j"
  defines "b \<equiv> s_barriers s ! j"
  shows "\<exists>s' rs. release_join s j = Some (s', rs) \<and> fork_inv none_owed late s' \<and>
    map act_view (s_activities s') = map act_view (s_activities s) \<and>
    (\<forall>p. unjoined s' p \<longrightarrow> unjoined s p) \<and> (\<forall>i. b_parent (s_barriers s' ! i) = b_parent (s_barriers s ! i)) \<and>
    map (\<lambda>r. (rd_proc r, rd_block r)) rs =
      (if \<not> b_fired b \<and> (b_mode b = JoinAll \<and> b_outstanding b = 1 \<or> b_mode b = JoinAny)
       then [(b_parent b, b_resume_bb b)] else [])"
proof -
  let ?t = "drain s j"
  have j: "j < length (s_barriers s)"
    using live by (simp add: live_barrier_def)
  have n: "0 < b_outstanding b"
    using inv live by (simp add: b_def fork_inv_def counts_ok_def one_owed_def)
  have p: "b_parent b < length (s_activities s)"
    using inv live by (simp add: b_def fork_inv_def refs_ok_def)
  have un: "unjoined ?t q \<Longrightarrow> unjoined s q" for q
    by (auto simp: unjoined_def drain_simps live_barrier_def drain_def Let_def bar_update_simps bar_update_nth split: if_splits)
  have fires: "join_fires (s_barriers ?t ! j) \<longleftrightarrow> b_mode b = JoinAll \<and> b_outstanding b = 1 \<or> b_mode b = JoinAny"
    using n j by (auto simp: join_fires_def drain_simps b_def drain_def Let_def bar_update_nth split: join_mode.split)
  show ?thesis
  proof (cases "join_fires (s_barriers ?t ! j) \<and> \<not> b_fired b")
    case False
    then show ?thesis
      unfolding release_join_def using j n drain_inv [OF inv live] un fires
      by (auto simp: Let_def drain_simps b_def)
  next
    case True
    let ?u = "upd_bar ?t j (\<lambda>b. b\<lparr>b_fired := True\<rparr>)"
    let ?f = "\<lambda>a. a\<lparr>a_call_stack := set_top_bb (b_resume_bb b) (a_call_stack a)\<rparr>"
    let ?v = "upd_act ?u (b_parent b) ?f"
    have "same_arenas ?u ?v"
      using p by (intro same_arenas_upd) (simp_all add: bar_update_simps drain_simps act_view_def)
    then have same: "same_arenas ?u (fst (resume_event ?v (b_parent b) (b_resume_bb b)))"
      by (rule same_arenas_seq)
    have un': "unjoined ?u q \<Longrightarrow> unjoined s q" for q
      using un [of q] by (auto simp: unjoined_def bar_update_simps bar_update_nth split: if_splits)
    have "release_join s j = Some (fst (resume_event ?v (b_parent b) (b_resume_bb b)),
        [snd (resume_event ?v (b_parent b) (b_resume_bb b))])"
      unfolding release_join_def using j n p True
      by (simp add: Let_def drain_simps b_def [symmetric] split_beta)
    moreover have "fork_inv none_owed late (fst (resume_event ?v (b_parent b) (b_resume_bb b)))"
      by (rule same_arenas_inv [OF same]) (rule fired_inv [OF drain_inv [OF inv live]])
    moreover have "unjoined (fst (resume_event ?v (b_parent b) (b_resume_bb b))) = unjoined ?u"
      using same by (auto simp: same_arenas_def unjoined_def live_barrier_def fun_eq_iff)
    moreover have "map act_view (s_activities (fst (resume_event ?v (b_parent b) (b_resume_bb b)))) = map act_view (s_activities s)"
      using same by (simp add: same_arenas_def bar_update_simps drain_simps)
    moreover have "b_parent (s_barriers (fst (resume_event ?v (b_parent b) (b_resume_bb b))) ! i) = b_parent (s_barriers s ! i)" for i
      using same by (simp add: same_arenas_def bar_update_nth drain_simps)
    ultimately show ?thesis
      using un' True fires by (auto simp: resume_event_def take_seq_def Let_def)
  qed
qed

lemma wait_update_inv:
  assumes inv: "fork_inv owed late s" and p: "p < length (s_activities s)"
    and park: "\<And>pk. w = Some pk \<Longrightarrow> wp_outstanding pk = length (filter (counts_for s p) (s_activities s)) + late' p \<and>
      0 < wp_outstanding pk \<and> \<not> unjoined s p"
    and others: "\<And>q. q \<noteq> p \<Longrightarrow> late' q = late q"
  shows "fork_inv owed late' (upd_act s p (\<lambda>a. a\<lparr>a_wait_fork := w\<rparr>))" (is "fork_inv owed late' ?t")
proof -
  let ?x = "(s_activities s ! p)\<lparr>a_wait_fork := w\<rparr>"
  have t: "s_activities ?t = (s_activities s)[p := ?x]" "s_barriers ?t = s_barriers s"
    "s_free_activities ?t = s_free_activities s" "s_free_barriers ?t = s_free_barriers s"
    "live_barrier ?t = live_barrier s" "unjoined ?t = unjoined s" "counts_for ?t = counts_for s"
    by (auto simp: upd_act_def live_barrier_def unjoined_def fun_eq_iff counts_pending)
  have v: "a_is_child ((s_activities s)[p := ?x] ! i) = a_is_child (s_activities s ! i)"
    "a_reported ((s_activities s)[p := ?x] ! i) = a_reported (s_activities s ! i)"
    "a_join_ref ((s_activities s)[p := ?x] ! i) = a_join_ref (s_activities s ! i)" for i
    using p by (cases "i = p"; simp)+
  have c: "length (filter (pending_on j) ((s_activities s)[p := ?x])) = length (filter (pending_on j) (s_activities s))"
    "length (filter (counts_for s q) ((s_activities s)[p := ?x])) = length (filter (counts_for s q) (s_activities s))" for j q
    by (rule count_update_same [OF p], simp add: pending_on_def counts_pending)+
  have "slots_ok ?t" "refs_ok ?t" "counts_ok owed ?t"
    using inv by (simp_all add: fork_inv_def slots_ok_def refs_ok_def counts_ok_def t v c all_set_conv_all_nth)
  moreover have "parks_ok late' ?t"
  proof (rule parks_okI)
    fix q pk
    assume q: "q < length (s_activities ?t)" "a_wait_fork (s_activities ?t ! q) = Some pk"
    show "wp_outstanding pk = length (filter (counts_for ?t q) (s_activities ?t)) + late' q \<and>
        0 < wp_outstanding pk \<and> \<not> unjoined ?t q"
    proof (cases "q = p")
      case True
      then have "w = Some pk"
        using q(2) p unfolding t by simp
      from park [OF this] show ?thesis
        unfolding True t c .
    next
      case False
      have "parks_ok late s" "q < length (s_activities s)" "a_wait_fork (s_activities s ! q) = Some pk"
        using inv q False by (simp_all add: t fork_inv_def)
      from parks_okD [OF this] show ?thesis
        unfolding t c others [OF False] .
    qed
  qed
  ultimately show ?thesis
    by (simp add: fork_inv_def)
qed

lemma release_wait_fork_inv:
  assumes inv: "fork_inv none_owed (one_owed p) s" and p: "p < length (s_activities s)"
  shows "\<exists>s' rs. release_wait_fork s p = Some (s', rs) \<and> fork_inv none_owed none_owed s' \<and>
    map (\<lambda>r. (rd_proc r, rd_block r)) rs =
      (case a_wait_fork (s_activities s ! p) of
         Some pk \<Rightarrow> if wp_outstanding pk = 1 then [(p, wp_resume_bb pk)] else [] | None \<Rightarrow> [])"
proof (cases "a_wait_fork (s_activities s ! p)")
  case None
  have "upd_act s p (\<lambda>a. a\<lparr>a_wait_fork := None\<rparr>) = s"
    using None p by (simp add: upd_act_def list_update_same_conv)
  then have "fork_inv none_owed none_owed s"
    using wait_update_inv [OF inv p, of None none_owed] by (simp add: one_owed_def none_owed_def)
  then show ?thesis
    using None p by (simp add: release_wait_fork_def)
next
  case (Some pk)
  have pk: "wp_outstanding pk = length (filter (counts_for s p) (s_activities s)) + 1" "\<not> unjoined s p"
    using parks_okD [of "one_owed p" s p pk] inv p Some by (simp_all add: fork_inv_def one_owed_def)
  show ?thesis
  proof (cases "wp_outstanding pk = 1")
    case True
    let ?t = "upd_act s p (\<lambda>a. a\<lparr>a_wait_fork := None\<rparr>)"
    have "fork_inv none_owed none_owed ?t"
      by (rule wait_update_inv [OF inv p]) (simp_all add: one_owed_def none_owed_def)
    then have "fork_inv none_owed none_owed (fst (resume_event ?t p (wp_resume_bb pk)))"
      using same_arenas_inv [OF same_arenas_seq [OF same_arenas_refl]] by blast
    then show ?thesis
      using Some True p by (simp add: release_wait_fork_def Let_def resume_event_def take_seq_def)
  next
    case False
    let ?t = "upd_act s p (\<lambda>a. a\<lparr>a_wait_fork := Some (pk\<lparr>wp_outstanding := wp_outstanding pk - 1\<rparr>)\<rparr>)"
    have "fork_inv none_owed none_owed ?t"
      using pk False by (intro wait_update_inv [OF inv p]) (auto simp: one_owed_def none_owed_def)
    then show ?thesis
      using Some False pk(1) p by (simp add: release_wait_fork_def Let_def)
  qed
qed

text \<open>One completion: never a panic, the invariant kept, and the processes it makes ready.\<close>

definition join_wakes :: "join_barrier \<Rightarrow> bool" where
  "join_wakes b \<longleftrightarrow> \<not> b_fired b \<and> (b_mode b = JoinAll \<and> b_outstanding b = 1 \<or> b_mode b = JoinAny)"

lemma complete_inv:
  assumes inv: "fork_inv none_owed none_owed s"
    and c: "c < length (s_activities s)" "pending_on j (s_activities s ! c)" "\<not> a_dead (s_activities s ! c)"
  defines "b \<equiv> s_barriers s ! j"
  shows "\<exists>s' rs. on_child_complete_into s j c = Some (s', rs) \<and> fork_inv none_owed none_owed s' \<and>
    map (\<lambda>r. (rd_proc r, rd_block r)) rs =
      (if join_wakes b then [(b_parent b, b_resume_bb b)] else []) @
      (case a_wait_fork (s_activities s ! b_parent b) of
         Some pk \<Rightarrow> if wp_outstanding pk = 1 then [(b_parent b, wp_resume_bb pk)] else [] | None \<Rightarrow> [])"
proof -
  have "\<not> a_reported (s_activities s ! c)"
    using c(2) by (simp add: pending_on_def)
  then obtain s1 where s1: "report_child s c = Some s1"
    using c(1) by (simp add: report_child_def)
  note r = report_child_inv [OF inv c s1]
  have w1: "a_wait_fork (s_activities s1 ! i) = a_wait_fork (s_activities s ! i)" for i
    using s1 by (cases "i = c") (auto simp: report_child_def upd_act_def split: if_splits)
  obtain s2 r1 where s2: "release_join s1 j = Some (s2, r1)" "fork_inv none_owed (one_owed (b_parent b)) s2"
      "map act_view (s_activities s2) = map act_view (s_activities s1)"
    and r1: "map (\<lambda>r. (rd_proc r, rd_block r)) r1 = (if join_wakes b then [(b_parent b, b_resume_bb b)] else [])"
    using release_join_inv [OF r(1,2)] unfolding r(3) b_def join_wakes_def by blast
  have p: "b_parent b < length (s_activities s)"
    using r(1,2) unfolding fork_inv_def refs_ok_def r(3,4) b_def by blast
  then have p2: "b_parent b < length (s_activities s2)"
    using map_eq_imp_length_eq [OF s2(3)] r(4) by simp
  have w2: "a_wait_fork (s_activities s2 ! b_parent b) = a_wait_fork (s_activities s ! b_parent b)"
    using arg_cong [OF s2(3), of "\<lambda>xs. xs ! b_parent b"] p2 p r(4) w1 by (simp add: act_view_def)
  obtain s3 r2 where s3: "release_wait_fork s2 (b_parent b) = Some (s3, r2)" "fork_inv none_owed none_owed s3"
    and r2: "map (\<lambda>r. (rd_proc r, rd_block r)) r2 =
      (case a_wait_fork (s_activities s ! b_parent b) of
         Some pk \<Rightarrow> if wp_outstanding pk = 1 then [(b_parent b, wp_resume_bb pk)] else [] | None \<Rightarrow> [])"
    using release_wait_fork_inv [OF s2(2) p2] unfolding w2 by blast
  have "j < length (s_barriers s1)"
    using r(2) by (simp add: live_barrier_def)
  then have "on_child_complete_into s j c = Some (s3, r1 @ r2)"
    using s1 s2(1) s3(1) by (simp add: on_child_complete_into_def Let_def r(3) b_def)
  then show ?thesis
    using s3(2) r1 r2 by auto
qed

section \<open>wait fork and disable fork\<close>

lemma refs_in_range_inv: "refs_ok s \<Longrightarrow> refs_in_range s"
  unfolding refs_ok_def refs_in_range_def live_barrier_def list_all_iff by (fastforce split: option.split)

lemma counts_parent:
  assumes "refs_ok s" "a \<in> set (s_activities s)" "counts_for s p a"
  shows "p < length (s_activities s) \<and> \<not> a_is_child (s_activities s ! p)"
  using assms unfolding refs_ok_def counts_pending pending_on_def by (metis option.inject)

lemma wait_inv:
  assumes inv: "fork_inv none_owed none_owed s" and run: "may_run s p"
  shows "\<exists>s' b. exec_wait_fork s p bb = Some (s', b) \<and> fork_inv none_owed none_owed s' \<and>
    (b \<longleftrightarrow> (\<forall>a \<in> set (s_activities s). \<not> counts_for s p a)) \<and>
    (\<not> b \<longrightarrow> (\<exists>pk. a_wait_fork (s_activities s' ! p) = Some pk \<and> wp_resume_bb pk = bb))"
proof -
  let ?n = "length (filter (counts_for s p) (s_activities s))"
  have r: "refs_in_range s"
    using inv by (simp add: fork_inv_def refs_in_range_inv)
  have p: "p < length (s_activities s)" "\<not> unjoined s p"
    using run by (simp_all add: may_run_def)
  show ?thesis
  proof (cases "?n = 0")
    case True
    then have e: "exec_wait_fork s p bb = Some (s, True)"
      using r unfolding exec_wait_fork_def by (simp only: Let_def if_True if_False not_True_eq_False refl)
    show ?thesis
      unfolding e using inv True by (auto simp: filter_empty_conv)
  next
    case False
    let ?t = "upd_act s p (\<lambda>a. a\<lparr>a_wait_fork := Some \<lparr>wp_resume_bb = bb, wp_outstanding = ?n\<rparr>\<rparr>)"
    have e: "exec_wait_fork s p bb = Some (?t, False)"
      using r False p unfolding exec_wait_fork_def by (simp only: Let_def if_True if_False not_True_eq_False refl)
    have "fork_inv none_owed none_owed ?t"
      using False p(2) by (intro wait_update_inv [OF inv p(1)]) (auto simp: none_owed_def)
    moreover have "a_wait_fork (s_activities ?t ! p) = Some \<lparr>wp_resume_bb = bb, wp_outstanding = ?n\<rparr>"
      using p by (simp add: upd_act_def)
    ultimately show ?thesis
      unfolding e using False by (auto simp: filter_empty_conv)
  qed
qed

definition kill_set :: "sched \<Rightarrow> nat \<Rightarrow> nat set" where
  "kill_set s p = insert p {i. i < length (s_activities s) \<and> counts_for s p (s_activities s ! i)}"

lemma kill_pass_within:
  assumes refs: "refs_ok s" and "set (fst acc) \<subseteq> kill_set s p" "\<forall>i \<in> set is. i < length (s_activities s)"
  shows "set (fst (kill_pass s is acc)) \<subseteq> kill_set s p"
  using assms(2,3)
proof (induction "is" arbitrary: acc)
  case (Cons i rest)
  let ?a = "s_activities s ! i"
  have "i \<in> kill_set s p"
    if "\<not> a_dead ?a" "\<not> a_reported ?a" "a_join_ref ?a = Some jr" "b_parent (s_barriers s ! jr) \<in> set (fst acc)" for jr
  proof -
    have a: "?a \<in> set (s_activities s)"
      using Cons.prems by simp
    then have ch: "a_is_child ?a"
      using refs that by (auto simp: refs_ok_def)
    then have c: "counts_for s (b_parent (s_barriers s ! jr)) ?a"
      using that by (auto simp: counts_for_def)
    then have "\<not> a_is_child (s_activities s ! b_parent (s_barriers s ! jr))"
      using counts_parent [OF refs a] by blast
    then have "b_parent (s_barriers s ! jr) = p"
      using that(4) Cons.prems(1) by (auto simp: kill_set_def counts_pending pending_on_def)
    then show ?thesis
      using c Cons.prems by (simp add: kill_set_def)
  qed
  then show ?case
    using Cons.prems Cons.IH [of acc] Cons.IH [of "(i # fst acc, True)"]
    by (auto simp: kill_joins_def)
qed simp

lemma kill_pass_covers:
  assumes "p \<in> set (fst acc)" "i \<in> set is" "counts_for s p (s_activities s ! i)"
  shows "i \<in> set (fst (kill_pass s is acc))"
  using assms
proof (induction "is" arbitrary: acc)
  case (Cons k rest)
  let ?acc = "if kill_joins s (set (fst acc)) k then (k # fst acc, True) else acc"
  have e: "kill_pass s (k # rest) acc = kill_pass s rest ?acc"
    by simp
  show ?case
  proof (cases "i = k")
    case True
    have "i \<in> set (fst ?acc)"
      using Cons.prems True by (auto simp: kill_joins_def counts_pending pending_on_def)
    then show ?thesis
      unfolding e using kill_pass_grows [of ?acc s rest] by blast
  next
    case False
    have "p \<in> set (fst ?acc)"
      using Cons.prems(1) by simp
    then show ?thesis
      unfolding e using Cons.IH [of ?acc] Cons.prems False by simp
  qed
qed simp

lemma kill_loop_set:
  assumes refs: "refs_ok s" and "p \<in> set kill" "set kill \<subseteq> kill_set s p"
  shows "set (kill_loop s kill) = kill_set s p"
  using assms
proof (induction s kill rule: kill_loop.induct)
  case (1 s kill)
  let ?r = "kill_pass s [0..<length (s_activities s)] (kill, False)"
  have w: "set (fst ?r) \<subseteq> kill_set s p"
    using kill_pass_within [of s "(kill, False)" p] 1 by simp
  have g: "p \<in> set (fst ?r)"
    using kill_pass_grows [of "(kill, False)" s] 1(3) by auto
  have c: "kill_set s p \<subseteq> set (fst ?r)"
    using kill_pass_covers [of p "(kill, False)" _ "[0..<length (s_activities s)]" s] 1(3) g by (auto simp: kill_set_def)
  show ?case
  proof (cases "snd ?r")
    case True
    have "set (kill_loop s (fst ?r)) = kill_set s p"
      by (rule 1(1) [OF refl prod.collapse True 1(2) g w])
    then show ?thesis
      using True by (subst kill_loop.simps) (simp add: split_beta)
  next
    case False
    then show ?thesis
      using w c by (subst kill_loop.simps) (simp add: split_beta)
  qed
qed

lemma mark_dead_simps:
  "length (s_activities (mark_dead kill s)) = length (s_activities s)"
  "s_barriers (mark_dead kill s) = s_barriers s"
  "s_free_activities (mark_dead kill s) = s_free_activities s"
  "s_free_barriers (mark_dead kill s) = s_free_barriers s"
  "live_barrier (mark_dead kill s) = live_barrier s"
  "unjoined (mark_dead kill s) = unjoined s"
proof -
  show b: "s_barriers (mark_dead kill s) = s_barriers s" "s_free_activities (mark_dead kill s) = s_free_activities s"
    "s_free_barriers (mark_dead kill s) = s_free_barriers s"
    "length (s_activities (mark_dead kill s)) = length (s_activities s)"
    by (induction kill arbitrary: s) (simp_all add: mark_dead_def upd_act_def)
  then show "live_barrier (mark_dead kill s) = live_barrier s" "unjoined (mark_dead kill s) = unjoined s"
    by (simp_all add: live_barrier_def unjoined_def fun_eq_iff)
qed

lemma mark_dead_nth:
  "i < length (s_activities s) \<Longrightarrow>
   s_activities (mark_dead kill s) ! i =
     (if i \<in> set kill then (s_activities s ! i)\<lparr>a_dead := True\<rparr> else s_activities s ! i)"
proof (induction kill arbitrary: s)
  case (Cons a kill)
  have "mark_dead (a # kill) s = mark_dead kill (upd_act s a (\<lambda>a. a\<lparr>a_dead := True\<rparr>))"
    by (simp add: mark_dead_def)
  then show ?case
    using Cons by (cases "a = i") (simp_all add: upd_act_def)
qed (simp add: mark_dead_def)

lemma disable_kills:
  assumes inv: "fork_inv none_owed none_owed s" and p: "s_cur_aid s = p" "p < length (s_activities s)"
    and run: "a_is_child (s_activities s ! p) \<or> may_run s p"
  shows "\<exists>t. k_disable_fork s = Some t \<and> fork_inv none_owed none_owed t \<and>
    length (s_activities t) = length (s_activities s) \<and>
    (\<forall>i < length (s_activities s). s_activities t ! i =
       (if counts_for s p (s_activities s ! i) then (s_activities s ! i)\<lparr>a_dead := True\<rparr> else s_activities s ! i))"
proof -
  have refs: "refs_ok s" and slots: "slots_ok s" and cnt: "counts_ok none_owed s" and parks: "parks_ok none_owed s"
    using inv by (simp_all add: fork_inv_def)
  let ?k = "removeAll p (kill_loop s [p])" and ?acts = "s_activities s"
  let ?t = "mark_dead ?k s"
  have self: "\<not> counts_for s p (?acts ! p)"
    using counts_parent [OF refs nth_mem [OF p(2)]] by (auto simp: counts_pending pending_on_def)
  have k: "set ?k = {i. i < length ?acts \<and> counts_for s p (?acts ! i)}"
    using kill_loop_set [OF refs, of p "[p]"] self by (auto simp: kill_set_def)
  have "k_disable_fork s = Some ?t"
    unfolding k_disable_fork_def p(1) using refs unfolding refs_ok_def live_barrier_def list_all_iff
    by (fastforce split: option.split)
  moreover have nth: "s_activities ?t ! i =
      (if counts_for s p (?acts ! i) then (?acts ! i)\<lparr>a_dead := True\<rparr> else ?acts ! i)" if "i < length ?acts" for i
    using k mark_dead_nth [OF that, of ?k] that by auto
  moreover have "fork_inv none_owed none_owed ?t"
  proof -
    note t = mark_dead_simps [of ?k s]
    have v: "a_is_child (s_activities ?t ! i) = a_is_child (?acts ! i)"
      "a_reported (s_activities ?t ! i) = a_reported (?acts ! i)"
      "a_join_ref (s_activities ?t ! i) = a_join_ref (?acts ! i)"
      "a_wait_fork (s_activities ?t ! i) = a_wait_fork (?acts ! i)" if "i < length ?acts" for i
      by (simp_all add: nth [OF that])
    have m: "s_activities ?t = map (\<lambda>a. if counts_for s p a then a\<lparr>a_dead := True\<rparr> else a) ?acts"
      by (rule nth_equalityI) (simp_all add: t nth)
    have c1: "length (filter (pending_on j) (s_activities ?t)) = length (filter (pending_on j) ?acts)" for j
      unfolding m length_filter_map
      by (rule count_cong) (simp add: pending_on_def)
    have c2: "length (filter (counts_for ?t q) (s_activities ?t)) = length (filter (counts_for s q) ?acts)" if "q \<noteq> p" for q
      unfolding m length_filter_map
      by (rule count_cong) (use that in \<open>auto simp: counts_pending pending_on_def t\<close>)
    have "slots_ok ?t" "refs_ok ?t" "counts_ok none_owed ?t"
      using slots refs cnt by (simp_all add: slots_ok_def refs_ok_def counts_ok_def t v c1 all_set_conv_all_nth)
    moreover have "parks_ok none_owed ?t"
    proof (rule parks_transfer [OF parks])
      fix q pk
      assume q: "q < length (s_activities ?t)" "a_wait_fork (s_activities ?t ! q) = Some pk"
      then have q': "q < length ?acts" "a_wait_fork (?acts ! q) = Some pk"
        by (simp_all add: t v)
      have "q \<noteq> p"
      proof
        assume "q = p"
        then have "filter (counts_for s p) ?acts \<noteq> []" "a_is_child (?acts ! p)"
          using parks_okD [OF parks q'] run q' by (auto simp: may_run_def none_owed_def)
        then show False
          using counts_parent [OF refs] by (auto simp: filter_empty_conv)
      qed
      then show "q < length ?acts \<and> a_wait_fork (?acts ! q) = Some pk \<and>
          length (filter (counts_for ?t q) (s_activities ?t)) + none_owed q =
          length (filter (counts_for s q) ?acts) + none_owed q \<and> (unjoined ?t q \<longrightarrow> unjoined s q)"
        using q' c2 by (simp add: t)
    qed
    ultimately show ?thesis
      by (simp add: fork_inv_def)
  qed
  ultimately show ?thesis
    using mark_dead_simps(1) by blast
qed

section \<open>A fork\<close>

definition owe :: "nat \<Rightarrow> nat \<Rightarrow> nat \<Rightarrow> nat" where
  "owe j n x = (if x = j then n else 0)"

lemma place_barrier_shape:
  assumes "place_barrier s b = Some (s', j)" and slots: "slots_ok s"
  shows "s_activities s' = s_activities s" "s_free_activities s' = s_free_activities s"
    and "live_barrier s' i \<longleftrightarrow> live_barrier s i \<or> i = j" and "\<not> live_barrier s j"
    and "s_barriers s' ! j = b" and "live_barrier s i \<Longrightarrow> s_barriers s' ! i = s_barriers s ! i"
    and "slots_ok s'" and "s_had_fatal s' = s_had_fatal s"
  using assms
  by (auto simp: place_barrier_def live_barrier_def slots_ok_def nth_append nth_list_update less_Suc_eq
        split: list.splits if_splits)

lemma place_barrier_inv:
  assumes inv: "fork_inv none_owed none_owed s" and run: "may_run s p"
    and b: "b_parent b = p" "b_outstanding b = n"
    and place: "place_barrier s b = Some (s', j)"
  shows "fork_inv (owe j n) none_owed s'"
proof -
  have refs: "refs_ok s" and slots: "slots_ok s" and cnt: "counts_ok none_owed s" and parks: "parks_ok none_owed s"
    using inv by (simp_all add: fork_inv_def)
  note t = place_barrier_shape [OF place slots]
  have p: "p < length (s_activities s)" "\<not> a_is_child (s_activities s ! p)" "a_wait_fork (s_activities s ! p) = None"
    using run by (simp_all add: may_run_def)
  have pend: "pending_on i a \<Longrightarrow> a \<in> set (s_activities s) \<Longrightarrow> live_barrier s i" for i a
    using refs unfolding refs_ok_def pending_on_def by (metis option.inject)
  have z: "filter (pending_on j) (s_activities s) = []"
    using pend t(4) by (auto simp: filter_empty_conv)
  have "refs_ok s'"
    using refs p unfolding refs_ok_def t(1,3) by (metis b(1) t(5,6))
  moreover have "counts_ok (owe j n) s'"
    using cnt z b(2) t(4,5,6) by (auto simp: counts_ok_def t(1,3) owe_def none_owed_def)
  moreover have "parks_ok none_owed s'"
  proof (rule parks_transfer [OF parks])
    fix q pk
    assume q: "q < length (s_activities s')" "a_wait_fork (s_activities s' ! q) = Some pk"
    then have qp: "q \<noteq> p"
      using p t(1) by auto
    have "length (filter (counts_for s' q) (s_activities s)) = length (filter (counts_for s q) (s_activities s))"
      by (rule count_cong) (use pend t(6) in \<open>auto simp: counts_pending\<close>)
    moreover have "unjoined s' q \<longrightarrow> unjoined s q"
      using qp b(1) t(5,6) by (auto simp: unjoined_def t(3))
    ultimately show "q < length (s_activities s) \<and> a_wait_fork (s_activities s ! q) = Some pk \<and>
        length (filter (counts_for s' q) (s_activities s')) + none_owed q =
        length (filter (counts_for s q) (s_activities s)) + none_owed q \<and> (unjoined s' q \<longrightarrow> unjoined s q)"
      using q by (simp add: t(1))
  qed
  ultimately show ?thesis
    using t(7) by (simp add: fork_inv_def)
qed

text \<open>A placed child replaces a reported one, or is appended.\<close>

lemma place_child_shape:
  assumes place: "place_child s x = Some (s', i)" and slots: "slots_ok s"
  shows "s_barriers s' = s_barriers s" "s_free_barriers s' = s_free_barriers s" "s_had_fatal s' = s_had_fatal s"
    and "i < length (s_activities s')" and "act_view (s_activities s' ! i) = act_view x"
    and "q \<noteq> i \<Longrightarrow> q < length (s_activities s') \<longleftrightarrow> q < length (s_activities s)"
    and "q \<noteq> i \<Longrightarrow> q < length (s_activities s) \<Longrightarrow> s_activities s' ! q = s_activities s ! q"
    and "i < length (s_activities s) \<Longrightarrow> a_is_child (s_activities s ! i) \<and> a_reported (s_activities s ! i)"
    and "set (s_free_activities s') \<subseteq> set (s_free_activities s) - {i}" and "distinct (s_free_activities s')"
  using assms
  by (auto simp: place_child_def slots_ok_def upd_act_def nth_append act_view_def less_Suc_eq
        split: list.splits if_splits)

lemma place_child_count:
  assumes place: "place_child s x = Some (s', i)" and slots: "slots_ok s"
    and rep: "\<And>a. P a \<Longrightarrow> \<not> a_reported a" and view: "\<And>a b. act_view a = act_view b \<Longrightarrow> P a = P b"
  shows "length (filter P (s_activities s')) = length (filter P (s_activities s)) + (if P x then 1 else 0)"
proof (cases "s_free_activities s")
  case Nil
  then show ?thesis
    using place by (auto simp: place_child_def)
next
  case (Cons k rest)
  let ?x = "x\<lparr>a_gen := (a_gen (s_activities s ! k) + 1) mod 2 ^ 32\<rparr>"
  have k: "k < length (s_activities s)" "\<not> P (s_activities s ! k)"
    using slots Cons rep by (auto simp: slots_ok_def)
  have "s_activities s' = (s_activities s)[k := ?x]"
    using place Cons k by (auto simp: place_child_def upd_act_def)
  moreover have "P ?x = P x"
    by (rule view) (simp add: act_view_def)
  ultimately show ?thesis
    using count_update [OF k(1), of P ?x] k(2) by simp
qed

lemma place_child_inv:
  assumes inv: "fork_inv (owe j (Suc n)) none_owed s" and j: "live_barrier s j"
    and p: "a_wait_fork (s_activities s ! b_parent (s_barriers s ! j)) = None"
    and x: "act_view x = (True, False, False, Some j, None)"
    and place: "place_child s x = Some (s', i)"
  shows "fork_inv (owe j n) none_owed s'"
proof -
  let ?p = "b_parent (s_barriers s ! j)"
  have refs: "refs_ok s" and slots: "slots_ok s" and cnt: "counts_ok (owe j (Suc n)) s" and parks: "parks_ok none_owed s"
    using inv by (simp_all add: fork_inv_def)
  note t = place_child_shape [OF place slots] and c = place_child_count [OF place slots]
  have lv: "live_barrier s' = live_barrier s" "unjoined s' = unjoined s"
    by (simp_all add: live_barrier_def unjoined_def fun_eq_iff t(1,2))
  have c1: "length (filter (pending_on k) (s_activities s')) = length (filter (pending_on k) (s_activities s)) + one_owed j k" for k
    using c [of "pending_on k"] x by (auto simp: pending_on_def act_view_def one_owed_def)
  have c2: "length (filter (counts_for s q) (s_activities s')) = length (filter (counts_for s q) (s_activities s)) + one_owed ?p q" for q
    using c [of "counts_for s q"] x by (auto simp: counts_pending pending_on_def act_view_def one_owed_def)
  have cf: "counts_for s' = counts_for s"
    by (simp add: fun_eq_iff counts_pending t(1))
  have xi: "a_is_child (s_activities s' ! i)" "\<not> a_reported (s_activities s' ! i)"
    "a_join_ref (s_activities s' ! i) = Some j" "a_wait_fork (s_activities s' ! i) = None"
    using t(5) x by (simp_all add: act_view_def)
  have "slots_ok s'"
    using slots t(6,7,9,10) unfolding slots_ok_def t(1,2) by (metis Diff_iff singletonI subsetD)
  moreover have "refs_ok s'"
  proof -
    have keep: "q < length (s_activities s') \<and> \<not> a_is_child (s_activities s' ! q)"
      if "q < length (s_activities s)" "\<not> a_is_child (s_activities s ! q)" for q
      using that t(6) [of q] t(7) [of q] t(8) by (cases "q = i") auto
    show ?thesis
      unfolding refs_ok_def lv t(1) all_set_conv_all_nth
    proof (intro conjI allI impI)
      fix k
      assume k: "k < length (s_activities s')"
      show "\<exists>j. a_join_ref (s_activities s' ! k) = Some j \<and> live_barrier s j"
        if "a_is_child (s_activities s' ! k) \<and> \<not> a_reported (s_activities s' ! k)"
        using that xi j k t(6) [of k] t(7) [of k] refs
        by (cases "k = i") (auto simp: refs_ok_def all_set_conv_all_nth)
      show "a_join_ref (s_activities s' ! k) = None" if "\<not> a_is_child (s_activities s' ! k)"
        using that xi k t(6) [of k] t(7) [of k] refs
        by (cases "k = i") (auto simp: refs_ok_def all_set_conv_all_nth)
    qed (use refs keep in \<open>auto simp: refs_ok_def\<close>)
  qed
  moreover have "counts_ok (owe j n) s'"
    using cnt c1 by (auto simp: counts_ok_def lv t(1) owe_def one_owed_def)
  moreover have "parks_ok none_owed s'"
  proof (rule parks_transfer [OF parks])
    fix q pk
    assume q: "q < length (s_activities s')" "a_wait_fork (s_activities s' ! q) = Some pk"
    then have qi: "q \<noteq> i"
      using xi by auto
    then have q': "q < length (s_activities s)" "a_wait_fork (s_activities s ! q) = Some pk"
      using q t(6) [of q] t(7) [of q] by simp_all
    then have "q \<noteq> ?p"
      using p by auto
    then show "q < length (s_activities s) \<and> a_wait_fork (s_activities s ! q) = Some pk \<and>
        length (filter (counts_for s' q) (s_activities s')) + none_owed q =
        length (filter (counts_for s q) (s_activities s)) + none_owed q \<and> (unjoined s' q \<longrightarrow> unjoined s q)"
      using q' by (simp add: cf c2 lv one_owed_def)
  qed
  ultimately show ?thesis
    by (simp add: fork_inv_def)
qed

lemma arm_frame_same: "arm_frame s callee shared entry join = Some (s', f) \<Longrightarrow> same_arenas s s'"
  by (auto simp: arm_frame_def same_arenas_def Let_def split: if_splits option.splits)

text \<open>What every spawn relies on and keeps: the fork's barrier is live, its parent a running process.\<close>

definition spawning :: "nat \<Rightarrow> nat \<Rightarrow> nat \<Rightarrow> sched \<Rightarrow> bool" where
  "spawning j p n s \<longleftrightarrow>
     fork_inv (owe j n) none_owed s \<and> live_barrier s j \<and> b_parent (s_barriers s ! j) = p \<and>
     p < length (s_activities s) \<and> \<not> a_is_child (s_activities s ! p) \<and> a_wait_fork (s_activities s ! p) = None"

lemma spawning_same:
  assumes same: "same_arenas s s'" and sp: "spawning j p n s"
  shows "spawning j p n s'"
proof -
  have "live_barrier s' = live_barrier s" "s_barriers s' = s_barriers s"
    using same by (auto simp: same_arenas_def live_barrier_def fun_eq_iff)
  then show ?thesis
    using sp same_arenas_inv [OF same] same_arenas_nth [OF same] unfolding spawning_def act_view_def by auto
qed

lemma spawn_child_inv:
  assumes sp: "spawning (e_ref env) p (Suc n) s" and run: "spawn_child env s idx entry = Some (s', r)"
  shows "spawning (e_ref env) p n s'"
proof -
  let ?j = "e_ref env"
  obtain s1 stack where st: "child_stack env s entry = Some (s1, stack)" and run1:
      "Option.bind (place_child s1 (new_child stack (e_tmpl env) (compose_child_tie (e_tie env) idx) ?j))
         (\<lambda>(s, aid). Some (resume_event s aid entry)) = Some (s', r)"
    using run by (auto simp: spawn_child_def bind_eq_Some_conv)
  have s1: "same_arenas s s1"
    using st by (auto simp: child_stack_def same_arenas_refl dest: arm_frame_same split: option.splits)
  let ?x = "new_child stack (e_tmpl env) (compose_child_tie (e_tie env) idx) ?j"
  obtain s2 i where s2: "place_child s1 ?x = Some (s2, i)" and s': "s' = fst (resume_event s2 i entry)"
    using run1 by (auto simp: bind_eq_Some_conv)
  have sp1: "spawning ?j p (Suc n) s1"
    by (rule spawning_same [OF s1 sp])
  have slots: "slots_ok s1"
    using sp1 by (simp add: spawning_def fork_inv_def)
  note t = place_child_shape [OF s2 slots]
  have "fork_inv (owe ?j n) none_owed s2"
    using sp1 by (intro place_child_inv [OF _ _ _ _ s2]) (simp_all add: spawning_def act_view_def new_child_def)
  moreover have "p \<noteq> i"
    using t(8) sp1 by (auto simp: spawning_def)
  ultimately have "spawning ?j p n s2"
    using sp1 t(6) [of p] t(7) [of p] t(1,2) unfolding spawning_def live_barrier_def by auto
  then show ?thesis
    unfolding s' by (intro spawning_same [OF same_arenas_seq [OF same_arenas_refl]])
qed

lemma spawn_children_inv:
  "spawning (e_ref env) p (length entries) s \<Longrightarrow> spawn_children env s idx entries = Some (s', rs) \<Longrightarrow>
   spawning (e_ref env) p 0 s'"
proof (induction entries arbitrary: s idx rs)
  case (Cons entry rest)
  from Cons.prems(2) obtain s1 r rs' where
    "spawn_child env s idx entry = Some (s1, r)" "spawn_children env s1 (idx + 1) rest = Some (s', rs')"
    by (auto simp: bind_eq_Some_conv)
  then show ?case
    using spawn_child_inv [of env p "length rest" s idx entry s1 r] Cons.IH Cons.prems(1) by simp
qed simp

lemma owe_zero: "owe j 0 = none_owed"
  by (simp add: fun_eq_iff owe_def none_owed_def)

lemma fork_arm_env_ref: "fork_arm_env s pa join j = Some env \<Longrightarrow> e_ref env = j"
  by (auto simp: fork_arm_env_def Let_def split: if_splits)

lemma fork_inv_step:
  assumes inv: "fork_inv none_owed none_owed s" and run: "may_run s p"
    and ex: "exec_fork_into s p children join resume = Some (s', r, rs)"
  shows "s_had_fatal s' \<or> fork_inv none_owed none_owed s'"
proof (cases "s_had_fatal s'")
  case False
  have p: "p < length (s_activities s)" "\<not> a_is_child (s_activities s ! p)" "a_wait_fork (s_activities s ! p) = None"
    using run by (simp_all add: may_run_def)
  let ?b = "\<lambda>mode. \<lparr>b_parent = p, b_join_bb = join, b_resume_bb = resume, b_mode = mode,
    b_outstanding = length children, b_fired = False\<rparr>"
  obtain mode s1 j env s2 where s1: "place_barrier s (?b mode) = Some (s1, j)"
    and env: "fork_arm_env s1 (s_activities s ! p) join j = Some env"
    and s2: "spawn_children env s1 0 children = Some (s2, rs)"
    and s': "s' = s2 \<or> s' = upd_bar s2 j (\<lambda>b. b\<lparr>b_fired := True\<rparr>)"
    using ex False unfolding exec_fork_into_def
    by (fastforce simp: bind_eq_Some_conv split: option.splits if_splits)
  have b: "b_parent (?b mode) = p" "b_outstanding (?b mode) = length children"
    by simp_all
  have slots: "slots_ok s"
    using inv by (simp add: fork_inv_def)
  note t = place_barrier_shape [OF s1 slots]
  have "spawning j p (length children) s1"
    using place_barrier_inv [OF inv run b s1] p b(1) t(1,3,5) by (simp add: spawning_def)
  then have "spawning j p 0 s2"
    using spawn_children_inv [OF _ s2] fork_arm_env_ref [OF env] by simp
  then have "fork_inv none_owed none_owed s2"
    by (simp add: spawning_def owe_zero)
  then show ?thesis
    using s' fired_inv by auto
qed simp

section \<open>Every reachable state keeps the invariant\<close>

lemma fork_start_inv: "fork_start s \<Longrightarrow> fork_inv none_owed none_owed s"
  by (auto simp: fork_start_def fork_inv_def slots_ok_def refs_ok_def counts_ok_def parks_ok_def live_barrier_def)

lemma set_cur_same: "set_cur_activity s p = Some s' \<Longrightarrow> same_arenas s s' \<and> s_cur_aid s' = p \<and> p < length (s_activities s)"
  by (auto simp: set_cur_activity_def arena_get_def same_arenas_def split: if_splits)

lemma same_arenas_runs:
  assumes same: "same_arenas s s'" and p: "p < length (s_activities s)"
  shows "(a_is_child (s_activities s' ! p) \<or> may_run s' p) = (a_is_child (s_activities s ! p) \<or> may_run s p)"
proof -
  have "unjoined s' = unjoined s"
    using same by (auto simp: same_arenas_def unjoined_def live_barrier_def fun_eq_iff)
  then show ?thesis
    using same_arenas_nth [OF same] p by (auto simp: may_run_def act_view_def)
qed

lemma fork_step_inv:
  assumes "fork_step s s'" and inv: "fork_inv none_owed none_owed s"
  shows "s_had_fatal s' \<or> fork_inv none_owed none_owed s'"
  using assms(1)
proof cases
  case (step_fork p children join resume r rs)
  then show ?thesis
    using fork_inv_step [OF inv] by blast
next
  case (step_complete c j rs)
  then show ?thesis
    using complete_inv [OF inv, of c j] by (auto simp: pending_on_def)
next
  case (step_wait p resume b)
  then show ?thesis
    using wait_inv [OF inv, of p resume] by auto
next
  case (step_disable p s1)
  then have "same_arenas s s1" "s_cur_aid s1 = p" "p < length (s_activities s1)"
    using set_cur_same same_arenas_nth(1) by metis+
  moreover then have "a_is_child (s_activities s1 ! p) \<or> may_run s1 p"
    using step_disable same_arenas_runs same_arenas_nth(1) by metis
  ultimately show ?thesis
    using disable_kills [of s1 p] same_arenas_inv [OF _ inv] step_disable by auto
qed

lemma reachable_inv: "fork_reachable s \<Longrightarrow> s_had_fatal s \<or> fork_inv none_owed none_owed s"
proof (induction rule: fork_reachable.induct)
  case (reach_step s s')
  then show ?case
    using fork_step_inv [of s s'] by (auto elim: fork_step.cases)
qed (simp add: fork_start_inv)

end
