(* ===== verification/ForkCorrect.thy ===== *)
theory ForkCorrect
  imports ForkSteps
begin

text \<open>
  What the fork machinery promises in every reachable state of \<open>ForkSteps\<close>: the arenas are consistent,
  a \<open>join\<close> resumes its parent exactly when the last child reports, a \<open>wait fork\<close> wakes its process
  exactly once and whatever the order of the completions, and \<open>disable fork\<close> kills exactly the caller's
  live children.
\<close>

section \<open>What a completion changes\<close>

lemma report_child_shape:
  assumes "report_child s c = Some s'"
  shows "c < length (s_activities s)" "s_barriers s' = s_barriers s" "s_had_fatal s' = s_had_fatal s"
    and "length (s_activities s') = length (s_activities s)"
    and "act_view (s_activities s' ! i) =
      (if i = c then act_view ((s_activities s ! c)\<lparr>a_reported := True\<rparr>) else act_view (s_activities s ! i))"
  using assms by (auto simp: report_child_def upd_act_def split: if_splits)

lemma release_join_shape:
  assumes "release_join s j = Some (s', rs)"
  shows "length (s_activities s') = length (s_activities s)" "s_had_fatal s' = s_had_fatal s"
    and "act_view (s_activities s' ! i) = act_view (s_activities s ! i)"
    and "b_parent (s_barriers s' ! i) = b_parent (s_barriers s ! i)"
proof -
  have d: "s_had_fatal (drain s j) = s_had_fatal s"
    by (simp add: drain_def Let_def upd_bar_def)
  have v: "act_view ((xs[k := (xs ! k)\<lparr>a_call_stack := st\<rparr>]) ! i) = act_view (xs ! i)" for xs k st
    by (cases "i = k"; cases "k < length xs") (simp_all add: act_view_def list_update_beyond)
  show "length (s_activities s') = length (s_activities s)" "s_had_fatal s' = s_had_fatal s"
    "act_view (s_activities s' ! i) = act_view (s_activities s ! i)"
    "b_parent (s_barriers s' ! i) = b_parent (s_barriers s ! i)"
    using assms
    by (auto simp: release_join_def Let_def resume_event_def take_seq_def upd_act_def drain_simps d v
          bar_update_nth bar_update_simps split: if_splits) (simp_all add: upd_bar_def d nth_list_update drain_simps)
qed

lemma release_wait_fork_shape:
  assumes "release_wait_fork s p = Some (s', rs)"
  shows "length (s_activities s') = length (s_activities s)" "s_had_fatal s' = s_had_fatal s" "s_barriers s' = s_barriers s"
    and "i \<noteq> p \<Longrightarrow> s_activities s' ! i = s_activities s ! i"
    and "a_wait_fork (s_activities s ! p) = Some pk \<Longrightarrow> wp_outstanding pk \<noteq> 1 \<Longrightarrow> 0 < wp_outstanding pk \<Longrightarrow>
      act_view (s_activities s' ! p) =
      act_view ((s_activities s ! p)\<lparr>a_wait_fork := Some (pk\<lparr>wp_outstanding := wp_outstanding pk - 1\<rparr>)\<rparr>)"
  using assms
  by (auto simp: release_wait_fork_def Let_def resume_event_def take_seq_def upd_act_def split: if_splits option.splits)

text \<open>The live children of a process, by their slots.\<close>

definition live_children :: "sched \<Rightarrow> nat \<Rightarrow> nat set" where
  "live_children s p = {i. i < length (s_activities s) \<and> counts_for s p (s_activities s ! i)}"

lemma live_children_count: "card (live_children s p) = length (filter (counts_for s p) (s_activities s))"
  by (simp add: live_children_def length_filter_conv_card)

lemma live_children_ref:
  assumes "c \<in> live_children s p"
  obtains j where "a_join_ref (s_activities s ! c) = Some j" "pending_on j (s_activities s ! c)"
    "b_parent (s_barriers s ! j) = p" "c < length (s_activities s)" "\<not> a_dead (s_activities s ! c)"
  using assms by (auto simp: live_children_def counts_pending pending_on_def)

lemma act_view_counts:
  "act_view a = act_view b \<Longrightarrow> (\<And>j. b_parent (s_barriers s ! j) = b_parent (s_barriers s' ! j)) \<Longrightarrow>
   counts_for s p a = counts_for s' p b"
  by (simp add: act_view_def counts_pending pending_on_def)

lemma complete_live:
  assumes run: "on_child_complete_into s j c = Some (s', rs)"
    and j: "pending_on j (s_activities s ! c)" "b_parent (s_barriers s ! j) = p" and cp: "c \<noteq> p"
    and pk: "a_wait_fork (s_activities s ! p) = Some pk" "1 < wp_outstanding pk"
  shows "live_children s' p = live_children s p - {c}"
    and "a_wait_fork (s_activities s' ! p) = Some (pk\<lparr>wp_outstanding := wp_outstanding pk - 1\<rparr>)"
    and "s_had_fatal s' = s_had_fatal s" and "length (s_activities s') = length (s_activities s)"
proof -
  obtain s1 s2 r1 r2 where s1: "report_child s c = Some s1" and s2: "release_join s1 j = Some (s2, r1)"
    and s3: "release_wait_fork s2 (b_parent (s_barriers s1 ! j)) = Some (s', r2)"
    using run by (auto simp: on_child_complete_into_def bind_eq_Some_conv Let_def split: if_splits)
  note a = report_child_shape [OF s1] and b = release_join_shape [OF s2]
  have s3': "release_wait_fork s2 p = Some (s', r2)"
    using s3 j(2) a(2) by simp
  note d = release_wait_fork_shape [OF s3']
  show "s_had_fatal s' = s_had_fatal s" "length (s_activities s') = length (s_activities s)"
    using a b d by simp_all
  have v2: "act_view (s_activities s2 ! i) =
      (if i = c then act_view ((s_activities s ! c)\<lparr>a_reported := True\<rparr>) else act_view (s_activities s ! i))" for i
    using a(5) b(3) by simp
  have w: "a_wait_fork (s_activities s2 ! p) = Some pk"
    using v2 [of p] cp pk by (simp add: act_view_def)
  have v3: "act_view (s_activities s' ! p) =
      act_view ((s_activities s2 ! p)\<lparr>a_wait_fork := Some (pk\<lparr>wp_outstanding := wp_outstanding pk - 1\<rparr>)\<rparr>)"
    using d(5) [OF w] pk by simp
  then show "a_wait_fork (s_activities s' ! p) = Some (pk\<lparr>wp_outstanding := wp_outstanding pk - 1\<rparr>)"
    by (simp add: act_view_def)
  have par: "b_parent (s_barriers s' ! i) = b_parent (s_barriers s ! i)" for i
    using a(2) b(4) d(3) by simp
  have "counts_for s' p (s_activities s' ! i) = (i \<noteq> c \<and> counts_for s p (s_activities s ! i))" for i
  proof (cases "i = p")
    case True
    have "counts_for s' p (s_activities s' ! p) = counts_for s p (s_activities s ! p)"
      using v3 v2 [of p] cp par by (simp add: act_view_def counts_pending pending_on_def)
    then show ?thesis
      using True cp by simp
  next
    case False
    then show ?thesis
      using d(4) [of i] v2 [of i] par by (simp add: act_view_def counts_pending pending_on_def split: if_splits)
  qed
  then show "live_children s' p = live_children s p - {c}"
    using \<open>length (s_activities s') = length (s_activities s)\<close> by (auto simp: live_children_def)
qed

text \<open>Children complete one after the other; the processes each completion makes ready.\<close>

fun complete_all :: "sched \<Rightarrow> nat list \<Rightarrow> (sched \<times> ready list list) option" where
  "complete_all s [] = Some (s, [])"
| "complete_all s (c # cs) =
     Option.bind (a_join_ref (s_activities s ! c))
       (\<lambda>j. Option.bind (on_child_complete_into s j c)
          (\<lambda>(s, rs). map_option (\<lambda>(s, rss). (s, rs # rss)) (complete_all s cs)))"

lemma complete_all_wakes:
  assumes "fork_inv none_owed none_owed s" "p < length (s_activities s)" "a_wait_fork (s_activities s ! p) = Some pk"
    and "distinct cs" "set cs = live_children s p"
  shows "\<exists>s' r. complete_all s cs = Some (s', replicate (length cs - 1) [] @ [[r]]) \<and>
    rd_proc r = p \<and> rd_block r = wp_resume_bb pk"
  using assms
proof (induction cs arbitrary: s pk)
  case Nil
  then have "parks_ok none_owed s"
    by (simp add: fork_inv_def)
  from parks_okD [OF this Nil(2,3)] show ?case
    using live_children_count [of s p] by (auto simp: none_owed_def Nil(5) [symmetric])
next
  case (Cons c cs)
  have "parks_ok none_owed s"
    using Cons.prems(1) by (simp add: fork_inv_def)
  from parks_okD [OF this Cons.prems(2,3)]
  have park: "wp_outstanding pk = card (live_children s p)" "\<not> unjoined s p"
    unfolding live_children_count by (simp_all add: none_owed_def)
  then have out: "wp_outstanding pk = Suc (length cs)"
    using Cons.prems(4,5) distinct_card [of "c # cs"] by simp
  obtain j where j: "a_join_ref (s_activities s ! c) = Some j" "pending_on j (s_activities s ! c)"
    "b_parent (s_barriers s ! j) = p" "c < length (s_activities s)" "\<not> a_dead (s_activities s ! c)"
    using Cons.prems(5) by (auto elim: live_children_ref)
  have refs: "refs_ok s"
    using Cons.prems(1) by (simp add: fork_inv_def)
  have "live_barrier s j"
    using refs j nth_mem [OF j(4)] unfolding refs_ok_def pending_on_def by (metis option.inject)
  then have fired: "b_fired (s_barriers s ! j)" and top: "\<not> a_is_child (s_activities s ! p)"
    using park(2) j(3) refs by (auto simp: unjoined_def refs_ok_def)
  have cp: "c \<noteq> p"
    using j(2) top by (auto simp: pending_on_def)
  obtain s1 rs where s1: "on_child_complete_into s j c = Some (s1, rs)" "fork_inv none_owed none_owed s1"
    and rs: "map (\<lambda>r. (rd_proc r, rd_block r)) rs = (if wp_outstanding pk = 1 then [(p, wp_resume_bb pk)] else [])"
    using complete_inv [OF Cons.prems(1) j(4,2,5)] fired Cons.prems(3) by (auto simp: join_wakes_def j(3))
  show ?case
  proof (cases cs)
    case Nil
    then show ?thesis
      using j(1) s1(1) rs out by auto
  next
    case (Cons c' cs')
    then have "1 < wp_outstanding pk"
      using out by simp
    note live = complete_live [OF s1(1) j(2,3) cp Cons.prems(3) this]
    have e: "rs = []"
      using rs \<open>1 < wp_outstanding pk\<close> by simp
    obtain s' r where "complete_all s1 cs = Some (s', replicate (length cs - 1) [] @ [[r]])"
      "rd_proc r = p" "rd_block r = wp_resume_bb pk"
      using Cons.IH [OF s1(2) _ live(2)] Cons.prems live(1,4) by auto
    then show ?thesis
      using j(1) s1(1) e Cons by simp
  qed
qed

section \<open>What the machinery promises\<close>

text \<open>C7: In every reachable state a recycled activity slot is free once and holds a child that has reported, a
  child that has not reported names a barrier in use, every barrier in use counts exactly the children that have
  still to report to it, and a process parked on \<open>wait fork\<close> counts exactly its live children, of
  which there is at least one.
\<close>

theorem fork_arenas_consistent:
  assumes "fork_reachable s" and "\<not> s_had_fatal s"
  shows "distinct (s_free_activities s) \<and> distinct (s_free_barriers s) \<and>
    (\<forall>i \<in> set (s_free_activities s). i < length (s_activities s) \<and>
       a_is_child (s_activities s ! i) \<and> a_reported (s_activities s ! i)) \<and>
    (\<forall>a \<in> set (s_activities s). a_is_child a \<and> \<not> a_reported a \<longrightarrow>
       (\<exists>j. a_join_ref a = Some j \<and> live_barrier s j)) \<and>
    (\<forall>j. live_barrier s j \<longrightarrow>
       b_outstanding (s_barriers s ! j) = length (filter (pending_on j) (s_activities s))) \<and>
    (\<forall>p pk. p < length (s_activities s) \<longrightarrow> a_wait_fork (s_activities s ! p) = Some pk \<longrightarrow>
       wp_outstanding pk = card (live_children s p) \<and> 0 < wp_outstanding pk)"
proof -
  have inv: "slots_ok s" "refs_ok s" "counts_ok none_owed s" "parks_ok none_owed s"
    using reachable_inv [OF assms(1)] assms(2) by (simp_all add: fork_inv_def)
  have w: "wp_outstanding pk = card (live_children s p) \<and> 0 < wp_outstanding pk"
    if "p < length (s_activities s)" "a_wait_fork (s_activities s ! p) = Some pk" for p pk
    using parks_okD [OF inv(4) that] unfolding live_children_count by (auto simp: none_owed_def)
  have "\<forall>j. live_barrier s j \<longrightarrow>
      b_outstanding (s_barriers s ! j) = length (filter (pending_on j) (s_activities s))"
    using inv(3) by (simp add: counts_ok_def none_owed_def)
  then show ?thesis
    using inv(1,2) w unfolding slots_ok_def refs_ok_def by blast
qed

text \<open>C14: A \<open>join\<close> that still blocks its parent resumes it exactly when the completing child is the
  last: while another child of the fork has to report nothing becomes ready, and the last completion makes the
  parent ready at the block after the fork.  A completion never panics.
\<close>

theorem join_resumes_after_last_child:
  assumes reach: "fork_reachable s" "\<not> s_had_fatal s"
    and c: "c < length (s_activities s)" "pending_on j (s_activities s ! c)" "\<not> a_dead (s_activities s ! c)"
    and all: "b_mode (s_barriers s ! j) = JoinAll" "\<not> b_fired (s_barriers s ! j)"
  shows "\<exists>s' rs. on_child_complete_into s j c = Some (s', rs) \<and> fork_reachable s' \<and>
    map (\<lambda>r. (rd_proc r, rd_block r)) rs =
      (if \<exists>i < length (s_activities s). i \<noteq> c \<and> pending_on j (s_activities s ! i) then []
       else [(b_parent (s_barriers s ! j), b_resume_bb (s_barriers s ! j))])"
proof -
  let ?b = "s_barriers s ! j" and ?acts = "s_activities s"
  have inv: "fork_inv none_owed none_owed s"
    using reachable_inv [OF reach(1)] reach(2) by blast
  then have refs: "refs_ok s" and cnt: "counts_ok none_owed s" and parks: "parks_ok none_owed s"
    by (simp_all add: fork_inv_def)
  have live: "live_barrier s j"
    using refs c(2) nth_mem [OF c(1)] unfolding refs_ok_def pending_on_def by (metis option.inject)
  then have "unjoined s (b_parent ?b)" "b_parent ?b < length ?acts"
    using all(2) refs by (auto simp: unjoined_def refs_ok_def)
  then have np: "a_wait_fork (?acts ! b_parent ?b) = None"
    using parks_okD [OF parks] by (cases "a_wait_fork (?acts ! b_parent ?b)") auto
  have "{i. i < length ?acts \<and> pending_on j (?acts ! i)} =
      insert c {i. i < length ?acts \<and> i \<noteq> c \<and> pending_on j (?acts ! i)}"
    using c by auto
  then have "length (filter (pending_on j) ?acts) = Suc (card {i. i < length ?acts \<and> i \<noteq> c \<and> pending_on j (?acts ! i)})"
    by (simp add: length_filter_conv_card)
  then have one: "b_outstanding ?b = 1 \<longleftrightarrow> \<not> (\<exists>i < length ?acts. i \<noteq> c \<and> pending_on j (?acts ! i))"
    using cnt live by (auto simp: counts_ok_def none_owed_def)
  obtain s' rs where r: "on_child_complete_into s j c = Some (s', rs)"
    and rs: "map (\<lambda>r. (rd_proc r, rd_block r)) rs = (if join_wakes ?b then [(b_parent ?b, b_resume_bb ?b)] else [])"
    using complete_inv [OF inv c] np by auto
  have "fork_step s s'"
    using c reach(2) by (intro step_complete [OF _ _ _ _ _ _ r]) (auto simp: pending_on_def)
  then show ?thesis
    using r rs reach(1) all one by (auto simp: join_wakes_def intro: reach_step)
qed

text \<open>C5: A process parked on \<open>wait fork\<close> is always woken, once: in whatever order its live children
  complete, none of the completions panics, none but the last makes a process ready, and the last makes exactly
  the waiting process ready, at the block after the \<open>wait fork\<close>.
\<close>

theorem wait_fork_wakes_once:
  assumes "fork_reachable s" and "\<not> s_had_fatal s"
    and "p < length (s_activities s)" and "a_wait_fork (s_activities s ! p) = Some pk"
    and "distinct cs" and "set cs = live_children s p"
  shows "\<exists>s' r. complete_all s cs = Some (s', replicate (length cs - 1) [] @ [[r]]) \<and>
    rd_proc r = p \<and> rd_block r = wp_resume_bb pk"
  using complete_all_wakes [OF _ assms(3-6)] reachable_inv [OF assms(1)] assms(2) by blast

text \<open>C25: \<open>disable fork\<close>, run by a top-level process or by a child, never panics and marks dead exactly
  the caller's live children: the caller, the children that have reported and every other process keep running.
\<close>

theorem disable_fork_kills_children:
  assumes reach: "fork_reachable s" "\<not> s_had_fatal s"
    and p: "set_cur_activity s p = Some s1" "a_is_child (s_activities s ! p) \<or> may_run s p"
  shows "\<exists>t. k_disable_fork s1 = Some t \<and> fork_reachable t \<and>
    s_activities t = map (\<lambda>a. if counts_for s p a then a\<lparr>a_dead := True\<rparr> else a) (s_activities s)"
proof -
  have inv: "fork_inv none_owed none_owed s"
    using reachable_inv [OF reach(1)] reach(2) by blast
  have cur: "s_activities s1 = s_activities s" "s_barriers s1 = s_barriers s" "same_arenas s s1" "s_cur_aid s1 = p"
    "p < length (s_activities s1)"
    using p(1) set_cur_same [OF p(1)] by (auto simp: set_cur_activity_def)
  have cf: "counts_for s1 p = counts_for s p"
    by (simp add: fun_eq_iff counts_pending cur)
  obtain t where t: "k_disable_fork s1 = Some t" "length (s_activities t) = length (s_activities s)"
    and n: "\<forall>i < length (s_activities s). s_activities t ! i =
      (if counts_for s p (s_activities s ! i) then (s_activities s ! i)\<lparr>a_dead := True\<rparr> else s_activities s ! i)"
    using disable_kills [OF same_arenas_inv [OF cur(3) inv] cur(4,5)] p(2) same_arenas_runs [OF cur(3)] cur(1,5)
    unfolding cf cur(1) by auto
  have "s_activities t = map (\<lambda>a. if counts_for s p a then a\<lparr>a_dead := True\<rparr> else a) (s_activities s)"
    by (rule nth_equalityI) (simp_all add: t n)
  moreover have "fork_step s t"
    using reach(2) p t(1) by (intro step_disable)
  ultimately show ?thesis
    using t(1) reach(1) by (blast intro: reach_step)
qed

section \<open>A sample run\<close>

definition fork_sample :: sched where
  "fork_sample =
     \<lparr>s_activities = [\<lparr>a_call_stack = [], a_template = 0, a_tie = 0, a_join_ref = None, a_is_child = False,
        a_reported = False, a_dead = False, a_wait_fork = None, a_busy = False, a_gen = 0,
        a_static_level_live = False, a_static_gen = 0\<rparr>],
      s_barriers = [], s_free_activities = [], s_free_barriers = [], s_next_seq = 0, s_cur_aid = 0, s_cur_gen = 0,
      s_fork_modes = [(0, 5) \<mapsto> JoinNone, (0, 6) \<mapsto> JoinAll], s_func_has_auto = [], s_window_rc = [],
      s_had_fatal = False\<rparr>"

definition fork_sample_none :: sched where
  "fork_sample_none = fst (the (exec_fork_into fork_sample 0 [10, 11] 5 7))"

definition fork_sample_all :: sched where
  "fork_sample_all = fst (the (exec_fork_into fork_sample 0 [10, 11] 6 7))"

definition fork_sample_wait :: sched where
  "fork_sample_wait = fst (the (exec_wait_fork fork_sample_none 0 9))"

lemmas fork_run_defs =
  exec_fork_into_def fork_arm_env_def fork_key_def place_barrier_def place_child_def spawn_child_def child_stack_def
  new_child_def resume_event_def take_seq_def upd_bar_def upd_act_def arena_get_def compose_child_tie_def

lemma fork_sample_none_eq:
  "exec_fork_into fork_sample 0 [10, 11] 5 7 = Some (fork_sample_none, Some 7, snd (snd (the (exec_fork_into fork_sample 0 [10, 11] 5 7))))"
  by (simp add: fork_sample_none_def fork_sample_def fork_run_defs)

lemma fork_sample_all_eq:
  "exec_fork_into fork_sample 0 [10, 11] 6 7 = Some (fork_sample_all, None, snd (snd (the (exec_fork_into fork_sample 0 [10, 11] 6 7))))"
  by (simp add: fork_sample_all_def fork_sample_def fork_run_defs)

lemma fork_sample_runs: "may_run fork_sample 0" "\<not> s_had_fatal fork_sample" "fork_start fork_sample"
  by (simp_all add: may_run_def unjoined_def live_barrier_def fork_sample_def fork_start_def)

lemma fork_sample_reach: "fork_reachable fork_sample_none" "fork_reachable fork_sample_all"
  using fork_sample_runs step_fork [OF _ _ fork_sample_none_eq] step_fork [OF _ _ fork_sample_all_eq]
  by (blast intro: reach_start reach_step)+

lemma fork_arenas_consistent_witness:
  "distinct (s_free_activities fork_sample_none) \<and> length (s_activities fork_sample_none) = 3"
  using fork_arenas_consistent [OF fork_sample_reach(1)]
  by (simp add: fork_sample_none_def fork_sample_def fork_run_defs)

lemma join_resumes_after_last_child_witness:
  "\<exists>s' rs. on_child_complete_into fork_sample_all 0 2 = Some (s', rs) \<and> fork_reachable s' \<and>
     map (\<lambda>r. (rd_proc r, rd_block r)) rs = []"
proof -
  have "\<exists>i < length (s_activities fork_sample_all). i \<noteq> 2 \<and> pending_on 0 (s_activities fork_sample_all ! i)"
    by (rule exI [of _ 1]) (simp add: fork_sample_all_def fork_sample_def fork_run_defs pending_on_def)
  moreover have "\<not> s_had_fatal fork_sample_all" "2 < length (s_activities fork_sample_all)"
    "pending_on 0 (s_activities fork_sample_all ! 2)" "\<not> a_dead (s_activities fork_sample_all ! 2)"
    "b_mode (s_barriers fork_sample_all ! 0) = JoinAll" "\<not> b_fired (s_barriers fork_sample_all ! 0)"
    by (simp_all add: fork_sample_all_def fork_sample_def fork_run_defs pending_on_def)
  ultimately show ?thesis
    using join_resumes_after_last_child [OF fork_sample_reach(2), of 2 0] by simp
qed

lemma fork_sample_none_run: "\<not> s_had_fatal fork_sample_none" "may_run fork_sample_none 0"
proof -
  show "\<not> s_had_fatal fork_sample_none"
    by (simp add: fork_sample_none_def fork_sample_def fork_run_defs)
  show "may_run fork_sample_none 0"
    by (simp add: fork_sample_none_def fork_sample_def fork_run_defs may_run_def unjoined_def live_barrier_def)
qed

lemma fork_sample_wait_eq: "exec_wait_fork fork_sample_none 0 9 = Some (fork_sample_wait, False)"
  by (simp add: fork_sample_wait_def exec_wait_fork_def fork_sample_none_def fork_sample_def fork_run_defs
      refs_in_range_def counts_for_def)

lemma fork_sample_wait_reach: "fork_reachable fork_sample_wait"
  using step_wait [OF fork_sample_none_run fork_sample_wait_eq] fork_sample_reach(1) by (rule reach_step [rotated])

lemma wait_fork_wakes_once_witness:
  "\<exists>s' r. complete_all fork_sample_wait [2, 1] = Some (s', [[], [r]]) \<and> rd_proc r = 0 \<and> rd_block r = 9"
proof -
  have "set [2, 1] = live_children fork_sample_wait 0"
    by (auto simp: live_children_def fork_sample_wait_def exec_wait_fork_def fork_sample_none_def fork_sample_def
        fork_run_defs refs_in_range_def counts_for_def less_Suc_eq numeral_2_eq_2)
  moreover have "\<not> s_had_fatal fork_sample_wait" "0 < length (s_activities fork_sample_wait)"
    "a_wait_fork (s_activities fork_sample_wait ! 0) = Some \<lparr>wp_resume_bb = 9, wp_outstanding = 2\<rparr>"
    by (simp_all add: fork_sample_wait_def exec_wait_fork_def fork_sample_none_def fork_sample_def fork_run_defs
        refs_in_range_def counts_for_def)
  ultimately show ?thesis
    using wait_fork_wakes_once [OF fork_sample_wait_reach, of 0 "\<lparr>wp_resume_bb = 9, wp_outstanding = 2\<rparr>" "[2, 1]"]
    by simp
qed

lemma disable_fork_kills_children_witness:
  "\<exists>s1 t. set_cur_activity fork_sample_none 0 = Some s1 \<and> k_disable_fork s1 = Some t \<and>
     map a_dead (s_activities t) = [False, True, True]"
proof -
  obtain s1 where s1: "set_cur_activity fork_sample_none 0 = Some s1"
    by (simp add: set_cur_activity_def fork_sample_none_def fork_sample_def fork_run_defs)
  have "map a_dead (map (\<lambda>a. if counts_for fork_sample_none 0 a then a\<lparr>a_dead := True\<rparr> else a)
      (s_activities fork_sample_none)) = [False, True, True]"
    by (simp add: fork_sample_none_def fork_sample_def fork_run_defs counts_for_def)
  then show ?thesis
    using disable_fork_kills_children [OF fork_sample_reach(1) fork_sample_none_run(1) s1] fork_sample_none_run(2) s1
    by metis
qed

end
