(* ===== verification/EvalMonad.thy ===== *)
theory EvalMonad
  imports Main
begin

text \<open>
  The monad of the evaluator: state passing with failure.  \<open>None\<close> is a panic of the code or an exhausted
  stack.  The state is threaded in the order in which the code performs its reads.
\<close>

type_synonym ('s, 'a) ev = "'s \<Rightarrow> ('a \<times> 's) option"

definition ev_ret :: "'a \<Rightarrow> ('s, 'a) ev" where
  "ev_ret a = (\<lambda>s. Some (a, s))"

definition ev_bind :: "('s, 'a) ev \<Rightarrow> ('a \<Rightarrow> ('s, 'b) ev) \<Rightarrow> ('s, 'b) ev" where
  "ev_bind m f = (\<lambda>s. case m s of None \<Rightarrow> None | Some (a, s') \<Rightarrow> f a s')"

definition ev_opt :: "'a option \<Rightarrow> ('s, 'a) ev" where
  "ev_opt x = (\<lambda>s. map_option (\<lambda>a. (a, s)) x)"

definition ev_get :: "('s \<Rightarrow> 'a) \<Rightarrow> ('s, 'a) ev" where
  "ev_get f = (\<lambda>s. Some (f s, s))"

definition ev_map :: "('a \<Rightarrow> 'b) \<Rightarrow> ('s, 'a) ev \<Rightarrow> ('s, 'b) ev" where
  "ev_map f m = ev_bind m (\<lambda>a. ev_ret (f a))"

text \<open>A list of computations, first to last.\<close>

fun ev_seq :: "('s, 'a) ev list \<Rightarrow> ('s, 'a list) ev" where
  "ev_seq [] = ev_ret []"
| "ev_seq (m # ms) = ev_bind m (\<lambda>a. ev_map (\<lambda>as. a # as) (ev_seq ms))"

text \<open>A computation on an optional argument; \<open>None\<close> performs nothing.\<close>

definition ev_option :: "('a \<Rightarrow> ('s, 'b) ev) \<Rightarrow> 'a option \<Rightarrow> ('s, 'b option) ev" where
  "ev_option f x = (case x of None \<Rightarrow> ev_ret None | Some a \<Rightarrow> ev_map Some (f a))"

section \<open>What a computation guarantees\<close>

text \<open>From a state of \<open>I\<close> the computation returns, with a value of \<open>Q\<close>, in a state of \<open>I\<close>.\<close>

definition ev_total :: "('s \<Rightarrow> bool) \<Rightarrow> ('s, 'a) ev \<Rightarrow> ('a \<Rightarrow> bool) \<Rightarrow> bool" where
  "ev_total I m Q \<longleftrightarrow> (\<forall>s. I s \<longrightarrow> (\<exists>a s'. m s = Some (a, s') \<and> Q a \<and> I s'))"

named_theorems ev_total_rules \<open>guarantees of the composed computations\<close>

lemma ev_total_ret [ev_total_rules]: "Q a \<Longrightarrow> ev_total I (ev_ret a) Q"
  by (simp add: ev_total_def ev_ret_def)

lemma ev_total_get: "(\<And>s. I s \<Longrightarrow> Q (f s)) \<Longrightarrow> ev_total I (ev_get f) Q"
  by (simp add: ev_total_def ev_get_def)

lemma ev_total_opt: "x = Some a \<Longrightarrow> Q a \<Longrightarrow> ev_total I (ev_opt x) Q"
  by (simp add: ev_total_def ev_opt_def)

lemma ev_total_opt_ex: "\<exists>a. x = Some a \<and> Q a \<Longrightarrow> ev_total I (ev_opt x) Q"
  by (auto simp: ev_total_def ev_opt_def)

lemma ev_total_bind:
  assumes "ev_total I m P" and "\<And>a. P a \<Longrightarrow> ev_total I (f a) Q"
  shows "ev_total I (ev_bind m f) Q"
  unfolding ev_total_def ev_bind_def
proof (intro allI impI)
  fix s assume "I s"
  then obtain a s' where "m s = Some (a, s')" "P a" "I s'"
    using assms(1) by (auto simp: ev_total_def)
  then show "\<exists>b t. (case m s of None \<Rightarrow> None | Some (a, s') \<Rightarrow> f a s') = Some (b, t) \<and> Q b \<and> I t"
    using assms(2) by (auto simp: ev_total_def)
qed

lemma ev_total_map: "ev_total I m P \<Longrightarrow> (\<And>a. P a \<Longrightarrow> Q (f a)) \<Longrightarrow> ev_total I (ev_map f m) Q"
  unfolding ev_map_def by (rule ev_total_bind [of I m P]) (auto intro: ev_total_ret)

lemma ev_total_weaken: "ev_total I m P \<Longrightarrow> (\<And>a. P a \<Longrightarrow> Q a) \<Longrightarrow> ev_total I m Q"
  unfolding ev_total_def by blast

lemma ev_total_seq:
  "list_all (\<lambda>m. ev_total I m Q) ms \<Longrightarrow> ev_total I (ev_seq ms) (\<lambda>vs. length vs = length ms \<and> list_all Q vs)"
proof (induction ms)
  case Nil
  then show ?case by (simp add: ev_total_ret)
next
  case (Cons m ms)
  have "ev_total I (ev_bind m (\<lambda>a. ev_map (\<lambda>as. a # as) (ev_seq ms)))
      (\<lambda>vs. length vs = Suc (length ms) \<and> list_all Q vs)"
  proof (rule ev_total_bind)
    show "ev_total I m Q" using Cons.prems by simp
    fix a assume "Q a"
    then show "ev_total I (ev_map (\<lambda>as. a # as) (ev_seq ms)) (\<lambda>vs. length vs = Suc (length ms) \<and> list_all Q vs)"
      using Cons by (intro ev_total_map [of I _ "\<lambda>vs. length vs = length ms \<and> list_all Q vs"]) auto
  qed
  then show ?case by simp
qed

lemma ev_total_seq2:
  assumes "list_all2 (\<lambda>m q. ev_total I m (\<lambda>v. R q v)) ms qs"
  shows "ev_total I (ev_seq ms) (\<lambda>vs. list_all2 R qs vs)"
  using assms
proof (induction rule: list_all2_induct)
  case Nil
  then show ?case by (simp add: ev_total_ret)
next
  case (Cons m ms q qs)
  have "ev_total I (ev_bind m (\<lambda>a. ev_map (\<lambda>as. a # as) (ev_seq ms))) (list_all2 R (q # qs))"
    using Cons by (auto intro!: ev_total_bind [of I m "R q"] ev_total_map [of I _ "list_all2 R qs"])
  then show ?case by simp
qed

lemma ev_total_option:
  assumes "\<And>a. x = Some a \<Longrightarrow> ev_total I (f a) P" and "\<And>b. P b \<Longrightarrow> Q (Some b)" and "x = None \<Longrightarrow> Q None"
  shows "ev_total I (ev_option f x) Q"
  using assms by (cases x) (auto simp: ev_option_def intro: ev_total_ret ev_total_map)

text \<open>A computation that returned.\<close>

lemma ev_bind_Some: "ev_bind m f s = Some (b, s'') \<longleftrightarrow> (\<exists>a s'. m s = Some (a, s') \<and> f a s' = Some (b, s''))"
  by (auto simp: ev_bind_def split: option.splits)

lemma ev_bind_run: "m s = Some (a, s') \<Longrightarrow> ev_bind m f s = f a s'"
  by (simp add: ev_bind_def)

lemma ev_map_run: "m s = Some (a, s') \<Longrightarrow> ev_map f m s = Some (f a, s')"
  by (simp add: ev_map_def ev_bind_def ev_ret_def)

end
