(* ===== verification/OpsUnary.thy ===== *)
theory OpsUnary
  imports OpsBits CompareCorrect
begin

text \<open>
  Bitwise operators, negation, complement, reductions and shifts of \<open>crates/sim-engine/src/eval/eval_core.rs\<close>
  and \<open>eval/binops.rs\<close>.  The bitwise loop is proved against the interface \<open>word_op\<close> once, so the four
  operators share one lemma; the one-word and the multi-word reductions are proved to be the fold of the same
  4-state table over the bits of the operand.
\<close>

section \<open>Bitwise operators\<close>

text \<open>The words the loop writes; the words above them stay 0.  \<open>None\<close> is an index past an operand's planes.\<close>

definition put_words :: "nat \<Rightarrow> (nat \<Rightarrow> u64 \<times> u64) \<Rightarrow> sim_value \<Rightarrow> sim_value" where
  "put_words w f out =
     (let n = v_nwords w
      in out\<lparr>v_val := map (\<lambda>k. fst (f k) AND v_low_mask (w - 64 * k)) [0..<n] @ drop n (v_val out),
             v_unk := map (\<lambda>k. snd (f k) AND v_low_mask (w - 64 * k)) [0..<n] @ drop n (v_unk out)\<rparr>)"

definition bitwise ::
  "(u64 \<Rightarrow> u64 \<Rightarrow> u64 \<Rightarrow> u64 \<Rightarrow> u64 \<times> u64) \<Rightarrow> sim_value \<Rightarrow> sim_value \<Rightarrow> sim_value option" where
  "bitwise f l r =
     (let w = max (v_width l) (v_width r);
          both_signed = (v_signed l \<and> v_signed r);
          le = resize_keep_sign l w both_signed;
          re = resize_keep_sign r w both_signed;
          out = zeros w both_signed
      in if v_nwords w \<le> length (v_val le) \<and> v_nwords w \<le> length (v_unk le) \<and>
            v_nwords w \<le> length (v_val re) \<and> v_nwords w \<le> length (v_unk re)
         then Some (put_words w (\<lambda>k. f (v_val le ! k) (v_unk le ! k) (v_val re ! k) (v_unk re ! k)) out)
         else None)"

definition bit_not :: "sim_value \<Rightarrow> bool \<Rightarrow> sim_value option" where
  "bit_not a eff_signed =
     (if v_nwords (v_width a) \<le> length (v_val a) \<and> v_nwords (v_width a) \<le> length (v_unk a)
      then Some (put_words (v_width a) (\<lambda>k. not_w (v_val a ! k) (v_unk a ! k)) (zeros (v_width a) eff_signed))
      else None)"

lemma bit_low_mask: "bit (v_low_mask w) i \<longleftrightarrow> i < 64 \<and> i < w"
proof (cases "64 \<le> w")
  case True
  then show ?thesis by (auto simp: v_low_mask_def)
next
  case False
  then have "v_low_mask w = mask w"
    by (simp add: v_low_mask_def mask_eq_exp_minus_1)
  then show ?thesis
    using False by (auto simp: bit_mask_iff)
qed

lemma put_words_bits:
  fixes f :: "nat \<Rightarrow> u64 \<times> u64"
  assumes "out = zeros w s"
  shows "vec_ok (put_words w f out)" and "v_width (put_words w f out) = w" and "v_signed (put_words w f out) = s"
    and "\<not> v_str (put_words w f out)"
    and "i < w \<Longrightarrow> vbit (put_words w f out) i = lane (f (i div 64)) (i mod 64)"
proof -
  let ?v = "put_words w f out" and ?n = "v_nwords w"
  define row where "row g = map (\<lambda>k. g (f k) AND v_low_mask (w - 64 * k)) [0..<?n] @ drop ?n (replicate (nw1 w) 0)"
    for g :: "u64 \<times> u64 \<Rightarrow> u64"
  have v: "v_val ?v = row fst" "v_unk ?v = row snd"
    by (simp_all add: put_words_def Let_def row_def assms)
  have nw: "nw1 w = max ?n 1"
    by (simp add: nw1_def)
  have len: "length (row g) = nw1 w" for g
    by (simp add: row_def nw)
  have at: "pbit (row g) i \<longleftrightarrow> i < w \<and> bit (g (f (i div 64))) (i mod 64)" for g i
  proof (cases "i div 64 < ?n")
    case True
    then have "wget (row g) (i div 64) = g (f (i div 64)) AND v_low_mask (w - 64 * (i div 64))"
      by (simp add: wget_in len nw row_def nth_append)
    moreover have "i mod 64 < w - 64 * (i div 64) \<longleftrightarrow> i < w"
      using mult_div_mod_eq [of 64 i] by linarith
    ultimately show ?thesis
      by (auto simp: pbit_def bit_and_iff bit_low_mask)
  next
    case False
    then have "wget (row g) (i div 64) = 0"
      by (cases "i div 64 < nw1 w") (auto simp: wget_in wget_out len nw row_def nth_append max_def split: if_splits)
    moreover have "\<not> i < w"
      using False by (simp add: v_nwords_def)
    ultimately show ?thesis
      by (simp add: pbit_def)
  qed
  have "\<not> v_real ?v" "v_width ?v = w"
    by (simp_all add: put_words_def Let_def assms)
  then show "vec_ok ?v"
    using at len by (simp add: vec_ok_def plane_ok_iff v)
  show "v_width ?v = w" "v_signed ?v = s" "\<not> v_str ?v"
    by (simp_all add: put_words_def Let_def assms)
  show "vbit ?v i = lane (f (i div 64)) (i mod 64)" if "i < w"
    using that by (simp add: vbit_def v at lane_def)
qed

text \<open>Bit \<open>i\<close> of a result word by word is the lane of word \<open>i div 64\<close>, on operands of that many words.\<close>

lemma lane_words:
  assumes "vec_ok v" and "v_width v = w" and "i < w"
  shows "lane (v_val v ! (i div 64), v_unk v ! (i div 64)) (i mod 64) = vbit v i"
proof -
  have "i div 64 < length (v_val v)" "i div 64 < length (v_unk v)"
    using assms nw1_less [of i w] by (simp_all add: vec_ok_def plane_ok_iff)
  then show ?thesis
    by (simp add: lane_def vbit_def pbit_def wget_in)
qed

lemma vec_words: "vec_ok v \<Longrightarrow> v_width v = w \<Longrightarrow> v_nwords w \<le> length (v_val v) \<and> v_nwords w \<le> length (v_unk v)"
  by (simp add: vec_ok_def plane_ok_iff nw1_def)

context word_op
begin

lemma bitwise_lanes:
  assumes ok: "val_ok l" "val_ok r" and ns: "\<not> v_str l" "\<not> v_str r"
  defines "w \<equiv> max (v_width l) (v_width r)" and "c \<equiv> v_signed l \<and> v_signed r"
  shows "\<exists>v. bitwise f l r = Some v \<and> vec_ok v \<and> v_width v = w \<and> v_signed v = c \<and> \<not> v_str v \<and>
    (\<forall>i<w. vbit v i = g (ext_bit w c l i) (ext_bit w c r i))"
proof -
  define le re where "le = resize_keep_sign l w c" and "re = resize_keep_sign r w c"
  let ?F = "\<lambda>k. f (v_val le ! k) (v_unk le ! k) (v_val re ! k) (v_unk re ! k)"
  have le: "vec_ok le" "v_width le = w" and re: "vec_ok re" "v_width re = w"
    using ok ns by (simp_all add: le_def re_def val_ok_def)
  have eq: "bitwise f l r = Some (put_words w ?F (zeros w c))"
    using vec_words [OF le] vec_words [OF re]
    by (simp only: bitwise_def Let_def simp_thms if_True flip: w_def c_def le_def re_def)
  note b = put_words_bits [OF refl, where w = w and s = c and f = ?F]
  have "vbit (put_words w ?F (zeros w c)) i = g (ext_bit w c l i) (ext_bit w c r i)" if "i < w" for i
  proof -
    have "vbit le i = ext_bit w c l i" "vbit re i = ext_bit w c r i"
      using ok by (simp_all add: le_def re_def vbit_rks w_def)
    then show ?thesis
      using b(5) [OF that] lane_words [OF le that] lane_words [OF re that] by (simp add: lane_f)
  qed
  then show ?thesis
    using eq b by blast
qed

end

lemma bit_not_lanes:
  assumes "vec_ok a"
  shows "\<exists>v. bit_not a s = Some v \<and> vec_ok v \<and> v_width v = v_width a \<and> v_signed v = s \<and> \<not> v_str v \<and>
    (\<forall>i<v_width a. vbit v i = not4 (vbit a i))"
proof -
  let ?F = "\<lambda>k. not_w (v_val a ! k) (v_unk a ! k)"
  note b = put_words_bits [OF refl, where w = "v_width a" and s = s and f = ?F]
  have "bit_not a s = Some (put_words (v_width a) ?F (zeros (v_width a) s))"
    using vec_words [OF assms refl] by (simp add: bit_not_def)
  moreover have "vbit (put_words (v_width a) ?F (zeros (v_width a) s)) i = not4 (vbit a i)" if "i < v_width a" for i
    using b(5) [OF that] lane_words [OF assms refl that] by (simp add: lane_simps)
  ultimately show ?thesis
    using b by blast
qed

section \<open>Negation\<close>

text \<open>Two's complement word by word with the carry, over the planes zero-extended to the width.\<close>

definition negate :: "sim_value \<Rightarrow> sim_value" where
  "negate a =
     (if v_real a then from_f64 (f64_neg (to_f64_or_0 a))
      else if has_xz a then all_x (v_width a) (v_signed a)
      else mask_top ((zeros (v_width a) (v_signed a))
             \<lparr>v_val := mw_neg_go 1 (map (wget (v_val a)) [0..<nw1 (v_width a)])\<rparr>))"

lemma negate_int:
  assumes "vec_ok a" and "\<not> has_xz a"
  shows "holds_int (negate a) (v_width a) (v_signed a) (- vint a)"
proof -
  let ?w = "v_width a" and ?n = "64 * length (v_val a)"
  have ok: "plane_ok ?w (v_val a)" and r: "\<not> v_real a"
    using assms(1) by (simp_all add: vec_ok_def)
  have len: "length (v_val a) = nw1 ?w"
    using ok by (simp add: plane_ok_iff)
  have copy: "map (wget (v_val a)) [0..<nw1 ?w] = v_val a"
    by (rule nth_equalityI) (simp_all add: len wget_in)
  have "?w \<le> ?n"
    using nw1_bounds(2) [of ?w] len by simp
  then have d: "(2 :: int) ^ ?w dvd 2 ^ ?n"
    by (rule le_imp_power_dvd)
  have b: "wval (v_val a) \<le> 2 ^ ?n"
    using wval_bound [of "v_val a"] by (rule less_imp_le)
  have "int (wval (mw_neg (v_val a))) mod 2 ^ ?w = (2 ^ ?n - int (wval (v_val a))) mod 2 ^ ?n mod 2 ^ ?w"
    using b by (simp add: wval_mw_neg zmod_int of_nat_diff)
  also have "\<dots> = (2 ^ ?n - int (wval (v_val a))) mod 2 ^ ?w"
    using d by (rule mod_mod_cancel)
  also have "\<dots> = (- int (wval (v_val a))) mod 2 ^ ?w"
    using d by (metis (no_types, lifting) add.commute diff_0 diff_conv_add_uminus dvd_imp_mod_0 mod_diff_left_eq)
  also have "\<dots> = (- vint a) mod 2 ^ ?w"
    unfolding vint_def using pint_mod [of ?w "v_signed a" "v_val a"] by (metis mod_minus_eq)
  finally have "holds_int (mask_top ((zeros ?w (v_signed a))\<lparr>v_val := mw_neg (v_val a)\<rparr>)) ?w (v_signed a) (- vint a)"
    by (intro holds_masked) (simp_all add: len)
  then show ?thesis
    using assms(2) r by (simp add: negate_def copy mw_neg_def)
qed

section \<open>Reductions\<close>

datatype red_kind = RKAnd | RKOr | RKXor

record red_facts =
  rf_unknown :: bool
  rf_known0 :: bool
  rf_ones :: nat

definition pop_count :: "u64 \<Rightarrow> nat" where
  "pop_count x = length (filter (bit x) [0..<64])"

definition absorb :: "red_facts \<Rightarrow> u64 \<Rightarrow> u64 \<Rightarrow> u64 \<Rightarrow> red_facts" where
  "absorb f val unk m =
     (let av = val AND m;
          au = unk AND m;
          known1 = NOT au AND av;
          known0 = NOT au AND NOT av AND m
      in \<lparr>rf_unknown = (rf_unknown f \<or> au \<noteq> 0), rf_known0 = (rf_known0 f \<or> known0 \<noteq> 0),
          rf_ones = rf_ones f + pop_count known1\<rparr>)"

definition no_facts :: red_facts where
  "no_facts = \<lparr>rf_unknown = False, rf_known0 = False, rf_ones = 0\<rparr>"

definition reduce_verdict :: "red_kind \<Rightarrow> red_facts \<Rightarrow> u64 \<times> u64" where
  "reduce_verdict kind f =
     (case kind of
        RKAnd \<Rightarrow> (if rf_known0 f then (0, 0) else if rf_unknown f then (0, 1) else (1, 0))
      | RKOr \<Rightarrow> (if 0 < rf_ones f then (1, 0) else if rf_unknown f then (0, 1) else (0, 0))
      | RKXor \<Rightarrow> (if rf_unknown f then (0, 1) else (of_nat (rf_ones f mod 2), 0)))"

definition reduce_planes :: "u64 \<Rightarrow> u64 \<Rightarrow> u64 \<Rightarrow> red_kind \<Rightarrow> u64 \<times> u64" where
  "reduce_planes val unk m kind = reduce_verdict kind (absorb no_facts val unk m)"

definition reduce_word :: "sim_value \<Rightarrow> red_kind \<Rightarrow> u64 \<times> u64" where
  "reduce_word a kind =
     (if v_width a = 0 then (0, 0)
      else reduce_verdict kind
             (fold (\<lambda>k f. absorb f (wget (v_val a) k) (wget (v_unk a) k) (v_low_mask (v_width a - 64 * k)))
                [0..<v_nwords (v_width a)] no_facts))"

text \<open>\<open>None\<close> is the \<open>unreachable!\<close> of an operator outside the one-bit family.\<close>

definition unary1_word :: "un_op \<Rightarrow> u64 \<Rightarrow> u64 \<Rightarrow> u64 \<Rightarrow> (u64 \<times> u64) option" where
  "unary1_word op val unk m =
     (case op of
        LogNot \<Rightarrow> Some (case truthiness_word val unk m of
                            TriTrue \<Rightarrow> (0, 0) | TriFalse \<Rightarrow> (1, 0) | TriUnknown \<Rightarrow> (0, 1))
      | RedAnd \<Rightarrow> Some (reduce_planes val unk m RKAnd)
      | RedNand \<Rightarrow> Some (not1 (reduce_planes val unk m RKAnd))
      | RedOr \<Rightarrow> Some (reduce_planes val unk m RKOr)
      | RedNor \<Rightarrow> Some (not1 (reduce_planes val unk m RKOr))
      | RedXor \<Rightarrow> Some (reduce_planes val unk m RKXor)
      | RedXnor \<Rightarrow> Some (not1 (reduce_planes val unk m RKXor))
      | _ \<Rightarrow> None)"

definition reduce_bit :: "sim_value \<Rightarrow> red_kind \<Rightarrow> bool \<Rightarrow> sim_value" where
  "reduce_bit a kind neg = (let p = reduce_word a kind in tri_bit (if neg then not1 p else p))"

definition unary_self_of :: "un_op \<Rightarrow> sim_value \<Rightarrow> sim_value option" where
  "unary_self_of op a =
     (if \<not> v_real a \<and> 1 \<le> v_width a \<and> v_width a \<le> 64
      then map_option tri_bit (unary1_word op (wget (v_val a) 0) (wget (v_unk a) 0) (v_low_mask (v_width a)))
      else (case op of
              LogNot \<Rightarrow> Some (case truthiness a of
                                TriTrue \<Rightarrow> zeros 1 False | TriFalse \<Rightarrow> one1 | TriUnknown \<Rightarrow> x1)
            | RedAnd \<Rightarrow> Some (reduce_bit a RKAnd False)
            | RedNand \<Rightarrow> Some (reduce_bit a RKAnd True)
            | RedOr \<Rightarrow> Some (reduce_bit a RKOr False)
            | RedNor \<Rightarrow> Some (reduce_bit a RKOr True)
            | RedXor \<Rightarrow> Some (reduce_bit a RKXor False)
            | RedXnor \<Rightarrow> Some (reduce_bit a RKXor True)
            | _ \<Rightarrow> None))"

text \<open>What the facts say of a list of bits, and the fold of a table over it.\<close>

definition facts_of :: "logic4 list \<Rightarrow> red_facts" where
  "facts_of bs = \<lparr>rf_unknown = list_ex l4_u bs, rf_known0 = (L0 \<in> set bs), rf_ones = length (filter (\<lambda>b. b = L1) bs)\<rparr>"

definition red4 :: "red_kind \<Rightarrow> logic4 list \<Rightarrow> logic4" where
  "red4 kind bs = (case kind of RKAnd \<Rightarrow> foldr and4 bs L1 | RKOr \<Rightarrow> foldr or4 bs L0 | RKXor \<Rightarrow> foldr xor4 bs L0)"

lemma red_folds:
  "foldr and4 bs L1 = (if L0 \<in> set bs then L0 else if list_ex l4_u bs then LX else L1)"
  "foldr or4 bs L0 = (if L1 \<in> set bs then L1 else if list_ex l4_u bs then LX else L0)"
  "foldr xor4 bs L0 =
     (if list_ex l4_u bs then LX else if odd (length (filter (\<lambda>b. b = L1) bs)) then L1 else L0)"
proof (induction bs)
  case (Cons b bs)
  have u: "l4_u LX" "l4_u LZ" "\<not> l4_u L0" "\<not> l4_u L1"
    by (simp_all add: l4_u_def)
  case 1
  show ?case using Cons(1) and4_def [of b "foldr and4 bs L1"] by (cases b) (auto simp: u)
  case 2
  show ?case using Cons(2) or4_def [of b "foldr or4 bs L0"] by (cases b) (auto simp: u)
  case 3
  show ?case using Cons(3) xor4_def [of b "foldr xor4 bs L0"] by (cases b) (auto simp: u)
qed simp_all

lemma verdict_red4: "reduce_verdict kind (facts_of bs) = pair1 (red4 kind bs)"
proof -
  have "0 < length (filter (\<lambda>b. b = L1) bs) \<longleftrightarrow> L1 \<in> set bs"
    by (auto simp: filter_empty_conv)
  then show ?thesis
    by (cases kind) (simp_all add: reduce_verdict_def facts_of_def red4_def red_folds pair1_def l4_v_def l4_u_def
        mod2_eq_if)
qed

text \<open>One word adds the facts of its masked bits.\<close>

lemma absorb_word:
  assumes "m \<le> 64"
  shows "absorb (facts_of bs) val unk (v_low_mask m) = facts_of (bs @ map (\<lambda>j. lane (val, unk) j) [0..<m])"
proof -
  let ?m = "v_low_mask m" and ?new = "map (\<lambda>j. lane (val, unk) j) [0..<m]"
  have b: "bit ?m j \<longleftrightarrow> j < m" for j
    using assms by (auto simp: bit_low_mask)
  have below: "(\<exists>j<64. j < m \<and> P j) \<longleftrightarrow> (\<exists>j<m. P j)" for P
    using assms by (meson less_le_trans)
  have u: "unk AND ?m \<noteq> 0 \<longleftrightarrow> list_ex l4_u ?new"
    using below [of "bit unk"] by (auto simp: word_nonzero_iff bit_and_iff b list_ex_iff lane_def)
  have z: "NOT (unk AND ?m) AND NOT (val AND ?m) AND ?m \<noteq> 0 \<longleftrightarrow> L0 \<in> set ?new"
  proof -
    have "bit (NOT (unk AND ?m) AND NOT (val AND ?m) AND ?m) j \<longleftrightarrow> j < m \<and> \<not> bit unk j \<and> \<not> bit val j" for j
      using assms by (auto simp: bit_simps b)
    then have "NOT (unk AND ?m) AND NOT (val AND ?m) AND ?m \<noteq> 0 \<longleftrightarrow> (\<exists>j<m. \<not> bit unk j \<and> \<not> bit val j)"
      using below [of "\<lambda>j. \<not> bit unk j \<and> \<not> bit val j"] by (simp only: word_nonzero_iff)
    then show ?thesis
      by (auto simp: lane_def l4_def image_iff)
  qed
  have "filter (bit (NOT (unk AND ?m) AND (val AND ?m))) [0..<64] = filter (\<lambda>j. lane (val, unk) j = L1) [0..<m]"
  proof -
    have split: "[0..<64] = [0..<m] @ [m..<64]"
      using assms by (metis le_add_diff_inverse upt_add_eq_append zero_le)
    have "bit (NOT (unk AND ?m) AND (val AND ?m)) j \<longleftrightarrow> j < m \<and> lane (val, unk) j = L1" if "j < 64" for j
      using that by (auto simp: bit_simps b lane_def l4_def)
    then have "filter (bit (NOT (unk AND ?m) AND (val AND ?m))) [0..<64] =
        filter (\<lambda>j. j < m \<and> lane (val, unk) j = L1) [0..<64]"
      by (intro filter_cong) auto
    also have "\<dots> = filter (\<lambda>j. lane (val, unk) j = L1) [0..<m]"
      unfolding split filter_append by (auto simp: filter_empty_conv intro!: filter_cong)
    finally show ?thesis .
  qed
  then have o: "pop_count (NOT (unk AND ?m) AND (val AND ?m)) = length (filter (\<lambda>b. b = L1) ?new)"
    by (simp add: pop_count_def filter_map o_def)
  show ?thesis
    using u z o by (simp add: absorb_def Let_def facts_of_def)
qed

definition vbits :: "sim_value \<Rightarrow> logic4 list" where
  "vbits a = map (vbit a) [0..<v_width a]"

lemma absorb_words:
  assumes "vec_ok a" and "n \<le> v_nwords (v_width a)"
  shows "fold (\<lambda>k f. absorb f (wget (v_val a) k) (wget (v_unk a) k) (v_low_mask (v_width a - 64 * k))) [0..<n] no_facts
    = facts_of (map (vbit a) [0..<min (64 * n) (v_width a)])"
  using assms(2)
proof (induction n)
  case 0
  then show ?case by (simp add: no_facts_def facts_of_def)
next
  case (Suc n)
  let ?w = "v_width a" and ?m = "min 64 (v_width a - 64 * n)"
  have lt: "64 * n < ?w"
    using Suc.prems by (simp add: v_nwords_def)
  have mask: "v_low_mask (?w - 64 * n) = v_low_mask ?m"
    by (cases "64 \<le> ?w - 64 * n") (simp_all add: v_low_mask_def min_def)
  have lanes: "map (\<lambda>j. lane (wget (v_val a) n, wget (v_unk a) n) j) [0..<?m] = map (vbit a) [64 * n..<64 * n + ?m]"
    by (rule nth_equalityI) (simp_all add: lane_def vbit_def pbit_def)
  have "min (64 * Suc n) ?w = 64 * n + ?m" "min (64 * n) ?w = 64 * n"
    using lt by auto
  then show ?case
    using Suc absorb_word [of ?m "map (vbit a) [0..<64 * n]" "wget (v_val a) n" "wget (v_unk a) n"]
    by (simp add: mask lanes flip: map_append upt_add_eq_append)
qed

lemma reduce_word_bits:
  assumes "vec_ok a" and "1 \<le> v_width a"
  shows "reduce_word a kind = pair1 (red4 kind (vbits a))"
proof -
  have "min (64 * v_nwords (v_width a)) (v_width a) = v_width a"
    by (simp add: v_nwords_def)
  then show ?thesis
    using assms absorb_words [OF assms(1) order_refl] by (simp add: reduce_word_def vbits_def verdict_red4)
qed

lemma reduce_planes_bits:
  assumes "vec_ok a" and "1 \<le> v_width a" and "v_width a \<le> 64"
  shows "reduce_planes (wget (v_val a) 0) (wget (v_unk a) 0) (v_low_mask (v_width a)) kind = pair1 (red4 kind (vbits a))"
proof -
  have "v_nwords (v_width a) = 1"
    using assms by (simp add: v_nwords_def)
  then have "reduce_word a kind = reduce_planes (wget (v_val a) 0) (wget (v_unk a) 0) (v_low_mask (v_width a)) kind"
    using assms by (simp add: reduce_word_def reduce_planes_def)
  then show ?thesis
    using reduce_word_bits [OF assms(1,2)] by simp
qed

text \<open>The one-bit family over the bits of the operand.\<close>

definition unary4 :: "un_op \<Rightarrow> logic4 list \<Rightarrow> logic4" where
  "unary4 op bs =
     (case op of
        RedAnd \<Rightarrow> red4 RKAnd bs | RedNand \<Rightarrow> not4 (red4 RKAnd bs)
      | RedOr \<Rightarrow> red4 RKOr bs | RedNor \<Rightarrow> not4 (red4 RKOr bs)
      | RedXor \<Rightarrow> red4 RKXor bs | RedXnor \<Rightarrow> not4 (red4 RKXor bs)
      | _ \<Rightarrow> not4 (red4 RKOr bs))"

definition one_bit_ops :: "un_op set" where
  "one_bit_ops = {LogNot, RedAnd, RedNand, RedOr, RedNor, RedXor, RedXnor}"

lemma truth_not4:
  assumes "vec_ok a"
  shows "not4 (red4 RKOr (vbits a)) =
    (case truthiness a of TriTrue \<Rightarrow> L0 | TriFalse \<Rightarrow> L1 | TriUnknown \<Rightarrow> LX)"
proof -
  have "L1 \<in> set (vbits a) \<longleftrightarrow> (\<exists>i<v_width a. vbit a i = L1)" "list_ex l4_u (vbits a) \<longleftrightarrow> (\<exists>i<v_width a. l4_u (vbit a i))"
    by (force simp: vbits_def list_ex_iff)+
  then show ?thesis
    unfolding truthiness_bits [OF assms] red4_def red_folds truth_of_def by (simp add: not4_def)
qed

lemma unary_self_bits:
  assumes "vec_ok a" and "1 \<le> v_width a" and "op \<in> one_bit_ops"
  shows "unary_self_of op a = Some (bit1 (unary4 op (vbits a)))"
proof (cases "v_width a \<le> 64")
  case True
  note r = reduce_planes_bits [OF assms(1,2) True]
  have t: "truthiness a = truthiness_word (wget (v_val a) 0) (wget (v_unk a) 0) (v_low_mask (v_width a))"
    using assms(1) True by (simp add: truthiness_def vec_ok_def)
  have "unary_self_of op a =
      map_option tri_bit (unary1_word op (wget (v_val a) 0) (wget (v_unk a) 0) (v_low_mask (v_width a)))"
    using assms(1,2) True by (simp add: unary_self_of_def vec_ok_def)
  then show ?thesis
    using assms(3) truth_not4 [OF assms(1)]
    by (cases op; cases "truthiness a")
      (simp_all add: unary1_word_def r not1_pair tri_bit_pair1 unary4_def one_bit_ops_def flip: t)
next
  case False
  note r = reduce_word_bits [OF assms(1,2)]
  show ?thesis
    using assms(3) False truth_not4 [OF assms(1)]
    by (cases op; cases "truthiness a")
      (simp_all add: unary_self_of_def reduce_bit_def r not1_pair tri_bit_pair1 unary4_def one_bit_ops_def
        zeros_def bit1_def one1_eq l4_v_def l4_u_def)
qed

section \<open>Shifts\<close>

definition shift_left :: "sim_value \<Rightarrow> sim_value \<Rightarrow> sim_value" where
  "shift_left l r =
     (if has_xz r then all_x (v_width l) (v_signed l)
      else (let amt = (case to_u64 r of Some a \<Rightarrow> unat a | None \<Rightarrow> 2 ^ 64 - 1);
                grow = min (min (v_width l + amt) (2 ^ 64 - 1)) 4096;
                w = max (max grow (v_width l)) 1
            in shl_grow l amt w))"

definition shift_right :: "sim_value \<Rightarrow> sim_value \<Rightarrow> bool \<Rightarrow> sim_value" where
  "shift_right l r ar =
     (if has_xz r then all_x (v_width l) (v_signed l)
      else (let amt = (case to_u64 r of Some a \<Rightarrow> unat a | None \<Rightarrow> 2 ^ 64 - 1);
                w = v_width l;
                (fv, fu) = (if ar \<and> 0 < w then get_vu l (w - 1) else (0, 0))
            in shr_fill l amt w fv fu))"

text \<open>The amount a known operand names, saturated at the largest 64-bit integer.\<close>

lemma shift_amount:
  assumes "vec_ok r" and "\<not> has_xz r"
  shows "(case to_u64 r of Some a \<Rightarrow> unat a | None \<Rightarrow> 2 ^ 64 - 1) = (if vnum r < 2 ^ 64 then vnum r else 2 ^ 64 - 1)"
proof -
  have "unat (word_of_nat (vnum r) :: u64) = vnum r" if "vnum r < 2 ^ 64"
    using that by (simp add: unat_of_nat)
  then show ?thesis
    using assms by (simp add: to_u64_eq)
qed

lemma shift_left_ok:
  "vec_ok l \<Longrightarrow> vec_ok (shift_left l r) \<and> v_signed (shift_left l r) = v_signed l \<and> \<not> v_str (shift_left l r) \<and>
    v_width l \<le> v_width (shift_left l r)"
  by (auto simp: shift_left_def Let_def max_def)

lemma shift_right_ok:
  "vec_ok l \<Longrightarrow> vec_ok (shift_right l r ar) \<and> v_width (shift_right l r ar) = v_width l \<and>
    v_signed (shift_right l r ar) = v_signed l \<and> \<not> v_str (shift_right l r ar)"
  by (simp add: shift_right_def Let_def split: prod.split)

lemma shift_left_bits:
  assumes "vec_ok r" and "\<not> has_xz r" and "v_width l \<le> 2 ^ 32" and "i < v_width l"
  shows "vbit (shift_left l r) i = (if vnum r \<le> i then vbit l (i - vnum r) else L0)"
proof -
  define amt where "amt = (if vnum r < 2 ^ 64 then vnum r else 2 ^ 64 - 1)"
  have am: "amt = vnum r \<or> i < amt \<and> i < vnum r"
    using assms(3,4) by (auto simp: amt_def)
  obtain w where "shift_left l r = shl_grow l amt w" "i < w"
  proof
    show "shift_left l r = shl_grow l amt (max (max (min (min (v_width l + amt) (2 ^ 64 - 1)) 4096) (v_width l)) 1)"
      using assms(2) by (simp only: shift_left_def Let_def shift_amount [OF assms(1,2)] amt_def if_False)
  qed (use assms(4) in simp)
  then show ?thesis
    using am by (auto simp: vbit_shl_grow)
qed

lemma shr_sign_fill:
  assumes "vec_ok l" and "i < w" and "w = v_width l"
  shows "vbit (shr_fill l amt w (of_bool (l4_v s)) (of_bool (l4_u s))) i = (if i + amt < w then vbit l (i + amt) else s)"
  using vec_ok_bit_out [OF assms(1), of "i + amt"] assms
  by (cases s) (auto simp: vbit_shr_fill l4_v_def l4_u_def)

lemma shift_right_bits:
  assumes "vec_ok l" and "vec_ok r" and "\<not> has_xz r" and "v_width l \<le> 2 ^ 32" and "i < v_width l"
  shows "vbit (shift_right l r ar) i =
    (if i + vnum r < v_width l then vbit l (i + vnum r) else if ar then vbit l (v_width l - 1) else L0)"
proof -
  define amt where "amt = (if vnum r < 2 ^ 64 then vnum r else 2 ^ 64 - 1)"
  let ?s = "if ar then vbit l (v_width l - 1) else L0"
  have am: "amt = vnum r \<or> v_width l \<le> amt \<and> v_width l \<le> vnum r"
    using assms(4) by (auto simp: amt_def)
  have "shift_right l r ar = (let (fv, fu) = (if ar \<and> 0 < v_width l then get_vu l (v_width l - 1) else (0, 0))
      in shr_fill l amt (v_width l) fv fu)"
    using assms(3) by (simp only: shift_right_def Let_def shift_amount [OF assms(2,3)] amt_def if_False)
  also have "\<dots> = shr_fill l amt (v_width l) (of_bool (l4_v ?s)) (of_bool (l4_u ?s))"
    using assms(5) by (simp add: get_vu_eq pair1_def l4_v_def l4_u_def)
  finally have "vbit (shift_right l r ar) i = (if i + amt < v_width l then vbit l (i + amt) else ?s)"
    by (simp only: shr_sign_fill [OF assms(1,5) refl])
  then show ?thesis
    using am by auto
qed

end
