(* ===== verification/StrOps.thy ===== *)
theory StrOps
  imports OpsUnary ConstFold
begin

text \<open>
  Strings as packed bytes and the keys of associative arrays, \<open>crates/sim-engine/src/eval/eval_core.rs\<close>, with the
  two byte readers of \<open>builtins/text_bytes.rs\<close> and \<open>builtins/render.rs\<close> the evaluator calls.  The reader that
  indexes a string in place is proved to read what the materialised string holds.
\<close>

section \<open>Bytes of a value\<close>

text \<open>Byte \<open>bi\<close>, counted from the least significant; the bits past the width read 0.\<close>

definition packed_byte :: "sim_value \<Rightarrow> nat \<Rightarrow> u8" where
  "packed_byte v bi =
     (let lo = bi * 8
      in if v_width v \<le> lo then 0
         else (let b = byte_at (drop_bit (lo mod 64) (wget (v_val v) (lo div 64)));
                   avail = v_width v - lo
               in if avail < 8 then b AND (2 ^ avail - 1) else b))"

fun value_str_go :: "sim_value \<Rightarrow> bool \<Rightarrow> nat list \<Rightarrow> u8 list" where
  "value_str_go v leading [] = []"
| "value_str_go v leading (bi # bis) =
     (let b = packed_byte v bi
      in if b = 0 \<and> leading then value_str_go v leading bis else b # value_str_go v False bis)"

definition value_str_bytes :: "sim_value \<Rightarrow> u8 list" where
  "value_str_bytes v = value_str_go v True (rev [0..<(v_width v + 7) div 8])"

fun strip_top :: "sim_value \<Rightarrow> nat \<Rightarrow> nat" where
  "strip_top v 0 = 0"
| "strip_top v (Suc k) = (if packed_byte v k = 0 then strip_top v k else Suc k)"

definition packed_byte_at :: "sim_value \<Rightarrow> nat \<Rightarrow> u8 option" where
  "packed_byte_at v i =
     (let top = strip_top v ((v_width v + 7) div 8)
      in if i + 1 \<le> top then Some (packed_byte v (top - (i + 1))) else None)"

section \<open>Keys of associative arrays\<close>

definition assoc_key_eval_ctx :: "nat \<Rightarrow> bool \<Rightarrow> nat \<times> bool" where
  "assoc_key_eval_ctx width sg = (max width 64, sg)"

text \<open>An \<open>i64\<close> key is its 64-bit word.\<close>

definition assoc_key_of_value :: "sim_value \<Rightarrow> u64 option" where
  "assoc_key_of_value v = (if v_real v \<or> has_xz v then None else Some (wget (v_val v) 0))"

definition assoc_str_key_of_value :: "sim_value \<Rightarrow> u8 list option" where
  "assoc_str_key_of_value v = (if v_real v \<or> has_xz v then None else Some (value_str_bytes v))"

section \<open>Numbers in strings\<close>

text \<open>\<open>char::to_digit\<close> on a byte read as a character.\<close>

definition to_digit :: "nat \<Rightarrow> u8 \<Rightarrow> nat option" where
  "to_digit radix b =
     (let c = unat b;
          d = (if 48 \<le> c \<and> c \<le> 57 then c - 48
               else if 97 \<le> c \<and> c \<le> 122 then c - 97 + 10
               else if 65 \<le> c \<and> c \<le> 90 then c - 65 + 10
               else radix)
      in if d < radix then Some d else None)"

fun parse_radix_go :: "nat \<Rightarrow> u64 \<Rightarrow> bool \<Rightarrow> u8 list \<Rightarrow> u64 \<times> bool" where
  "parse_radix_go radix acc any [] = (acc, any)"
| "parse_radix_go radix acc any (b # bs) =
     (if b = 95 then parse_radix_go radix acc any bs
      else (case to_digit radix b of
              Some d \<Rightarrow> parse_radix_go radix (acc * of_nat radix + of_nat d) True bs
            | None \<Rightarrow> (acc, any)))"

definition parse_radix_prefix :: "u8 list \<Rightarrow> nat \<Rightarrow> u64" where
  "parse_radix_prefix bytes radix =
     (let (acc, any) = parse_radix_go radix 0 False bytes in if any then acc else 0)"

section \<open>String constants\<close>

definition const_byte :: "u64 list \<Rightarrow> nat \<Rightarrow> u8" where
  "const_byte val b =
     (let bi = b * 8; w = bi div 64; s = bi mod 64
      in if s \<le> 56 then byte_at (drop_bit s (wget val w))
         else byte_at (drop_bit s (wget val w) OR push_bit (64 - s) (wget val (w + 1))))"

definition pop_zeros :: "u8 list \<Rightarrow> u8 list" where
  "pop_zeros bs = rev (dropWhile (\<lambda>b. b = 0) (rev bs))"

definition const_bytes :: "const_val \<Rightarrow> u8 list" where
  "const_bytes c =
     (let nbytes = (c_width c + 7) div 8;
          bytes = pop_zeros (map (const_byte (p_val (c_bits c))) (rev [0..<nbytes]))
      in if c_repr c = Numeric then dropWhile (\<lambda>b. b = 0) bytes else bytes)"

text \<open>\<open>%s\<close> of a vector: every byte from the top, an unknown bit read as 0, a NUL as a space.\<close>

definition known_byte :: "sim_value \<Rightarrow> nat \<Rightarrow> u8" where
  "known_byte v bi =
     (let b = bi * 8; w = b div 64
      in byte_at (drop_bit (b mod 64) (wget (v_val v) w AND NOT (wget (v_unk v) w))))"

definition packed_bytes_msb :: "sim_value \<Rightarrow> u8 list" where
  "packed_bytes_msb v = map (known_byte v) (rev [0..<max ((v_width v + 7) div 8) 1])"

definition packed_chars :: "u8 list \<Rightarrow> bool \<Rightarrow> u8 list" where
  "packed_chars bytes min_form =
     map (\<lambda>b. if b = 0 then 32 else b) (if min_form then dropWhile (\<lambda>b. b = 0) bytes else bytes)"

definition fmt_packed_chars :: "sim_value \<Rightarrow> u8 list" where
  "fmt_packed_chars v = packed_chars (packed_bytes_msb v) False"

definition to_ascii_upper :: "u8 \<Rightarrow> u8" where
  "to_ascii_upper c = (if 97 \<le> c \<and> c \<le> 122 then c - 32 else c)"

definition to_ascii_lower :: "u8 \<Rightarrow> u8" where
  "to_ascii_lower c = (if 65 \<le> c \<and> c \<le> 90 then c + 32 else c)"

text \<open>\<open>Ord\<close> of byte slices, lexicographic.\<close>

fun bytes_cmp :: "u8 list \<Rightarrow> u8 list \<Rightarrow> int" where
  "bytes_cmp [] [] = 0"
| "bytes_cmp [] (_ # _) = - 1"
| "bytes_cmp (_ # _) [] = 1"
| "bytes_cmp (x # xs) (y # ys) = (if x < y then - 1 else if y < x then 1 else bytes_cmp xs ys)"

section \<open>What they read\<close>

lemma value_str_go_all:
  "value_str_go v False bis = map (packed_byte v) bis"
  "value_str_go v True bis = dropWhile (\<lambda>b. b = 0) (map (packed_byte v) bis)"
proof -
  show all: "value_str_go v False bis = map (packed_byte v) bis" for bis
    by (induction bis) (simp_all add: Let_def)
  show "value_str_go v True bis = dropWhile (\<lambda>b. b = 0) (map (packed_byte v) bis)"
    by (induction bis) (simp_all add: Let_def all)
qed

lemma strip_top_le: "strip_top v n \<le> n"
  by (induction n) auto

lemma drop_leading:
  "dropWhile (\<lambda>b. b = 0) (map (packed_byte v) (rev [0..<n])) = map (packed_byte v) (rev [0..<strip_top v n])"
  by (induction n) simp_all

lemma value_str_bytes_eq:
  "value_str_bytes v = map (packed_byte v) (rev [0..<strip_top v ((v_width v + 7) div 8)])"
  by (simp add: value_str_bytes_def value_str_go_all drop_leading)

definition digits_num :: "nat \<Rightarrow> nat list \<Rightarrow> nat" where
  "digits_num radix ds = foldl (\<lambda>a d. a * radix + d) 0 ds"

text \<open>The digits of the prefix the scan accepts.\<close>

fun scanned :: "nat \<Rightarrow> u8 list \<Rightarrow> nat list" where
  "scanned radix [] = []"
| "scanned radix (b # bs) =
     (if b = 95 then scanned radix bs
      else (case to_digit radix b of Some d \<Rightarrow> d # scanned radix bs | None \<Rightarrow> []))"

lemma parse_radix_go_scanned:
  "parse_radix_go radix (of_nat a) any bs =
     (of_nat (foldl (\<lambda>a d. a * radix + d) a (scanned radix bs)), any \<or> scanned radix bs \<noteq> [])"
proof (induction bs arbitrary: a any)
  case (Cons b bs)
  show ?case
  proof (cases "to_digit radix b")
    case (Some d)
    have "(of_nat a * of_nat radix + of_nat d :: u64) = of_nat (a * radix + d)" by simp
    then show ?thesis using Some Cons by (simp only: parse_radix_go.simps scanned.simps option.case split: if_splits) simp
  qed (simp add: Cons)
qed simp

section \<open>Properties\<close>

text \<open>Reading one byte of a string in place gives the byte the materialised string has at that index, and
  nothing past its end.\<close>

theorem byte_at_indexes_string:
  "packed_byte_at v i = (if i < length (value_str_bytes v) then Some (value_str_bytes v ! i) else None)"
  by (simp add: packed_byte_at_def value_str_bytes_eq Let_def rev_nth)

text \<open>A string converts to the number its leading digits write, underscores skipped, modulo
  \<open>2 ^ 64\<close>; the scan stops at the first other character and an empty scan gives 0.\<close>

theorem parse_reads_leading_digits:
  "parse_radix_prefix bs radix = of_nat (digits_num radix (scanned radix bs))"
  using parse_radix_go_scanned [of radix 0 False bs] by (auto simp: parse_radix_prefix_def digits_num_def)

end
