(* ===== verification/F64Dyadic.thy ===== *)
theory F64Dyadic
  imports ValueConv
begin

text \<open>
  Doubles that hold a dyadic number exactly, \<open>k * 2 ^ e\<close> in units of \<open>2 ^ -1074\<close>, and the operations of
  \<open>F64\<close> that stay exact on them.  The generators of \<open>rng.rs\<close> are computed with such numbers alone.
\<close>

definition f64_at :: "f64 \<Rightarrow> int \<Rightarrow> nat \<Rightarrow> bool" where
  "f64_at x k e \<longleftrightarrow> f64_is_finite x \<and> f64_units x = k * 2 ^ e"

definition f64_of_int :: "int \<Rightarrow> f64" where
  "f64_of_int k = f64_of_units (k * 2 ^ 1074)"

text \<open>\<open>f32 as f64\<close>: every single is a double; a NaN keeps its payload and turns quiet.\<close>

definition f32_to_f64 :: "u32 \<Rightarrow> f64" where
  "f32_to_f64 x =
     (let s = bit x 31; mag = unat x mod 2 ^ 31; e = mag div 2 ^ 23; m = mag mod 2 ^ 23
      in if e = 255 then (if m = 0 then f64_inf s else f64_pack s (2047 * 2 ^ 52 + m * 2 ^ 29) OR f64_nan)
         else if e = 0 then f64_round_ratio s (m * 2 ^ 925) 1
         else f64_pack s ((e + 896) * 2 ^ 52 + m * 2 ^ 29))"

text \<open>\<open>f64 as i64\<close> truncates and saturates; \<open>x >= y\<close> is false on a NaN.\<close>

definition f64_as_i64 :: "f64 \<Rightarrow> int" where
  "f64_as_i64 x =
     (if f64_is_nan x then 0
      else if f64_is_inf x then (if f64_sign x then - (2 ^ 63) else 2 ^ 63 - 1)
      else max (- (2 ^ 63)) (min (2 ^ 63 - 1) (f64_trunc x)))"

definition f64_ge :: "f64 \<Rightarrow> f64 \<Rightarrow> bool" where
  "f64_ge x y \<longleftrightarrow> \<not> f64_is_nan x \<and> \<not> f64_is_nan y \<and> f64_key y \<le> f64_key x"

lemma at_round:
  assumes "m < 2 ^ 53" and "e \<le> 2045" and "n = m * 2 ^ e * d" and "0 < d"
  shows "f64_at (f64_round_ratio s n d) (if s then - int m else int m) e"
proof -
  note r = round_ratio_units [OF mag_units_small [OF assms(1,2)] assms(3,4), of s]
  show ?thesis
    using r(2) unfolding f64_at_def f64_units_def r(1) round_ratio_fields(2) by auto
qed

lemma at_zero: "f64_at (f64_zero s) 0 e"
  using f64_holds_zero [of s] by (simp add: f64_at_def f64_holds_def)

lemma at_of_units:
  assumes "v = k * 2 ^ e" and "k \<noteq> 0" and "\<bar>k\<bar> < 2 ^ 53" and "e \<le> 2045"
  shows "f64_at (f64_of_units v) k e"
proof -
  define m where "m = nat \<bar>k\<bar>"
  have "nat \<bar>k * 2 ^ e\<bar> = m * 2 ^ e * 1"
    unfolding m_def abs_mult nat_mult_distrib [OF abs_ge_zero] by (simp add: nat_power_eq)
  then have "f64_at (f64_round_ratio (k < 0) (nat \<bar>k * 2 ^ e\<bar>) 1) (if k < 0 then - int m else int m) e"
    using assms(3,4) by (intro at_round) (simp_all add: m_def nat_less_iff)
  moreover have "k * 2 ^ e < 0 \<longleftrightarrow> k < 0" by (rule scaled_sign) simp
  moreover have "(if k < 0 then - int m else int m) = k" by (simp add: m_def)
  ultimately show ?thesis
    unfolding f64_of_units_def assms(1) by (simp only:)
qed

lemma at_add:
  assumes "f64_at x a e" and "f64_at y b e" and "\<bar>a + b\<bar> < 2 ^ 53" and "e \<le> 2045"
  shows "f64_at (f64_add x y) (a + b) e"
proof -
  have u: "f64_units x + f64_units y = (a + b) * 2 ^ e"
    using assms by (simp only: f64_at_def distrib_right)
  have s: "f64_add x y = (let v = f64_units x + f64_units y in
      if v = 0 then f64_zero (f64_sign x \<and> f64_sign y) else f64_of_units v)"
    using assms finite_not_special by (simp add: f64_at_def f64_add_def)
  show ?thesis
  proof (cases "a + b = 0")
    case True
    then show ?thesis unfolding s u Let_def using at_zero by simp
  next
    case False
    then have "(a + b) * 2 ^ e \<noteq> 0" by simp
    then show ?thesis
      unfolding s u Let_def using at_of_units [OF refl False assms(3,4)] by (simp only: if_False)
  qed
qed

lemma at_neg: "f64_at x k e \<Longrightarrow> f64_at (f64_neg x) (- k) e"
  unfolding f64_at_def f64_is_finite_def f64_units_def f64_neg_fields by auto

lemma at_sub:
  assumes "f64_at x a e" and "f64_at y b e" and "\<bar>a - b\<bar> < 2 ^ 53" and "e \<le> 2045"
  shows "f64_at (f64_sub x y) (a - b) e"
proof -
  have "\<not> f64_is_nan y"
    using assms(2) finite_not_special by (simp add: f64_at_def)
  then show ?thesis
    using at_add [OF assms(1) at_neg [OF assms(2)]] assms(3,4) by (simp add: f64_sub_def)
qed

lemma at_mag:
  assumes "f64_at x k e"
  shows "mag_units (f64_mag x) = nat \<bar>k\<bar> * 2 ^ e" and "k \<noteq> 0 \<Longrightarrow> f64_sign x \<longleftrightarrow> k < 0"
proof -
  have u: "f64_units x = k * 2 ^ e" using assms by (simp only: f64_at_def)
  have "int (mag_units (f64_mag x)) = \<bar>f64_units x\<bar>" by (simp add: f64_units_def)
  also have "\<dots> = \<bar>k\<bar> * 2 ^ e" unfolding u abs_mult by simp
  also have "\<dots> = int (nat \<bar>k\<bar> * 2 ^ e)" by simp
  finally show "mag_units (f64_mag x) = nat \<bar>k\<bar> * 2 ^ e" by (simp only: of_nat_eq_iff)
  assume "k \<noteq> 0"
  have "f64_units x < 0 \<longleftrightarrow> k < 0" unfolding u by (rule scaled_sign) simp
  moreover have "f64_units x \<noteq> 0" unfolding u using \<open>k \<noteq> 0\<close> by simp
  ultimately show "f64_sign x \<longleftrightarrow> k < 0" by (auto simp: f64_units_def split: if_splits)
qed

text \<open>A product of positive factors.\<close>

lemma at_mul:
  assumes x: "f64_at x a e" and y: "f64_at y b f" and "0 < a" "0 < b" "a * b < 2 ^ 53"
    and g: "g + 1074 = e + f" "g \<le> 2045"
  shows "f64_at (f64_mul x y) (a * b) g"
proof -
  note mx = at_mag [OF x] and my = at_mag [OF y]
  have s: "\<not> f64_sign x" "\<not> f64_sign y"
    using mx(2) my(2) assms(3,4) by auto
  have n: "nat \<bar>a\<bar> * 2 ^ e * (nat \<bar>b\<bar> * 2 ^ f) = nat (a * b) * 2 ^ g * 2 ^ 1074"
  proof -
    have "nat \<bar>a\<bar> * nat \<bar>b\<bar> = nat (a * b)"
      using assms(3,4) by (simp add: nat_mult_distrib)
    moreover have "(2 :: nat) ^ e * 2 ^ f = 2 ^ g * 2 ^ 1074"
      by (simp only: g(1) flip: power_add)
    ultimately show ?thesis
      by (metis (no_types, lifting) mult.assoc mult.left_commute)
  qed
  have "f64_mul x y = f64_round_ratio False (nat \<bar>a\<bar> * 2 ^ e * (nat \<bar>b\<bar> * 2 ^ f)) (2 ^ 1074)"
    using x y finite_not_special s unfolding f64_mul_def Let_def mx(1) my(1) f64_at_def by simp
  moreover have "f64_at (f64_round_ratio False (nat \<bar>a\<bar> * 2 ^ e * (nat \<bar>b\<bar> * 2 ^ f)) (2 ^ 1074))
      (if False then - int (nat (a * b)) else int (nat (a * b))) g"
    using assms(5) g(2) by (intro at_round) (simp_all only: n nat_less_iff, simp_all add: assms(3,4) nat_less_iff)
  ultimately show ?thesis
    using assms(3,4) by simp
qed

lemma at_shift: "f64_at x (k * 2 ^ d) e \<longleftrightarrow> f64_at x k (d + e)"
  by (simp add: f64_at_def power_add mult.assoc)

lemma at_pow:
  assumes "0 < e" and "e < 2047"
  shows "f64_at (f64_pack False (e * 2 ^ 52)) 1 (51 + e)"
proof -
  have "e * 2 ^ 52 \<le> 2046 * 2 ^ 52" using assms by (intro mult_le_mono1) simp
  then have b: "e * 2 ^ 52 < 2 ^ 63" "e * 2 ^ 52 < 2047 * 2 ^ 52" by (simp_all add: mult_less_cancel2)
  have "(52 :: nat) + (e - 1) = 51 + e" using assms(1) by simp
  then have m: "mag_units (e * 2 ^ 52) = 2 ^ (51 + e)"
    using mag_units_pow [OF assms(1)] by (simp only:)
  show ?thesis
    using b unfolding f64_at_def f64_is_finite_def f64_units_def
    by (simp only: m pack_mag pack_sign if_False of_nat_power of_nat_numeral mult_1)
qed

lemma at_trunc:
  assumes "f64_at x k e" and "e \<le> 1074"
  shows "f64_trunc x = (if k < 0 then - (- k div 2 ^ (1074 - e)) else k div 2 ^ (1074 - e))"
proof -
  note m = at_mag [OF assms(1)]
  have "(2 :: nat) ^ 1074 = 2 ^ e * 2 ^ (1074 - e)"
    using assms(2) by (simp only: le_add_diff_inverse flip: power_add)
  then have "mag_units (f64_mag x) div 2 ^ 1074 = nat \<bar>k\<bar> div 2 ^ (1074 - e)"
    unfolding m(1) by (simp only: mult.commute [of _ "2 ^ e"]) (rule div_mult_mult1, simp)
  then have "int (mag_units (f64_mag x) div 2 ^ 1074) = \<bar>k\<bar> div 2 ^ (1074 - e)"
    by (simp add: zdiv_int)
  then show ?thesis
    using m(2) by (cases "k = 0") (auto simp: f64_trunc_def)
qed

lemma at_ge:
  assumes "f64_at x a e" and "f64_at y b e"
  shows "f64_ge x y \<longleftrightarrow> b \<le> a"
proof -
  have n: "\<not> f64_is_nan x" "\<not> f64_is_inf x" "\<not> f64_is_nan y" "\<not> f64_is_inf y"
    using assms finite_not_special by (auto simp only: f64_at_def)
  have u: "f64_units x = a * 2 ^ e" "f64_units y = b * 2 ^ e"
    using assms by (simp_all only: f64_at_def)
  have "b * 2 ^ e \<le> a * 2 ^ e \<longleftrightarrow> b \<le> a"
    by (rule mult_le_cancel_right_pos) simp
  then show ?thesis
    using n unfolding f64_ge_def f64_key_def u by simp
qed

lemma at_as_i64:
  assumes "f64_at x k e" and "e \<le> 1074" and "\<bar>k\<bar> < 2 ^ 62"
  shows "f64_as_i64 x = (if k < 0 then - (- k div 2 ^ (1074 - e)) else k div 2 ^ (1074 - e))"
proof -
  have n: "\<not> f64_is_nan x" "\<not> f64_is_inf x"
    using assms(1) finite_not_special by (auto simp only: f64_at_def)
  have "\<bar>f64_trunc x\<bar> \<le> \<bar>k\<bar>"
  proof -
    have "0 \<le> n div 2 ^ (1074 - e) \<and> n div 2 ^ (1074 - e) \<le> n" if "0 \<le> n" for n :: int
      using that zdiv_mono2 [of n 1 "2 ^ (1074 - e)"] by (simp add: pos_imp_zdiv_nonneg_iff)
    from this [of k] this [of "- k"] show ?thesis
      unfolding at_trunc [OF assms(1,2)] by (simp split: if_splits)
  qed
  then have "\<bar>f64_trunc x\<bar> < 2 ^ 62"
    using assms(3) by linarith
  then show ?thesis
    using n unfolding f64_as_i64_def at_trunc [OF assms(1,2), symmetric] by simp
qed

lemma at_of_int:
  assumes "\<bar>k\<bar> < 2 ^ 53"
  shows "f64_at (f64_of_int k) k 1074"
proof (cases "k = 0")
  case True
  have "f64_of_units 0 = f64_zero False"
    by (simp add: f64_of_units_def f64_round_ratio_def f64_zero_def round_mag_def bit_len.simps)
  then show ?thesis
    using at_zero True by (simp add: f64_of_int_def)
next
  case False
  then show ?thesis
    unfolding f64_of_int_def using assms by (intro at_of_units) simp_all
qed

end
