(* ===== verification/Rng.thy ===== *)
theory Rng
  imports F64Dyadic
begin

text \<open>
  Random numbers, \<open>crates/sim-engine/src/rng.rs\<close>: the 32-bit congruential generator of \<open>$random\<close> and of the
  \<open>$dist\<close> family, and the 64-bit generator of \<open>$urandom\<close>.  The seed each routine updates in place is returned
  beside its result.  The logarithm, square root and exponential of the \<open>libm\<close> crate are parameters.
\<close>

section \<open>The congruential generator\<close>

definition lcg_step :: "u32 \<Rightarrow> u32" where
  "lcg_step seed = (if seed = 0 then 259341593 else seed) * 69069 + 1"

text \<open>\<open>2 ^ -23\<close>, 1, \<open>2 ^ 32\<close> and \<open>2 ^ 31\<close> as doubles; the seed's top 23 bits as a mantissa, in \<open>[1, 2)\<close>.\<close>

definition f64_ulp23 :: f64 where "f64_ulp23 = f64_pack False (1000 * 2 ^ 52)"
definition f64_2_32 :: f64 where "f64_2_32 = f64_pack False (1055 * 2 ^ 52)"
definition f64_2_31 :: f64 where "f64_2_31 = f64_pack False (1054 * 2 ^ 52)"

definition mantissa_of :: "u32 \<Rightarrow> f64" where
  "mantissa_of seed = (let c = f32_to_f64 (drop_bit 9 seed OR 0x3F800000) in f64_add c (f64_mul c f64_ulp23))"

text \<open>\<open>(long) r\<close> for a non-negative \<open>r\<close>, \<open>(long) (r - 1)\<close> otherwise.\<close>

definition floor_cast :: "f64 \<Rightarrow> int" where
  "floor_cast r = (if f64_ge r (f64_zero False) then f64_as_i64 r else f64_as_i64 (f64_sub r f64_one))"

definition annex_n_random :: "u32 \<Rightarrow> u32 \<times> u32" where
  "annex_n_random seed =
     (let seed' = lcg_step seed;
          c = mantissa_of seed';
          r = f64_sub (f64_mul (f64_sub c f64_one) f64_2_32) f64_2_31
      in (word_of_int (floor_cast r), seed'))"

definition uniform :: "u32 \<Rightarrow> f64 \<Rightarrow> f64 \<Rightarrow> f64 \<times> u32" where
  "uniform seed a b =
     (let seed' = lcg_step seed;
          c = mantissa_of seed'
      in (f64_add (f64_mul (f64_sub b a) (f64_sub c f64_one)) a, seed'))"

section \<open>The uniform distribution\<close>

definition clamp_i :: "int \<Rightarrow> int \<Rightarrow> int \<Rightarrow> int" where
  "clamp_i lo hi i = (let i = (if i < lo then lo else i) in if hi < i then hi else i)"

definition dist_uniform :: "u32 \<Rightarrow> int \<Rightarrow> int \<Rightarrow> int \<times> u32" where
  "dist_uniform seed start end =
     (if end \<le> start then (start, seed)
      else if end \<noteq> 2 ^ 31 - 1 then
        (let (r, seed') = uniform seed (f64_of_int start) (f64_add (f64_of_int end) f64_one)
         in (clamp_i start end (floor_cast r), seed'))
      else if start \<noteq> - (2 ^ 31) then
        (let (r, seed') = uniform seed (f64_sub (f64_of_int start) f64_one) (f64_of_int end)
         in (clamp_i start end (floor_cast (f64_add r f64_one)), seed'))
      else
        (let (r, seed') = uniform seed (f64_of_int start) (f64_of_int end);
             r = f64_div (f64_add r f64_2_31) (f64_of_int 4294967295);
             r = f64_sub (f64_mul r f64_2_32) f64_2_31
         in (clamp_i start end (floor_cast r), seed')))"

section \<open>The other distributions\<close>

record libm =
  lm_log :: "f64 \<Rightarrow> f64"
  lm_sqrt :: "f64 \<Rightarrow> f64"
  lm_exp :: "f64 \<Rightarrow> f64"

definition f64_as_i32 :: "f64 \<Rightarrow> int" where
  "f64_as_i32 x = max (- (2 ^ 31)) (min (2 ^ 31 - 1) (f64_as_i64 x))"

text \<open>The rejection loops may in principle run for ever: \<open>None\<close>.\<close>

partial_function (option) exponential_go :: "u32 \<Rightarrow> f64 \<Rightarrow> (f64 \<times> u32) option" where
  "exponential_go seed u =
     (if f64_eq u (f64_zero False)
      then (let p = uniform seed (f64_zero False) f64_one in exponential_go (snd p) (fst p))
      else Some (u, seed))"

definition exponential :: "libm \<Rightarrow> u32 \<Rightarrow> (f64 \<times> u32) option" where
  "exponential lm seed =
     map_option (\<lambda>(u, seed'). (f64_neg (lm_log lm u), seed')) (exponential_go seed (f64_zero False))"

partial_function (option) standard_normal :: "libm \<Rightarrow> u32 \<Rightarrow> (f64 \<times> u32) option" where
  "standard_normal lm seed =
     (let p1 = uniform seed (f64_zero False) f64_one;
          p2 = uniform (snd p1) (f64_zero False) f64_one;
          v1 = f64_sub (f64_mul f64_two (fst p1)) f64_one;
          v2 = f64_sub (f64_mul f64_two (fst p2)) f64_one;
          s = f64_add (f64_mul v1 v1) (f64_mul v2 v2)
      in if f64_lt s f64_one \<and> \<not> f64_eq s (f64_zero False)
         then Some (f64_mul v1 (lm_sqrt lm (f64_div (f64_mul (f64_of_int (- 2)) (lm_log lm s)) s)), snd p2)
         else standard_normal lm (snd p2))"

text \<open>A sum of \<open>n\<close> exponential variates, each scaled.\<close>

fun sum_exponential :: "libm \<Rightarrow> (f64 \<Rightarrow> f64) \<Rightarrow> nat \<Rightarrow> f64 \<Rightarrow> u32 \<Rightarrow> (f64 \<times> u32) option" where
  "sum_exponential lm f 0 acc seed = Some (acc, seed)"
| "sum_exponential lm f (Suc n) acc seed =
     Option.bind (exponential lm seed) (\<lambda>(e, seed'). sum_exponential lm f n (f64_add acc (f e)) seed')"

definition chi_square_real :: "libm \<Rightarrow> u32 \<Rightarrow> nat \<Rightarrow> (f64 \<times> u32) option" where
  "chi_square_real lm seed df =
     Option.bind (sum_exponential lm (f64_mul f64_two) (df div 2) (f64_zero False) seed)
       (\<lambda>(acc, seed').
          if df mod 2 \<noteq> 0
          then map_option (\<lambda>(z, seed''). (f64_add acc (f64_mul z z), seed'')) (standard_normal lm seed')
          else Some (acc, seed'))"

definition dist_normal :: "libm \<Rightarrow> u32 \<Rightarrow> int \<Rightarrow> int \<Rightarrow> (int \<times> u32) option" where
  "dist_normal lm seed mean std_dev =
     map_option (\<lambda>(z, seed'). (f64_as_i32 (f64_add (f64_of_int mean) (f64_mul (f64_of_int std_dev) z)), seed'))
       (standard_normal lm seed)"

definition dist_exponential :: "libm \<Rightarrow> u32 \<Rightarrow> int \<Rightarrow> (int \<times> u32) option" where
  "dist_exponential lm seed mean =
     (if mean \<le> 0 then Some (0, seed)
      else map_option (\<lambda>(e, seed'). (f64_as_i32 (f64_mul (f64_of_int mean) e), seed')) (exponential lm seed))"

partial_function (option) poisson_go :: "f64 \<Rightarrow> u32 \<Rightarrow> f64 \<Rightarrow> int \<Rightarrow> (int \<times> u32) option" where
  "poisson_go limit seed p n =
     (if f64_lt limit p
      then (let q = uniform seed (f64_zero False) f64_one
            in poisson_go limit (snd q) (f64_mul p (fst q)) (n + 1))
      else Some (n, seed))"

definition dist_poisson :: "libm \<Rightarrow> u32 \<Rightarrow> int \<Rightarrow> (int \<times> u32) option" where
  "dist_poisson lm seed mean =
     (if mean \<le> 0 then Some (0, seed)
      else (let q = uniform seed (f64_zero False) f64_one
            in poisson_go (lm_exp lm (f64_neg (f64_of_int mean))) (snd q) (fst q) 0))"

definition dist_chi_square :: "libm \<Rightarrow> u32 \<Rightarrow> int \<Rightarrow> (int \<times> u32) option" where
  "dist_chi_square lm seed df =
     (if df \<le> 0 then Some (0, seed)
      else map_option (\<lambda>(c, seed'). (f64_as_i32 c, seed')) (chi_square_real lm seed (nat df)))"

definition dist_t :: "libm \<Rightarrow> u32 \<Rightarrow> int \<Rightarrow> (int \<times> u32) option" where
  "dist_t lm seed df =
     (if df \<le> 0 then Some (0, seed)
      else Option.bind (chi_square_real lm seed (nat df))
             (\<lambda>(chi, seed').
                map_option
                  (\<lambda>(z, seed''). (f64_as_i32 (f64_div z (lm_sqrt lm (f64_div chi (f64_of_int df)))), seed''))
                  (standard_normal lm seed')))"

definition dist_erlang :: "libm \<Rightarrow> u32 \<Rightarrow> int \<Rightarrow> int \<Rightarrow> (int \<times> u32) option" where
  "dist_erlang lm seed k mean =
     (if k \<le> 0 \<or> mean \<le> 0 then Some (0, seed)
      else map_option
             (\<lambda>(acc, seed'). (f64_as_i32 (f64_mul (f64_div (f64_of_int mean) (f64_of_int k)) acc), seed'))
             (sum_exponential lm (\<lambda>e. e) (nat k) (f64_zero False) seed))"

section \<open>The 64-bit generator\<close>

definition splitmix_mix :: "u64 \<Rightarrow> u64" where
  "splitmix_mix z =
     (let z = (z XOR drop_bit 30 z) * 0xBF58476D1CE4E5B9;
          z = (z XOR drop_bit 27 z) * 0x94D049BB133111EB
      in z XOR drop_bit 31 z)"

definition splitmix_urandom :: "u64 \<Rightarrow> u32 \<times> u64" where
  "splitmix_urandom state =
     (let state' = state + 0x9E3779B97F4A7C15 in (ucast (drop_bit 32 (splitmix_mix state')), state'))"

section \<open>The draw as an integer\<close>

text \<open>\<open>draw_num\<close> is the numerator, over \<open>2 ^ 46\<close>, of the fraction a seed's top 23 bits stand for.\<close>

definition draw_num :: "u32 \<Rightarrow> int" where
  "draw_num seed = (let m = uint (drop_bit 9 seed) in (m + 1) * 2 ^ 23 + m)"

lemma draw_num_range: "0 < draw_num seed" "draw_num seed < 2 ^ 47"
proof -
  have "uint (drop_bit 9 seed) = uint seed div 2 ^ 9"
    by (simp add: drop_bit_eq_div uint_div)
  moreover have "uint seed < 2 ^ 32"
    using uint_lt2p [of seed] by simp
  ultimately have "0 \<le> uint (drop_bit 9 seed)" "uint (drop_bit 9 seed) < 2 ^ 23"
    using uint_ge_0 [of "drop_bit 9 seed"] by simp_all
  then have "0 \<le> uint (drop_bit 9 seed)" "uint (drop_bit 9 seed) < 8388608"
    by simp_all
  moreover have "0 < (u + 1) * 2 ^ 23 + u \<and> (u + 1) * 2 ^ 23 + u < 2 ^ 47" if "0 \<le> u" "u < 8388608" for u :: int
    using that by simp
  ultimately show "0 < draw_num seed" "draw_num seed < 2 ^ 47"
    unfolding draw_num_def Let_def by blast+
qed

lemma single_mantissa:
  "f64_at (f32_to_f64 (drop_bit 9 seed OR 0x3F800000)) (2 ^ 23 + uint (drop_bit 9 seed)) 1051"
proof -
  let ?d = "drop_bit 9 seed" and ?x = "drop_bit 9 seed OR 0x3F800000"
  define m where "m = unat ?d"
  have "unat ?d = unat seed div 2 ^ 9"
    by (simp add: drop_bit_eq_div unat_div)
  then have m: "m < 2 ^ 23"
    using unsigned_less [of seed, where 'a = nat] by (simp add: m_def)
  have "?x = ?d + 0x3F800000"
  proof -
    have one: "bit (0x3F800000 :: u32) i \<longleftrightarrow> 23 \<le> i \<and> i < 30" for i
    proof (cases "i < 32")
      case True
      then consider "i \<in> {0..<8}" | "i \<in> {8..<16}" | "i \<in> {16..<24}" | "i \<in> {24..<32}" by force
      then show ?thesis by cases (auto simp: bit_numeral_word_iff atLeastLessThan_nat_numeral)
    next
      case False
      then show ?thesis using bit_imp_le_length [of "0x3F800000 :: u32" i] by auto
    qed
    have two: "bit ?d i \<Longrightarrow> i < 23" for i
      using bit_imp_le_length [of seed "i + 9"] by (simp add: bit_drop_bit_eq add.commute)
    have "?d AND 0x3F800000 = 0"
      by (rule bit_word_eqI, unfold bit_and_iff one) (use two in force)
    then show ?thesis
      by (simp only: disjunctive_add_eq_or)
  qed
  then have ux: "unat ?x = 127 * 2 ^ 23 + m"
    using m by (simp add: unat_word_ariths m_def)
  have f: "unat ?x mod 2 ^ 31 div 2 ^ 23 = 127" "unat ?x mod 2 ^ 31 mod 2 ^ 23 = m"
  proof -
    have "127 * 2 ^ 23 + m < 2 ^ 31" using m by simp
    then have "unat ?x mod 2 ^ 31 = 127 * 2 ^ 23 + m" unfolding ux by (rule mod_less)
    then show "unat ?x mod 2 ^ 31 div 2 ^ 23 = 127" "unat ?x mod 2 ^ 31 mod 2 ^ 23 = m"
      using div_mod_pair [OF m] by (simp_all only:)
  qed
  have "\<not> bit ?x 31"
  proof -
    have "unat ?x < 2 ^ 31" unfolding ux using m by simp
    then have "\<not> bit (unat ?x) 31" by (simp add: bit_iff_odd)
    moreover have "bit ?x 31 \<longleftrightarrow> bit (unat ?x) 31" by (simp only: bit_unsigned_iff) simp
    ultimately show ?thesis by blast
  qed
  then have x: "f32_to_f64 ?x = f64_pack False ((127 + 896) * 2 ^ 52 + m * 2 ^ 29)"
    unfolding f32_to_f64_def Let_def f by simp
  have b: "(127 + 896) * 2 ^ 52 + m * 2 ^ 29 < 2047 * 2 ^ 52" "m * 2 ^ 29 < (2 :: nat) ^ 52"
    using m by simp_all
  have "mag_units ((127 + 896) * 2 ^ 52 + m * 2 ^ 29) = (2 ^ 52 + m * 2 ^ 29) * 2 ^ 1022"
    using b(2) by (simp only: mag_units_def Let_def div_mod_pair) simp
  also have "\<dots> = (2 ^ 23 + m) * 2 ^ 1051"
    by (simp add: distrib_right mult.assoc flip: power_add)
  finally show ?thesis
    using b(1) unfolding x f64_at_def f64_is_finite_def f64_units_def
    by (simp add: m_def)
qed

lemma mantissa_at: "f64_at (mantissa_of seed) (2 ^ 46 + draw_num seed) 1028"
proof -
  let ?c = "f32_to_f64 (drop_bit 9 seed OR 0x3F800000)"
  define k where "k = 2 ^ 23 + uint (drop_bit 9 seed)"
  have eq: "k * 2 ^ 23 + k = 2 ^ 46 + draw_num seed"
    by (simp add: k_def draw_num_def Let_def)
  then have "0 < k \<and> k < 2 ^ 53"
    using draw_num_range [of seed] by simp
  then have k: "0 < k" "k < 2 ^ 53"
    by simp_all
  have c: "f64_at ?c k 1051"
    unfolding k_def by (rule single_mantissa)
  have d: "f64_at f64_ulp23 1 1051"
    unfolding f64_ulp23_def using at_pow [of 1000] by simp
  have "f64_at (f64_mul ?c f64_ulp23) (k * 1) 1028"
    using k by (intro at_mul [OF c d]) simp_all
  moreover have "f64_at ?c (k * 2 ^ 23) 1028"
    unfolding at_shift using c by simp
  ultimately have "f64_at (f64_add ?c (f64_mul ?c f64_ulp23)) (k * 2 ^ 23 + k) 1028"
    using eq draw_num_range [of seed] by (intro at_add) simp_all
  then show ?thesis
    by (simp only: mantissa_of_def Let_def eq)
qed

lemma fraction_at: "f64_at (f64_sub (mantissa_of seed) f64_one) (draw_num seed) 1028"
proof -
  have "f64_at f64_one 1 1074"
    unfolding f64_one_def using at_pow [of 1023] by simp
  then have "f64_at f64_one (2 ^ 46) 1028"
    using at_shift [of f64_one 1 46 1028] by simp
  from at_sub [OF mantissa_at this] show ?thesis
    using draw_num_range [of seed] by simp
qed

lemma floor_cast_at:
  assumes "f64_at r k 1060" and "\<bar>k\<bar> < 2 ^ 50"
  shows "floor_cast r = (if 0 \<le> k then k div 2 ^ 14 else - ((2 ^ 14 - k) div 2 ^ 14))"
proof (cases "0 \<le> k")
  case True
  then show ?thesis
    using at_as_i64 [OF assms(1)] at_ge [OF assms(1) at_zero] assms(2) by (simp add: floor_cast_def)
next
  case False
  have "f64_at f64_one 1 1074"
    unfolding f64_one_def using at_pow [of 1023] by simp
  then have "f64_at f64_one (2 ^ 14) 1060"
    using at_shift [of f64_one 1 14 1060] by simp
  from at_sub [OF assms(1) this] have "f64_at (f64_sub r f64_one) (k - 2 ^ 14) 1060"
    using assms(2) by simp
  from at_as_i64 [OF this] show ?thesis
    using at_ge [OF assms(1) at_zero] assms(2) False by (simp add: floor_cast_def)
qed

section \<open>The 64-bit generator visits and mixes every state\<close>

lemma xor_shift_inj:
  fixes x y :: "'a::len word"
  assumes "x XOR drop_bit k x = y XOR drop_bit k y" and "0 < k"
  shows "x = y"
proof (rule bit_word_eqI)
  have step: "(bit x n \<noteq> bit x (n + k)) \<longleftrightarrow> (bit y n \<noteq> bit y (n + k))" if "n < LENGTH('a)" for n
    using arg_cong [OF assms(1), of "\<lambda>w. bit w n"] by (simp add: bit_xor_iff bit_drop_bit_eq add.commute)
  have out: "\<not> bit w n" if "LENGTH('a) \<le> n" for w :: "'a word" and n
    using bit_imp_le_length [of w n] that by auto
  have all: "bit x n = bit y n" if "LENGTH('a) - n \<le> d" for d n
    using that
  proof (induction d arbitrary: n)
    case 0
    then show ?case using out by simp
  next
    case (Suc d)
    show ?case
    proof (cases "n < LENGTH('a)")
      case True
      then have "LENGTH('a) - (n + k) \<le> d" using Suc.prems assms(2) by linarith
      then show ?thesis using Suc.IH [of "n + k"] step [OF True] by blast
    next
      case False
      then show ?thesis using out by simp
    qed
  qed
  show "bit x n = bit y n" for n
    by (rule all) (rule order_refl)
qed

lemma odd_mult_inj:
  fixes c d :: "'a::len word"
  assumes "c * d = 1" and "x * c = y * c"
  shows "x = y"
proof -
  have "x * c * d = y * c * d" using assms(2) by simp
  then show ?thesis by (simp add: mult.assoc assms(1))
qed

lemma splitmix_consts:
  "(0xBF58476D1CE4E5B9 :: u64) * 10871156337175269513 = 1"
  "(0x94D049BB133111EB :: u64) * 3573116690164977347 = 1"
  "(0x9E3779B97F4A7C15 :: u64) * 17428512612931826493 = 1"
  by simp_all

lemma splitmix_mix_inj: "inj splitmix_mix"
proof (rule injI)
  fix x y assume "splitmix_mix x = splitmix_mix y"
  note xor_shift_inj [OF this [unfolded splitmix_mix_def Let_def], simplified]
  note odd_mult_inj [OF splitmix_consts(2) this]
  note xor_shift_inj [OF this, simplified]
  note odd_mult_inj [OF splitmix_consts(1) this]
  then show "x = y" by (rule xor_shift_inj) simp
qed

section \<open>Properties\<close>

text \<open>\<open>$random\<close> computed with doubles is an integer function of the seed: the generator steps once
  (a zero seed is replaced first), and with \<open>n\<close> the draw's numerator the result is the low 32 bits of
  \<open>n / 2 ^ 14 - 2 ^ 31\<close>, rounded down, or one less where that is a negative integer.\<close>

theorem random_is_integer_formula:
  "annex_n_random seed =
     (let seed' = lcg_step seed; k = draw_num seed' - 2 ^ 45
      in (word_of_int (if 0 \<le> k then k div 2 ^ 14 else - ((2 ^ 14 - k) div 2 ^ 14)), seed'))"
proof -
  define s n where "s = lcg_step seed" and "n = draw_num s"
  have n: "0 < n" "n < 2 ^ 47"
    using draw_num_range by (simp_all add: n_def)
  have two32: "f64_at f64_2_32 1 1106" and two31: "f64_at f64_2_31 1 1105"
    unfolding f64_2_32_def f64_2_31_def using at_pow [of 1055] at_pow [of 1054] by simp_all
  have "f64_at (f64_mul (f64_sub (mantissa_of s) f64_one) f64_2_32) (n * 1) 1060"
    using n unfolding n_def by (intro at_mul [OF fraction_at two32]) simp_all
  moreover have "f64_at f64_2_31 (2 ^ 45) 1060"
    using two31 at_shift [of f64_2_31 1 45 1060] by simp
  ultimately have "f64_at (f64_sub (f64_mul (f64_sub (mantissa_of s) f64_one) f64_2_32) f64_2_31) (n * 1 - 2 ^ 45) 1060"
    using n by (intro at_sub) simp_all
  then have "floor_cast (f64_sub (f64_mul (f64_sub (mantissa_of s) f64_one) f64_2_32) f64_2_31)
      = (if 0 \<le> n * 1 - 2 ^ 45 then (n * 1 - 2 ^ 45) div 2 ^ 14 else - ((2 ^ 14 - (n * 1 - 2 ^ 45)) div 2 ^ 14))"
    using n by (intro floor_cast_at) simp_all
  then show ?thesis
    by (simp add: annex_n_random_def Let_def flip: s_def n_def)
qed

text \<open>C28: \<open>$dist_uniform\<close> stays in its range for every seed and every pair of 32-bit bounds, and steps the
  generator exactly once; an empty range returns its start and leaves the seed alone.\<close>

theorem dist_uniform_in_range:
  "let (i, seed') = dist_uniform seed lo hi
   in if lo < hi then lo \<le> i \<and> i \<le> hi \<and> seed' = lcg_step seed else i = lo \<and> seed' = seed"
  by (auto simp: dist_uniform_def clamp_i_def uniform_def Let_def)

text \<open>The re-roll of the exponential variate never happens: a unit draw is never 0, so the variate is
  minus the logarithm of the fraction of one draw, whatever the logarithm.  The fraction of the top draw
  is larger than 1.\<close>

theorem exponential_draws_once:
  "\<exists>u. exponential lm seed = Some (f64_neg (lm_log lm u), lcg_step seed)
     \<and> f64_at u (draw_num (lcg_step seed)) 1028 \<and> 0 < draw_num (lcg_step seed)"
proof -
  let ?s = "lcg_step seed"
  define u where "u = fst (uniform seed (f64_zero False) f64_one)"
  have un: "uniform seed (f64_zero False) f64_one = (u, ?s)"
    by (simp add: u_def uniform_def Let_def)
  have one: "f64_at f64_one 1 1074"
    unfolding f64_one_def using at_pow [of 1023] by simp
  have "f64_at (f64_sub f64_one (f64_zero False)) (1 - 0) 1074"
    using one at_zero by (intro at_sub) simp_all
  note d = this
  have "f64_at (f64_mul (f64_sub f64_one (f64_zero False)) (f64_sub (mantissa_of ?s) f64_one))
      ((1 - 0) * draw_num ?s) 1028"
    using draw_num_range [of ?s] by (intro at_mul [OF d fraction_at]) simp_all
  from at_add [OF this at_zero [of False]] have at: "f64_at u (draw_num ?s) 1028"
    using draw_num_range [of ?s] by (simp add: u_def uniform_def Let_def)
  have "\<not> f64_eq u (f64_zero False)"
    using at at_zero [of False 1028] draw_num_range(1) [of ?s] finite_not_special
    by (auto simp: f64_eq_def f64_key_def f64_at_def)
  moreover have "f64_eq (f64_zero False) (f64_zero False)"
    using at_zero [of False 0] finite_not_special by (auto simp: f64_eq_def f64_at_def)
  ultimately have "exponential_go seed (f64_zero False) = Some (u, ?s)"
    by (subst exponential_go.simps, subst exponential_go.simps) (simp add: un Let_def)
  then show ?thesis
    using at draw_num_range(1) [of ?s] by (auto simp: exponential_def)
qed

text \<open>\<open>$urandom\<close> loses no state: from any state every state is reached within \<open>2 ^ 64\<close> draws, and different
  states mix to different 64-bit words, of which a draw shows the upper half.\<close>

theorem urandom_full_period:
  "bij splitmix_mix
   \<and> (\<forall>s t. \<exists>n < 2 ^ 64. ((\<lambda>s. snd (splitmix_urandom s)) ^^ n) s = t)
   \<and> fst (splitmix_urandom s) = ucast (drop_bit 32 (splitmix_mix (snd (splitmix_urandom s))))"
proof (intro conjI allI)
  show "bij splitmix_mix"
    using splitmix_mix_inj finite_UNIV_inj_surj [OF _ splitmix_mix_inj] by (simp add: bij_def)
  fix s t :: u64
  let ?g = "0x9E3779B97F4A7C15 :: u64"
  have steps: "((\<lambda>s. snd (splitmix_urandom s)) ^^ n) s = s + of_nat n * ?g" for n
    by (induction n) (simp_all add: splitmix_urandom_def Let_def algebra_simps)
  define n where "n = unat ((t - s) * 17428512612931826493)"
  have "of_nat n * ?g = (t - s) * (?g * 17428512612931826493)"
    unfolding n_def by (simp only: of_nat_unat ucast_id ac_simps)
  then have "s + of_nat n * ?g = t"
    by (simp only: splitmix_consts(3)) simp
  moreover have "n < 2 ^ 64"
    using unsigned_less [of "(t - s) * 17428512612931826493", where 'a = nat] by (simp add: n_def)
  ultimately show "\<exists>n < 2 ^ 64. ((\<lambda>s. snd (splitmix_urandom s)) ^^ n) s = t"
    using steps by metis
qed (simp add: splitmix_urandom_def Let_def)

end
