(* ===== verification/SysValues.thy ===== *)
theory SysValues
  imports StrOps Rng
begin

text \<open>
  System functions on the values of their arguments: the value-level half of the arms of \<open>eval_sysfunc\<close>,
  \<open>crates/sim-engine/src/eval/sysfunc.rs\<close>.
\<close>

section \<open>Small integers\<close>

definition put_word0 :: "sim_value \<Rightarrow> u64 \<Rightarrow> sim_value" where
  "put_word0 v x = v\<lparr>v_val := (v_val v)[0 := x]\<rparr>"

definition int32 :: "int \<Rightarrow> sim_value" where
  "int32 n = from_i128 (word_of_int n) 32 True"

section \<open>Conversions\<close>

definition rtoi_value :: "sim_value \<Rightarrow> sim_value" where
  "rtoi_value v = from_i128 (f64_as_i128 (to_f64_or_0 v)) 32 True"

definition itor_value :: "sim_value \<Rightarrow> sim_value" where
  "itor_value v = from_f64 (if v_real v then f64_round (to_f64_or_0 v) else to_f64_or_0 v)"

definition real_to_bits_value :: "sim_value \<Rightarrow> sim_value" where
  "real_to_bits_value v =
     mask_top ((if v_real v then v else from_f64 (to_f64_or_0 v))\<lparr>v_real := False, v_signed := False, v_width := 64\<rparr>)"

definition bits_to_real_value :: "sim_value \<Rightarrow> sim_value" where
  "bits_to_real_value src =
     (if has_xz src then from_f64 f64_nan
      else src\<lparr>v_real := True, v_signed := True, v_width := 64,
               v_val := [wget (v_val src) 0], v_unk := [wget (v_unk src) 0]\<rparr>)"

definition two_state_value :: "sim_value \<Rightarrow> sim_value" where
  "two_state_value a =
     (if v_real a then a
      else a\<lparr>v_val := map2 (\<lambda>v u. v AND NOT u) (v_val a) (v_unk a) @ drop (length (v_unk a)) (v_val a),
             v_unk := replicate (min (length (v_val a)) (length (v_unk a))) 0 @ drop (length (v_val a)) (v_unk a)\<rparr>)"

section \<open>Ceiling of the logarithm\<close>

text \<open>\<open>n - 1\<close> word by word with the borrow.\<close>

fun dec_words :: "u64 list \<Rightarrow> u64 list" where
  "dec_words [] = []"
| "dec_words (w # ws) = (if 0 < w then (w - 1) # ws else (- 1) # dec_words ws)"

definition clog2_words :: "u64 list \<Rightarrow> u64" where
  "clog2_words words =
     (if wget words 0 \<le> 1 \<and> list_all (\<lambda>w. w = 0) (drop 1 words) then 0
      else (let ws = dec_words words
            in case rposition_nz ws (length ws) of
                 Some k \<Rightarrow> 64 * of_nat k + (64 - of_nat (ValueReal.leading_zeros (ws ! k)))
               | None \<Rightarrow> 64 * 0 + (64 - of_nat (ValueReal.leading_zeros 0))))"

definition f64_2_64 :: f64 where "f64_2_64 = f64_pack False (1087 * 2 ^ 52)"

definition clog2_value :: "sim_value \<Rightarrow> sim_value" where
  "clog2_value a =
     (let r = f64_round (case to_f64 a of Some x \<Rightarrow> x | None \<Rightarrow> f64_nan)
      in if v_real a \<and> \<not> (f64_is_finite r \<and> f64_ge r (f64_zero False) \<and> f64_lt r f64_2_64) then all_x 32 False
         else (let a = (if v_real a then from_i128 (f64_as_i128 r) 64 False else a)
               in if has_xz a then all_x 32 False
                  else put_word0 (zeros 32 False) (clog2_words (v_val a))))"

section \<open>Bit counts\<close>

definition count_bits :: "sim_value \<Rightarrow> nat \<times> bool" where
  "count_bits a =
     fold (\<lambda>k (ones, unk_any).
             (let v = wget (v_val a) k; u = wget (v_unk a) k
              in (ones + pop_count (v AND NOT u), unk_any \<or> u \<noteq> 0)))
       [0..<nw1 (v_width a)] (0, False)"

definition count_value :: "sf_v7 \<Rightarrow> sim_value \<Rightarrow> sim_value" where
  "count_value which a =
     (let (ones, unk_any) = count_bits a
      in case which of
           S_CountOnes \<Rightarrow> put_word0 (zeros 32 True) (of_nat ones)
         | S_OneHot \<Rightarrow> logic (ones = 1)
         | S_OneHot0 \<Rightarrow> logic (ones \<le> 1)
         | _ \<Rightarrow> logic unk_any)"

section \<open>Time and random numbers\<close>

text \<open>\<open>now\<close> in the module's unit, rounded; the sum saturates at the largest 64-bit integer.\<close>

definition time_units :: "nat \<Rightarrow> nat \<Rightarrow> nat" where
  "time_units now time_mult = (let m = max time_mult 1 in min (now + m div 2) (2 ^ 64 - 1) div m)"

definition time_value :: "nat \<Rightarrow> nat \<Rightarrow> sim_value" where
  "time_value now time_mult = put_word0 (zeros 64 False) (of_nat (time_units now time_mult))"

definition stime_value :: "nat \<Rightarrow> nat \<Rightarrow> sim_value" where
  "stime_value now time_mult = put_word0 (zeros 32 False) (of_nat (time_units now time_mult) AND 0xFFFFFFFF)"

text \<open>\<open>u64 as f64\<close> rounds to the nearest double.\<close>

definition realtime_value :: "nat \<Rightarrow> nat \<Rightarrow> sim_value" where
  "realtime_value now time_mult = from_f64 (f64_div (f64_of_int (int now)) (f64_of_int (int (max time_mult 1))))"

definition urandom_range_draw :: "u32 \<Rightarrow> u32 \<Rightarrow> u64 \<Rightarrow> sim_value \<times> u64" where
  "urandom_range_draw b0 b1 st =
     (let (lo, hi) = (if b0 \<le> b1 then (b0, b1) else (b1, b0));
          range = ucast (hi - lo) + 1 :: u64;
          (r, st') = splitmix_urandom st
      in (put_word0 (zeros 32 False) (ucast lo + ucast r mod range), st'))"

end
