(* ===== verification/Eval.thy ===== *)
theory Eval
  imports EvalMonad SysValues Realness
begin

text \<open>
  The expression evaluator, \<open>crates/sim-engine/src/eval/eval_core.rs\<close>: one definition per arm of \<open>eval_ctx\<close> and of
  \<open>eval_binary_ctx\<close>, each over the evaluator it calls for its sub-expressions (\<open>rec\<close>).  The knot is tied
  in \<open>EvalAll\<close>.
\<close>

section \<open>The context\<close>

text \<open>\<open>NetReader\<close>: what the evaluator asks of the simulation state \<open>'s\<close>.  A method with an effect of its own
  (a deferred range report, a frame call, a latched warning) threads the state.\<close>

record 's net_reader =
  nr_read_net :: "nat \<Rightarrow> nat option \<Rightarrow> ('s, sim_value) ev"
  nr_dyn_size :: "'s \<Rightarrow> nat \<Rightarrow> nat option"
  nr_dyn_values :: "'s \<Rightarrow> nat \<Rightarrow> sim_value list option"
  nr_array_item :: "'s \<Rightarrow> bool \<Rightarrow> sim_value"
  nr_swap_item :: "(sim_value \<times> nat) option \<Rightarrow> ('s, (sim_value \<times> nat) option) ev"
  nr_dyn_warn :: "nat \<Rightarrow> ('s, unit) ev"
  nr_eval_call :: "nat \<Rightarrow> sim_value list \<Rightarrow> ('s, sim_value option) ev"
  nr_virtual_call :: "'s \<Rightarrow> nat \<Rightarrow> nat \<Rightarrow> sim_value list \<Rightarrow> nat"
  nr_formal_width :: "nat \<Rightarrow> nat \<Rightarrow> (nat \<times> bool) option"
  nr_formal_is_string :: "nat \<Rightarrow> nat \<Rightarrow> bool"
  nr_is_assoc :: "nat \<Rightarrow> bool"
  nr_assoc_read :: "nat \<Rightarrow> u64 option \<Rightarrow> ('s, sim_value) ev"
  nr_assoc_exists :: "'s \<Rightarrow> nat \<Rightarrow> u64 option \<Rightarrow> bool option"
  nr_is_assoc_str :: "nat \<Rightarrow> bool"
  nr_assoc_str_read :: "nat \<Rightarrow> u8 list option \<Rightarrow> ('s, sim_value) ev"
  nr_assoc_str_exists :: "'s \<Rightarrow> nat \<Rightarrow> u8 list option \<Rightarrow> bool option"
  nr_str_bytes :: "'s \<Rightarrow> nat \<Rightarrow> u8 list option"
  nr_str_byte_at :: "'s \<Rightarrow> nat \<Rightarrow> nat \<Rightarrow> u8 option"
  nr_fd_eof :: "'s \<Rightarrow> nat \<Rightarrow> sim_value"

text \<open>\<open>EvalCtx\<close>.  The functions of the \<open>libm\<close> crate and the real-number parser of the standard library
  behind \<open>parse_real_prefix\<close> are parameters of the context; the state carries the two generators \<open>RngCells\<close>.\<close>

record 's eval_state =
  es_env :: 's
  es_random :: u32
  es_urandom :: u64

record 's eval_ctx =
  ec_ir :: expr_ctx
  ec_nets :: "'s net_reader"
  ec_now :: nat
  ec_wt :: width_tab
  ec_time_mult :: nat
  ec_plusargs :: "u8 list list"
  ec_libm :: "sf_math \<Rightarrow> f64 \<Rightarrow> f64 \<Rightarrow> f64"
  ec_parse_real :: "u8 list \<Rightarrow> f64"

type_synonym 's eval_m = "('s eval_state, sim_value) ev"

text \<open>A read of the environment inside the whole state.\<close>

definition on_env :: "('s, 'a) ev \<Rightarrow> ('s eval_state, 'a) ev" where
  "on_env m = (\<lambda>s. map_option (\<lambda>(a, e). (a, s\<lparr>es_env := e\<rparr>)) (m (es_env s)))"

definition of_env :: "('s \<Rightarrow> 'a) \<Rightarrow> ('s eval_state, 'a) ev" where
  "of_env f = ev_get (\<lambda>s. f (es_env s))"

definition wt_get :: "'s eval_ctx \<Rightarrow> nat \<Rightarrow> self_width option" where
  "wt_get cx eid = arena_get (t_sw (ec_wt cx)) eid"

definition wt_is_real :: "'s eval_ctx \<Rightarrow> nat \<Rightarrow> bool option" where
  "wt_is_real cx eid = arena_get (t_real (ec_wt cx)) eid"

text \<open>The recursive evaluator an arm is given: expression, context width, context sign.\<close>

type_synonym 's evaluator = "nat \<Rightarrow> nat \<Rightarrow> bool \<Rightarrow> 's eval_m"

definition eval_self :: "'s eval_ctx \<Rightarrow> 's evaluator \<Rightarrow> nat \<Rightarrow> 's eval_m" where
  "eval_self cx rec eid = ev_bind (ev_opt (wt_get cx eid)) (\<lambda>sw. rec eid (w_width sw) (w_signed sw))"

section \<open>Leaves\<close>

definition eval_const :: "'s eval_ctx \<Rightarrow> nat \<Rightarrow> sim_value option" where
  "eval_const cx cid =
     map_option
       (\<lambda>c. if c_repr c = RealRepr then from_f64 (wget (p_val (c_bits c)) 0)
             else from_packed (c_bits c) (c_width c) (c_repr c = Numeric \<and> c_signed c))
       (arena_get (x_consts (ec_ir cx)) cid)"

definition assoc_key :: "'s eval_ctx \<Rightarrow> 's evaluator \<Rightarrow> nat \<Rightarrow> ('s eval_state, u64 option) ev" where
  "assoc_key cx rec eid =
     ev_bind (ev_opt (wt_get cx eid))
       (\<lambda>sw. let (w, sg) = assoc_key_eval_ctx (w_width sw) (w_signed sw)
             in ev_map assoc_key_of_value (rec eid w sg))"

definition assoc_str_key :: "'s eval_ctx \<Rightarrow> 's evaluator \<Rightarrow> nat \<Rightarrow> ('s eval_state, u8 list option) ev" where
  "assoc_str_key cx rec eid = ev_map assoc_str_key_of_value (eval_self cx rec eid)"

text \<open>The array word an index names; \<open>WORD_UNKNOWN\<close> and \<open>WORD_OOR\<close> are the two out-of-range sentinels.\<close>

definition WORD_UNKNOWN :: nat where "WORD_UNKNOWN = 2 ^ 32 - 1"
definition WORD_OOR :: nat where "WORD_OOR = 2 ^ 32 - 2"

definition word_index_of :: "u64 option \<Rightarrow> nat" where
  "word_index_of v =
     (case v of
        None \<Rightarrow> WORD_UNKNOWN
      | Some x \<Rightarrow> (if unat x < 2 ^ 32 then (if unat x = WORD_UNKNOWN then WORD_OOR else unat x) else WORD_OOR))"

text \<open>The net, the word and, of a read through a whole-net copy, the copy's width and sign.\<close>

definition signal_target ::
  "'s eval_ctx \<Rightarrow> nat \<Rightarrow> nat \<Rightarrow> nat option \<Rightarrow> (nat \<times> nat option \<times> (nat \<times> bool) option) option" where
  "signal_target cx eid net word =
     (case read_alias (ec_wt cx) eid of
        Some (n, w) \<Rightarrow> map_option (\<lambda>cv. (n, w, Some (n_width cv, n_signed cv))) (arena_get (x_nets (ec_ir cx)) net)
      | None \<Rightarrow> Some (net, word, None))"

definition copy_shaped :: "(nat \<times> bool) option \<Rightarrow> sim_value \<Rightarrow> sim_value" where
  "copy_shaped shape v =
     (case shape of
        Some (cw, cs) \<Rightarrow>
          (if \<not> v_real v \<and> \<not> v_str v
           then (if cw \<noteq> v_width v then resize v cw else v)\<lparr>v_signed := cs\<rparr>
           else v)
      | None \<Rightarrow> v)"

definition eval_plain_signal ::
  "'s eval_ctx \<Rightarrow> 's evaluator \<Rightarrow> nat \<Rightarrow> nat option \<Rightarrow> (nat \<times> bool) option \<Rightarrow> 's eval_m" where
  "eval_plain_signal cx rec net word shape =
     ev_bind (ev_option (\<lambda>weid. ev_map (\<lambda>v. word_index_of (to_u64 v)) (eval_self cx rec weid)) word)
       (\<lambda>widx. ev_map (copy_shaped shape) (on_env (nr_read_net (ec_nets cx) net widx)))"

definition eval_signal :: "'s eval_ctx \<Rightarrow> 's evaluator \<Rightarrow> nat \<Rightarrow> nat \<Rightarrow> nat option \<Rightarrow> 's eval_m" where
  "eval_signal cx rec eid net word =
     ev_bind (ev_opt (signal_target cx eid net word))
       (\<lambda>(net, word, shape).
          case word of
            Some weid \<Rightarrow>
              if nr_is_assoc_str (ec_nets cx) net
              then ev_bind (assoc_str_key cx rec weid) (\<lambda>k. on_env (nr_assoc_str_read (ec_nets cx) net k))
              else if nr_is_assoc (ec_nets cx) net
              then ev_bind (assoc_key cx rec weid) (\<lambda>k. on_env (nr_assoc_read (ec_nets cx) net k))
              else eval_plain_signal cx rec net word shape
          | None \<Rightarrow> eval_plain_signal cx rec net word shape)"

section \<open>Unary operators\<close>

definition eval_unary_self :: "'s eval_ctx \<Rightarrow> 's evaluator \<Rightarrow> un_op \<Rightarrow> nat \<Rightarrow> 's eval_m" where
  "eval_unary_self cx rec op operand = ev_bind (eval_self cx rec operand) (\<lambda>a. ev_opt (unary_self_of op a))"

definition eval_unary :: "'s eval_ctx \<Rightarrow> 's evaluator \<Rightarrow> un_op \<Rightarrow> nat \<Rightarrow> nat \<Rightarrow> bool \<Rightarrow> 's eval_m" where
  "eval_unary cx rec op operand w eff_signed =
     (case op of
        Plus \<Rightarrow> rec operand w eff_signed
      | Minus \<Rightarrow> ev_map negate (rec operand w eff_signed)
      | BitNot \<Rightarrow> ev_bind (rec operand w eff_signed) (\<lambda>a. ev_opt (bit_not a eff_signed))
      | _ \<Rightarrow> ev_map (\<lambda>b. resize_keep_sign b w False) (eval_unary_self cx rec op operand))"

section \<open>Binary operators\<close>

definition both :: "('s, 'a) ev \<Rightarrow> ('s, 'b) ev \<Rightarrow> ('a \<Rightarrow> 'b \<Rightarrow> ('s, 'c) ev) \<Rightarrow> ('s, 'c) ev" where
  "both m n f = ev_bind m (\<lambda>a. ev_bind n (f a))"

text \<open>\<open>is_real(lhs) || is_real(rhs)\<close>, each entry read before the operands.\<close>

definition either_real :: "'s eval_ctx \<Rightarrow> nat \<Rightarrow> nat \<Rightarrow> bool option" where
  "either_real cx l r = Option.bind (wt_is_real cx l) (\<lambda>b. if b then Some True else wt_is_real cx r)"

definition eval_arith :: "'s eval_ctx \<Rightarrow> 's evaluator \<Rightarrow> bin_op \<Rightarrow> nat \<Rightarrow> nat \<Rightarrow> nat \<Rightarrow> bool \<Rightarrow> 's eval_m" where
  "eval_arith cx rec op lhs rhs w eff_signed =
     ev_bind (ev_opt (either_real cx lhs rhs))
       (\<lambda>re. if re
             then both (eval_self cx rec lhs) (eval_self cx rec rhs) (\<lambda>l r. ev_opt (arith op l r))
             else both (rec lhs w eff_signed) (rec rhs w eff_signed) (\<lambda>l r. ev_opt (arith op l r)))"

text \<open>A known zero base with a negative known exponent is x.\<close>

definition zero_pow_neg :: "sim_value \<Rightarrow> sim_value \<Rightarrow> bool" where
  "zero_pow_neg base e \<longleftrightarrow>
     \<not> has_xz base \<and> \<not> has_xz e \<and> to_u128 base = Some 0 \<and>
     (case to_i128_signed e of Some x \<Rightarrow> sint x < 0 | None \<Rightarrow> False)"

definition pow_values :: "nat \<Rightarrow> sim_value \<Rightarrow> sim_value \<Rightarrow> sim_value option" where
  "pow_values w base exp_raw =
     (let e = resize exp_raw (max (v_width exp_raw) w)
      in if zero_pow_neg base e then Some (all_x w (v_signed base))
         else map_option (\<lambda>v. resize v w) (arith Pow base e))"

definition eval_pow :: "'s eval_ctx \<Rightarrow> 's evaluator \<Rightarrow> nat \<Rightarrow> nat \<Rightarrow> nat \<Rightarrow> bool \<Rightarrow> 's eval_m" where
  "eval_pow cx rec lhs rhs w eff_signed =
     both (rec lhs w eff_signed) (eval_self cx rec rhs) (\<lambda>base e. ev_opt (pow_values w base e))"

definition bitwise_word :: "bin_op \<Rightarrow> (u64 \<Rightarrow> u64 \<Rightarrow> u64 \<Rightarrow> u64 \<Rightarrow> u64 \<times> u64) option" where
  "bitwise_word op =
     (case op of BitAnd \<Rightarrow> Some and_w | BitOr \<Rightarrow> Some or_w | BitXor \<Rightarrow> Some xor_w | BitXnor \<Rightarrow> Some xnor_w
      | _ \<Rightarrow> None)"

definition eval_bitwise :: "'s evaluator \<Rightarrow> bin_op \<Rightarrow> nat \<Rightarrow> nat \<Rightarrow> nat \<Rightarrow> bool \<Rightarrow> 's eval_m" where
  "eval_bitwise rec op lhs rhs w eff_signed =
     both (rec lhs w eff_signed) (rec rhs w eff_signed)
       (\<lambda>l r. ev_opt (Option.bind (bitwise_word op) (\<lambda>f. bitwise f l r)))"

text \<open>The operands of a comparison, sized by each other.\<close>

definition eval_pair ::
  "'s eval_ctx \<Rightarrow> 's evaluator \<Rightarrow> nat \<Rightarrow> nat \<Rightarrow> (sim_value \<Rightarrow> sim_value \<Rightarrow> 's eval_m) \<Rightarrow> 's eval_m" where
  "eval_pair cx rec lhs rhs f =
     ev_bind (ev_opt (wt_get cx lhs))
       (\<lambda>lw. ev_bind (ev_opt (wt_get cx rhs))
          (\<lambda>rw. let cmp_w = max (w_width lw) (w_width rw); pair_signed = (w_signed lw \<and> w_signed rw)
                in both (rec lhs cmp_w pair_signed) (rec rhs cmp_w pair_signed) f))"

definition compare_values :: "bin_op \<Rightarrow> sim_value \<Rightarrow> sim_value \<Rightarrow> sim_value option" where
  "compare_values op l r =
     (if op = CaseEq \<or> op = CaseNe then Some (case_eq op l r)
      else if op = Eq \<or> op = Ne then Some (log_eq op l r)
      else relational op l r)"

definition eval_compare :: "'s eval_ctx \<Rightarrow> 's evaluator \<Rightarrow> bin_op \<Rightarrow> nat \<Rightarrow> nat \<Rightarrow> nat \<Rightarrow> 's eval_m" where
  "eval_compare cx rec op lhs rhs w =
     ev_map (\<lambda>b. resize_keep_sign b w False)
       (ev_bind (ev_opt (either_real cx lhs rhs))
          (\<lambda>re. if re
                then both (eval_self cx rec lhs) (eval_self cx rec rhs) (\<lambda>l r. ev_opt (compare_values op l r))
                else eval_pair cx rec lhs rhs (\<lambda>l r. ev_opt (compare_values op l r))))"

definition eval_wildcard :: "'s eval_ctx \<Rightarrow> 's evaluator \<Rightarrow> bin_op \<Rightarrow> nat \<Rightarrow> nat \<Rightarrow> nat \<Rightarrow> 's eval_m" where
  "eval_wildcard cx rec op lhs rhs w =
     ev_map (\<lambda>b. resize_keep_sign b w False) (eval_pair cx rec lhs rhs (\<lambda>l r. ev_ret (casez_eq op l r)))"

text \<open>\<open>&&\<close> and \<open>||\<close>: the right operand is evaluated only when the left does not decide.\<close>

definition decides :: "bin_op \<Rightarrow> tri" where
  "decides op = (if op = LogAnd then TriFalse else TriTrue)"

definition eval_logical :: "'s eval_ctx \<Rightarrow> 's evaluator \<Rightarrow> bin_op \<Rightarrow> nat \<Rightarrow> nat \<Rightarrow> nat \<Rightarrow> 's eval_m" where
  "eval_logical cx rec op lhs rhs w =
     ev_bind (eval_self cx rec lhs)
       (\<lambda>l. let lt = truthiness l
            in ev_map (\<lambda>rt. resize_keep_sign (log_bin_of op lt rt) w False)
                 (if lt = decides op then ev_ret lt else ev_map truthiness (eval_self cx rec rhs)))"

definition eval_shift :: "'s eval_ctx \<Rightarrow> 's evaluator \<Rightarrow> bin_op \<Rightarrow> nat \<Rightarrow> nat \<Rightarrow> nat \<Rightarrow> bool \<Rightarrow> 's eval_m" where
  "eval_shift cx rec op lhs rhs w eff_signed =
     both (rec lhs w eff_signed) (eval_self cx rec rhs)
       (\<lambda>l r. ev_ret
          (case op of
             Shr \<Rightarrow> shift_right l r False
           | AShr \<Rightarrow> resize_keep_sign (shift_right l r eff_signed) w eff_signed
           | _ \<Rightarrow> resize_keep_sign (shift_left l r) w eff_signed))"

definition eval_binary_ctx ::
  "'s eval_ctx \<Rightarrow> 's evaluator \<Rightarrow> bin_op \<Rightarrow> nat \<Rightarrow> nat \<Rightarrow> nat \<Rightarrow> bool \<Rightarrow> 's eval_m" where
  "eval_binary_ctx cx rec op lhs rhs w eff_signed =
     (if op \<in> {Add, Sub, Mul, Div, Mod} then eval_arith cx rec op lhs rhs w eff_signed
      else if op = Pow then eval_pow cx rec lhs rhs w eff_signed
      else if op \<in> {BitAnd, BitOr, BitXor, BitXnor} then eval_bitwise rec op lhs rhs w eff_signed
      else if op \<in> {Lt, Le, Gt, Ge, Eq, Ne, CaseEq, CaseNe} then eval_compare cx rec op lhs rhs w
      else if op \<in> {CasezEq, CasexEq} then eval_wildcard cx rec op lhs rhs w
      else if op \<in> {LogAnd, LogOr} then eval_logical cx rec op lhs rhs w
      else eval_shift cx rec op lhs rhs w eff_signed)"

section \<open>The conditional operator\<close>

text \<open>Where either arm is real, an integral arm converts at its own width.\<close>

definition ternary_arm :: "'s eval_ctx \<Rightarrow> 's evaluator \<Rightarrow> bool \<Rightarrow> nat \<Rightarrow> nat \<Rightarrow> bool \<Rightarrow> 's eval_m" where
  "ternary_arm cx rec real_node eid w eff_signed =
     ev_bind (if real_node then ev_opt (wt_is_real cx eid) else ev_ret True)
       (\<lambda>same. if same then rec eid w eff_signed
               else ev_map (\<lambda>v. from_f64 (to_f64_or_0 v)) (eval_self cx rec eid))"

definition eval_ternary ::
  "'s eval_ctx \<Rightarrow> 's evaluator \<Rightarrow> nat \<Rightarrow> nat \<Rightarrow> nat \<Rightarrow> nat \<Rightarrow> bool \<Rightarrow> 's eval_m" where
  "eval_ternary cx rec cond then_e else_e w eff_signed =
     ev_bind (ev_opt (either_real cx then_e else_e))
       (\<lambda>real_node.
          let arm = (\<lambda>e. ternary_arm cx rec real_node e w eff_signed)
          in ev_bind (eval_self cx rec cond)
               (\<lambda>c. case truthiness c of
                      TriTrue \<Rightarrow> arm then_e
                    | TriFalse \<Rightarrow> arm else_e
                    | TriUnknown \<Rightarrow> both (arm then_e) (arm else_e) (\<lambda>t e. ev_ret (merge_x t e w eff_signed))))"

section \<open>Structural operators\<close>

definition eval_concat :: "'s eval_ctx \<Rightarrow> 's evaluator \<Rightarrow> nat list \<Rightarrow> 's eval_m" where
  "eval_concat cx rec parts =
     ev_bind (ev_seq (map (eval_self cx rec) parts)) (\<lambda>vals. ev_opt (concat_value vals))"

definition eval_replicate :: "'s eval_ctx \<Rightarrow> 's evaluator \<Rightarrow> nat \<Rightarrow> nat \<Rightarrow> 's eval_m" where
  "eval_replicate cx rec count value =
     ev_bind (ev_opt (const_u32_of_expr_ctx (ec_ir cx) count))
       (\<lambda>n. ev_bind (eval_self cx rec value)
          (\<lambda>v. ev_opt (replicate_value (case n of Some n \<Rightarrow> n | None \<Rightarrow> 0) v)))"

definition eval_select :: "'s eval_ctx \<Rightarrow> 's evaluator \<Rightarrow> nat \<Rightarrow> nat \<Rightarrow> nat \<Rightarrow> sel_kind \<Rightarrow> 's eval_m" where
  "eval_select cx rec base offset width kind =
     ev_bind (ev_opt (const_u32_of_expr_ctx (ec_ir cx) width))
       (\<lambda>n. both (eval_self cx rec base) (eval_self cx rec offset)
          (\<lambda>src off. ev_opt (select_value kind src off (case n of Some n \<Rightarrow> n | None \<Rightarrow> 1))))"

section \<open>Calls\<close>

text \<open>An actual is evaluated at the formal's width and its own sign; a string formal takes a heap string.\<close>

definition eval_actual :: "'s eval_ctx \<Rightarrow> 's evaluator \<Rightarrow> nat \<Rightarrow> nat \<Rightarrow> nat \<Rightarrow> 's eval_m" where
  "eval_actual cx rec func i a =
     (if nr_formal_is_string (ec_nets cx) func i
      then ev_bind (ev_opt (wt_get cx a))
             (\<lambda>sw. ev_map (\<lambda>v. from_str_bytes (string_store_bytes v)) (rec a (max (w_width sw) 1) (w_signed sw)))
      else ev_bind (ev_opt (wt_get cx a))
             (\<lambda>sw. rec a (case nr_formal_width (ec_nets cx) func i of Some (fw, _) \<Rightarrow> fw | None \<Rightarrow> w_width sw)
                     (w_signed sw)))"

definition eval_call :: "'s eval_ctx \<Rightarrow> 's evaluator \<Rightarrow> nat \<Rightarrow> nat \<Rightarrow> nat list \<Rightarrow> nat \<Rightarrow> bool \<Rightarrow> 's eval_m" where
  "eval_call cx rec eid func args w eff_signed =
     ev_bind (ev_seq (map (\<lambda>(i, a). eval_actual cx rec func i a) (enumerate 0 args)))
       (\<lambda>argv. ev_bind (of_env (\<lambda>e. nr_virtual_call (ec_nets cx) e eid func argv))
          (\<lambda>target. ev_map
             (\<lambda>r. case r of Some r \<Rightarrow> resize_keep_sign r w eff_signed | None \<Rightarrow> resize_keep_sign x1 w False)
             (on_env (nr_eval_call (ec_nets cx) target argv))))"

end
