(* ===== verification/EvalSys.thy ===== *)
theory EvalSys
  imports Eval
begin

text \<open>
  System functions in expressions, \<open>crates/sim-engine/src/eval/sysfunc.rs\<close>: the arms of \<open>eval_sysfunc\<close> by the
  groups of \<open>sys_func_id\<close>, and \<open>eval_sysfunc_ctx\<close>, which sizes them to their context.
\<close>

section \<open>Arguments\<close>

text \<open>\<open>args[0]\<close> panics on an empty list; \<open>args.first()\<close> does not.\<close>

definition arg0 :: "'s eval_ctx \<Rightarrow> 's evaluator \<Rightarrow> nat list \<Rightarrow> 's eval_m" where
  "arg0 cx rec args = ev_bind (ev_opt (arena_get args 0)) (eval_self cx rec)"

definition arg_opt :: "'s eval_ctx \<Rightarrow> 's evaluator \<Rightarrow> nat list \<Rightarrow> nat \<Rightarrow> ('s eval_state, sim_value option) ev" where
  "arg_opt cx rec args i = ev_option (eval_self cx rec) (arena_get args i)"

text \<open>The handle net a method's first argument names.\<close>

definition handle_of :: "'s eval_ctx \<Rightarrow> nat list \<Rightarrow> nat option" where
  "handle_of cx args =
     Option.bind (arena_get args 0)
       (\<lambda>a. case arena_get (x_exprs (ec_ir cx)) a of Some (Signal net None) \<Rightarrow> Some net | _ \<Rightarrow> None)"

definition const_str_arg :: "'s eval_ctx \<Rightarrow> nat \<Rightarrow> u8 list option" where
  "const_str_arg cx eid =
     (case arena_get (x_exprs (ec_ir cx)) eid of
        Some (Const val) \<Rightarrow>
          (case arena_get (x_consts (ec_ir cx)) val of
             Some c \<Rightarrow> (if c_repr c = StrUtf8 then Some (const_bytes c) else None)
           | None \<Rightarrow> None)
      | _ \<Rightarrow> None)"

text \<open>A string net's heap bytes, or the packed bytes of a string-valued expression.\<close>

definition handle_str_bytes :: "'s eval_ctx \<Rightarrow> 's evaluator \<Rightarrow> nat option \<Rightarrow> ('s eval_state, u8 list option) ev" where
  "handle_str_bytes cx rec arg =
     (case arg of
        None \<Rightarrow> ev_ret None
      | Some a \<Rightarrow>
          ev_bind
            (case arena_get (x_exprs (ec_ir cx)) a of
               Some (Signal net None) \<Rightarrow> of_env (\<lambda>e. nr_str_bytes (ec_nets cx) e net)
             | _ \<Rightarrow> ev_ret None)
            (\<lambda>b. case b of
                   Some b \<Rightarrow> ev_ret (Some b)
                 | None \<Rightarrow> ev_map (\<lambda>v. if v_real v \<or> has_xz v then None else Some (value_str_bytes v))
                             (eval_self cx rec a)))"

definition str_byte_at ::
  "'s eval_ctx \<Rightarrow> 's evaluator \<Rightarrow> nat option \<Rightarrow> nat option \<Rightarrow> ('s eval_state, u8 option) ev" where
  "str_byte_at cx rec arg i =
     (case (arg, i) of
        (Some a, Some i) \<Rightarrow>
          ev_bind
            (case arena_get (x_exprs (ec_ir cx)) a of
               Some (Signal net None) \<Rightarrow> of_env (\<lambda>e. nr_str_byte_at (ec_nets cx) e net i)
             | _ \<Rightarrow> ev_ret None)
            (\<lambda>c. case c of
                   Some c \<Rightarrow> ev_ret (Some c)
                 | None \<Rightarrow> ev_map
                     (\<lambda>v. if v_real v \<or> has_xz v then None
                          else Some (case packed_byte_at v i of Some b \<Rightarrow> b | None \<Rightarrow> 0))
                     (eval_self cx rec a))
      | _ \<Rightarrow> ev_ret None)"

section \<open>Casts, conversions and time\<close>

definition sysfunc_base :: "'s eval_ctx \<Rightarrow> 's evaluator \<Rightarrow> sf_base \<Rightarrow> nat list \<Rightarrow> 's eval_m" where
  "sysfunc_base cx rec f args =
     (case f of
        S_Time \<Rightarrow> ev_ret (time_value (ec_now cx) (ec_time_mult cx))
      | S_Realtime \<Rightarrow> ev_ret (realtime_value (ec_now cx) (ec_time_mult cx))
      | S_Signed \<Rightarrow> ev_map (\<lambda>a. a\<lparr>v_signed := True\<rparr>) (arg0 cx rec args)
      | S_Unsigned \<Rightarrow> ev_map (\<lambda>a. a\<lparr>v_signed := False\<rparr>) (arg0 cx rec args)
      | S_Clog2 \<Rightarrow> ev_map clog2_value (arg0 cx rec args)
      | S_Rtoi \<Rightarrow> ev_map rtoi_value (arg0 cx rec args)
      | S_Itor \<Rightarrow> ev_map itor_value (arg0 cx rec args)
      | S_RealToBits \<Rightarrow> ev_map real_to_bits_value (arg0 cx rec args)
      | S_BitsToReal \<Rightarrow> ev_map bits_to_real_value (arg0 cx rec args))"

definition sysfunc_late :: "'s eval_ctx \<Rightarrow> 's evaluator \<Rightarrow> sf_late \<Rightarrow> nat list \<Rightarrow> 's eval_m" where
  "sysfunc_late cx rec f args =
     (case f of
        S_RealToInt \<Rightarrow>
          ev_map (\<lambda>v. real_to_int_round (case Option.bind v to_f64 of Some x \<Rightarrow> x | None \<Rightarrow> f64_zero False) 128 True)
            (arg_opt cx rec args 0)
      | S_TwoState \<Rightarrow>
          ev_map (\<lambda>v. case v of Some a \<Rightarrow> two_state_value a | None \<Rightarrow> zeros 1 False) (arg_opt cx rec args 0)
      | S_ReadmemAssocTarget \<Rightarrow> ev_ret (all_x 1 False)
      | S_StrCast \<Rightarrow>
          ev_map (\<lambda>v. case v of Some a \<Rightarrow> from_str_bytes (to_sv_string_bytes a) | None \<Rightarrow> from_str_bytes [])
            (arg_opt cx rec args 0)
      | _ \<Rightarrow> ev_ret (all_x 32 True))"

definition sysfunc_math :: "'s eval_ctx \<Rightarrow> 's evaluator \<Rightarrow> sf_math \<Rightarrow> nat list \<Rightarrow> 's eval_m" where
  "sysfunc_math cx rec f args =
     (let real_arg = (\<lambda>i. ev_map (\<lambda>v. case v of Some v \<Rightarrow> to_f64_or_0 v | None \<Rightarrow> f64_zero False) (arg_opt cx rec args i))
      in ev_bind (real_arg 0)
           (\<lambda>x. ev_map (\<lambda>y. from_f64 (ec_libm cx f x y))
              (if f \<in> {S_Pow, S_Atan2, S_Hypot} then real_arg 1 else ev_ret (f64_zero False))))"

section \<open>Dynamic objects\<close>

definition size_value :: "nat option \<Rightarrow> sim_value" where
  "size_value n =
     (case n of
        Some n \<Rightarrow> put_word0 (zeros 32 True) (of_nat (min n (2 ^ 31 - 1)))
      | None \<Rightarrow> all_x 32 True)"

definition dyn_size_arm :: "'s eval_ctx \<Rightarrow> nat list \<Rightarrow> 's eval_m" where
  "dyn_size_arm cx args =
     (case handle_of cx args of
        Some n \<Rightarrow> of_env (\<lambda>e. size_value (nr_dyn_size (ec_nets cx) e n))
      | None \<Rightarrow> ev_ret (size_value None))"

text \<open>A pop outside a direct assignment reads x, warns and does not pop.\<close>

definition queue_pop_arm :: "'s eval_ctx \<Rightarrow> nat list \<Rightarrow> 's eval_m" where
  "queue_pop_arm cx args =
     (case Option.bind (handle_of cx args) (\<lambda>n. map_option (Pair n) (arena_get (x_nets (ec_ir cx)) n)) of
        Some (n, nv) \<Rightarrow>
          ev_map (\<lambda>_. all_x (max (n_width nv) 1) (n_signed nv)) (on_env (nr_dyn_warn (ec_nets cx) n))
      | None \<Rightarrow> ev_ret (all_x 32 False))"

definition assoc_exists :: "'s eval_ctx \<Rightarrow> 's evaluator \<Rightarrow> nat list \<Rightarrow> ('s eval_state, bool option) ev" where
  "assoc_exists cx rec args =
     (case handle_of cx args of
        None \<Rightarrow> ev_ret None
      | Some n \<Rightarrow>
          if nr_is_assoc_str (ec_nets cx) n
          then ev_bind (ev_option (assoc_str_key cx rec) (arena_get args 1))
                 (\<lambda>k. of_env (\<lambda>e. nr_assoc_str_exists (ec_nets cx) e n (Option.bind k (\<lambda>k. k))))
          else ev_bind (ev_option (assoc_key cx rec) (arena_get args 1))
                 (\<lambda>k. of_env (\<lambda>e. nr_assoc_exists (ec_nets cx) e n (Option.bind k (\<lambda>k. k)))))"

definition sysfunc_dyn :: "'s eval_ctx \<Rightarrow> 's evaluator \<Rightarrow> sf_dyn \<Rightarrow> nat list \<Rightarrow> 's eval_m" where
  "sysfunc_dyn cx rec f args =
     (case f of
        S_QPopBack \<Rightarrow> queue_pop_arm cx args
      | S_QPopFront \<Rightarrow> queue_pop_arm cx args
      | S_DynSize \<Rightarrow> dyn_size_arm cx args
      | S_AssocNum \<Rightarrow> dyn_size_arm cx args
      | S_AssocExists \<Rightarrow>
          ev_map (\<lambda>h. case h of Some b \<Rightarrow> put_word0 (zeros 1 False) (if b then 1 else 0) | None \<Rightarrow> all_x 1 False)
            (assoc_exists cx rec args)
      | _ \<Rightarrow>
          (case handle_of cx args of
             Some net \<Rightarrow> ev_map (\<lambda>_. all_x 32 True) (on_env (nr_dyn_warn (ec_nets cx) net))
           | None \<Rightarrow> ev_ret (all_x 32 True)))"

section \<open>Array reductions\<close>

definition static_array_values :: "'s eval_ctx \<Rightarrow> nat \<Rightarrow> ('s eval_state, sim_value list option) ev" where
  "static_array_values cx net =
     (case arena_get (x_nets (ec_ir cx)) net of
        None \<Rightarrow> ev_ret None
      | Some nv \<Rightarrow>
          if n_kind nv \<in> {DynArray, Queue, Assoc, AssocStr, StringNet} \<or> n_array_len nv = 0 then ev_ret None
          else ev_map Some
                 (ev_seq (map (\<lambda>i. on_env (nr_read_net (ec_nets cx) net (Some i))) [0..<n_array_len nv])))"

definition reduce_step :: "sf_array \<Rightarrow> sim_value \<Rightarrow> sim_value \<Rightarrow> sim_value option" where
  "reduce_step which acc e =
     (case which of
        S_ArrSum \<Rightarrow> arith Add acc e
      | S_ArrProduct \<Rightarrow> arith Mul acc e
      | S_ArrAnd \<Rightarrow> bitwise and_w acc e
      | S_ArrOr \<Rightarrow> bitwise or_w acc e
      | S_ArrXor \<Rightarrow> bitwise xor_w acc e)"

text \<open>One element: the \<open>with\<close> expression over the installed iterator, or the element at the handle's sign.\<close>

definition reduce_elem ::
  "'s eval_ctx \<Rightarrow> 's evaluator \<Rightarrow> nat option \<Rightarrow> bool \<Rightarrow> nat \<Rightarrow> sim_value \<Rightarrow> 's eval_m" where
  "reduce_elem cx rec with_eid elem_signed i e =
     (case with_eid of
        Some weid \<Rightarrow> ev_bind (on_env (nr_swap_item (ec_nets cx) (Some (e, i)))) (\<lambda>_. eval_self cx rec weid)
      | None \<Rightarrow> ev_ret (e\<lparr>v_signed := elem_signed\<rparr>))"

fun reduce_elems ::
  "'s eval_ctx \<Rightarrow> 's evaluator \<Rightarrow> sf_array \<Rightarrow> nat option \<Rightarrow> bool \<Rightarrow> nat \<Rightarrow> sim_value option \<Rightarrow> sim_value list \<Rightarrow> ('s eval_state, sim_value option) ev" where
  "reduce_elems cx rec which with_eid elem_signed i acc [] = ev_ret acc"
| "reduce_elems cx rec which with_eid elem_signed i acc (e # es) =
     ev_bind (reduce_elem cx rec with_eid elem_signed i e)
       (\<lambda>v. ev_bind (case acc of None \<Rightarrow> ev_ret v | Some a \<Rightarrow> ev_opt (reduce_step which a v))
          (\<lambda>a. reduce_elems cx rec which with_eid elem_signed (i + 1) (Some a) es))"

definition reduce_type :: "'s eval_ctx \<Rightarrow> nat option \<Rightarrow> nat option \<Rightarrow> (nat \<times> bool) option" where
  "reduce_type cx net with_eid =
     (case with_eid of
        Some weid \<Rightarrow> map_option (\<lambda>sw. (max (w_width sw) 1, w_signed sw)) (wt_get cx weid)
      | None \<Rightarrow>
          (case Option.bind net (arena_get (x_nets (ec_ir cx))) of
             Some nv \<Rightarrow> Some (max (n_width nv) 1, n_signed nv)
           | None \<Rightarrow> Some (32, True)))"

definition reduce_source :: "'s eval_ctx \<Rightarrow> nat option \<Rightarrow> ('s eval_state, sim_value list option) ev" where
  "reduce_source cx net =
     (case net of
        None \<Rightarrow> ev_ret None
      | Some n \<Rightarrow>
          ev_bind (of_env (\<lambda>e. nr_dyn_values (ec_nets cx) e n))
            (\<lambda>vs. case vs of Some vs \<Rightarrow> ev_ret (Some vs) | None \<Rightarrow> static_array_values cx n))"

definition sysfunc_array :: "'s eval_ctx \<Rightarrow> 's evaluator \<Rightarrow> sf_array \<Rightarrow> nat list \<Rightarrow> 's eval_m" where
  "sysfunc_array cx rec which args =
     (let net = handle_of cx args;
          with_eid = arena_get args 1;
          elem_signed = (case Option.bind net (arena_get (x_nets (ec_ir cx))) of Some nv \<Rightarrow> n_signed nv | None \<Rightarrow> True)
      in ev_bind (ev_opt (reduce_type cx net with_eid))
           (\<lambda>(w, sg). ev_bind (reduce_source cx net)
              (\<lambda>src. case src of
                       None \<Rightarrow> ev_ret (all_x w sg)
                     | Some [] \<Rightarrow> ev_ret (zeros w sg)
                     | Some elems \<Rightarrow>
                         ev_bind (on_env (nr_swap_item (ec_nets cx) None))
                           (\<lambda>saved. ev_bind (reduce_elems cx rec which with_eid elem_signed 0 None elems)
                              (\<lambda>acc. ev_map
                                 (\<lambda>_. resize_keep_sign (case acc of Some v \<Rightarrow> v | None \<Rightarrow> zeros w sg) w sg)
                                 (on_env (nr_swap_item (ec_nets cx) saved)))))))"

section \<open>Random numbers, counts and queries\<close>

definition draw_random :: "'s eval_m" where
  "draw_random = (\<lambda>s. let (r, seed) = annex_n_random (es_random s)
                      in Some (from_i128 (scast r) 32 True, s\<lparr>es_random := seed\<rparr>))"

definition draw_urandom :: "'s eval_m" where
  "draw_urandom = (\<lambda>s. let (r, st) = splitmix_urandom (es_urandom s)
                       in Some (put_word0 (zeros 32 False) (ucast r), s\<lparr>es_urandom := st\<rparr>))"

definition seed_urandom :: "u64 \<Rightarrow> ('s eval_state, unit) ev" where
  "seed_urandom seed = (\<lambda>s. Some ((), s\<lparr>es_urandom := seed\<rparr>))"

definition urandom_bound :: "sim_value option \<Rightarrow> u32 option" where
  "urandom_bound v =
     Option.bind v (\<lambda>v. if has_xz v then None else map_option ucast (to_u64 v))"

definition draw_range :: "u32 \<Rightarrow> u32 \<Rightarrow> 's eval_m" where
  "draw_range b0 b1 = (\<lambda>s. let (v, st) = urandom_range_draw b0 b1 (es_urandom s)
                           in Some (v, s\<lparr>es_urandom := st\<rparr>))"

definition sysfunc_random :: "'s eval_ctx \<Rightarrow> 's evaluator \<Rightarrow> nat list \<Rightarrow> 's eval_m" where
  "sysfunc_random cx rec args = (if args \<noteq> [] then ev_ret (all_x 32 True) else draw_random)"

definition sysfunc_urandom :: "'s eval_ctx \<Rightarrow> 's evaluator \<Rightarrow> nat list \<Rightarrow> 's eval_m" where
  "sysfunc_urandom cx rec args =
     ev_bind (arg_opt cx rec args 0)
       (\<lambda>v. ev_bind (case v of
                        Some v \<Rightarrow> seed_urandom (case to_u64 v of Some x \<Rightarrow> x | None \<Rightarrow> 0)
                      | None \<Rightarrow> ev_ret ())
              (\<lambda>_. draw_urandom))"

definition sysfunc_urandom_range :: "'s eval_ctx \<Rightarrow> 's evaluator \<Rightarrow> nat list \<Rightarrow> 's eval_m" where
  "sysfunc_urandom_range cx rec args =
     ev_bind (ev_map urandom_bound (arg_opt cx rec args 0))
       (\<lambda>b0. case b0 of
               None \<Rightarrow> ev_ret (all_x 32 False)
             | Some b0 \<Rightarrow>
                 ev_bind (if 1 < length args then ev_map urandom_bound (arg_opt cx rec args 1) else ev_ret (Some 0))
                   (\<lambda>b1. case b1 of None \<Rightarrow> ev_ret (all_x 32 False) | Some b1 \<Rightarrow> draw_range b0 b1))"

text \<open>\<open>$sformatf\<close> reaches the evaluator only as a concatenation of strings.\<close>

definition string_part :: "'s eval_ctx \<Rightarrow> 's evaluator \<Rightarrow> nat \<Rightarrow> ('s eval_state, u8 list) ev" where
  "string_part cx rec p =
     (case const_str_arg cx p of
        Some s \<Rightarrow> ev_ret s
      | None \<Rightarrow> ev_map (\<lambda>v. if v_str v then to_str_bytes v else fmt_packed_chars v) (eval_self cx rec p))"

definition sysfunc_v7 :: "'s eval_ctx \<Rightarrow> 's evaluator \<Rightarrow> sf_v7 \<Rightarrow> nat list \<Rightarrow> 's eval_m" where
  "sysfunc_v7 cx rec f args =
     (if f \<in> {S_CountOnes, S_OneHot, S_OneHot0, S_IsUnknown} then
        ev_map (\<lambda>v. case v of
                      Some a \<Rightarrow> count_value f a
                    | None \<Rightarrow> (if f = S_CountOnes then all_x 32 True else all_x 1 False))
          (arg_opt cx rec args 0)
      else if f = S_Random then sysfunc_random cx rec args
      else if f = S_Urandom then sysfunc_urandom cx rec args
      else if f = S_UrandomRange then sysfunc_urandom_range cx rec args
      else if f = S_Stime then ev_ret (stime_value (ec_now cx) (ec_time_mult cx))
      else if f = S_TestPlusargs then
        ev_ret (case Option.bind (arena_get args 0) (const_str_arg cx) of
                  Some q \<Rightarrow> int32 (if list_ex (\<lambda>p. take (length q) p = q) (ec_plusargs cx) then 1 else 0)
                | None \<Rightarrow> all_x 32 True)
      else if f = S_Sformatf then
        ev_map (\<lambda>parts. from_str_bytes (concat parts)) (ev_seq (map (string_part cx rec) (drop 1 args)))
      else ev_ret (all_x 32 True))"

section \<open>Strings\<close>

definition sysfunc_string :: "'s eval_ctx \<Rightarrow> 's evaluator \<Rightarrow> sf_string \<Rightarrow> nat list \<Rightarrow> 's eval_m" where
  "sysfunc_string cx rec f args =
     (let hs = handle_str_bytes cx rec (arena_get args 0);
          index = (\<lambda>k. ev_map (\<lambda>v. map_option unat (Option.bind v to_u64)) (arg_opt cx rec args k))
      in case f of
           S_StrLen \<Rightarrow>
             ev_map (\<lambda>b. case b of Some b \<Rightarrow> int32 (int (length b)) | None \<Rightarrow> all_x 32 True) hs
         | S_StrGetC \<Rightarrow>
             ev_bind (index 1)
               (\<lambda>i. ev_map
                  (\<lambda>c. case c of
                         Some c \<Rightarrow> (if i = None then all_x 8 False else put_word0 (zeros 8 False) (ucast c))
                       | None \<Rightarrow> all_x 8 False)
                  (str_byte_at cx rec (arena_get args 0) i))
         | S_StrSubstr \<Rightarrow>
             ev_bind hs
               (\<lambda>b. ev_bind (index 1)
                  (\<lambda>i. ev_map
                     (\<lambda>j. case (b, i, j) of
                            (Some b, Some i, Some j) \<Rightarrow>
                              (if j < i \<or> length b \<le> j then from_str_bytes []
                               else from_str_bytes (take (j + 1 - i) (drop i b)))
                          | _ \<Rightarrow> from_str_bytes [])
                     (index 2)))
         | S_StrToUpper \<Rightarrow>
             ev_map (\<lambda>b. case b of Some b \<Rightarrow> from_str_bytes (map to_ascii_upper b) | None \<Rightarrow> from_str_bytes []) hs
         | S_StrToLower \<Rightarrow>
             ev_map (\<lambda>b. case b of Some b \<Rightarrow> from_str_bytes (map to_ascii_lower b) | None \<Rightarrow> from_str_bytes []) hs
         | S_StrCmp \<Rightarrow>
             both (arg_opt cx rec args 0) (arg_opt cx rec args 1)
               (\<lambda>a b. ev_ret
                  (case (a, b) of
                     (Some a, Some b) \<Rightarrow> int32 (bytes_cmp (to_sv_string_bytes a) (to_sv_string_bytes b))
                   | _ \<Rightarrow> all_x 32 True)))"

definition sysfunc_convert :: "'s eval_ctx \<Rightarrow> 's evaluator \<Rightarrow> sf_convert \<Rightarrow> nat list \<Rightarrow> 's eval_m" where
  "sysfunc_convert cx rec f args =
     ev_map
       (\<lambda>b. case b of
              Some b \<Rightarrow>
                (case f of
                   S_StrAtoi \<Rightarrow> from_i128 (scast (ucast (parse_radix_prefix b 10) :: u32)) 32 True
                 | S_StrAtohex \<Rightarrow> from_i128 (scast (ucast (parse_radix_prefix b 16) :: u32)) 32 True
                 | S_StrAtooct \<Rightarrow> from_i128 (scast (ucast (parse_radix_prefix b 8) :: u32)) 32 True
                 | S_StrAtobin \<Rightarrow> from_i128 (scast (ucast (parse_radix_prefix b 2) :: u32)) 32 True
                 | S_StrAtoreal \<Rightarrow> from_f64 (ec_parse_real cx b))
            | None \<Rightarrow> (if f = S_StrAtoreal then all_x 64 True else all_x 32 True))
       (handle_str_bytes cx rec (arena_get args 0))"

definition sysfunc_v9 :: "'s eval_ctx \<Rightarrow> 's evaluator \<Rightarrow> sf_v9 \<Rightarrow> nat list \<Rightarrow> 's eval_m" where
  "sysfunc_v9 cx rec f args =
     (if f = S_Feof then
        ev_bind (arg_opt cx rec args 0)
          (\<lambda>v. case v of
                 Some v \<Rightarrow>
                   (if has_xz v then ev_ret (int32 (- 1))
                    else of_env (\<lambda>e. nr_fd_eof (ec_nets cx) e
                           (unat (ucast (case to_u64 v of Some x \<Rightarrow> x | None \<Rightarrow> 0) :: u32))))
               | None \<Rightarrow> ev_ret (int32 (- 1)))
      else ev_ret (all_x 32 True))"

section \<open>The dispatch\<close>

definition eval_sysfunc :: "'s eval_ctx \<Rightarrow> 's evaluator \<Rightarrow> sys_func_id \<Rightarrow> nat list \<Rightarrow> 's eval_m" where
  "eval_sysfunc cx rec which args =
     (case which of
        F_base f \<Rightarrow> sysfunc_base cx rec f args
      | F_dyn f \<Rightarrow> sysfunc_dyn cx rec f args
      | F_v7 f \<Rightarrow> sysfunc_v7 cx rec f args
      | F_string f \<Rightarrow> sysfunc_string cx rec f args
      | F_v9 f \<Rightarrow> sysfunc_v9 cx rec f args
      | F_array f \<Rightarrow> sysfunc_array cx rec f args
      | F_convert f \<Rightarrow> sysfunc_convert cx rec f args
      | F_math f \<Rightarrow> sysfunc_math cx rec f args
      | F_late f \<Rightarrow> sysfunc_late cx rec f args)"

definition eval_sysfunc_ctx ::
  "'s eval_ctx \<Rightarrow> 's evaluator \<Rightarrow> sys_func_id \<Rightarrow> nat list \<Rightarrow> nat \<Rightarrow> bool \<Rightarrow> 's eval_m" where
  "eval_sysfunc_ctx cx rec which args w eff_signed =
     (if which = F_base S_Signed then
        ev_map (\<lambda>a. resize_keep_sign (a\<lparr>v_signed := eff_signed\<rparr>) w eff_signed) (arg0 cx rec args)
      else if which = F_base S_Unsigned then
        ev_map (\<lambda>a. resize_keep_sign (a\<lparr>v_signed := False\<rparr>) w False) (arg0 cx rec args)
      else if which = F_late S_RealToInt \<and> 128 < w then
        ev_map (\<lambda>v. (real_to_int_round (case Option.bind v to_f64 of Some x \<Rightarrow> x | None \<Rightarrow> f64_zero False) w True)
                       \<lparr>v_signed := eff_signed\<rparr>)
          (arg_opt cx rec args 0)
      else ev_map (\<lambda>v. resize_keep_sign v w eff_signed) (eval_sysfunc cx rec which args))"

end
