(* ===== verification/EvalAll.thy ===== *)
theory EvalAll
  imports EvalSys
begin

text \<open>
  The evaluator as a whole: \<open>eval_ctx\<close>, \<open>eval\<close> and \<open>truthy\<close> of \<open>crates/sim-engine/src/eval/eval_core.rs\<close>.  The fuel
  is the depth of the stack; \<open>EvalSound\<close> proves that the number of the expression is enough.
\<close>

definition resized :: "nat \<Rightarrow> bool \<Rightarrow> 's eval_m \<Rightarrow> 's eval_m" where
  "resized w sg m = ev_map (\<lambda>v. resize_keep_sign v w sg) m"

definition eval_node :: "'s eval_ctx \<Rightarrow> 's evaluator \<Rightarrow> nat \<Rightarrow> expr \<Rightarrow> nat \<Rightarrow> bool \<Rightarrow> 's eval_m" where
  "eval_node cx rec eid e w eff_signed =
     (case e of
        Const val \<Rightarrow> resized w eff_signed (ev_opt (eval_const cx val))
      | Signal net word \<Rightarrow> resized w eff_signed (eval_signal cx rec eid net word)
      | ArrayItem index _ _ \<Rightarrow> resized w eff_signed (of_env (\<lambda>e. nr_array_item (ec_nets cx) e index))
      | Unary op x \<Rightarrow> eval_unary cx rec op x w eff_signed
      | Binary op l r \<Rightarrow> eval_binary_ctx cx rec op l r w eff_signed
      | Ternary c t f \<Rightarrow> eval_ternary cx rec c t f w eff_signed
      | Concat parts \<Rightarrow> resized w False (eval_concat cx rec parts)
      | Replicate n v \<Rightarrow> resized w False (eval_replicate cx rec n v)
      | Select b off width kind \<Rightarrow> resized w False (eval_select cx rec b off width kind)
      | SysFunc which args \<Rightarrow> eval_sysfunc_ctx cx rec which args w eff_signed
      | Call func args \<Rightarrow> eval_call cx rec eid func args w eff_signed)"

primrec eval_ctx :: "nat \<Rightarrow> 's eval_ctx \<Rightarrow> 's evaluator" where
  "eval_ctx 0 cx = (\<lambda>eid ctx_width ctx_signed s. None)"
| "eval_ctx (Suc fuel) cx =
     (\<lambda>eid ctx_width ctx_signed.
        ev_bind (ev_opt (wt_get cx eid))
          (\<lambda>sw. ev_bind (ev_opt (arena_get (x_exprs (ec_ir cx)) eid))
             (\<lambda>e. eval_node cx (eval_ctx fuel cx) eid e
                    (max (w_width sw) ctx_width) (w_signed sw \<and> ctx_signed))))"

definition eval_expr :: "nat \<Rightarrow> 's eval_ctx \<Rightarrow> nat \<Rightarrow> 's eval_m" where
  "eval_expr fuel cx eid = eval_self cx (eval_ctx fuel cx) eid"

definition truthy :: "nat \<Rightarrow> 's eval_ctx \<Rightarrow> nat \<Rightarrow> ('s eval_state, bool) ev" where
  "truthy fuel cx eid = ev_map (\<lambda>v. truthiness v = TriTrue) (eval_expr fuel cx eid)"

end
