(* ===== verification/EvalValues.thy ===== *)
theory EvalValues
  imports EvalAll
begin

text \<open>
  Every operation the evaluator applies to plain vectors (neither real nor string, canonical planes) returns a
  plain vector of the width the width table announces: the value-level half of the soundness of
  \<open>eval_ctx\<close>.
\<close>

definition plain :: "sim_value \<Rightarrow> bool" where
  "plain v \<longleftrightarrow> vec_ok v \<and> \<not> v_str v"

text \<open>A plain vector of \<open>w\<close> bits, signed only where the context is.\<close>

definition plain_w :: "nat \<Rightarrow> bool \<Rightarrow> sim_value \<Rightarrow> bool" where
  "plain_w w s v \<longleftrightarrow> plain v \<and> v_width v = w \<and> (v_signed v \<longrightarrow> s)"

named_theorems plain_intros \<open>operations that return plain vectors\<close>

lemma plainD: "plain v \<Longrightarrow> vec_ok v" "plain v \<Longrightarrow> val_ok v" "plain v \<Longrightarrow> \<not> v_str v" "plain v \<Longrightarrow> \<not> v_real v"
  by (simp_all add: plain_def val_ok_def vec_ok_def)

lemma plain_wD: "plain_w w s v \<Longrightarrow> plain v" "plain_w w s v \<Longrightarrow> v_width v = w" "plain_w w s v \<Longrightarrow> v_signed v \<Longrightarrow> s"
  by (simp_all add: plain_w_def)

lemma vec_not_real: "vec_ok v \<Longrightarrow> \<not> v_real v"
  by (simp add: vec_ok_def)

lemma plain_resized [plain_intros]: "plain v \<Longrightarrow> plain_w w s (resize_keep_sign v w s)"
  by (simp add: plain_w_def plain_def)

lemma plain_x [plain_intros]: "plain_w w s (all_x w s)" and plain_zeros [plain_intros]: "plain_w w s (zeros w s)"
  by (simp_all add: plain_w_def plain_def)

lemma plain_bit [plain_intros]: "plain (bit1 l)" "plain (logic b)" "plain x1" "plain one1"
proof -
  show b: "plain (bit1 l)" for l
    by (simp add: plain_def vec_ok_bit1) (simp add: bit1_def)
  show "plain (logic b)" "plain x1"
    using b by simp_all
  have o: "one1 = bit1 L1" by (simp add: one1_eq bit1_def l4_v_def l4_u_def)
  show "plain one1"
    unfolding o by (rule b)
qed

lemma plain_from_packed: "plain (from_packed b w s)"
  by (simp add: plain_def)

section \<open>Operators\<close>

lemma plain_negate: "plain_w w s v \<Longrightarrow> plain_w w s (negate v)"
  using negate_int [of v] by (cases "has_xz v") (auto simp: plain_w_def plain_def holds_int_def negate_def dest: vec_not_real)

lemma plain_bit_not:
  assumes "plain_w w s v"
  shows "\<exists>r. bit_not v s = Some r \<and> plain_w w s r"
  using bit_not_lanes [of v s] assms by (auto simp: plain_w_def plain_def)

lemma plain_unary_self:
  assumes "plain v" and "op \<in> one_bit_ops"
  shows "\<exists>r. unary_self_of op v = Some r \<and> plain r"
proof (cases "1 \<le> v_width v")
  case True
  then show ?thesis
    using unary_self_bits [OF plainD(1) [OF assms(1)] _ assms(2)] plain_bit by auto
next
  case False
  then have w: "v_width v = 0" by simp
  have z: "reduce_word v k = pair1 L0" for k
    by (simp add: reduce_word_def w pair1_def l4_v_def l4_u_def)
  show ?thesis
    using assms(2) plain_bit plain_w_def plain_zeros
    by (cases op; cases "truthiness v")
      (auto simp: unary_self_of_def one_bit_ops_def w reduce_bit_def z not1_pair tri_bit_pair1 plain_def)
qed

lemma plain_arith:
  assumes l: "plain l" and r: "plain r" and op: "op \<in> arith_ops"
  shows "\<exists>v. arith op l r = Some v \<and> plain_w (arith_width l r) (as_res (region_signs op l r)) v"
proof -
  note nr = plainD(4) [OF l] plainD(4) [OF r]
  consider (xz) "has_xz l \<or> has_xz r"
    | (cap) "\<not> has_xz l" "\<not> has_xz r" "WIDE_ARITH_CAP < arith_width l r" "op \<in> {Mul, Div, Mod, Pow}"
    | (int) "\<not> has_xz l" "\<not> has_xz r" "arith_width l r \<le> WIDE_ARITH_CAP \<or> op = Add \<or> op = Sub"
    using op by (fastforce simp: arith_ops_def)
  then show ?thesis
  proof cases
    case xz
    then show ?thesis using arith_xz [OF nr] plain_x by blast
  next
    case cap
    then show ?thesis using arith_cap [OF nr] plain_x by blast
  next
    case int
    show ?thesis
      using arith_lanes [OF plainD(2) [OF l] plainD(2) [OF r] int(1,2) op int(3) refl refl refl refl] plain_x
      by (auto simp: holds_int_def plain_w_def plain_def split: if_splits)
  qed
qed

lemma region_res: "op \<noteq> Pow \<Longrightarrow> as_res (region_signs op l r) = (v_signed l \<and> v_signed r)"
  "as_res (region_signs Pow l r) = v_signed l"
  by (simp_all add: region_signs_def Let_def)

lemma plain_arith_w:
  assumes "plain_w w s l" and "plain_w w s r" and "op \<in> {Add, Sub, Mul, Div, Mod}" and "1 \<le> w"
  shows "\<exists>v. arith op l r = Some v \<and> plain_w w s v"
proof -
  have "op \<in> arith_ops" "op \<noteq> Pow" using assms(3) by (auto simp: arith_ops_def)
  then obtain v where "arith op l r = Some v" "plain_w (arith_width l r) (v_signed l \<and> v_signed r) v"
    using plain_arith [of l r op] assms(1,2) by (auto simp: plain_w_def region_res)
  moreover have "arith_width l r = w" using assms by (simp add: plain_w_def arith_width_def)
  ultimately show ?thesis using assms(1) by (auto simp: plain_w_def)
qed

lemma plain_pow:
  assumes "plain_w w s b" and "plain e" and "1 \<le> w"
  shows "\<exists>v. pow_values w b e = Some v \<and> plain_w w s v"
proof -
  let ?e = "resize e (max (v_width e) w)"
  have e: "plain ?e"
    using assms(2) plainD(4) [OF assms(2)] by (simp add: plain_def)
  show ?thesis
  proof (cases "zero_pow_neg b ?e")
    case True
    then show ?thesis using assms(1) by (auto simp: pow_values_def Let_def plain_w_def plain_def)
  next
    case False
    obtain v where v: "arith Pow b ?e = Some v" "plain_w (arith_width b ?e) (v_signed b) v"
      using plain_arith [OF plain_wD(1) [OF assms(1)] e, of Pow] by (auto simp: arith_ops_def region_res)
    moreover have "plain_w w s (resize v w)"
      using v(2) assms(1) by (simp add: plain_w_def plain_def vec_not_real)
    ultimately show ?thesis using False by (auto simp: pow_values_def Let_def)
  qed
qed

lemma plain_bitwise:
  assumes "plain_w w s l" and "plain_w w s r" and "op \<in> {BitAnd, BitOr, BitXor, BitXnor}"
  shows "\<exists>v. Option.bind (bitwise_word op) (\<lambda>f. bitwise f l r) = Some v \<and> plain_w w s v"
proof -
  have ok: "val_ok l" "val_ok r" "\<not> v_str l" "\<not> v_str r"
    using assms by (simp_all add: plain_w_def plainD)
  show ?thesis
    using assms and_op.bitwise_lanes [OF ok] or_op.bitwise_lanes [OF ok] xor_op.bitwise_lanes [OF ok]
      xnor_op.bitwise_lanes [OF ok]
    by (auto simp: bitwise_word_def plain_w_def plain_def)
qed

lemma plain_compare:
  assumes "plain l" and "plain r"
  shows "\<exists>v. compare_values op l r = Some v \<and> plain v"
proof -
  have ok: "val_ok l" "val_ok r"
    using assms by (simp_all add: plainD)
  have "plain (eq_value op a b)" for a b
    by (simp add: eq_value_def plain_bit)
  moreover have "\<exists>v. relational op l r = Some v \<and> plain v"
    using relational_integral [OF ok] plainD(4) [OF assms(1)] plainD(4) [OF assms(2)] plain_bit
    by (cases "has_xz l \<or> has_xz r") (auto simp: relational_def)
  ultimately show ?thesis
    using case_eq_integral [OF ok] log_eq_integral [OF ok] plain_bit by (auto simp: compare_values_def)
qed

lemma plain_casez: "plain l \<Longrightarrow> plain r \<Longrightarrow> plain (casez_eq op l r)"
  by (simp add: casez_eq_bits plainD plain_bit)

lemma plain_log_bin: "op \<in> {LogAnd, LogOr} \<Longrightarrow> plain (log_bin_of op l r)"
  by (auto simp: log_bin_of_tables plain_bit)

lemma plain_shifts:
  assumes "plain_w w s l"
  shows "plain_w w s (shift_right l r ar)" and "plain (shift_left l r)"
  using assms shift_right_ok [of l r ar] shift_left_ok [of l r] by (auto simp: plain_w_def plain_def)

lemma merge_x_str: "\<not> v_str (merge_x t e w s)"
  by (simp add: merge_x_def Let_def)

lemma plain_merge: "plain_w w s (merge_x t e w s)"
  by (simp add: plain_w_def plain_def merge_x_bits merge_x_str)

section \<open>Structural operators\<close>

lemma plain_concat:
  assumes "sum_list (map v_width vals) < 2 ^ 32"
  shows "\<exists>v. concat_value vals = Some v \<and> plain v"
  using concat_value_bits [OF assms] by (auto simp: plain_def)

lemma plain_replicate:
  assumes "v_width v * n < 2 ^ 32"
  shows "\<exists>r. replicate_value n v = Some r \<and> plain r"
  using replicate_value_bits [OF assms] by (auto simp: plain_def)

lemma select_fill_total:
  assumes "vec_ok out" and "\<forall>i \<in> set is. i < v_width out"
  shows "\<exists>out'. select_fill src lsb is out = Some out' \<and> vec_ok out' \<and> v_width out' = v_width out
    \<and> v_str out' = v_str out"
  using assms
proof (induction "is" arbitrary: out)
  case (Cons i rest)
  have i: "i < v_width out" using Cons.prems by simp
  define p where "p = (let s = wrap_i64 (lsb + int i); k = nat (s mod 2 ^ 32)
    in if 0 \<le> s \<and> k < v_width src then get_vu src k else (0, 1))"
  obtain o1 where o1: "set_vu out i (fst p) (snd p) = Some o1" "vec_ok o1" "v_width o1 = v_width out" "v_str o1 = v_str out"
    by (rule set_vu_in [OF Cons.prems(1) i, of "fst p" "snd p"]) (rule that, assumption+)
  have "select_fill src lsb (i # rest) out = select_fill src lsb rest o1"
    using o1(1) by (auto simp: p_def Let_def split: if_splits)
  moreover have "\<exists>out'. select_fill src lsb rest o1 = Some out' \<and> vec_ok out' \<and> v_width out' = v_width o1
      \<and> v_str out' = v_str o1"
    by (rule Cons.IH) (use o1 Cons.prems in auto)
  ultimately show ?case using o1 by auto
qed simp

lemma plain_select:
  assumes "plain src" and "v_width src < 2 ^ 32" and "width < 2 ^ 32"
  shows "\<exists>v. select_value kind src off width = Some v \<and> plain v"
proof (cases "Option.bind (to_u64 off) (\<lambda>n. if unat n < 2 ^ 63 then Some (int (unat n)) else None)")
  case None
  then show ?thesis by (simp add: select_value_def plain_def)
next
  case (Some i)
  then obtain k where k: "to_u64 off = Some k" "unat k < 2 ^ 63" "i = int (unat k)"
    by (auto simp: bind_eq_Some_conv split: if_splits)
  obtain lsb w where lw: "select_lsb_width kind i width = (lsb, w)" by (cases "select_lsb_width kind i width")
  have w: "w < 2 ^ 32"
    using lw assms(3) by (cases kind) (auto simp: select_lsb_width_def)
  define out where "out = (zeros (max w 1) False)\<lparr>v_width := w\<rparr>"
  show ?thesis
  proof (cases "0 \<le> lsb \<and> lsb + int w \<le> int (v_width src)")
    case True
    then have "lsb + int w \<le> 2 ^ 32" using assms(2) by simp
    then show ?thesis
      using select_value_bits [OF plainD(1) [OF assms(1)] assms(2) k(1,2) lw [unfolded k(3)] _ w] by (auto simp: plain_def)
  next
    case False
    then have sv: "select_value kind src off width = map_option mask_top (select_fill src lsb [0..<w] out)"
      using Some lw unfolding select_value_def out_def Let_def by (simp only: option.case prod.case if_False)
    show ?thesis
    proof (cases "w = 0")
      case True
      then have "plain (mask_top out)" by (simp add: out_def plain_def mask_top_roomy roomy_def)
      then show ?thesis using sv True by simp
    next
      case w0: False
      then have "max w 1 = w" by simp
      then have "out = zeros w False" by (simp add: out_def)
      then obtain o1 where "select_fill src lsb [0..<w] out = Some o1" "vec_ok o1" "v_str o1 = v_str out"
        using select_fill_total [of out "[0..<w]" src lsb] by auto
      then show ?thesis using sv by (auto simp: plain_def mask_top_id out_def)
    qed
  qed
qed

section \<open>System functions\<close>

lemma plain_put:
  assumes "unat x < 2 ^ n" and "1 \<le> n" and "n \<le> 64"
  shows "plain (put_word0 (zeros n s) x)"
proof -
  have n: "nw1 n = 1" using assms(2,3) by (simp add: nw1_def v_nwords_def)
  have "put_word0 (zeros n s) x = (zeros n s)\<lparr>v_val := [x]\<rparr>"
    by (simp add: put_word0_def zeros_def n Let_def)
  moreover have "plane_ok n [x]"
    using assms(1) n by (intro wval_less_plane_ok) simp_all
  moreover have "vec_ok (zeros n s)" by simp
  ultimately show ?thesis
    by (simp add: plain_def vec_ok_def)
qed

lemma plain_i128 [plain_intros]: "plain (from_i128 i w s)" and plain_int32 [plain_intros]: "plain (int32 k)"
  by (simp_all add: plain_def int32_def)

lemma plain_round [plain_intros]: "plain_w (max w 1) s (real_to_int_round x w s)"
proof -
  have m: "plain_w n s (mask_top ((zeros n s)\<lparr>v_val := ws\<rparr>))" if "length ws = length (v_val (zeros n s))" for n ws
    using that by (simp add: plain_w_def plain_def)
  show ?thesis
    by (auto simp: real_to_int_round_def Let_def plain_w_def plain_def)
qed

lemma plain_size: "plain (size_value n)"
proof (cases n)
  case (Some k)
  have "unat (of_nat (min k (2 ^ 31 - 1)) :: u64) < 2 ^ 32"
    by (simp add: unat_of_nat)
  then show ?thesis using Some plain_put [of _ 32 True] by (simp add: size_value_def)
qed (simp add: size_value_def plain_def)

lemma plain_times: "plain (time_value now m)" "plain (stime_value now m)"
proof -
  show "plain (time_value now m)"
    unfolding time_value_def using unsigned_less [where 'a = nat and 'b = 64] by (intro plain_put) simp_all
  have "unat (x AND 0xFFFFFFFF) < 2 ^ 32" for x :: u64
    using word_and_le1 [of x "0xFFFFFFFF"] by (simp add: word_le_nat_alt)
  then show "plain (stime_value now m)"
    unfolding stime_value_def by (intro plain_put) simp_all
qed

lemma plain_two_state:
  assumes "plain v"
  shows "plain (two_state_value v)"
proof -
  have p: "plane_ok (v_width v) (v_val v)" "plane_ok (v_width v) (v_unk v)" "\<not> v_real v"
    using assms by (simp_all add: plain_def vec_ok_def)
  then have l: "length (v_val v) = nw1 (v_width v)" "length (v_unk v) = nw1 (v_width v)"
    by (simp_all add: plane_ok_iff)
  have w: "wget (map2 (\<lambda>v u. v AND NOT u) xs ys) k = wget xs k AND NOT (wget ys k)" if "length xs = length ys"
    for xs ys :: "u64 list" and k
    using that by (auto simp: wget_def)
  have "plane_ok (v_width v) (map2 (\<lambda>v u. v AND NOT u) (v_val v) (v_unk v))"
    using p l by (auto simp: plane_ok_iff pbit_def w bit_simps)
  moreover have "plane_ok (v_width v) (replicate (nw1 (v_width v)) 0)"
    by (simp add: plane_ok_iff pbit_def)
  ultimately show ?thesis
    using p l assms by (simp add: two_state_value_def plain_def vec_ok_def)
qed

lemma pop_count_le: "pop_count x \<le> 64"
  using length_filter_le [of "bit x" "[0..<64]"] by (simp add: pop_count_def)

lemma plain_count:
  assumes "v_width v \<le> width_max"
  shows "plain (count_value f v)"
proof -
  define step where "step = (\<lambda>k (ones, unk_any).
    (let x = wget (v_val v) k; u = wget (v_unk v) k in (ones + pop_count (x AND NOT u), unk_any \<or> u \<noteq> 0)))"
  have "fst (fold step [0..<n] (0, False)) \<le> 64 * n" for n
  proof (induction n)
    case (Suc n)
    then show ?case
      using pop_count_le [of "wget (v_val v) n AND NOT (wget (v_unk v) n)"]
      by (cases "fold step [0..<n] (0, False)") (simp add: step_def Let_def)
  qed simp
  moreover have "count_bits v = fold step [0..<nw1 (v_width v)] (0, False)"
    by (simp only: count_bits_def step_def)
  ultimately have "fst (count_bits v) \<le> 64 * nw1 (v_width v)"
    by (simp only:)
  moreover have "64 * nw1 (v_width v) \<le> width_max + 64"
    using assms by (simp add: nw1_def v_nwords_def)
  ultimately have "fst (count_bits v) < 2 ^ 32"
    by (simp add: width_max_def)
  then have "unat (of_nat (fst (count_bits v)) :: u64) < 2 ^ 32"
    by (simp add: unat_of_nat)
  then show ?thesis
    using plain_put [of "of_nat (fst (count_bits v))" 32 True] plain_bit(2)
    by (cases f; cases "count_bits v") (simp_all add: count_value_def del: logic_bit1)
qed

lemma rposition_lt: "rposition_nz ws n = Some k \<Longrightarrow> k < n"
  by (induction n) (auto split: if_splits)

lemma plain_clog2:
  assumes "plain v" and "v_width v \<le> width_max"
  shows "plain (clog2_value v)"
proof -
  have "length (v_val v) = nw1 (v_width v)"
    using assms(1) by (simp add: plain_def vec_ok_def plane_ok_iff)
  also have "64 * nw1 (v_width v) \<le> width_max + 64"
    using assms(2) by (simp add: nw1_def v_nwords_def)
  finally have len: "64 * length (v_val v) \<le> width_max + 64" by simp
  have dec: "length (dec_words ws) = length ws" for ws
    by (induction ws) simp_all
  have num: "64 * of_nat k + (64 - of_nat (ValueReal.leading_zeros x)) = (of_nat (64 * k + (64 - ValueReal.leading_zeros x)) :: u64)"
    for k x
    by (simp add: ValueReal.leading_zeros_def of_nat_diff)
  have small: "unat (of_nat n :: u64) < 2 ^ 32" if "n \<le> width_max + 64" for n
    using that by (simp add: unat_of_nat width_max_def)
  have "unat (clog2_words (v_val v)) < 2 ^ 32"
  proof (cases "rposition_nz (dec_words (v_val v)) (length (dec_words (v_val v)))")
    case None
    then show ?thesis
      using small [of "64 * 0 + (64 - ValueReal.leading_zeros 0)"] num [of 0 0] by (simp add: clog2_words_def)
  next
    case (Some k)
    then have "64 * k + 64 \<le> width_max + 64"
      using rposition_lt [OF Some] len dec [of "v_val v"] by linarith
    then have "64 * k + (64 - ValueReal.leading_zeros (dec_words (v_val v) ! k)) \<le> width_max + 64"
      by linarith
    then show ?thesis
      using small Some by (simp add: clog2_words_def num del: of_nat_add of_nat_mult)
  qed
  then show ?thesis
    using plain_put [of "clog2_words (v_val v)" 32 False] plainD(4) [OF assms(1)]
    by (simp add: clog2_value_def Let_def plain_def)
qed

section \<open>Draws\<close>

lemma unat_ucast_32: "unat (ucast x :: u64) = unat (x :: u32)"
  by (simp add: unsigned_ucast_eq take_bit_nat_eq_self_iff) (use unsigned_less [of x, where 'a = nat] in simp)

lemma range_draw_word:
  fixes lo hi r :: u32
  assumes "lo \<le> hi"
  defines "x \<equiv> ucast lo + ucast r mod (ucast (hi - lo) + 1) :: u64"
  shows "unat lo \<le> unat x" and "unat x \<le> unat hi"
proof -
  let ?g = "ucast (hi - lo) + 1 :: u64" and ?m = "ucast r mod (ucast (hi - lo) + 1) :: u64"
  have h: "unat lo \<le> unat hi" "unat hi < 2 ^ 32"
    using assms(1) unsigned_less [of hi, where 'a = nat] by (simp_all add: word_le_nat_alt)
  have "unat (hi - lo) = unat hi - unat lo"
    using assms(1) by (simp add: unat_sub)
  then have g: "unat ?g = unat hi - unat lo + 1"
    using h unat_ucast_32 [of "hi - lo"] by (simp add: unat_word_ariths)
  have "unat ?m = unat (ucast r :: u64) mod unat ?g"
    by (rule unat_mod)
  then have m: "unat ?m \<le> unat hi - unat lo"
    using g mod_less_divisor [of "unat ?g" "unat (ucast r :: u64)"] by linarith
  then have "unat x = unat lo + unat ?m"
    using h unat_ucast_32 [of lo] by (simp add: x_def unat_word_ariths)
  then show "unat lo \<le> unat x" "unat x \<le> unat hi"
    using m h by simp_all
qed

text \<open>One draw between two bounds: the generator steps once and the value is between them.\<close>

lemma range_draw:
  "\<exists>x. urandom_range_draw b0 b1 st = (put_word0 (zeros 32 False) x, snd (splitmix_urandom st))
     \<and> unat (min b0 b1) \<le> unat x \<and> unat x \<le> unat (max b0 b1)"
proof (cases "b0 \<le> b1")
  case True
  then show ?thesis
    using range_draw_word [OF True, of "fst (splitmix_urandom st)"]
    by (simp add: urandom_range_draw_def Let_def case_prod_beta min_def max_def) blast
next
  case False
  then have "b1 \<le> b0" by simp
  then show ?thesis
    using range_draw_word [of b1 b0 "fst (splitmix_urandom st)"] False
    by (simp add: urandom_range_draw_def Let_def case_prod_beta min_def max_def) blast
qed

lemma plain_range_draw: "plain (fst (urandom_range_draw b0 b1 st))"
proof -
  obtain x where x: "fst (urandom_range_draw b0 b1 st) = put_word0 (zeros 32 False) x" "unat x \<le> unat (max b0 b1)"
    using range_draw [of b0 b1 st] by auto
  then have "unat x < 2 ^ 32"
    using unsigned_less [of "max b0 b1", where 'a = nat] by simp
  then show ?thesis
    unfolding x(1) by (intro plain_put) simp_all
qed

lemma plain_urandom: "plain (put_word0 (zeros 32 False) (ucast (r :: u32)))"
  using unsigned_less [of r, where 'a = nat] by (intro plain_put) (simp_all add: unat_ucast_32)

lemma plain_flag: "plain (put_word0 (zeros 1 False) (if b then 1 else 0))"
  by (intro plain_put) simp_all

lemma plain_set_sign [simp]: "plain (v\<lparr>v_signed := b\<rparr>) = plain v"
  by (simp add: plain_def)

lemma plain_reduce_step:
  assumes "plain a" and "plain e"
  shows "\<exists>v. reduce_step f a e = Some v \<and> plain v"
proof -
  have ar: "\<exists>v. arith op a e = Some v \<and> plain v" if "op \<in> arith_ops" for op
    using plain_arith [OF assms that] by (auto simp: plain_w_def)
  have ok: "val_ok a" "val_ok e" "\<not> v_str a" "\<not> v_str e"
    using assms by (simp_all add: plainD)
  show ?thesis
    using ar [of Add] ar [of Mul] and_op.bitwise_lanes [OF ok] or_op.bitwise_lanes [OF ok] xor_op.bitwise_lanes [OF ok]
    by (cases f) (auto simp: reduce_step_def arith_ops_def plain_def)
qed

end
