(* ===== verification/EvalSound.thy ===== *)
theory EvalSound
  imports EvalValues
begin

text \<open>
  Soundness of \<open>eval_ctx\<close>: on a post-order design of vectors every expression evaluates, within a stack as
  deep as its number, to a plain vector of exactly the width of its context, whatever the store answers.  The store is
  the locale \<open>vector_reader\<close>; the arena of the native backend interprets it in \<open>Arena\<close>.
\<close>

section \<open>\<open>$clog2\<close>\<close>

lemma wval_dec_words: "0 < wval ws \<Longrightarrow> wval (dec_words ws) = wval ws - 1"
proof (induction ws)
  case (Cons w ws)
  show ?case
  proof (cases "0 < w")
    case True
    then have "unat (w - 1) = unat w - 1" "0 < unat w"
      by (simp_all add: unat_minus_one word_greater_zero_iff unat_gt_0)
    then show ?thesis using True by simp
  next
    case False
    then have w: "w = 0" by (simp add: word_greater_zero_iff)
    then have "0 < wval ws" using Cons.prems by simp
    moreover have "unat (- 1 :: u64) = 2 ^ 64 - 1" by (simp add: unsigned_minus_1_eq_mask mask_eq_exp_minus_1)
    ultimately show ?thesis using Cons.IH w by (simp add: wval_simps)
  qed
qed simp

lemma clog2_words_correct:
  assumes "64 * length ws < 2 ^ 32"
  shows "is_clog2_of (wval ws) (unat (clog2_words ws))"
proof (cases "wval ws \<le> 1")
  case True
  have "wget ws 0 \<le> 1 \<and> list_all (\<lambda>w. w = 0) (drop 1 ws)"
  proof (cases ws)
    case (Cons w rest)
    then have "unat w + 2 ^ 64 * wval rest \<le> 1" using True by simp
    then have "wval rest = 0" "unat w \<le> 1" by (cases "wval rest"; simp)+
    then show ?thesis using Cons by (simp add: wval_eq_0_iff list_all_iff word_le_nat_alt)
  qed simp
  then have "clog2_words ws = 0" by (simp add: clog2_words_def)
  then show ?thesis using True by (auto simp: is_clog2_of_def)
next
  case False
  let ?n = "wval ws - 1"
  let ?d = "dec_words ws"
  have "\<not> (wget ws 0 \<le> 1 \<and> list_all (\<lambda>w. w = 0) (drop 1 ws))"
  proof
    assume h: "wget ws 0 \<le> 1 \<and> list_all (\<lambda>w. w = 0) (drop 1 ws)"
    show False
    proof (cases ws)
      case (Cons w rest)
      then have "wval rest = 0" "unat w \<le> 1" using h by (simp_all add: wval_eq_0_iff list_all_iff word_le_nat_alt)
      then show False using Cons False by simp
    qed (use False in simp)
  qed
  moreover have d: "wval ?d = ?n" using False by (intro wval_dec_words) simp
  moreover have len: "length (dec_words us) = length us" for us by (induction us) simp_all
  ultimately obtain k where k: "rposition_nz ?d (length ?d) = Some k"
    and c: "clog2_words ws = 64 * of_nat k + (64 - of_nat (ValueReal.leading_zeros (?d ! k)))"
    using rposition_wval(1) [of ?d] False by (cases "rposition_nz ?d (length ?d)") (auto simp: clog2_words_def)
  have kl: "k < length ?d" using rposition_lt [OF k] .
  have b64: "bit_len (unat (?d ! k)) \<le> 64" by (rule bit_len_small) (rule unat_lt_64)
  then have e: "k * 64 + (64 - ValueReal.leading_zeros (?d ! k)) = bit_len ?n"
    using rposition_wval(2) [OF k] kl d by (simp add: ValueReal.leading_zeros_def wget_in)
  have "(64 * of_nat k + (64 - of_nat z) :: u64) = of_nat (k * 64 + (64 - z))" if "z \<le> 64" for z
    using that by (simp add: of_nat_diff mult.commute)
  from this [of "ValueReal.leading_zeros (?d ! k)"] have c: "clog2_words ws = of_nat (bit_len ?n)"
    unfolding c e by (simp add: ValueReal.leading_zeros_def)
  have "bit_len ?n \<le> 64 * length ws"
    using rposition_wval(2) [OF k] kl b64 len [of ws] d by (simp add: wget_in)
  then have u: "unat (clog2_words ws) = bit_len ?n"
    using assms c by (simp add: unat_of_nat)
  have pos: "0 < ?n" using False by simp
  note b = bit_len_bounds [OF pos]
  have "wval ws \<le> 2 ^ bit_len ?n" using b False by linarith
  moreover have "bit_len ?n \<le> j" if "wval ws \<le> 2 ^ j" for j
    using bit_len_small [of ?n j] that pos by linarith
  ultimately show ?thesis by (simp add: is_clog2_of_def u)
qed

section \<open>The store and the design\<close>

abbreviation (input) opt_ok :: "('a \<Rightarrow> bool) \<Rightarrow> 'a option \<Rightarrow> bool" where
  "opt_ok P x \<equiv> (case x of None \<Rightarrow> True | Some a \<Rightarrow> P a)"

definition item_ok :: "(sim_value \<times> nat) option \<Rightarrow> bool" where
  "item_ok x \<longleftrightarrow> opt_ok (\<lambda>p. plain (fst p)) x"

text \<open>A store of plain vectors: \<open>n\<close> nets can be read in a state of \<open>I\<close>; with \<open>calls\<close> also subroutines can
  be called.\<close>

locale vector_reader =
  fixes I :: "'s \<Rightarrow> bool" and rd :: "'s net_reader" and n :: nat and calls :: bool
  assumes read: "net < n \<Longrightarrow> ev_total I (nr_read_net rd net widx) plain"
    and elems: "I e \<Longrightarrow> nr_dyn_values rd e net = Some vs \<Longrightarrow> list_all plain vs"
    and item: "I e \<Longrightarrow> plain (nr_array_item rd e b)"
    and swap: "item_ok x \<Longrightarrow> ev_total I (nr_swap_item rd x) item_ok"
    and warn: "ev_total I (nr_dyn_warn rd net) (\<lambda>_. True)"
    and call: "calls \<Longrightarrow> list_all plain args \<Longrightarrow> ev_total I (nr_eval_call rd f args) (opt_ok plain)"
    and assoc: "ev_total I (nr_assoc_read rd net key) plain"
    and assoc_str: "ev_total I (nr_assoc_str_read rd net skey) plain"
    and feof: "I e \<Longrightarrow> plain (nr_fd_eof rd e fd)"
    and no_strings: "\<not> nr_formal_is_string rd f i"

text \<open>System functions that return vectors, and those that index their first argument.\<close>

definition vector_funcs :: "sys_func_id set" where
  "vector_funcs =
     - ({F_base S_Realtime, F_base S_Itor, F_base S_BitsToReal, F_base S_RealToBits, F_base S_Rtoi,
         F_v7 S_Sformatf, F_late S_StrCast}
        \<union> range F_string \<union> range F_convert \<union> range F_math)"

definition first_arg_funcs :: "sys_func_id set" where
  "first_arg_funcs = {F_base S_Signed, F_base S_Unsigned, F_base S_Clog2}"

definition node_shape :: "bool \<Rightarrow> 's eval_ctx \<Rightarrow> nat \<Rightarrow> expr \<Rightarrow> bool" where
  "node_shape calls cx i e =
     (let ir = ec_ir cx; sw = t_sw (ec_wt cx)
      in case e of
           Const v \<Rightarrow> c_repr (x_consts ir ! v) \<noteq> RealRepr
         | Signal net _ \<Rightarrow>
             net < length (x_nets ir) \<and>
             opt_ok (\<lambda>(m, w). m < length (x_nets ir) \<and>
                      opt_ok (\<lambda>k. k < length (x_exprs ir) \<and> (\<exists>v. x_exprs ir ! k = Const v)) w)
               (read_alias (ec_wt cx) i)
         | Concat parts \<Rightarrow> sum_list (map (\<lambda>p. w_width (sw ! p)) parts) < 2 ^ 32
         | Replicate c v \<Rightarrow>
             opt_ok (opt_ok (\<lambda>k. w_width (sw ! v) * k < 2 ^ 32)) (const_u32_of_expr_ctx ir c)
         | SysFunc which args \<Rightarrow> which \<in> vector_funcs \<and> (which \<in> first_arg_funcs \<longrightarrow> args \<noteq> [])
         | Call _ _ \<Rightarrow> calls
         | _ \<Rightarrow> True)"

text \<open>A design of vectors: children before parents, net widths within the limit, the width table the rule's
  (class-field entries on signals only), nothing real.\<close>

definition vector_design :: "bool \<Rightarrow> 's eval_ctx \<Rightarrow> bool" where
  "vector_design calls cx \<longleftrightarrow>
     post_order (ec_ir cx) \<and> nets_ok (ec_ir cx) \<and>
     (\<exists>ft cf. width_table (ec_ir cx) ft cf = Some (t_sw (ec_wt cx)) \<and>
        (\<forall>i. cf i \<noteq> None \<longrightarrow> (\<exists>net w. x_exprs (ec_ir cx) ! i = Signal net w))) \<and>
     t_real (ec_wt cx) = replicate (length (x_exprs (ec_ir cx))) False \<and>
     (\<forall>i < length (x_exprs (ec_ir cx)). node_shape calls cx i (x_exprs (ec_ir cx) ! i))"

text \<open>What the design gives for one expression.\<close>

definition sub_ok :: "'s eval_ctx \<Rightarrow> ('s eval_state \<Rightarrow> bool) \<Rightarrow> 's evaluator \<Rightarrow> nat \<Rightarrow> bool" where
  "sub_ok cx J rec c \<longleftrightarrow>
     (\<exists>sw. wt_get cx c = Some sw \<and> w_width sw \<le> width_max \<and> wt_is_real cx c = Some False \<and>
       (\<forall>cw cs. ev_total J (rec c cw cs) (plain_w (max (w_width sw) cw) (w_signed sw \<and> cs))))"

lemma sub_okE:
  assumes "sub_ok cx J rec c"
  obtains sw where "wt_get cx c = Some sw" "w_width sw \<le> width_max" "wt_is_real cx c = Some False"
    "\<And>cw cs. ev_total J (rec c cw cs) (plain_w (max (w_width sw) cw) (w_signed sw \<and> cs))"
  using assms unfolding sub_ok_def by blast

lemma rec_w:
  assumes "sub_ok cx J rec c" and "wt_get cx c = Some sw" and "w_width sw \<le> w" and "s \<longrightarrow> w_signed sw"
  shows "ev_total J (rec c w s) (plain_w w s)"
proof (rule sub_okE [OF assms(1)])
  fix w' assume w': "wt_get cx c = Some w'"
    "\<And>cw cs. ev_total J (rec c cw cs) (plain_w (max (w_width w') cw) (w_signed w' \<and> cs))"
  then have "w' = sw" using assms(2) by simp
  moreover have "max (w_width sw) w = w" "(w_signed sw \<and> s) = s" using assms(3,4) by auto
  ultimately show ?thesis using w'(2) [of w s] by (simp only:)
qed

lemma eval_self_ok:
  assumes "sub_ok cx J rec c" and "wt_get cx c = Some sw"
  shows "ev_total J (eval_self cx rec c) (plain_w (w_width sw) (w_signed sw))"
proof -
  have "ev_total J (rec c (w_width sw) (w_signed sw)) (plain_w (w_width sw) (w_signed sw))"
    by (rule rec_w [OF assms]) simp_all
  then show ?thesis
    using assms(2) by (simp add: eval_self_def ev_bind_def ev_opt_def ev_total_def)
qed

lemma eval_self_plain: "sub_ok cx J rec c \<Longrightarrow> ev_total J (eval_self cx rec c) (\<lambda>v. plain v \<and> v_width v \<le> width_max)"
proof (rule sub_okE, assumption)
  fix w assume c: "sub_ok cx J rec c" and w: "wt_get cx c = Some w" "w_width w \<le> width_max"
  show ?thesis
    by (rule ev_total_weaken [OF eval_self_ok [OF c w(1)]]) (use w(2) in \<open>simp add: plain_w_def\<close>)
qed

lemma not_real: "sub_ok cx J rec l \<Longrightarrow> sub_ok cx J rec r \<Longrightarrow> either_real cx l r = Some False"
  by (auto simp: sub_ok_def either_real_def)

lemma total_both:
  assumes "ev_total J m P" and "ev_total J k Q" and "\<And>a b. P a \<Longrightarrow> Q b \<Longrightarrow> ev_total J (f a b) R"
  shows "ev_total J (both m k f) R"
  unfolding both_def by (rule ev_total_bind [OF assms(1)], rule ev_total_bind [OF assms(2)], rule assms(3))

lemma total_resized: "ev_total J m plain \<Longrightarrow> (s \<longrightarrow> t) \<Longrightarrow> ev_total J (resized w s m) (plain_w w t)"
  unfolding resized_def by (erule ev_total_map) (use plain_resized in \<open>force simp: plain_w_def\<close>)

lemma total_opt_bind: "x = Some a \<Longrightarrow> ev_total J (f a) Q \<Longrightarrow> ev_total J (ev_bind (ev_opt x) f) Q"
  by (simp add: ev_bind_def ev_opt_def ev_total_def)

section \<open>The arms\<close>

lemma unary_total:
  assumes x: "sub_ok cx J rec x" and xw: "wt_get cx x = Some xw" and w: "w_width (self_width_unary op xw) \<le> w"
    and s: "s \<longrightarrow> w_signed (self_width_unary op xw)"
  shows "ev_total J (eval_unary cx rec op x w s) (plain_w w s)"
proof (cases "op \<in> one_bit_ops")
  case True
  then have sg: "\<not> s" using s by (auto simp: one_bit_ops_def self_width_unary_def)
  have "ev_total J (eval_unary_self cx rec op x) plain"
    unfolding eval_unary_self_def
    by (rule ev_total_bind [OF eval_self_plain [OF x]]) (rule ev_total_opt_ex, use plain_unary_self True in blast)
  then have "ev_total J (ev_map (\<lambda>b. resize_keep_sign b w False) (eval_unary_self cx rec op x)) (plain_w w s)"
    using total_resized [of J _ False s w] by (simp add: resized_def)
  then show ?thesis
    using True by (auto simp: eval_unary_def one_bit_ops_def)
next
  case False
  then have op: "op = Plus \<or> op = Minus \<or> op = BitNot" by (cases op) (auto simp: one_bit_ops_def)
  then have r: "ev_total J (rec x w s) (plain_w w s)"
    using w s by (intro rec_w [OF x xw]) (auto simp: self_width_unary_def)
  have "ev_total J (ev_map negate (rec x w s)) (plain_w w s)"
    by (rule ev_total_map [OF r]) (rule plain_negate)
  moreover have "ev_total J (ev_bind (rec x w s) (\<lambda>a. ev_opt (bit_not a s))) (plain_w w s)"
    by (rule ev_total_bind [OF r]) (rule ev_total_opt_ex, rule plain_bit_not)
  ultimately show ?thesis
    using op r by (auto simp: eval_unary_def)
qed

lemma clamp_ge: "a \<le> width_max \<Longrightarrow> b \<le> width_max \<Longrightarrow> a \<le> clamp_w (max (max a b) 1) \<and> b \<le> clamp_w (max (max a b) 1) \<and> 1 \<le> clamp_w (max (max a b) 1)"
  using width_max_ge(1) unfolding clamp_w_def by linarith

lemma region_total:
  assumes l: "sub_ok cx J rec l" "wt_get cx l = Some lw" and r: "sub_ok cx J rec r" "wt_get cx r = Some rw"
    and op: "op \<in> {Add, Sub, Mul, Div, Mod, BitAnd, BitOr, BitXor, BitXnor}"
    and w: "w_width (self_width_binary op lw rw) \<le> w" and s: "s \<longrightarrow> w_signed (self_width_binary op lw rw)"
  shows "ev_total J (rec l w s) (plain_w w s)" and "ev_total J (rec r w s) (plain_w w s)" and "1 \<le> w"
proof -
  have m: "w_width lw \<le> width_max" "w_width rw \<le> width_max"
    using l r by (auto simp: sub_ok_def)
  have b: "w_width lw \<le> w \<and> w_width rw \<le> w \<and> 1 \<le> w" and sg: "s \<longrightarrow> w_signed lw \<and> w_signed rw"
    using clamp_ge [OF m] w s op by (auto simp: self_width_binary_def)
  then show "1 \<le> w" by blast
  show "ev_total J (rec l w s) (plain_w w s)"
    using b sg by (intro rec_w [OF l]) blast+
  show "ev_total J (rec r w s) (plain_w w s)"
    using b sg by (intro rec_w [OF r]) blast+
qed

lemma binary_region_total:
  assumes l: "sub_ok cx J rec l" "wt_get cx l = Some lw" and r: "sub_ok cx J rec r" "wt_get cx r = Some rw"
    and w: "w_width (self_width_binary op lw rw) \<le> w" and s: "s \<longrightarrow> w_signed (self_width_binary op lw rw)"
  shows "op \<in> {Add, Sub, Mul, Div, Mod} \<Longrightarrow> ev_total J (eval_arith cx rec op l r w s) (plain_w w s)"
    and "op \<in> {BitAnd, BitOr, BitXor, BitXnor} \<Longrightarrow> ev_total J (eval_bitwise rec op l r w s) (plain_w w s)"
proof -
  assume op: "op \<in> {Add, Sub, Mul, Div, Mod}"
  then have "op \<in> {Add, Sub, Mul, Div, Mod, BitAnd, BitOr, BitXor, BitXnor}" by blast
  note t = region_total [OF l r this w s]
  have "ev_total J (both (rec l w s) (rec r w s) (\<lambda>a b. ev_opt (arith op a b))) (plain_w w s)"
    by (rule total_both [OF t(1,2)]) (rule ev_total_opt_ex, rule plain_arith_w [OF _ _ op t(3)])
  then show "ev_total J (eval_arith cx rec op l r w s) (plain_w w s)"
    unfolding eval_arith_def by (intro total_opt_bind [OF not_real [OF l(1) r(1)]]) simp
next
  assume op: "op \<in> {BitAnd, BitOr, BitXor, BitXnor}"
  then have "op \<in> {Add, Sub, Mul, Div, Mod, BitAnd, BitOr, BitXor, BitXnor}" by blast
  note t = region_total [OF l r this w s]
  show "ev_total J (eval_bitwise rec op l r w s) (plain_w w s)"
    unfolding eval_bitwise_def
    by (rule total_both [OF t(1,2)]) (rule ev_total_opt_ex, rule plain_bitwise [OF _ _ op])
qed

lemma left_total:
  assumes l: "sub_ok cx J rec l" "wt_get cx l = Some lw" and "op \<in> {Pow, Shl, Shr, AShl, AShr}"
    and w: "w_width (self_width_binary op lw rw) \<le> w" and s: "s \<longrightarrow> w_signed (self_width_binary op lw rw)"
  shows "ev_total J (rec l w s) (plain_w w s)" and "1 \<le> w"
proof -
  have b: "w_width lw \<le> w \<and> 1 \<le> w" and sg: "s \<longrightarrow> w_signed lw"
    using w s assms(3) by (auto simp: self_width_binary_def)
  then show "1 \<le> w" by blast
  show "ev_total J (rec l w s) (plain_w w s)"
    using b sg by (intro rec_w [OF l]) blast+
qed

lemma binary_left_total:
  assumes l: "sub_ok cx J rec l" "wt_get cx l = Some lw" and r: "sub_ok cx J rec r"
    and w: "w_width (self_width_binary op lw rw) \<le> w" and s: "s \<longrightarrow> w_signed (self_width_binary op lw rw)"
  shows "op = Pow \<Longrightarrow> ev_total J (eval_pow cx rec l r w s) (plain_w w s)"
    and "op \<in> {Shl, Shr, AShl, AShr} \<Longrightarrow> ev_total J (eval_shift cx rec op l r w s) (plain_w w s)"
proof -
  assume op: "op = Pow"
  then have "op \<in> {Pow, Shl, Shr, AShl, AShr}" by blast
  note t = left_total [OF l this w s]
  show "ev_total J (eval_pow cx rec l r w s) (plain_w w s)"
    unfolding eval_pow_def
    by (rule total_both [OF t(1) eval_self_plain [OF r]]) (rule ev_total_opt_ex, rule plain_pow [OF _ _ t(2)], simp_all)
next
  assume op: "op \<in> {Shl, Shr, AShl, AShr}"
  then have "op \<in> {Pow, Shl, Shr, AShl, AShr}" by blast
  note t = left_total [OF l this w s]
  have "plain_w w s (case op of Shr \<Rightarrow> shift_right a b False
      | AShr \<Rightarrow> resize_keep_sign (shift_right a b s) w s | _ \<Rightarrow> resize_keep_sign (shift_left a b) w s)"
    if "plain_w w s a" for a b
    using plain_shifts [OF that] plain_resized plain_wD(1) [OF plain_shifts(1) [OF that]] by (cases op) auto
  then show "ev_total J (eval_shift cx rec op l r w s) (plain_w w s)"
    unfolding eval_shift_def
    by (intro total_both [OF t(1) eval_self_plain [OF r]] ev_total_ret) blast
qed

lemma pair_total:
  assumes l: "sub_ok cx J rec l" and r: "sub_ok cx J rec r"
    and f: "\<And>a b. plain a \<Longrightarrow> plain b \<Longrightarrow> ev_total J (f a b) Q"
  shows "ev_total J (eval_pair cx rec l r f) Q"
proof (rule sub_okE [OF l], rule sub_okE [OF r])
  fix lw rw
  assume lw: "wt_get cx l = Some lw" and rw: "wt_get cx r = Some rw"
  let ?w = "max (w_width lw) (w_width rw)" and ?s = "w_signed lw \<and> w_signed rw"
  have "ev_total J (rec l ?w ?s) (plain_w ?w ?s)" "ev_total J (rec r ?w ?s) (plain_w ?w ?s)"
    by (rule rec_w [OF l lw], simp_all) (rule rec_w [OF r rw], simp_all)
  then have "ev_total J (both (rec l ?w ?s) (rec r ?w ?s) f) Q"
    by (rule total_both) (rule f, simp_all add: plain_w_def)
  then show ?thesis
    unfolding eval_pair_def Let_def by (intro total_opt_bind [OF lw] total_opt_bind [OF rw])
qed

lemma compare_total:
  assumes l: "sub_ok cx J rec l" and r: "sub_ok cx J rec r" and s: "\<not> s"
  shows "ev_total J (eval_compare cx rec op l r w) (plain_w w s)"
    and "ev_total J (eval_wildcard cx rec op l r w) (plain_w w s)"
    and "op \<in> {LogAnd, LogOr} \<Longrightarrow> ev_total J (eval_logical cx rec op l r w) (plain_w w s)"
proof -
  have res: "plain v \<Longrightarrow> plain_w w s (resize_keep_sign v w False)" for v
    using plain_resized [of v w False] s by (simp add: plain_w_def)
  have "ev_total J (eval_pair cx rec l r (\<lambda>a b. ev_opt (compare_values op a b))) plain"
    by (rule pair_total [OF l r]) (rule ev_total_opt_ex, rule plain_compare)
  then show "ev_total J (eval_compare cx rec op l r w) (plain_w w s)"
    unfolding eval_compare_def
    by (intro ev_total_map [of J _ plain] total_opt_bind [OF not_real [OF l r]] res) simp_all
  have "ev_total J (eval_pair cx rec l r (\<lambda>a b. ev_ret (casez_eq op a b))) plain"
    by (rule pair_total [OF l r]) (rule ev_total_ret, rule plain_casez)
  then show "ev_total J (eval_wildcard cx rec op l r w) (plain_w w s)"
    unfolding eval_wildcard_def by (intro ev_total_map [of J _ plain] res)
  assume op: "op \<in> {LogAnd, LogOr}"
  have "ev_total J (if lt = decides op then ev_ret lt else ev_map truthiness (eval_self cx rec r)) (\<lambda>_. True)" for lt
    using ev_total_map [OF eval_self_plain [OF r], of "\<lambda>_. True" truthiness] by (simp add: ev_total_ret)
  then show "ev_total J (eval_logical cx rec op l r w) (plain_w w s)"
    unfolding eval_logical_def Let_def
    by (intro ev_total_bind [OF eval_self_plain [OF l]] ev_total_map [of J _ "\<lambda>_. True"] res plain_log_bin op)
qed

lemma binary_total:
  assumes l: "sub_ok cx J rec l" "wt_get cx l = Some lw" and r: "sub_ok cx J rec r" "wt_get cx r = Some rw"
    and w: "w_width (self_width_binary op lw rw) \<le> w" and s: "s \<longrightarrow> w_signed (self_width_binary op lw rw)"
  shows "ev_total J (eval_binary_ctx cx rec op l r w s) (plain_w w s)"
proof -
  have ns: "\<not> s" if "op \<in> {Lt, Le, Gt, Ge, Eq, Ne, CaseEq, CaseNe, CasezEq, CasexEq, LogAnd, LogOr}"
    using s that by (auto simp: self_width_binary_def)
  have rest: "op \<in> {Shl, Shr, AShl, AShr}" if "op \<notin> {Add, Sub, Mul, Div, Mod}" "op \<noteq> Pow"
    "op \<notin> {BitAnd, BitOr, BitXor, BitXnor}" "op \<notin> {Lt, Le, Gt, Ge, Eq, Ne, CaseEq, CaseNe}"
    "op \<notin> {CasezEq, CasexEq}" "op \<notin> {LogAnd, LogOr}"
    using that by (cases op) simp_all
  show ?thesis
    unfolding eval_binary_ctx_def
    using binary_region_total [OF l r w s] binary_left_total [OF l r(1) w s] compare_total [OF l(1) r(1) ns] rest
    by (simp split: if_splits)
qed

lemma ternary_total:
  assumes c: "sub_ok cx J rec c" and t: "sub_ok cx J rec t" "wt_get cx t = Some tw"
    and e: "sub_ok cx J rec e" "wt_get cx e = Some ew"
    and w: "w_width (self_width_ternary tw ew) \<le> w" and s: "s \<longrightarrow> w_signed (self_width_ternary tw ew)"
  shows "ev_total J (eval_ternary cx rec c t e w s) (plain_w w s)"
proof -
  have m: "w_width tw \<le> width_max" "w_width ew \<le> width_max"
    using t e by (auto simp: sub_ok_def)
  have b: "w_width tw \<le> w" "w_width ew \<le> w" "s \<longrightarrow> w_signed tw" "s \<longrightarrow> w_signed ew"
    using clamp_ge [OF m] w s by (auto simp: self_width_ternary_def)
  have arm: "ternary_arm cx rec False x w s = rec x w s" for x
    by (simp add: ternary_arm_def ev_bind_def ev_ret_def)
  note rt = rec_w [OF t b(1,3)] and re = rec_w [OF e b(2,4)]
  have m: "ev_total J (both (rec t w s) (rec e w s) (\<lambda>a b. ev_ret (merge_x a b w s))) (plain_w w s)"
    by (rule total_both [OF rt re]) (rule ev_total_ret, rule plain_merge)
  show ?thesis
    unfolding eval_ternary_def Let_def arm
    by (rule total_opt_bind [OF not_real [OF t(1) e(1)]], unfold arm, rule ev_total_bind [OF eval_self_plain [OF c]])
      (use rt re m in \<open>simp split: tri.split\<close>)
qed

lemma concat_total:
  assumes p: "\<And>p. p \<in> set parts \<Longrightarrow> sub_ok cx J rec p"
    and sum: "sum_list (map (\<lambda>p. w_width (t_sw (ec_wt cx) ! p)) parts) < 2 ^ 32"
  shows "ev_total J (eval_concat cx rec parts) plain"
proof -
  have "list_all2 (\<lambda>m q. ev_total J m (\<lambda>v. v_width v = q)) (map (eval_self cx rec) parts)
      (map (\<lambda>p. w_width (t_sw (ec_wt cx) ! p)) parts)"
  proof (rule list_all2_all_nthI)
    fix i assume i: "i < length (map (eval_self cx rec) parts)"
    then have s: "sub_ok cx J rec (parts ! i)" by (intro p) simp
    then obtain sw where sw: "wt_get cx (parts ! i) = Some sw" by (auto simp: sub_ok_def)
    then have "sw = t_sw (ec_wt cx) ! (parts ! i)" by (simp add: wt_get_def)
    then show "ev_total J (map (eval_self cx rec) parts ! i)
        (\<lambda>v. v_width v = map (\<lambda>p. w_width (t_sw (ec_wt cx) ! p)) parts ! i)"
      using i ev_total_weaken [OF eval_self_ok [OF s sw]] by (simp add: plain_w_def)
  qed simp
  from ev_total_seq2 [OF this] show ?thesis
    unfolding eval_concat_def
  proof (rule ev_total_bind)
    fix vs :: "sim_value list" assume "list_all2 (\<lambda>q v. v_width v = q) (map (\<lambda>p. w_width (t_sw (ec_wt cx) ! p)) parts) vs"
    then have "map v_width vs = map (\<lambda>p. w_width (t_sw (ec_wt cx) ! p)) parts"
      by (simp add: list_eq_iff_nth_eq list_all2_conv_all_nth)
    then show "ev_total J (ev_opt (concat_value vs)) plain"
      using plain_concat [of vs] sum by (intro ev_total_opt_ex) (simp only:)
  qed
qed

lemma replicate_total:
  assumes v: "sub_ok cx J rec v" and c: "const_u32_of_expr_ctx (ec_ir cx) c = Some r"
    and small: "opt_ok (\<lambda>k. w_width (t_sw (ec_wt cx) ! v) * k < 2 ^ 32) r"
  shows "ev_total J (eval_replicate cx rec c v) plain"
proof (rule sub_okE [OF v])
  fix sw assume sw: "wt_get cx v = Some sw"
  then have "sw = t_sw (ec_wt cx) ! v" by (simp add: wt_get_def)
  then have "w_width sw * (case r of Some k \<Rightarrow> k | None \<Rightarrow> 0) < 2 ^ 32"
    using small by (cases r) auto
  then have "ev_total J (ev_bind (eval_self cx rec v) (\<lambda>x. ev_opt (replicate_value (case r of Some k \<Rightarrow> k | None \<Rightarrow> 0) x))) plain"
    by (intro ev_total_bind [OF eval_self_ok [OF v sw]] ev_total_opt_ex plain_replicate) (simp add: plain_w_def)
  then show ?thesis
    unfolding eval_replicate_def by (rule total_opt_bind [OF c])
qed

lemma select_total:
  assumes b: "sub_ok cx J rec b" and off: "sub_ok cx J rec off"
    and c: "const_u32_of_expr_ctx (ec_ir cx) c = Some r" and small: "opt_ok (\<lambda>k. k \<le> width_max) r"
  shows "ev_total J (eval_select cx rec b off c kind) plain"
proof -
  have n: "(case r of Some n \<Rightarrow> n | None \<Rightarrow> 1) < 2 ^ 32"
    using small by (cases r) (auto simp: width_max_def)
  have "ev_total J (both (eval_self cx rec b) (eval_self cx rec off)
      (\<lambda>src off. ev_opt (select_value kind src off (case r of Some n \<Rightarrow> n | None \<Rightarrow> 1)))) plain"
    by (rule total_both [OF eval_self_plain [OF b] eval_self_plain [OF off]], rule ev_total_opt_ex, rule plain_select)
      (use n in \<open>auto simp: width_max_def\<close>)
  then show ?thesis
    unfolding eval_select_def by (rule total_opt_bind [OF c])
qed

section \<open>Reads, calls and system functions\<close>

lemma on_env_total: "ev_total I m Q \<Longrightarrow> ev_total (\<lambda>s. I (es_env s)) (on_env m) Q"
  unfolding ev_total_def on_env_def by fastforce

lemma of_env_total: "(\<And>e. I e \<Longrightarrow> Q (f e)) \<Longrightarrow> ev_total (\<lambda>s. I (es_env s)) (of_env f) Q"
  unfolding of_env_def by (rule ev_total_get)

lemma plain_copy: "plain v \<Longrightarrow> plain (copy_shaped shape v)"
  by (auto simp: copy_shaped_def plain_def vec_not_real split: option.split)

lemma arg_opt_total:
  assumes "\<And>a. a \<in> set args \<Longrightarrow> sub_ok cx J rec a"
  shows "ev_total J (arg_opt cx rec args i) (opt_ok (\<lambda>v. plain v \<and> v_width v \<le> width_max))"
  unfolding arg_opt_def
  by (rule ev_total_option [of _ J _ "\<lambda>v. plain v \<and> v_width v \<le> width_max"])
    (use assms in \<open>auto intro!: eval_self_plain\<close>)

lemma arg0_total:
  assumes "\<And>a. a \<in> set args \<Longrightarrow> sub_ok cx J rec a" and "args \<noteq> []"
  shows "ev_total J (arg0 cx rec args) (\<lambda>v. plain v \<and> v_width v \<le> width_max)"
  unfolding arg0_def
  by (rule total_opt_bind [of _ "args ! 0"]) (use assms in \<open>auto intro!: eval_self_plain\<close>)

lemma key_total:
  assumes "sub_ok cx J rec k"
  shows "ev_total J (assoc_key cx rec k) (\<lambda>_. True)" and "ev_total J (assoc_str_key cx rec k) (\<lambda>_. True)"
proof -
  show "ev_total J (assoc_str_key cx rec k) (\<lambda>_. True)"
    unfolding assoc_str_key_def by (rule ev_total_map [OF eval_self_plain [OF assms]]) simp
  show "ev_total J (assoc_key cx rec k) (\<lambda>_. True)"
  proof (rule sub_okE [OF assms])
    fix sw assume sw: "wt_get cx k = Some sw"
      "\<And>cw cs. ev_total J (rec k cw cs) (plain_w (max (w_width sw) cw) (w_signed sw \<and> cs))"
    show ?thesis
      unfolding assoc_key_def assoc_key_eval_ctx_def Let_def prod.case
      by (rule total_opt_bind [OF sw(1)], rule ev_total_map [OF sw(2)]) simp
  qed
qed

context vector_reader
begin

abbreviation (input) J :: "'s eval_state \<Rightarrow> bool" where
  "J s \<equiv> I (es_env s)"

lemma plain_signal_total:
  assumes "ec_nets cx = rd" and "net < n" and "\<And>k. word = Some k \<Longrightarrow> sub_ok cx J rec k"
  shows "ev_total J (eval_plain_signal cx rec net word shape) plain"
proof -
  have "ev_total J (ev_option (\<lambda>weid. ev_map (\<lambda>v. word_index_of (to_u64 v)) (eval_self cx rec weid)) word) (\<lambda>_. True)"
    using assms(3) by (intro ev_total_option [of _ J _ "\<lambda>_. True"] ev_total_map [OF eval_self_plain]) simp_all
  then show ?thesis
    unfolding eval_plain_signal_def assms(1)
    by (intro ev_total_bind [of J _ "\<lambda>_. True"] ev_total_map [of J _ plain] on_env_total read assms(2) plain_copy)
qed

lemma signal_total:
  assumes "ec_nets cx = rd" and "signal_target cx eid net word = Some (m, k, shape)" and "m < n"
    and "\<And>e. k = Some e \<Longrightarrow> sub_ok cx J rec e"
  shows "ev_total J (eval_signal cx rec eid net word) plain"
proof -
  have "ev_total J (case k of
      Some weid \<Rightarrow>
        if nr_is_assoc_str rd m then ev_bind (assoc_str_key cx rec weid) (\<lambda>k. on_env (nr_assoc_str_read rd m k))
        else if nr_is_assoc rd m then ev_bind (assoc_key cx rec weid) (\<lambda>k. on_env (nr_assoc_read rd m k))
        else eval_plain_signal cx rec m k shape
    | None \<Rightarrow> eval_plain_signal cx rec m k shape) plain"
    using plain_signal_total [OF assms(1,3), of k rec shape] assms(4) key_total
      ev_total_bind [OF key_total(1) on_env_total [OF assoc]] ev_total_bind [OF key_total(2) on_env_total [OF assoc_str]]
    by (cases k) auto
  then show ?thesis
    unfolding eval_signal_def assms(1) using assms(2)
    by (intro total_opt_bind [of _ "(m, k, shape)"]) simp_all
qed

lemma call_total:
  assumes "ec_nets cx = rd" and calls and "\<And>a. a \<in> set args \<Longrightarrow> sub_ok cx J rec a"
    and "s \<longrightarrow> t"
  shows "ev_total J (eval_call cx rec eid f args w s) (plain_w w t)"
proof -
  have actual: "ev_total J (eval_actual cx rec f i a) plain" if "a \<in> set args" for i a
  proof (rule sub_okE [OF assms(3) [OF that]])
    fix sw assume sw: "wt_get cx a = Some sw"
      "\<And>cw cs. ev_total J (rec a cw cs) (plain_w (max (w_width sw) cw) (w_signed sw \<and> cs))"
    show ?thesis
      unfolding eval_actual_def assms(1) using no_strings
      by (simp, intro total_opt_bind [OF sw(1)] ev_total_weaken [OF sw(2)]) (simp add: plain_w_def)
  qed
  have "list_all (\<lambda>m. ev_total J m plain) (map (\<lambda>(i, a). eval_actual cx rec f i a) (enumerate 0 args))"
    using actual by (auto simp: list_all_iff in_set_enumerate_eq)
  from ev_total_seq [OF this] show ?thesis
    unfolding eval_call_def assms(1)
  proof (rule ev_total_bind)
    fix argv assume "length argv = length (map (\<lambda>(i, a). eval_actual cx rec f i a) (enumerate 0 args)) \<and> list_all plain argv"
    then have "list_all plain argv" by blast
    note c = on_env_total [OF call [OF assms(2) this]]
    have res: "plain_w w t (case r of Some r \<Rightarrow> resize_keep_sign r w s | None \<Rightarrow> resize_keep_sign x1 w False)"
      if "opt_ok plain r" for r
      using that assms(4) plain_resized [of x1 w False] plain_resized [of "the r" w s] plain_bit(3)
      by (cases r) (auto simp: plain_w_def simp del: logic_bit1)
    have "ev_total J (of_env (\<lambda>e. nr_virtual_call rd e eid f argv)) (\<lambda>_. True)"
      by (rule of_env_total) simp
    then show "ev_total J (ev_bind (of_env (\<lambda>e. nr_virtual_call rd e eid f argv))
        (\<lambda>target. ev_map (\<lambda>r. case r of Some r \<Rightarrow> resize_keep_sign r w s | None \<Rightarrow> resize_keep_sign x1 w False)
           (on_env (nr_eval_call rd target argv)))) (plain_w w t)"
      by (intro ev_total_bind [of J _ "\<lambda>_. True"] ev_total_map [OF c] res)
  qed
qed

text \<open>System functions by group.\<close>

lemma base_total:
  assumes "ec_nets cx = rd" and "F_base f \<in> vector_funcs" and "F_base f \<in> first_arg_funcs \<longrightarrow> args \<noteq> []"
    and "\<And>a. a \<in> set args \<Longrightarrow> sub_ok cx J rec a"
  shows "ev_total J (sysfunc_base cx rec f args) plain"
proof -
  have "ev_total J (ev_map g (arg0 cx rec args)) plain"
    if "f \<in> {S_Signed, S_Unsigned, S_Clog2}" "\<And>v. plain v \<Longrightarrow> v_width v \<le> width_max \<Longrightarrow> plain (g v)" for g
    using that assms(3) by (intro ev_total_map [OF arg0_total [OF assms(4)]]) (auto simp: first_arg_funcs_def)
  note a = this
  show ?thesis
    using assms(2) a [of "\<lambda>v. v\<lparr>v_signed := True\<rparr>"] a [of "\<lambda>v. v\<lparr>v_signed := False\<rparr>"] a [of clog2_value] plain_clog2
    by (cases f) (simp_all add: sysfunc_base_def vector_funcs_def ev_total_ret plain_times)
qed

lemma dyn_total:
  assumes "ec_nets cx = rd" and "\<And>a. a \<in> set args \<Longrightarrow> sub_ok cx J rec a"
  shows "ev_total J (sysfunc_dyn cx rec f args) plain"
proof -
  have px: "plain (all_x w s)" for w s by (simp add: plain_def)
  have size: "ev_total J (dyn_size_arm cx args) plain"
    by (auto simp: dyn_size_arm_def assms(1) plain_size split: option.split intro!: of_env_total ev_total_ret)
  have warned: "ev_total J (ev_map (\<lambda>_. all_x w s) (on_env (nr_dyn_warn rd net))) plain" for w s net
    by (rule ev_total_map [OF on_env_total [OF warn]]) (simp add: plain_def)
  have pop: "ev_total J (queue_pop_arm cx args) plain"
    using warned by (auto simp: queue_pop_arm_def assms(1) plain_def split: option.split intro!: ev_total_ret)
  have key: "ev_total J (ev_option (assoc_key cx rec) (arena_get args 1)) (\<lambda>_. True)"
    "ev_total J (ev_option (assoc_str_key cx rec) (arena_get args 1)) (\<lambda>_. True)"
    using key_total [OF assms(2) [OF nth_mem]] by (auto intro!: ev_total_option [of _ J _ "\<lambda>_. True"])
  have "ev_total J (assoc_exists cx rec args) (\<lambda>_. True)"
    by (auto simp: assoc_exists_def assms(1) split: option.split
        intro!: ev_total_ret ev_total_bind [OF key(1) [unfolded One_nat_def]] ev_total_bind [OF key(2) [unfolded One_nat_def]]
          of_env_total)
  then have ex: "ev_total J (ev_map (\<lambda>h. case h of Some b \<Rightarrow> put_word0 (zeros 1 False) (if b then 1 else 0) | None \<Rightarrow> all_x 1 False)
      (assoc_exists cx rec args)) plain"
    by (rule ev_total_map) (simp add: plain_flag [unfolded One_nat_def] px split: option.split)
  show ?thesis
    using size pop ex [unfolded One_nat_def] warned
    by (cases f) (auto simp: sysfunc_dyn_def assms(1) plain_def split: option.split intro!: ev_total_ret)
qed

lemma draws_total: "ev_total J draw_random plain" "ev_total J draw_urandom plain" "ev_total J (draw_range b0 b1) plain"
  "ev_total J (seed_urandom x) (\<lambda>_. True)"
  using plain_range_draw [of b0 b1]
  by (auto simp: ev_total_def draw_random_def draw_urandom_def draw_range_def seed_urandom_def Let_def case_prod_beta
      plain_i128 plain_urandom)

lemma v7_total:
  assumes "ec_nets cx = rd" and "F_v7 f \<in> vector_funcs" and "\<And>a. a \<in> set args \<Longrightarrow> sub_ok cx J rec a"
  shows "ev_total J (sysfunc_v7 cx rec f args) plain"
proof -
  have arg: "ev_total J (arg_opt cx rec args i) (opt_ok (\<lambda>v. plain v \<and> v_width v \<le> width_max))" for i
    by (rule arg_opt_total) (rule assms(3))
  have px: "plain (all_x w s)" for w s by (simp add: plain_def)
  have count: "ev_total J (ev_map (\<lambda>v. case v of Some a \<Rightarrow> count_value f a
      | None \<Rightarrow> (if f = S_CountOnes then all_x 32 True else all_x 1 False)) (arg_opt cx rec args 0)) plain"
    by (rule ev_total_map [OF arg]) (auto simp: px plain_count split: option.splits)
  have random: "ev_total J (sysfunc_random cx rec args) plain"
    using draws_total px by (simp add: sysfunc_random_def ev_total_ret)
  have urandom: "ev_total J (sysfunc_urandom cx rec args) plain"
    unfolding sysfunc_urandom_def
  proof (rule ev_total_bind [OF arg])
    fix v assume "opt_ok (\<lambda>v. plain v \<and> v_width v \<le> width_max) v"
    have "ev_total J (case v of Some v \<Rightarrow> seed_urandom (case to_u64 v of Some x \<Rightarrow> x | None \<Rightarrow> 0) | None \<Rightarrow> ev_ret ()) (\<lambda>_. True)"
      by (auto simp: draws_total intro!: ev_total_ret split: option.split)
    then show "ev_total J (ev_bind (case v of Some v \<Rightarrow> seed_urandom (case to_u64 v of Some x \<Rightarrow> x | None \<Rightarrow> 0)
        | None \<Rightarrow> ev_ret ()) (\<lambda>_. draw_urandom)) plain"
      by (rule ev_total_bind) (rule draws_total)
  qed
  have bound: "ev_total J (ev_map urandom_bound (arg_opt cx rec args i)) (\<lambda>_. True)" for i
    by (rule ev_total_map [OF arg]) simp
  have range: "ev_total J (sysfunc_urandom_range cx rec args) plain"
    unfolding sysfunc_urandom_range_def
    by (rule ev_total_bind [OF bound])
      (auto split: option.split intro!: ev_total_bind [of J _ "\<lambda>_. True"] bound ev_total_ret draws_total px)
  show ?thesis
    unfolding sysfunc_v7_def using assms(2) count random urandom range
    by (auto simp: vector_funcs_def plain_times plain_int32 px split: option.split intro!: ev_total_ret)
qed

lemma late_total:
  assumes "ec_nets cx = rd" and "F_late f \<in> vector_funcs" and "\<And>a. a \<in> set args \<Longrightarrow> sub_ok cx J rec a"
  shows "ev_total J (sysfunc_late cx rec f args) plain"
proof -
  have arg: "ev_total J (arg_opt cx rec args i) (opt_ok (\<lambda>v. plain v \<and> v_width v \<le> width_max))" for i
    by (rule arg_opt_total) (rule assms(3))
  have px: "plain (all_x w s)" "plain (zeros w s)" for w s by (simp_all add: plain_def)
  have rd128: "plain (real_to_int_round x 128 True)" for x
    using plain_round [of 128 True x] by (simp add: plain_w_def)
  show ?thesis
    using assms(2)
    by (cases f) (auto simp: sysfunc_late_def vector_funcs_def px rd128 plain_two_state split: option.splits
        intro!: ev_total_ret ev_total_map [OF arg])
qed

lemma v9_total:
  assumes "ec_nets cx = rd" and "\<And>a. a \<in> set args \<Longrightarrow> sub_ok cx J rec a"
  shows "ev_total J (sysfunc_v9 cx rec f args) plain"
proof -
  have arg: "ev_total J (arg_opt cx rec args i) (opt_ok (\<lambda>v. plain v \<and> v_width v \<le> width_max))" for i
    by (rule arg_opt_total) (rule assms(2))
  show ?thesis
    unfolding sysfunc_v9_def assms(1)
    by (auto simp: plain_int32 plain_def [of "all_x _ _"] split: option.splits
        intro!: ev_total_ret ev_total_bind [OF arg] of_env_total feof)
qed

lemma reduce_elem_total:
  assumes "ec_nets cx = rd" and "\<And>a. we = Some a \<Longrightarrow> sub_ok cx J rec a" and "plain e"
  shows "ev_total J (reduce_elem cx rec we sg i e) plain"
proof (cases we)
  case None
  then show ?thesis using assms(3) by (simp add: reduce_elem_def ev_total_ret)
next
  case (Some a)
  have "ev_total J (on_env (nr_swap_item rd (Some (e, i)))) item_ok"
    using assms(3) by (intro on_env_total swap) (simp add: item_ok_def)
  moreover have "ev_total J (eval_self cx rec a) plain"
    by (rule ev_total_weaken [OF eval_self_plain [OF assms(2) [OF Some]]]) blast
  ultimately show ?thesis
    unfolding reduce_elem_def Some option.case assms(1) by (rule ev_total_bind)
qed

lemma reduce_elems_total:
  assumes "ec_nets cx = rd" and "\<And>a. we = Some a \<Longrightarrow> sub_ok cx J rec a"
  shows "list_all plain es \<Longrightarrow> opt_ok plain acc \<Longrightarrow>
    ev_total J (reduce_elems cx rec f we sg i acc es) (opt_ok plain)"
proof (induction es arbitrary: i acc)
  case Nil
  then show ?case by (simp add: ev_total_ret)
next
  case (Cons e es)
  have e: "plain e" and es: "list_all plain es" using Cons.prems(1) by simp_all
  have arg: "sub_ok cx J rec a" if "we = Some a" for a
    using assms(2) that .
  show ?case
    unfolding reduce_elems.simps
  proof (rule ev_total_bind [OF reduce_elem_total [OF assms(1) arg e]])
    fix v assume v: "plain v"
    have step: "ev_total J (case acc of None \<Rightarrow> ev_ret v | Some a \<Rightarrow> ev_opt (reduce_step f a v)) plain"
      using Cons.prems(2) v plain_reduce_step by (cases acc) (auto intro: ev_total_ret ev_total_opt_ex)
    show "ev_total J (ev_bind (case acc of None \<Rightarrow> ev_ret v | Some a \<Rightarrow> ev_opt (reduce_step f a v))
        (\<lambda>a. reduce_elems cx rec f we sg (i + 1) (Some a) es)) (opt_ok plain)"
      by (rule ev_total_bind [OF step]) (rule Cons.IH [OF es], simp)
  qed
qed

lemma source_total:
  assumes "ec_nets cx = rd" and "length (x_nets (ec_ir cx)) \<le> n"
  shows "ev_total J (reduce_source cx net) (opt_ok (list_all plain))"
proof (cases net)
  case None
  then show ?thesis by (simp add: reduce_source_def ev_total_ret)
next
  case (Some m)
  have vals: "ev_total J (of_env (\<lambda>e. nr_dyn_values rd e m)) (opt_ok (list_all plain))"
    by (rule of_env_total) (auto split: option.split dest: elems)
  have "ev_total J (static_array_values cx m) (opt_ok (list_all plain))"
  proof (cases "arena_get (x_nets (ec_ir cx)) m")
    case None
    show ?thesis unfolding static_array_values_def None option.case by (rule ev_total_ret) simp
  next
    case (Some nv)
    then have m: "m < n" using assms(2) by simp
    have "ev_total J (ev_map Some (ev_seq (map (\<lambda>i. on_env (nr_read_net rd m (Some i))) [0..<n_array_len nv])))
        (opt_ok (list_all plain))"
      by (rule ev_total_map [OF ev_total_seq])
        (auto simp: list_all_iff intro: on_env_total [OF read [OF m]])
    then show ?thesis
      unfolding static_array_values_def Some option.case assms(1) by (simp add: ev_total_ret)
  qed
  then have "ev_total J (case vs of Some vs \<Rightarrow> ev_ret (Some vs) | None \<Rightarrow> static_array_values cx m) (opt_ok (list_all plain))"
    if "opt_ok (list_all plain) vs" for vs
    using that by (cases vs) (simp_all add: ev_total_ret)
  then show ?thesis
    unfolding reduce_source_def Some option.case assms(1) by (rule ev_total_bind [OF vals])
qed

lemma array_total:
  assumes "ec_nets cx = rd" and "length (x_nets (ec_ir cx)) \<le> n" and "\<And>a. a \<in> set args \<Longrightarrow> sub_ok cx J rec a"
  shows "ev_total J (sysfunc_array cx rec f args) plain"
proof -
  let ?we = "arena_get args 1" and ?net = "handle_of cx args"
  have we: "sub_ok cx J rec a" if "?we = Some a" for a
    using that assms(3) [of a] by auto
  have "\<exists>p. reduce_type cx ?net ?we = Some p"
    using we by (auto simp: reduce_type_def sub_ok_def split: option.split)
  then obtain w sg where t: "reduce_type cx ?net ?we = Some (w, sg)" by auto
  have res: "plain (resize_keep_sign (case acc of Some v \<Rightarrow> v | None \<Rightarrow> zeros w sg) w sg)" if "opt_ok plain acc" for acc
    using that plain_resized plain_zeros plain_wD(1) by (cases acc) (auto simp: plain_def)
  define K where "K elems sgn = ev_bind (on_env (nr_swap_item rd None))
      (\<lambda>saved. ev_bind (reduce_elems cx rec f ?we sgn 0 None elems)
         (\<lambda>acc. ev_map (\<lambda>_. resize_keep_sign (case acc of Some v \<Rightarrow> v | None \<Rightarrow> zeros w sg) w sg)
            (on_env (nr_swap_item rd saved))))" for elems sgn
  have K: "ev_total J (K elems sgn) plain" if "list_all plain elems" for elems sgn
    unfolding K_def
  proof (rule ev_total_bind [OF on_env_total [OF swap]])
    show "item_ok None" by (simp add: item_ok_def)
    fix saved assume saved: "item_ok saved"
    show "ev_total J (ev_bind (reduce_elems cx rec f ?we sgn 0 None elems)
        (\<lambda>acc. ev_map (\<lambda>_. resize_keep_sign (case acc of Some v \<Rightarrow> v | None \<Rightarrow> zeros w sg) w sg)
            (on_env (nr_swap_item rd saved)))) plain"
    proof (rule ev_total_bind [OF reduce_elems_total [OF assms(1) we that]])
      show "opt_ok plain None" by simp
      fix acc assume "opt_ok plain acc"
      then show "ev_total J (ev_map (\<lambda>_. resize_keep_sign (case acc of Some v \<Rightarrow> v | None \<Rightarrow> zeros w sg) w sg)
          (on_env (nr_swap_item rd saved))) plain"
        by (intro ev_total_map [OF on_env_total [OF swap [OF saved]]] res)
    qed
  qed
  show ?thesis
    unfolding sysfunc_array_def Let_def assms(1)
  proof (rule total_opt_bind [OF t], unfold prod.case, rule ev_total_bind [OF source_total [OF assms(1,2)]])
    fix src :: "sim_value list option"
    assume src: "opt_ok (list_all plain) src"
    have px: "plain (all_x w sg)" "plain (zeros w sg)" by (simp_all add: plain_def)
    show "ev_total J (case src of
          None \<Rightarrow> ev_ret (all_x w sg) | Some [] \<Rightarrow> ev_ret (zeros w sg)
        | Some (aa # lista) \<Rightarrow>
            ev_bind (on_env (nr_swap_item rd None))
             (\<lambda>saved. ev_bind
                (reduce_elems cx rec f ?we
                  (case Option.bind ?net (arena_get (x_nets (ec_ir cx))) of None \<Rightarrow> True | Some nv \<Rightarrow> n_signed nv) 0 None (aa # lista))
                (\<lambda>acc. ev_map (\<lambda>_. resize_keep_sign (case acc of Some v \<Rightarrow> v | None \<Rightarrow> zeros w sg) w sg)
                   (on_env (nr_swap_item rd saved))))) plain"
    proof (cases src)
      case None
      then show ?thesis by (simp add: px ev_total_ret)
    next
      case (Some es)
      show ?thesis
      proof (cases es)
        case Nil
        then show ?thesis by (simp add: Some px ev_total_ret)
      next
        case (Cons aa lista)
        then have "list_all plain (aa # lista)" using src Some by simp
        from K [OF this] show ?thesis unfolding Some Cons option.case list.case K_def .
      qed
    qed
  qed
qed

lemma sysfunc_total:
  assumes "ec_nets cx = rd" and "length (x_nets (ec_ir cx)) \<le> n" and "which \<in> vector_funcs"
    and "which \<in> first_arg_funcs \<longrightarrow> args \<noteq> []" and "\<And>a. a \<in> set args \<Longrightarrow> sub_ok cx J rec a"
  shows "ev_total J (eval_sysfunc_ctx cx rec which args w s) (plain_w w s)"
proof -
  have "ev_total J (eval_sysfunc cx rec which args) plain"
    using assms base_total dyn_total v7_total v9_total array_total late_total
    by (cases which) (simp_all add: eval_sysfunc_def vector_funcs_def)
  then have gen: "ev_total J (ev_map (\<lambda>v. resize_keep_sign v w s) (eval_sysfunc cx rec which args)) (plain_w w s)"
    using total_resized [of J _ s s w] by (simp add: resized_def)
  have cast: "ev_total J (ev_map (\<lambda>a. resize_keep_sign (a\<lparr>v_signed := b\<rparr>) w b) (arg0 cx rec args)) (plain_w w s)"
    if "b \<longrightarrow> s" "args \<noteq> []" for b
  proof (rule ev_total_map [OF arg0_total [OF assms(5) that(2)]])
    fix a assume "plain a \<and> v_width a \<le> width_max"
    then show "plain_w w s (resize_keep_sign (a\<lparr>v_signed := b\<rparr>) w b)"
      using plain_resized [of "a\<lparr>v_signed := b\<rparr>" w b] that(1) unfolding plain_w_def by auto
  qed
  have arg: "ev_total J (arg_opt cx rec args 0) (opt_ok (\<lambda>v. plain v \<and> v_width v \<le> width_max))"
    by (rule arg_opt_total) (rule assms(5))
  have conv: "ev_total J (ev_map (\<lambda>v. (real_to_int_round (g v) w True)\<lparr>v_signed := s\<rparr>) (arg_opt cx rec args 0)) (plain_w w s)"
    if "128 < w" for g
    using plain_round [of w True] that by (intro ev_total_map [OF arg]) (simp add: plain_w_def max_absorb1)
  show ?thesis
    unfolding eval_sysfunc_ctx_def using gen cast [of s] cast [of False] conv assms(4)
    by (auto simp: first_arg_funcs_def)
qed

end

end
