(* ===== verification/EvalTotal.thy ===== *)
theory EvalTotal
  imports EvalSound
begin

text \<open>
  The whole evaluator: by induction on the stack, every expression of a design of vectors evaluates, whatever the
  store answers.
\<close>

section \<open>What the width table gives\<close>

lemma design_table:
  assumes d: "vector_design calls cx"
  obtains cr where "length (t_sw (ec_wt cx)) = length (x_exprs (ec_ir cx))"
    and "\<And>i. i < length (x_exprs (ec_ir cx)) \<Longrightarrow> w_width (t_sw (ec_wt cx) ! i) \<le> width_max"
    and "\<And>i. i < length (x_exprs (ec_ir cx)) \<Longrightarrow>
      (\<exists>net w. x_exprs (ec_ir cx) ! i = Signal net w) \<or>
      self_width_of (ec_ir cx) cr (t_sw (ec_wt cx)) i = Some (t_sw (ec_wt cx) ! i)"
proof -
  obtain ft cf where w: "width_table (ec_ir cx) ft cf = Some (t_sw (ec_wt cx))"
    and cf: "\<And>i. cf i \<noteq> None \<Longrightarrow> \<exists>net w. x_exprs (ec_ir cx) ! i = Signal net w"
    and po: "post_order (ec_ir cx)" and nets: "nets_ok (ec_ir cx)"
    using d unfolding vector_design_def by blast
  have "solves (ec_ir cx) (ret_of ft) cf []" "sw_ok []" by (simp_all add: solves_def sw_ok_def)
  then have t: "length (t_sw (ec_wt cx)) = length (x_exprs (ec_ir cx))" "sw_ok (t_sw (ec_wt cx))"
    "solves (ec_ir cx) (ret_of ft) cf (t_sw (ec_wt cx))"
    using width_pass_ok [OF po nets, of "[]" "ret_of ft" cf] w by (simp_all add: width_table_def)
  show ?thesis
  proof (rule that [of "ret_of ft"])
    fix i assume i: "i < length (x_exprs (ec_ir cx))"
    then show "w_width (t_sw (ec_wt cx) ! i) \<le> width_max"
      using t(1,2) by (simp add: sw_ok_def)
    show "(\<exists>net w. x_exprs (ec_ir cx) ! i = Signal net w) \<or>
      self_width_of (ec_ir cx) (ret_of ft) (t_sw (ec_wt cx)) i = Some (t_sw (ec_wt cx) ! i)"
      using t(1,3) i cf [of i] unfolding solves_def by (cases "cf i") auto
  qed (rule t(1))
qed

lemma child_Some: "child sw i c = Some s \<longleftrightarrow> c < length sw \<and> c < i \<and> s = sw ! c"
  by (auto simp: child_def)

lemma wt_get_child: "child (t_sw (ec_wt cx)) i c = Some s \<Longrightarrow> wt_get cx c = Some s"
  by (simp add: child_Some wt_get_def)

section \<open>One node\<close>

lemma const_node_total:
  assumes "c_repr (x_consts (ec_ir cx) ! v) \<noteq> RealRepr" and "v < length (x_consts (ec_ir cx))"
  shows "ev_total J (eval_node cx rec i (Const v) w s) (plain_w w s)"
proof -
  have "ev_total J (ev_opt (eval_const cx v)) plain"
    by (rule ev_total_opt_ex) (use assms plain_from_packed in \<open>simp add: eval_const_def arena_get_in\<close>)
  then show ?thesis by (simp add: eval_node_def total_resized)
qed

context vector_reader
begin

lemma node_total:
  assumes rd: "ec_nets cx = rd" and nets: "length (x_nets (ec_ir cx)) \<le> n"
    and po: "post_order (ec_ir cx)" and i: "i < length (x_exprs (ec_ir cx))"
    and below: "\<And>c. c < i \<Longrightarrow> sub_ok cx J rec c"
    and lits: "\<And>k v. k < length (x_exprs (ec_ir cx)) \<Longrightarrow> x_exprs (ec_ir cx) ! k = Const v \<Longrightarrow> sub_ok cx J rec k"
    and shape: "node_shape calls cx i (x_exprs (ec_ir cx) ! i)"
    and rule: "(\<exists>net w. x_exprs (ec_ir cx) ! i = Signal net w) \<or>
      self_width_of (ec_ir cx) cr (t_sw (ec_wt cx)) i = Some sw"
    and w: "w_width sw \<le> w" and s: "s \<longrightarrow> w_signed sw"
  shows "ev_total J (eval_node cx rec i (x_exprs (ec_ir cx) ! i) w s) (plain_w w s)"
proof -
  note ch = post_order_children [OF po i]
  have cu: "\<exists>r. const_u32_of_expr_ctx (ec_ir cx) c = Some r \<and> opt_ok (\<lambda>k. k \<le> width_max) r" if "c < i" for c
    using const_u32_returns [OF po, of c] that i by (auto split: option.split)
  show ?thesis
  proof (cases "x_exprs (ec_ir cx) ! i")
    case (Const v)
    then have "c_repr (x_consts (ec_ir cx) ! v) \<noteq> RealRepr" using shape by (simp add: node_shape_def)
    then show ?thesis unfolding Const using post_order_const [OF po i Const] by (rule const_node_total)
  next
    case (Signal net word)
    obtain m k sh where t: "signal_target cx i net word = Some (m, k, sh)" "m < n"
      and k: "\<And>e. k = Some e \<Longrightarrow> sub_ok cx J rec e"
    proof (cases "read_alias (ec_wt cx) i")
      case None
      then show ?thesis
        using that [of net word None] shape nets ch below Signal
        by (auto simp: signal_target_def node_shape_def expr_children_def)
    next
      case (Some p)
      then show ?thesis
        using that [of "fst p" "snd p"] shape nets lits Signal
        by (cases p; cases "snd p") (auto simp: signal_target_def node_shape_def arena_get_in Let_def)
    qed
    show ?thesis
      unfolding Signal eval_node_def expr.case by (rule total_resized [OF signal_total [OF rd t k]]) simp_all
  next
    case (ArrayItem b x1 x2)
    have "ev_total J (of_env (\<lambda>e. nr_array_item rd e b)) plain" by (rule of_env_total) (rule item)
    then show ?thesis unfolding ArrayItem eval_node_def expr.case rd by (rule total_resized) simp
  next
    case (Unary op x)
    then have x: "sub_ok cx J rec x" using ch below by (simp add: expr_children_def)
    obtain xw where xw: "child (t_sw (ec_wt cx)) i x = Some xw" "sw = self_width_unary op xw"
      using rule i unfolding self_width_of_def arena_get_in [OF i] Unary by auto
    show ?thesis
      unfolding Unary eval_node_def expr.case
      by (rule unary_total [OF x wt_get_child [OF xw(1)]]) (use w s xw(2) in simp_all)
  next
    case (Binary op l r)
    then have lr: "sub_ok cx J rec l" "sub_ok cx J rec r" using ch below by (simp_all add: expr_children_def)
    obtain lw rw where c: "child (t_sw (ec_wt cx)) i l = Some lw" "child (t_sw (ec_wt cx)) i r = Some rw"
      "sw = self_width_binary op lw rw"
      using rule i unfolding self_width_of_def arena_get_in [OF i] Binary by (auto simp: bind_eq_Some_conv)
    show ?thesis
      unfolding Binary eval_node_def expr.case
      by (rule binary_total [OF lr(1) wt_get_child [OF c(1)] lr(2) wt_get_child [OF c(2)]]) (use w s c(3) in simp_all)
  next
    case (Ternary c t e)
    then have x: "sub_ok cx J rec c" "sub_ok cx J rec t" "sub_ok cx J rec e"
      using ch below by (simp_all add: expr_children_def)
    obtain tw ew where u: "child (t_sw (ec_wt cx)) i t = Some tw" "child (t_sw (ec_wt cx)) i e = Some ew"
      "sw = self_width_ternary tw ew"
      using rule i unfolding self_width_of_def arena_get_in [OF i] Ternary by (auto simp: bind_eq_Some_conv)
    show ?thesis
      unfolding Ternary eval_node_def expr.case
      by (rule ternary_total [OF x(1,2) wt_get_child [OF u(1)] x(3) wt_get_child [OF u(2)]]) (use w s u(3) in simp_all)
  next
    case (Concat parts)
    then have "\<And>p. p \<in> set parts \<Longrightarrow> sub_ok cx J rec p" using ch below by (simp add: expr_children_def)
    moreover have "sum_list (map (\<lambda>p. w_width (t_sw (ec_wt cx) ! p)) parts) < 2 ^ 32"
      using shape Concat by (simp add: node_shape_def)
    ultimately show ?thesis
      unfolding Concat eval_node_def expr.case by (intro total_resized [OF concat_total]) simp_all
  next
    case (Replicate c v)
    then have "c < i" "v < i" using ch by (simp_all add: expr_children_def)
    then obtain r where r: "const_u32_of_expr_ctx (ec_ir cx) c = Some r" using cu by blast
    moreover have "opt_ok (\<lambda>k. w_width (t_sw (ec_wt cx) ! v) * k < 2 ^ 32) r"
      using shape Replicate r by (simp add: node_shape_def)
    ultimately show ?thesis
      unfolding Replicate eval_node_def expr.case
      using below [OF \<open>v < i\<close>] by (intro total_resized [OF replicate_total]) simp_all
  next
    case (Select b off c kind)
    then have lt: "b < i" "off < i" "c < i" using ch by (simp_all add: expr_children_def)
    then obtain r where r: "const_u32_of_expr_ctx (ec_ir cx) c = Some r" "opt_ok (\<lambda>k. k \<le> width_max) r" using cu by blast
    show ?thesis
      unfolding Select eval_node_def expr.case
      using total_resized [OF select_total [OF below [OF lt(1)] below [OF lt(2)] r]] by simp
  next
    case (SysFunc f args)
    then have a: "\<And>a. a \<in> set args \<Longrightarrow> sub_ok cx J rec a" using ch below by (simp add: expr_children_def)
    have "f \<in> vector_funcs" "f \<in> first_arg_funcs \<longrightarrow> args \<noteq> []"
      using shape SysFunc by (simp_all add: node_shape_def)
    from sysfunc_total [OF rd nets this a] show ?thesis
      unfolding SysFunc eval_node_def expr.case .
  next
    case (Call f args)
    then have a: "\<And>a. a \<in> set args \<Longrightarrow> sub_ok cx J rec a" and c: calls
      using ch below shape by (simp_all add: expr_children_def node_shape_def)
    show ?thesis
      unfolding Call eval_node_def expr.case by (rule call_total [OF rd c a]) simp_all
  qed
qed

lemma eval_ctx_sub_ok:
  assumes rd: "ec_nets cx = rd" and nets: "length (x_nets (ec_ir cx)) \<le> n" and d: "vector_design calls cx"
  shows "i < length (x_exprs (ec_ir cx)) \<Longrightarrow> i + 2 \<le> fuel \<or> (\<exists>v. x_exprs (ec_ir cx) ! i = Const v) \<and> 1 \<le> fuel \<Longrightarrow>
    sub_ok cx J (eval_ctx fuel cx) i"
proof (induction fuel arbitrary: i)
  case (Suc fuel)
  let ?rec = "eval_ctx fuel cx"
  obtain cr where t: "length (t_sw (ec_wt cx)) = length (x_exprs (ec_ir cx))"
    "w_width (t_sw (ec_wt cx) ! i) \<le> width_max"
    "(\<exists>net w. x_exprs (ec_ir cx) ! i = Signal net w) \<or>
      self_width_of (ec_ir cx) cr (t_sw (ec_wt cx)) i = Some (t_sw (ec_wt cx) ! i)"
    using design_table [OF d] Suc.prems(1) by metis
  let ?sw = "t_sw (ec_wt cx) ! i"
  have po: "post_order (ec_ir cx)" and sh: "node_shape calls cx i (x_exprs (ec_ir cx) ! i)"
    and real: "wt_is_real cx i = Some False"
    using d Suc.prems(1) by (simp_all add: vector_design_def wt_is_real_def arena_get_in)
  have g: "wt_get cx i = Some ?sw" using t(1) Suc.prems(1) by (simp add: wt_get_def arena_get_in)
  have node: "ev_total J (eval_node cx ?rec i (x_exprs (ec_ir cx) ! i) w s) (plain_w w s)"
    if "w_width ?sw \<le> w" "s \<longrightarrow> w_signed ?sw" for w s
  proof (cases "\<exists>v. x_exprs (ec_ir cx) ! i = Const v")
    case True
    then obtain v where v: "x_exprs (ec_ir cx) ! i = Const v" by blast
    show ?thesis
      unfolding v using sh post_order_const [OF po Suc.prems(1) v] by (intro const_node_total) (simp_all add: node_shape_def v)
  next
    case False
    then have f: "i + 1 \<le> fuel" using Suc.prems(2) by simp
    show ?thesis
    proof (rule node_total [OF rd nets po Suc.prems(1) _ _ sh t(3) that])
      show "sub_ok cx J ?rec c" if "c < i" for c
        using Suc.IH [of c] that f Suc.prems(1) by simp
      show "sub_ok cx J ?rec k" if "k < length (x_exprs (ec_ir cx))" "x_exprs (ec_ir cx) ! k = Const v" for k v
        using Suc.IH [of k] that f by simp
    qed
  qed
  have "ev_total J (eval_ctx (Suc fuel) cx i cw cs) (plain_w (max (w_width ?sw) cw) (w_signed ?sw \<and> cs))" for cw cs
    using node [of "max (w_width ?sw) cw" "w_signed ?sw \<and> cs"] Suc.prems(1)
    by (simp, intro total_opt_bind [OF g] total_opt_bind [of _ "x_exprs (ec_ir cx) ! i"]) (simp_all add: arena_get_in)
  then show ?case
    unfolding sub_ok_def using g real t(2) by blast
qed simp

text \<open>The evaluator is total on every expression of the design.\<close>

lemma eval_ctx_total:
  assumes "ec_nets cx = rd" and "length (x_nets (ec_ir cx)) \<le> n" and "vector_design calls cx"
    and "i < length (x_exprs (ec_ir cx))" and "i + 2 \<le> fuel"
  shows "ev_total J (eval_ctx fuel cx i cw cs)
    (plain_w (max (w_width (t_sw (ec_wt cx) ! i)) cw) (w_signed (t_sw (ec_wt cx) ! i) \<and> cs))"
proof (rule sub_okE [OF eval_ctx_sub_ok [OF assms(1-3)]])
  fix sw assume "wt_get cx i = Some sw"
    "\<And>cw cs. ev_total J (eval_ctx fuel cx i cw cs) (plain_w (max (w_width sw) cw) (w_signed sw \<and> cs))"
  then show ?thesis by (simp add: wt_get_def)
qed (use assms in simp_all)

end

end
