(* ===== verification/DirtyBits.thy ===== *)
theory DirtyBits
  imports Prelude
begin

text \<open>
  The dirty-net set of \<open>crates/sim-engine/src/native/dirty.rs\<close>: \<open>DirtyBits\<close>, a bitmap with one summary bit per
  word.  Its contract, a finite set of indices enumerated in ascending order, is the interface \<open>index_set\<close>.
  An operation returns \<open>None\<close> where an index panics.
\<close>

section \<open>The bits of a word, lowest first\<close>

definition trailing_zeros :: "u64 \<Rightarrow> nat" where
  "trailing_zeros x = length (takeWhile (\<lambda>i. \<not> bit x i) [0..<64])"

text \<open>\<open>while s != 0 { ... s.trailing_zeros(); s &= s - 1 }\<close>.\<close>

lemma trailing_zeros_bits:
  assumes "x \<noteq> (0 :: u64)"
  shows "trailing_zeros x < 64" and "bit x (trailing_zeros x)" and "j < trailing_zeros x \<Longrightarrow> \<not> bit x j"
proof -
  obtain i where i: "i < 64" "bit x i" using assms by (auto simp: bit_eq_iff)
  let ?P = "\<lambda>i. \<not> bit x i" and ?t = "trailing_zeros x"
  have "\<not> (\<forall>i \<in> set [0..<64]. ?P i)" using i by auto
  then have ne: "takeWhile ?P [0..<64] \<noteq> [0..<64]" using takeWhile_eq_all_conv by metis
  then have l: "?t < length [0..<64]"
    unfolding trailing_zeros_def by (metis le_neq_implies_less length_takeWhile_le takeWhile_eq_take take_all_iff)
  then show "?t < 64" by simp
  show "bit x ?t" using nth_length_takeWhile [OF l [unfolded trailing_zeros_def]] l by (simp add: trailing_zeros_def)
  show "\<not> bit x j" if "j < ?t" for j
  proof -
    have "takeWhile ?P [0..<64] ! j = [0..<64] ! j" using takeWhile_nth that by (metis trailing_zeros_def)
    then have "j \<in> set (takeWhile ?P [0..<64])" using that l by (metis length_upt nth_mem nth_upt plus_nat.add_0 order_less_trans trailing_zeros_def minus_nat.diff_0)
    then show ?thesis by (auto dest: set_takeWhileD)
  qed
qed

lemma lowest_less: "s \<noteq> 0 \<Longrightarrow> bit s i \<Longrightarrow> i \<noteq> trailing_zeros s \<Longrightarrow> trailing_zeros s < i"
  using trailing_zeros_bits(3) [of s i] by (meson linorder_neqE_nat)

lemma bit_clear_lowest:
  assumes "s \<noteq> (0 :: u64)"
  shows "bit (s AND (s - 1)) i \<longleftrightarrow> bit s i \<and> i \<noteq> trailing_zeros s"
proof -
  let ?t = "trailing_zeros s"
  note t = trailing_zeros_bits [OF assms]
  let ?hi = "s AND NOT (mask (Suc ?t))"
  have s: "?hi OR push_bit ?t 1 = s"
    by (rule bit_word_eqI) (use t in \<open>auto simp: bit_simps less_Suc_eq\<close>)
  have "?hi + push_bit ?t 1 = ?hi OR push_bit ?t 1"
    by (rule disjunctive_add_eq_or) (rule bit_word_eqI, auto simp: bit_simps)
  moreover have "?hi + mask ?t = ?hi OR mask ?t"
    by (rule disjunctive_add_eq_or) (rule bit_word_eqI, auto simp: bit_simps)
  moreover have "push_bit ?t 1 - 1 = (mask ?t :: u64)" by (simp add: push_bit_of_1 mask_eq_exp_minus_1)
  ultimately have "s - 1 = ?hi OR mask ?t"
    using s by (metis add_diff_eq)
  moreover have "i < 64" if "bit s i" using bit_imp_le_length [OF that] by simp
  moreover note lowest_less [OF assms, of i]
  ultimately show ?thesis
    using t by (auto simp: bit_simps less_Suc_eq)
qed

function bits_asc :: "u64 \<Rightarrow> nat list" where
  "bits_asc s = (if s = 0 then [] else trailing_zeros s # bits_asc (s AND (s - 1)))"
  by pat_completeness auto

termination
proof (relation "measure (\<lambda>s. card {i. i < 64 \<and> bit s i})")
  fix s :: u64 assume s: "s \<noteq> 0"
  have "{i. i < 64 \<and> bit (s AND (s - 1)) i} \<subset> {i. i < 64 \<and> bit s i}"
    using trailing_zeros_bits [OF s] by (auto simp: bit_clear_lowest [OF s])
  then show "(s AND (s - 1), s) \<in> measure (\<lambda>s. card {i. i < 64 \<and> bit s i})"
    by (simp add: psubset_card_mono)
qed simp

declare bits_asc.simps [simp del]

lemma bits_asc_0 [simp]: "bits_asc 0 = []"
  by (simp add: bits_asc.simps)

lemma set_bits_asc: "set (bits_asc s) = {i. i < 64 \<and> bit s i}"
proof (induction s rule: bits_asc.induct)
  case (1 s)
  show ?case
  proof (cases "s = 0")
    case False
    then have "set (bits_asc s) = insert (trailing_zeros s) {i. i < 64 \<and> bit (s AND (s - 1)) i}"
      using 1 by (subst bits_asc.simps) simp
    then show ?thesis using trailing_zeros_bits [OF False] bit_clear_lowest [OF False] by auto
  qed simp
qed

lemma sorted_bits_asc: "sorted (bits_asc s) \<and> distinct (bits_asc s)"
proof (induction s rule: bits_asc.induct)
  case (1 s)
  show ?case
  proof (cases "s = 0")
    case False
    have "trailing_zeros s < i" if "i \<in> set (bits_asc (s AND (s - 1)))" for i
      using that lowest_less [OF False, of i] unfolding set_bits_asc by (simp add: bit_clear_lowest [OF False])
    then show ?thesis using 1 False by (subst (1 2) bits_asc.simps) force
  qed simp
qed

section \<open>The bitmap\<close>

record dirty_bits =
  db_words :: "u64 list"
  db_summary :: "u64 list"
  db_nbits :: nat

definition div_ceil64 :: "nat \<Rightarrow> nat" where
  "div_ceil64 n = (n + 63) div 64"

definition db_new :: "nat \<Rightarrow> dirty_bits" where
  "db_new n =
     (let nw = div_ceil64 n
      in \<lparr>db_words = replicate nw 0, db_summary = replicate (div_ceil64 nw) 0, db_nbits = n\<rparr>)"

definition db_holds :: "dirty_bits \<Rightarrow> nat \<Rightarrow> bool" where
  "db_holds d i \<longleftrightarrow> i < db_nbits d"

text \<open>\<open>insert\<close>: the set, and whether the index is new.\<close>

definition db_insert :: "nat \<Rightarrow> dirty_bits \<Rightarrow> (bool \<times> dirty_bits) option" where
  "db_insert i d =
     (let wi = i div 64; b = push_bit (i mod 64) 1; si = wi div 64; sb = push_bit (wi mod 64) 1
      in if wi < length (db_words d) then
           (if (db_words d ! wi) AND b \<noteq> 0 then Some (False, d)
            else if si < length (db_summary d) then
              Some (True, d\<lparr>db_words := (db_words d)[wi := (db_words d ! wi) OR b],
                            db_summary := (db_summary d)[si := (db_summary d ! si) OR sb]\<rparr>)
            else None)
         else None)"

fun db_insert_list :: "nat list \<Rightarrow> dirty_bits \<Rightarrow> dirty_bits option" where
  "db_insert_list [] d = Some d"
| "db_insert_list (i # is) d = Option.bind (db_insert i d) (\<lambda>(_, d). db_insert_list is d)"

definition db_insert_all :: "nat \<Rightarrow> dirty_bits \<Rightarrow> dirty_bits option" where
  "db_insert_all n d = db_insert_list [0..<n] d"

definition db_is_empty :: "dirty_bits \<Rightarrow> bool" where
  "db_is_empty d \<longleftrightarrow> list_all (\<lambda>s. s = 0) (db_summary d)"

definition db_contains :: "nat \<Rightarrow> dirty_bits \<Rightarrow> bool option" where
  "db_contains i d =
     (if i div 64 < length (db_words d)
      then Some ((db_words d ! (i div 64)) AND push_bit (i mod 64) 1 \<noteq> 0) else None)"

definition db_remove :: "nat \<Rightarrow> dirty_bits \<Rightarrow> (bool \<times> dirty_bits) option" where
  "db_remove i d =
     (let wi = i div 64; b = push_bit (i mod 64) 1; si = wi div 64; sb = push_bit (wi mod 64) 1
      in if wi < length (db_words d) then
           (if (db_words d ! wi) AND b = 0 then Some (False, d)
            else (let w = (db_words d ! wi) AND NOT b; d = d\<lparr>db_words := (db_words d)[wi := w]\<rparr>
                  in if w = 0 then
                       (if si < length (db_summary d)
                        then Some (True, d\<lparr>db_summary := (db_summary d)[si := (db_summary d ! si) AND NOT sb]\<rparr>)
                        else None)
                     else Some (True, d)))
         else None)"

text \<open>\<open>drain_with\<close> visits the members and empties the set; \<open>collect\<close> only visits.  The closure cannot reach
  the set it drains, so the visit is the list of its arguments, in order.\<close>

fun drain_words :: "nat list \<Rightarrow> u64 list \<Rightarrow> (nat list \<times> u64 list) option" where
  "drain_words [] ws = Some ([], ws)"
| "drain_words (wi # wis) ws =
     (if wi < length ws
      then map_option (\<lambda>(out, ws'). (map (\<lambda>b. 64 * wi + b) (bits_asc (ws ! wi)) @ out, ws'))
             (drain_words wis (ws[wi := 0]))
      else None)"

fun drain_summary :: "nat \<Rightarrow> u64 list \<Rightarrow> u64 list \<Rightarrow> (nat list \<times> u64 list) option" where
  "drain_summary si [] ws = Some ([], ws)"
| "drain_summary si (s # ss) ws =
     Option.bind (drain_words (map (\<lambda>b. 64 * si + b) (bits_asc s)) ws)
       (\<lambda>(out, ws). map_option (\<lambda>(out', ws'). (out @ out', ws')) (drain_summary (Suc si) ss ws))"

definition db_drain :: "dirty_bits \<Rightarrow> (nat list \<times> dirty_bits) option" where
  "db_drain d =
     map_option (\<lambda>(out, ws). (out, d\<lparr>db_words := ws, db_summary := map (\<lambda>_. 0) (db_summary d)\<rparr>))
       (drain_summary 0 (db_summary d) (db_words d))"

definition collect_word :: "u64 list \<Rightarrow> nat \<Rightarrow> nat list option" where
  "collect_word ws wi =
     (if wi < length ws then Some (map (\<lambda>b. 64 * wi + b) (bits_asc (ws ! wi))) else None)"

definition db_collect :: "dirty_bits \<Rightarrow> nat list option" where
  "db_collect d =
     map_option concat
       (those (map (collect_word (db_words d))
          (concat (map (\<lambda>(si, s). map (\<lambda>b. 64 * si + b) (bits_asc s)) (enumerate 0 (db_summary d))))))"

text \<open>The mark of \<open>arm_t0\<close> and the return to it.\<close>

definition db_snapshot :: "dirty_bits \<Rightarrow> u64 list" where
  "db_snapshot d = db_words d"

fun retain_words :: "nat \<Rightarrow> nat list \<Rightarrow> u64 list \<Rightarrow> u64 list \<Rightarrow> u64 \<Rightarrow> (u64 \<times> u64 list) option" where
  "retain_words si [] snap ws keep = Some (keep, ws)"
| "retain_words si (b # bs) snap ws keep =
     (let wi = 64 * si + b
      in if wi < length ws \<and> wi < length snap
         then (let w = (ws ! wi) AND (snap ! wi)
               in retain_words si bs snap (ws[wi := w]) (if w \<noteq> 0 then keep OR push_bit b 1 else keep))
         else None)"

fun retain_summary :: "nat \<Rightarrow> u64 list \<Rightarrow> u64 list \<Rightarrow> u64 list \<Rightarrow> (u64 list \<times> u64 list) option" where
  "retain_summary si [] snap ws = Some ([], ws)"
| "retain_summary si (s # ss) snap ws =
     (if s = 0 then map_option (\<lambda>(ss', ws'). (s # ss', ws')) (retain_summary (Suc si) ss snap ws)
      else Option.bind (retain_words si (bits_asc s) snap ws 0)
             (\<lambda>(keep, ws). map_option (\<lambda>(ss', ws'). (keep # ss', ws')) (retain_summary (Suc si) ss snap ws)))"

definition db_retain_snapshot :: "u64 list \<Rightarrow> dirty_bits \<Rightarrow> dirty_bits option" where
  "db_retain_snapshot snap d =
     map_option (\<lambda>(ss, ws). d\<lparr>db_words := ws, db_summary := ss\<rparr>)
       (retain_summary 0 (db_summary d) snap (db_words d))"

section \<open>The set it stands for\<close>

definition db_set :: "dirty_bits \<Rightarrow> nat set" where
  "db_set d = {i. pbit (db_words d) i}"

text \<open>A summary bit is set exactly for a word that is not zero.\<close>

definition db_ok :: "dirty_bits \<Rightarrow> bool" where
  "db_ok d \<longleftrightarrow>
     length (db_words d) = div_ceil64 (db_nbits d) \<and> length (db_summary d) = div_ceil64 (length (db_words d)) \<and>
     (\<forall>k. pbit (db_summary d) k \<longleftrightarrow> wget (db_words d) k \<noteq> 0)"

lemma div_ceil64: "n \<le> 64 * div_ceil64 n" and div_ceil64_less: "i < n \<Longrightarrow> i div 64 < div_ceil64 n"
  by (auto simp: div_ceil64_def)

lemma holds_in_range: "db_ok d \<Longrightarrow> db_holds d i \<Longrightarrow> i div 64 < length (db_words d)"
  by (simp add: db_ok_def db_holds_def div_ceil64_less)

lemma and_single_bit: "x AND push_bit j 1 \<noteq> (0 :: u64) \<longleftrightarrow> j < 64 \<and> bit x j"
proof -
  have "bit (x AND push_bit j 1) i \<longleftrightarrow> i = j \<and> j < 64 \<and> bit x j" for i
    by (auto simp: bit_simps)
  then have "(\<exists>i. bit (x AND push_bit j 1) i) \<longleftrightarrow> j < 64 \<and> bit x j" by blast
  moreover have "y \<noteq> 0 \<longleftrightarrow> (\<exists>i. bit y i)" for y :: u64
    by (metis bit_eqI bit_0_eq bot_apply bot_bool_def)
  ultimately show ?thesis by simp
qed

lemma pbit_set_word:
  assumes "k < length ws"
  shows "pbit (ws[k := x]) i \<longleftrightarrow> (if i div 64 = k then bit x (i mod 64) else pbit ws i)"
  using assms by (auto simp: pbit_def wget_list_update)

lemma pbit_or_word:
  assumes "i div 64 < length ws"
  shows "pbit (ws[i div 64 := (ws ! (i div 64)) OR push_bit (i mod 64) 1]) j \<longleftrightarrow> j = i \<or> pbit ws j"
proof -
  have "j = i" if "j div 64 = i div 64" "j mod 64 = i mod 64" using that by (metis mult_div_mod_eq)
  then show ?thesis
    using assms by (auto simp: pbit_set_word bit_simps) (auto simp: pbit_def wget_in)
qed

lemma pbit_andn_word:
  assumes "i div 64 < length ws"
  shows "pbit (ws[i div 64 := (ws ! (i div 64)) AND NOT (push_bit (i mod 64) 1)]) j \<longleftrightarrow> j \<noteq> i \<and> pbit ws j"
proof -
  have "j = i" if "j div 64 = i div 64" "j mod 64 = i mod 64" using that by (metis mult_div_mod_eq)
  then show ?thesis
    using assms by (auto simp: pbit_set_word bit_simps) (auto simp: pbit_def wget_in)
qed

lemma db_new_ok: "db_ok (db_new n) \<and> db_set (db_new n) = {} \<and> db_nbits (db_new n) = n"
  by (simp add: db_ok_def db_set_def db_new_def Let_def)

lemma db_insert_ok:
  assumes ok: "db_ok d" and i: "db_holds d i"
  shows "\<exists>d'. db_insert i d = Some (i \<notin> db_set d, d') \<and> db_ok d' \<and> db_set d' = insert i (db_set d)
    \<and> db_nbits d' = db_nbits d"
proof -
  let ?k = "i div 64" and ?ws = "db_words d" and ?ss = "db_summary d"
  have k: "?k < length ?ws" using holds_in_range [OF ok i] .
  then have s: "?k div 64 < length ?ss" using ok by (simp add: db_ok_def div_ceil64_less)
  have m: "(?ws ! ?k) AND push_bit (i mod 64) 1 \<noteq> 0 \<longleftrightarrow> i \<in> db_set d"
    using k by (simp only: and_single_bit) (simp add: db_set_def pbit_def wget_in)
  show ?thesis
  proof (cases "i \<in> db_set d")
    case True
    then show ?thesis using m k ok by (simp add: db_insert_def Let_def insert_absorb)
  next
    case False
    let ?d = "d\<lparr>db_words := ?ws[?k := (?ws ! ?k) OR push_bit (i mod 64) 1],
      db_summary := ?ss[?k div 64 := (?ss ! (?k div 64)) OR push_bit (?k mod 64) 1]\<rparr>"
    have ins: "db_insert i d = Some (True, ?d)" using m k s False by (simp add: db_insert_def Let_def)
    have nz: "(?ws ! ?k) OR push_bit (i mod 64) 1 \<noteq> 0"
    proof -
      have "bit ((?ws ! ?k) OR push_bit (i mod 64) 1) (i mod 64)" by (simp add: bit_simps)
      then show ?thesis by force
    qed
    have "pbit (db_summary ?d) j \<longleftrightarrow> wget (db_words ?d) j \<noteq> 0" for j
      using ok k nz pbit_or_word [OF s, of j] by (auto simp: db_ok_def wget_list_update)
    then have "db_ok ?d" using ok by (simp add: db_ok_def)
    moreover have "db_set ?d = insert i (db_set d)"
      using pbit_or_word [OF k] by (auto simp: db_set_def)
    ultimately show ?thesis using ins False by auto
  qed
qed

lemma db_remove_ok:
  assumes ok: "db_ok d" and i: "db_holds d i"
  shows "\<exists>d'. db_remove i d = Some (i \<in> db_set d, d') \<and> db_ok d' \<and> db_set d' = db_set d - {i}
    \<and> db_nbits d' = db_nbits d"
proof -
  let ?k = "i div 64" and ?ws = "db_words d" and ?ss = "db_summary d"
  let ?w = "(?ws ! ?k) AND NOT (push_bit (i mod 64) 1)"
  have k: "?k < length ?ws" using holds_in_range [OF ok i] .
  then have s: "?k div 64 < length ?ss" using ok by (simp add: db_ok_def div_ceil64_less)
  have m: "(?ws ! ?k) AND push_bit (i mod 64) 1 \<noteq> 0 \<longleftrightarrow> i \<in> db_set d"
    using k by (simp only: and_single_bit) (simp add: db_set_def pbit_def wget_in)
  show ?thesis
  proof (cases "i \<in> db_set d")
    case False
    then show ?thesis using m k ok by (simp add: db_remove_def Let_def)
  next
    case True
    then have nz: "wget ?ws ?k \<noteq> 0" using k by (force simp: db_set_def pbit_def)
    let ?d = "d\<lparr>db_words := ?ws[?k := ?w],
      db_summary := (if ?w = 0 then ?ss[?k div 64 := (?ss ! (?k div 64)) AND NOT (push_bit (?k mod 64) 1)] else ?ss)\<rparr>"
    have rem: "db_remove i d = Some (True, ?d)" using m k s True by (auto simp: db_remove_def Let_def)
    have "pbit (db_summary ?d) j \<longleftrightarrow> wget (db_words ?d) j \<noteq> 0" for j
      using ok k nz pbit_andn_word [OF s, of j] by (auto simp: db_ok_def wget_list_update)
    then have "db_ok ?d" using ok by (simp add: db_ok_def)
    moreover have "db_set ?d = db_set d - {i}"
      using pbit_andn_word [OF k] by (auto simp: db_set_def)
    ultimately show ?thesis using rem True by auto
  qed
qed

lemma db_contains_ok: "db_ok d \<Longrightarrow> db_holds d i \<Longrightarrow> db_contains i d = Some (i \<in> db_set d)"
  using holds_in_range [of d i]
  by (simp add: db_contains_def and_single_bit db_set_def pbit_def wget_in del: push_bit_of_1)

lemma db_is_empty_ok:
  assumes "db_ok d"
  shows "db_is_empty d \<longleftrightarrow> db_set d = {}"
proof -
  have z: "(\<forall>i. \<not> pbit ws i) \<longleftrightarrow> list_all (\<lambda>w. w = 0) ws" for ws
  proof
    assume "\<forall>i. \<not> pbit ws i"
    have "wget ws k = 0" for k
    proof (rule bit_word_eqI)
      fix j assume j: "j < LENGTH(64)"
      have "\<not> pbit ws (64 * k + j)" using \<open>\<forall>i. \<not> pbit ws i\<close> by blast
      then show "bit (wget ws k) j \<longleftrightarrow> bit (0 :: u64) j" using j by (simp add: pbit_def)
    qed
    then show "list_all (\<lambda>w. w = 0) ws" unfolding list_all_length by (metis wget_in)
  next
    assume "list_all (\<lambda>w. w = 0) ws"
    then show "\<forall>i. \<not> pbit ws i" by (auto simp: pbit_def wget_def list_all_length)
  qed
  have "db_is_empty d \<longleftrightarrow> (\<forall>k. wget (db_words d) k = 0)"
    using assms z [of "db_summary d"] by (simp add: db_is_empty_def db_ok_def)
  also have "\<dots> \<longleftrightarrow> db_set d = {}"
    using z [of "db_words d"] by (auto simp: db_set_def list_all_length wget_def pbit_def)
  finally show ?thesis .
qed

section \<open>Ascending enumeration\<close>

text \<open>The members in the words \<open>ks\<close> of a bitmap \<open>f\<close>.\<close>

definition block_list :: "(nat \<Rightarrow> u64) \<Rightarrow> nat list \<Rightarrow> nat list" where
  "block_list f ks = concat (map (\<lambda>k. map (\<lambda>b. 64 * k + b) (bits_asc (f k))) ks)"

lemma block_list_simps [simp]: "block_list f [] = []"
  "block_list f (k # ks) = map (\<lambda>b. 64 * k + b) (bits_asc (f k)) @ block_list f ks"
  by (simp_all add: block_list_def)

lemma block_list_append: "block_list f (ks @ js) = block_list f ks @ block_list f js"
  by (simp add: block_list_def)

lemma set_block_list: "set (block_list f ks) = {i. i div 64 \<in> set ks \<and> bit (f (i div 64)) (i mod 64)}"
proof -
  have "i \<in> (\<lambda>b. 64 * k + b) ` {b. b < 64 \<and> bit x b} \<longleftrightarrow> i div 64 = k \<and> bit x (i mod 64)" for i k and x :: u64
  proof
    assume "i div 64 = k \<and> bit x (i mod 64)"
    moreover have "i = 64 * (i div 64) + i mod 64" "i mod 64 < 64" by simp_all
    ultimately show "i \<in> (\<lambda>b. 64 * k + b) ` {b. b < 64 \<and> bit x b}" by blast
  qed auto
  then show ?thesis by (auto simp: block_list_def set_bits_asc)
qed

lemma strict_block_list: "sorted_wrt (<) ks \<Longrightarrow> sorted_wrt (<) (block_list f ks)"
proof (induction ks)
  case (Cons k ks)
  have b: "sorted_wrt (<) (map (\<lambda>b. 64 * k + b) (bits_asc (f k)))"
    using sorted_bits_asc [of "f k"] by (simp add: strict_sorted_iff sorted_wrt_map)
  have "x < y" if "x \<in> set (map (\<lambda>b. 64 * k + b) (bits_asc (f k)))" "y \<in> set (block_list f ks)" for x y
  proof -
    have "x div 64 = k" using that(1) by (auto simp: set_bits_asc)
    moreover have "k < y div 64" using that(2) Cons.prems by (auto simp: set_block_list)
    ultimately show ?thesis by (metis div_le_mono not_le)
  qed
  then show ?case using b Cons by (simp add: sorted_wrt_append)
qed simp

lemma block_list_sorted: "sorted_wrt (<) ks \<Longrightarrow>
    block_list f ks = sorted_list_of_set {i. i div 64 \<in> set ks \<and> bit (f (i div 64)) (i mod 64)}"
  using strict_block_list [of ks f] sorted_list_of_set.idem_if_sorted_distinct [of "block_list f ks"]
  by (simp add: strict_sorted_iff set_block_list)

lemma enumerate_blocks:
  "concat (map (\<lambda>(si, s). map (\<lambda>b. 64 * si + b) (bits_asc s)) (enumerate n ss)) = block_list (\<lambda>i. ss ! (i - n)) [n..<n + length ss]"
proof (induction ss arbitrary: n)
  case (Cons s ss)
  have "block_list (\<lambda>i. (s # ss) ! (i - n)) [Suc n..<Suc n + length ss] = block_list (\<lambda>i. ss ! (i - Suc n)) [Suc n..<Suc n + length ss]"
  proof -
    have "(s # ss) ! (i - n) = ss ! (i - Suc n)" if "i \<in> set [Suc n..<Suc n + length ss]" for i
      using that by (auto simp: nth_Cons')
    then show ?thesis
      unfolding block_list_def by (intro arg_cong [where f = concat] map_cong refl) simp
  qed
  moreover have "[n..<n + length (s # ss)] = n # [Suc n..<Suc n + length ss]"
    using upt_conv_Cons [of n "n + length (s # ss)"] by (simp del: upt_Suc)
  ultimately show ?case using Cons.IH [of "Suc n"] by simp
qed simp

text \<open>The words the summary names.\<close>

definition live_words :: "dirty_bits \<Rightarrow> nat list" where
  "live_words d = block_list (wget (db_summary d)) [0..<length (db_summary d)]"

lemma live_words_ok:
  assumes "db_ok d"
  shows "sorted_wrt (<) (live_words d)" and "set (live_words d) = {k. wget (db_words d) k \<noteq> 0}"
    and "k \<in> set (live_words d) \<Longrightarrow> k < length (db_words d)"
proof -
  show "sorted_wrt (<) (live_words d)"
    unfolding live_words_def by (rule strict_block_list) simp
  have "i div 64 < length (db_summary d)" if "pbit (db_summary d) i" for i
    using that by (auto simp: pbit_def wget_def split: if_splits)
  then have "set (live_words d) = {k. pbit (db_summary d) k}"
    by (auto simp: live_words_def set_block_list) (auto simp: pbit_def)
  then show s: "set (live_words d) = {k. wget (db_words d) k \<noteq> 0}"
    using assms by (simp add: db_ok_def)
  show "k < length (db_words d)" if "k \<in> set (live_words d)"
    using that unfolding s by (auto simp: wget_def split: if_splits)
qed

lemma live_words_members:
  assumes "db_ok d"
  shows "block_list (wget (db_words d)) (live_words d) = sorted_list_of_set (db_set d)"
proof -
  have "{i. i div 64 \<in> set (live_words d) \<and> bit (wget (db_words d) (i div 64)) (i mod 64)} = db_set d"
    unfolding live_words_ok(2) [OF assms] db_set_def pbit_def by force
  then show ?thesis
    using block_list_sorted [OF live_words_ok(1) [OF assms], of "wget (db_words d)"] by simp
qed

lemma drain_words_append:
  "drain_words (ks @ js) ws =
     Option.bind (drain_words ks ws) (\<lambda>(out, ws). map_option (\<lambda>(out', ws'). (out @ out', ws')) (drain_words js ws))"
proof (induction ks arbitrary: ws)
  case (Cons k ks)
  show ?case
    unfolding append_Cons drain_words.simps Cons.IH
    by (cases "drain_words ks (ws[k := 0])") (auto simp: option.map_comp comp_def case_prod_beta)
qed (simp add: case_prod_beta map_option_case split: option.split)

lemma drain_summary_eq:
  "drain_summary n ss ws = drain_words (block_list (\<lambda>i. ss ! (i - n)) [n..<n + length ss]) ws"
proof -
  have "drain_summary n ss ws
      = drain_words (concat (map (\<lambda>(si, s). map (\<lambda>b. 64 * si + b) (bits_asc s)) (enumerate n ss))) ws"
    by (induction ss arbitrary: n ws) (simp_all add: drain_words_append case_prod_beta)
  then show ?thesis by (simp add: enumerate_blocks)
qed

lemma drain_words_ok:
  "distinct ks \<Longrightarrow> (\<And>k. k \<in> set ks \<Longrightarrow> k < length ws) \<Longrightarrow>
    \<exists>ws'. drain_words ks ws = Some (block_list (wget ws) ks, ws') \<and> length ws' = length ws
      \<and> (\<forall>k. wget ws' k = (if k \<in> set ks then 0 else wget ws k))"
proof (induction ks arbitrary: ws)
  case (Cons k ks)
  then have "\<exists>ws'. drain_words ks (ws[k := 0]) = Some (block_list (wget (ws[k := 0])) ks, ws') \<and> length ws' = length ws
      \<and> (\<forall>j. wget ws' j = (if j \<in> set ks then 0 else wget (ws[k := 0]) j))"
    using Cons.IH [of "ws[k := 0]"] by simp
  moreover have "block_list (wget (ws[k := 0])) ks = block_list (wget ws) ks"
    unfolding block_list_def using Cons.prems(1)
    by (intro arg_cong [where f = concat] map_cong refl) (auto simp: wget_list_update)
  ultimately show ?case using Cons.prems(2) [of k] by (auto simp: wget_list_update wget_in)
qed simp

lemma db_drain_ok:
  assumes ok: "db_ok d"
  shows "\<exists>d'. db_drain d = Some (sorted_list_of_set (db_set d), d') \<and> db_ok d' \<and> db_set d' = {} \<and> db_nbits d' = db_nbits d"
proof -
  have "distinct (live_words d)" using live_words_ok(1) [OF ok] by (simp add: strict_sorted_iff)
  then obtain ws where ws: "drain_words (live_words d) (db_words d) = Some (block_list (wget (db_words d)) (live_words d), ws)"
    "length ws = length (db_words d)" "\<And>k. wget ws k = (if k \<in> set (live_words d) then 0 else wget (db_words d) k)"
    using drain_words_ok [of "live_words d" "db_words d"] live_words_ok(3) [OF ok] by blast
  have "drain_summary 0 (db_summary d) (db_words d) = drain_words (live_words d) (db_words d)"
  proof -
    have "block_list (\<lambda>i. db_summary d ! i) [0..<length (db_summary d)] = live_words d"
      unfolding live_words_def block_list_def
      by (intro arg_cong [where f = concat] map_cong refl) (simp add: wget_in)
    then show ?thesis by (simp add: drain_summary_eq)
  qed
  then have d: "db_drain d = Some (sorted_list_of_set (db_set d), d\<lparr>db_words := ws, db_summary := map (\<lambda>_. 0) (db_summary d)\<rparr>)"
    using ws(1) live_words_members [OF ok] by (simp add: db_drain_def)
  have z: "wget ws k = 0" for k
    using ws(3) [of k] live_words_ok(2) [OF ok] by auto
  have "db_ok (d\<lparr>db_words := ws, db_summary := map (\<lambda>_. 0) (db_summary d)\<rparr>)"
    using ok ws(2) by (simp add: db_ok_def z map_replicate_const)
  moreover have "db_set (d\<lparr>db_words := ws, db_summary := map (\<lambda>_. 0) (db_summary d)\<rparr>) = {}"
    by (simp add: db_set_def pbit_def z)
  ultimately show ?thesis using d by simp
qed

lemma those_map_Some: "(\<And>x. x \<in> set xs \<Longrightarrow> f x = Some (g x)) \<Longrightarrow> those (map f xs) = Some (map g xs)"
  by (induction xs) auto

lemma db_collect_ok:
  assumes ok: "db_ok d"
  shows "db_collect d = Some (sorted_list_of_set (db_set d))"
proof -
  have "block_list (\<lambda>i. db_summary d ! i) [0..<length (db_summary d)] = live_words d"
    unfolding live_words_def block_list_def
    by (intro arg_cong [where f = concat] map_cong refl) (simp add: wget_in)
  then have "db_collect d = map_option concat (those (map (collect_word (db_words d)) (live_words d)))"
    using enumerate_blocks [of 0 "db_summary d"] by (simp add: db_collect_def)
  also have "those (map (collect_word (db_words d)) (live_words d))
      = Some (map (\<lambda>k. map (\<lambda>b. 64 * k + b) (bits_asc (wget (db_words d) k))) (live_words d))"
    by (rule those_map_Some) (use live_words_ok(3) [OF ok] in \<open>simp add: collect_word_def wget_in\<close>)
  finally show ?thesis using live_words_members [OF ok] by (simp add: block_list_def)
qed

section \<open>The mark\<close>

definition meet :: "u64 list \<Rightarrow> u64 list \<Rightarrow> nat \<Rightarrow> u64" where
  "meet ws snap k = wget ws k AND wget snap k"

lemma retain_words_ok:
  "distinct bs \<Longrightarrow> (\<And>b. b \<in> set bs \<Longrightarrow> 64 * si + b < length ws) \<Longrightarrow> length snap = length ws \<Longrightarrow>
    \<exists>keep' ws'. retain_words si bs snap ws keep = Some (keep', ws') \<and> length ws' = length ws
      \<and> (\<forall>k. wget ws' k = (if k \<in> (\<lambda>b. 64 * si + b) ` set bs then meet ws snap k else wget ws k))
      \<and> (\<forall>b<64. bit keep' b \<longleftrightarrow> bit keep b \<or> b \<in> set bs \<and> meet ws snap (64 * si + b) \<noteq> 0)"
proof (induction bs arbitrary: ws keep)
  case (Cons b bs)
  let ?k = "64 * si + b"
  let ?w = "(ws ! ?k) AND (snap ! ?k)"
  let ?keep = "if ?w \<noteq> 0 then keep OR push_bit b 1 else keep"
  have k: "?k < length ws" using Cons.prems(2) by simp
  have w: "?w = meet ws snap ?k" using k Cons.prems(3) by (simp add: meet_def wget_in)
  have m: "meet (ws[?k := ?w]) snap j = meet ws snap j" for j
    using k Cons.prems(3) by (auto simp: meet_def wget_list_update wget_in and.assoc)
  obtain keep' ws' where r: "retain_words si bs snap (ws[?k := ?w]) ?keep = Some (keep', ws')" "length ws' = length ws"
    "\<And>j. wget ws' j = (if j \<in> (\<lambda>b. 64 * si + b) ` set bs then meet ws snap j else wget (ws[?k := ?w]) j)"
    "\<And>c. c < 64 \<Longrightarrow> bit keep' c \<longleftrightarrow> bit ?keep c \<or> c \<in> set bs \<and> meet ws snap (64 * si + c) \<noteq> 0"
    using Cons.IH [of "ws[?k := ?w]" ?keep] Cons.prems by (auto simp: m)
  have "wget ws' j = (if j \<in> (\<lambda>b. 64 * si + b) ` set (b # bs) then meet ws snap j else wget ws j)" for j
    using r(3) [of j] w k by (auto simp: wget_list_update)
  moreover have "bit keep' c \<longleftrightarrow> bit keep c \<or> c \<in> set (b # bs) \<and> meet ws snap (64 * si + c) \<noteq> 0" if "c < 64" for c
    using r(4) [OF that] that unfolding w by (auto simp: bit_simps)
  ultimately show ?case
    using r(1,2) k Cons.prems(3) by (simp add: Let_def)
qed simp

lemma retain_summary_ok:
  assumes "length snap = length ws"
    and "\<And>i b. i < length ss \<Longrightarrow> b < 64 \<Longrightarrow> bit (ss ! i) b \<longleftrightarrow> wget ws (64 * (n + i) + b) \<noteq> 0"
  shows "\<exists>ss' ws'. retain_summary n ss snap ws = Some (ss', ws') \<and> length ss' = length ss \<and> length ws' = length ws
    \<and> (\<forall>k. wget ws' k = (if k div 64 \<in> {n..<n + length ss} then meet ws snap k else wget ws k))
    \<and> (\<forall>i<length ss. \<forall>b<64. bit (ss' ! i) b \<longleftrightarrow> meet ws snap (64 * (n + i) + b) \<noteq> 0)"
  using assms
proof (induction ss arbitrary: n ws)
  case (Cons s ss)
  have lt: "k < length ws" if "wget ws k \<noteq> 0" for k
    using that by (auto simp: wget_def split: if_splits)
  have s: "bit s b \<longleftrightarrow> wget ws (64 * n + b) \<noteq> 0" if "b < 64" for b
    using Cons.prems(2) [of 0 b] that by simp
  obtain keep ws1 where r: "retain_words n (bits_asc s) snap ws 0 = Some (keep, ws1)" "length ws1 = length ws"
    "\<And>k. wget ws1 k = (if k \<in> (\<lambda>b. 64 * n + b) ` set (bits_asc s) then meet ws snap k else wget ws k)"
    "\<And>b. b < 64 \<Longrightarrow> bit keep b \<longleftrightarrow> b \<in> set (bits_asc s) \<and> meet ws snap (64 * n + b) \<noteq> 0"
    using retain_words_ok [of "bits_asc s" n ws snap 0] sorted_bits_asc [of s] lt s Cons.prems(1)
    by (auto simp: set_bits_asc)
  have in_s: "k \<in> (\<lambda>b. 64 * n + b) ` set (bits_asc s) \<longleftrightarrow> k div 64 = n \<and> wget ws k \<noteq> 0" for k
  proof
    assume h: "k div 64 = n \<and> wget ws k \<noteq> 0"
    then have "k = 64 * n + k mod 64" by (metis mult_div_mod_eq)
    then have "k mod 64 \<in> set (bits_asc s)" using h s [of "k mod 64"] by (simp add: set_bits_asc)
    then show "k \<in> (\<lambda>b. 64 * n + b) ` set (bits_asc s)" using \<open>k = 64 * n + k mod 64\<close> by blast
  qed (auto simp: set_bits_asc s)
  have w1: "wget ws1 k = (if k div 64 = n then meet ws snap k else wget ws k)" for k
    using r(3) [of k] by (auto simp: in_s meet_def)
  have head: "retain_summary n (s # ss) snap ws = map_option (\<lambda>(ss', ws'). (keep # ss', ws')) (retain_summary (Suc n) ss snap ws1)"
  proof (cases "s = 0")
    case True
    then show ?thesis using r(1) by simp
  qed (use r(1) in simp)
  have pre: "bit (ss ! i) b \<longleftrightarrow> wget ws1 (64 * (Suc n + i) + b) \<noteq> 0" if "i < length ss" "b < 64" for i b
  proof -
    have "(64 * (Suc n + i) + b) div 64 \<noteq> n" using that by simp
    then have "wget ws1 (64 * (Suc n + i) + b) = wget ws (64 * (Suc n + i) + b)" by (simp only: w1 if_False)
    then show ?thesis using Cons.prems(2) [of "Suc i" b] that by simp
  qed
  obtain ss' ws' where t: "retain_summary (Suc n) ss snap ws1 = Some (ss', ws')" "length ss' = length ss" "length ws' = length ws"
    "\<And>k. wget ws' k = (if k div 64 \<in> {Suc n..<Suc n + length ss} then meet ws1 snap k else wget ws1 k)"
    "\<And>i b. i < length ss \<Longrightarrow> b < 64 \<Longrightarrow> bit (ss' ! i) b \<longleftrightarrow> meet ws1 snap (64 * (Suc n + i) + b) \<noteq> 0"
    using Cons.IH [OF _ pre] r(2) Cons.prems(1) by auto
  have m: "meet ws1 snap k = meet ws snap k" for k
    using w1 [of k] by (auto simp: meet_def and.assoc)
  have "wget ws' k = (if k div 64 \<in> {n..<n + length (s # ss)} then meet ws snap k else wget ws k)" for k
    using t(4) [of k] by (auto simp: w1 m)
  moreover have "bit ((keep # ss') ! i) b \<longleftrightarrow> meet ws snap (64 * (n + i) + b) \<noteq> 0" if "i < length (s # ss)" "b < 64" for i b
  proof (cases i)
    case 0
    have "b \<in> set (bits_asc s)" if "meet ws snap (64 * n + b) \<noteq> 0"
      using that s \<open>b < 64\<close> by (auto simp: set_bits_asc meet_def)
    then show ?thesis using r(4) [OF that(2)] 0 by auto
  qed (use t(5) that m in simp)
  ultimately show ?case
    unfolding head using t(1-3) by auto
qed simp

lemma db_retain_ok:
  assumes ok: "db_ok d" and len: "length snap = length (db_words d)"
  shows "\<exists>d'. db_retain_snapshot snap d = Some d' \<and> db_ok d' \<and> db_set d' = {i \<in> db_set d. pbit snap i} \<and> db_nbits d' = db_nbits d"
proof -
  have "bit (db_summary d ! i) b \<longleftrightarrow> wget (db_words d) (64 * (0 + i) + b) \<noteq> 0" if "i < length (db_summary d)" "b < 64" for i b
  proof -
    have "pbit (db_summary d) (64 * i + b) \<longleftrightarrow> bit (db_summary d ! i) b"
      using that by (simp add: pbit_def wget_in)
    then show ?thesis using ok by (simp add: db_ok_def)
  qed
  from retain_summary_ok [OF len this] obtain ss ws where r: "retain_summary 0 (db_summary d) snap (db_words d) = Some (ss, ws)"
    "length ss = length (db_summary d)" "length ws = length (db_words d)"
    "\<And>k. wget ws k = (if k div 64 < length (db_summary d) then meet (db_words d) snap k else wget (db_words d) k)"
    "\<And>i b. i < length ss \<Longrightarrow> b < 64 \<Longrightarrow> bit (ss ! i) b \<longleftrightarrow> meet (db_words d) snap (64 * i + b) \<noteq> 0"
    by auto
  have in_sum: "k div 64 < length (db_summary d)" if "wget (db_words d) k \<noteq> 0" for k
  proof -
    have "k < length (db_words d)" using that by (auto simp: wget_def split: if_splits)
    then show ?thesis using ok by (simp add: db_ok_def div_ceil64_less)
  qed
  have w: "wget ws k = meet (db_words d) snap k" for k
    using r(4) [of k] in_sum [of k] by (cases "wget (db_words d) k = 0") (simp_all add: meet_def)
  have "pbit ss k \<longleftrightarrow> wget ws k \<noteq> 0" for k
  proof (cases "k div 64 < length ss")
    case True
    then have "pbit ss k \<longleftrightarrow> bit (ss ! (k div 64)) (k mod 64)" by (simp add: pbit_def wget_in)
    then show ?thesis using r(5) [OF True, of "k mod 64"] by (simp add: w)
  next
    case False
    then have "\<not> pbit ss k" by (simp add: pbit_def wget_out)
    moreover have "wget (db_words d) k = 0" using in_sum [of k] False r(2) by auto
    ultimately show ?thesis by (simp add: w meet_def)
  qed
  then have "db_ok (d\<lparr>db_words := ws, db_summary := ss\<rparr>)"
    using ok r(2,3) by (simp add: db_ok_def)
  moreover have "db_set (d\<lparr>db_words := ws, db_summary := ss\<rparr>) = {i \<in> db_set d. pbit snap i}"
    by (auto simp: db_set_def pbit_def w meet_def bit_and_iff)
  ultimately show ?thesis using r(1) by (simp add: db_retain_snapshot_def)
qed

section \<open>The contract\<close>

text \<open>A set of indices enumerated in ascending order, as its clients see it.\<close>

datatype set_op = Put nat | Drop nat

definition op_index :: "set_op \<Rightarrow> nat" where
  "op_index x = (case x of Put i \<Rightarrow> i | Drop i \<Rightarrow> i)"

definition op_set :: "set_op \<Rightarrow> nat set \<Rightarrow> nat set" where
  "op_set x A = (case x of Put i \<Rightarrow> insert i A | Drop i \<Rightarrow> A - {i})"

fun run_ops :: "(nat \<Rightarrow> 'd \<Rightarrow> (bool \<times> 'd) option) \<Rightarrow> (nat \<Rightarrow> 'd \<Rightarrow> (bool \<times> 'd) option) \<Rightarrow> set_op list \<Rightarrow> 'd \<Rightarrow> 'd option" where
  "run_ops ins rem [] d = Some d"
| "run_ops ins rem (x # xs) d =
     Option.bind (case x of Put i \<Rightarrow> ins i d | Drop i \<Rightarrow> rem i d) (\<lambda>(_, d). run_ops ins rem xs d)"

locale index_set =
  fixes new :: "nat \<Rightarrow> 'd" and ok :: "'d \<Rightarrow> bool" and bound :: "'d \<Rightarrow> nat" and view :: "'d \<Rightarrow> nat set"
    and ins :: "nat \<Rightarrow> 'd \<Rightarrow> (bool \<times> 'd) option" and rem :: "nat \<Rightarrow> 'd \<Rightarrow> (bool \<times> 'd) option"
    and drain :: "'d \<Rightarrow> (nat list \<times> 'd) option"
  assumes new_view: "ok (new n) \<and> view (new n) = {} \<and> bound (new n) = n"
    and ins_view: "ok d \<Longrightarrow> i < bound d \<Longrightarrow>
      \<exists>d'. ins i d = Some (i \<notin> view d, d') \<and> ok d' \<and> view d' = insert i (view d) \<and> bound d' = bound d"
    and rem_view: "ok d \<Longrightarrow> i < bound d \<Longrightarrow>
      \<exists>d'. rem i d = Some (i \<in> view d, d') \<and> ok d' \<and> view d' = view d - {i} \<and> bound d' = bound d"
    and drain_view: "ok d \<Longrightarrow>
      \<exists>d'. drain d = Some (sorted_list_of_set (view d), d') \<and> ok d' \<and> view d' = {} \<and> bound d' = bound d"
begin

lemma run_ops_view:
  "ok d \<Longrightarrow> list_all (\<lambda>x. op_index x < bound d) xs \<Longrightarrow>
    \<exists>d'. run_ops ins rem xs d = Some d' \<and> ok d' \<and> view d' = fold op_set xs (view d) \<and> bound d' = bound d"
proof (induction xs arbitrary: d)
  case (Cons x xs)
  have "\<exists>b d'. (case x of Put i \<Rightarrow> ins i d | Drop i \<Rightarrow> rem i d) = Some (b, d') \<and> ok d' \<and> view d' = op_set x (view d) \<and> bound d' = bound d"
    using Cons.prems ins_view [OF Cons.prems(1)] rem_view [OF Cons.prems(1)]
    by (cases x) (fastforce simp: op_set_def op_index_def)+
  then obtain b d' where d: "(case x of Put i \<Rightarrow> ins i d | Drop i \<Rightarrow> rem i d) = Some (b, d')" "ok d'"
    "view d' = op_set x (view d)" "bound d' = bound d" by blast
  then show ?case using Cons.IH [of d'] Cons.prems(2) by simp
qed simp

text \<open>A drain after any history hands out the members once, in order; the next drain has nothing.\<close>

lemma history_drain:
  assumes "list_all (\<lambda>x. op_index x < n) xs"
  shows "\<exists>d d'. run_ops ins rem xs (new n) = Some d \<and> drain d = Some (sorted_list_of_set (fold op_set xs {}), d')
    \<and> map_option fst (drain d') = Some []"
proof -
  obtain d where d: "run_ops ins rem xs (new n) = Some d" "ok d" "view d = fold op_set xs {}"
    using run_ops_view [of "new n" xs] new_view [of n] assms by auto
  obtain d' where d': "drain d = Some (sorted_list_of_set (view d), d')" "ok d'" "view d' = {}"
    using drain_view [OF d(2)] by blast
  then have "map_option fst (drain d') = Some []" using drain_view [OF d'(2)] by auto
  then show ?thesis using d d' by auto
qed

end

interpretation dirty: index_set db_new db_ok db_nbits db_set db_insert db_remove db_drain
  by unfold_locales (use db_new_ok db_insert_ok db_remove_ok db_drain_ok in \<open>simp_all add: db_holds_def\<close>)

section \<open>Properties\<close>

text \<open>C15: After any sequence of insertions and removals of indices below its size the bitmap drains exactly the
  set they leave, each index once and in ascending order, without a sort; a second drain yields nothing.\<close>

theorem drain_yields_sorted_set:
  assumes "list_all (\<lambda>x. op_index x < n) xs"
  shows "\<exists>d d'. run_ops db_insert db_remove xs (db_new n) = Some d
    \<and> db_drain d = Some (sorted_list_of_set (fold op_set xs {}), d') \<and> map_option fst (db_drain d') = Some []"
  by (rule dirty.history_drain [OF assms])

theorem drain_yields_sorted_set_witness:
  "\<exists>d d'. run_ops db_insert db_remove [Put 8999, Put 3, Put 4096, Drop 3, Put 64] (db_new 9000) = Some d
    \<and> db_drain d = Some ([64, 4096, 8999], d')"
  using drain_yields_sorted_set [of 9000 "[Put 8999, Put 3, Put 4096, Drop 3, Put 64]"]
  by (auto simp: op_index_def op_set_def insert_Diff_if)

text \<open>Rolling back to a mark keeps exactly the members that were present when the mark was taken, whatever
  was inserted or removed in between.\<close>

theorem retain_returns_to_mark:
  assumes "list_all (\<lambda>x. op_index x < n) xs" and "list_all (\<lambda>x. op_index x < n) ys"
  shows "\<exists>d e e'. run_ops db_insert db_remove xs (db_new n) = Some d \<and> run_ops db_insert db_remove ys d = Some e
    \<and> db_retain_snapshot (db_snapshot d) e = Some e'
    \<and> db_collect e' = Some (sorted_list_of_set (fold op_set xs {} \<inter> fold op_set (xs @ ys) {}))"
proof -
  obtain d where d: "run_ops db_insert db_remove xs (db_new n) = Some d" "db_ok d" "db_set d = fold op_set xs {}" "db_nbits d = n"
    using dirty.run_ops_view [of "db_new n" xs] db_new_ok [of n] assms(1) by auto
  obtain e where e: "run_ops db_insert db_remove ys d = Some e" "db_ok e" "db_set e = fold op_set ys (db_set d)" "db_nbits e = n"
    using dirty.run_ops_view [OF d(2), of ys] d(4) assms(2) by auto
  have "length (db_snapshot d) = length (db_words e)"
    using d(2,4) e(2,4) by (simp add: db_snapshot_def db_ok_def)
  from db_retain_ok [OF e(2) this] obtain e' where "db_retain_snapshot (db_snapshot d) e = Some e'" "db_ok e'"
    "db_set e' = {i \<in> db_set e. pbit (db_snapshot d) i}" by blast
  moreover have "{i \<in> db_set e. pbit (db_snapshot d) i} = fold op_set xs {} \<inter> fold op_set (xs @ ys) {}"
    using d(3) e(3) by (auto simp: db_snapshot_def db_set_def [of d])
  ultimately show ?thesis using d(1) e(1) db_collect_ok by metis
qed

theorem retain_returns_to_mark_witness:
  "\<exists>d e e'. run_ops db_insert db_remove [Put 5, Put 70] (db_new 80) = Some d
    \<and> run_ops db_insert db_remove [Put 6, Put 70, Drop 5] d = Some e
    \<and> db_retain_snapshot (db_snapshot d) e = Some e' \<and> db_collect e' = Some [70]"
  using retain_returns_to_mark [of 80 "[Put 5, Put 70]" "[Put 6, Put 70, Drop 5]"]
  by (auto simp: op_index_def op_set_def)

end
