(* ===== verification/Arena.thy ===== *)
theory Arena
  imports EvalTotal DirtyBits
begin

text \<open>
  The net store of the native backend, \<open>crates/sim-engine/src/native/arena.rs\<close>: the slot table, its layout in
  one flat buffer, the initial values and the read path.  \<open>None\<close> is a panic: an index out of range, or a
  \<open>debug_assert\<close> of the routing contract.  The contract of the read path is \<open>vector_reader\<close>, so the evaluator
  is sound over this store.
\<close>

section \<open>The simulation IR\<close>

datatype sens_kind = SensInitial | SensComb | SensLatch | SensEdge | SensLevel

record process =
  p_sens_kind :: sens_kind
  p_edges :: "(nat \<times> edge_kind) list"
  p_body :: "basic_block list"
  p_entry :: nat

record sim_ir =
  ir_ctx :: expr_ctx
  ir_processes :: "process list"
  ir_blocks :: "basic_block list"

text \<open>The per-net sidecars of \<open>SimOpts\<close> that the build resolves into the store.\<close>

record arena_opts =
  o_two_state_nets :: "nat list"
  o_func_table :: "func_meta list"
  o_class_handle_nets :: "nat list"
  o_probed_nets :: "nat list"

section \<open>The dirty channel\<close>

record dirty_channel =
  dc_dirty :: dirty_bits
  dc_slot_edge :: "u8 list"
  dc_is_edge_target :: "bool list"
  dc_last_blocking_writer :: "nat list"
  dc_change_seq :: nat
  dc_last_change_seq :: "nat list"
  dc_blocking_writer :: "nat option"
  dc_ca_of_net :: "nat list list"
  dc_ca_dirty :: dirty_bits
  dc_vcd_pending :: "(nat \<times> nat \<times> bit_packed) list"
  dc_vcd_on :: bool
  dc_probed :: "bool list"
  dc_probe_pending :: "(nat \<times> bit_packed) list"

definition NO_WRITER :: nat where "NO_WRITER = 2 ^ 32 - 1"

text \<open>\<open>state::edge_target_nets\<close>: \<open>mark_edge\<close> ignores a net beyond the table.\<close>

definition wait_nets :: "basic_block list \<Rightarrow> nat list" where
  "wait_nets bs = concat (map (\<lambda>b. case bb_term b of Wait (WaitEdge net _) _ \<Rightarrow> [net] | _ \<Rightarrow> []) bs)"

definition process_edge_nets :: "process \<Rightarrow> nat list" where
  "process_edge_nets p = (if p_sens_kind p = SensEdge then map fst (p_edges p) else []) @ wait_nets (p_body p)"

definition edge_target_nets :: "sim_ir \<Rightarrow> bool list" where
  "edge_target_nets ir =
     fold (\<lambda>net set. set[net := True]) (concat (map process_edge_nets (ir_processes ir)) @ wait_nets (ir_blocks ir))
       (replicate (length (x_nets (ir_ctx ir))) False)"

definition channel_new :: "sim_ir \<Rightarrow> dirty_channel" where
  "channel_new ir =
     (let n = length (x_nets (ir_ctx ir))
      in \<lparr>dc_dirty = db_new n, dc_slot_edge = replicate n 0, dc_is_edge_target = edge_target_nets ir,
          dc_last_blocking_writer = replicate n NO_WRITER, dc_change_seq = 0, dc_last_change_seq = replicate n 0,
          dc_blocking_writer = None, dc_ca_of_net = [], dc_ca_dirty = db_new 0, dc_vcd_pending = [],
          dc_vcd_on = False, dc_probed = [], dc_probe_pending = []\<rparr>)"

definition install_ca_deps :: "nat list list \<Rightarrow> nat \<Rightarrow> dirty_channel \<Rightarrow> dirty_channel option" where
  "install_ca_deps ca_of_net nca ch =
     map_option (\<lambda>d. ch\<lparr>dc_ca_of_net := ca_of_net, dc_ca_dirty := d\<rparr>) (db_insert_all nca (db_new nca))"

section \<open>Slots\<close>

definition kind_is_heap :: "net_kind \<Rightarrow> bool" where
  "kind_is_heap k =
     (case k of
        DynArray \<Rightarrow> True | Queue \<Rightarrow> True | Assoc \<Rightarrow> True | AssocStr \<Rightarrow> True | StringNet \<Rightarrow> True
      | Wire \<Rightarrow> False | Reg \<Rightarrow> False | Logic \<Rightarrow> False | Integer \<Rightarrow> False | RealNet \<Rightarrow> False)"

record slot =
  sl_off :: nat
  sl_words :: nat
  sl_width :: nat
  sl_elems :: nat
  sl_signed :: bool
  sl_two_state :: bool
  sl_real :: bool

record net_arena =
  a_slots :: "slot list"
  a_heap :: "bool list"
  a_frame :: "bool list"
  a_class :: "bool list"
  a_ch :: dirty_channel
  a_buf :: "u64 list"
  a_pending :: "(nat \<times> bool) list"

definition net_words :: "net_var \<Rightarrow> nat" where
  "net_words nv = max (v_nwords (max (n_width nv) 1)) 1"

definition net_elems :: "net_var \<Rightarrow> nat" where
  "net_elems nv = max (n_array_len nv) 1"

definition make_slot :: "nat list \<Rightarrow> nat \<Rightarrow> nat \<Rightarrow> net_var \<Rightarrow> slot" where
  "make_slot two_state n off nv =
     \<lparr>sl_off = off, sl_words = net_words nv, sl_width = n_width nv, sl_elems = net_elems nv, sl_signed = n_signed nv,
      sl_two_state = (n \<in> set two_state), sl_real = (n_kind nv = RealNet)\<rparr>"

text \<open>The slots from net \<open>n\<close> on, starting at word \<open>off\<close>, and the end of the buffer.\<close>

definition too_big :: string where "too_big = ''arena exceeds u32 words''"

fun build_slots :: "nat list \<Rightarrow> nat \<Rightarrow> nat \<Rightarrow> net_var list \<Rightarrow> string + slot list \<times> nat" where
  "build_slots two_state n off [] = Inr ([], off)"
| "build_slots two_state n off (nv # nvs) =
     (if off < 2 ^ 32
      then (case build_slots two_state (Suc n) (off + net_words nv * 2 * net_elems nv) nvs of
              Inl e \<Rightarrow> Inl e
            | Inr (ss, tot) \<Rightarrow> Inr (make_slot two_state n off nv # ss, tot))
      else Inl too_big)"

text \<open>\<open>buildable\<close>, over the verdict of \<open>native::frames::frames_admitted\<close>.\<close>

fun sizes_fit :: "nat \<Rightarrow> net_var list \<Rightarrow> string + nat" where
  "sizes_fit off [] = Inr off"
| "sizes_fit off (nv # nvs) =
     (let off = off + net_words nv * 2 * net_elems nv
      in if off < 2 ^ 32 then sizes_fit off nvs else Inl too_big)"

definition buildable :: "string option \<Rightarrow> sim_ir \<Rightarrow> string + unit" where
  "buildable frames ir =
     (case frames of
        Some e \<Rightarrow> Inl e
      | None \<Rightarrow>
          (case sizes_fit 0 (x_nets (ir_ctx ir)) of
             Inl e \<Rightarrow> Inl e
           | Inr off \<Rightarrow> (if off < 2 ^ 64 then Inr () else Inl ''arena exceeds usize'')))"

text \<open>The routing bitmaps.\<close>

definition frame_map :: "sim_ir \<Rightarrow> func_meta list \<Rightarrow> bool list" where
  "frame_map ir ft =
     (let n = length (x_nets (ir_ctx ir))
      in fold (\<lambda>m f. let lo = fm_base_net m; hi = min (lo + fm_locals_len m) (length f)
                      in map (\<lambda>(i, b). b \<or> lo \<le> i \<and> i < hi) (enumerate 0 f))
           ft (replicate n False))"

definition mark_nets :: "nat list \<Rightarrow> nat \<Rightarrow> bool list" where
  "mark_nets ms n = fold (\<lambda>m c. c[m := True]) ms (replicate n False)"

section \<open>Initial values\<close>

definition bit_of_word :: "u64 list \<Rightarrow> nat \<Rightarrow> u64" where
  "bit_of_word ws i = drop_bit (i mod 64) (wget ws (i div 64)) AND 1"

definition init_plane :: "slot \<Rightarrow> u64 list \<Rightarrow> u64 list" where
  "init_plane s ws =
     (let p = fold (\<lambda>i p. p[i div 64 := (p ! (i div 64)) OR push_bit (i mod 64) (bit_of_word ws i)])
                [0..<sl_width s] (replicate (sl_words s) 0)
      in if 0 < sl_width s then mask_last p (sl_words s - 1) (top_mask (sl_width s)) else p)"

text \<open>The \<open>debug_assert\<close> on the declared init.\<close>

definition init_fits :: "slot \<Rightarrow> bit_packed \<Rightarrow> bool" where
  "init_fits s b \<longleftrightarrow>
     list_all (\<lambda>i. bit_of_word (p_val b) i = 0 \<and> bit_of_word (p_unk b) i = 0) [sl_width s..<64 * sl_words s]"

text \<open>\<open>buf[b..b + xs.len()].copy_from_slice(xs)\<close>.\<close>

definition put_words :: "nat \<Rightarrow> u64 list \<Rightarrow> u64 list \<Rightarrow> u64 list option" where
  "put_words b xs buf =
     (if b + length xs \<le> length buf then Some (take b buf @ xs @ drop (b + length xs) buf) else None)"

definition elem_base :: "slot \<Rightarrow> nat \<Rightarrow> nat" where
  "elem_base s e = sl_off s + e * 2 * sl_words s"

fun init_elems :: "slot \<Rightarrow> u64 list \<Rightarrow> u64 list \<Rightarrow> nat list \<Rightarrow> u64 list \<Rightarrow> u64 list option" where
  "init_elems s vp up [] buf = Some buf"
| "init_elems s vp up (e # es) buf =
     Option.bind (put_words (elem_base s e) vp buf)
       (\<lambda>buf. Option.bind (put_words (elem_base s e + sl_words s) up buf) (init_elems s vp up es))"

fun init_nets :: "(slot \<times> net_var) list \<Rightarrow> u64 list \<Rightarrow> u64 list option" where
  "init_nets [] buf = Some buf"
| "init_nets ((s, nv) # rest) buf =
     (if kind_is_heap (n_kind nv) then init_nets rest buf
      else if init_fits s (n_init nv) then
        Option.bind (init_elems s (init_plane s (p_val (n_init nv))) (init_plane s (p_unk (n_init nv))) [0..<sl_elems s] buf)
          (init_nets rest)
      else None)"

definition build :: "string option \<Rightarrow> sim_ir \<Rightarrow> arena_opts \<Rightarrow> (string + net_arena) option" where
  "build frames ir opts =
     (case buildable frames ir of
        Inl e \<Rightarrow> Some (Inl e)
      | Inr _ \<Rightarrow>
          (let nets = x_nets (ir_ctx ir); n = length nets
           in case build_slots (o_two_state_nets opts) 0 0 nets of
                Inl e \<Rightarrow> Some (Inl e)
              | Inr (slots, tot) \<Rightarrow>
                  (let ch = channel_new ir;
                       ch = (if o_probed_nets opts = [] then ch else ch\<lparr>dc_probed := mark_nets (o_probed_nets opts) n\<rparr>)
                   in map_option
                        (\<lambda>buf. Inr \<lparr>a_slots = slots, a_heap = map (\<lambda>nv. kind_is_heap (n_kind nv)) nets,
                                    a_frame = frame_map ir (o_func_table opts),
                                    a_class = mark_nets (o_class_handle_nets opts) n, a_ch = ch, a_buf = buf, a_pending = []\<rparr>)
                        (init_nets (zip slots nets) (replicate tot 0)))))"

section \<open>Reads\<close>

definition assert_owns :: "net_arena \<Rightarrow> nat \<Rightarrow> bool" where
  "assert_owns a net \<longleftrightarrow> \<not> (net < length (a_heap a) \<and> a_heap a ! net)"

definition note_bad_index :: "nat \<Rightarrow> bool \<Rightarrow> net_arena \<Rightarrow> net_arena" where
  "note_bad_index net unknown a = a\<lparr>a_pending := a_pending a @ [(net, unknown)]\<rparr>"

definition net_at_off :: "net_arena \<Rightarrow> nat \<Rightarrow> nat" where
  "net_at_off a off =
     (case List.find (\<lambda>i. sl_off (a_slots a ! i) = off) [0..<length (a_slots a)] of Some i \<Rightarrow> i | None \<Rightarrow> 2 ^ 32 - 1)"

definition planes :: "net_arena \<Rightarrow> nat \<Rightarrow> nat \<Rightarrow> (u64 list \<times> u64 list) option" where
  "planes a net e =
     (if assert_owns a net then
        Option.bind (arena_get (a_slots a) net)
          (\<lambda>s. let base = elem_base s e; n = sl_words s
               in if e < sl_elems s \<and> base + 2 * n \<le> length (a_buf a)
                  then Some (take n (drop base (a_buf a)), take n (drop (base + n) (a_buf a)))
                  else None)
      else None)"

definition read_net :: "nat \<Rightarrow> nat option \<Rightarrow> (net_arena, sim_value) ev" where
  "read_net net word a =
     (if assert_owns a net then
        Option.bind (arena_get (a_slots a) net)
          (\<lambda>s. let w = (case word of Some w \<Rightarrow> w | None \<Rightarrow> 0)
               in if sl_elems s \<le> w
                  then Some (mask_top ((all_x (max (sl_width s) 1) (sl_signed s))\<lparr>v_width := sl_width s, v_real := sl_real s\<rparr>),
                             note_bad_index net (w = WORD_UNKNOWN) a)
                  else map_option
                         (\<lambda>(vp, up).
                            (let n = sl_words s; m = top_mask (sl_width s)
                             in \<lparr>v_val = mask_last vp (n - 1) m, v_unk = mask_last up (n - 1) m, v_width = sl_width s,
                                 v_signed = sl_signed s, v_real = sl_real s, v_str = False\<rparr>, a))
                         (planes a net w))
      else None)"

text \<open>The one-word read of a plain scalar.\<close>

definition read_scalar_words :: "net_arena \<Rightarrow> nat \<Rightarrow> nat \<Rightarrow> bool \<Rightarrow> (u64 \<times> u64) option option" where
  "read_scalar_words a net w ctx_signed =
     (case arena_get (a_slots a) net of
        None \<Rightarrow> Some None
      | Some s \<Rightarrow>
          if sl_real s \<or> sl_elems s \<noteq> 1 \<or> sl_words s \<noteq> 1 \<or> sl_width s = 0 \<or> 64 < sl_width s \<or> 64 < w then Some None
          else if sl_off s + 1 < length (a_buf a)
          then Some (Some (scalar_words_resized (a_buf a ! sl_off s) (a_buf a ! (sl_off s + 1)) (sl_width s) (sl_signed s) w ctx_signed))
          else None)"

definition take_deferred_range_kinds :: "(net_arena, (nat \<times> bool) list) ev" where
  "take_deferred_range_kinds a = Some (a_pending a, a\<lparr>a_pending := []\<rparr>)"

text \<open>\<open>impl NetReader for NetArena\<close>: its own reads, the panic of \<open>eval_call\<close> and the defaults of the trait.\<close>

definition arena_reader :: "net_arena net_reader" where
  "arena_reader =
     \<lparr>nr_read_net = read_net,
      nr_dyn_size = (\<lambda>a net. None),
      nr_dyn_values = (\<lambda>a net. None),
      nr_array_item = (\<lambda>a index. all_x 32 True),
      nr_swap_item = (\<lambda>v. ev_ret None),
      nr_dyn_warn = (\<lambda>net. ev_ret ()),
      nr_eval_call = (\<lambda>func args a. None),
      nr_virtual_call = (\<lambda>a call_eid func args. func),
      nr_formal_width = (\<lambda>func i. None),
      nr_formal_is_string = (\<lambda>func i. False),
      nr_is_assoc = (\<lambda>net. False),
      nr_assoc_read = (\<lambda>net key. ev_ret (all_x 1 False)),
      nr_assoc_exists = (\<lambda>a net key. None),
      nr_is_assoc_str = (\<lambda>net. False),
      nr_assoc_str_read = (\<lambda>net key. ev_ret (all_x 1 False)),
      nr_assoc_str_exists = (\<lambda>a net key. None),
      nr_str_bytes = (\<lambda>a net. None),
      nr_str_byte_at = (\<lambda>a net i. None),
      nr_fd_eof = (\<lambda>a fd. all_x 32 True)\<rparr>"

end
