(* ===== verification/ArenaLayout.thy ===== *)
theory ArenaLayout
  imports Arena
begin

text \<open>
  The layout of the store and what the build puts into it: the slots lie one behind the other, the blocks of two
  elements never overlap, every owned element starts with its net's declared initial value.
\<close>

section \<open>Slices of the buffer\<close>

definition bslice :: "nat \<Rightarrow> nat \<Rightarrow> u64 list \<Rightarrow> u64 list" where
  "bslice b n buf = take n (drop b buf)"

lemma length_bslice: "b + n \<le> length buf \<Longrightarrow> length (bslice b n buf) = n"
  by (simp add: bslice_def)

lemma bslice_nth: "b + n \<le> length buf \<Longrightarrow> k < n \<Longrightarrow> bslice b n buf ! k = buf ! (b + k)"
  by (simp add: bslice_def)

lemma bslice_eqI:
  assumes "b + n \<le> length buf" and "length buf' = length buf" and "\<And>k. b \<le> k \<Longrightarrow> k < b + n \<Longrightarrow> buf' ! k = buf ! k"
  shows "bslice b n buf' = bslice b n buf"
  by (rule nth_equalityI) (use assms in \<open>simp_all add: bslice_def\<close>)

lemma put_words_ok:
  assumes "b + length xs \<le> length buf"
  obtains buf' where "put_words b xs buf = Some buf'" "length buf' = length buf" "bslice b (length xs) buf' = xs"
    "\<And>c n. c + n \<le> b \<or> b + length xs \<le> c \<Longrightarrow> bslice c n buf' = bslice c n buf"
proof
  let ?buf = "take b buf @ xs @ drop (b + length xs) buf"
  show "put_words b xs buf = Some ?buf" using assms by (simp add: put_words_def)
  show l: "length ?buf = length buf" using assms by simp
  show "bslice b (length xs) ?buf = xs" using assms by (simp add: bslice_def)
  show "bslice c n ?buf = bslice c n buf" if "c + n \<le> b \<or> b + length xs \<le> c" for c n
  proof (rule nth_equalityI)
    show "length (bslice c n ?buf) = length (bslice c n buf)" by (simp only: bslice_def length_take length_drop l)
    fix i assume "i < length (bslice c n ?buf)"
    then have i: "i < n" "c + i < length buf" unfolding bslice_def length_take length_drop l by (simp_all add: less_diff_conv add.commute)
    have "c + i < b \<or> b + length xs \<le> c + i" using that i by linarith
    then have "?buf ! (c + i) = buf ! (c + i)"
    proof
      assume "c + i < b"
      then show ?thesis using assms by (simp add: nth_append)
    next
      assume "b + length xs \<le> c + i"
      then obtain d where d: "c + i = b + length xs + d" using le_Suc_ex by blast
      then have "(xs @ drop (b + length xs) buf) ! (length xs + d) = buf ! (c + i)"
        using i by (simp only: nth_append_length_plus) simp
      moreover have "?buf ! (c + i) = (xs @ drop (b + length xs) buf) ! (c + i - b)"
        using assms d by (simp add: nth_append)
      ultimately show ?thesis using d by simp
    qed
    moreover have "c + i < length ?buf" using i l by simp
    ultimately show "bslice c n ?buf ! i = bslice c n buf ! i" using i by (simp only: bslice_def nth_take nth_drop less_imp_le)
  qed
qed

section \<open>The layout\<close>

definition slot_size :: "slot \<Rightarrow> nat" where
  "slot_size s = sl_words s * 2 * sl_elems s"

definition slot_ok :: "slot \<Rightarrow> bool" where
  "slot_ok s \<longleftrightarrow> sl_words s = nw1 (sl_width s) \<and> 1 \<le> sl_elems s"

fun laid :: "nat \<Rightarrow> slot list \<Rightarrow> nat \<Rightarrow> bool" where
  "laid off [] tot \<longleftrightarrow> off = tot"
| "laid off (s # ss) tot \<longleftrightarrow> sl_off s = off \<and> laid (off + slot_size s) ss tot"

lemma laid_le: "laid off ss tot \<Longrightarrow> off \<le> tot"
  by (induction off ss tot rule: laid.induct) auto

lemma laid_nth: "laid off ss tot \<Longrightarrow> i < length ss \<Longrightarrow> off \<le> sl_off (ss ! i) \<and> sl_off (ss ! i) + slot_size (ss ! i) \<le> tot"
proof (induction off ss tot arbitrary: i rule: laid.induct)
  case (2 off s ss tot)
  then have "laid (off + slot_size s) ss tot" by simp
  then show ?case using 2 laid_le [of "off + slot_size s" ss tot] by (cases i) force+
qed simp

lemma laid_disjoint:
  "laid off ss tot \<Longrightarrow> i < j \<Longrightarrow> j < length ss \<Longrightarrow> sl_off (ss ! i) + slot_size (ss ! i) \<le> sl_off (ss ! j)"
proof (induction off ss tot arbitrary: i j rule: laid.induct)
  case (2 off s ss tot)
  then have l: "laid (off + slot_size s) ss tot" by simp
  show ?case
  proof (cases i)
    case 0
    then obtain j' where "j = Suc j'" using 2 by (cases j) auto
    then show ?thesis using laid_nth [OF l, of j'] 2 0 by simp
  next
    case (Suc i')
    then obtain j' where "j = Suc j'" using 2 by (cases j) auto
    then show ?thesis using 2 Suc l by simp
  qed
qed simp

lemma elem_in_slot:
  assumes "e < sl_elems s"
  shows "sl_off s \<le> elem_base s e \<and> elem_base s e + 2 * sl_words s \<le> sl_off s + slot_size s"
proof -
  have "Suc e * (2 * sl_words s) \<le> sl_elems s * (2 * sl_words s)" using assms by (intro mult_le_mono1) simp
  then show ?thesis by (simp add: elem_base_def slot_size_def algebra_simps)
qed

lemma elem_disjoint:
  assumes "e \<noteq> f"
  shows "elem_base s e + 2 * sl_words s \<le> elem_base s f \<or> elem_base s f + 2 * sl_words s \<le> elem_base s e"
proof -
  have "Suc e \<le> f \<or> Suc f \<le> e" using assms by linarith
  then have "Suc e * (2 * sl_words s) \<le> f * (2 * sl_words s) \<or> Suc f * (2 * sl_words s) \<le> e * (2 * sl_words s)"
    by (elim disjE) (simp only: mult_le_mono1 simp_thms)+
  then show ?thesis by (simp add: elem_base_def algebra_simps)
qed

text \<open>Two elements of a store never share a word.\<close>

lemma blocks_disjoint:
  assumes "laid 0 ss tot" and "i < length ss" and "j < length ss" and "e < sl_elems (ss ! i)" and "f < sl_elems (ss ! j)"
    and "(i, e) \<noteq> (j, f)"
  shows "elem_base (ss ! i) e + 2 * sl_words (ss ! i) \<le> elem_base (ss ! j) f
    \<or> elem_base (ss ! j) f + 2 * sl_words (ss ! j) \<le> elem_base (ss ! i) e"
proof (cases "i = j")
  case True
  then show ?thesis using elem_disjoint [of e f] assms(6) by auto
next
  case False
  then consider "i < j" | "j < i" by linarith
  then show ?thesis
    using laid_disjoint [OF assms(1)] elem_in_slot [OF assms(4)] elem_in_slot [OF assms(5)] assms(2,3)
    by cases (meson order_trans)+
qed

section \<open>What the build lays out\<close>

lemma net_words_nw1: "net_words nv = nw1 (n_width nv)"
proof (cases "n_width nv")
  case 0
  then show ?thesis by (simp add: net_words_def nw1_def v_nwords_def)
next
  case (Suc k)
  then have "max (n_width nv) 1 = n_width nv" by simp
  then show ?thesis by (simp only: net_words_def nw1_def)
qed

lemma make_slot_ok: "slot_ok (make_slot ts n off nv)" "slot_size (make_slot ts n off nv) = net_words nv * 2 * net_elems nv"
  by (simp_all add: make_slot_def slot_ok_def slot_size_def net_words_nw1 net_elems_def)

lemma build_slots_ok:
  "build_slots ts n off nvs = Inr (ss, tot) \<Longrightarrow>
    length ss = length nvs \<and> laid off ss tot \<and> list_all slot_ok ss \<and>
    (\<forall>i<length nvs. \<exists>o'. ss ! i = make_slot ts (n + i) o' (nvs ! i))"
proof (induction nvs arbitrary: n off ss)
  case (Cons nv nvs)
  then obtain rest where r: "build_slots ts (Suc n) (off + net_words nv * 2 * net_elems nv) nvs = Inr (rest, tot)"
    "ss = make_slot ts n off nv # rest"
    by (auto split: if_splits sum.splits)
  note IH = Cons.IH [OF r(1)]
  have "\<exists>o'. ss ! i = make_slot ts (n + i) o' ((nv # nvs) ! i)" if "i < length (nv # nvs)" for i
    using that IH r(2) by (cases i) auto
  moreover have "sl_off (make_slot ts n off nv) = off" by (simp add: make_slot_def)
  ultimately show ?case using IH r(2) make_slot_ok [of ts n off nv] by simp
qed simp

lemma sizes_build: "sizes_fit off nvs = Inr tot \<Longrightarrow> off < 2 ^ 32 \<Longrightarrow> (\<exists>ss. build_slots ts n off nvs = Inr (ss, tot)) \<and> tot < 2 ^ 32"
proof (induction nvs arbitrary: n off)
  case (Cons nv nvs)
  then have "off + net_words nv * 2 * net_elems nv < 2 ^ 32"
    "sizes_fit (off + net_words nv * 2 * net_elems nv) nvs = Inr tot"
    by (auto simp: Let_def split: if_splits)
  then show ?case using Cons.IH [of "off + net_words nv * 2 * net_elems nv" "Suc n"] Cons.prems(2) by force
qed simp

section \<open>The initial plane\<close>

lemma bit_of_word_0: "bit_of_word ws i = 0 \<longleftrightarrow> \<not> pbit ws i"
  by (simp add: bit_of_word_def shift_and_1 pbit_def)

lemma init_fold:
  assumes "k \<le> 64 * n"
  shows "length (fold (\<lambda>i p. p[i div 64 := (p ! (i div 64)) OR push_bit (i mod 64) (bit_of_word ws i)]) [0..<k] (replicate n 0)) = n
    \<and> (\<forall>j. pbit (fold (\<lambda>i p. p[i div 64 := (p ! (i div 64)) OR push_bit (i mod 64) (bit_of_word ws i)]) [0..<k] (replicate n 0)) j
        \<longleftrightarrow> j < k \<and> pbit ws j)"
  using assms
proof (induction k)
  case (Suc k)
  let ?step = "\<lambda>i p. p[i div 64 := (p ! (i div 64)) OR push_bit (i mod 64) (bit_of_word ws i)]"
  define p where "p = fold ?step [0..<k] (replicate n 0)"
  have p: "length p = n" "\<And>j. pbit p j \<longleftrightarrow> j < k \<and> pbit ws j"
    using Suc by (simp_all add: p_def)
  have k: "k div 64 < length p" using Suc.prems p(1) by simp
  have e: "bit_of_word ws k = of_bool (pbit ws k)" by (simp add: bit_of_word_def shift_and_1 pbit_def)
  have "pbit (?step k p) j \<longleftrightarrow> j < Suc k \<and> pbit ws j" for j
  proof (cases "pbit ws k")
    case True
    then show ?thesis using pbit_or_word [OF k, of j] p(2) [of j] by (auto simp: e less_Suc_eq)
  next
    case False
    then have "?step k p = p" using k by (simp add: e)
    then show ?thesis using False p(2) [of j] by (auto simp: less_Suc_eq)
  qed
  then show ?case using p(1) by (simp add: p_def [symmetric])
qed simp

lemma mask_last_id: "plane_ok w ws \<Longrightarrow> mask_last ws (nw1 w - 1) (top_mask w) = ws"
proof -
  assume p: "plane_ok w ws"
  let ?k = "nw1 w - 1"
  have k: "?k < length ws" using p nw1_bounds(1) [of w] by (simp add: plane_ok_def)
  have z: "(ws ! ?k) AND NOT (top_mask w) = 0" using p k by (simp add: plane_ok_def wget_in)
  have "(ws ! ?k) AND top_mask w = ws ! ?k"
  proof (rule bit_word_eqI)
    fix i assume "i < LENGTH(64)"
    moreover have "\<not> bit ((ws ! ?k) AND NOT (top_mask w)) i" unfolding z by simp
    ultimately show "bit ((ws ! ?k) AND top_mask w) i \<longleftrightarrow> bit (ws ! ?k) i" by (auto simp: bit_simps)
  qed
  then show ?thesis using k by (simp add: mask_last_def)
qed

lemma init_plane_ok:
  assumes "slot_ok s"
  shows "plane_ok (sl_width s) (init_plane s ws)" and "pbit (init_plane s ws) i \<longleftrightarrow> i < sl_width s \<and> pbit ws i"
proof -
  let ?w = "sl_width s"
  have n: "sl_words s = nw1 ?w" using assms by (simp add: slot_ok_def)
  define p where "p = fold (\<lambda>i p. p[i div 64 := (p ! (i div 64)) OR push_bit (i mod 64) (bit_of_word ws i)]) [0..<?w] (replicate (sl_words s) 0)"
  have p: "length p = nw1 ?w" "\<And>j. pbit p j \<longleftrightarrow> j < ?w \<and> pbit ws j"
    using init_fold [of ?w "sl_words s" ws] nw1_bounds(2) [of ?w] n by (simp_all add: p_def)
  then have ok: "plane_ok ?w p" by (simp add: plane_ok_iff)
  have "init_plane s ws = p"
  proof -
    have "init_plane s ws = (if 0 < ?w then mask_last p (sl_words s - 1) (top_mask ?w) else p)"
      by (simp only: init_plane_def Let_def p_def)
    then show ?thesis using mask_last_id [OF ok] n by simp
  qed
  then show "plane_ok ?w (init_plane s ws)" "pbit (init_plane s ws) i \<longleftrightarrow> i < ?w \<and> pbit ws i"
    using ok p by simp_all
qed

lemma init_elems_ok:
  assumes "length vp = sl_words s" and "length up = sl_words s"
  shows "distinct es \<Longrightarrow> (\<And>e. e \<in> set es \<Longrightarrow> elem_base s e + 2 * sl_words s \<le> length buf) \<Longrightarrow>
    \<exists>buf'. init_elems s vp up es buf = Some buf' \<and> length buf' = length buf
      \<and> (\<forall>e \<in> set es. bslice (elem_base s e) (sl_words s) buf' = vp \<and> bslice (elem_base s e + sl_words s) (sl_words s) buf' = up)
      \<and> (\<forall>c n. (\<forall>e \<in> set es. c + n \<le> elem_base s e \<or> elem_base s e + 2 * sl_words s \<le> c) \<longrightarrow> bslice c n buf' = bslice c n buf)"
proof (induction es arbitrary: buf)
  case (Cons e es)
  let ?b = "elem_base s e" and ?n = "sl_words s"
  have len: "?b + 2 * ?n \<le> length buf" using Cons.prems(2) by simp
  obtain b1 where b1: "put_words ?b vp buf = Some b1" "length b1 = length buf" "bslice ?b ?n b1 = vp"
    "\<And>c n. c + n \<le> ?b \<or> ?b + ?n \<le> c \<Longrightarrow> bslice c n b1 = bslice c n buf"
    using put_words_ok [of ?b vp buf] len assms(1) by auto
  obtain b2 where b2: "put_words (?b + ?n) up b1 = Some b2" "length b2 = length buf" "bslice (?b + ?n) ?n b2 = up"
    "\<And>c n. c + n \<le> ?b + ?n \<or> ?b + 2 * ?n \<le> c \<Longrightarrow> bslice c n b2 = bslice c n b1"
    using put_words_ok [of "?b + ?n" up b1] len assms(2) b1(2) by (auto simp: add.assoc mult_2)
  obtain b3 where b3: "init_elems s vp up es b2 = Some b3" "length b3 = length buf"
    "\<And>e. e \<in> set es \<Longrightarrow> bslice (elem_base s e) ?n b3 = vp \<and> bslice (elem_base s e + ?n) ?n b3 = up"
    "\<And>c n. (\<forall>e \<in> set es. c + n \<le> elem_base s e \<or> elem_base s e + 2 * ?n \<le> c) \<Longrightarrow> bslice c n b3 = bslice c n b2"
    using Cons.IH [of b2] Cons.prems b2(2) by auto
  have out: "\<forall>f \<in> set es. ?b + n \<le> elem_base s f \<or> elem_base s f + 2 * ?n \<le> ?b" if "n \<le> 2 * ?n" for n
    using elem_disjoint [of e _ s] Cons.prems(1) that by fastforce
  have "bslice ?b ?n b3 = vp"
    using b3(4) [OF out [of ?n]] b2(4) [of ?b ?n] b1(3) by simp
  moreover have "bslice (?b + ?n) ?n b3 = up"
  proof -
    have "\<forall>f \<in> set es. ?b + ?n + ?n \<le> elem_base s f \<or> elem_base s f + 2 * ?n \<le> ?b + ?n"
      using out [of "2 * ?n"] by fastforce
    then show ?thesis using b3(4) b2(3) by simp
  qed
  moreover have "bslice c n b3 = bslice c n buf"
    if h: "\<forall>f \<in> set (e # es). c + n \<le> elem_base s f \<or> elem_base s f + 2 * ?n \<le> c" for c n
  proof -
    have e: "c + n \<le> ?b \<or> ?b + 2 * ?n \<le> c" and es: "\<forall>f \<in> set es. c + n \<le> elem_base s f \<or> elem_base s f + 2 * ?n \<le> c"
      using h by simp_all
    have "bslice c n b2 = bslice c n b1" using e by (intro b2(4)) linarith
    moreover have "bslice c n b1 = bslice c n buf" using e by (intro b1(4)) linarith
    ultimately show ?thesis using b3(4) [OF es] by simp
  qed
  ultimately show ?case
    using b1(1) b2(1) b3(1-3) by auto
qed simp

text \<open>The pair of slices of an element.\<close>

definition elem_planes :: "u64 list \<Rightarrow> slot \<Rightarrow> nat \<Rightarrow> u64 list \<times> u64 list" where
  "elem_planes buf s e = (bslice (elem_base s e) (sl_words s) buf, bslice (elem_base s e + sl_words s) (sl_words s) buf)"

definition init_planes :: "slot \<Rightarrow> net_var \<Rightarrow> u64 list \<times> u64 list" where
  "init_planes s nv = (init_plane s (p_val (n_init nv)), init_plane s (p_unk (n_init nv)))"

definition inits_fit :: "(slot \<times> net_var) list \<Rightarrow> bool" where
  "inits_fit = list_all (\<lambda>(s, nv). kind_is_heap (n_kind nv) \<or> init_fits s (n_init nv))"

lemma init_nets_ok:
  "laid off ss tot \<Longrightarrow> length ss = length nvs \<Longrightarrow> list_all slot_ok ss \<Longrightarrow> tot \<le> length buf \<Longrightarrow> inits_fit (zip ss nvs) \<Longrightarrow>
    \<exists>buf'. init_nets (zip ss nvs) buf = Some buf' \<and> length buf' = length buf
      \<and> (\<forall>c n. c + n \<le> off \<longrightarrow> bslice c n buf' = bslice c n buf)
      \<and> (\<forall>i<length nvs. \<not> kind_is_heap (n_kind (nvs ! i)) \<longrightarrow>
            (\<forall>e < sl_elems (ss ! i). elem_planes buf' (ss ! i) e = init_planes (ss ! i) (nvs ! i)))"
proof (induction ss arbitrary: nvs off buf)
  case Nil
  then show ?case by simp
next
  case (Cons s ss)
  obtain nv nvs' where nvs: "nvs = nv # nvs'" using Cons.prems(2) by (cases nvs) auto
  have l: "laid (off + slot_size s) ss tot" and so: "sl_off s = off" and ok: "slot_ok s"
    using Cons.prems by simp_all
  note le = laid_le [OF l]
  have "\<exists>b1. (if kind_is_heap (n_kind nv) then Some buf
      else init_elems s (init_plane s (p_val (n_init nv))) (init_plane s (p_unk (n_init nv))) [0..<sl_elems s] buf) = Some b1
    \<and> length b1 = length buf \<and> (\<forall>c n. c + n \<le> off \<longrightarrow> bslice c n b1 = bslice c n buf)
    \<and> (\<not> kind_is_heap (n_kind nv) \<longrightarrow> (\<forall>e < sl_elems s. elem_planes b1 s e = init_planes s nv))"
  proof (cases "kind_is_heap (n_kind nv)")
    case False
    have lens: "length (init_plane s ws) = sl_words s" for ws
      using init_plane_ok(1) [OF ok, of ws] ok by (simp add: plane_ok_iff slot_ok_def)
    have fit: "elem_base s e + 2 * sl_words s \<le> length buf" if "e \<in> set [0..<sl_elems s]" for e
      using elem_in_slot [of e s] that so le Cons.prems(4) by simp
    obtain b1 where b1: "init_elems s (init_plane s (p_val (n_init nv))) (init_plane s (p_unk (n_init nv))) [0..<sl_elems s] buf = Some b1"
      "length b1 = length buf" "\<And>e. e < sl_elems s \<Longrightarrow> elem_planes b1 s e = init_planes s nv"
      "\<And>c n. (\<forall>e \<in> set [0..<sl_elems s]. c + n \<le> elem_base s e \<or> elem_base s e + 2 * sl_words s \<le> c) \<Longrightarrow> bslice c n b1 = bslice c n buf"
      using init_elems_ok [where es = "[0..<sl_elems s]" and buf = buf,
          OF lens [of "p_val (n_init nv)"] lens [of "p_unk (n_init nv)"] distinct_upt fit]
      unfolding elem_planes_def init_planes_def by auto
    have "sl_off s \<le> elem_base s e" for e by (simp add: elem_base_def)
    then have "bslice c n b1 = bslice c n buf" if "c + n \<le> off" for c n
      using that so by (intro b1(4) ballI) (meson order_trans)
    then show ?thesis using b1(1-3) False by simp
  qed simp
  then obtain b1 where b1: "(if kind_is_heap (n_kind nv) then Some buf
      else init_elems s (init_plane s (p_val (n_init nv))) (init_plane s (p_unk (n_init nv))) [0..<sl_elems s] buf) = Some b1"
    "length b1 = length buf" "\<And>c n. c + n \<le> off \<Longrightarrow> bslice c n b1 = bslice c n buf"
    "\<And>e. \<not> kind_is_heap (n_kind nv) \<Longrightarrow> e < sl_elems s \<Longrightarrow> elem_planes b1 s e = init_planes s nv"
    by blast
  have fits: "kind_is_heap (n_kind nv) \<or> init_fits s (n_init nv)" "inits_fit (zip ss nvs')"
    using Cons.prems(5) by (simp_all add: inits_fit_def nvs)
  obtain b2 where b2: "init_nets (zip ss nvs') b1 = Some b2" "length b2 = length buf"
    "\<And>c n. c + n \<le> off + slot_size s \<Longrightarrow> bslice c n b2 = bslice c n b1"
    "\<And>i e. i < length nvs' \<Longrightarrow> \<not> kind_is_heap (n_kind (nvs' ! i)) \<Longrightarrow> e < sl_elems (ss ! i) \<Longrightarrow>
        elem_planes b2 (ss ! i) e = init_planes (ss ! i) (nvs' ! i)"
    using Cons.IH [OF l, of nvs' b1] Cons.prems(2-4) fits(2) b1(2) by (auto simp: nvs)
  have run: "init_nets (zip (s # ss) nvs) buf = Some b2"
    using b1(1) b2(1) fits(1) by (auto simp: nvs split: if_splits)
  have "elem_planes b2 s e = init_planes s nv" if "\<not> kind_is_heap (n_kind nv)" "e < sl_elems s" for e
  proof -
    have "elem_planes b2 s e = elem_planes b1 s e"
      using elem_in_slot [OF that(2)] so by (auto simp: elem_planes_def intro!: b2(3))
    then show ?thesis using b1(4) [OF that] by simp
  qed
  then have "\<forall>i<length nvs. \<not> kind_is_heap (n_kind (nvs ! i)) \<longrightarrow>
      (\<forall>e < sl_elems ((s # ss) ! i). elem_planes b2 ((s # ss) ! i) e = init_planes ((s # ss) ! i) (nvs ! i))"
    using b2(4) by (auto simp: nvs nth_Cons' less_Suc_eq_0_disj)
  then show ?case using run b2(2) b2(3) b1(3) by auto
qed

end
