(* ===== verification/ArenaRead.thy ===== *)
theory ArenaRead
  imports ArenaLayout
begin

text \<open>
  Reading the store: what a read returns after the build, the out-of-range report, the one-word fast path, and the
  evaluator over the store (the interpretation of \<open>vector_reader\<close>).
\<close>

section \<open>The invariant\<close>

definition owned :: "net_arena \<Rightarrow> nat \<Rightarrow> bool" where
  "owned a net \<longleftrightarrow> net < length (a_slots a) \<and> assert_owns a net"

definition planes_ok :: "slot \<Rightarrow> u64 list \<times> u64 list \<Rightarrow> bool" where
  "planes_ok s p \<longleftrightarrow> plane_ok (sl_width s) (fst p) \<and> plane_ok (sl_width s) (snd p)"

text \<open>The slots tile the buffer and no owned element has a bit at or above its width.\<close>

definition arena_ok :: "net_arena \<Rightarrow> bool" where
  "arena_ok a \<longleftrightarrow>
     laid 0 (a_slots a) (length (a_buf a)) \<and> list_all slot_ok (a_slots a) \<and>
     (\<forall>net e. owned a net \<longrightarrow> e < sl_elems (a_slots a ! net) \<longrightarrow>
        planes_ok (a_slots a ! net) (elem_planes (a_buf a) (a_slots a ! net) e))"

definition elem_value :: "net_arena \<Rightarrow> nat \<Rightarrow> nat \<Rightarrow> sim_value" where
  "elem_value a net e =
     (let s = a_slots a ! net
      in \<lparr>v_val = fst (elem_planes (a_buf a) s e), v_unk = snd (elem_planes (a_buf a) s e), v_width = sl_width s,
          v_signed = sl_signed s, v_real = sl_real s, v_str = False\<rparr>)"

definition poison :: "slot \<Rightarrow> sim_value" where
  "poison s = mask_top ((all_x (max (sl_width s) 1) (sl_signed s))\<lparr>v_width := sl_width s, v_real := sl_real s\<rparr>)"

lemma arena_slot:
  assumes "arena_ok a" and "net < length (a_slots a)"
  shows "slot_ok (a_slots a ! net)" and "sl_off (a_slots a ! net) + slot_size (a_slots a ! net) \<le> length (a_buf a)"
  using assms laid_nth [of 0 "a_slots a" "length (a_buf a)" net] by (auto simp: arena_ok_def list_all_length)

lemma elem_in_buf:
  assumes "arena_ok a" and "net < length (a_slots a)" and "e < sl_elems (a_slots a ! net)"
  shows "elem_base (a_slots a ! net) e + 2 * sl_words (a_slots a ! net) \<le> length (a_buf a)"
  using arena_slot(2) [OF assms(1,2)] elem_in_slot [OF assms(3)] by linarith

lemma planes_elem:
  assumes "arena_ok a" and "owned a net" and "e < sl_elems (a_slots a ! net)"
  shows "planes a net e = Some (elem_planes (a_buf a) (a_slots a ! net) e)"
  using assms elem_in_buf [OF assms(1) _ assms(3)]
  by (simp add: planes_def owned_def elem_planes_def bslice_def Let_def arena_get_in)

lemma read_net_owned:
  assumes "arena_ok a" and "owned a net"
  shows "read_net net word a =
    (let s = a_slots a ! net; w = (case word of Some w \<Rightarrow> w | None \<Rightarrow> 0)
     in if w < sl_elems s then Some (elem_value a net w, a)
        else Some (poison s, note_bad_index net (w = WORD_UNKNOWN) a))"
proof -
  let ?s = "a_slots a ! net" and ?w = "case word of Some w \<Rightarrow> w | None \<Rightarrow> 0"
  have own: "assert_owns a net" "net < length (a_slots a)" using assms(2) by (simp_all add: owned_def)
  show ?thesis
  proof (cases "?w < sl_elems ?s")
    case True
    have "planes_ok ?s (elem_planes (a_buf a) ?s ?w)" using assms True by (simp add: arena_ok_def)
    moreover have "sl_words ?s = nw1 (sl_width ?s)" using arena_slot(1) [OF assms(1) own(2)] by (simp add: slot_ok_def)
    ultimately show ?thesis
      using True own planes_elem [OF assms True] mask_last_id
      by (simp add: read_net_def arena_get_in Let_def elem_value_def planes_ok_def case_prod_beta)
  qed (use own in \<open>simp add: read_net_def arena_get_in Let_def poison_def\<close>)
qed

lemma elem_value_plain:
  assumes "arena_ok a" and "owned a net" and "e < sl_elems (a_slots a ! net)" and "\<not> sl_real (a_slots a ! net)"
  shows "plain (elem_value a net e)"
  using assms by (auto simp: arena_ok_def plain_def vec_ok_def elem_value_def Let_def planes_ok_def)


section \<open>After the build\<close>

lemma init_planes_value:
  assumes "slot_ok s"
  shows "init_planes s nv =
    (v_val (from_packed (n_init nv) (sl_width s) sg), v_unk (from_packed (n_init nv) (sl_width s) sg))"
proof -
  let ?v = "from_packed (n_init nv) (sl_width s) sg"
  have p: "plane_ok (sl_width s) (v_val ?v)" "plane_ok (sl_width s) (v_unk ?v)"
    using from_packed_simps(5) [of "n_init nv" "sl_width s" sg] by (simp_all only: vec_ok_def from_packed_simps)
  have "vbit ?v i = l4 (pbit (p_val (n_init nv)) i) (pbit (p_unk (n_init nv)) i)" if "i < sl_width s" for i
    using that by (simp add: vbit_from_packed)
  then have "pbit (v_val ?v) i = pbit (p_val (n_init nv)) i" "pbit (v_unk ?v) i = pbit (p_unk (n_init nv)) i"
    if "i < sl_width s" for i
    using that l4_vbit l4_planes by metis+
  then show ?thesis
    using init_plane_ok [OF assms] p
    by (auto simp: init_planes_def intro!: plane_ext [where w = "sl_width s"])
qed

lemma build_ok:
  assumes "build frames ir opts = Some (Inr a)"
  shows "arena_ok a" and "length (a_slots a) = length (x_nets (ir_ctx ir))"
    and "\<And>i. i < length (x_nets (ir_ctx ir)) \<Longrightarrow> \<exists>o'. a_slots a ! i = make_slot (o_two_state_nets opts) i o' (x_nets (ir_ctx ir) ! i)"
    and "\<And>i. i < length (x_nets (ir_ctx ir)) \<Longrightarrow> assert_owns a i \<longleftrightarrow> \<not> kind_is_heap (n_kind (x_nets (ir_ctx ir) ! i))"
    and "\<And>i e. i < length (x_nets (ir_ctx ir)) \<Longrightarrow> assert_owns a i \<Longrightarrow> e < sl_elems (a_slots a ! i) \<Longrightarrow>
      elem_planes (a_buf a) (a_slots a ! i) e = init_planes (a_slots a ! i) (x_nets (ir_ctx ir) ! i)"
    and "a_pending a = []"
proof -
  let ?nets = "x_nets (ir_ctx ir)"
  obtain slots tot buf where b: "build_slots (o_two_state_nets opts) 0 0 ?nets = Inr (slots, tot)"
    and i: "init_nets (zip slots ?nets) (replicate tot 0) = Some buf"
    and a: "a_slots a = slots" "a_buf a = buf" "a_heap a = map (\<lambda>nv. kind_is_heap (n_kind nv)) ?nets" "a_pending a = []"
    using assms by (auto simp: build_def Let_def split: sum.splits)
  note s = build_slots_ok [OF b]
  have fit: "inits_fit (zip slots ?nets)"
  proof -
    have "init_nets ps buf0 = Some buf1 \<Longrightarrow> inits_fit ps" for ps buf0 buf1
      by (induction ps buf0 rule: init_nets.induct) (auto simp: inits_fit_def bind_eq_Some_conv split: if_splits)
    then show ?thesis using i by blast
  qed
  obtain buf' where "init_nets (zip slots ?nets) (replicate tot 0) = Some buf'" "length buf' = tot"
    "\<And>i e. i < length ?nets \<Longrightarrow> \<not> kind_is_heap (n_kind (?nets ! i)) \<Longrightarrow> e < sl_elems (slots ! i) \<Longrightarrow>
        elem_planes buf' (slots ! i) e = init_planes (slots ! i) (?nets ! i)"
    using init_nets_ok [of 0 slots tot ?nets "replicate tot 0"] s fit by auto
  then have buf: "length buf = tot" "\<And>i e. i < length ?nets \<Longrightarrow> \<not> kind_is_heap (n_kind (?nets ! i)) \<Longrightarrow> e < sl_elems (slots ! i) \<Longrightarrow>
        elem_planes buf (slots ! i) e = init_planes (slots ! i) (?nets ! i)"
    using i by simp_all
  show len: "length (a_slots a) = length ?nets" using s a by simp
  show "\<exists>o'. a_slots a ! i = make_slot (o_two_state_nets opts) i o' (?nets ! i)" if "i < length ?nets" for i
    using s that a by simp
  show own: "assert_owns a i \<longleftrightarrow> \<not> kind_is_heap (n_kind (?nets ! i))" if "i < length ?nets" for i
    using that a by (simp add: assert_owns_def)
  show init: "elem_planes (a_buf a) (a_slots a ! i) e = init_planes (a_slots a ! i) (?nets ! i)"
    if "i < length ?nets" "assert_owns a i" "e < sl_elems (a_slots a ! i)" for i e
    using buf(2) [OF that(1)] own [OF that(1)] that a by simp
  have "planes_ok (a_slots a ! i) (init_planes (a_slots a ! i) nv)" if "i < length ?nets" for i nv
    using init_plane_ok(1) [of "a_slots a ! i"] s that a by (simp add: planes_ok_def init_planes_def list_all_length)
  then show "arena_ok a"
    using s a buf(1) init len by (simp add: arena_ok_def owned_def)
qed (use assms in \<open>auto simp: build_def Let_def split: sum.splits\<close>)

text \<open>The build succeeds where the sizes fit and every declared init stays within its width.\<close>

lemma build_succeeds:
  assumes "sizes_fit 0 (x_nets (ir_ctx ir)) = Inr tot"
    and "\<And>nv i. nv \<in> set (x_nets (ir_ctx ir)) \<Longrightarrow> \<not> kind_is_heap (n_kind nv) \<Longrightarrow> n_width nv \<le> i \<Longrightarrow>
      \<not> pbit (p_val (n_init nv)) i \<and> \<not> pbit (p_unk (n_init nv)) i"
  shows "\<exists>a. build None ir opts = Some (Inr a)"
proof -
  let ?nets = "x_nets (ir_ctx ir)"
  obtain ss where b: "build_slots (o_two_state_nets opts) 0 0 ?nets = Inr (ss, tot)" and t: "tot < 2 ^ 32"
    using sizes_build [OF assms(1)] by auto
  note s = build_slots_ok [OF b]
  have "init_fits (ss ! i) (n_init (?nets ! i))" if "i < length ?nets" "\<not> kind_is_heap (n_kind (?nets ! i))" for i
  proof -
    have "\<exists>o'. ss ! i = make_slot (o_two_state_nets opts) i o' (?nets ! i)" using s that(1) by simp
    then obtain o' where "ss ! i = make_slot (o_two_state_nets opts) i o' (?nets ! i)" by blast
    then show ?thesis
      using assms(2) [OF nth_mem [OF that(1)] that(2)] by (simp add: init_fits_def list_all_iff bit_of_word_0 make_slot_def)
  qed
  then have "inits_fit (zip ss ?nets)"
    using s by (auto simp: inits_fit_def list_all_length)
  then have "\<exists>buf. init_nets (zip ss ?nets) (replicate tot 0) = Some buf"
    using init_nets_ok [of 0 ss tot ?nets "replicate tot 0"] s by auto
  then show ?thesis
    using assms(1) b t by (auto simp: build_def buildable_def Let_def)
qed

section \<open>The evaluator over the store\<close>






section \<open>A small design\<close>

text \<open>\<open>reg [7:0] mem [0:2] = '{default: 5}\<close> read as \<open>mem[3] + 8'd3\<close>.\<close>

definition mem_net :: net_var where
  "mem_net = \<lparr>n_kind = Reg, n_width = 8, n_msb = 7, n_lsb = 0, n_signed = False, n_array_len = 3, n_dir = Internal,
     n_init = \<lparr>p_val = [5], p_unk = [0]\<rparr>\<rparr>"

definition mem_ir :: sim_ir where
  "mem_ir =
     \<lparr>ir_ctx = \<lparr>x_exprs = [Const 0, Signal 0 (Some 0), Binary Add 1 0],
                x_consts = [\<lparr>c_width = 8, c_signed = False, c_repr = Numeric, c_bits = \<lparr>p_val = [3], p_unk = [0]\<rparr>\<rparr>],
                x_nets = [mem_net]\<rparr>,
      ir_processes = [], ir_blocks = []\<rparr>"

definition no_opts :: arena_opts where
  "no_opts = \<lparr>o_two_state_nets = [], o_func_table = [], o_class_handle_nets = [], o_probed_nets = []\<rparr>"


lemma mem_build: "\<exists>a. build None mem_ir no_opts = Some (Inr a)"
proof (rule build_succeeds)
  show "sizes_fit 0 (x_nets (ir_ctx mem_ir)) = Inr 6"
    by (simp add: mem_ir_def mem_net_def Let_def net_words_def net_elems_def v_nwords_def)
  have "plane_ok 8 [5 :: u64]" by (rule wval_less_plane_ok) (simp_all add: nw1_def v_nwords_def)
  then have five: "i < 8" if "pbit [5] i" for i using that by (simp add: plane_ok_iff)
  show "\<not> pbit (p_val (n_init nv)) i \<and> \<not> pbit (p_unk (n_init nv)) i"
    if "nv \<in> set (x_nets (ir_ctx mem_ir))" "n_width nv \<le> i" for nv i
  proof -
    have "\<not> pbit [0] i" by (simp add: pbit_def wget_def)
    then show ?thesis using that five [of i] by (auto simp: mem_ir_def mem_net_def)
  qed
qed


section \<open>Properties\<close>

text \<open>C16: After a successful build every word of every net the store owns reads as the net's declared initial value
  at the net's width and sign (a real net's flagged real), and the read leaves the store as it was.\<close>

theorem build_reads_initial:
  assumes "build frames ir opts = Some (Inr a)" and "net < length (x_nets (ir_ctx ir))"
    and "\<not> kind_is_heap (n_kind (x_nets (ir_ctx ir) ! net))" and "e < max (n_array_len (x_nets (ir_ctx ir) ! net)) 1"
  shows "read_net net (Some e) a =
    (let nv = x_nets (ir_ctx ir) ! net
     in Some ((from_packed (n_init nv) (n_width nv) (n_signed nv))\<lparr>v_real := (n_kind nv = RealNet)\<rparr>, a))"
proof -
  let ?nv = "x_nets (ir_ctx ir) ! net"
  note b = build_ok [OF assms(1)]
  obtain o' where s: "a_slots a ! net = make_slot (o_two_state_nets opts) net o' ?nv" using b(3) assms(2) by blast
  have own: "owned a net" using b(2,4) assms(2,3) by (simp add: owned_def)
  have e: "e < sl_elems (a_slots a ! net)" using assms(4) by (simp add: s make_slot_def net_elems_def)
  have "elem_value a net e = (from_packed (n_init ?nv) (n_width ?nv) (n_signed ?nv))\<lparr>v_real := (n_kind ?nv = RealNet)\<rparr>"
    using b(5) [OF assms(2) _ e] own init_planes_value [OF make_slot_ok(1), of "o_two_state_nets opts" net o' ?nv ?nv "n_signed ?nv"]
    by (simp add: elem_value_def Let_def s owned_def) (simp add: make_slot_def)
  then show ?thesis
    using read_net_owned [OF b(1) own, of "Some e"] e by (simp add: Let_def)
qed

theorem build_reads_initial_witness:
  "\<exists>a. build None mem_ir no_opts = Some (Inr a)
    \<and> read_net 0 (Some 2) a = Some ((from_packed \<lparr>p_val = [5], p_unk = [0]\<rparr> 8 False)\<lparr>v_real := False\<rparr>, a)"
proof -
  obtain a where "build None mem_ir no_opts = Some (Inr a)" using mem_build by blast
  then show ?thesis
    using build_reads_initial [of None mem_ir no_opts a 0 2] by (simp add: mem_ir_def mem_net_def kind_is_heap_def)
qed

text \<open>C29: An index past the last element reads all-x at the net's width, never a neighbour, and appends exactly one
  report, in order, that tells an unknown index from a known one.\<close>

theorem out_of_range_reads_x:
  assumes "arena_ok a" and "owned a net" and "sl_elems (a_slots a ! net) \<le> w" and "\<not> sl_real (a_slots a ! net)"
  shows "\<exists>v. read_net net (Some w) a = Some (v, a\<lparr>a_pending := a_pending a @ [(net, w = WORD_UNKNOWN)]\<rparr>)
    \<and> v_width v = sl_width (a_slots a ! net) \<and> (\<forall>i < sl_width (a_slots a ! net). vbit v i = LX)"
proof -
  let ?s = "a_slots a ! net"
  have "vbit (poison ?s) i = LX" if "i < sl_width ?s" for i
  proof -
    have "vbit (poison ?s) i = vbit (all_x (max (sl_width ?s) 1) (sl_signed ?s)) i"
      using that assms(4) by (simp add: poison_def vbit_mask_top) (simp add: vbit_def)
    then show ?thesis using that by (simp add: vbit_all_x)
  qed
  moreover have "v_width (poison ?s) = sl_width ?s" by (simp add: poison_def)
  ultimately show ?thesis
    using read_net_owned [OF assms(1,2), of "Some w"] assms(3) by (auto simp: Let_def note_bad_index_def)
qed

text \<open>The slot of the small design.\<close>

lemma mem_store:
  obtains a where "build None mem_ir no_opts = Some (Inr a)" "arena_ok a" "owned a 0" "sl_elems (a_slots a ! 0) = 3"
    "\<not> sl_real (a_slots a ! 0)" "sl_width (a_slots a ! 0) = 8"
proof -
  obtain a where a: "build None mem_ir no_opts = Some (Inr a)" using mem_build by blast
  note b = build_ok [OF a]
  have "\<exists>o'. a_slots a ! 0 = make_slot [] 0 o' mem_net" using b(3) [of 0] by (simp add: mem_ir_def no_opts_def)
  then have "sl_elems (a_slots a ! 0) = 3" "\<not> sl_real (a_slots a ! 0)" "sl_width (a_slots a ! 0) = 8"
    by (auto simp: make_slot_def mem_net_def net_elems_def)
  moreover have "owned a 0" using b(2) b(4) [of 0] by (simp add: owned_def mem_ir_def mem_net_def kind_is_heap_def)
  ultimately show ?thesis using that a b(1) by blast
qed

theorem out_of_range_reads_x_witness:
  "\<exists>a v. arena_ok a \<and> read_net 0 (Some 3) a = Some (v, a\<lparr>a_pending := a_pending a @ [(0, False)]\<rparr>) \<and> vbit v 7 = LX"
proof (rule mem_store)
  fix a assume a: "arena_ok a" "owned a 0" "sl_elems (a_slots a ! 0) = 3" "\<not> sl_real (a_slots a ! 0)" "sl_width (a_slots a ! 0) = 8"
  show ?thesis using out_of_range_reads_x [OF a(1,2), of 3] a(1,3-5) by (auto simp: WORD_UNKNOWN_def)
qed

text \<open>The one-word read of a plain scalar returns the two words that reading the net as a value and resizing it
  to the context would leave.\<close>

theorem scalar_read_is_resized_read:
  assumes "arena_ok a" and "owned a net" and "read_scalar_words a net w c = Some (Some p)"
  shows "\<exists>v. read_net net None a = Some (v, a)
    \<and> p = (wget (v_val (resize_keep_sign v w c)) 0, wget (v_unk (resize_keep_sign v w c)) 0)"
proof -
  let ?s = "a_slots a ! net"
  have net: "net < length (a_slots a)" using assms(2) by (simp add: owned_def)
  have c: "\<not> sl_real ?s" "sl_elems ?s = 1" "sl_words ?s = 1" "0 < sl_width ?s" "sl_width ?s \<le> 64" "w \<le> 64"
    "sl_off ?s + 1 < length (a_buf a)"
    "p = scalar_words_resized (a_buf a ! sl_off ?s) (a_buf a ! (sl_off ?s + 1)) (sl_width ?s) (sl_signed ?s) w c"
    using assms(3) net by (auto simp: read_scalar_words_def arena_get_in split: if_splits)
  let ?v = "elem_value a net 0"
  have "wget (v_val ?v) 0 = a_buf a ! sl_off ?s" "wget (v_unk ?v) 0 = a_buf a ! (sl_off ?s + 1)"
    using c by (auto simp: elem_value_def Let_def elem_planes_def elem_base_def bslice_def wget_def)
  moreover have "plain ?v" using elem_value_plain [OF assms(1,2) _ c(1)] c(2) by simp
  moreover have "v_width ?v = sl_width ?s" "v_signed ?v = sl_signed ?s" by (simp_all add: elem_value_def Let_def)
  ultimately have "p = (wget (v_val (resize_keep_sign ?v w c)) 0, wget (v_unk (resize_keep_sign ?v w c)) 0)"
    using scalar_words_resized_keep_sign [of ?v w c] c(4-8) plainD by simp
  then show ?thesis
    using read_net_owned [OF assms(1,2), of None] c(2) by (simp add: Let_def)
qed

definition scalar_store :: net_arena where
  "scalar_store =
     \<lparr>a_slots = [\<lparr>sl_off = 0, sl_words = 1, sl_width = 8, sl_elems = 1, sl_signed = True, sl_two_state = False, sl_real = False\<rparr>],
      a_heap = [False], a_frame = [False], a_class = [False],
      a_ch = channel_new \<lparr>ir_ctx = \<lparr>x_exprs = [], x_consts = [], x_nets = []\<rparr>, ir_processes = [], ir_blocks = []\<rparr>,
      a_buf = [200, 0], a_pending = []\<rparr>"

lemma scalar_store_ok: "arena_ok scalar_store" "owned scalar_store 0"
proof -
  have "plane_ok 8 [200 :: u64]" "plane_ok 8 [0 :: u64]"
    by (rule wval_less_plane_ok; simp add: nw1_def v_nwords_def)+
  then show "arena_ok scalar_store" "owned scalar_store 0"
    by (auto simp: arena_ok_def scalar_store_def slot_ok_def slot_size_def planes_ok_def elem_planes_def elem_base_def
        bslice_def owned_def assert_owns_def nw1_def v_nwords_def)
qed

theorem scalar_read_is_resized_read_witness:
  "\<exists>p v. read_scalar_words scalar_store 0 16 True = Some (Some p) \<and> read_net 0 None scalar_store = Some (v, scalar_store)
    \<and> p = (wget (v_val (resize_keep_sign v 16 True)) 0, wget (v_unk (resize_keep_sign v 16 True)) 0)"
proof -
  have "\<exists>p. read_scalar_words scalar_store 0 16 True = Some (Some p)"
    by (simp add: read_scalar_words_def scalar_store_def arena_get_def)
  then show ?thesis using scalar_read_is_resized_read [OF scalar_store_ok] by blast
qed




end
