(* ===== verification/ArenaWrite.thy ===== *)
theory ArenaWrite
  imports ArenaRead
begin

text \<open>
  The write funnel of the native store, \<open>crates/sim-engine/src/native/write.rs\<close>, with the offsets it is handed
  (\<open>resolve_offsets\<close>, \<open>eval/mod.rs\<close>) and the dirty/edge channel its stores drive (\<open>native/dirty.rs\<close>).
  \<open>None\<close> is a panic or a failed \<open>debug_assert\<close>.
\<close>

section \<open>Offsets\<close>

definition OFF_UNKNOWN :: u32 where "OFF_UNKNOWN = 1073741825"
definition OOR_DROP :: u32 where "OOR_DROP = 1073741824"

definition offset_of_index_value :: "sim_value \<Rightarrow> u32" where
  "offset_of_index_value v =
     (if has_xz v then OFF_UNKNOWN
      else (case to_i128_signed v of
              Some i \<Rightarrow>
                (if ucast i = OFF_UNKNOWN then OOR_DROP
                 else if - (2 ^ 31) \<le> sint i \<and> sint i < 2 ^ 31 then ucast i
                 else OOR_DROP)
            | None \<Rightarrow> OOR_DROP))"

text \<open>\<open>enum Offsets\<close>; \<open>Inline\<close> is a two-pair buffer and its length.\<close>

datatype offsets =
    OffInline "(u32 \<times> u32) list" nat
  | OffHeap "(u32 \<times> u32) list"
  | OffAssocKey "u64 option"
  | OffAssocStrKey "u8 list option"

definition offsets_slice :: "offsets \<Rightarrow> (u32 \<times> u32) list" where
  "offsets_slice ofs =
     (case ofs of OffInline buf len \<Rightarrow> take len buf | OffHeap v \<Rightarrow> v | OffAssocKey _ \<Rightarrow> [] | OffAssocStrKey _ \<Rightarrow> [])"

definition offset_pair :: "nat \<Rightarrow> 's eval_ctx \<Rightarrow> lval_chunk \<Rightarrow> ('s eval_state, u32 \<times> u32) ev" where
  "offset_pair fuel cx c =
     (let ev = (\<lambda>e. ev_map offset_of_index_value (eval_expr fuel cx e))
      in ev_bind (ev_option ev (ch_offset c))
           (\<lambda>off. ev_map (\<lambda>word. (case off of Some x \<Rightarrow> x | None \<Rightarrow> 0, case word of Some x \<Rightarrow> x | None \<Rightarrow> 0))
              (ev_option ev (ch_word c))))"

definition offset_pairs :: "nat \<Rightarrow> 's eval_ctx \<Rightarrow> lvalue \<Rightarrow> ('s eval_state, offsets) ev" where
  "offset_pairs fuel cx lhs =
     ev_map (\<lambda>ps. if length (chunks lhs) \<le> 2 then OffInline (take 2 (ps @ [(0, 0), (0, 0)])) (length (chunks lhs)) else OffHeap ps)
       (ev_seq (map (offset_pair fuel cx) (chunks lhs)))"

definition resolve_offsets :: "nat \<Rightarrow> 's eval_ctx \<Rightarrow> lvalue \<Rightarrow> ('s eval_state, offsets) ev" where
  "resolve_offsets fuel cx lhs =
     (case chunks lhs of
        [c] \<Rightarrow>
          (case (ch_offset c, ch_width c, ch_word c) of
             (None, None, Some weid) \<Rightarrow>
               if nr_is_assoc_str (ec_nets cx) (ch_net c)
               then ev_map OffAssocStrKey (assoc_str_key cx (eval_ctx fuel cx) weid)
               else if nr_is_assoc (ec_nets cx) (ch_net c)
               then ev_map OffAssocKey (assoc_key cx (eval_ctx fuel cx) weid)
               else offset_pairs fuel cx lhs
           | _ \<Rightarrow> offset_pairs fuel cx lhs)
      | _ \<Rightarrow> offset_pairs fuel cx lhs)"

section \<open>Edges\<close>

definition fs_is_posedge :: "logic4 \<Rightarrow> logic4 \<Rightarrow> bool" where
  "fs_is_posedge prev new \<longleftrightarrow> prev = L0 \<and> new \<noteq> L0 \<or> new = L1 \<and> prev \<noteq> L1"

definition fs_is_negedge :: "logic4 \<Rightarrow> logic4 \<Rightarrow> bool" where
  "fs_is_negedge prev new \<longleftrightarrow> prev = L1 \<and> new \<noteq> L1 \<or> new = L0 \<and> prev \<noteq> L0"

definition edge_mask :: "logic4 \<Rightarrow> logic4 \<Rightarrow> u8" where
  "edge_mask prev new =
     (let m = (if fs_is_posedge prev new then 1 else 0);
          m = (if fs_is_negedge prev new then m OR 2 else m)
      in if prev \<noteq> new then m OR 4 else m)"

text \<open>Bit 0 of element 0.\<close>

definition scalar_bit0 :: "net_arena \<Rightarrow> nat \<Rightarrow> logic4 option" where
  "scalar_bit0 a net =
     Option.bind (arena_get (a_slots a) net)
       (\<lambda>s. Option.bind (arena_get (a_buf a) (sl_off s))
          (\<lambda>v. map_option (\<lambda>u. l4 (v AND 1 \<noteq> 0) (u AND 1 \<noteq> 0)) (arena_get (a_buf a) (sl_off s + sl_words s))))"

section \<open>The channel\<close>

abbreviation on_ch :: "(dirty_channel \<Rightarrow> dirty_channel) \<Rightarrow> net_arena \<Rightarrow> net_arena" where
  "on_ch f a \<equiv> a\<lparr>a_ch := f (a_ch a)\<rparr>"

text \<open>\<open>xs[i] = x\<close>.\<close>

definition put_at :: "'a list \<Rightarrow> nat \<Rightarrow> 'a \<Rightarrow> 'a list option" where
  "put_at xs i x = (if i < length xs then Some (xs[i := x]) else None)"

definition mark_dirty :: "nat \<Rightarrow> dirty_channel \<Rightarrow> dirty_channel option" where
  "mark_dirty i ch =
     Option.bind (db_insert i (dc_dirty ch))
       (\<lambda>(fresh, d).
          let ch = ch\<lparr>dc_dirty := d\<rparr>
          in if fresh
             then Option.bind (arena_get (dc_is_edge_target ch) i)
                    (\<lambda>t. if t then map_option (\<lambda>es. ch\<lparr>dc_slot_edge := es\<rparr>) (put_at (dc_slot_edge ch) i 0) else Some ch)
             else Some ch)"

definition stamp_change :: "nat \<Rightarrow> dirty_channel \<Rightarrow> dirty_channel option" where
  "stamp_change i ch =
     map_option (\<lambda>ls. ch\<lparr>dc_change_seq := dc_change_seq ch + 1, dc_last_change_seq := ls\<rparr>)
       (put_at (dc_last_change_seq ch) i (dc_change_seq ch + 1))"

definition stamp_event :: "nat \<Rightarrow> bool \<Rightarrow> dirty_channel \<Rightarrow> dirty_channel option" where
  "stamp_event i event ch =
     (if event
      then Option.bind (put_at (dc_last_blocking_writer ch) i (case dc_blocking_writer ch of Some w \<Rightarrow> w | None \<Rightarrow> NO_WRITER))
             (\<lambda>ws. stamp_change i (ch\<lparr>dc_last_blocking_writer := ws\<rparr>))
      else Some ch)"

definition redirty_assigns :: "nat \<Rightarrow> dirty_channel \<Rightarrow> dirty_channel option" where
  "redirty_assigns i ch =
     (case arena_get (dc_ca_of_net ch) i of
        Some deps \<Rightarrow> map_option (\<lambda>d. ch\<lparr>dc_ca_dirty := d\<rparr>) (db_insert_list deps (dc_ca_dirty ch))
      | None \<Rightarrow> Some ch)"

definition packed_of :: "sim_value \<Rightarrow> bit_packed" where
  "packed_of v = \<lparr>p_val = v_val v, p_unk = v_unk v\<rparr>"

definition capture_vcd :: "nat \<Rightarrow> nat \<Rightarrow> net_arena \<Rightarrow> net_arena option" where
  "capture_vcd net word a =
     (if dc_vcd_on (a_ch a)
      then map_option (\<lambda>(v, a). on_ch (\<lambda>ch. ch\<lparr>dc_vcd_pending := dc_vcd_pending ch @ [(net, word, packed_of v)]\<rparr>) a)
             (read_net net (Some word) a)
      else Some a)"

definition capture_probe :: "nat \<Rightarrow> net_arena \<Rightarrow> net_arena option" where
  "capture_probe net a =
     (if arena_get (dc_probed (a_ch a)) net = Some True
      then map_option (\<lambda>(v, a). on_ch (\<lambda>ch. ch\<lparr>dc_probe_pending := dc_probe_pending ch @ [(net, packed_of v)]\<rparr>) a)
             (read_net net (Some 0) a)
      else Some a)"

definition note_change :: "nat \<Rightarrow> nat \<Rightarrow> bool \<Rightarrow> net_arena \<Rightarrow> net_arena option" where
  "note_change net word event a =
     Option.bind (Option.bind (Option.bind (mark_dirty net (a_ch a)) (stamp_event net event)) (redirty_assigns net))
       (\<lambda>ch. Option.bind (capture_vcd net word (a\<lparr>a_ch := ch\<rparr>)) (capture_probe net))"

definition accumulate_edge :: "nat \<Rightarrow> logic4 \<Rightarrow> net_arena \<Rightarrow> net_arena option" where
  "accumulate_edge net old_b0 a =
     Option.bind (scalar_bit0 a net)
       (\<lambda>new_b0. Option.bind (arena_get (dc_slot_edge (a_ch a)) net)
          (\<lambda>m. map_option (\<lambda>es. on_ch (\<lambda>ch. ch\<lparr>dc_slot_edge := es\<rparr>) a)
                 (put_at (dc_slot_edge (a_ch a)) net (m OR edge_mask old_b0 new_b0))))"

text \<open>\<open>take_changed\<close>: the changed nets with their edge masks and authors.\<close>

definition take_changed :: "net_arena \<Rightarrow> ((nat \<times> u8 \<times> nat) list \<times> net_arena) option" where
  "take_changed a =
     (let ch = a_ch a
      in Option.bind (db_drain (dc_dirty ch))
           (\<lambda>(ns, d).
              map_option (\<lambda>out. (out, a\<lparr>a_ch := ch\<lparr>dc_dirty := d\<rparr>\<rparr>))
                (those (map (\<lambda>n. Option.bind (arena_get (dc_slot_edge ch) n)
                               (\<lambda>m. map_option (\<lambda>w. (n, m, w)) (arena_get (dc_last_blocking_writer ch) n))) ns))))"

text \<open>The old bit of an edge target, before the store; the report and the edge, after it.\<close>

definition old_bit0 :: "nat \<Rightarrow> net_arena \<Rightarrow> (bool \<times> logic4) option" where
  "old_bit0 net a =
     Option.bind (arena_get (dc_is_edge_target (a_ch a)) net)
       (\<lambda>track. map_option (\<lambda>b. (track, b)) (if track then scalar_bit0 a net else Some L0))"

definition store_effects :: "nat \<Rightarrow> nat \<Rightarrow> bool \<Rightarrow> bool \<times> logic4 \<Rightarrow> net_arena \<Rightarrow> net_arena option" where
  "store_effects net word event before a =
     Option.bind (note_change net word event a)
       (\<lambda>a. if fst before then accumulate_edge net (snd before) a else Some a)"

text \<open>Is the change of a real's bits an event: the bits before the store and the store after it.\<close>

definition change_event :: "slot \<Rightarrow> u64 \<Rightarrow> u64 \<Rightarrow> bool" where
  "change_event s old new \<longleftrightarrow> \<not> sl_real s \<or> real_bits_change_is_event old new"


section \<open>Whole elements\<close>

definition store_step :: "nat \<Rightarrow> nat \<Rightarrow> u64 \<Rightarrow> sim_value \<Rightarrow> nat \<Rightarrow> u64 list \<times> bool \<Rightarrow> u64 list \<times> bool" where
  "store_step base nw m piece k st =
     (let (buf, changed) = st;
          nv = wget (v_val piece) k; nu = wget (v_unk piece) k;
          (nv, nu) = (if k = nw - 1 then (nv AND m, nu AND m) else (nv, nu));
          vi = base + k; ui = base + nw + k
      in if buf ! vi \<noteq> nv \<or> buf ! ui \<noteq> nu then (buf[vi := nv, ui := nu], True) else (buf, changed))"

definition store_words :: "nat \<Rightarrow> nat \<Rightarrow> sim_value \<Rightarrow> net_arena \<Rightarrow> (bool \<times> net_arena) option" where
  "store_words net word piece a =
     Option.bind (arena_get (a_slots a) net)
       (\<lambda>s. Option.bind (old_bit0 net a)
          (\<lambda>before. let base = elem_base s word; nw = sl_words s
             in if base + 2 * nw \<le> length (a_buf a) then
                  (let (buf, changed) = fold (store_step base nw (top_mask (sl_width s)) piece) [0..<nw] (a_buf a, False);
                       event = change_event s (a_buf a ! base) (buf ! base)
                   in if changed then map_option (\<lambda>a. (True, a)) (store_effects net word event before (a\<lparr>a_buf := buf\<rparr>))
                      else Some (False, a\<lparr>a_buf := buf\<rparr>))
                else None))"

text \<open>A clocking sample: element 0, the shared masked store.\<close>

definition commit_clocking_sample :: "nat \<Rightarrow> sim_value \<Rightarrow> net_arena \<Rightarrow> (bool \<times> net_arena) option" where
  "commit_clocking_sample net v a =
     (if assert_owns a net then
        Option.bind (arena_get (a_slots a) net)
          (\<lambda>s. Option.bind (old_bit0 net a)
             (\<lambda>before. let base = sl_off s; nw = sl_words s; m = top_mask (max (sl_width s) 1)
                in if base + 2 * nw \<le> length (a_buf a) then
                     (let (lo, hi, changed) = store_sample_words (take nw (drop base (a_buf a))) (take nw (drop (base + nw) (a_buf a))) m v;
                          buf = take base (a_buf a) @ lo @ hi @ drop (base + 2 * nw) (a_buf a);
                          event = change_event s (a_buf a ! base) (buf ! base)
                      in if changed then map_option (\<lambda>a. (True, a)) (store_effects net 0 event before (a\<lparr>a_buf := buf\<rparr>))
                         else Some (False, a\<lparr>a_buf := buf\<rparr>))
                   else None))
      else None)"

section \<open>Chunks\<close>

definition chunk_width :: "net_arena \<Rightarrow> sim_ir \<Rightarrow> lval_chunk \<Rightarrow> nat option" where
  "chunk_width a ir c =
     Option.bind (arena_get (a_slots a) (ch_net c))
       (\<lambda>s. if ch_kind c = Bit then Some (if ch_offset c = None \<and> ch_width c = None then sl_width s else 1)
             else (case ch_width c of
                     None \<Rightarrow> Some (sl_width s)
                   | Some eid \<Rightarrow> map_option (\<lambda>r. case r of Some w \<Rightarrow> w | None \<Rightarrow> sl_width s) (const_u32_of_expr_ctx (ir_ctx ir) eid)))"

text \<open>The sum of a list of \<open>u32\<close>; \<open>None\<close> is its overflow.\<close>

definition sum_u32 :: "nat list \<Rightarrow> nat option" where
  "sum_u32 ws = (if sum_list ws < 2 ^ 32 then Some (sum_list ws) else None)"

definition chunks_width :: "net_arena \<Rightarrow> sim_ir \<Rightarrow> lvalue \<Rightarrow> nat option" where
  "chunks_width a ir lhs = Option.bind (those (map (chunk_width a ir) (chunks lhs))) sum_u32"

definition lvalue_width :: "net_arena \<Rightarrow> sim_ir \<Rightarrow> lvalue \<Rightarrow> nat option" where
  "lvalue_width a ir lhs = map_option (\<lambda>w. max w 1) (chunks_width a ir lhs)"

text \<open>The net bit a chunk's low bit lands on; \<open>raw_off\<close> is a 32-bit two's complement.\<close>

definition chunk_lsb :: "lval_chunk \<Rightarrow> u32 \<Rightarrow> nat \<Rightarrow> int" where
  "chunk_lsb c raw_off cw =
     (case ch_kind c of
        Bit \<Rightarrow> if ch_offset c = None \<and> ch_width c = None then 0 else sint raw_off
      | PartIdxDown \<Rightarrow> sint raw_off - int cw + 1
      | _ \<Rightarrow> sint raw_off)"

definition chunk_elem :: "lval_chunk \<Rightarrow> u32 \<Rightarrow> nat \<Rightarrow> net_arena \<Rightarrow> nat option \<times> net_arena" where
  "chunk_elem c raw_word elems a =
     (if ch_word c = None then (Some 0, a)
      else if elems \<le> unat raw_word then (None, note_bad_index (ch_net c) (raw_word = OFF_UNKNOWN) a)
      else (Some (unat raw_word), a))"

text \<open>The 2-state coercion: x and z become 0.\<close>

definition coerce_two_state :: "slot \<Rightarrow> sim_value \<Rightarrow> sim_value option" where
  "coerce_two_state s piece =
     (if sl_two_state s \<and> list_ex (\<lambda>u. u \<noteq> 0) (v_unk piece)
      then (if length (v_unk piece) \<le> length (v_val piece)
            then Some (piece\<lparr>v_val := map (\<lambda>k. if k < length (v_unk piece) then (v_val piece ! k) AND NOT (v_unk piece ! k) else v_val piece ! k)
                                        [0..<length (v_val piece)],
                             v_unk := map (\<lambda>_. 0) (v_unk piece)\<rparr>)
            else None)
      else Some piece)"

text \<open>The bit-serial store of the in-range bits.\<close>

definition set_word_bit :: "u64 \<Rightarrow> nat \<Rightarrow> bool \<Rightarrow> u64" where
  "set_word_bit x j b = (if b then x OR push_bit j 1 else x AND NOT (push_bit j 1))"

definition bit_step :: "slot \<Rightarrow> nat \<Rightarrow> int \<Rightarrow> sim_value \<Rightarrow> nat \<Rightarrow> u64 list \<times> bool \<Rightarrow> u64 list \<times> bool" where
  "bit_step s base lsb piece i st =
     (let (buf, changed) = st; dst = lsb + int i
      in if dst < 0 \<or> int (sl_width s) \<le> dst mod 2 ^ 32 then st
         else (let (v, u) = get_vu piece i; b = nat (dst mod 2 ^ 32);
                   vi = base + b div 64; ui = base + sl_words s + b div 64;
                   nv = set_word_bit (buf ! vi) (b mod 64) (v \<noteq> 0); nu = set_word_bit (buf ! ui) (b mod 64) (u \<noteq> 0)
               in if nv \<noteq> buf ! vi \<or> nu \<noteq> buf ! ui then (buf[vi := nv, ui := nu], True) else (buf, changed)))"

definition store_bits ::
  "nat \<Rightarrow> nat \<Rightarrow> nat \<Rightarrow> int \<Rightarrow> sim_value \<Rightarrow> net_arena \<Rightarrow> (bool \<times> net_arena) option" where
  "store_bits net word width lsb piece a =
     Option.bind (arena_get (a_slots a) net)
       (\<lambda>s. Option.bind (old_bit0 net a)
          (\<lambda>before. let base = elem_base s word
             in if base + 2 * sl_words s \<le> length (a_buf a) then
                  (let (buf, changed) = fold (bit_step s base lsb piece) [0..<width] (a_buf a, False);
                       event = change_event s (a_buf a ! base) (buf ! base)
                   in if changed then map_option (\<lambda>a. (True, a)) (store_effects net word event before (a\<lparr>a_buf := buf\<rparr>))
                      else Some (False, a\<lparr>a_buf := buf\<rparr>))
                else None))"

definition is_forced :: "bool list \<Rightarrow> nat \<Rightarrow> bool" where
  "is_forced forced net \<longleftrightarrow> arena_get forced net = Some True"

definition write_chunk ::
  "sim_ir \<Rightarrow> lval_chunk \<Rightarrow> u32 \<Rightarrow> u32 \<Rightarrow> sim_value \<Rightarrow> bool list \<Rightarrow> net_arena \<Rightarrow> (bool \<times> net_arena) option" where
  "write_chunk ir c raw_off raw_word piece forced a =
     (if is_forced forced (ch_net c) then Some (False, a)
      else Option.bind (arena_get (a_slots a) (ch_net c))
             (\<lambda>s. Option.bind (coerce_two_state s piece)
                (\<lambda>piece. case chunk_elem c raw_word (sl_elems s) a of
                     (None, a) \<Rightarrow> Some (False, a)
                   | (Some word, a) \<Rightarrow>
                       Option.bind (chunk_width a ir c)
                         (\<lambda>width. let lsb = chunk_lsb c raw_off width
                            in if lsb = 0 \<and> width = sl_width s then store_words (ch_net c) word piece a
                               else store_bits (ch_net c) word width lsb piece a))))"

section \<open>The one-word entry\<close>

definition clamp_int :: "int \<Rightarrow> int \<Rightarrow> int \<Rightarrow> int" where
  "clamp_int x lo hi = (if x < lo then lo else if hi < x then hi else x)"

definition write_chunk_word ::
  "lval_chunk \<Rightarrow> u32 \<Rightarrow> u32 \<Rightarrow> u64 \<Rightarrow> u64 \<Rightarrow> nat \<Rightarrow> bool list \<Rightarrow> net_arena \<Rightarrow> (bool \<times> net_arena) option" where
  "write_chunk_word c raw_off raw_word pv pu cw forced a =
     (if is_forced forced (ch_net c) then Some (False, a)
      else Option.bind (arena_get (a_slots a) (ch_net c))
             (\<lambda>s. let (pv, pu) = (if sl_two_state s then (pv AND NOT pu, 0) else (pv, pu))
                in case chunk_elem c raw_word (sl_elems s) a of
                     (None, a) \<Rightarrow> Some (False, a)
                   | (Some word, a) \<Rightarrow>
                       (let net_w = int (sl_width s); lsb = chunk_lsb c raw_off cw;
                            hi = nat (clamp_int (lsb + int cw) 0 net_w); lo = nat (clamp_int lsb 0 net_w)
                        in if hi \<le> lo then Some (False, a)
                           else (let drop = nat (int lo - lsb); m = top_mask hi AND NOT (top_mask lo);
                                     nv = push_bit lo (drop_bit drop pv) AND m; nu = push_bit lo (drop_bit drop pu) AND m;
                                     base = sl_off s + word * 2
                                 in if base + 1 < length (a_buf a) then
                                      (let ov = a_buf a ! base; ou = a_buf a ! (base + 1);
                                           wv = (ov AND NOT m) OR nv; wu = (ou AND NOT m) OR nu
                                       in if wv = ov \<and> wu = ou then Some (False, a)
                                          else Option.bind (old_bit0 (ch_net c) a)
                                                 (\<lambda>before. map_option (\<lambda>a. (True, a))
                                                    (store_effects (ch_net c) word (change_event s ov wv) before
                                                       (a\<lparr>a_buf := (a_buf a)[base := wv, base + 1 := wu]\<rparr>))))
                                    else None))))"

section \<open>Lvalues\<close>

definition whole_net_dest :: "lvalue \<Rightarrow> nat option" where
  "whole_net_dest lhs =
     (case chunks lhs of
        [c] \<Rightarrow> if ch_kind c = Bit \<and> ch_offset c = None \<and> ch_width c = None then Some (ch_net c) else None
      | _ \<Rightarrow> None)"

definition assign_conversion ::
  "lvalue \<Rightarrow> sim_value \<Rightarrow> bool \<Rightarrow> (nat \<Rightarrow> (nat \<times> bool) option) \<Rightarrow> nat option \<Rightarrow> sim_value option" where
  "assign_conversion lhs value dest_is_real net_int concat_w =
     (if \<not> (dest_is_real \<or> v_real value) then Some value
      else map_option (\<lambda>(w, sg). coerce_assign dest_is_real value w sg)
             (case chunks lhs of [c0] \<Rightarrow> net_int (ch_net c0) | _ \<Rightarrow> map_option (\<lambda>w. (w, False)) concat_w))"

text \<open>One chunk's piece of the source, low-aligned.\<close>

definition source_piece :: "sim_value \<Rightarrow> nat \<Rightarrow> nat \<Rightarrow> sim_value option" where
  "source_piece src take_lo cw =
     fold (\<lambda>i p. Option.bind p (\<lambda>p. let (v, u) = get_vu src (take_lo + i) in set_vu p i v u)) [0..<cw]
       (Some ((zeros (max cw 1) False)\<lparr>v_width := cw\<rparr>))"

text \<open>The chunks, most significant first; a chunk of another store only hands its piece over.\<close>

fun write_pieces ::
  "sim_ir \<Rightarrow> sim_value \<Rightarrow> bool list \<Rightarrow> (nat \<Rightarrow> bool) \<Rightarrow> nat \<Rightarrow> nat \<Rightarrow> (lval_chunk \<times> u32 \<times> u32) list \<Rightarrow> net_arena
    \<Rightarrow> ((bool \<times> (nat \<times> sim_value) list) \<times> net_arena) option" where
  "write_pieces ir src forced escaping src_hi idx [] a = Some ((False, []), a)"
| "write_pieces ir src forced escaping src_hi idx ((c, raw_off, raw_word) # rest) a =
     Option.bind (chunk_width a ir c)
       (\<lambda>cw. let take_lo = src_hi - cw
          in Option.bind (source_piece src take_lo cw)
               (\<lambda>piece.
                  if escaping idx
                  then map_option (\<lambda>((ch, taken), a). ((ch, (idx, piece) # taken), a))
                         (write_pieces ir src forced escaping take_lo (Suc idx) rest a)
                  else Option.bind (write_chunk ir c raw_off raw_word piece forced a)
                         (\<lambda>(ch1, a). map_option (\<lambda>((ch, taken), a). ((ch1 \<or> ch, taken), a))
                            (write_pieces ir src forced escaping take_lo (Suc idx) rest a))))"

definition escapes :: "bool list \<Rightarrow> nat \<Rightarrow> bool" where
  "escapes esc idx \<longleftrightarrow> arena_get esc idx = Some True"

definition tail_write ::
  "sim_ir \<Rightarrow> lvalue \<Rightarrow> sim_value \<Rightarrow> (u32 \<times> u32) list \<Rightarrow> bool list \<Rightarrow> bool \<Rightarrow> bool list \<Rightarrow> nat \<Rightarrow> net_arena
    \<Rightarrow> ((bool \<times> (nat \<times> sim_value) list) \<times> net_arena) option" where
  "tail_write ir lhs value offs forced word_entry esc tot a =
     (let alone = map_option (\<lambda>(ch, a). ((ch, []), a))
      in case chunks lhs of
           [c0] \<Rightarrow>
             Option.bind (arena_get (a_slots a) (ch_net c0))
               (\<lambda>s. let (raw_off, raw_word) = (case offs of [] \<Rightarrow> (0, 0) | p # _ \<Rightarrow> p)
                  in if word_entry \<and> sl_words s = 1 \<and> tot \<le> 64
                     then (if \<not> v_real value \<or> tot = 64 \<and> v_width value = 64
                           then (let (pv, pu) = resize_word (wget (v_val value) 0) (wget (v_unk value) 0) (v_width value) (max tot 1) (v_signed value)
                                 in alone (write_chunk_word c0 raw_off raw_word pv pu tot forced a))
                           else None)
                     else alone (write_chunk ir c0 raw_off raw_word (resize value (max tot 1)) forced a))
         | cs \<Rightarrow> write_pieces ir (resize value (max tot 1)) forced (escapes esc) tot 0 (zip cs offs) a)"

definition write_lvalue_inner ::
  "sim_ir \<Rightarrow> lvalue \<Rightarrow> sim_value \<Rightarrow> offsets \<Rightarrow> bool list \<Rightarrow> bool \<Rightarrow> bool list \<Rightarrow> net_arena
    \<Rightarrow> ((bool \<times> (nat \<times> sim_value) list) \<times> net_arena) option" where
  "write_lvalue_inner ir lhs value offsets forced word_entry esc a =
     (if list_all (\<lambda>(i, c). escapes esc i \<or> assert_owns a (ch_net c)) (enumerate 0 (chunks lhs)) then
        (case offsets of
           OffAssocKey _ \<Rightarrow> None
         | OffAssocStrKey _ \<Rightarrow> None
         | _ \<Rightarrow>
           let offs = offsets_slice offsets
           in if length offs = length (chunks lhs) then
                Option.bind (case whole_net_dest lhs of None \<Rightarrow> Some False | Some n \<Rightarrow> map_option sl_real (arena_get (a_slots a) n))
                  (\<lambda>dest_is_real. Option.bind
                     (assign_conversion lhs value dest_is_real
                        (\<lambda>n. map_option (\<lambda>s. (sl_width s, sl_signed s)) (arena_get (a_slots a) n)) (chunks_width a ir lhs))
                     (\<lambda>value. Option.bind (chunks_width a ir lhs)
                        (\<lambda>tot. tail_write ir lhs value offs forced word_entry esc tot a)))
              else None)
      else None)"

definition write_lvalue ::
  "sim_ir \<Rightarrow> lvalue \<Rightarrow> sim_value \<Rightarrow> offsets \<Rightarrow> bool list \<Rightarrow> net_arena \<Rightarrow> (bool \<times> net_arena) option" where
  "write_lvalue ir lhs value offsets forced a =
     map_option (\<lambda>((ch, _), a). (ch, a)) (write_lvalue_inner ir lhs value offsets forced True [] a)"

definition write_lvalue_escaping ::
  "sim_ir \<Rightarrow> lvalue \<Rightarrow> sim_value \<Rightarrow> offsets \<Rightarrow> bool list \<Rightarrow> bool list \<Rightarrow> net_arena
    \<Rightarrow> ((bool \<times> (nat \<times> sim_value) list) \<times> net_arena) option" where
  "write_lvalue_escaping ir lhs value offsets forced esc a = write_lvalue_inner ir lhs value offsets forced True esc a"

end
