(* ===== verification/ArenaStore.thy ===== *)
theory ArenaStore
  imports ArenaWrite
begin

text \<open>
  What one store of the funnel does: the effects of a change on the dirty/edge channel, and the replacement of one
  element's planes (\<open>put_elem\<close>) that every store of the code amounts to.
\<close>

section \<open>The channel's invariant\<close>

definition chan_ok :: "dirty_channel \<Rightarrow> nat \<Rightarrow> bool" where
  "chan_ok ch n \<longleftrightarrow>
     db_ok (dc_dirty ch) \<and> db_nbits (dc_dirty ch) = n \<and> db_set (dc_dirty ch) \<subseteq> {..<n} \<and> length (dc_slot_edge ch) = n \<and> length (dc_is_edge_target ch) = n \<and>
     length (dc_last_blocking_writer ch) = n \<and> length (dc_last_change_seq ch) = n \<and>
     db_ok (dc_ca_dirty ch) \<and> list_all (list_all (\<lambda>ci. ci < db_nbits (dc_ca_dirty ch))) (dc_ca_of_net ch)"

definition store_ok :: "net_arena \<Rightarrow> bool" where
  "store_ok a \<longleftrightarrow>
     arena_ok a \<and> chan_ok (a_ch a) (length (a_slots a)) \<and> list_all (\<lambda>s. sl_width s \<le> width_max) (a_slots a)"

text \<open>The assigns that read a net.\<close>

definition readers :: "dirty_channel \<Rightarrow> nat \<Rightarrow> nat set" where
  "readers ch net = (if net < length (dc_ca_of_net ch) then set (dc_ca_of_net ch ! net) else {})"

definition edge_of :: "dirty_channel \<Rightarrow> nat \<Rightarrow> u8" where
  "edge_of ch net = (if net \<in> db_set (dc_dirty ch) then dc_slot_edge ch ! net else 0)"

text \<open>What one change of a net does to the channel; \<open>em\<close> is the edge of the transition on a tracked net.\<close>

definition chan_changed :: "nat \<Rightarrow> bool \<Rightarrow> u8 option \<Rightarrow> dirty_channel \<Rightarrow> dirty_channel \<Rightarrow> bool" where
  "chan_changed net event em ch ch' \<longleftrightarrow>
     db_set (dc_dirty ch') = insert net (db_set (dc_dirty ch)) \<and>
     db_set (dc_ca_dirty ch') = db_set (dc_ca_dirty ch) \<union> readers ch net \<and>
     dc_is_edge_target ch' = dc_is_edge_target ch \<and> dc_ca_of_net ch' = dc_ca_of_net ch \<and>
     db_nbits (dc_ca_dirty ch') = db_nbits (dc_ca_dirty ch) \<and>
     (case em of
        Some m \<Rightarrow> dc_slot_edge ch' = (dc_slot_edge ch)[net := edge_of ch net OR m]
      | None \<Rightarrow> dc_slot_edge ch' = dc_slot_edge ch \<or> dc_is_edge_target ch ! net) \<and>
     dc_change_seq ch' = dc_change_seq ch + of_bool event \<and>
     (event \<longrightarrow> dc_last_change_seq ch' = (dc_last_change_seq ch)[net := dc_change_seq ch + 1] \<and>
        dc_last_blocking_writer ch' = (dc_last_blocking_writer ch)[net := (case dc_blocking_writer ch of Some w \<Rightarrow> w | None \<Rightarrow> NO_WRITER)]) \<and>
     (\<not> event \<longrightarrow> dc_last_change_seq ch' = dc_last_change_seq ch \<and> dc_last_blocking_writer ch' = dc_last_blocking_writer ch) \<and>
     dc_blocking_writer ch' = dc_blocking_writer ch"

lemma mark_dirty_ok:
  assumes ok: "chan_ok ch n" and net: "net < n"
  shows "\<exists>d. mark_dirty net ch =
      Some (ch\<lparr>dc_dirty := d, dc_slot_edge := (if net \<notin> db_set (dc_dirty ch) \<and> dc_is_edge_target ch ! net
                                              then (dc_slot_edge ch)[net := 0] else dc_slot_edge ch)\<rparr>)
    \<and> db_ok d \<and> db_nbits d = n \<and> db_set d = insert net (db_set (dc_dirty ch))"
proof -
  have "db_holds (dc_dirty ch) net" using ok net by (simp add: db_holds_def chan_ok_def)
  then obtain d where d: "db_insert net (dc_dirty ch) = Some (net \<notin> db_set (dc_dirty ch), d)" "db_ok d"
    "db_set d = insert net (db_set (dc_dirty ch))" "db_nbits d = n"
    using db_insert_ok [of "dc_dirty ch" net] ok by (auto simp: chan_ok_def)
  then show ?thesis
    using ok net by (auto simp: mark_dirty_def Let_def chan_ok_def arena_get_in put_at_def)
qed

lemma stamp_event_ok:
  assumes "chan_ok ch n" and "net < n"
  shows "stamp_event net event ch =
    Some (if event
          then ch\<lparr>dc_last_blocking_writer := (dc_last_blocking_writer ch)[net := (case dc_blocking_writer ch of Some w \<Rightarrow> w | None \<Rightarrow> NO_WRITER)],
                  dc_change_seq := dc_change_seq ch + 1, dc_last_change_seq := (dc_last_change_seq ch)[net := dc_change_seq ch + 1]\<rparr>
          else ch)"
  using assms by (auto simp: stamp_event_def stamp_change_def put_at_def chan_ok_def)

lemma db_insert_list_ok:
  "db_ok d \<Longrightarrow> list_all (\<lambda>i. i < db_nbits d) is \<Longrightarrow>
    \<exists>d'. db_insert_list is d = Some d' \<and> db_ok d' \<and> db_nbits d' = db_nbits d \<and> db_set d' = db_set d \<union> set is"
proof (induction "is" arbitrary: d)
  case (Cons i "is")
  then obtain d1 where "db_insert i d = Some (i \<notin> db_set d, d1)" "db_ok d1" "db_set d1 = insert i (db_set d)" "db_nbits d1 = db_nbits d"
    using db_insert_ok [of d i] by (auto simp: db_holds_def)
  then show ?case using Cons.IH [of d1] Cons.prems(2) by auto
qed simp

lemma redirty_ok:
  assumes "chan_ok ch n"
  shows "\<exists>d. redirty_assigns net ch = Some (ch\<lparr>dc_ca_dirty := d\<rparr>) \<and> db_ok d \<and> db_nbits d = db_nbits (dc_ca_dirty ch)
    \<and> db_set d = db_set (dc_ca_dirty ch) \<union> readers ch net"
proof (cases "net < length (dc_ca_of_net ch)")
  case True
  then have "list_all (\<lambda>i. i < db_nbits (dc_ca_dirty ch)) (dc_ca_of_net ch ! net)"
    using assms by (auto simp: chan_ok_def list_all_length)
  then show ?thesis
    using db_insert_list_ok [of "dc_ca_dirty ch"] assms True by (fastforce simp: redirty_assigns_def readers_def chan_ok_def arena_get_in)
next
  case False
  then have "arena_get (dc_ca_of_net ch) net = None" by simp
  then show ?thesis using assms False
    by (simp only: redirty_assigns_def readers_def option.case if_False) (auto intro!: exI [of _ "dc_ca_dirty ch"] simp: chan_ok_def)
qed

section \<open>A change of a net\<close>

text \<open>The captures append to their queues and change nothing else.\<close>

definition captured :: "net_arena \<Rightarrow> net_arena \<Rightarrow> bool" where
  "captured a a' \<longleftrightarrow> (\<exists>vs ps. a' = on_ch (\<lambda>ch. ch\<lparr>dc_vcd_pending := vs, dc_probe_pending := ps\<rparr>) a)"

lemma ch_irrelevant:
  "arena_ok (a\<lparr>a_ch := ch\<rparr>) = arena_ok a" "owned (a\<lparr>a_ch := ch\<rparr>) = owned a" "elem_value (a\<lparr>a_ch := ch\<rparr>) = elem_value a"
  by (auto simp: arena_ok_def owned_def assert_owns_def elem_value_def fun_eq_iff)

lemma captures_ok:
  assumes "arena_ok a" and "owned a net" and "word < sl_elems (a_slots a ! net)"
  shows "\<exists>a'. Option.bind (capture_vcd net word a) (capture_probe net) = Some a' \<and> captured a a'"
proof -
  have r: "read_net net (Some w) (a\<lparr>a_ch := ch\<rparr>) = Some (elem_value a net w, a\<lparr>a_ch := ch\<rparr>)" if "w < sl_elems (a_slots a ! net)" for w ch
    using read_net_owned [of "a\<lparr>a_ch := ch\<rparr>" net "Some w"] assms that by (simp add: ch_irrelevant Let_def)
  have z: "0 < sl_elems (a_slots a ! net)" using assms(3) by simp
  have "\<exists>vs. capture_vcd net word a = Some (on_ch (\<lambda>ch. ch\<lparr>dc_vcd_pending := vs\<rparr>) a)"
  proof (cases "dc_vcd_on (a_ch a)")
    case True
    then show ?thesis using r [OF assms(3), of "a_ch a"] by (auto simp: capture_vcd_def)
  next
    case False
    then show ?thesis by (auto simp: capture_vcd_def intro!: exI [of _ "dc_vcd_pending (a_ch a)"])
  qed
  then obtain vs where vs: "capture_vcd net word a = Some (on_ch (\<lambda>ch. ch\<lparr>dc_vcd_pending := vs\<rparr>) a)" by blast
  let ?a1 = "on_ch (\<lambda>ch. ch\<lparr>dc_vcd_pending := vs\<rparr>) a"
  have "\<exists>ps. capture_probe net ?a1 = Some (on_ch (\<lambda>ch. ch\<lparr>dc_probe_pending := ps\<rparr>) ?a1)"
  proof (cases "arena_get (dc_probed (a_ch ?a1)) net = Some True")
    case True
    then show ?thesis
      unfolding capture_probe_def if_P [OF True] using r [OF z, of "a_ch ?a1"] by auto
  next
    case False
    have "?a1 = on_ch (\<lambda>ch. ch\<lparr>dc_probe_pending := dc_probe_pending (a_ch ?a1)\<rparr>) ?a1" by simp
    then show ?thesis unfolding capture_probe_def if_not_P [OF False] by blast
  qed
  then obtain ps where "capture_probe net ?a1 = Some (on_ch (\<lambda>ch. ch\<lparr>dc_probe_pending := ps\<rparr>) ?a1)" by blast
  then show ?thesis unfolding vs captured_def by auto
qed

lemma note_change_ok:
  assumes a: "arena_ok a" "owned a net" "word < sl_elems (a_slots a ! net)" and ch: "chan_ok (a_ch a) (length (a_slots a))"
  shows "\<exists>ch'. note_change net word event a = Some (a\<lparr>a_ch := ch'\<rparr>) \<and> chan_ok ch' (length (a_slots a))
    \<and> chan_changed net event None (a_ch a) ch'
    \<and> dc_slot_edge ch' = (if net \<notin> db_set (dc_dirty (a_ch a)) \<and> dc_is_edge_target (a_ch a) ! net
        then (dc_slot_edge (a_ch a))[net := 0] else dc_slot_edge (a_ch a))"
proof -
  let ?n = "length (a_slots a)" and ?c0 = "a_ch a"
  have net: "net < ?n" using a(2) by (simp add: owned_def)
  obtain d where d: "mark_dirty net ?c0 =
      Some (?c0\<lparr>dc_dirty := d, dc_slot_edge := (if net \<notin> db_set (dc_dirty ?c0) \<and> dc_is_edge_target ?c0 ! net
                                              then (dc_slot_edge ?c0)[net := 0] else dc_slot_edge ?c0)\<rparr>)"
    "db_ok d" "db_nbits d = ?n" "db_set d = insert net (db_set (dc_dirty ?c0))"
    using mark_dirty_ok [OF ch net] by blast
  define c1 where "c1 = ?c0\<lparr>dc_dirty := d, dc_slot_edge := (if net \<notin> db_set (dc_dirty ?c0) \<and> dc_is_edge_target ?c0 ! net
      then (dc_slot_edge ?c0)[net := 0] else dc_slot_edge ?c0)\<rparr>"
  have c1: "chan_ok c1 ?n" using ch d net by (simp add: chan_ok_def c1_def)
  define c2 where "c2 = (if event
          then c1\<lparr>dc_last_blocking_writer := (dc_last_blocking_writer c1)[net := (case dc_blocking_writer c1 of Some w \<Rightarrow> w | None \<Rightarrow> NO_WRITER)],
                  dc_change_seq := dc_change_seq c1 + 1, dc_last_change_seq := (dc_last_change_seq c1)[net := dc_change_seq c1 + 1]\<rparr>
          else c1)"
  have c2: "chan_ok c2 ?n" using c1 by (simp add: chan_ok_def c2_def)
  obtain d2 where d2: "redirty_assigns net c2 = Some (c2\<lparr>dc_ca_dirty := d2\<rparr>)" "db_ok d2" "db_nbits d2 = db_nbits (dc_ca_dirty c2)"
    "db_set d2 = db_set (dc_ca_dirty c2) \<union> readers c2 net"
    using redirty_ok [OF c2] by blast
  define c3 where "c3 = c2\<lparr>dc_ca_dirty := d2\<rparr>"
  have c3: "chan_ok c3 ?n" using c2 d2 by (simp add: chan_ok_def c3_def)
  have run: "note_change net word event a = Option.bind (capture_vcd net word (a\<lparr>a_ch := c3\<rparr>)) (capture_probe net)"
    using d(1) stamp_event_ok [OF c1 net, of event] d2(1)
    by (simp add: note_change_def c1_def [symmetric] c2_def [symmetric] c3_def [symmetric])
  obtain a' where a': "Option.bind (capture_vcd net word (a\<lparr>a_ch := c3\<rparr>)) (capture_probe net) = Some a'" "captured (a\<lparr>a_ch := c3\<rparr>) a'"
    using captures_ok [of "a\<lparr>a_ch := c3\<rparr>" net word] a by (auto simp: ch_irrelevant)
  obtain vs ps where eq: "a' = a\<lparr>a_ch := c3\<lparr>dc_vcd_pending := vs, dc_probe_pending := ps\<rparr>\<rparr>"
    using a'(2) by (auto simp: captured_def)
  have rd: "readers c2 net = readers ?c0 net" "dc_ca_dirty c2 = dc_ca_dirty ?c0"
    by (simp_all add: readers_def c2_def c1_def)
  show ?thesis
  proof (intro exI conjI)
    show "note_change net word event a = Some (a\<lparr>a_ch := c3\<lparr>dc_vcd_pending := vs, dc_probe_pending := ps\<rparr>\<rparr>)"
      using run a'(1) eq by simp
    show "chan_ok (c3\<lparr>dc_vcd_pending := vs, dc_probe_pending := ps\<rparr>) ?n" using c3 by (simp add: chan_ok_def)
    show "chan_changed net event None ?c0 (c3\<lparr>dc_vcd_pending := vs, dc_probe_pending := ps\<rparr>)"
      using d d2 rd by (auto simp: chan_changed_def c3_def c2_def c1_def)
    show "dc_slot_edge (c3\<lparr>dc_vcd_pending := vs, dc_probe_pending := ps\<rparr>) = (if net \<notin> db_set (dc_dirty ?c0) \<and> dc_is_edge_target ?c0 ! net
        then (dc_slot_edge ?c0)[net := 0] else dc_slot_edge ?c0)"
      by (simp add: c3_def c2_def c1_def)
  qed
qed

lemma scalar_bit0_ok:
  assumes "arena_ok a" and "owned a net"
  shows "scalar_bit0 a net = Some (vbit (elem_value a net 0) 0)"
proof -
  let ?s = "a_slots a ! net"
  have net: "net < length (a_slots a)" using assms(2) by (simp add: owned_def)
  have s: "slot_ok ?s" using arena_slot(1) [OF assms(1) net] .
  then have e: "0 < sl_elems ?s" "0 < sl_words ?s" using nw1_bounds(1) [of "sl_width ?s"] by (auto simp: slot_ok_def)
  have b: "elem_base ?s 0 + 2 * sl_words ?s \<le> length (a_buf a)" using elem_in_buf [OF assms(1) net e(1)] .
  have "bit x 0 \<longleftrightarrow> x AND 1 \<noteq> 0" for x :: u64 by (simp add: bit_0 and_one_eq mod_2_eq_odd)
  then have "(x AND 1 = 0) = (\<not> bit x 0)" for x :: u64 by blast
  then show ?thesis
    using b e net unfolding vbit_def elem_value_def Let_def elem_planes_def pbit_def
    by (simp add: scalar_bit0_def arena_get_in elem_base_def bslice_def wget_def)
qed

lemma edge_index: "chan_ok ch n \<Longrightarrow> net < n \<Longrightarrow> arena_get (dc_is_edge_target ch) net = Some (dc_is_edge_target ch ! net)"
  by (simp add: chan_ok_def arena_get_in)

lemma store_effects_ok:
  assumes a: "arena_ok a" "owned a net" "word < sl_elems (a_slots a ! net)" and ch: "chan_ok (a_ch a) (length (a_slots a))"
    and t: "fst before = dc_is_edge_target (a_ch a) ! net"
  shows "\<exists>ch'. store_effects net word event before a = Some (a\<lparr>a_ch := ch'\<rparr>) \<and> chan_ok ch' (length (a_slots a))
    \<and> chan_changed net event (if fst before then Some (edge_mask (snd before) (vbit (elem_value a net 0) 0)) else None) (a_ch a) ch'"
proof -
  let ?n = "length (a_slots a)" and ?c0 = "a_ch a"
  have net: "net < ?n" using a(2) by (simp add: owned_def)
  obtain c1 where c1: "note_change net word event a = Some (a\<lparr>a_ch := c1\<rparr>)" "chan_ok c1 ?n" "chan_changed net event None ?c0 c1"
    "dc_slot_edge c1 = (if net \<notin> db_set (dc_dirty ?c0) \<and> dc_is_edge_target ?c0 ! net
        then (dc_slot_edge ?c0)[net := 0] else dc_slot_edge ?c0)"
    using note_change_ok [OF a ch] by blast
  show ?thesis
  proof (cases "fst before")
    case False
    then have "chan_changed net event None ?c0 c1" using c1(3) t by simp
    then show ?thesis using False c1(1,2) by (intro exI [of _ c1]) (simp add: store_effects_def)
  next
    case True
    let ?m = "edge_mask (snd before) (vbit (elem_value a net 0) 0)"
    have len: "net < length (dc_slot_edge c1)" using c1(2) net by (simp add: chan_ok_def)
    have at: "dc_slot_edge c1 ! net = edge_of ?c0 net"
      using c1(4) True t len by (auto simp: edge_of_def split: if_splits)
    define c2 where "c2 = c1\<lparr>dc_slot_edge := (dc_slot_edge c1)[net := dc_slot_edge c1 ! net OR ?m]\<rparr>"
    have "scalar_bit0 (a\<lparr>a_ch := c1\<rparr>) net = Some (vbit (elem_value a net 0) 0)"
      using scalar_bit0_ok [of "a\<lparr>a_ch := c1\<rparr>" net] a by (simp add: ch_irrelevant)
    then have "store_effects net word event before a = Some (a\<lparr>a_ch := c2\<rparr>)"
      using True c1(1) len by (simp add: store_effects_def accumulate_edge_def put_at_def arena_get_in c2_def)
    moreover have "chan_ok c2 ?n" using c1(2) by (simp add: chan_ok_def c2_def)
    moreover have "dc_slot_edge c2 = (dc_slot_edge ?c0)[net := edge_of ?c0 net OR ?m]"
    proof -
      have "(dc_slot_edge c1)[net := x] = (dc_slot_edge ?c0)[net := x]" for x using c1(4) by simp
      moreover have "dc_slot_edge c2 = (dc_slot_edge c1)[net := dc_slot_edge c1 ! net OR ?m]" by (simp add: c2_def)
      ultimately show ?thesis by (simp only: at)
    qed
    moreover have "dc_dirty c2 = dc_dirty c1" "dc_ca_dirty c2 = dc_ca_dirty c1" "dc_is_edge_target c2 = dc_is_edge_target c1"
      "dc_ca_of_net c2 = dc_ca_of_net c1" "dc_change_seq c2 = dc_change_seq c1" "dc_last_change_seq c2 = dc_last_change_seq c1"
      "dc_last_blocking_writer c2 = dc_last_blocking_writer c1" "dc_blocking_writer c2 = dc_blocking_writer c1"
      by (simp_all add: c2_def)
    ultimately show ?thesis using True c1(3) by (intro exI [of _ c2]) (simp add: chan_changed_def)
  qed
qed

section \<open>Replacing one element\<close>

definition only_block :: "slot \<Rightarrow> nat \<Rightarrow> u64 list \<Rightarrow> u64 list \<Rightarrow> bool" where
  "only_block s e buf buf' \<longleftrightarrow>
     length buf' = length buf \<and> (\<forall>k. k < elem_base s e \<or> elem_base s e + 2 * sl_words s \<le> k \<longrightarrow> wget buf' k = wget buf k)"

definition upd_elem :: "u64 list \<Rightarrow> slot \<Rightarrow> nat \<Rightarrow> u64 list \<times> u64 list \<Rightarrow> u64 list" where
  "upd_elem buf s e p = take (elem_base s e) buf @ fst p @ snd p @ drop (elem_base s e + 2 * sl_words s) buf"

lemma wget_bslice: "wget (bslice b n buf) k = (if k < n then wget buf (b + k) else 0)"
  by (auto simp: bslice_def wget_def)

lemma wget_upd_elem:
  assumes "elem_base s e + 2 * sl_words s \<le> length buf" and "length (fst p) = sl_words s" and "length (snd p) = sl_words s"
  shows "wget (upd_elem buf s e p) k =
    (if k < elem_base s e then wget buf k
     else if k < elem_base s e + sl_words s then wget (fst p) (k - elem_base s e)
     else if k < elem_base s e + 2 * sl_words s then wget (snd p) (k - (elem_base s e + sl_words s))
     else wget buf k)"
  using assms by (auto simp: upd_elem_def wget_append wget_take wget_drop)

lemma upd_elem_ok:
  assumes "elem_base s e + 2 * sl_words s \<le> length buf" and "length (fst p) = sl_words s" and "length (snd p) = sl_words s"
  shows "only_block s e buf (upd_elem buf s e p)" and "elem_planes (upd_elem buf s e p) s e = p"
proof -
  have l: "length (upd_elem buf s e p) = length buf" using assms by (simp add: upd_elem_def)
  then show "only_block s e buf (upd_elem buf s e p)"
    using wget_upd_elem [OF assms] by (auto simp: only_block_def)
  have "bslice (elem_base s e) (sl_words s) (upd_elem buf s e p) = fst p"
    by (rule wget_ext) (use assms l in \<open>simp_all add: length_bslice wget_bslice wget_upd_elem\<close>)
  moreover have "bslice (elem_base s e + sl_words s) (sl_words s) (upd_elem buf s e p) = snd p"
    by (rule wget_ext) (use assms l in \<open>simp_all add: length_bslice wget_bslice wget_upd_elem\<close>)
  ultimately show "elem_planes (upd_elem buf s e p) s e = p" by (simp add: elem_planes_def)
qed

lemma only_block_upd:
  assumes "elem_base s e + 2 * sl_words s \<le> length buf" and o: "only_block s e buf buf'"
  shows "buf' = upd_elem buf s e (elem_planes buf' s e)"
proof (rule wget_ext)
  have l: "length buf' = length buf" using o by (simp add: only_block_def)
  have n: "length (fst (elem_planes buf' s e)) = sl_words s" "length (snd (elem_planes buf' s e)) = sl_words s"
    using assms(1) l by (simp_all add: elem_planes_def length_bslice)
  show "length buf' = length (upd_elem buf s e (elem_planes buf' s e))"
    using upd_elem_ok(1) [OF assms(1) n] l by (simp add: only_block_def)
  show "wget buf' k = wget (upd_elem buf s e (elem_planes buf' s e)) k" for k
    unfolding wget_upd_elem [OF assms(1) n] using o by (auto simp: elem_planes_def wget_bslice only_block_def)
qed

lemma only_block_other:
  assumes "arena_ok a" and "net < length (a_slots a)" and "e < sl_elems (a_slots a ! net)"
    and "net' < length (a_slots a)" and "e' < sl_elems (a_slots a ! net')" and "(net', e') \<noteq> (net, e)"
    and "only_block (a_slots a ! net) e (a_buf a) buf'"
  shows "elem_planes buf' (a_slots a ! net') e' = elem_planes (a_buf a) (a_slots a ! net') e'"
proof -
  have d: "elem_base (a_slots a ! net') e' + 2 * sl_words (a_slots a ! net') \<le> elem_base (a_slots a ! net) e
    \<or> elem_base (a_slots a ! net) e + 2 * sl_words (a_slots a ! net) \<le> elem_base (a_slots a ! net') e'"
    using assms by (intro blocks_disjoint [of "a_slots a" "length (a_buf a)"]) (simp_all add: arena_ok_def)
  have l: "length buf' = length (a_buf a)" using assms(7) by (simp add: only_block_def)
  have "wget buf' k = wget (a_buf a) k" if "elem_base (a_slots a ! net') e' \<le> k"
    "k < elem_base (a_slots a ! net') e' + 2 * sl_words (a_slots a ! net')" for k
    using assms(7) d that by (auto simp: only_block_def)
  moreover have "length (bslice b n buf') = length (bslice b n (a_buf a))" for b n by (simp add: bslice_def l)
  ultimately have "bslice b n buf' = bslice b n (a_buf a)"
    if "elem_base (a_slots a ! net') e' \<le> b" "b + n \<le> elem_base (a_slots a ! net') e' + 2 * sl_words (a_slots a ! net')" for b n
    using that by (intro wget_ext) (auto simp: wget_bslice)
  then show ?thesis by (simp add: elem_planes_def)
qed

definition put_elem :: "nat \<Rightarrow> nat \<Rightarrow> u64 list \<times> u64 list \<Rightarrow> net_arena \<Rightarrow> (bool \<times> net_arena) option" where
  "put_elem net e p a =
     (let s = a_slots a ! net; old = elem_planes (a_buf a) s e
      in if p = old then Some (False, a)
         else Option.bind (old_bit0 net a)
                (\<lambda>before. map_option (\<lambda>a. (True, a))
                   (store_effects net e (change_event s (wget (fst old) 0) (wget (fst p) 0)) before
                      (a\<lparr>a_buf := upd_elem (a_buf a) s e p\<rparr>))))"

text \<open>What a store of the planes \<open>p\<close> leaves behind.\<close>

definition stored :: "nat \<Rightarrow> nat \<Rightarrow> u64 list \<times> u64 list \<Rightarrow> net_arena \<Rightarrow> net_arena \<Rightarrow> bool" where
  "stored net e p a a' \<longleftrightarrow>
     a_slots a' = a_slots a \<and> a_heap a' = a_heap a \<and> a_frame a' = a_frame a \<and> a_class a' = a_class a \<and> a_pending a' = a_pending a \<and>
     (\<forall>net' e'. owned a net' \<longrightarrow> e' < sl_elems (a_slots a ! net') \<longrightarrow>
        elem_planes (a_buf a') (a_slots a ! net') e' =
          (if net' = net \<and> e' = e then p else elem_planes (a_buf a) (a_slots a ! net') e')) \<and>
     (let s = a_slots a ! net; old = elem_planes (a_buf a) s e
      in if p = old then a' = a
         else chan_changed net (change_event s (wget (fst old) 0) (wget (fst p) 0))
                (if dc_is_edge_target (a_ch a) ! net
                 then Some (edge_mask (vbit (elem_value a net 0) 0) (vbit (elem_value a' net 0) 0)) else None) (a_ch a) (a_ch a'))"

lemma put_elem_ok:
  assumes ok: "store_ok a" and own: "owned a net" and e: "e < sl_elems (a_slots a ! net)" and p: "planes_ok (a_slots a ! net) p"
  shows "\<exists>a'. put_elem net e p a = Some (p \<noteq> elem_planes (a_buf a) (a_slots a ! net) e, a') \<and> store_ok a' \<and> stored net e p a a'"
proof (cases "p = elem_planes (a_buf a) (a_slots a ! net) e")
  case True
  then show ?thesis using ok by (simp add: put_elem_def stored_def Let_def)
next
  case False
  let ?s = "a_slots a ! net" and ?buf = "upd_elem (a_buf a) (a_slots a ! net) e p"
  let ?a1 = "a\<lparr>a_buf := ?buf\<rparr>"
  have net: "net < length (a_slots a)" using own by (simp add: owned_def)
  have aok: "arena_ok a" and ch: "chan_ok (a_ch a) (length (a_slots a))" using ok by (simp_all add: store_ok_def)
  have n: "length (fst p) = sl_words ?s" "length (snd p) = sl_words ?s"
    using p arena_slot(1) [OF aok net] by (simp_all add: planes_ok_def plane_ok_def slot_ok_def)
  note b = elem_in_buf [OF aok net e]
  note u = upd_elem_ok [OF b n]
  have own1: "owned ?a1 = owned a" by (simp add: owned_def assert_owns_def fun_eq_iff)
  have pl: "elem_planes ?buf (a_slots a ! net') e' = (if net' = net \<and> e' = e then p else elem_planes (a_buf a) (a_slots a ! net') e')"
    if "net' < length (a_slots a)" "e' < sl_elems (a_slots a ! net')" for net' e'
    using only_block_other [OF aok net e that _ u(1)] u(2) by auto
  have ok1: "arena_ok ?a1"
    using aok p pl u(1) by (auto simp: arena_ok_def own1 owned_def only_block_def split: if_splits)
  let ?old0 = "vbit (elem_value a net 0) 0" and ?ev = "change_event ?s (wget (fst (elem_planes (a_buf a) ?s e)) 0) (wget (fst p) 0)"
  obtain old where before: "old_bit0 net a = Some (dc_is_edge_target (a_ch a) ! net, old)"
    "dc_is_edge_target (a_ch a) ! net \<Longrightarrow> old = ?old0"
    using that [of "if dc_is_edge_target (a_ch a) ! net then ?old0 else L0"] scalar_bit0_ok [OF aok own] edge_index [OF ch net]
    by (cases "dc_is_edge_target (a_ch a) ! net") (simp_all add: old_bit0_def)
  obtain ch' where ch': "store_effects net e ?ev (dc_is_edge_target (a_ch a) ! net, old) ?a1 = Some (?a1\<lparr>a_ch := ch'\<rparr>)"
    "chan_ok ch' (length (a_slots a))"
    "chan_changed net ?ev (if dc_is_edge_target (a_ch a) ! net then Some (edge_mask old (vbit (elem_value ?a1 net 0) 0)) else None) (a_ch a) ch'"
  proof -
    have "owned ?a1 net" "e < sl_elems (a_slots ?a1 ! net)" "chan_ok (a_ch ?a1) (length (a_slots ?a1))"
      "fst (dc_is_edge_target (a_ch a) ! net, old) = dc_is_edge_target (a_ch ?a1) ! net"
      using own own1 e ch by simp_all
    from store_effects_ok [OF ok1 this, of ?ev] show ?thesis by (elim exE conjE) (rule that, auto split: if_splits)
  qed
  let ?a2 = "?a1\<lparr>a_ch := ch'\<rparr>"
  have ev2: "elem_value ?a2 net 0 = elem_value ?a1 net 0" by (rule fun_cong [OF fun_cong [OF ch_irrelevant(3)]])
  have "put_elem net e p a = Some (True, ?a2)" using False before(1) ch'(1) by (simp add: put_elem_def Let_def)
  moreover have "arena_ok ?a2" using ok1 by (simp only: ch_irrelevant)
  then have "store_ok ?a2" using ok ch'(2) by (simp add: store_ok_def)
  moreover have "stored net e p a ?a2"
    using False pl ch'(3) before(2) ev2 by (auto simp: stored_def Let_def owned_def split: if_splits)
  ultimately show ?thesis using False by (intro exI [of _ ?a2]) simp
qed

end
