(* ===== verification/ArenaFunnel.thy ===== *)
theory ArenaFunnel
  imports ArenaStore
begin

text \<open>
  The stores of the write funnel as replacements of one element's planes: the whole-element store, the bit-serial
  store and the one-word store each compute the planes in which the bits a select names hold the source and all
  others their old value (\<open>windowed\<close>).
\<close>

section \<open>Windows\<close>

definition windowed :: "nat \<Rightarrow> int \<Rightarrow> nat \<Rightarrow> u64 list \<Rightarrow> u64 list \<Rightarrow> u64 list \<Rightarrow> bool" where
  "windowed w lsb n src old p \<longleftrightarrow>
     plane_ok w p \<and>
     (\<forall>i<w. pbit p i \<longleftrightarrow> (if lsb \<le> int i \<and> int i < lsb + int n then pbit src (nat (int i - lsb)) else pbit old i))"

lemma windowed_unique: "windowed w lsb n src old p \<Longrightarrow> windowed w lsb n src old q \<Longrightarrow> p = q"
  by (rule plane_ext [where w = w]) (auto simp: windowed_def)

lemma windowedI:
  assumes "length p = nw1 w" and "plane_ok w old"
    and "\<And>i. pbit p i \<longleftrightarrow> (if i < w \<and> lsb \<le> int i \<and> int i < lsb + int n then pbit src (nat (int i - lsb)) else pbit old i)"
  shows "windowed w lsb n src old p"
proof -
  have "i < w" if "pbit p i" for i
  proof (rule ccontr)
    assume w: "\<not> i < w"
    then have "pbit old i" using that assms(3) [of i] by simp
    then show False using plane_ok_out [OF assms(2)] w by simp
  qed
  moreover have "pbit p i \<longleftrightarrow> (if lsb \<le> int i \<and> int i < lsb + int n then pbit src (nat (int i - lsb)) else pbit old i)"
    if "i < w" for i
    using assms(3) [of i] that by simp
  ultimately show ?thesis using assms(1) by (simp add: windowed_def plane_ok_iff)
qed

lemma windowed_src:
  assumes "\<And>i. i < n \<Longrightarrow> pbit src i = pbit src' i"
  shows "windowed w lsb n src old p = windowed w lsb n src' old p"
  unfolding windowed_def using assms by (auto simp: nat_less_iff)

definition windows :: "slot \<Rightarrow> int \<Rightarrow> nat \<Rightarrow> sim_value \<Rightarrow> u64 list \<times> u64 list \<Rightarrow> u64 list \<times> u64 list \<Rightarrow> bool" where
  "windows s lsb n piece old p \<longleftrightarrow>
     windowed (sl_width s) lsb n (v_val piece) (fst old) (fst p) \<and> windowed (sl_width s) lsb n (v_unk piece) (snd old) (snd p)"

lemma windows_ok: "windows s lsb n piece old p \<Longrightarrow> planes_ok s p"
  by (simp add: windows_def windowed_def planes_ok_def)

lemma windows_unique: "windows s lsb n piece old p \<Longrightarrow> windows s lsb n piece old q \<Longrightarrow> p = q"
  by (rule prod_eqI) (auto simp: windows_def dest: windowed_unique)

section \<open>A loop over the buffer is a replacement\<close>

lemma only_block_same:
  assumes "elem_base s e + 2 * sl_words s \<le> length buf" and "only_block s e buf buf'"
  shows "buf' = buf \<longleftrightarrow> elem_planes buf' s e = elem_planes buf s e"
proof -
  have "only_block s e buf buf" by (simp add: only_block_def)
  then show ?thesis using only_block_upd [OF assms] only_block_upd [OF assms(1), of buf] by metis
qed

lemma commit_put:
  assumes b: "elem_base (a_slots a ! net) e + 2 * sl_words (a_slots a ! net) \<le> length (a_buf a)" and w: "0 < sl_words (a_slots a ! net)"
    and o: "only_block (a_slots a ! net) e (a_buf a) buf'" and c: "changed \<longleftrightarrow> buf' \<noteq> a_buf a" and t: "old_bit0 net a = Some before"
  shows "(if changed
       then map_option (\<lambda>a. (True, a)) (store_effects net e
              (change_event (a_slots a ! net) (a_buf a ! elem_base (a_slots a ! net) e) (buf' ! elem_base (a_slots a ! net) e)) before (a\<lparr>a_buf := buf'\<rparr>))
       else Some (False, a\<lparr>a_buf := buf'\<rparr>)) = put_elem net e (elem_planes buf' (a_slots a ! net) e) a"
proof -
  let ?s = "a_slots a ! net"
  have len: "length buf' = length (a_buf a)" using o by (simp add: only_block_def)
  have first: "wget (fst (elem_planes buf ?s e)) 0 = buf ! elem_base ?s e" if "length buf = length (a_buf a)" for buf
    using b w that by (simp add: elem_planes_def wget_bslice wget_in)
  have "buf' = upd_elem (a_buf a) ?s e (elem_planes buf' ?s e)" using only_block_upd [OF b o] .
  then show ?thesis
    using c only_block_same [OF b o] first [OF len] first [OF refl] t by (auto simp: put_elem_def Let_def)
qed

section \<open>The whole-element store\<close>

lemma store_fold:
  assumes "base + 2 * nw \<le> length buf" and "k \<le> nw"
  shows "\<exists>b c. fold (store_step base nw m piece) [0..<k] (buf, False) = (b, c) \<and> length b = length buf
    \<and> (\<forall>p. wget b p = (if base \<le> p \<and> p < base + k then sample_word (v_val piece) m nw (p - base)
         else if base + nw \<le> p \<and> p < base + nw + k then sample_word (v_unk piece) m nw (p - (base + nw)) else wget buf p))
    \<and> (c \<longleftrightarrow> b \<noteq> buf)"
  using assms(2)
proof (induction k)
  case (Suc k)
  then obtain b c where IH: "fold (store_step base nw m piece) [0..<k] (buf, False) = (b, c)" "length b = length buf"
    "\<And>p. wget b p = (if base \<le> p \<and> p < base + k then sample_word (v_val piece) m nw (p - base)
         else if base + nw \<le> p \<and> p < base + nw + k then sample_word (v_unk piece) m nw (p - (base + nw)) else wget buf p)"
    "c \<longleftrightarrow> b \<noteq> buf" by auto
  let ?v = "sample_word (v_val piece) m nw k" and ?u = "sample_word (v_unk piece) m nw k"
  let ?B = "b[base + k := ?v, base + nw + k := ?u]"
  have lt: "base + k < length b" "base + nw + k < length b" using assms(1) Suc.prems IH(2) by simp_all
  have kn: "k < nw" using Suc.prems by simp
  have step: "store_step base nw m piece k (b, c) = (?B, c \<or> ?B \<noteq> b)"
  proof -
    have "b ! (base + k) = ?v \<and> b ! (base + nw + k) = ?u \<longleftrightarrow> ?B = b"
    proof
      assume "b ! (base + k) = ?v \<and> b ! (base + nw + k) = ?u"
      then show "?B = b" by (metis list_update_id)
    next
      assume B: "?B = b"
      have "?B ! (base + k) = ?v" "?B ! (base + nw + k) = ?u" using lt kn by (simp_all add: nth_list_update)
      then show "b ! (base + k) = ?v \<and> b ! (base + nw + k) = ?u" unfolding B by simp
    qed
    then show ?thesis by (auto simp: store_step_def Let_def sample_word_def split: if_splits)
  qed
  have wB: "wget ?B p = (if base \<le> p \<and> p < base + Suc k then sample_word (v_val piece) m nw (p - base)
         else if base + nw \<le> p \<and> p < base + nw + Suc k then sample_word (v_unk piece) m nw (p - (base + nw)) else wget buf p)" for p
    using IH(3) [of p] kn lt by (auto simp: wget_list_update)
  have "c \<or> ?B \<noteq> b \<longleftrightarrow> ?B \<noteq> buf"
  proof (cases "b = buf")
    case False
    then obtain p where "wget b p \<noteq> wget buf p" using wget_ext IH(2) by metis
    then have "wget ?B p \<noteq> wget buf p" using wB [of p] IH(3) [of p] kn by (auto split: if_splits)
    then have "?B \<noteq> buf" by auto
    then show ?thesis using False IH(4) by simp
  qed (use IH(4) in auto)
  then show ?case using IH(1,2) step wB by (auto simp del: upt_Suc simp: upt_Suc_append)
qed auto

lemma store_words_put:
  assumes ok: "store_ok a" and own: "owned a net" and e: "e < sl_elems (a_slots a ! net)"
  shows "\<exists>p. store_words net e piece a = put_elem net e p a
    \<and> windows (a_slots a ! net) 0 (sl_width (a_slots a ! net)) piece (elem_planes (a_buf a) (a_slots a ! net) e) p"
proof -
  let ?s = "a_slots a ! net" let ?base = "elem_base ?s e" and ?nw = "sl_words ?s" and ?m = "top_mask (sl_width ?s)"
  have net: "net < length (a_slots a)" using own by (simp add: owned_def)
  have aok: "arena_ok a" using ok by (simp add: store_ok_def)
  note b = elem_in_buf [OF aok net e]
  have nw: "?nw = nw1 (sl_width ?s)" using arena_slot(1) [OF aok net] by (simp add: slot_ok_def)
  have "chan_ok (a_ch a) (length (a_slots a))" using ok by (simp add: store_ok_def)
  from edge_index [OF this net] scalar_bit0_ok [OF aok own] obtain before where t: "old_bit0 net a = Some before"
    by (cases "dc_is_edge_target (a_ch a) ! net") (auto simp: old_bit0_def)
  obtain buf c where f: "fold (store_step ?base ?nw ?m piece) [0..<?nw] (a_buf a, False) = (buf, c)" "length buf = length (a_buf a)"
    "\<And>p. wget buf p = (if ?base \<le> p \<and> p < ?base + ?nw then sample_word (v_val piece) ?m ?nw (p - ?base)
         else if ?base + ?nw \<le> p \<and> p < ?base + ?nw + ?nw then sample_word (v_unk piece) ?m ?nw (p - (?base + ?nw)) else wget (a_buf a) p)"
    "c \<longleftrightarrow> buf \<noteq> a_buf a"
    using store_fold [of ?base ?nw "a_buf a" ?nw ?m piece] b by (auto simp: mult_2 add.assoc)
  have o: "only_block ?s e (a_buf a) buf" using f(2,3) by (auto simp: only_block_def)
  have run: "store_words net e piece a = put_elem net e (elem_planes buf ?s e) a"
    using commit_put [OF b _ o f(4) t] nw nw1_bounds(1) [of "sl_width ?s"] net b t f(1)
    by (simp add: store_words_def arena_get_in Let_def)
  have win: "windowed (sl_width ?s) 0 (sl_width ?s) src old (map (sample_word src ?m ?nw) [0..<?nw])" for src old
  proof -
    have "pbit (map (sample_word src ?m ?nw) [0..<?nw]) i \<longleftrightarrow> i < sl_width ?s \<and> pbit src i" for i
    proof (cases "i div 64 < ?nw")
      case True
      then have "pbit (map (sample_word src ?m ?nw) [0..<?nw]) i \<longleftrightarrow> bit (sample_word src ?m ?nw (i div 64)) (i mod 64)"
        by (simp add: pbit_def)
      moreover have "i < sl_width ?s" if "i div 64 \<noteq> ?nw - 1"
      proof -
        have "i div 64 < ?nw - 1" using True that by linarith
        then show ?thesis unfolding nw using nw1_bounds(3) by (rule below_word)
      qed
      moreover have "bit ?m (i mod 64) \<longleftrightarrow> i < sl_width ?s" if "i div 64 = ?nw - 1"
      proof -
        have "64 * (i div 64) + i mod 64 = i" by simp
        then show ?thesis using bit_top_mask [of "i mod 64" "sl_width ?s"] that nw by simp
      qed
      ultimately show ?thesis by (auto simp: sample_word_def pbit_def bit_and_iff)
    next
      case False
      then show ?thesis using nw1_less [of i "sl_width ?s"] nw by (auto simp: pbit_def)
    qed
    then show ?thesis by (auto simp: windowed_def plane_ok_iff nw)
  qed
  have "elem_planes buf ?s e = (map (sample_word (v_val piece) ?m ?nw) [0..<?nw], map (sample_word (v_unk piece) ?m ?nw) [0..<?nw])"
    unfolding elem_planes_def using f(2,3) b
    by (intro prod_eqI) (auto intro!: wget_ext simp: length_bslice wget_bslice)
  then show ?thesis using run win by (auto simp: windows_def)
qed

section \<open>The bit-serial store\<close>

lemma pbit_set_word_bit:
  assumes "k < length ws" and "j < 64"
  shows "pbit (ws[k := set_word_bit (ws ! k) j b]) g \<longleftrightarrow> (if g = 64 * k + j then b else pbit ws g)"
proof -
  have "g div 64 = k \<and> g mod 64 = j \<longleftrightarrow> g = 64 * k + j" using assms(2) by auto
  then show ?thesis
    using assms by (auto simp: pbit_set_word set_word_bit_def bit_simps) (auto simp: pbit_def wget_in)
qed

text \<open>The bits named so far.\<close>

definition in_window :: "int \<Rightarrow> nat \<Rightarrow> nat \<Rightarrow> nat \<Rightarrow> bool" where
  "in_window lsb n w i \<longleftrightarrow> i < w \<and> lsb \<le> int i \<and> int i < lsb + int n"

lemma bits_fold:
  assumes len: "base + 2 * sl_words s \<le> length buf" and w: "sl_width s \<le> 64 * sl_words s"
    and small: "lsb + int n \<le> 2 ^ 32" and low: "- (2 ^ 32) \<le> lsb"
  shows "k \<le> n \<Longrightarrow> \<exists>b c. fold (bit_step s base lsb piece) [0..<k] (buf, False) = (b, c) \<and> length b = length buf
    \<and> (\<forall>g. pbit b g \<longleftrightarrow>
         (if 64 * base \<le> g \<and> in_window lsb k (sl_width s) (g - 64 * base) then pbit (v_val piece) (nat (int (g - 64 * base) - lsb))
          else if 64 * (base + sl_words s) \<le> g \<and> in_window lsb k (sl_width s) (g - 64 * (base + sl_words s))
          then pbit (v_unk piece) (nat (int (g - 64 * (base + sl_words s)) - lsb)) else pbit buf g))
    \<and> (c \<longleftrightarrow> b \<noteq> buf)"
proof (induction k)
  case 0
  then show ?case by (auto simp: in_window_def)
next
  case (Suc k)
  let ?w = "sl_width s" and ?nw = "sl_words s"
  let ?spec = "\<lambda>k g. if 64 * base \<le> g \<and> in_window lsb k ?w (g - 64 * base) then pbit (v_val piece) (nat (int (g - 64 * base) - lsb))
          else if 64 * (base + ?nw) \<le> g \<and> in_window lsb k ?w (g - 64 * (base + ?nw))
          then pbit (v_unk piece) (nat (int (g - 64 * (base + ?nw)) - lsb)) else pbit buf g"
  obtain b c where IH: "fold (bit_step s base lsb piece) [0..<k] (buf, False) = (b, c)" "length b = length buf"
    "\<And>g. pbit b g \<longleftrightarrow> ?spec k g" "c \<longleftrightarrow> b \<noteq> buf"
    using Suc by auto
  let ?d = "lsb + int k"
  have fold_Suc: "fold (bit_step s base lsb piece) [0..<Suc k] (buf, False) = bit_step s base lsb piece k (b, c)"
    using IH(1) by simp
  show ?case
  proof (cases "?d < 0 \<or> int ?w \<le> ?d")
    case True
    have "?d < 0 \<or> int ?w \<le> ?d mod 2 ^ 32"
      using True small Suc.prems by (cases "?d < 0") (simp_all add: mod_pos_pos_trivial)
    then have "bit_step s base lsb piece k (b, c) = (b, c)" by (auto simp: bit_step_def Let_def)
    moreover have "in_window lsb (Suc k) ?w i = in_window lsb k ?w i" for i
      using True by (auto simp: in_window_def)
    ultimately show ?thesis using IH fold_Suc by auto
  next
    case False
    define p where "p = nat ?d"
    have p: "int p = ?d" "p < ?w" using False by (simp_all add: p_def nat_less_iff)
    have md: "?d mod 2 ^ 32 = ?d" using False small Suc.prems by (intro mod_pos_pos_trivial) simp_all
    let ?vi = "base + p div 64" and ?ui = "base + ?nw + p div 64"
    let ?v = "pbit (v_val piece) k" and ?u = "pbit (v_unk piece) k"
    let ?B = "b[?vi := set_word_bit (b ! ?vi) (p mod 64) ?v, ?ui := set_word_bit (b ! ?ui) (p mod 64) ?u]"
    have q: "p div 64 < ?nw" using p(2) w by linarith
    have lt: "?vi < length b" "?ui < length b" "?vi \<noteq> ?ui" using q len IH(2) by simp_all
    have gv: "(fst (get_vu piece k) \<noteq> 0) = ?v" "(snd (get_vu piece k) \<noteq> 0) = ?u"
      by (simp_all add: get_vu_def Let_def shift_and_1 pbit_def)
    have B: "?B = b \<longleftrightarrow> set_word_bit (b ! ?vi) (p mod 64) ?v = b ! ?vi \<and> set_word_bit (b ! ?ui) (p mod 64) ?u = b ! ?ui"
    proof
      assume B: "?B = b"
      have "?B ! ?vi = set_word_bit (b ! ?vi) (p mod 64) ?v" "?B ! ?ui = set_word_bit (b ! ?ui) (p mod 64) ?u"
        using lt by (simp_all add: nth_list_update)
      then show "set_word_bit (b ! ?vi) (p mod 64) ?v = b ! ?vi \<and> set_word_bit (b ! ?ui) (p mod 64) ?u = b ! ?ui"
        unfolding B by simp
    qed simp
    have step: "bit_step s base lsb piece k (b, c) = (?B, c \<or> ?B \<noteq> b)"
      unfolding B using False md gv by (auto simp: bit_step_def Let_def p_def [symmetric] case_prod_beta)
    have posn: "64 * ?vi + p mod 64 = 64 * base + p" "64 * ?ui + p mod 64 = 64 * (base + ?nw) + p"
      by simp_all
    have ui_b: "b[?vi := x] ! ?ui = b ! ?ui" for x using lt by simp
    have pB: "pbit ?B g \<longleftrightarrow> (if g = 64 * (base + ?nw) + p then ?u else if g = 64 * base + p then ?v else pbit b g)" for g
      using pbit_set_word_bit [of ?ui "b[?vi := set_word_bit (b ! ?vi) (p mod 64) ?v]" "p mod 64" ?u g]
        pbit_set_word_bit [of ?vi b "p mod 64" ?v g] lt by (simp add: ui_b posn)
    have kk: "nat (int p - lsb) = k" using p(1) by simp
    have iw: "in_window lsb (Suc k) ?w i \<longleftrightarrow> in_window lsb k ?w i \<or> i = p" "\<not> in_window lsb k ?w p" for i
      using p by (auto simp: in_window_def)
    have lo: "g < 64 * (base + ?nw)" if "in_window lsb j ?w (g - 64 * base)" "64 * base \<le> g" for g j
      using that w by (auto simp: in_window_def)
    have sp: "pbit ?B g \<longleftrightarrow> ?spec (Suc k) g" for g
    proof -
      consider "g = 64 * base + p" | "g = 64 * (base + ?nw) + p" | "g \<noteq> 64 * base + p" "g \<noteq> 64 * (base + ?nw) + p" by blast
      then show ?thesis
      proof cases
        case 1
        then show ?thesis using pB [of g] p(2) w by (simp add: iw kk)
      next
        case 2
        then have "\<not> in_window lsb (Suc k) ?w (g - 64 * base)" using w by (auto simp: in_window_def)
        then show ?thesis using pB [of g] 2 by (simp add: iw kk)
      next
        case 3
        then have "64 * base \<le> g \<Longrightarrow> g - 64 * base \<noteq> p" "64 * (base + ?nw) \<le> g \<Longrightarrow> g - 64 * (base + ?nw) \<noteq> p" by auto
        then show ?thesis using pB [of g] IH(3) [of g] 3 by (auto simp: iw)
      qed
    qed
    have "c \<or> ?B \<noteq> b \<longleftrightarrow> ?B \<noteq> buf"
    proof (cases "b = buf")
      case False
      then obtain g where g: "pbit b g \<noteq> pbit buf g" using pbit_ext IH(2) by metis
      have "pbit b (64 * base + p) = pbit buf (64 * base + p)" "pbit b (64 * (base + ?nw) + p) = pbit buf (64 * (base + ?nw) + p)"
        using IH(3) iw(2) w p(2) by (auto simp: in_window_def)
      then have "pbit ?B g = pbit b g" using g pB [of g] by auto
      then have "?B \<noteq> buf" using g by metis
      then show ?thesis using False IH(4) by simp
    qed (use IH(4) in auto)
    then show ?thesis using IH(2) fold_Suc step sp by auto
  qed
qed

lemma old_bit0_some:
  assumes "store_ok a" and "owned a net"
  obtains before where "old_bit0 net a = Some before"
proof -
  have "chan_ok (a_ch a) (length (a_slots a))" "net < length (a_slots a)" "arena_ok a"
    using assms by (simp_all add: store_ok_def owned_def)
  then show ?thesis
    using that edge_index [of "a_ch a" "length (a_slots a)" net] scalar_bit0_ok [of a net] assms(2)
    by (cases "dc_is_edge_target (a_ch a) ! net") (auto simp: old_bit0_def)
qed

lemma pbit_bslice: "pbit (bslice b n buf) i \<longleftrightarrow> i < 64 * n \<and> pbit buf (64 * b + i)"
proof -
  have "i div 64 < n \<longleftrightarrow> i < 64 * n" by (simp add: div_less_iff_less_mult mult.commute)
  then show ?thesis by (simp add: pbit_def wget_bslice)
qed

lemma store_bits_put:
  assumes ok: "store_ok a" and own: "owned a net" and e: "e < sl_elems (a_slots a ! net)"
    and r: "- (2 ^ 32) \<le> lsb" "lsb + int n \<le> 2 ^ 32"
  shows "\<exists>p. store_bits net e n lsb piece a = put_elem net e p a
    \<and> windows (a_slots a ! net) lsb n piece (elem_planes (a_buf a) (a_slots a ! net) e) p"
proof -
  let ?s = "a_slots a ! net" let ?base = "elem_base ?s e" and ?nw = "sl_words ?s" and ?w = "sl_width ?s"
  have net: "net < length (a_slots a)" using own by (simp add: owned_def)
  have aok: "arena_ok a" using ok by (simp add: store_ok_def)
  note b = elem_in_buf [OF aok net e]
  have nw: "?nw = nw1 ?w" using arena_slot(1) [OF aok net] by (simp add: slot_ok_def)
  then have w: "?w \<le> 64 * ?nw" using nw1_bounds(2) by simp
  obtain before where t: "old_bit0 net a = Some before" using old_bit0_some [OF ok own] .
  obtain buf c where f: "fold (bit_step ?s ?base lsb piece) [0..<n] (a_buf a, False) = (buf, c)" "length buf = length (a_buf a)"
    "\<And>g. pbit buf g \<longleftrightarrow>
         (if 64 * ?base \<le> g \<and> in_window lsb n ?w (g - 64 * ?base) then pbit (v_val piece) (nat (int (g - 64 * ?base) - lsb))
          else if 64 * (?base + ?nw) \<le> g \<and> in_window lsb n ?w (g - 64 * (?base + ?nw))
          then pbit (v_unk piece) (nat (int (g - 64 * (?base + ?nw)) - lsb)) else pbit (a_buf a) g)"
    "c \<longleftrightarrow> buf \<noteq> a_buf a"
    using bits_fold [OF b w r(2,1) order_refl, of piece] by blast
  have o: "only_block ?s e (a_buf a) buf"
    unfolding only_block_def
  proof (intro conjI allI impI f(2))
    fix k assume k: "k < ?base \<or> ?base + 2 * ?nw \<le> k"
    show "wget buf k = wget (a_buf a) k"
    proof (rule bit_word_eqI)
      fix j assume j: "j < LENGTH(64)"
      have "\<not> (64 * ?base \<le> 64 * k + j \<and> in_window lsb n ?w (64 * k + j - 64 * ?base))"
        "\<not> (64 * (?base + ?nw) \<le> 64 * k + j \<and> in_window lsb n ?w (64 * k + j - 64 * (?base + ?nw)))"
        using k w j by (auto simp: in_window_def)
      then have "pbit buf (64 * k + j) = pbit (a_buf a) (64 * k + j)" using f(3) by presburger
      then show "bit (wget buf k) j = bit (wget (a_buf a) k) j" using j by (simp add: pbit_def)
    qed
  qed
  have run: "store_bits net e n lsb piece a = put_elem net e (elem_planes buf ?s e) a"
    using commit_put [OF b _ o f(4) t] nw nw1_bounds(1) [of ?w] net b t f(1)
    by (simp add: store_bits_def arena_get_in Let_def)
  have old: "planes_ok ?s (elem_planes (a_buf a) ?s e)" using aok own e by (simp add: arena_ok_def)
  have v: "pbit (fst (elem_planes buf ?s e)) i \<longleftrightarrow> (if in_window lsb n ?w i then pbit (v_val piece) (nat (int i - lsb))
      else pbit (fst (elem_planes (a_buf a) ?s e)) i)" for i
  proof (cases "i < 64 * ?nw")
    case True
    then have "\<not> 64 * (?base + ?nw) \<le> 64 * ?base + i" by simp
    then show ?thesis using f(3) [of "64 * ?base + i"] True by (simp add: elem_planes_def pbit_bslice)
  next
    case False
    then show ?thesis using w by (simp add: elem_planes_def pbit_bslice in_window_def)
  qed
  have u: "pbit (snd (elem_planes buf ?s e)) i \<longleftrightarrow> (if in_window lsb n ?w i then pbit (v_unk piece) (nat (int i - lsb))
      else pbit (snd (elem_planes (a_buf a) ?s e)) i)" for i
  proof (cases "i < 64 * ?nw")
    case True
    have "\<not> in_window lsb n ?w (64 * (?base + ?nw) + i - 64 * ?base)" using w by (simp add: in_window_def)
    then show ?thesis using f(3) [of "64 * (?base + ?nw) + i"] True by (simp add: elem_planes_def pbit_bslice)
  next
    case False
    then show ?thesis using w by (simp add: elem_planes_def pbit_bslice in_window_def)
  qed
  have lens: "length (fst (elem_planes buf ?s e)) = nw1 ?w" "length (snd (elem_planes buf ?s e)) = nw1 ?w"
    using b f(2) nw by (simp_all add: elem_planes_def length_bslice)
  have "windows ?s lsb n piece (elem_planes (a_buf a) ?s e) (elem_planes buf ?s e)"
    unfolding windows_def
  proof
    show "windowed ?w lsb n (v_val piece) (fst (elem_planes (a_buf a) ?s e)) (fst (elem_planes buf ?s e))"
      by (rule windowedI [OF lens(1)]) (use old v in \<open>simp_all only: planes_ok_def in_window_def\<close>)
    show "windowed ?w lsb n (v_unk piece) (snd (elem_planes (a_buf a) ?s e)) (snd (elem_planes buf ?s e))"
      by (rule windowedI [OF lens(2)]) (use old u in \<open>simp_all only: planes_ok_def in_window_def\<close>)
  qed
  then show ?thesis using run by blast
qed

section \<open>The one-word store\<close>

lemma pbit_word: "pbit [x] i \<longleftrightarrow> i < 64 \<and> bit x i"
  by (cases "i < 64") (auto simp: pbit_def wget_def)

lemma bit_top_mask_any: "w \<le> 64 \<Longrightarrow> bit (top_mask w) j \<longleftrightarrow> j < w"
proof -
  assume w: "w \<le> 64"
  show ?thesis
  proof (cases "j < 64")
    case True
    have "nw1 w = 1" using w by (auto simp: nw1_def v_nwords_def)
    then show ?thesis using bit_top_mask [OF True, of w] by simp
  next
    case False
    then show ?thesis using w by (simp add: bit_word.rep_eq impossible_bit)
  qed
qed

lemma window_word:
  assumes w: "w \<le> 64" and hi: "hi = nat (clamp_int (lsb + int cw) 0 (int w))" and lo: "lo = nat (clamp_int lsb 0 (int w))"
    and ne: "lo < hi" and old: "plane_ok w [ov]"
  shows "windowed w lsb cw [pv] [ov]
    [(ov AND NOT (top_mask hi AND NOT (top_mask lo))) OR (push_bit lo (drop_bit (nat (int lo - lsb)) pv) AND (top_mask hi AND NOT (top_mask lo)))]"
proof -
  have hl: "hi \<le> 64" "lo \<le> 64" "hi \<le> w" "lo \<le> w" using w by (auto simp: hi lo clamp_int_def)
  let ?m = "top_mask hi AND NOT (top_mask lo)"
  have m: "bit ?m i \<longleftrightarrow> lo \<le> i \<and> i < hi" if "i < 64" for i
    using bit_top_mask_any [OF hl(1)] bit_top_mask_any [OF hl(2)] that by (auto simp: bit_simps)
  have named: "lo \<le> i \<and> i < hi \<longleftrightarrow> lsb \<le> int i \<and> int i < lsb + int cw" if "i < w" for i
    using that by (auto simp: hi lo clamp_int_def split: if_splits)
  let ?r = "(ov AND NOT ?m) OR (push_bit lo (drop_bit (nat (int lo - lsb)) pv) AND ?m)"
  have dl: "lsb \<le> int lo" using ne by (auto simp: hi lo clamp_int_def split: if_splits)
  have r: "bit ?r i \<longleftrightarrow> (if lo \<le> i \<and> i < hi then bit pv (nat (int i - lsb)) else bit ov i)" if "i < 64" for i
  proof -
    have "nat (int lo - lsb) + (i - lo) = nat (int i - lsb)" if "lo \<le> i" using that dl by simp
    then show ?thesis using m [OF that] that by (auto simp: bit_or_iff bit_and_iff bit_not_iff bit_push_bit_iff bit_drop_bit_eq)
  qed
  have n1: "nw1 w = 1" using w by (auto simp: nw1_def v_nwords_def)
  have src: "pbit [pv] (nat (int i - lsb)) \<longleftrightarrow> bit pv (nat (int i - lsb))" for i
    using bit_imp_le_length [of pv] by (auto simp: pbit_word)
  have ob: "i < w" if "bit ov i" for i
    using old that bit_imp_le_length [OF that] by (auto simp: plane_ok_iff pbit_word)
  have rb: "i < w" if "bit ?r i" for i
  proof -
    have "i < 64" using bit_imp_le_length [OF that] by simp
    then show ?thesis using r [of i] that ob [of i] hl(3) by (simp split: if_splits)
  qed
  have "plane_ok w [?r]" using rb by (simp add: plane_ok_iff n1 pbit_word del: bit_simps)
  moreover have "pbit [?r] i \<longleftrightarrow> (if lsb \<le> int i \<and> int i < lsb + int cw then pbit [pv] (nat (int i - lsb)) else pbit [ov] i)"
    if "i < w" for i
    unfolding src using r [of i] named [OF that] that w by (simp only: pbit_word) auto
  ultimately show ?thesis unfolding windowed_def by blast
qed

lemma write_window_word:
  assumes ok: "store_ok a" and own: "owned a net" and e: "e < sl_elems (a_slots a ! net)" and one: "sl_words (a_slots a ! net) = 1"
    and hi: "hi = nat (clamp_int (lsb + int cw) 0 (int (sl_width (a_slots a ! net))))"
    and lo: "lo = nat (clamp_int lsb 0 (int (sl_width (a_slots a ! net))))"
    and m: "m = top_mask hi AND NOT (top_mask lo)" and d: "d = nat (int lo - lsb)" and base: "base = sl_off (a_slots a ! net) + e * 2"
    and ne: "lo < hi" and piece: "v_val piece = [pv]" "v_unk piece = [pu]"
  shows "base + 1 < length (a_buf a) \<and>
    (\<exists>p. windows (a_slots a ! net) lsb cw piece (elem_planes (a_buf a) (a_slots a ! net) e) p \<and>
      (let ov = a_buf a ! base; ou = a_buf a ! (base + 1);
           wv = (ov AND NOT m) OR (push_bit lo (drop_bit d pv) AND m); wu = (ou AND NOT m) OR (push_bit lo (drop_bit d pu) AND m)
       in if wv = ov \<and> wu = ou then Some (False, a)
          else Option.bind (old_bit0 net a)
                 (\<lambda>before. map_option (\<lambda>a. (True, a))
                    (store_effects net e (change_event (a_slots a ! net) ov wv) before
                       (a\<lparr>a_buf := (a_buf a)[base := wv, base + 1 := wu]\<rparr>)))) = put_elem net e p a)"
proof -
  let ?s = "a_slots a ! net"
  let ?ov = "a_buf a ! base" and ?ou = "a_buf a ! (base + 1)"
  let ?wv = "(?ov AND NOT m) OR (push_bit lo (drop_bit d pv) AND m)" and ?wu = "(?ou AND NOT m) OR (push_bit lo (drop_bit d pu) AND m)"
  have net: "net < length (a_slots a)" using own by (simp add: owned_def)
  have aok: "arena_ok a" using ok by (simp add: store_ok_def)
  have eb: "elem_base ?s e = base" using one by (simp add: elem_base_def base)
  have b: "base + 2 \<le> length (a_buf a)" using elem_in_buf [OF aok net e] one eb by simp
  have old: "elem_planes (a_buf a) ?s e = ([?ov], [?ou])"
    using b one unfolding elem_planes_def eb by (auto simp: bslice_def take_Suc hd_drop_conv_nth)
  have "planes_ok ?s (elem_planes (a_buf a) ?s e)" using aok own e by (simp add: arena_ok_def)
  then have po: "planes_ok ?s ([?ov], [?ou])" by (simp only: old)
  have w64: "sl_width ?s \<le> 64" using arena_slot(1) [OF aok net] one nw1_bounds(2) [of "sl_width ?s"] by (simp add: slot_ok_def)
  let ?p = "([?wv], [?wu])"
  have "windows ?s lsb cw piece ([?ov], [?ou]) ?p"
    using window_word [OF w64 hi lo ne, of ?ov pv] window_word [OF w64 hi lo ne, of ?ou pu] po
    by (simp add: windows_def piece planes_ok_def m d)
  moreover have "upd_elem (a_buf a) ?s e ?p = (a_buf a)[base := ?wv, base + 1 := ?wu]"
  proof (rule wget_ext)
    have p1: "elem_base ?s e + 2 * sl_words ?s \<le> length (a_buf a)" "length (fst ?p) = sl_words ?s" "length (snd ?p) = sl_words ?s"
      using b one eb by simp_all
    show "length (upd_elem (a_buf a) ?s e ?p) = length ((a_buf a)[base := ?wv, base + 1 := ?wu])"
      using upd_elem_ok(1) [OF p1] by (simp add: only_block_def)
    show "wget (upd_elem (a_buf a) ?s e ?p) k = wget ((a_buf a)[base := ?wv, base + 1 := ?wu]) k" for k
    proof -
      consider "k < base" | "k = base" | "k = base + 1" | "base + 2 \<le> k" by linarith
      then show ?thesis unfolding wget_upd_elem [OF p1] eb one using b by cases (simp_all add: wget_list_update)
    qed
  qed
  ultimately show ?thesis
    using b by (intro conjI exI [of _ ?p]) (auto simp: put_elem_def old Let_def)
qed

end
