(* ===== verification/ArenaLvalue.thy ===== *)
theory ArenaLvalue
  imports ArenaFunnel
begin

text \<open>
  The write funnel as a whole: what a chunk write stores, that the one-word entry is the general funnel, that a
  write to an lvalue returns and keeps the store's invariant, and how a concatenation splits its source.
\<close>

section \<open>The 2-state coercion\<close>

definition ts_bit :: "bool \<Rightarrow> logic4 \<Rightarrow> logic4" where
  "ts_bit two_state b = (if two_state \<and> (b = LX \<or> b = LZ) then L0 else b)"

lemma ts_bit_planes: "l4_v (ts_bit t b) \<longleftrightarrow> l4_v b \<and> \<not> (t \<and> l4_u b)" "l4_u (ts_bit t b) \<longleftrightarrow> l4_u b \<and> \<not> t"
  by (cases b; simp add: ts_bit_def l4_v_def l4_u_def)+

text \<open>The planes of a piece have the same length.\<close>

definition piece_ok :: "sim_value \<Rightarrow> bool" where
  "piece_ok v \<longleftrightarrow> length (v_val v) = length (v_unk v)"

lemma coerce_two_state_ok:
  assumes "piece_ok v"
  shows "\<exists>v'. coerce_two_state s v = Some v' \<and> piece_ok v' \<and>
    (\<forall>i. pbit (v_val v') i \<longleftrightarrow> l4_v (ts_bit (sl_two_state s) (vbit v i))) \<and> (\<forall>i. pbit (v_unk v') i \<longleftrightarrow> l4_u (ts_bit (sl_two_state s) (vbit v i)))"
proof (cases "sl_two_state s \<and> list_ex (\<lambda>u. u \<noteq> 0) (v_unk v)")
  case True
  let ?val = "map (\<lambda>k. if k < length (v_unk v) then (v_val v ! k) AND NOT (v_unk v ! k) else v_val v ! k) [0..<length (v_val v)]"
  have "coerce_two_state s v = Some (v\<lparr>v_val := ?val, v_unk := map (\<lambda>_. 0) (v_unk v)\<rparr>)"
    using True assms by (simp add: coerce_two_state_def piece_ok_def)
  moreover have "pbit ?val i \<longleftrightarrow> pbit (v_val v) i \<and> \<not> pbit (v_unk v) i" for i
    using assms by (auto simp: pbit_def wget_def piece_ok_def bit_simps)
  moreover have "\<not> pbit (map (\<lambda>_. 0) (v_unk v)) i" for i by (simp add: map_replicate_const)
  ultimately show ?thesis using True assms by (auto simp: ts_bit_planes piece_ok_def)
next
  case False
  have "\<not> pbit (v_unk v) i" if "sl_two_state s" for i
    using False that by (auto simp: pbit_def wget_def list_ex_length)
  then show ?thesis using False assms by (auto simp: coerce_two_state_def ts_bit_planes)
qed

section \<open>One chunk\<close>

text \<open>The element a chunk writes; \<open>None\<close> drops the write.\<close>

definition target_elem :: "lval_chunk \<Rightarrow> u32 \<Rightarrow> nat \<Rightarrow> nat option" where
  "target_elem c raw_word elems = (if ch_word c = None then Some 0 else if elems \<le> unat raw_word then None else Some (unat raw_word))"

lemma chunk_elem_target:
  "chunk_elem c raw_word elems a =
    (target_elem c raw_word elems, if target_elem c raw_word elems = None then note_bad_index (ch_net c) (raw_word = OFF_UNKNOWN) a else a)"
  by (simp add: chunk_elem_def target_elem_def)

lemma target_elem_less: "target_elem c raw_word elems = Some e \<Longrightarrow> 1 \<le> elems \<Longrightarrow> e < elems"
  by (auto simp: target_elem_def split: if_splits)

lemma chunk_lsb_range:
  assumes "n \<le> width_max"
  shows "- (2 ^ 32) \<le> chunk_lsb c off n" and "chunk_lsb c off n + int n \<le> 2 ^ 32"
proof -
  have "- (2 ^ 31) \<le> sint off" "sint off < 2 ^ 31"
    using sint_greater_eq [of off] sint_less [of off] by simp_all
  moreover have "int n \<le> 2 ^ 24" using assms by (simp add: width_max_def)
  ultimately show "- (2 ^ 32) \<le> chunk_lsb c off n" "chunk_lsb c off n + int n \<le> 2 ^ 32"
    by (auto simp: chunk_lsb_def split: sel_kind.split)
qed

text \<open>The source bits as the store receives them.\<close>

definition piece_windows :: "slot \<Rightarrow> int \<Rightarrow> nat \<Rightarrow> (nat \<Rightarrow> logic4) \<Rightarrow> u64 list \<times> u64 list \<Rightarrow> u64 list \<times> u64 list \<Rightarrow> bool" where
  "piece_windows s lsb n src old p \<longleftrightarrow>
     planes_ok s p \<and>
     (\<forall>i < sl_width s. l4 (pbit (fst p) i) (pbit (snd p) i) =
        (if lsb \<le> int i \<and> int i < lsb + int n then ts_bit (sl_two_state s) (src (nat (int i - lsb)))
         else l4 (pbit (fst old) i) (pbit (snd old) i)))"

lemma l4_eq_iff: "l4 v u = b \<longleftrightarrow> v = l4_v b \<and> u = l4_u b"
  by (cases b; cases v; cases u) (simp_all add: l4_def l4_v_def l4_u_def)

lemma windows_piece:
  assumes "windows s lsb n v' old p"
    and "\<And>i. pbit (v_val v') i \<longleftrightarrow> l4_v (ts_bit (sl_two_state s) (src i))" and "\<And>i. pbit (v_unk v') i \<longleftrightarrow> l4_u (ts_bit (sl_two_state s) (src i))"
  shows "piece_windows s lsb n src old p"
  using assms windows_ok [OF assms(1)] by (auto simp: piece_windows_def windows_def windowed_def l4_eq_iff)

lemma piece_windows_unique:
  assumes "piece_windows s lsb n src old p" and "piece_windows s lsb n src' old q" and "\<And>i. i < n \<Longrightarrow> src i = src' i"
  shows "p = q"
proof -
  have "l4 (pbit (fst p) i) (pbit (snd p) i) = l4 (pbit (fst q) i) (pbit (snd q) i)" if "i < sl_width s" for i
    using assms that by (auto simp: piece_windows_def nat_less_iff)
  then have "pbit (fst p) i = pbit (fst q) i \<and> pbit (snd p) i = pbit (snd q) i" if "i < sl_width s" for i
    using that by (metis l4_planes(1,2))
  then have "fst p = fst q" "snd p = snd q"
    using assms(1,2) by (auto simp: piece_windows_def planes_ok_def intro!: plane_ext [where w = "sl_width s"])
  then show ?thesis by (simp add: prod_eqI)
qed

text \<open>A write that is not forced and hits an element replaces its planes; a miss reports and stores nothing.\<close>

lemma write_chunk_put:
  assumes ok: "store_ok a" and own: "owned a (ch_net c)" and nf: "\<not> is_forced forced (ch_net c)" and pk: "piece_ok piece"
    and cw: "chunk_width a ir c = Some n" and n: "n \<le> width_max"
  shows "case target_elem c raw_word (sl_elems (a_slots a ! ch_net c)) of
      None \<Rightarrow> write_chunk ir c off raw_word piece forced a = Some (False, note_bad_index (ch_net c) (raw_word = OFF_UNKNOWN) a)
    | Some e \<Rightarrow> \<exists>p. write_chunk ir c off raw_word piece forced a = put_elem (ch_net c) e p a
        \<and> piece_windows (a_slots a ! ch_net c) (chunk_lsb c off n) n (vbit piece) (elem_planes (a_buf a) (a_slots a ! ch_net c) e) p"
proof -
  let ?net = "ch_net c" and ?s = "a_slots a ! ch_net c"
  have net: "?net < length (a_slots a)" using own by (simp add: owned_def)
  have aok: "arena_ok a" using ok by (simp add: store_ok_def)
  obtain v' where v': "coerce_two_state ?s piece = Some v'"
    "\<And>i. pbit (v_val v') i \<longleftrightarrow> l4_v (ts_bit (sl_two_state ?s) (vbit piece i))"
    "\<And>i. pbit (v_unk v') i \<longleftrightarrow> l4_u (ts_bit (sl_two_state ?s) (vbit piece i))"
    using coerce_two_state_ok [OF pk] by blast
  show ?thesis
  proof (cases "target_elem c raw_word (sl_elems ?s)")
    case None
    then show ?thesis using nf net v'(1) by (simp add: write_chunk_def arena_get_in chunk_elem_target)
  next
    case (Some e)
    have "1 \<le> sl_elems ?s" using arena_slot(1) [OF aok net] by (simp add: slot_ok_def)
    then have e: "e < sl_elems ?s" using target_elem_less [OF Some] by simp
    define lsb where "lsb = chunk_lsb c off n"
    have run: "write_chunk ir c off raw_word piece forced a =
      (if lsb = 0 \<and> n = sl_width ?s then store_words ?net e v' a else store_bits ?net e n lsb v' a)"
      unfolding write_chunk_def lsb_def
      by (simp only: if_False nf arena_get_in [OF net] Option.bind.simps chunk_elem_target v'(1) Some cw Let_def prod.case option.case option.distinct)
    have "\<exists>p. write_chunk ir c off raw_word piece forced a = put_elem ?net e p a
        \<and> windows ?s lsb n v' (elem_planes (a_buf a) ?s e) p"
    proof (cases "lsb = 0 \<and> n = sl_width ?s")
      case True
      then show ?thesis using store_words_put [OF ok own e, of v'] trans [OF run if_P [OF True]] by simp
    next
      case False
      then show ?thesis
        using store_bits_put [OF ok own e chunk_lsb_range [OF n], of c off v'] trans [OF run if_not_P [OF False]] by (simp add: lsb_def)
    qed
    then have "\<exists>p. write_chunk ir c off raw_word piece forced a = put_elem ?net e p a
        \<and> piece_windows ?s lsb n (vbit piece) (elem_planes (a_buf a) ?s e) p"
      using windows_piece [OF _ v'(2,3)] by blast
    then show ?thesis unfolding Some lsb_def by simp
  qed
qed

lemma write_chunk_word_put:
  assumes ok: "store_ok a" and own: "owned a (ch_net c)" and nf: "\<not> is_forced forced (ch_net c)" and one: "sl_words (a_slots a ! ch_net c) = 1"
  shows "case target_elem c raw_word (sl_elems (a_slots a ! ch_net c)) of
      None \<Rightarrow> write_chunk_word c off raw_word pv pu n forced a = Some (False, note_bad_index (ch_net c) (raw_word = OFF_UNKNOWN) a)
    | Some e \<Rightarrow> \<exists>p. write_chunk_word c off raw_word pv pu n forced a = put_elem (ch_net c) e p a
        \<and> piece_windows (a_slots a ! ch_net c) (chunk_lsb c off n) n (\<lambda>i. l4 (bit pv i) (bit pu i)) (elem_planes (a_buf a) (a_slots a ! ch_net c) e) p"
proof -
  let ?net = "ch_net c" and ?s = "a_slots a ! ch_net c" and ?lsb = "chunk_lsb c off n"
  have net: "?net < length (a_slots a)" using own by (simp add: owned_def)
  have aok: "arena_ok a" using ok by (simp add: store_ok_def)
  define pv' pu' where "pv' = (if sl_two_state ?s then pv AND NOT pu else pv)" and "pu' = (if sl_two_state ?s then 0 else pu)"
  have pr: "(if sl_two_state ?s then (pv AND NOT pu, 0) else (pv, pu)) = (pv', pu')" by (simp add: pv'_def pu'_def)
  show ?thesis
  proof (cases "target_elem c raw_word (sl_elems ?s)")
    case None
    then show ?thesis using nf net by (simp add: write_chunk_word_def arena_get_in chunk_elem_target pr)
  next
    case (Some e)
    have "1 \<le> sl_elems ?s" using arena_slot(1) [OF aok net] by (simp add: slot_ok_def)
    then have e: "e < sl_elems ?s" using target_elem_less [OF Some] by simp
    define lo hi m d base where "lo = nat (clamp_int ?lsb 0 (int (sl_width ?s)))"
      and "hi = nat (clamp_int (?lsb + int n) 0 (int (sl_width ?s)))" and "m = top_mask hi AND NOT (top_mask lo)"
      and "d = nat (int lo - ?lsb)" and "base = sl_off ?s + e * 2"
    define piece where "piece = \<lparr>v_val = [pv'], v_unk = [pu'], v_width = 64, v_signed = False, v_real = False, v_str = False\<rparr>"
    have pb: "pbit (v_val piece) i \<longleftrightarrow> l4_v (ts_bit (sl_two_state ?s) (l4 (bit pv i) (bit pu i)))"
      "pbit (v_unk piece) i \<longleftrightarrow> l4_u (ts_bit (sl_two_state ?s) (l4 (bit pv i) (bit pu i)))" for i
      using bit_imp_le_length [of pv i] bit_imp_le_length [of pu i]
      by (auto simp: piece_def pbit_word ts_bit_planes pv'_def pu'_def bit_simps)
    have old: "planes_ok ?s (elem_planes (a_buf a) ?s e)" using aok own e by (simp add: arena_ok_def)
    have run: "write_chunk_word c off raw_word pv pu n forced a =
      (if hi \<le> lo then Some (False, a)
       else if base + 1 < length (a_buf a) then
         (let ov = a_buf a ! base; ou = a_buf a ! (base + 1);
              wv = (ov AND NOT m) OR (push_bit lo (drop_bit d pv') AND m); wu = (ou AND NOT m) OR (push_bit lo (drop_bit d pu') AND m)
          in if wv = ov \<and> wu = ou then Some (False, a)
             else Option.bind (old_bit0 ?net a)
                    (\<lambda>before. map_option (\<lambda>a. (True, a))
                       (store_effects ?net e (change_event ?s ov wv) before (a\<lparr>a_buf := (a_buf a)[base := wv, base + 1 := wu]\<rparr>))))
       else None)"
      using nf net Some unfolding write_chunk_word_def
      by (simp only: if_False arena_get_in Option.bind.simps chunk_elem_target pr Let_def prod.case option.case
          lo_def [symmetric] hi_def [symmetric] m_def [symmetric] d_def [symmetric] base_def [symmetric] option.distinct if_False)
    have "\<exists>p. write_chunk_word c off raw_word pv pu n forced a = put_elem ?net e p a
        \<and> windows ?s ?lsb n piece (elem_planes (a_buf a) ?s e) p"
    proof (cases "hi \<le> lo")
      case True
      have "\<not> (?lsb \<le> int i \<and> int i < ?lsb + int n)" if "i < sl_width ?s" for i
        using True that by (auto simp: hi_def lo_def clamp_int_def split: if_splits)
      then have "windows ?s ?lsb n piece (elem_planes (a_buf a) ?s e) (elem_planes (a_buf a) ?s e)"
        using old by (auto simp: windows_def windowed_def planes_ok_def)
      moreover have "put_elem ?net e (elem_planes (a_buf a) ?s e) a = Some (False, a)" by (simp add: put_elem_def Let_def)
      moreover have "write_chunk_word c off raw_word pv pu n forced a = Some (False, a)" using run True by simp
      ultimately show ?thesis by (intro exI [of _ "elem_planes (a_buf a) ?s e"]) simp
    next
      case False
      have "v_val piece = [pv']" "v_unk piece = [pu']" by (simp_all add: piece_def)
      from write_window_word [OF ok own e one hi_def lo_def m_def d_def base_def _ this] False show ?thesis
        using run by auto
    qed
    then have "\<exists>p. write_chunk_word c off raw_word pv pu n forced a = put_elem ?net e p a
        \<and> piece_windows ?s ?lsb n (\<lambda>i. l4 (bit pv i) (bit pu i)) (elem_planes (a_buf a) ?s e) p"
      using windows_piece [OF _ pb] by blast
    then show ?thesis unfolding Some by simp
  qed
qed

text \<open>The one-word entry is the general chunk write.\<close>

lemma word_entry_chunk:
  assumes ok: "store_ok a" and own: "owned a (ch_net c)" and pk: "piece_ok piece"
    and cw: "chunk_width a ir c = Some n" and n: "n \<le> width_max" and one: "sl_words (a_slots a ! ch_net c) = 1"
    and src: "\<And>i. i < n \<Longrightarrow> vbit piece i = l4 (bit pv i) (bit pu i)"
  shows "write_chunk_word c off raw_word pv pu n forced a = write_chunk ir c off raw_word piece forced a"
proof (cases "is_forced forced (ch_net c)")
  case True
  then show ?thesis by (simp add: write_chunk_def write_chunk_word_def)
next
  case False
  note w = write_chunk_word_put [OF ok own False one, where off = off and raw_word = raw_word and pv = pv and pu = pu and n = n]
  note g = write_chunk_put [OF ok own False pk cw n, where off = off and raw_word = raw_word]
  show ?thesis
  proof (cases "target_elem c raw_word (sl_elems (a_slots a ! ch_net c))")
    case None
    then show ?thesis using w g by simp
  next
    case (Some e)
    then obtain p where p: "write_chunk_word c off raw_word pv pu n forced a = put_elem (ch_net c) e p a"
      "piece_windows (a_slots a ! ch_net c) (chunk_lsb c off n) n (\<lambda>i. l4 (bit pv i) (bit pu i)) (elem_planes (a_buf a) (a_slots a ! ch_net c) e) p"
      using w Some by auto
    obtain q where q: "write_chunk ir c off raw_word piece forced a = put_elem (ch_net c) e q a"
      "piece_windows (a_slots a ! ch_net c) (chunk_lsb c off n) n (vbit piece) (elem_planes (a_buf a) (a_slots a ! ch_net c) e) q"
      using g Some by auto
    have "p = q" by (rule piece_windows_unique [OF p(2) q(2)]) (simp add: src)
    then show ?thesis using p(1) q(1) by simp
  qed
qed

end
