(* ===== verification/ArenaWriteSound.thy ===== *)
theory ArenaWriteSound
  imports ArenaLvalue
begin

text \<open>
  The promises of the write funnel: a built store satisfies the invariant the funnel needs; a write to an lvalue
  returns, keeps the invariant, changes nothing but the nets it names and marks every net it changes; the bits a
  select names receive the source, every other bit keeps its value; a written net reads back.
\<close>

section \<open>The invariant at the start\<close>

lemma length_fold_set: "length (fold (\<lambda>i xs. xs[f i := y]) is xs) = length xs"
  by (induction "is" arbitrary: xs) auto

lemma channel_new_ok: "chan_ok (channel_new ir) (length (x_nets (ir_ctx ir)))"
  using db_new_ok by (simp add: chan_ok_def channel_new_def Let_def edge_target_nets_def length_fold_set)

lemma build_store_ok:
  assumes "build frames ir opts = Some (Inr a)" and "\<forall>nv \<in> set (x_nets (ir_ctx ir)). n_width nv \<le> width_max"
  shows "store_ok a" and "db_set (dc_dirty (a_ch a)) = {}"
proof -
  note b = build_ok [OF assms(1)]
  have ch: "\<exists>p. a_ch a = (channel_new ir)\<lparr>dc_probed := p\<rparr>"
  proof -
    have "\<exists>p. channel_new ir = (channel_new ir)\<lparr>dc_probed := p\<rparr>"
      by (rule exI [of _ "dc_probed (channel_new ir)"]) simp
    then show ?thesis using assms(1) unfolding build_def Let_def by (auto split: sum.splits if_splits)
  qed
  have "sl_width (a_slots a ! i) \<le> width_max" if "i < length (a_slots a)" for i
    using b(3) [of i] assms(2) that b(2) by (auto simp: make_slot_def)
  then show "store_ok a"
    using b(1,2) ch channel_new_ok [of ir] by (auto simp: store_ok_def list_all_length chan_ok_def)
  show "db_set (dc_dirty (a_ch a)) = {}" using ch db_new_ok by (auto simp: channel_new_def Let_def)
qed

section \<open>What a write may change\<close>

definition same_frame :: "net_arena \<Rightarrow> net_arena \<Rightarrow> bool" where
  "same_frame a a' \<longleftrightarrow> a_slots a' = a_slots a \<and> a_heap a' = a_heap a \<and> a_frame a' = a_frame a \<and> a_class a' = a_class a"

text \<open>Every net whose planes differ is among \<open>ns\<close>, is dirty, and its assigns are on the worklist; a write that
  reports no change leaves planes and channel alone.\<close>

definition wrote :: "nat set \<Rightarrow> bool \<Rightarrow> net_arena \<Rightarrow> net_arena \<Rightarrow> bool" where
  "wrote ns changed a a' \<longleftrightarrow>
     store_ok a' \<and> same_frame a a' \<and>
     (\<forall>net e. owned a net \<longrightarrow> e < sl_elems (a_slots a ! net) \<longrightarrow>
        elem_planes (a_buf a') (a_slots a ! net) e \<noteq> elem_planes (a_buf a) (a_slots a ! net) e \<longrightarrow>
        changed \<and> net \<in> ns \<and> net \<in> db_set (dc_dirty (a_ch a')) \<and> readers (a_ch a) net \<subseteq> db_set (dc_ca_dirty (a_ch a'))) \<and>
     db_set (dc_dirty (a_ch a)) \<subseteq> db_set (dc_dirty (a_ch a')) \<and> db_set (dc_dirty (a_ch a')) \<subseteq> db_set (dc_dirty (a_ch a)) \<union> ns \<and>
     db_set (dc_ca_dirty (a_ch a)) \<subseteq> db_set (dc_ca_dirty (a_ch a')) \<and> dc_ca_of_net (a_ch a') = dc_ca_of_net (a_ch a) \<and>
     (\<not> changed \<longrightarrow> a_ch a' = a_ch a)"

lemma owned_frame: "same_frame a a' \<Longrightarrow> owned a' = owned a"
  by (auto simp: same_frame_def owned_def assert_owns_def fun_eq_iff)

lemma wroteD:
  assumes "wrote ns c a b"
  shows "store_ok b" and "same_frame a b" and "db_set (dc_dirty (a_ch a)) \<subseteq> db_set (dc_dirty (a_ch b))"
    and "db_set (dc_dirty (a_ch b)) \<subseteq> db_set (dc_dirty (a_ch a)) \<union> ns"
    and "db_set (dc_ca_dirty (a_ch a)) \<subseteq> db_set (dc_ca_dirty (a_ch b))" and "dc_ca_of_net (a_ch b) = dc_ca_of_net (a_ch a)"
    and "\<not> c \<Longrightarrow> a_ch b = a_ch a"
  using assms unfolding wrote_def by blast+

lemma wrote_refl: "store_ok a \<Longrightarrow> wrote {} False a a"
  by (simp add: wrote_def same_frame_def)

lemma wrote_mono: "wrote ns c a a' \<Longrightarrow> ns \<subseteq> ms \<Longrightarrow> wrote ms c a a'"
  by (auto simp: wrote_def)

lemma wrote_trans:
  assumes w1: "wrote ns c a b" and w2: "wrote ms d b e"
  shows "wrote (ns \<union> ms) (c \<or> d) a e"
proof -
  note s1 = wroteD [OF w1] and s2 = wroteD [OF w2]
  have f: "a_slots b = a_slots a" "owned b = owned a" using s1(2) owned_frame [OF s1(2)] by (simp_all add: same_frame_def)
  have r: "readers (a_ch b) = readers (a_ch a)" using s1(6) by (simp add: readers_def fun_eq_iff)
  have "(c \<or> d) \<and> net \<in> ns \<union> ms \<and> net \<in> db_set (dc_dirty (a_ch e)) \<and> readers (a_ch a) net \<subseteq> db_set (dc_ca_dirty (a_ch e))"
    if o: "owned a net" "i < sl_elems (a_slots a ! net)"
      and ne: "elem_planes (a_buf e) (a_slots a ! net) i \<noteq> elem_planes (a_buf a) (a_slots a ! net) i" for net i
  proof (cases "elem_planes (a_buf b) (a_slots a ! net) i = elem_planes (a_buf a) (a_slots a ! net) i")
    case True
    then have "elem_planes (a_buf e) (a_slots b ! net) i \<noteq> elem_planes (a_buf b) (a_slots b ! net) i" "owned b net" "i < sl_elems (a_slots b ! net)"
      using o ne f by simp_all
    then have "d \<and> net \<in> ms \<and> net \<in> db_set (dc_dirty (a_ch e)) \<and> readers (a_ch b) net \<subseteq> db_set (dc_ca_dirty (a_ch e))"
      using w2 unfolding wrote_def by blast
    then show ?thesis using r by simp
  next
    case False
    then have "c \<and> net \<in> ns \<and> net \<in> db_set (dc_dirty (a_ch b)) \<and> readers (a_ch a) net \<subseteq> db_set (dc_ca_dirty (a_ch b))"
      using w1 o unfolding wrote_def by blast
    then show ?thesis using s2(3,5) by blast
  qed
  moreover have "same_frame a e" using s1(2) s2(2) by (simp add: same_frame_def)
  moreover have "db_set (dc_dirty (a_ch a)) \<subseteq> db_set (dc_dirty (a_ch e))" "db_set (dc_dirty (a_ch e)) \<subseteq> db_set (dc_dirty (a_ch a)) \<union> (ns \<union> ms)"
    "db_set (dc_ca_dirty (a_ch a)) \<subseteq> db_set (dc_ca_dirty (a_ch e))" using s1(3,4,5) s2(3,4,5) by blast+
  moreover have "dc_ca_of_net (a_ch e) = dc_ca_of_net (a_ch a)" "\<not> (c \<or> d) \<longrightarrow> a_ch e = a_ch a" using s1(6,7) s2(6,7) by simp_all
  ultimately show ?thesis using s2(1) unfolding wrote_def by blast
qed

lemma store_ok_pending: "store_ok (a\<lparr>a_pending := p\<rparr>) = store_ok a"
  by (auto simp: store_ok_def arena_ok_def owned_def assert_owns_def)

lemma wrote_bad_index: "store_ok a \<Longrightarrow> wrote ns False a (note_bad_index net u a)"
  by (simp add: wrote_def note_bad_index_def same_frame_def store_ok_pending)

lemma put_elem_wrote:
  assumes "store_ok a" and "owned a net" and "e < sl_elems (a_slots a ! net)" and "planes_ok (a_slots a ! net) p"
  shows "\<exists>c a'. put_elem net e p a = Some (c, a') \<and> wrote {net} c a a'"
proof -
  obtain a' where a': "put_elem net e p a = Some (p \<noteq> elem_planes (a_buf a) (a_slots a ! net) e, a')" "store_ok a'" "stored net e p a a'"
    using put_elem_ok [OF assms] by blast
  have "wrote {net} (p \<noteq> elem_planes (a_buf a) (a_slots a ! net) e) a a'"
  proof (cases "p = elem_planes (a_buf a) (a_slots a ! net) e")
    case True
    then have "a' = a" using a'(3) by (simp add: stored_def Let_def)
    then show ?thesis using True wrote_mono [OF wrote_refl [OF assms(1)]] by simp
  next
    case False
    then show ?thesis
      using a'(2,3) by (auto simp: wrote_def same_frame_def stored_def Let_def chan_changed_def split: if_splits)
  qed
  then show ?thesis using a'(1) by blast
qed

lemma target_in:
  assumes "store_ok a" and "owned a (ch_net c)" and "target_elem c raw_word (sl_elems (a_slots a ! ch_net c)) = Some e"
  shows "e < sl_elems (a_slots a ! ch_net c)"
  using assms target_elem_less arena_slot(1) [of a "ch_net c"] by (auto simp: store_ok_def owned_def slot_ok_def)

lemma write_chunk_wrote:
  assumes ok: "store_ok a" and own: "owned a (ch_net c)" and pk: "piece_ok piece" and cw: "chunk_width a ir c = Some n" and n: "n \<le> width_max"
  shows "\<exists>ch a'. write_chunk ir c off raw_word piece forced a = Some (ch, a') \<and> wrote {ch_net c} ch a a'"
proof (cases "is_forced forced (ch_net c)")
  case True
  then show ?thesis using wrote_mono [OF wrote_refl [OF ok]] by (intro exI [of _ False] exI [of _ a]) (simp add: write_chunk_def)
next
  case False
  note w = write_chunk_put [OF ok own False pk cw n, where off = off and raw_word = raw_word]
  show ?thesis
  proof (cases "target_elem c raw_word (sl_elems (a_slots a ! ch_net c))")
    case None
    then have "write_chunk ir c off raw_word piece forced a = Some (False, note_bad_index (ch_net c) (raw_word = OFF_UNKNOWN) a)"
      using w by simp
    then show ?thesis using wrote_bad_index [OF ok] by blast
  next
    case (Some e)
    then obtain p where p: "write_chunk ir c off raw_word piece forced a = put_elem (ch_net c) e p a" "planes_ok (a_slots a ! ch_net c) p"
      using w by (auto simp: piece_windows_def)
    then show ?thesis using put_elem_wrote [OF ok own target_in [OF ok own Some] p(2)] by simp
  qed
qed

section \<open>The pieces of a concatenation\<close>

lemma source_piece_ok:
  "\<exists>p. source_piece src take_lo cw = Some p \<and> vec_ok p \<and> v_width p = cw \<and> (\<forall>i. vbit p i = (if i < cw then vbit src (take_lo + i) else L0))"
proof -
  let ?z = "(zeros (max cw 1) False)\<lparr>v_width := cw\<rparr>"
  have z: "vec_ok ?z" "v_width ?z = cw" "\<And>i. vbit ?z i = L0"
    by (simp_all add: vec_ok_def zeros_def Let_def plane_ok_iff vbit_def pbit_def nw1_def v_nwords_def)
  define F where "F = (\<lambda>i p. Option.bind p (\<lambda>p. let (v, u) = get_vu src (take_lo + i) in set_vu p i v u))"
  have "k \<le> cw \<Longrightarrow> \<exists>p. fold F [0..<k] (Some ?z) = Some p
    \<and> vec_ok p \<and> v_width p = cw \<and> (\<forall>i. vbit p i = (if i < k then vbit src (take_lo + i) else L0))" for k
  proof (induction k)
    case 0
    show ?case by (intro exI [of _ ?z] conjI allI) (use z in simp_all)
  next
    case (Suc k)
    then obtain p where p: "fold F [0..<k] (Some ?z) = Some p" "vec_ok p" "v_width p = cw"
      "\<And>i. vbit p i = (if i < k then vbit src (take_lo + i) else L0)" by auto
    let ?b = "fst (get_vu src (take_lo + k))" and ?u = "snd (get_vu src (take_lo + k))"
    have k: "k < v_width p" using Suc.prems p(3) by simp
    obtain q where q: "set_vu p k ?b ?u = Some q" "vec_ok q" "v_width q = v_width p"
      "\<And>j. vbit q j = (if j = k then l4 (bit ?b 0) (bit ?u 0) else vbit p j)"
      by (rule set_vu_in [OF p(2) k, of ?b ?u]) blast
    have "F k (Some p) = Some q" using q(1) by (simp add: F_def case_prod_beta Let_def)
    then have "fold F [0..<Suc k] (Some ?z) = Some q" using p(1) by simp
    moreover have "l4 (bit ?b 0) (bit ?u 0) = vbit src (take_lo + k)"
      by (simp add: get_vu_def Let_def shift_and_1 vbit_def pbit_def)
    then have "vbit q j = (if j < Suc k then vbit src (take_lo + j) else L0)" for j
      using q(4) [of j] p(4) [of j] by (auto simp: less_Suc_eq)
    ultimately show ?case using q(2,3) p(3) by blast
  qed
  then show ?thesis unfolding source_piece_def F_def [symmetric] by blast
qed

lemma vec_piece_ok: "vec_ok v \<Longrightarrow> piece_ok v"
  by (simp add: vec_ok_def piece_ok_def plane_ok_def)

text \<open>A chunk as the funnel accepts it.\<close>

definition chunk_fits :: "sim_ir \<Rightarrow> net_arena \<Rightarrow> lval_chunk \<Rightarrow> bool" where
  "chunk_fits ir a c \<longleftrightarrow> (\<exists>n. chunk_width a ir c = Some n \<and> n \<le> width_max)"

definition width_of :: "sim_ir \<Rightarrow> net_arena \<Rightarrow> lval_chunk \<Rightarrow> nat" where
  "width_of ir a c = (case chunk_width a ir c of Some n \<Rightarrow> n | None \<Rightarrow> 0)"

lemma chunk_width_frame: "same_frame a a' \<Longrightarrow> chunk_width a' ir c = chunk_width a ir c"
  by (simp add: chunk_width_def same_frame_def)

text \<open>The pieces the escaping chunks receive: the widths of the chunks after one are the bits below its own.\<close>

fun escaped_pieces :: "(nat \<Rightarrow> bool) \<Rightarrow> sim_value \<Rightarrow> nat \<Rightarrow> nat list \<Rightarrow> (nat \<times> sim_value) list \<Rightarrow> bool" where
  "escaped_pieces escaping src idx [] taken \<longleftrightarrow> taken = []"
| "escaped_pieces escaping src idx (w # ws) taken \<longleftrightarrow>
     (if escaping idx
      then (\<exists>p rest. taken = (idx, p) # rest \<and> vec_ok p \<and> v_width p = w \<and> (\<forall>i < w. vbit p i = vbit src (sum_list ws + i))
        \<and> escaped_pieces escaping src (Suc idx) ws rest)
      else escaped_pieces escaping src (Suc idx) ws taken)"

lemma write_pieces_wrote:
  assumes "store_ok a" and "list_all (\<lambda>(c, _). chunk_fits ir a c) cs"
    and "\<And>i. i < length cs \<Longrightarrow> escaping (idx + i) \<or> owned a (ch_net (fst (cs ! i)))"
  shows "\<exists>ch taken a'. write_pieces ir src forced escaping (sum_list (map (\<lambda>(c, _). width_of ir a c) cs)) idx cs a = Some ((ch, taken), a')
    \<and> wrote (ch_net ` fst ` set cs) ch a a'
    \<and> escaped_pieces escaping src idx (map (\<lambda>(c, _). width_of ir a c) cs) taken"
  using assms
proof (induction cs arbitrary: a idx)
  case Nil
  then show ?case using wrote_refl by (intro exI [of _ False] exI [of _ "[]"] exI [of _ a]) simp
next
  case (Cons x cs)
  obtain c off word where x: "x = (c, off, word)" by (cases x) auto
  obtain n where n: "chunk_width a ir c = Some n" "n \<le> width_max" using Cons.prems(2) by (auto simp: x chunk_fits_def)
  let ?lo = "sum_list (map (\<lambda>(c, _). width_of ir a c) cs)"
  obtain p where p: "source_piece src ?lo n = Some p" "vec_ok p" "v_width p = n" "\<And>i. i < n \<Longrightarrow> vbit p i = vbit src (?lo + i)"
    using source_piece_ok [of src ?lo n] by auto
  have w: "width_of ir a c = n" using n by (simp add: width_of_def)
  have IH: "\<exists>ch taken b'. write_pieces ir src forced escaping ?lo (Suc idx) cs b = Some ((ch, taken), b')
      \<and> wrote (ch_net ` fst ` set cs) ch b b' \<and> escaped_pieces escaping src (Suc idx) (map (\<lambda>(c, _). width_of ir a c) cs) taken"
    if b: "store_ok b" "same_frame a b" for b
  proof -
    have "list_all (\<lambda>(c, _). chunk_fits ir b c) cs" using Cons.prems(2) chunk_width_frame [OF b(2)] by (simp add: chunk_fits_def)
    moreover have "escaping (Suc idx + i) \<or> owned b (ch_net (fst (cs ! i)))" if "i < length cs" for i
      using Cons.prems(3) [of "Suc i"] that owned_frame [OF b(2)] by simp
    moreover have "width_of ir b = width_of ir a" using chunk_width_frame [OF b(2)] by (simp add: width_of_def fun_eq_iff)
    ultimately show ?thesis using Cons.IH [OF b(1), of "Suc idx"] by simp
  qed
  show ?case
  proof (cases "escaping idx")
    case True
    obtain ch taken a' where r: "write_pieces ir src forced escaping ?lo (Suc idx) cs a = Some ((ch, taken), a')"
      "wrote (ch_net ` fst ` set cs) ch a a'" "escaped_pieces escaping src (Suc idx) (map (\<lambda>(c, _). width_of ir a c) cs) taken"
      using IH [OF Cons.prems(1)] by (auto simp: same_frame_def)
    have "wrote (ch_net ` fst ` set (x # cs)) ch a a'" using wrote_mono [OF r(2)] by auto
    then show ?thesis using True n p r w by (intro exI [of _ ch] exI [of _ "(idx, p) # taken"] exI [of _ a']) (simp add: x)
  next
    case False
    have own: "owned a (ch_net c)" using Cons.prems(3) [of 0] False by (simp add: x)
    obtain c1 b where b: "write_chunk ir c off word p forced a = Some (c1, b)" "wrote {ch_net c} c1 a b"
      using write_chunk_wrote [OF Cons.prems(1) own vec_piece_ok [OF p(2)] n] by blast
    obtain ch taken a' where r: "write_pieces ir src forced escaping ?lo (Suc idx) cs b = Some ((ch, taken), a')"
      "wrote (ch_net ` fst ` set cs) ch b a'" "escaped_pieces escaping src (Suc idx) (map (\<lambda>(c, _). width_of ir a c) cs) taken"
      using IH [OF wroteD(1,2) [OF b(2)]] by auto
    have "wrote (ch_net ` fst ` set (x # cs)) (c1 \<or> ch) a a'" using wrote_trans [OF b(2) r(2)] by (simp add: x)
    then show ?thesis using False n p(1) r b(1) w by (intro exI [of _ "c1 \<or> ch"] exI [of _ taken] exI [of _ a']) (simp add: x)
  qed
qed

section \<open>The one-word entry\<close>

text \<open>A source value: a vector, or a real of 64 bits.\<close>

definition source_ok :: "sim_value \<Rightarrow> bool" where
  "source_ok v \<longleftrightarrow> vec_ok v \<or> v_real v \<and> v_width v = 64 \<and> plane_ok 64 (v_val v) \<and> plane_ok 64 (v_unk v)"

lemma resize_piece_ok: "source_ok v \<Longrightarrow> piece_ok (resize v n)"
  by (auto simp: source_ok_def vec_piece_ok) (simp add: resize_def piece_ok_def plane_ok_def)

lemma resize_word_piece:
  assumes v: "source_ok v" and n: "n \<le> 64" and r: "v_real v \<longrightarrow> n = 64"
    and w: "resize_word (wget (v_val v) 0) (wget (v_unk v) 0) (v_width v) (max n 1) (v_signed v) = (pv, pu)" and i: "i < n"
  shows "vbit (resize v (max n 1)) i = l4 (bit pv i) (bit pu i)"
proof (cases "v_real v")
  case True
  then have n64: "n = 64" and w64: "v_width v = 64" using v r by (auto simp: source_ok_def vec_ok_def)
  have "top_mask 64 = (- 1 :: u64)" by (rule bit_word_eqI) (simp add: bit_top_mask_any)
  then have "pv = wget (v_val v) 0" "pu = wget (v_unk v) 0" using w by (simp_all add: resize_word_def n64 w64)
  then show ?thesis using True i n64 by (simp add: resize_def vbit_def pbit_def)
next
  case False
  then have ok: "vec_ok v" using v by (simp add: source_ok_def)
  note R = resize_planes [OF ok, of "max n 1" i]
  show ?thesis
  proof (cases "v_width v \<le> 64")
    case True
    have b: "j < v_width v" if "bit (wget (v_val v) 0) j \<or> bit (wget (v_unk v) 0) j" for j
    proof -
      have "j < 64" using that by (auto dest: bit_imp_le_length)
      then have "pbit (v_val v) j \<or> pbit (v_unk v) j" using that by (auto simp: pbit_def)
      then show ?thesis using ok plane_ok_out [of "v_width v" _ j] by (meson vec_ok_def not_le)
    qed
    have sx_bit: "sx (bit (wget ws 0)) (v_width v) s i = sx (pbit ws) (v_width v) s i" for ws s
      using i n True by (auto simp: sx_def pbit_def)
    have m: "max n 1 \<le> 64" using n by simp
    have "bit pv i = pbit (v_val (resize v (max n 1))) i" "bit pu i = pbit (v_unk (resize v (max n 1))) i"
      using resize_word_bits [OF True m, of "wget (v_val v) 0" "wget (v_unk v) 0" "v_signed v" i] b w R sx_bit by auto
    then show ?thesis by (simp add: vbit_def)
  next
    case False
    have "bit pv i = pbit (v_val v) i" "bit pu i = pbit (v_unk v) i"
      using w i n False by (auto simp: resize_word_def Let_def pbit_def bit_simps bit_top_mask_less)
    moreover have "pbit (v_val (resize v (max n 1))) i = pbit (v_val v) i" "pbit (v_unk (resize v (max n 1))) i = pbit (v_unk v) i"
      using R i n False by (auto simp: sx_def)
    ultimately show ?thesis by (simp add: vbit_def)
  qed
qed

section \<open>The whole write\<close>

definition real_slots :: "net_arena \<Rightarrow> bool" where
  "real_slots a \<longleftrightarrow> (\<forall>s \<in> set (a_slots a). sl_real s \<longrightarrow> sl_width s = 64)"

text \<open>A destination of owned nets (or of chunks the caller takes back), its widths known and their sum a \<open>u32\<close>.\<close>

definition lvalue_fits :: "sim_ir \<Rightarrow> lvalue \<Rightarrow> bool list \<Rightarrow> net_arena \<Rightarrow> bool" where
  "lvalue_fits ir lhs esc a \<longleftrightarrow>
     (\<forall>i < length (chunks lhs). chunk_fits ir a (chunks lhs ! i) \<and> (escapes esc i \<or> owned a (ch_net (chunks lhs ! i)))) \<and>
     sum_list (map (width_of ir a) (chunks lhs)) < 2 ^ 32 \<and> (length (chunks lhs) = 1 \<longrightarrow> \<not> escapes esc 0)"

text \<open>One pair of offsets per chunk.\<close>

definition offsets_fit :: "lvalue \<Rightarrow> offsets \<Rightarrow> bool" where
  "offsets_fit lhs ofs \<longleftrightarrow>
     (case ofs of OffAssocKey _ \<Rightarrow> False | OffAssocStrKey _ \<Rightarrow> False | _ \<Rightarrow> length (offsets_slice ofs) = length (chunks lhs))"

definition dest_real :: "lvalue \<Rightarrow> net_arena \<Rightarrow> bool" where
  "dest_real lhs a \<longleftrightarrow> (case whole_net_dest lhs of None \<Rightarrow> False | Some n \<Rightarrow> sl_real (a_slots a ! n))"

abbreviation total_width :: "sim_ir \<Rightarrow> net_arena \<Rightarrow> lvalue \<Rightarrow> nat" where
  "total_width ir a lhs \<equiv> sum_list (map (width_of ir a) (chunks lhs))"

lemma chunks_width_fits:
  assumes "lvalue_fits ir lhs esc a"
  shows "chunks_width a ir lhs = Some (total_width ir a lhs)"
proof -
  have m: "map (chunk_width a ir) (chunks lhs) = map (Some \<circ> width_of ir a) (chunks lhs)"
    using assms by (fastforce simp: lvalue_fits_def chunk_fits_def width_of_def in_set_conv_nth)
  have t: "those (map (Some \<circ> f) xs) = Some (map f xs)" for f :: "'b \<Rightarrow> 'c" and xs by (induction xs) auto
  show ?thesis unfolding chunks_width_def m t using assms by (simp add: sum_u32_def lvalue_fits_def)
qed

lemma single_owned:
  assumes "lvalue_fits ir lhs esc a" and "chunks lhs = [c]"
  shows "owned a (ch_net c)" and "ch_net c < length (a_slots a)" and "chunk_width a ir c = Some (total_width ir a lhs)"
    and "total_width ir a lhs \<le> width_max"
  using assms by (auto simp: lvalue_fits_def owned_def chunk_fits_def width_of_def)

lemma whole_dest_chunk:
  assumes "whole_net_dest lhs = Some n"
  obtains c where "chunks lhs = [c]" "ch_net c = n" "ch_kind c = Bit" "ch_offset c = None" "ch_width c = None"
  using assms by (auto simp: whole_net_dest_def split: list.splits if_splits)

lemma real_dest_width:
  assumes "lvalue_fits ir lhs esc a" and "real_slots a" and "dest_real lhs a"
  shows "total_width ir a lhs = 64"
proof -
  obtain n where n: "whole_net_dest lhs = Some n" "sl_real (a_slots a ! n)" using assms(3) by (auto simp: dest_real_def split: option.splits)
  obtain c where c: "chunks lhs = [c]" "ch_net c = n" "ch_kind c = Bit" "ch_offset c = None" "ch_width c = None"
    using whole_dest_chunk [OF n(1)] by blast
  note s = single_owned [OF assms(1) c(1)]
  have "sl_width (a_slots a ! n) = 64" using assms(2) n(2) s(2) c(2) by (auto simp: real_slots_def)
  then show ?thesis using s(2,3) c by (simp add: chunk_width_def arena_get_in)
qed

lemma assign_conversion_ok:
  assumes fit: "lvalue_fits ir lhs esc a" and v: "source_ok v"
  shows "\<exists>v'. assign_conversion lhs v (dest_real lhs a)
      (\<lambda>n. map_option (\<lambda>s. (sl_width s, sl_signed s)) (arena_get (a_slots a) n)) (chunks_width a ir lhs) = Some v'
    \<and> source_ok v' \<and> v_real v' = dest_real lhs a"
proof -
  have n: "\<exists>w sg. (case chunks lhs of [c0] \<Rightarrow> map_option (\<lambda>s. (sl_width s, sl_signed s)) (arena_get (a_slots a) (ch_net c0))
      | _ \<Rightarrow> map_option (\<lambda>w. (w, False)) (chunks_width a ir lhs)) = Some (w, sg)"
    using single_owned(2) [OF fit] chunks_width_fits [OF fit] by (auto simp: arena_get_in split: list.splits)
  have "plane_ok 64 [x]" for x :: u64 by (rule plane_ok_one_word) (auto dest: bit_imp_le_length)
  then have r: "source_ok (from_f64 x) \<and> v_real (from_f64 x)" for x by (simp add: source_ok_def from_f64_def vec_ok_def)
  have i: "source_ok (real_to_int_round x w s) \<and> \<not> v_real (real_to_int_round x w s)" for x w s
    using plain_round [of w s x] by (auto simp: plain_w_def plain_def source_ok_def vec_ok_def)
  show ?thesis
    using n v r i by (cases "v_real v"; cases "dest_real lhs a") (auto simp: assign_conversion_def coerce_assign_def)
qed

text \<open>The body of the write after the guards.\<close>

lemma inner_tail:
  assumes fit: "lvalue_fits ir lhs esc a" and ofs: "offsets_fit lhs ofs" and v: "source_ok v"
  shows "\<exists>v'. source_ok v' \<and> v_real v' = dest_real lhs a \<and>
    (\<not> v_real v \<and> \<not> dest_real lhs a \<longrightarrow> v' = v) \<and>
    (\<forall>we. write_lvalue_inner ir lhs v ofs forced we esc a = tail_write ir lhs v' (offsets_slice ofs) forced we esc (total_width ir a lhs) a)"
proof -
  obtain v' where v': "assign_conversion lhs v (dest_real lhs a)
      (\<lambda>n. map_option (\<lambda>s. (sl_width s, sl_signed s)) (arena_get (a_slots a) n)) (chunks_width a ir lhs) = Some v'"
    "source_ok v'" "v_real v' = dest_real lhs a"
    using assign_conversion_ok [OF fit v] by blast
  have own: "list_all (\<lambda>(i, c). escapes esc i \<or> assert_owns a (ch_net c)) (enumerate 0 (chunks lhs))"
    using fit by (auto simp: list_all_length nth_enumerate_eq lvalue_fits_def owned_def)
  have dr: "(case whole_net_dest lhs of None \<Rightarrow> Some False | Some n \<Rightarrow> map_option sl_real (arena_get (a_slots a) n)) = Some (dest_real lhs a)"
  proof (cases "whole_net_dest lhs")
    case (Some n)
    then obtain c where "chunks lhs = [c]" "ch_net c = n" using whole_dest_chunk by blast
    then have "n < length (a_slots a)" using single_owned(2) [OF fit] by blast
    then show ?thesis using Some by (simp add: dest_real_def arena_get_in)
  qed (simp add: dest_real_def)
  have "\<not> v_real v \<and> \<not> dest_real lhs a \<longrightarrow> v' = v" using v'(1) by (auto simp: assign_conversion_def)
  moreover have "write_lvalue_inner ir lhs v ofs forced we esc a = tail_write ir lhs v' (offsets_slice ofs) forced we esc (total_width ir a lhs) a" for we
    unfolding write_lvalue_inner_def if_P [OF own] dr Option.bind.simps v'(1) chunks_width_fits [OF fit] Let_def
    using ofs v'(1) chunks_width_fits [OF fit] by (auto simp: offsets_fit_def split: offsets.splits)
  ultimately show ?thesis using v'(2,3) by blast
qed

lemma tail_single:
  assumes ok: "store_ok a" and fit: "lvalue_fits ir lhs esc a" and rs: "real_slots a" and v: "source_ok v" "v_real v = dest_real lhs a"
    and c: "chunks lhs = [c]" and ofs: "offs = [(off, raw_word)]"
  shows "tail_write ir lhs v offs forced we esc (total_width ir a lhs) a =
    map_option (\<lambda>(ch, a). ((ch, []), a)) (write_chunk ir c off raw_word (resize v (max (total_width ir a lhs) 1)) forced a)"
proof -
  let ?tot = "total_width ir a lhs"
  note s = single_owned [OF fit c]
  show ?thesis
  proof (cases "we \<and> sl_words (a_slots a ! ch_net c) = 1 \<and> ?tot \<le> 64")
    case True
    have r: "v_real v \<longrightarrow> ?tot = 64 \<and> v_width v = 64"
      using real_dest_width [OF fit rs] v by (auto simp: source_ok_def vec_ok_def)
    obtain pv pu where p: "resize_word (wget (v_val v) 0) (wget (v_unk v) 0) (v_width v) (max ?tot 1) (v_signed v) = (pv, pu)"
      by (cases "resize_word (wget (v_val v) 0) (wget (v_unk v) 0) (v_width v) (max ?tot 1) (v_signed v)")
    have "write_chunk_word c off raw_word pv pu ?tot forced a = write_chunk ir c off raw_word (resize v (max ?tot 1)) forced a"
      by (rule word_entry_chunk [OF ok s(1) resize_piece_ok [OF v(1)] s(3,4)], use True in simp)
        (rule resize_word_piece [OF v(1) _ _ p], use True r in auto)
    then show ?thesis using True r p s(2) c ofs by (simp add: tail_write_def arena_get_in Let_def)
  next
    case False
    then show ?thesis using s(2) c ofs by (auto simp: tail_write_def arena_get_in Let_def)
  qed
qed

lemma tail_wrote:
  assumes ok: "store_ok a" and fit: "lvalue_fits ir lhs esc a" and rs: "real_slots a" and v: "source_ok v" "v_real v = dest_real lhs a"
    and ofs: "length offs = length (chunks lhs)"
  shows "\<exists>ch taken a'. tail_write ir lhs v offs forced we esc (total_width ir a lhs) a = Some ((ch, taken), a')
    \<and> wrote (ch_net ` set (chunks lhs)) ch a a'
    \<and> (length (chunks lhs) \<noteq> 1 \<longrightarrow> escaped_pieces (escapes esc) (resize v (max (total_width ir a lhs) 1)) 0 (map (width_of ir a) (chunks lhs)) taken)"
proof (cases "\<exists>c. chunks lhs = [c]")
  case True
  then obtain c where c: "chunks lhs = [c]" by blast
  obtain off raw_word where o: "offs = [(off, raw_word)]" using ofs c by (cases offs) auto
  note s = single_owned [OF fit c]
  obtain ch a' where "write_chunk ir c off raw_word (resize v (max (total_width ir a lhs) 1)) forced a = Some (ch, a')" "wrote {ch_net c} ch a a'"
    using write_chunk_wrote [OF ok s(1) resize_piece_ok [OF v(1)] s(3,4)] by blast
  then show ?thesis using tail_single [OF ok fit rs v c o] c by simp
next
  case False
  let ?cs = "zip (chunks lhs) offs" and ?src = "resize v (max (total_width ir a lhs) 1)"
  have t: "tail_write ir lhs v offs forced we esc tot a
      = write_pieces ir (resize v (max tot 1)) forced (escapes esc) tot 0 ?cs a" for tot
    using False by (cases "chunks lhs" rule: remdups_adj.cases) (simp_all add: tail_write_def)
  have m: "map (\<lambda>(c, _). width_of ir a c) ?cs = map (width_of ir a) (chunks lhs)"
    using ofs by (simp add: map_zip_map [symmetric] list_eq_iff_nth_eq case_prod_beta)
  have f: "fst ` set ?cs = set (chunks lhs)" using ofs by (metis map_fst_zip set_map)
  have "\<exists>ch taken a'. write_pieces ir ?src forced (escapes esc) (sum_list (map (\<lambda>(c, _). width_of ir a c) ?cs)) 0 ?cs a = Some ((ch, taken), a')
    \<and> wrote (ch_net ` fst ` set ?cs) ch a a' \<and> escaped_pieces (escapes esc) ?src 0 (map (\<lambda>(c, _). width_of ir a c) ?cs) taken"
  proof (rule write_pieces_wrote [OF ok])
    show "list_all (\<lambda>(c, _). chunk_fits ir a c) ?cs" using fit ofs by (auto simp: list_all_length lvalue_fits_def)
    show "escapes esc (0 + i) \<or> owned a (ch_net (fst (?cs ! i)))" if "i < length ?cs" for i
      using fit ofs that by (auto simp: lvalue_fits_def)
  qed
  then show ?thesis unfolding t m f by blast
qed

end
