(* ===== verification/SelectWrite.thy ===== *)
theory SelectWrite
  imports ArenaWriteSound Selects
begin

text \<open>
  The bits a write stores, said with the positions the language gives a select (\<open>Selects\<close>) instead of the low bit and
  mask the funnel computes: which bit of which element the \<open>k\<close>-th bit of a chunk lands on, and what a list of chunks,
  each with its slice of one source, leaves in every bit of the store.
\<close>

section \<open>Where a bit lands\<close>

text \<open>The size a chunk asks for: its folded width, and the width of the net where it has none.\<close>

definition chunk_size :: "sim_ir \<Rightarrow> net_arena \<Rightarrow> lval_chunk \<Rightarrow> nat" where
  "chunk_size ir a c =
     (case ch_width c of
        None \<Rightarrow> sl_width (a_slots a ! ch_net c)
      | Some e \<Rightarrow> (case const_u32_of_expr_ctx (ir_ctx ir) e of
                     Some (Some w) \<Rightarrow> w
                   | _ \<Rightarrow> sl_width (a_slots a ! ch_net c)))"

text \<open>The positions a chunk names in its net, least significant first; the offset is a 32-bit two's complement.\<close>

definition chunk_names :: "sim_ir \<Rightarrow> net_arena \<Rightarrow> lval_chunk \<Rightarrow> u32 \<Rightarrow> int list" where
  "chunk_names ir a c off =
     (if ch_kind c = Bit \<and> ch_offset c = None \<and> ch_width c = None
      then map int [0..<sl_width (a_slots a ! ch_net c)]
      else named_bits (ch_kind c) (sint off) (chunk_size ir a c))"

text \<open>Bit \<open>k\<close> of a chunk is stored at bit \<open>p\<close> of element \<open>e\<close> of \<open>net\<close>.\<close>

definition lands ::
  "sim_ir \<Rightarrow> net_arena \<Rightarrow> bool list \<Rightarrow> lval_chunk \<times> u32 \<times> u32 \<Rightarrow> nat \<Rightarrow> nat \<Rightarrow> nat \<Rightarrow> nat \<Rightarrow> bool" where
  "lands ir a forced x k net e p \<longleftrightarrow>
     (case x of (c, off, word) \<Rightarrow>
        \<not> is_forced forced net \<and> ch_net c = net \<and> target_elem c word (sl_elems (a_slots a ! net)) = Some e \<and>
        k < length (chunk_names ir a c off) \<and> chunk_names ir a c off ! k = int p)"

abbreviation chunk_len :: "sim_ir \<Rightarrow> net_arena \<Rightarrow> lval_chunk \<times> u32 \<times> u32 \<Rightarrow> nat" where
  "chunk_len ir a x \<equiv> length (chunk_names ir a (fst x) (fst (snd x)))"

text \<open>Every bit of the store after the chunks \<open>cs\<close>, most significant first, got their slices of \<open>src\<close>: a bit some chunk
  names holds the source bit of the last chunk that names it, read 2-state where the net is; every other bit is as it was.\<close>

definition slices_stored ::
  "sim_ir \<Rightarrow> bool list \<Rightarrow> (nat \<Rightarrow> bool) \<Rightarrow> sim_value \<Rightarrow> (lval_chunk \<times> u32 \<times> u32) list \<Rightarrow> net_arena \<Rightarrow> net_arena \<Rightarrow> bool" where
  "slices_stored ir forced escaping src cs a a' \<longleftrightarrow>
     (\<forall>net e p. owned a net \<and> e < sl_elems (a_slots a ! net) \<and> p < sl_width (a_slots a ! net) \<longrightarrow>
        (\<forall>i k. i < length cs \<and> \<not> escaping i \<and> lands ir a forced (cs ! i) k net e p
             \<and> (\<forall>j m. i < j \<and> j < length cs \<and> \<not> escaping j \<longrightarrow> \<not> lands ir a forced (cs ! j) m net e p) \<longrightarrow>
           vbit (elem_value a' net e) p =
             ts_bit (sl_two_state (a_slots a ! net)) (vbit src (sum_list (map (chunk_len ir a) (drop (Suc i) cs)) + k)))
        \<and> ((\<forall>i k. i < length cs \<and> \<not> escaping i \<longrightarrow> \<not> lands ir a forced (cs ! i) k net e p) \<longrightarrow>
           vbit (elem_value a' net e) p = vbit (elem_value a net e) p))"

lemma slices_bit:
  assumes "slices_stored ir forced escaping src cs a a'"
    and "owned a net" and "e < sl_elems (a_slots a ! net)" and "p < sl_width (a_slots a ! net)"
    and "i < length cs" and "\<not> escaping i" and "lands ir a forced (cs ! i) k net e p"
    and "\<And>j m. i < j \<Longrightarrow> j < length cs \<Longrightarrow> \<not> lands ir a forced (cs ! j) m net e p"
  shows "vbit (elem_value a' net e) p =
    ts_bit (sl_two_state (a_slots a ! net)) (vbit src (sum_list (map (chunk_len ir a) (drop (Suc i) cs)) + k))"
  using assms unfolding slices_stored_def by blast

section \<open>The names are the window of the funnel\<close>

lemma chunk_names_window:
  assumes "chunk_width a ir c = Some n"
  shows "chunk_names ir a c off = map (\<lambda>k. chunk_lsb c off n + int k) [0..<n]"
proof -
  have s: "ch_net c < length (a_slots a)" using assms by (auto simp: chunk_width_def arena_get_def split: if_splits)
  show ?thesis
  proof (cases "ch_kind c = Bit \<and> ch_offset c = None \<and> ch_width c = None")
    case True
    then show ?thesis using assms s by (simp add: chunk_names_def chunk_width_def chunk_lsb_def arena_get_in)
  next
    case False
    have "length (named_bits (ch_kind c) (sint off) (chunk_size ir a c)) = n"
    proof (cases "ch_kind c = Bit")
      case True
      then show ?thesis using assms False unfolding chunk_width_def arena_get_in [OF s] by (simp add: length_named_bits split: if_splits)
    next
      case nb: False
      show ?thesis
      proof (cases "ch_width c")
        case None
        then show ?thesis using assms nb unfolding chunk_width_def chunk_size_def arena_get_in [OF s] by (simp add: length_named_bits)
      next
        case (Some e)
        then show ?thesis using assms nb unfolding chunk_width_def chunk_size_def arena_get_in [OF s]
          by (cases "const_u32_of_expr_ctx (ir_ctx ir) e") (auto simp: length_named_bits split: option.splits)
      qed
    qed
    note n = this
    have w: "ch_kind c \<noteq> Bit \<Longrightarrow> chunk_size ir a c = n" using n by (simp add: length_named_bits)
    have e: "chunk_names ir a c off = named_bits (ch_kind c) (sint off) (chunk_size ir a c)"
      using False by (simp only: chunk_names_def if_False)
    have l: "chunk_lsb c off n = (if ch_kind c = PartIdxDown then sint off - int n + 1 else sint off)"
      using False by (cases "ch_kind c") (auto simp: chunk_lsb_def)
    have "named_bits (ch_kind c) (sint off) (chunk_size ir a c) ! k = chunk_lsb c off n + int k" if "k < n" for k
      using nth_named_bits [of k "ch_kind c" "sint off" "chunk_size ir a c"] that n w unfolding l by (simp split: if_splits)
    then show ?thesis unfolding e by (intro nth_equalityI) (simp_all add: n)
  qed
qed

lemma length_chunk_names:
  assumes "chunk_fits ir a c"
  shows "length (chunk_names ir a c off) = width_of ir a c"
proof -
  obtain n where n: "chunk_width a ir c = Some n" using assms by (auto simp: chunk_fits_def)
  show ?thesis unfolding chunk_names_window [OF n] by (simp add: width_of_def n)
qed

lemma chunk_names_frame:
  assumes "same_frame a b"
  shows "chunk_names ir b = chunk_names ir a"
proof (intro ext)
  have s: "a_slots b = a_slots a" using assms by (simp add: same_frame_def)
  show "chunk_names ir b c off = chunk_names ir a c off" for c off
    unfolding chunk_names_def chunk_size_def s by (rule refl)
qed

lemma lands_frame:
  assumes "same_frame a b"
  shows "lands ir b = lands ir a"
proof (intro ext)
  have s: "a_slots b = a_slots a" using assms by (simp add: same_frame_def)
  show "lands ir b forced x k net e p = lands ir a forced x k net e p" for forced x k net e p
    unfolding lands_def chunk_names_frame [OF assms] s by (rule refl)
qed

lemma elem_bits: "l4 (pbit (fst (elem_planes (a_buf a) (a_slots a ! net) e)) i) (pbit (snd (elem_planes (a_buf a) (a_slots a ! net) e)) i) = vbit (elem_value a net e) i"
  by (simp add: elem_value_def Let_def vbit_def)

text \<open>One chunk.\<close>

lemma stored_lands:
  assumes fit: "chunk_width a ir c = Some n" and nf: "\<not> is_forced forced (ch_net c)"
    and e: "target_elem c word (sl_elems (a_slots a ! ch_net c)) = Some e"
    and st: "stored (ch_net c) e p a a'"
    and pw: "piece_windows (a_slots a ! ch_net c) (chunk_lsb c off n) n (vbit piece) (elem_planes (a_buf a) (a_slots a ! ch_net c) e) p"
    and o: "owned a net" "e' < sl_elems (a_slots a ! net)" "q < sl_width (a_slots a ! net)"
  shows "lands ir a forced (c, off, word) k net e' q \<Longrightarrow> vbit (elem_value a' net e') q = ts_bit (sl_two_state (a_slots a ! net)) (vbit piece k)"
    and "(\<And>k. \<not> lands ir a forced (c, off, word) k net e' q) \<Longrightarrow> vbit (elem_value a' net e') q = vbit (elem_value a net e') q"
proof -
  note ns = chunk_names_window [OF fit, of off]
  have sl: "a_slots a' = a_slots a" using st by (simp add: stored_def)
  have pl: "elem_planes (a_buf a') (a_slots a ! net) e' = (if net = ch_net c \<and> e' = e then p else elem_planes (a_buf a) (a_slots a ! net) e')"
    using st o unfolding stored_def by blast
  have b: "vbit (elem_value a' net e') q = (if net = ch_net c \<and> e' = e
      then (if chunk_lsb c off n \<le> int q \<and> int q < chunk_lsb c off n + int n
            then ts_bit (sl_two_state (a_slots a ! net)) (vbit piece (nat (int q - chunk_lsb c off n))) else vbit (elem_value a net e') q)
      else vbit (elem_value a net e') q)"
    using pw o(3) elem_bits [of a' net e' q] elem_bits [of a net e' q] by (auto simp: pl sl piece_windows_def)
  show "vbit (elem_value a' net e') q = ts_bit (sl_two_state (a_slots a ! net)) (vbit piece k)" if "lands ir a forced (c, off, word) k net e' q"
  proof -
    have l: "net = ch_net c" "e' = e" "k < n" "int q = chunk_lsb c off n + int k" using that e by (auto simp: lands_def ns)
    then have "nat (int q - chunk_lsb c off n) = k" by simp
    then show ?thesis using b l by simp
  qed
  show "vbit (elem_value a' net e') q = vbit (elem_value a net e') q" if no: "\<And>k. \<not> lands ir a forced (c, off, word) k net e' q"
  proof (rule ccontr)
    assume "vbit (elem_value a' net e') q \<noteq> vbit (elem_value a net e') q"
    then have "net = ch_net c" "e' = e" "chunk_lsb c off n \<le> int q" "int q < chunk_lsb c off n + int n"
      using b by (auto split: if_splits)
    then have "lands ir a forced (c, off, word) (nat (int q - chunk_lsb c off n)) net e' q"
      using nf e by (simp add: lands_def ns nat_less_iff)
    then show False using no by blast
  qed
qed

lemma write_chunk_lands:
  assumes ok: "store_ok a" and own: "owned a (ch_net c)" and pk: "piece_ok piece" and cw: "chunk_width a ir c = Some n" and n: "n \<le> width_max"
  shows "\<exists>ch a'. write_chunk ir c off word piece forced a = Some (ch, a') \<and> wrote {ch_net c} ch a a'
    \<and> (\<forall>net e p. owned a net \<and> e < sl_elems (a_slots a ! net) \<and> p < sl_width (a_slots a ! net) \<longrightarrow>
        (\<forall>k. lands ir a forced (c, off, word) k net e p \<longrightarrow>
           vbit (elem_value a' net e) p = ts_bit (sl_two_state (a_slots a ! net)) (vbit piece k))
        \<and> ((\<forall>k. \<not> lands ir a forced (c, off, word) k net e p) \<longrightarrow> vbit (elem_value a' net e) p = vbit (elem_value a net e) p))"
proof (cases "is_forced forced (ch_net c)")
  case True
  then show ?thesis using wrote_mono [OF wrote_refl [OF ok]]
    by (intro exI [of _ False] exI [of _ a]) (auto simp: write_chunk_def lands_def)
next
  case False
  note w = write_chunk_put [OF ok own False pk cw n, where off = off and raw_word = word]
  obtain ch a' where r: "write_chunk ir c off word piece forced a = Some (ch, a')" "wrote {ch_net c} ch a a'"
    using write_chunk_wrote [OF ok own pk cw n] by blast
  show ?thesis
  proof (cases "target_elem c word (sl_elems (a_slots a ! ch_net c))")
    case None
    then have "a' = note_bad_index (ch_net c) (word = OFF_UNKNOWN) a" using w r(1) by simp
    then have "elem_value a' = elem_value a" by (simp add: note_bad_index_def elem_value_def fun_eq_iff)
    then show ?thesis using r None by (intro exI [of _ ch] exI [of _ a']) (auto simp: lands_def)
  next
    case (Some e)
    obtain p where p: "write_chunk ir c off word piece forced a = put_elem (ch_net c) e p a"
      "piece_windows (a_slots a ! ch_net c) (chunk_lsb c off n) n (vbit piece) (elem_planes (a_buf a) (a_slots a ! ch_net c) e) p"
      using w Some by auto
    have "planes_ok (a_slots a ! ch_net c) p" using p(2) by (simp add: piece_windows_def)
    then have st: "stored (ch_net c) e p a a'" using put_elem_ok [OF ok own target_in [OF ok own Some]] p(1) r(1) by fastforce
    show ?thesis using r stored_lands [OF cw False Some st p(2)] by (intro exI [of _ ch] exI [of _ a']) blast
  qed
qed

section \<open>The pieces of a concatenation\<close>

lemma write_pieces_slices:
  assumes "store_ok a" and "list_all (\<lambda>(c, _). chunk_fits ir a c) cs"
    and "\<And>i. i < length cs \<Longrightarrow> escaping (idx + i) \<or> owned a (ch_net (fst (cs ! i)))"
    and "write_pieces ir src forced escaping (sum_list (map (chunk_len ir a) cs)) idx cs a = Some (r, a')"
  shows "slices_stored ir forced (\<lambda>i. escaping (idx + i)) src cs a a'"
  using assms
proof (induction cs arbitrary: a idx r)
  case Nil
  then show ?case by (simp add: slices_stored_def)
next
  case (Cons x cs)
  obtain c off word where x: "x = (c, off, word)" by (cases x) auto
  obtain n where n: "chunk_width a ir c = Some n" "n \<le> width_max" using Cons.prems(2) by (auto simp: x chunk_fits_def)
  have len: "chunk_len ir a x = n" using chunk_names_window [OF n(1)] by (simp add: x)
  let ?lo = "sum_list (map (chunk_len ir a) cs)"
  obtain piece where p: "source_piece src ?lo n = Some piece" "vec_ok piece" "\<And>i. i < n \<Longrightarrow> vbit piece i = vbit src (?lo + i)"
    using source_piece_ok [of src ?lo n] by auto
  have run: "write_pieces ir src forced escaping (sum_list (map (chunk_len ir a) (x # cs))) idx (x # cs) a =
      (if escaping idx
       then map_option (\<lambda>((ch, taken), a). ((ch, (idx, piece) # taken), a)) (write_pieces ir src forced escaping ?lo (Suc idx) cs a)
       else Option.bind (write_chunk ir c off word piece forced a)
              (\<lambda>(ch1, a). map_option (\<lambda>((ch, taken), a). ((ch1 \<or> ch, taken), a)) (write_pieces ir src forced escaping ?lo (Suc idx) cs a)))"
    using n(1) p(1) len by (simp add: x)
  obtain b r' where b: "store_ok b" "same_frame a b" "write_pieces ir src forced escaping ?lo (Suc idx) cs b = Some (r', a')"
    and first: "\<And>net e q. owned a net \<Longrightarrow> e < sl_elems (a_slots a ! net) \<Longrightarrow> q < sl_width (a_slots a ! net) \<Longrightarrow>
        (\<forall>k. \<not> escaping idx \<and> lands ir a forced x k net e q \<longrightarrow>
           vbit (elem_value b net e) q = ts_bit (sl_two_state (a_slots a ! net)) (vbit src (?lo + k)))
        \<and> ((\<forall>k. \<not> escaping idx \<longrightarrow> \<not> lands ir a forced x k net e q) \<longrightarrow> vbit (elem_value b net e) q = vbit (elem_value a net e) q)"
  proof (cases "escaping idx")
    case True
    obtain r' where "write_pieces ir src forced escaping ?lo (Suc idx) cs a = Some (r', a')"
      using Cons.prems(4) True unfolding run by auto
    then show ?thesis using True that [of a r'] Cons.prems(1) by (simp add: same_frame_def)
  next
    case False
    have own: "owned a (ch_net c)" using Cons.prems(3) [of 0] False by (simp add: x)
    obtain ch b where w: "write_chunk ir c off word piece forced a = Some (ch, b)" "wrote {ch_net c} ch a b"
      "\<And>net e p. owned a net \<Longrightarrow> e < sl_elems (a_slots a ! net) \<Longrightarrow> p < sl_width (a_slots a ! net) \<Longrightarrow>
        (\<forall>k. lands ir a forced x k net e p \<longrightarrow> vbit (elem_value b net e) p = ts_bit (sl_two_state (a_slots a ! net)) (vbit piece k))
        \<and> ((\<forall>k. \<not> lands ir a forced x k net e p) \<longrightarrow> vbit (elem_value b net e) p = vbit (elem_value a net e) p)"
      using write_chunk_lands [OF Cons.prems(1) own vec_piece_ok [OF p(2)] n, of off word forced] unfolding x [symmetric] by fast
    obtain r' where "write_pieces ir src forced escaping ?lo (Suc idx) cs b = Some (r', a')"
      using Cons.prems(4) False w(1) unfolding run by auto
    moreover have "k < n" if "lands ir a forced x k net e q" for k net e q using that len by (simp add: lands_def x)
    ultimately show ?thesis using False that [OF wroteD(1,2) [OF w(2)]] w(3) p(3) by auto
  qed
  have fr: "a_slots b = a_slots a" "owned b = owned a" "chunk_names ir b = chunk_names ir a" "lands ir b = lands ir a"
    using b(2) owned_frame [OF b(2)] chunk_names_frame [OF b(2)] lands_frame [OF b(2)] by (simp_all add: same_frame_def)
  have "slices_stored ir forced (\<lambda>i. escaping (Suc idx + i)) src cs b a'"
  proof (rule Cons.IH [OF b(1)])
    show "list_all (\<lambda>(c, _). chunk_fits ir b c) cs" using Cons.prems(2) chunk_width_frame [OF b(2)] by (simp add: chunk_fits_def)
    show "escaping (Suc idx + i) \<or> owned b (ch_net (fst (cs ! i)))" if "i < length cs" for i
      using Cons.prems(3) [of "Suc i"] that fr(2) by simp
    show "write_pieces ir src forced escaping (sum_list (map (chunk_len ir b) cs)) (Suc idx) cs b = Some (r', a')"
      using b(3) fr(3) by simp
  qed
  note rest = this [unfolded slices_stored_def fr]
  show ?case unfolding slices_stored_def
  proof (intro allI impI)
    fix net e q assume o: "owned a net \<and> e < sl_elems (a_slots a ! net) \<and> q < sl_width (a_slots a ! net)"
    note f = first [of net e q] and t = rest [rule_format, OF o]
    show "(\<forall>i k. i < length (x # cs) \<and> \<not> escaping (idx + i) \<and> lands ir a forced ((x # cs) ! i) k net e q
             \<and> (\<forall>j m. i < j \<and> j < length (x # cs) \<and> \<not> escaping (idx + j) \<longrightarrow> \<not> lands ir a forced ((x # cs) ! j) m net e q) \<longrightarrow>
           vbit (elem_value a' net e) q =
             ts_bit (sl_two_state (a_slots a ! net)) (vbit src (sum_list (map (chunk_len ir a) (drop (Suc i) (x # cs))) + k)))
        \<and> ((\<forall>i k. i < length (x # cs) \<and> \<not> escaping (idx + i) \<longrightarrow> \<not> lands ir a forced ((x # cs) ! i) k net e q) \<longrightarrow>
           vbit (elem_value a' net e) q = vbit (elem_value a net e) q)"
    proof (intro conjI allI impI)
      fix i k assume h: "i < length (x # cs) \<and> \<not> escaping (idx + i) \<and> lands ir a forced ((x # cs) ! i) k net e q
             \<and> (\<forall>j m. i < j \<and> j < length (x # cs) \<and> \<not> escaping (idx + j) \<longrightarrow> \<not> lands ir a forced ((x # cs) ! j) m net e q)"
      show "vbit (elem_value a' net e) q = ts_bit (sl_two_state (a_slots a ! net)) (vbit src (sum_list (map (chunk_len ir a) (drop (Suc i) (x # cs))) + k))"
      proof (cases i)
        case 0
        have "\<not> lands ir a forced (cs ! j) m net e q" if "j < length cs" "\<not> escaping (Suc idx + j)" for j m
          using h that 0 by (auto dest: spec [of _ "Suc j"])
        then have "vbit (elem_value a' net e) q = vbit (elem_value b net e) q" using t by blast
        then show ?thesis using f o h 0 by simp
      next
        case (Suc j)
        have "\<not> lands ir a forced (cs ! j') m net e q" if "j < j'" "j' < length cs" "\<not> escaping (Suc idx + j')" for j' m
          using h that Suc by (auto dest: spec [of _ "Suc j'"])
        then show ?thesis using t h Suc by simp
      qed
    next
      assume h: "\<forall>i k. i < length (x # cs) \<and> \<not> escaping (idx + i) \<longrightarrow> \<not> lands ir a forced ((x # cs) ! i) k net e q"
      have "\<not> lands ir a forced (cs ! j) m net e q" if "j < length cs" "\<not> escaping (Suc idx + j)" for j m
        using h that by (auto dest: spec [of _ "Suc j"])
      moreover have "\<not> lands ir a forced x k net e q" if "\<not> escaping idx" for k
        using h that by (auto dest: spec [of _ 0])
      ultimately show "vbit (elem_value a' net e) q = vbit (elem_value a net e) q" using t f o by simp
    qed
  qed
qed

lemma tail_slices:
  assumes ok: "store_ok a" and fit: "lvalue_fits ir lhs esc a" and many: "length (chunks lhs) \<noteq> 1"
    and ofs: "length offs = length (chunks lhs)"
    and run: "tail_write ir lhs v offs forced we esc (total_width ir a lhs) a = Some (r, a')"
  shows "slices_stored ir forced (escapes esc) (resize v (max (total_width ir a lhs) 1)) (zip (chunks lhs) offs) a a'"
proof -
  let ?cs = "zip (chunks lhs) offs" and ?src = "resize v (max (total_width ir a lhs) 1)"
  have t: "tail_write ir lhs v offs forced we esc tot a
      = write_pieces ir (resize v (max tot 1)) forced (escapes esc) tot 0 ?cs a" for tot
    using many by (cases "chunks lhs" rule: remdups_adj.cases) (simp_all add: tail_write_def)
  have fits: "list_all (\<lambda>(c, _). chunk_fits ir a c) ?cs" using fit ofs by (auto simp: list_all_length lvalue_fits_def)
  have "map (chunk_len ir a) ?cs = map (width_of ir a) (chunks lhs)"
    using fits ofs length_chunk_names by (fastforce simp: list_eq_iff_nth_eq list_all_length)
  moreover have "escapes esc (0 + i) \<or> owned a (ch_net (fst (?cs ! i)))" if "i < length ?cs" for i
    using fit ofs that by (auto simp: lvalue_fits_def)
  ultimately show ?thesis
    using write_pieces_slices [OF ok fits, of "escapes esc" 0 ?src forced r a'] run [unfolded t] by simp
qed

end
