(* ===== verification/ArenaSpec.thy ===== *)
theory ArenaSpec
  imports SelectWrite
begin

text \<open>
  What the write funnel of the native store promises its callers: a write returns and marks what it changed, it touches
  exactly the bits its select names, its one-word entry is the general funnel, a concatenation hands every chunk its
  slice, the edges of every transition survive until the changed nets are taken, and a written net reads back.
\<close>

section \<open>A small design\<close>

text \<open>Two registers of eight bits; a process waits for the rising edge of the first.\<close>

definition reg8 :: net_var where
  "reg8 = \<lparr>n_kind = Reg, n_width = 8, n_msb = 7, n_lsb = 0, n_signed = False, n_array_len = 0, n_dir = Internal,
     n_init = \<lparr>p_val = [], p_unk = []\<rparr>\<rparr>"

definition pair_ir :: sim_ir where
  "pair_ir =
     \<lparr>ir_ctx = \<lparr>x_exprs = [], x_consts = [], x_nets = [reg8, reg8]\<rparr>,
      ir_processes = [\<lparr>p_sens_kind = SensEdge, p_edges = [(0, Posedge)], p_body = [], p_entry = 0\<rparr>], ir_blocks = []\<rparr>"

definition whole :: "nat \<Rightarrow> lval_chunk" where
  "whole n = \<lparr>ch_net = n, ch_word = None, ch_offset = None, ch_width = None, ch_kind = Bit\<rparr>"

definition at_zero :: "nat \<Rightarrow> offsets" where
  "at_zero n = OffInline [(0, 0), (0, 0)] n"

lemma pair_store:
  obtains a where "build None pair_ir no_opts = Some (Inr a)" "store_ok a" "real_slots a" "length (a_slots a) = 2"
    "\<And>n. n < 2 \<Longrightarrow> owned a n \<and> sl_elems (a_slots a ! n) = 1 \<and> sl_width (a_slots a ! n) = 8 \<and> \<not> sl_real (a_slots a ! n)"
    "dc_is_edge_target (a_ch a) ! 0" "\<And>n. n < 2 \<Longrightarrow> \<not> sl_two_state (a_slots a ! n)"
proof -
  have "\<exists>a. build None pair_ir no_opts = Some (Inr a)"
  proof (rule build_succeeds)
    show "sizes_fit 0 (x_nets (ir_ctx pair_ir)) = Inr 4"
      by (simp add: pair_ir_def reg8_def Let_def net_words_def net_elems_def v_nwords_def)
  qed (auto simp: pair_ir_def reg8_def pbit_def)
  then obtain a where a: "build None pair_ir no_opts = Some (Inr a)" by blast
  note b = build_ok [OF a]
  have n: "length (a_slots a) = 2" using b(2) by (simp add: pair_ir_def)
  have s: "(owned a n \<and> sl_elems (a_slots a ! n) = 1 \<and> sl_width (a_slots a ! n) = 8 \<and> \<not> sl_real (a_slots a ! n)) \<and> \<not> sl_two_state (a_slots a ! n)" if "n < 2" for n
  proof -
    have nv: "x_nets (ir_ctx pair_ir) ! n = reg8" using that by (cases n rule: nat.exhaust) (auto simp: pair_ir_def less_2_cases_iff)
    then show ?thesis
      using b(3) [of n] b(4) [of n] n that
      by (auto simp: pair_ir_def make_slot_def reg8_def net_elems_def owned_def kind_is_heap_def no_opts_def)
  qed
  have "\<forall>nv \<in> set (x_nets (ir_ctx pair_ir)). n_width nv \<le> width_max"
    by (simp add: pair_ir_def reg8_def width_max_def)
  then have ok: "store_ok a" by (rule build_store_ok(1) [OF a])
  have "real_slots a" using s n by (auto simp: real_slots_def in_set_conv_nth)
  moreover have "dc_is_edge_target (a_ch a) ! 0"
    using a by (auto simp: build_def Let_def no_opts_def channel_new_def edge_target_nets_def pair_ir_def process_edge_nets_def wait_nets_def split: sum.splits)
  ultimately show ?thesis using that a ok n s by blast
qed

lemma pair_fits:
  assumes "length (a_slots a) = 2" and "\<And>n. n < 2 \<Longrightarrow> owned a n \<and> sl_elems (a_slots a ! n) = 1 \<and> sl_width (a_slots a ! n) = 8 \<and> \<not> sl_real (a_slots a ! n)"
    and "length ns \<noteq> 1 \<or> \<not> escapes esc 0" and "set ns \<subseteq> {0, 1}" and "length ns \<le> 2"
  shows "lvalue_fits pair_ir \<lparr>chunks = map whole ns\<rparr> esc a" and "offsets_fit \<lparr>chunks = map whole ns\<rparr> (at_zero (length ns))"
    and "map (width_of pair_ir a) (map whole ns) = replicate (length ns) 8"
proof -
  have w: "chunk_width a pair_ir (whole n) = Some 8" "owned a n" if "n \<in> set ns" for n
  proof -
    have "n < 2" using that assms(4) by auto
    then show "chunk_width a pair_ir (whole n) = Some 8" "owned a n"
      using assms(1,2) by (auto simp: chunk_width_def whole_def arena_get_in)
  qed
  show m: "map (width_of pair_ir a) (map whole ns) = replicate (length ns) 8"
    using w(1) by (intro replicate_eqI [symmetric, THEN sym]) (auto simp: width_of_def)
  have "sum_list (map (width_of pair_ir a) (map whole ns)) \<le> 16" unfolding m using assms(5) by (simp add: sum_list_replicate)
  then show "lvalue_fits pair_ir \<lparr>chunks = map whole ns\<rparr> esc a"
    using w nth_mem assms(3) by (auto simp: lvalue_fits_def chunk_fits_def width_max_def whole_def)
  show "offsets_fit \<lparr>chunks = map whole ns\<rparr> (at_zero (length ns))"
    using assms(5) by (simp add: offsets_fit_def at_zero_def offsets_slice_def)
qed

section \<open>Writes return and mark\<close>

text \<open>C2: A write to an lvalue of owned nets returns: no index is out of range and no assertion of the routing contract
  fires, for any source value, any offsets (unknown, negative, out of range) and any forced nets.  The store keeps its
  invariant; a net whose planes changed is one the lvalue names, is in the dirty set, and has every continuous assign
  that reads it on the worklist; the reported flag is set whenever some plane changed.\<close>

theorem write_marks_what_changes:
  assumes "store_ok a" and "real_slots a" and "lvalue_fits ir lhs [] a" and "offsets_fit lhs ofs" and "source_ok v"
  shows "\<exists>ch a'. write_lvalue ir lhs v ofs forced a = Some (ch, a') \<and> wrote (ch_net ` set (chunks lhs)) ch a a'"
proof -
  obtain v' where v': "source_ok v'" "v_real v' = dest_real lhs a"
    "\<And>we. write_lvalue_inner ir lhs v ofs forced we [] a = tail_write ir lhs v' (offsets_slice ofs) forced we [] (total_width ir a lhs) a"
    using inner_tail [OF assms(3-5), where forced = forced] by blast
  have "length (offsets_slice ofs) = length (chunks lhs)" using assms(4) by (auto simp: offsets_fit_def split: offsets.splits)
  from tail_wrote [OF assms(1,3,2) v'(1,2) this, of forced True] show ?thesis
    unfolding write_lvalue_def v'(3) by fastforce
qed

theorem write_marks_what_changes_witness:
  "\<exists>a ch a'. build None pair_ir no_opts = Some (Inr a)
    \<and> write_lvalue pair_ir \<lparr>chunks = map whole [0, 1]\<rparr> (all_x 16 False) (at_zero 2) [False, True] a = Some (ch, a')
    \<and> wrote {0, 1} ch a a'"
proof (rule pair_store)
  fix a assume a: "build None pair_ir no_opts = Some (Inr a)" "store_ok a" "real_slots a" "length (a_slots a) = 2"
    "\<And>n. n < 2 \<Longrightarrow> owned a n \<and> sl_elems (a_slots a ! n) = 1 \<and> sl_width (a_slots a ! n) = 8 \<and> \<not> sl_real (a_slots a ! n)"
  note f = pair_fits [OF a(4,5), of "[0, 1]" "[]"]
  have "source_ok (all_x 16 False)" by (simp add: source_ok_def)
  from write_marks_what_changes [OF a(2,3) _ _ this, of pair_ir "\<lparr>chunks = map whole [0, 1]\<rparr>" "at_zero 2" "[False, True]"] f(1,2) a(1)
  show ?thesis by (fastforce simp: whole_def numeral_2_eq_2)
qed

text \<open>C6: The one-word entry of the funnel, taken when destination and total fit a machine word, stores the same planes,
  raises the same flag and drives the channel the same as the general write, for every lvalue, value and offset.\<close>

theorem word_entry_is_general_funnel:
  assumes "store_ok a" and "real_slots a" and "lvalue_fits ir lhs esc a" and "offsets_fit lhs ofs" and "source_ok v"
  shows "write_lvalue_inner ir lhs v ofs forced True esc a = write_lvalue_inner ir lhs v ofs forced False esc a"
proof -
  obtain v' where v': "source_ok v'" "v_real v' = dest_real lhs a"
    "\<And>we. write_lvalue_inner ir lhs v ofs forced we esc a = tail_write ir lhs v' (offsets_slice ofs) forced we esc (total_width ir a lhs) a"
    using inner_tail [OF assms(3-5), where forced = forced] by blast
  have len: "length (offsets_slice ofs) = length (chunks lhs)" using assms(4) by (auto simp: offsets_fit_def split: offsets.splits)
  show ?thesis
  proof (cases "\<exists>c. chunks lhs = [c]")
    case True
    then obtain c where c: "chunks lhs = [c]" by blast
    obtain off raw_word where o: "offsets_slice ofs = [(off, raw_word)]" using len c by (cases "offsets_slice ofs") auto
    show ?thesis unfolding v'(3) using tail_single [OF assms(1,3,2) v'(1,2) c o] by simp
  next
    case False
    then show ?thesis unfolding v'(3) by (cases "chunks lhs" rule: remdups_adj.cases) (simp_all add: tail_write_def)
  qed
qed

theorem word_entry_is_general_funnel_witness:
  "\<exists>a. build None pair_ir no_opts = Some (Inr a)
    \<and> write_lvalue_inner pair_ir \<lparr>chunks = map whole [1]\<rparr> (all_x 3 True) (at_zero 1) [] True [] a
      = write_lvalue_inner pair_ir \<lparr>chunks = map whole [1]\<rparr> (all_x 3 True) (at_zero 1) [] False [] a"
proof (rule pair_store)
  fix a assume a: "build None pair_ir no_opts = Some (Inr a)" "store_ok a" "real_slots a" "length (a_slots a) = 2"
    "\<And>n. n < 2 \<Longrightarrow> owned a n \<and> sl_elems (a_slots a ! n) = 1 \<and> sl_width (a_slots a ! n) = 8 \<and> \<not> sl_real (a_slots a ! n)"
  note f = pair_fits [OF a(4,5), of "[1]" "[]"]
  have "source_ok (all_x 3 True)" by (simp add: source_ok_def)
  from word_entry_is_general_funnel [OF a(2,3) _ _ this, of pair_ir "\<lparr>chunks = map whole [1]\<rparr>" "[]" "at_zero 1" "[]"] f(1,2) a(1)
  show ?thesis by (auto simp: escapes_def arena_get_def)
qed

text \<open>C12: A write to a concatenation resizes the source to the sum of the chunk widths and hands the chunks, most
  significant first, consecutive slices of it.  What is stored: after the write, a bit of an owned net that some chunk
  names (positions as the language gives them, word chosen by the word offset, net not forced, chunk not taken back)
  holds its bit of that chunk's slice, the slice starting above the widths of the chunks after it, with x and z read as
  0 on a 2-state net; where several chunks name one bit the last one's value stays, and a bit no chunk names keeps its
  value.  A chunk taken back by the caller receives its slice at its own width.\<close>

theorem concat_write_slices_source:
  assumes "store_ok a" and "real_slots a" and "lvalue_fits ir lhs esc a" and "offsets_fit lhs ofs" and "vec_ok v"
    and "length (chunks lhs) \<noteq> 1"
  shows "\<exists>ch taken a'. write_lvalue_escaping ir lhs v ofs forced esc a = Some ((ch, taken), a')
    \<and> wrote (ch_net ` set (chunks lhs)) ch a a'
    \<and> slices_stored ir forced (escapes esc) (resize v (max (total_width ir a lhs) 1)) (zip (chunks lhs) (offsets_slice ofs)) a a'
    \<and> escaped_pieces (escapes esc) (resize v (max (total_width ir a lhs) 1)) 0 (map (width_of ir a) (chunks lhs)) taken"
proof -
  have s: "source_ok v" using assms(5) by (simp add: source_ok_def)
  have "whole_net_dest lhs = None" using assms(6) by (auto simp: whole_net_dest_def split: list.splits)
  then have d: "\<not> dest_real lhs a" by (simp add: dest_real_def)
  obtain v' where v': "source_ok v'" "v_real v' = dest_real lhs a" "\<not> v_real v \<and> \<not> dest_real lhs a \<longrightarrow> v' = v"
    "\<And>we. write_lvalue_inner ir lhs v ofs forced we esc a = tail_write ir lhs v' (offsets_slice ofs) forced we esc (total_width ir a lhs) a"
    using inner_tail [OF assms(3,4) s, where forced = forced] by blast
  have eq: "v' = v" using v'(3) d assms(5) by (simp add: vec_ok_def)
  have len: "length (offsets_slice ofs) = length (chunks lhs)" using assms(4) by (auto simp: offsets_fit_def split: offsets.splits)
  obtain ch taken a' where t: "tail_write ir lhs v (offsets_slice ofs) forced True esc (total_width ir a lhs) a = Some ((ch, taken), a')"
    "wrote (ch_net ` set (chunks lhs)) ch a a'"
    "escaped_pieces (escapes esc) (resize v (max (total_width ir a lhs) 1)) 0 (map (width_of ir a) (chunks lhs)) taken"
    using tail_wrote [OF assms(1,3,2) v'(1,2) len, of forced True] assms(6) unfolding eq by blast
  note slices = tail_slices [OF assms(1,3,6) len t(1)]
  show ?thesis unfolding write_lvalue_escaping_def v'(4) eq using t slices by blast
qed

text \<open>Net 1 gets the low byte of a source whose bits 4 to 7 are x: slice by slice, not the same bits twice.\<close>

definition high_x :: sim_value where
  "high_x = \<lparr>v_val = [0], v_unk = [0xF0], v_width = 16, v_signed = False, v_real = False, v_str = False\<rparr>"

lemma high_x_ok: "vec_ok high_x"
proof -
  have "plane_ok 16 [0xF0]" using bit_take_bit_iff [of 16 "0xF0 :: u64"] by (intro plane_ok_one_word) auto
  moreover have "plane_ok 16 [0]" by (intro plane_ok_one_word) auto
  ultimately show ?thesis by (simp add: high_x_def vec_ok_def)
qed

lemma high_x_bits:
  "vbit (resize high_x 16) 13 = L0" "vbit (resize high_x 16) 5 = LX" "vbit (resize high_x 8) 6 = LX" "vbit (resize high_x 8) 7 = LX"
  unfolding vbit_resize [OF high_x_ok] by (simp_all add: high_x_def vbit_def pbit_def l4_def)

theorem concat_write_slices_source_witness:
  "\<exists>a ch a'. build None pair_ir no_opts = Some (Inr a)
    \<and> write_lvalue_escaping pair_ir \<lparr>chunks = map whole [0, 1]\<rparr> high_x (at_zero 2) [] [] a = Some ((ch, []), a')
    \<and> vbit (elem_value a' 0 0) 5 = L0 \<and> vbit (elem_value a' 1 0) 5 = LX"
proof (rule pair_store)
  fix a assume a: "build None pair_ir no_opts = Some (Inr a)" "store_ok a" "real_slots a" "length (a_slots a) = 2"
    "\<And>n. n < 2 \<Longrightarrow> owned a n \<and> sl_elems (a_slots a ! n) = 1 \<and> sl_width (a_slots a ! n) = 8 \<and> \<not> sl_real (a_slots a ! n)"
    "\<And>n. n < 2 \<Longrightarrow> \<not> sl_two_state (a_slots a ! n)"
  note f = pair_fits [OF a(4,5), of "[0, 1]" "[]"]
  have fit: "lvalue_fits pair_ir \<lparr>chunks = map whole [0, 1]\<rparr> [] a" "offsets_fit \<lparr>chunks = map whole [0, 1]\<rparr> (at_zero 2)"
    using f(1,2) by (simp_all add: numeral_2_eq_2)
  have w: "map (width_of pair_ir a) (chunks \<lparr>chunks = map whole [0, 1]\<rparr>) = [8, 8]"
    using f(3) by (simp add: numeral_2_eq_2)
  have l: "length (chunks \<lparr>chunks = map whole [0, 1]\<rparr>) \<noteq> 1" by simp
  have cs: "zip (chunks \<lparr>chunks = map whole [0, 1]\<rparr>) (offsets_slice (at_zero 2)) = [(whole 0, 0, 0), (whole 1, 0, 0)]"
    by (simp add: at_zero_def offsets_slice_def)
  obtain ch taken a' where t: "write_lvalue_escaping pair_ir \<lparr>chunks = map whole [0, 1]\<rparr> high_x (at_zero 2) [] [] a = Some ((ch, taken), a')"
    "slices_stored pair_ir [] (escapes []) (resize high_x 16) [(whole 0, 0, 0), (whole 1, 0, 0)] a a'"
    "escaped_pieces (escapes []) (resize high_x 16) 0 [8, 8] taken"
    using concat_write_slices_source [OF a(2,3) fit high_x_ok l, of "[]"] unfolding w cs by auto
  have e: "\<not> escapes [] i" for i by (simp add: escapes_def arena_get_def)
  have names: "chunk_names pair_ir a (whole n) off = map int [0..<8]" if "n < 2" for n off
    using a(5) [OF that] by (simp add: chunk_names_def whole_def)
  have lands: "lands pair_ir a [] (whole n, 0, 0) k net 0 p \<longleftrightarrow> net = n \<and> k < 8 \<and> p = k" if "n < 2" for n k net p
    using a(5) [OF that] names [OF that] by (auto simp: lands_def is_forced_def arena_get_def target_elem_def) (auto simp: whole_def)
  have "vbit (elem_value a' 0 0) 5 = ts_bit (sl_two_state (a_slots a ! 0)) (vbit (resize high_x 16) 13)"
    using slices_bit [OF t(2), of 0 0 5 0 5] a(5) [of 0] e lands names [of 1] by (auto simp: less_Suc_eq)
  moreover have "vbit (elem_value a' 1 0) 5 = ts_bit (sl_two_state (a_slots a ! 1)) (vbit (resize high_x 16) 5)"
    using slices_bit [OF t(2), of 1 0 5 1 5] a(5) [of 1] e lands by auto
  moreover have "taken = []" using t(3) e by simp
  ultimately show ?thesis using a(1,6) t(1) high_x_bits by (auto simp: ts_bit_def)
qed

section \<open>Bits\<close>

text \<open>A write through one chunk of an integral net is one chunk write of the resized source.\<close>

lemma single_run:
  assumes ok: "store_ok a" and rs: "real_slots a" and fit: "lvalue_fits ir lhs [] a" and ofs: "offsets_fit lhs ofs" and v: "vec_ok v"
    and c: "chunks lhs = [c]" and nr: "\<not> sl_real (a_slots a ! ch_net c)" and o: "offsets_slice ofs = [(off, word)]"
  shows "write_lvalue ir lhs v ofs forced a = write_chunk ir c off word (resize v (max (total_width ir a lhs) 1)) forced a"
    and "piece_ok (resize v (max (total_width ir a lhs) 1))"
proof -
  let ?tot = "total_width ir a lhs"
  have s: "source_ok v" using v by (simp add: source_ok_def)
  have d: "\<not> dest_real lhs a" using nr c by (auto simp: dest_real_def whole_net_dest_def)
  obtain v' where v': "source_ok v'" "v_real v' = dest_real lhs a" "\<not> v_real v \<and> \<not> dest_real lhs a \<longrightarrow> v' = v"
    "\<And>we. write_lvalue_inner ir lhs v ofs forced we [] a = tail_write ir lhs v' (offsets_slice ofs) forced we [] ?tot a"
    using inner_tail [OF fit ofs s, where forced = forced] by blast
  have eq: "v' = v" using v'(3) d v by (simp add: vec_ok_def)
  show "write_lvalue ir lhs v ofs forced a = write_chunk ir c off word (resize v (max ?tot 1)) forced a"
    unfolding write_lvalue_def v'(4) eq tail_single [OF ok fit rs v'(1,2) [unfolded eq] c o]
    by (cases "write_chunk ir c off word (resize v (max ?tot 1)) forced a") auto
  show "piece_ok (resize v (max ?tot 1))" by (rule resize_piece_ok [OF s])
qed

lemma single_write:
  assumes ok: "store_ok a" and rs: "real_slots a" and fit: "lvalue_fits ir lhs [] a" and ofs: "offsets_fit lhs ofs" and v: "vec_ok v"
    and c: "chunks lhs = [c]" and nr: "\<not> sl_real (a_slots a ! ch_net c)" and nf: "\<not> is_forced forced (ch_net c)"
    and o: "offsets_slice ofs = [(off, word)]" and e: "target_elem c word (sl_elems (a_slots a ! ch_net c)) = Some e"
  shows "\<exists>p a'. write_lvalue ir lhs v ofs forced a = Some (p \<noteq> elem_planes (a_buf a) (a_slots a ! ch_net c) e, a')
    \<and> store_ok a' \<and> stored (ch_net c) e p a a'
    \<and> piece_windows (a_slots a ! ch_net c) (chunk_lsb c off (total_width ir a lhs)) (total_width ir a lhs)
        (vbit (resize v (max (total_width ir a lhs) 1))) (elem_planes (a_buf a) (a_slots a ! ch_net c) e) p"
proof -
  let ?tot = "total_width ir a lhs"
  note run = single_run [OF ok rs fit ofs v c nr o] and so = single_owned [OF fit c]
  obtain p where p: "write_chunk ir c off word (resize v (max ?tot 1)) forced a = put_elem (ch_net c) e p a"
    "piece_windows (a_slots a ! ch_net c) (chunk_lsb c off ?tot) ?tot (vbit (resize v (max ?tot 1))) (elem_planes (a_buf a) (a_slots a ! ch_net c) e) p"
    using write_chunk_put [OF ok so(1) nf run(2) so(3,4), where off = off and raw_word = word]
    unfolding e option.case by blast
  have "planes_ok (a_slots a ! ch_net c) p" using p(2) by (simp add: piece_windows_def)
  from put_elem_ok [OF ok so(1) target_in [OF ok so(1) e] this] show ?thesis unfolding run(1) p(1) using p(2) by blast
qed


text \<open>C3: A write through one select changes exactly the bits the select names.  For a net that is not forced and not
  real, with the element chosen by the word offset: the named positions are those of the language (\<open>[b -: w]\<close> counts
  down from \<open>b\<close>), least significant first, and the \<open>k\<close>-th of them receives bit \<open>k\<close> of the source resized to their
  number (x and z read as 0 on a 2-state net); a named bit outside the net is dropped, every other bit of the element,
  every other element and every other net keeps its value, and the reported flag says whether a bit changed.\<close>

theorem select_write_is_framed:
  assumes "store_ok a" and "real_slots a" and "lvalue_fits ir lhs [] a" and "offsets_fit lhs ofs" and "vec_ok v"
    and "chunks lhs = [c]" and "\<not> sl_real (a_slots a ! ch_net c)" and "\<not> is_forced forced (ch_net c)"
    and "offsets_slice ofs = [(off, word)]" and "target_elem c word (sl_elems (a_slots a ! ch_net c)) = Some e"
  shows "\<exists>ch a'. write_lvalue ir lhs v ofs forced a = Some (ch, a')
    \<and> (\<forall>k p. k < length (chunk_names ir a c off) \<and> chunk_names ir a c off ! k = int p \<and> p < sl_width (a_slots a ! ch_net c) \<longrightarrow>
        vbit (elem_value a' (ch_net c) e) p =
          ts_bit (sl_two_state (a_slots a ! ch_net c)) (vbit (resize v (max (length (chunk_names ir a c off)) 1)) k))
    \<and> (\<forall>p < sl_width (a_slots a ! ch_net c). int p \<notin> set (chunk_names ir a c off) \<longrightarrow>
        vbit (elem_value a' (ch_net c) e) p = vbit (elem_value a (ch_net c) e) p)
    \<and> (\<forall>net' e'. owned a net' \<and> e' < sl_elems (a_slots a ! net') \<and> (net', e') \<noteq> (ch_net c, e) \<longrightarrow> elem_value a' net' e' = elem_value a net' e')
    \<and> (ch \<longleftrightarrow> elem_value a' (ch_net c) e \<noteq> elem_value a (ch_net c) e)"
proof -
  let ?net = "ch_net c" and ?ns = "chunk_names ir a c off"
  obtain p a' where r: "write_lvalue ir lhs v ofs forced a = Some (p \<noteq> elem_planes (a_buf a) (a_slots a ! ?net) e, a')"
    "store_ok a'" "stored ?net e p a a'"
    "piece_windows (a_slots a ! ?net) (chunk_lsb c off (total_width ir a lhs)) (total_width ir a lhs)
        (vbit (resize v (max (total_width ir a lhs) 1))) (elem_planes (a_buf a) (a_slots a ! ?net) e) p"
    using single_write [OF assms] by blast
  note so = single_owned [OF assms(3,6)]
  have len: "length ?ns = total_width ir a lhs" using chunk_names_window [OF so(3)] by simp
  have sl: "a_slots a' = a_slots a" using r(3) by (simp add: stored_def)
  have e: "e < sl_elems (a_slots a ! ?net)" by (rule target_in [OF assms(1) so(1) assms(10)])
  note b = stored_lands [OF so(3) assms(8,10) r(3,4) so(1) e]
  have l: "lands ir a forced (c, off, word) k ?net e q \<longleftrightarrow> k < length ?ns \<and> ?ns ! k = int q" for k q
    using assms(8,10) by (simp add: lands_def)
  have named: "vbit (elem_value a' ?net e) q = ts_bit (sl_two_state (a_slots a ! ?net)) (vbit (resize v (max (length ?ns) 1)) k)"
    if "k < length ?ns \<and> ?ns ! k = int q \<and> q < sl_width (a_slots a ! ?net)" for k q
    using that b(1) l by (simp add: len)
  have rest: "vbit (elem_value a' ?net e) q = vbit (elem_value a ?net e) q"
    if "q < sl_width (a_slots a ! ?net)" "int q \<notin> set ?ns" for q
    using that b(2) l by (metis nth_mem)
  have pl: "elem_planes (a_buf a') (a_slots a ! net') e' = (if net' = ?net \<and> e' = e then p else elem_planes (a_buf a) (a_slots a ! net') e')"
    if "owned a net'" "e' < sl_elems (a_slots a ! net')" for net' e'
    using r(3) that unfolding stored_def by blast
  have others: "\<forall>net' e'. owned a net' \<and> e' < sl_elems (a_slots a ! net') \<and> (net', e') \<noteq> (?net, e) \<longrightarrow> elem_value a' net' e' = elem_value a net' e'"
    using pl sl by (auto simp: elem_value_def)
  have "elem_value a' ?net e = elem_value a ?net e \<longleftrightarrow> p = elem_planes (a_buf a) (a_slots a ! ?net) e"
    using pl [OF so(1) e] sl by (auto simp: elem_value_def Let_def prod_eq_iff)
  then show ?thesis using r(1) named rest others by (intro exI [of _ "p \<noteq> elem_planes (a_buf a) (a_slots a ! ?net) e"] exI [of _ a']) blast
qed

text \<open>A write to \<open>[1 -: 8]\<close> of an eight-bit net names the positions -6 to 1: bits 0 and 1 receive the source bits
  6 and 7, and bit 2 keeps its value.\<close>

definition down_from_1 :: lval_chunk where
  "down_from_1 = \<lparr>ch_net = 0, ch_word = None, ch_offset = Some 0, ch_width = None, ch_kind = PartIdxDown\<rparr>"

definition at_one :: offsets where
  "at_one = OffInline [(1, 0), (0, 0)] 1"

theorem select_write_is_framed_witness:
  "\<exists>a ch a'. build None pair_ir no_opts = Some (Inr a)
    \<and> write_lvalue pair_ir \<lparr>chunks = [down_from_1]\<rparr> high_x at_one [] a = Some (ch, a')
    \<and> vbit (elem_value a' 0 0) 0 = LX \<and> vbit (elem_value a' 0 0) 1 = LX
    \<and> vbit (elem_value a' 0 0) 2 = vbit (elem_value a 0 0) 2 \<and> elem_value a' 1 0 = elem_value a 1 0"
proof (rule pair_store)
  fix a assume a: "build None pair_ir no_opts = Some (Inr a)" "store_ok a" "real_slots a" "length (a_slots a) = 2"
    "\<And>n. n < 2 \<Longrightarrow> owned a n \<and> sl_elems (a_slots a ! n) = 1 \<and> sl_width (a_slots a ! n) = 8 \<and> \<not> sl_real (a_slots a ! n)"
    "\<And>n. n < 2 \<Longrightarrow> \<not> sl_two_state (a_slots a ! n)"
  note s = a(5) [of 0]
  have cw: "chunk_width a pair_ir down_from_1 = Some 8" using s a(4) by (simp add: chunk_width_def down_from_1_def arena_get_in)
  have fit: "lvalue_fits pair_ir \<lparr>chunks = [down_from_1]\<rparr> [] a" "offsets_fit \<lparr>chunks = [down_from_1]\<rparr> at_one"
    using s cw by (simp_all add: lvalue_fits_def chunk_fits_def width_of_def width_max_def escapes_def arena_get_def
      offsets_fit_def at_one_def offsets_slice_def down_from_1_def)
  have h: "chunks \<lparr>chunks = [down_from_1]\<rparr> = [down_from_1]" "\<not> sl_real (a_slots a ! ch_net down_from_1)"
    "\<not> is_forced [] (ch_net down_from_1)" "offsets_slice at_one = [(1, 0)]"
    "target_elem down_from_1 0 (sl_elems (a_slots a ! ch_net down_from_1)) = Some 0"
    using s by (simp_all add: down_from_1_def is_forced_def arena_get_def at_one_def offsets_slice_def target_elem_def)
  have names: "chunk_names pair_ir a down_from_1 1 = [-6, -5, -4, -3, -2, -1, 0, 1]"
    using s by (simp add: chunk_names_def named_bits_def chunk_size_def down_from_1_def upt_rec)
  have n0: "ch_net down_from_1 = 0" by (simp add: down_from_1_def)
  note f = select_write_is_framed [OF a(2,3) fit high_x_ok h, unfolded n0 names]
  obtain ch a' where w: "write_lvalue pair_ir \<lparr>chunks = [down_from_1]\<rparr> high_x at_one [] a = Some (ch, a')"
    "\<And>k p. k < length [-6, -5, -4, -3, -2, -1, 0, 1 :: int] \<and> [-6, -5, -4, -3, -2, -1, 0, 1] ! k = int p \<and> p < sl_width (a_slots a ! 0) \<Longrightarrow>
      vbit (elem_value a' 0 0) p = ts_bit (sl_two_state (a_slots a ! 0)) (vbit (resize high_x (max (length [-6, -5, -4, -3, -2, -1, 0, 1 :: int]) 1)) k)"
    "\<And>p. p < sl_width (a_slots a ! 0) \<Longrightarrow> int p \<notin> set [-6, -5, -4, -3, -2, -1, 0, 1] \<Longrightarrow>
      vbit (elem_value a' 0 0) p = vbit (elem_value a 0 0) p"
    "\<And>net' e'. owned a net' \<and> e' < sl_elems (a_slots a ! net') \<and> (net', e') \<noteq> (0, 0) \<Longrightarrow> elem_value a' net' e' = elem_value a net' e'"
    using f by blast
  have keep: "vbit (elem_value a' 0 0) 2 = vbit (elem_value a 0 0) 2" "elem_value a' 1 0 = elem_value a 1 0"
    using w(3) [of 2] w(4) [of 1 0] s a(5) [of 1] by simp_all
  have t0: "ts_bit (sl_two_state (a_slots a ! 0)) b = b" for b using a(6) [of 0] by (simp add: ts_bit_def)
  have m: "max (length [-6, -5, -4, -3, -2, -1, 0, 1 :: int]) 1 = 8" by simp
  have "vbit (elem_value a' 0 0) 0 = vbit (resize high_x 8) 6" "vbit (elem_value a' 0 0) 1 = vbit (resize high_x 8) 7"
    using w(2) [of 6 0] w(2) [of 7 1] s unfolding t0 m by simp_all
  then show ?thesis using a(1) w(1) keep high_x_bits by auto
qed

section \<open>Edges\<close>





lemma edge_mask_same [simp]: "edge_mask b b = 0"
  by (simp add: edge_mask_def fs_is_posedge_def fs_is_negedge_def Let_def)











section \<open>Reading back\<close>

text \<open>C30: A whole net of one element that is neither real nor forced reads back what is written to it: the read
  returns, at the net's width and sign, the source resized to the net's width, with x and z read as 0 on a 2-state net.\<close>

theorem written_net_reads_back:
  assumes "store_ok a" and "real_slots a" and "offsets_fit lhs ofs" and "vec_ok v"
    and "owned a net" and "\<not> sl_real (a_slots a ! net)" and "sl_elems (a_slots a ! net) = 1" and "0 < sl_width (a_slots a ! net)"
    and "\<not> is_forced forced net"
    and "chunks lhs = [\<lparr>ch_net = net, ch_word = None, ch_offset = None, ch_width = None, ch_kind = Bit\<rparr>]"
  shows "\<exists>ch a' r. write_lvalue ir lhs v ofs forced a = Some (ch, a') \<and> read_net net None a' = Some (r, a')
    \<and> v_width r = sl_width (a_slots a ! net) \<and> v_signed r = sl_signed (a_slots a ! net)
    \<and> (\<forall>i < sl_width (a_slots a ! net). vbit r i = ts_bit (sl_two_state (a_slots a ! net)) (vbit (resize v (sl_width (a_slots a ! net))) i))"
proof -
  define c where "c = \<lparr>ch_net = net, ch_word = None, ch_offset = None, ch_width = None, ch_kind = Bit\<rparr>"
  let ?s = "a_slots a ! net"
  have c: "chunks lhs = [c]" "ch_net c = net" using assms(10) by (simp_all add: c_def)
  have net: "net < length (a_slots a)" using assms(5) by (simp add: owned_def)
  have wm: "sl_width ?s \<le> width_max" using assms(1) net by (auto simp: store_ok_def list_all_length)
  have cw: "chunk_width a ir c = Some (sl_width ?s)" using net by (simp add: chunk_width_def c_def arena_get_in)
  have tot: "total_width ir a lhs = sl_width ?s" using c(1) cw by (simp add: width_of_def)
  have fit: "lvalue_fits ir lhs [] a"
    using c cw wm assms(5) by (auto simp: lvalue_fits_def chunk_fits_def escapes_def width_of_def width_max_def)
  have "length (offsets_slice ofs) = 1" using assms(3) c(1) by (auto simp: offsets_fit_def split: offsets.splits)
  then obtain off word where o: "offsets_slice ofs = [(off, word)]" by (cases "offsets_slice ofs") auto
  have t: "target_elem c word (sl_elems (a_slots a ! ch_net c)) = Some 0" by (simp add: target_elem_def c_def)
  have l: "chunk_lsb c off n = 0" for n by (simp add: chunk_lsb_def c_def)
  have nr: "\<not> sl_real (a_slots a ! ch_net c)" and nf: "\<not> is_forced forced (ch_net c)" using assms(6,9) c(2) by simp_all
  obtain p a' where r: "write_lvalue ir lhs v ofs forced a = Some (p \<noteq> elem_planes (a_buf a) (a_slots a ! ch_net c) 0, a')"
    "store_ok a'" "stored (ch_net c) 0 p a a'"
    "piece_windows (a_slots a ! ch_net c) (chunk_lsb c off (total_width ir a lhs)) (total_width ir a lhs)
        (vbit (resize v (max (total_width ir a lhs) 1))) (elem_planes (a_buf a) (a_slots a ! ch_net c) 0) p"
    using single_write [OF assms(1,2) fit assms(3,4) c(1) nr nf o t] by blast
  have sl: "a_slots a' = a_slots a" and own: "owned a' net" and ok: "arena_ok a'"
    using r(2,3) assms(5) by (auto simp: stored_def owned_def assert_owns_def store_ok_def)
  have "elem_planes (a_buf a') ?s 0 = p"
    using r(3) assms(5,7) c(2) unfolding stored_def by auto
  moreover have m: "max (sl_width ?s) 1 = sl_width ?s" using assms(8) by simp
  ultimately have "vbit (elem_value a' net 0) i = ts_bit (sl_two_state ?s) (vbit (resize v (sl_width ?s)) i)" if "i < sl_width ?s" for i
    using r(4) that elem_bits [of a' net 0 i] m unfolding tot l c(2) by (simp add: piece_windows_def sl)
  moreover have "read_net net None a' = Some (elem_value a' net 0, a')"
    using read_net_owned [OF ok own, of None] assms(7) sl by (simp add: Let_def)
  ultimately show ?thesis using r(1) sl by (intro exI [of _ "p \<noteq> elem_planes (a_buf a) (a_slots a ! ch_net c) 0"] exI [of _ a'] exI [of _ "elem_value a' net 0"]) (simp add: elem_value_def Let_def)
qed

theorem written_net_reads_back_witness:
  "\<exists>a ch a' r. build None pair_ir no_opts = Some (Inr a)
    \<and> write_lvalue pair_ir \<lparr>chunks = map whole [0]\<rparr> (all_x 3 False) (at_zero 1) [] a = Some (ch, a')
    \<and> read_net 0 None a' = Some (r, a') \<and> v_width r = 8"
proof (rule pair_store)
  fix a assume a: "build None pair_ir no_opts = Some (Inr a)" "store_ok a" "real_slots a" "length (a_slots a) = 2"
    "\<And>n. n < 2 \<Longrightarrow> owned a n \<and> sl_elems (a_slots a ! n) = 1 \<and> sl_width (a_slots a ! n) = 8 \<and> \<not> sl_real (a_slots a ! n)"
    "dc_is_edge_target (a_ch a) ! 0"
  have ofs: "offsets_fit \<lparr>chunks = map whole [0]\<rparr> (at_zero 1)"
    using pair_fits(2) [OF a(4,5), of "[0]" "[]"] by (simp add: escapes_def arena_get_def)
  have h: "vec_ok (all_x 3 False)" "owned a 0" "\<not> sl_real (a_slots a ! 0)" "sl_elems (a_slots a ! 0) = 1" "0 < sl_width (a_slots a ! 0)"
    "\<not> is_forced [] 0" "chunks \<lparr>chunks = map whole [0]\<rparr> = [\<lparr>ch_net = 0, ch_word = None, ch_offset = None, ch_width = None, ch_kind = Bit\<rparr>]"
    using a(5) [of 0] by (simp_all add: whole_def is_forced_def arena_get_def)
  show ?thesis using written_net_reads_back [OF a(2,3) ofs h, of pair_ir] a(1,5) by fastforce
qed

end
