(* ===== verification/Vcd.thy ===== *)
theory Vcd
  imports LimbPower Values F64
begin

text \<open>
  The VCD writer, \<open>crates/vcd-writer/src/lib.rs\<close>: identifier codes, value-change records, the \<open>%g\<close> rendering of a
  real, and the writer with its declared variables, time stamps, dump control and byte limit.  The sink is the
  in-memory \<open>Vec<u8>\<close>, whose writes succeed; text is a list of bytes.  \<open>None\<close> is a panic (an index out of range,
  the failed assertion of \<open>pop_scope\<close>).
\<close>

section \<open>Identifier codes\<close>

fun id_digits :: "nat \<Rightarrow> string" where
  "id_digits n = char_of (33 + n mod 94) # (if n div 94 = 0 then [] else id_digits (n div 94 - 1))"

declare id_digits.simps [simp del]

definition id_text :: "nat \<Rightarrow> string" where
  "id_text n = rev (id_digits n)"

section \<open>Keywords\<close>

datatype scope_type = ScopeModule | ScopeTask | ScopeFunction | ScopeBegin | ScopeFork

definition scope_keyword :: "scope_type \<Rightarrow> string" where
  "scope_keyword s =
     (case s of ScopeModule \<Rightarrow> ''module'' | ScopeTask \<Rightarrow> ''task'' | ScopeFunction \<Rightarrow> ''function'' | ScopeBegin \<Rightarrow> ''begin''
      | ScopeFork \<Rightarrow> ''fork'')"

datatype var_type =
    VarEvent | VarInteger | VarParameter | VarReal | VarRealtime | VarReg | VarSupply0 | VarSupply1 | VarTime | VarTri
  | VarTriand | VarTrior | VarTrireg | VarTri0 | VarTri1 | VarWand | VarWire | VarWor

definition var_keyword :: "var_type \<Rightarrow> string" where
  "var_keyword v =
     (case v of VarEvent \<Rightarrow> ''event'' | VarInteger \<Rightarrow> ''integer'' | VarParameter \<Rightarrow> ''parameter'' | VarReal \<Rightarrow> ''real''
      | VarRealtime \<Rightarrow> ''realtime'' | VarReg \<Rightarrow> ''reg'' | VarSupply0 \<Rightarrow> ''supply0'' | VarSupply1 \<Rightarrow> ''supply1''
      | VarTime \<Rightarrow> ''time'' | VarTri \<Rightarrow> ''tri'' | VarTriand \<Rightarrow> ''triand'' | VarTrior \<Rightarrow> ''trior'' | VarTrireg \<Rightarrow> ''trireg''
      | VarTri0 \<Rightarrow> ''tri0'' | VarTri1 \<Rightarrow> ''tri1'' | VarWand \<Rightarrow> ''wand'' | VarWire \<Rightarrow> ''wire'' | VarWor \<Rightarrow> ''wor'')"

section \<open>Reals\<close>

text \<open>A positive double is \<open>n / 2 ^ 1074\<close>.  Rust renders it exactly and rounds half to even.\<close>

definition half_even :: "nat \<Rightarrow> nat \<Rightarrow> nat" where
  "half_even a b = (let q = a div b; r = a mod b in if b < 2 * r \<or> 2 * r = b \<and> odd q then q + 1 else q)"

function lead_zeros :: "nat \<Rightarrow> nat \<Rightarrow> nat" where
  "lead_zeros n d = (if n = 0 \<or> d \<le> n then 0 else Suc (lead_zeros (10 * n) d))"
  by auto
termination by (relation "measure (\<lambda>(n, d). d - n)") auto

declare lead_zeros.simps [simp del]

text \<open>The decimal exponent of \<open>n / d\<close>.\<close>

definition dec_exp :: "nat \<Rightarrow> nat \<Rightarrow> int" where
  "dec_exp n d = (if d \<le> n then int (length (dec_string (n div d))) - 1 else - int (lead_zeros n d))"

text \<open>\<open>{:.*e}\<close> with \<open>p\<close> significant digits: the digits as a number and the exponent.\<close>

definition sci_digits :: "nat \<Rightarrow> nat \<Rightarrow> nat \<Rightarrow> nat \<times> int" where
  "sci_digits p n d =
     (let k = dec_exp n d;
          m = (if k < int p then half_even (n * 10 ^ nat (int p - 1 - k)) d else half_even n (d * 10 ^ nat (k - int p + 1)))
      in if m = 10 ^ p then (10 ^ (p - 1), k + 1) else (m, k))"

definition with_point :: "nat \<Rightarrow> string \<Rightarrow> string" where
  "with_point frac s =
     (if frac = 0 then s
      else let s = zero_pad (frac + 1) s; k = length s - frac in take k s @ ''.'' @ drop k s)"

text \<open>\<open>{:.prec$}\<close>.\<close>

definition fixed_text :: "nat \<Rightarrow> nat \<Rightarrow> nat \<Rightarrow> string" where
  "fixed_text prec n d = with_point prec (dec_string (half_even (n * 10 ^ prec) d))"

definition trim_end :: "char \<Rightarrow> string \<Rightarrow> string" where
  "trim_end c s = rev (dropWhile (\<lambda>x. x = c) (rev s))"

definition strip_trailing_zeros :: "string \<Rightarrow> string" where
  "strip_trailing_zeros s = (if CHR ''.'' \<in> set s then trim_end (CHR ''.'') (trim_end (CHR ''0'') s) else s)"

definition fmt_g :: "f64 \<Rightarrow> int \<Rightarrow> string" where
  "fmt_g x p =
     (if f64_is_nan x then ''nan''
      else if f64_is_inf x then (if f64_sign x then ''-inf'' else ''inf'')
      else if f64_mag x = 0 then (if f64_sign x then ''-0'' else ''0'')
      else let p = nat (max p 1); n = mag_units (f64_mag x); d = 2 ^ 1074;
               (m, e) = sci_digits p n d; sgn = (if f64_sign x then ''-'' else [])
           in if e < - 4 \<or> int p \<le> e
              then sgn @ strip_trailing_zeros (with_point (p - 1) (dec_string m)) @ ''e''
                   @ (if e < 0 then ''-'' else ''+'') @ zero_pad 2 (dec_string (nat \<bar>e\<bar>))
              else sgn @ strip_trailing_zeros (fixed_text (nat (max (int p - 1 - e) 0)) n d))"

section \<open>Value changes\<close>

definition pk_bit :: "bit_packed \<Rightarrow> nat \<Rightarrow> logic4" where
  "pk_bit bits i = l4 (pbit (p_val bits) i) (pbit (p_unk bits) i)"

definition logic_char :: "logic4 \<Rightarrow> char" where
  "logic_char b = (case b of L0 \<Rightarrow> CHR ''0'' | L1 \<Rightarrow> CHR ''1'' | LX \<Rightarrow> CHR ''x'' | LZ \<Rightarrow> CHR ''z'')"

definition bit_char :: "bit_packed \<Rightarrow> nat \<Rightarrow> char" where
  "bit_char bits i = logic_char (pk_bit bits i)"

definition encode_real :: "nat \<Rightarrow> bit_packed \<Rightarrow> string" where
  "encode_real idc bits = ''r'' @ fmt_g (wget (p_val bits) 0) 16 @ '' '' @ id_text idc"

definition encode_value :: "nat \<Rightarrow> bit_packed \<Rightarrow> nat \<Rightarrow> string" where
  "encode_value idc bits width =
     (if width \<le> 1 then bit_char bits 0 # id_text idc
      else ''b'' @ map (bit_char bits) (rev [0..<width]) @ '' '' @ id_text idc)"

definition encode_change :: "bool \<Rightarrow> nat \<Rightarrow> bit_packed \<Rightarrow> nat \<Rightarrow> string" where
  "encode_change real idc bits width = (if real then encode_real idc bits else encode_value idc bits width)"

section \<open>The writer\<close>

record counting =
  ct_inner :: string
  ct_bytes :: nat

record var_meta =
  vm_id :: nat
  vm_width :: nat
  vm_real :: bool

record vcd_writer =
  w_out :: counting
  w_next_id :: nat
  w_vars :: "var_meta list"
  w_by_id :: "nat \<Rightarrow> nat option"
  w_scope_depth :: nat
  w_time :: nat
  w_time_written :: bool
  w_dumping :: bool
  w_byte_limit :: "nat option"
  w_limit_hit :: bool

definition vcd_new :: vcd_writer where
  "vcd_new =
     \<lparr>w_out = \<lparr>ct_inner = [], ct_bytes = 0\<rparr>, w_next_id = 0, w_vars = [], w_by_id = (\<lambda>_. None), w_scope_depth = 0, w_time = 0,
      w_time_written = False, w_dumping = True, w_byte_limit = None, w_limit_hit = False\<rparr>"

definition ct_write :: "string \<Rightarrow> counting \<Rightarrow> counting" where
  "ct_write s c = c\<lparr>ct_inner := ct_inner c @ s, ct_bytes := ct_bytes c + length s\<rparr>"

definition put_line :: "string \<Rightarrow> vcd_writer \<Rightarrow> vcd_writer" where
  "put_line s w = w\<lparr>w_out := ct_write (s @ [CHR 0x0A]) (w_out w)\<rparr>"

definition set_limit :: "nat \<Rightarrow> vcd_writer \<Rightarrow> vcd_writer" where
  "set_limit n w = w\<lparr>w_byte_limit := Some n\<rparr>"

definition width_of :: "vcd_writer \<Rightarrow> nat \<Rightarrow> nat option option" where
  "width_of w idc =
     (case w_by_id w idc of None \<Rightarrow> Some None | Some i \<Rightarrow> if i < length (w_vars w) then Some (Some (vm_width (w_vars w ! i))) else None)"

text \<open>Is the record suppressed; the transition writes the comment.\<close>

definition limit_comment :: string where
  "limit_comment = ''$comment Dump limit reached $end''"

definition check_limit :: "vcd_writer \<Rightarrow> bool \<times> vcd_writer" where
  "check_limit w =
     (if w_limit_hit w then (True, w)
      else case w_byte_limit w of
             Some limit \<Rightarrow>
               if limit \<le> ct_bytes (w_out w) then (True, put_line limit_comment (w\<lparr>w_limit_hit := True\<rparr>)) else (False, w)
           | None \<Rightarrow> (False, w))"

definition newline :: string where "newline = [CHR 0x0A]"

text \<open>\<open>version\<close> is the version of the crate.\<close>

definition write_preamble :: "string \<Rightarrow> string \<Rightarrow> string \<Rightarrow> vcd_writer \<Rightarrow> vcd_writer" where
  "write_preamble version date tunit w =
     put_line (''$timescale '' @ tunit @ '' $end'')
       (put_line (''$comment'' @ newline @ ''   Generated by vitamin RTL simulator'' @ newline @ ''$end'')
          (put_line (''$version'' @ newline @ ''   vitamin-sim '' @ version @ newline @ ''$end'')
             (put_line (''$date'' @ newline @ ''   '' @ date @ newline @ ''$end'') w)))"

definition push_scope :: "scope_type \<Rightarrow> string \<Rightarrow> vcd_writer \<Rightarrow> vcd_writer" where
  "push_scope s name w =
     (let w = put_line (''$scope '' @ scope_keyword s @ '' '' @ name @ '' $end'') w in w\<lparr>w_scope_depth := w_scope_depth w + 1\<rparr>)"

definition pop_scope :: "vcd_writer \<Rightarrow> vcd_writer option" where
  "pop_scope w =
     (if 0 < w_scope_depth w
      then Some (let w = put_line ''$upscope $end'' w in w\<lparr>w_scope_depth := w_scope_depth w - 1\<rparr>)
      else None)"

definition declare_var :: "var_type \<Rightarrow> nat \<Rightarrow> string \<Rightarrow> vcd_writer \<Rightarrow> nat \<times> vcd_writer" where
  "declare_var v width name w =
     (let idc = w_next_id w; idx = length (w_vars w); real = (v = VarReal \<or> v = VarRealtime);
          w = w\<lparr>w_next_id := idc + 1, w_vars := w_vars w @ [\<lparr>vm_id = idc, vm_width = width, vm_real = real\<rparr>],
                w_by_id := (w_by_id w)(idc \<mapsto> idx)\<rparr>
      in (idc, put_line (''$var '' @ var_keyword v @ '' '' @ dec_string width @ '' '' @ id_text idc @ '' '' @ name @ '' $end'') w))"

definition write_header :: "vcd_writer \<Rightarrow> vcd_writer" where
  "write_header w = put_line ''$enddefinitions $end'' w"

definition write_comment :: "string \<Rightarrow> vcd_writer \<Rightarrow> vcd_writer" where
  "write_comment txt w = put_line (''$comment'' @ newline @ ''   '' @ txt @ newline @ ''$end'') w"

definition is_real_var :: "vcd_writer \<Rightarrow> nat \<Rightarrow> bool option" where
  "is_real_var w idc =
     (case w_by_id w idc of None \<Rightarrow> Some False | Some i \<Rightarrow> if i < length (w_vars w) then Some (vm_real (w_vars w ! i)) else None)"

definition write_change :: "nat \<Rightarrow> bit_packed \<Rightarrow> nat \<Rightarrow> vcd_writer \<Rightarrow> vcd_writer option" where
  "write_change idc bits width w = map_option (\<lambda>real. put_line (encode_change real idc bits width) w) (is_real_var w idc)"

definition value_change :: "nat \<Rightarrow> bit_packed \<Rightarrow> nat \<Rightarrow> vcd_writer \<Rightarrow> vcd_writer option" where
  "value_change idc bits width w =
     (if \<not> w_dumping w then Some w
      else case check_limit w of (True, w) \<Rightarrow> Some w | (False, w) \<Rightarrow> write_change idc bits width w)"

definition set_time :: "nat \<Rightarrow> vcd_writer \<Rightarrow> vcd_writer" where
  "set_time t w =
     (if w_time_written w \<and> t = w_time w then w
      else let (stop, w) = check_limit w; w = (if stop then w else put_line (''#'' @ dec_string t) w)
           in w\<lparr>w_time := t, w_time_written := True\<rparr>)"

fun write_changes :: "(nat \<times> bit_packed \<times> nat) list \<Rightarrow> vcd_writer \<Rightarrow> vcd_writer option" where
  "write_changes [] w = Some w"
| "write_changes ((idc, bits, width) # cs) w = Option.bind (write_change idc bits width w) (write_changes cs)"

definition dump_block :: "string \<Rightarrow> (nat \<times> bit_packed \<times> nat) list \<Rightarrow> vcd_writer \<Rightarrow> vcd_writer option" where
  "dump_block key cs w = map_option (put_line ''$end'') (write_changes cs (put_line key w))"

definition dump_initial :: "(nat \<times> bit_packed \<times> nat) list \<Rightarrow> vcd_writer \<Rightarrow> vcd_writer option" where
  "dump_initial cs w = dump_block ''$dumpvars'' cs w"

definition dump_all :: "(nat \<times> bit_packed \<times> nat) list \<Rightarrow> vcd_writer \<Rightarrow> vcd_writer option" where
  "dump_all cs w = (case check_limit w of (True, w) \<Rightarrow> Some w | (False, w) \<Rightarrow> dump_block ''$dumpall'' cs w)"

definition unknown_line :: "var_meta \<Rightarrow> string" where
  "unknown_line m =
     (if vm_width m \<le> 1 then ''x'' @ id_text (vm_id m) else ''b'' @ replicate (vm_width m) (CHR ''x'') @ '' '' @ id_text (vm_id m))"

definition dump_off :: "vcd_writer \<Rightarrow> vcd_writer" where
  "dump_off w =
     (case check_limit w of
        (True, w) \<Rightarrow> w\<lparr>w_dumping := False\<rparr>
      | (False, w) \<Rightarrow>
          (put_line ''$end'' (fold (\<lambda>m. put_line (unknown_line m)) (w_vars w) (put_line ''$dumpoff'' w)))\<lparr>w_dumping := False\<rparr>)"

definition dump_on :: "(nat \<times> bit_packed \<times> nat) list \<Rightarrow> vcd_writer \<Rightarrow> vcd_writer option" where
  "dump_on cs w =
     (case check_limit (w\<lparr>w_dumping := True\<rparr>) of (True, w) \<Rightarrow> Some w | (False, w) \<Rightarrow> dump_block ''$dumpon'' cs w)"

section \<open>Runs\<close>

datatype vcd_op =
    OpLimit nat | OpPreamble string string string | OpPush scope_type string | OpPop | OpDeclare var_type nat string | OpHeader
  | OpComment string | OpChange nat bit_packed nat | OpTime nat | OpInitial "(nat \<times> bit_packed \<times> nat) list"
  | OpAll "(nat \<times> bit_packed \<times> nat) list" | OpOff | OpOn "(nat \<times> bit_packed \<times> nat) list"

definition vcd_step :: "vcd_op \<Rightarrow> vcd_writer \<Rightarrow> vcd_writer option" where
  "vcd_step op w =
     (case op of
        OpLimit n \<Rightarrow> Some (set_limit n w) | OpPreamble v d u \<Rightarrow> Some (write_preamble v d u w) | OpPush s n \<Rightarrow> Some (push_scope s n w)
      | OpPop \<Rightarrow> pop_scope w | OpDeclare v wd n \<Rightarrow> Some (snd (declare_var v wd n w)) | OpHeader \<Rightarrow> Some (write_header w)
      | OpComment t \<Rightarrow> Some (write_comment t w) | OpChange idc b wd \<Rightarrow> value_change idc b wd w | OpTime t \<Rightarrow> Some (set_time t w)
      | OpInitial cs \<Rightarrow> dump_initial cs w | OpAll cs \<Rightarrow> dump_all cs w | OpOff \<Rightarrow> Some (dump_off w) | OpOn cs \<Rightarrow> dump_on cs w)"

fun vcd_run :: "vcd_op list \<Rightarrow> vcd_writer \<Rightarrow> vcd_writer option" where
  "vcd_run [] w = Some w"
| "vcd_run (op # ops) w = Option.bind (vcd_step op w) (vcd_run ops)"

end
