(* ===== verification/VcdCorrect.thy ===== *)
theory VcdCorrect
  imports Vcd
begin

text \<open>
  The promises of the VCD writer: identifier codes and value changes decode to what was written, the tables of the
  writer stay consistent over every run, every time is stamped once, and nothing is dumped past the byte limit.
\<close>

section \<open>Identifier codes decode\<close>

fun id_num :: "string \<Rightarrow> nat" where
  "id_num [] = 0"
| "id_num (c # cs) = of_char c - 33 + (if cs = [] then 0 else 94 * (id_num cs + 1))"

definition id_value :: "string \<Rightarrow> nat" where
  "id_value s = id_num (rev s)"

lemma of_char_id: "k < 94 \<Longrightarrow> of_char (char_of (33 + k)) = (33 + k :: nat)"
  by (simp add: of_char_of)

lemma id_digits_ne: "id_digits n \<noteq> []"
  by (subst id_digits.simps) simp

lemma id_num_digits: "id_num (id_digits n) = n"
proof (induction n rule: id_digits.induct)
  case (1 n)
  have c: "of_char (char_of (33 + n mod 94)) = 33 + n mod 94" by (rule of_char_id) simp
  show ?case
  proof (cases "n div 94 = 0")
    case True
    then show ?thesis using c by (subst id_digits.simps) simp
  next
    case False
    then have "id_num (id_digits (n div 94 - 1)) = n div 94 - 1" using 1 by simp
    then have "id_num (id_digits n) = n mod 94 + 94 * (n div 94)" using False c id_digits_ne by (subst id_digits.simps) simp
    then show ?thesis by simp
  qed
qed

lemma id_chars: "c \<in> set (id_digits n) \<Longrightarrow> 33 \<le> (of_char c :: nat) \<and> (of_char c :: nat) \<le> 126"
proof (induction n rule: id_digits.induct)
  case (1 n)
  have "of_char (char_of (33 + n mod 94)) = 33 + n mod 94" by (rule of_char_id) simp
  moreover have "n mod 94 < 94" by simp
  ultimately have "33 \<le> (of_char (char_of (33 + n mod 94)) :: nat) \<and> of_char (char_of (33 + n mod 94)) \<le> (126 :: nat)" by linarith
  then show ?case using 1 by (subst (asm) (2) id_digits.simps) (auto split: if_splits)
qed

text \<open>The identifier code of a variable reads back as its allocation index, so no two variables share a code, and it
  consists of printable characters other than the blank, at least one.\<close>

theorem id_code_reads_back:
  "id_value (id_text n) = n \<and> id_text n \<noteq> [] \<and> list_all (\<lambda>c. 33 \<le> (of_char c :: nat) \<and> (of_char c :: nat) \<le> 126) (id_text n)"
  using id_chars by (auto simp: id_value_def id_text_def id_num_digits id_digits_ne list_all_iff)

section \<open>Value changes decode\<close>

definition char_logic :: "char \<Rightarrow> logic4" where
  "char_logic c = (if c = CHR ''0'' then L0 else if c = CHR ''1'' then L1 else if c = CHR ''x'' then LX else LZ)"

lemma char_logic_char [simp]: "char_logic (logic_char b) = b"
  by (cases b) (simp_all add: char_logic_def logic_char_def)

text \<open>A reader of a change record: the bits from bit 0 up, and the variable.\<close>

definition read_change :: "string \<Rightarrow> logic4 list \<times> nat" where
  "read_change s =
     (case s of
        [] \<Rightarrow> ([], 0)
      | c # rest \<Rightarrow>
          if c = CHR ''b''
          then (map char_logic (rev (takeWhile (\<lambda>c. c \<noteq> CHR '' '') rest)), id_value (drop 1 (dropWhile (\<lambda>c. c \<noteq> CHR '' '') rest)))
          else ([char_logic c], id_value rest))"

text \<open>C31: A value-change record of an integral variable decodes to the variable and to every bit of the value, unknown
  and high-impedance ones included: one bit for a scalar, all of the declared width for a vector.\<close>

theorem value_change_reads_back:
  "read_change (encode_value idc bits width) = (map (pk_bit bits) [0..<max width 1], idc)"
proof (cases "width \<le> 1")
  case True
  have "logic_char b \<noteq> CHR ''b''" for b by (cases b) (simp_all add: logic_char_def)
  then show ?thesis using True id_code_reads_back [of idc] by (simp add: encode_value_def read_change_def bit_char_def max_def)
next
  case False
  have ne: "\<forall>c \<in> set (map (bit_char bits) (rev [0..<width])). c \<noteq> CHR '' ''"
  proof -
    have "logic_char b \<noteq> CHR '' ''" for b by (cases b) (simp_all add: logic_char_def)
    then show ?thesis by (auto simp: bit_char_def)
  qed
  let ?s = "map (bit_char bits) (rev [0..<width])" and ?t = "CHR '' '' # id_text idc"
  have "takeWhile (\<lambda>c. c \<noteq> CHR '' '') (?s @ ?t) = ?s" "dropWhile (\<lambda>c. c \<noteq> CHR '' '') (?s @ ?t) = ?t"
    using ne by (subst takeWhile_append2 dropWhile_append2; auto)+
  moreover have "rev ?s = map (bit_char bits) [0..<width]" by (simp add: rev_map [symmetric])
  moreover have "char_logic \<circ> bit_char bits = pk_bit bits" by (simp add: fun_eq_iff bit_char_def)
  moreover have "max width 1 = width" using False by simp
  ultimately show ?thesis using False id_code_reads_back [of idc]
    by (simp add: encode_value_def read_change_def)
qed

section \<open>The tables\<close>

definition writer_ok :: "vcd_writer \<Rightarrow> bool" where
  "writer_ok w \<longleftrightarrow>
     ct_bytes (w_out w) = length (ct_inner (w_out w)) \<and> w_next_id w = length (w_vars w) \<and>
     (\<forall>i < length (w_vars w). vm_id (w_vars w ! i) = i) \<and>
     w_by_id w = (\<lambda>i. if i < length (w_vars w) then Some i else None)"

definition extends :: "vcd_writer \<Rightarrow> vcd_writer \<Rightarrow> bool" where
  "extends w w' \<longleftrightarrow> (\<exists>s. ct_inner (w_out w') = ct_inner (w_out w) @ s)"

lemma extends_refl: "extends w w" by (simp add: extends_def)
lemma extends_trans: "extends a b \<Longrightarrow> extends b c \<Longrightarrow> extends a c" by (auto simp: extends_def)

lemma put_line_ok: "writer_ok (put_line s w) = writer_ok w" "extends w (put_line s w)"
  by (auto simp: put_line_def ct_write_def writer_ok_def extends_def)

lemma put_line_fields:
  "w_vars (put_line s w) = w_vars w" "w_by_id (put_line s w) = w_by_id w" "w_limit_hit (put_line s w) = w_limit_hit w"
  "w_byte_limit (put_line s w) = w_byte_limit w" "w_dumping (put_line s w) = w_dumping w" "w_time (put_line s w) = w_time w"
  "w_time_written (put_line s w) = w_time_written w" "w_scope_depth (put_line s w) = w_scope_depth w"
  "ct_inner (w_out (put_line s w)) = ct_inner (w_out w) @ s @ newline"
  by (simp_all add: put_line_def ct_write_def newline_def)

lemma is_real_ok: "writer_ok w \<Longrightarrow> \<exists>r. is_real_var w i = Some r"
  by (auto simp: is_real_var_def writer_ok_def)

text \<open>An update that touches neither the output nor the tables.\<close>

definition quiet :: "vcd_writer \<Rightarrow> vcd_writer \<Rightarrow> bool" where
  "quiet w w' \<longleftrightarrow> w_out w' = w_out w \<and> w_next_id w' = w_next_id w \<and> w_vars w' = w_vars w \<and> w_by_id w' = w_by_id w"

lemma quiet_ok: "quiet w w' \<Longrightarrow> writer_ok w' = writer_ok w" "quiet w w' \<Longrightarrow> extends w w'"
  by (auto simp: quiet_def writer_ok_def extends_def)

definition advanced :: "vcd_writer \<Rightarrow> vcd_writer \<Rightarrow> bool" where
  "advanced w w' \<longleftrightarrow> (writer_ok w \<longrightarrow> writer_ok w') \<and> extends w w'"

lemma advancedI [intro]: "advanced w w" "advanced w (put_line s w)" "quiet w w' \<Longrightarrow> advanced w w'"
  using put_line_ok quiet_ok extends_refl by (auto simp: advanced_def)

lemma advanced_trans: "advanced a b \<Longrightarrow> advanced b c \<Longrightarrow> advanced a c"
  using extends_trans by (auto simp: advanced_def)

lemma advanced_put: "advanced w u \<Longrightarrow> advanced w (put_line s u)"
  using advanced_trans advancedI(2) by blast

lemma advanced_quiet: "advanced w u \<Longrightarrow> quiet u v \<Longrightarrow> advanced w v"
  using advanced_trans advancedI(3) by blast

lemma check_limit_ok: "advanced w (snd (check_limit w))"
proof -
  have "quiet w (w\<lparr>w_limit_hit := True\<rparr>)" by (simp add: quiet_def)
  then have "advanced w (put_line limit_comment (w\<lparr>w_limit_hit := True\<rparr>))" by (blast intro: advanced_trans)
  then show ?thesis by (auto simp: check_limit_def split: option.splits)
qed

lemma write_change_ok: "writer_ok w \<Longrightarrow> \<exists>w'. write_change i b wd w = Some w' \<and> advanced w w'"
  using is_real_ok [of w i] by (auto simp: write_change_def)

lemma write_changes_ok: "writer_ok w \<Longrightarrow> \<exists>w'. write_changes cs w = Some w' \<and> advanced w w'"
proof (induction cs w rule: write_changes.induct)
  case (2 i b wd cs w)
  obtain w1 where w1: "write_change i b wd w = Some w1" "advanced w w1" using write_change_ok [OF 2(2)] by blast
  then show ?case using 2 by (auto simp: advanced_def intro: extends_trans)
qed auto

lemma dump_block_ok: "writer_ok w \<Longrightarrow> \<exists>w'. dump_block key cs w = Some w' \<and> advanced w w'"
proof -
  assume w: "writer_ok w"
  then obtain w1 where "write_changes cs (put_line key w) = Some w1" "advanced (put_line key w) w1"
    using write_changes_ok [of "put_line key w"] put_line_ok by blast
  moreover have "advanced w (put_line ''$end'' w1)" if "advanced (put_line key w) w1" for w1
    using that by (blast intro: advanced_trans)
  ultimately show ?thesis by (auto simp: dump_block_def)
qed

lemma fold_lines_ok: "advanced w (fold (\<lambda>m. put_line (f m)) ms w)"
  by (induction ms arbitrary: w) (auto intro: advanced_trans)

lemma vcd_step_ok:
  assumes w: "writer_ok w" and pop: "op = OpPop \<Longrightarrow> 0 < w_scope_depth w"
  shows "\<exists>w'. vcd_step op w = Some w' \<and> writer_ok w' \<and> extends w w'"
proof -
  have limit: "\<exists>w'. (case check_limit v of (True, w) \<Rightarrow> Some w | (False, w) \<Rightarrow> g w) = Some w' \<and> advanced v w'"
    if "\<And>u. writer_ok u \<Longrightarrow> \<exists>w'. g u = Some w' \<and> advanced u w'" "writer_ok v" for g v
    using check_limit_ok [of v] that by (cases "check_limit v") (auto simp: advanced_def intro: extends_trans split: bool.splits)
  have "\<exists>w'. vcd_step op w = Some w' \<and> advanced w w'"
  proof (cases op)
    case (OpDeclare v wd n)
    let ?i = "w_next_id w"
    define u where "u = w\<lparr>w_next_id := ?i + 1, w_vars := w_vars w @ [\<lparr>vm_id = ?i, vm_width = wd, vm_real = (v = VarReal \<or> v = VarRealtime)\<rparr>],
                w_by_id := (w_by_id w)(?i \<mapsto> length (w_vars w))\<rparr>"
    have u: "writer_ok u" using w by (auto simp: u_def writer_ok_def nth_append fun_eq_iff less_Suc_eq)
    have "extends w u" by (simp add: extends_def u_def)
    then have "advanced w u" using u by (simp add: advanced_def)
    moreover have "\<exists>s. snd (declare_var v wd n w) = put_line s u" by (auto simp: declare_var_def Let_def u_def)
    ultimately have "advanced w (snd (declare_var v wd n w))" by (auto intro: advanced_put)
    then show ?thesis by (simp add: OpDeclare vcd_step_def)
  next
    case (OpTime t)
    have q: "quiet u (u\<lparr>w_time := t, w_time_written := True\<rparr>)" for u by (simp add: quiet_def)
    obtain stop v where v: "check_limit w = (stop, v)" "advanced w v" using check_limit_ok [of w] by (cases "check_limit w") auto
    have "advanced w (set_time t w)"
      using v advanced_quiet [OF v(2) q] advanced_quiet [OF advanced_put [OF v(2)] q]
      by (cases "w_time_written w \<and> t = w_time w"; cases stop) (auto simp: set_time_def Let_def)
    then show ?thesis by (simp add: OpTime vcd_step_def)
  next
    case OpOff
    have q: "advanced u (u\<lparr>w_dumping := b\<rparr>)" for u b by (auto simp: quiet_def)
    have "advanced w (dump_off w)"
    proof (cases "check_limit w")
      case (Pair stop v)
      then have v: "advanced w v" using check_limit_ok [of w] by simp
      show ?thesis
      proof (cases stop)
        case False
        have "advanced v (put_line ''$end'' (fold (\<lambda>m. put_line (unknown_line m)) (w_vars v) (put_line ''$dumpoff'' v)))"
          using fold_lines_ok by (blast intro: advanced_trans)
        then show ?thesis using False Pair v q by (simp add: dump_off_def) (blast intro: advanced_trans)
      qed (use Pair v q in \<open>simp add: dump_off_def, blast intro: advanced_trans\<close>)
    qed
    then show ?thesis by (simp add: OpOff vcd_step_def)
  next
    case (OpOn cs)
    have "quiet w (w\<lparr>w_dumping := True\<rparr>)" by (simp add: quiet_def)
    then have q: "advanced w (w\<lparr>w_dumping := True\<rparr>)" "writer_ok (w\<lparr>w_dumping := True\<rparr>)" using quiet_ok w by blast+
    obtain w' where "dump_on cs w = Some w'" "advanced (w\<lparr>w_dumping := True\<rparr>) w'"
      using limit [OF dump_block_ok q(2), of "\<lambda>_. ''$dumpon''" "\<lambda>_. cs"] by (auto simp: dump_on_def)
    then show ?thesis using q advanced_trans by (auto simp: OpOn vcd_step_def)
  next
    case (OpAll cs)
    then show ?thesis using limit [OF dump_block_ok w, of "\<lambda>_. ''$dumpall''" "\<lambda>_. cs"] by (simp add: vcd_step_def dump_all_def)
  next
    case (OpInitial cs)
    then show ?thesis using dump_block_ok [OF w] by (simp add: vcd_step_def dump_initial_def)
  next
    case (OpChange i b wd)
    then show ?thesis using limit [OF write_change_ok w, of "\<lambda>_. i" "\<lambda>_. b" "\<lambda>_. wd"] by (auto simp: vcd_step_def value_change_def)
  next
    case OpPop
    have "quiet u (u\<lparr>w_scope_depth := n\<rparr>)" for u n by (simp add: quiet_def)
    then have "advanced w (put_line s w\<lparr>w_scope_depth := n\<rparr>)" for s n by (blast intro: advanced_trans)
    then show ?thesis using pop OpPop by (simp add: vcd_step_def pop_scope_def Let_def)
  next
    case (OpPush s n)
    have "quiet u (u\<lparr>w_scope_depth := n\<rparr>)" for u n by (simp add: quiet_def)
    then have "advanced w (put_line s w\<lparr>w_scope_depth := n\<rparr>)" for s n by (blast intro: advanced_trans)
    then show ?thesis using OpPush by (simp add: vcd_step_def push_scope_def Let_def)
  next
    case (OpLimit n)
    have "quiet w (set_limit n w)" by (simp add: quiet_def set_limit_def)
    then show ?thesis using OpLimit by (auto simp: vcd_step_def)
  qed (auto simp: vcd_step_def write_preamble_def write_header_def write_comment_def intro!: advanced_put)
  then show ?thesis using w by (auto simp: advanced_def)
qed

section \<open>Scopes\<close>

text \<open>Every scope closed was opened: \<open>d\<close> scopes are open before the first operation.\<close>

fun scopes_ok :: "nat \<Rightarrow> vcd_op list \<Rightarrow> bool" where
  "scopes_ok d [] \<longleftrightarrow> True"
| "scopes_ok d (op # ops) \<longleftrightarrow>
     (case op of OpPush _ _ \<Rightarrow> scopes_ok (Suc d) ops | OpPop \<Rightarrow> 0 < d \<and> scopes_ok (d - 1) ops | _ \<Rightarrow> scopes_ok d ops)"

lemma write_changes_depth: "write_changes cs w = Some w' \<Longrightarrow> w_scope_depth w' = w_scope_depth w"
proof (induction cs w rule: write_changes.induct)
  case (2 i b wd cs w)
  then show ?case by (cases "is_real_var w i") (auto simp: write_change_def put_line_fields)
qed simp

lemma dump_block_depth: "dump_block key cs w = Some w' \<Longrightarrow> w_scope_depth w' = w_scope_depth w"
  using write_changes_depth [of cs "put_line key w"] by (auto simp: dump_block_def put_line_fields)

lemma fold_lines_depth: "w_scope_depth (fold (\<lambda>m. put_line (f m)) ms w) = w_scope_depth w"
  by (induction ms arbitrary: w) (simp_all add: put_line_fields)

lemma check_limit_depth: "w_scope_depth (snd (check_limit w)) = w_scope_depth w"
  by (simp add: check_limit_def put_line_fields split: option.split)

lemma vcd_step_depth:
  assumes "vcd_step op w = Some w'"
  shows "w_scope_depth w' = (case op of OpPush _ _ \<Rightarrow> Suc (w_scope_depth w) | OpPop \<Rightarrow> w_scope_depth w - 1 | _ \<Rightarrow> w_scope_depth w)"
proof -
  have c: "w_scope_depth v = w_scope_depth u" if "check_limit u = (stop, v)" for u v stop
    using check_limit_depth [of u] that by simp
  show ?thesis
  proof (cases op)
    case (OpChange i b wd)
    then show ?thesis using assms c
      by (auto simp: vcd_step_def value_change_def write_change_def put_line_fields split: if_splits prod.splits bool.splits)
  next
    case (OpTime t)
    then show ?thesis using assms c by (auto simp: vcd_step_def set_time_def put_line_fields Let_def split: if_splits prod.splits)
  next
    case (OpAll cs)
    then show ?thesis using assms c dump_block_depth
      by (fastforce simp: vcd_step_def dump_all_def split: prod.splits bool.splits)
  next
    case (OpOn cs)
    then show ?thesis using assms c [of "w\<lparr>w_dumping := True\<rparr>"] dump_block_depth
      by (fastforce simp: vcd_step_def dump_on_def split: prod.splits bool.splits)
  next
    case OpOff
    then show ?thesis using assms c
      by (auto simp: vcd_step_def dump_off_def put_line_fields fold_lines_depth split: prod.splits bool.splits)
  next
    case (OpInitial cs)
    then show ?thesis using assms dump_block_depth by (auto simp: vcd_step_def dump_initial_def)
  qed (use assms in \<open>auto simp: vcd_step_def set_limit_def write_preamble_def push_scope_def pop_scope_def declare_var_def
      write_header_def write_comment_def put_line_fields Let_def split: if_splits\<close>)
qed

lemma vcd_run_ok:
  assumes "writer_ok w"
  shows "scopes_ok (w_scope_depth w) ops \<Longrightarrow> \<exists>w'. vcd_run ops w = Some w' \<and> writer_ok w' \<and> extends w w'"
    and "\<not> scopes_ok (w_scope_depth w) ops \<Longrightarrow> vcd_run ops w = None"
proof -
  have "if scopes_ok (w_scope_depth w) ops then \<exists>w'. vcd_run ops w = Some w' \<and> writer_ok w' \<and> extends w w' else vcd_run ops w = None"
    using assms
  proof (induction ops arbitrary: w)
    case (Cons op ops)
    show ?case
    proof (cases "op = OpPop \<and> w_scope_depth w = 0")
      case True
      then show ?thesis by (simp add: vcd_step_def pop_scope_def)
    next
      case False
      then obtain w1 where w1: "vcd_step op w = Some w1" "writer_ok w1" "extends w w1" using vcd_step_ok [OF Cons.prems, of op] by auto
      have "scopes_ok (w_scope_depth w) (op # ops) \<longleftrightarrow> scopes_ok (w_scope_depth w1) ops"
        using vcd_step_depth [OF w1(1)] False by (cases op) auto
      then show ?thesis using Cons.IH [OF w1(2)] w1 extends_trans by (auto split: if_splits)
    qed
  qed (auto intro: extends_refl)
  then show "scopes_ok (w_scope_depth w) ops \<Longrightarrow> \<exists>w'. vcd_run ops w = Some w' \<and> writer_ok w' \<and> extends w w'"
    and "\<not> scopes_ok (w_scope_depth w) ops \<Longrightarrow> vcd_run ops w = None" by (auto split: if_splits)
qed

text \<open>C32: A run of the writer returns exactly when every scope it closes was open: no other operation panics, no lookup
  of a declared variable is out of range.  The byte count then is the length of the output, variables carry their
  declaration index as code, and what was written is never rewritten: the run only appends.\<close>

theorem writer_stays_consistent:
  assumes "writer_ok w"
  shows "if scopes_ok (w_scope_depth w) ops then \<exists>w'. vcd_run ops w = Some w' \<and> writer_ok w' \<and> extends w w'
    else vcd_run ops w = None"
  using vcd_run_ok [OF assms, of ops] by simp

lemma vcd_new_ok: "writer_ok vcd_new"
  by (simp add: writer_ok_def vcd_new_def)

definition sample_header :: "vcd_op list" where
  "sample_header = [OpPush ScopeModule ''m'', OpDeclare VarReg 2 ''r'', OpPop, OpLimit 60]"

definition sample_records :: "vcd_op list" where
  "sample_records = [OpTime 5, OpChange 0 \<lparr>p_val = [2], p_unk = [1]\<rparr> 2, OpTime 7, OpTime 7, OpOff]"

theorem writer_stays_consistent_witness:
  "(\<exists>w. vcd_run (sample_header @ sample_records) vcd_new = Some w \<and> writer_ok w) \<and> vcd_run [OpPush ScopeModule ''m'', OpPop, OpPop] vcd_new = None"
  using writer_stays_consistent [OF vcd_new_ok, of "sample_header @ sample_records"] writer_stays_consistent [OF vcd_new_ok, of "[OpPush ScopeModule ''m'', OpPop, OpPop]"]
  by (auto simp: sample_header_def sample_records_def vcd_new_def split: if_splits)

section \<open>Times\<close>

definition time_line :: "nat \<Rightarrow> string" where
  "time_line t = ''#'' @ dec_string t @ newline"

lemma set_time_unlimited:
  assumes "w_byte_limit w = None" and "\<not> w_limit_hit w"
  shows "w_byte_limit (set_time t w) = None \<and> \<not> w_limit_hit (set_time t w) \<and> w_time_written (set_time t w) \<and> w_time (set_time t w) = t
    \<and> ct_inner (w_out (set_time t w)) = ct_inner (w_out w) @ (if w_time_written w \<and> t = w_time w then [] else time_line t)"
  using assms by (auto simp: set_time_def check_limit_def put_line_fields time_line_def Let_def)

lemma times_from:
  assumes "w_byte_limit w = None" and "\<not> w_limit_hit w" and "w_time_written w"
  shows "ct_inner (w_out (fold set_time ts w)) = ct_inner (w_out w) @ concat (map time_line (drop 1 (remdups_adj (w_time w # ts))))"
  using assms
proof (induction ts arbitrary: w)
  case (Cons t ts)
  note s = set_time_unlimited [OF Cons.prems(1,2), of t]
  obtain r where r: "remdups_adj (t # ts) = t # r" by (cases "remdups_adj (t # ts)") (auto simp: remdups_adj_Cons split: list.splits if_splits)
  show ?case using Cons.IH [of "set_time t w"] s Cons.prems(3) r by (auto simp: remdups_adj_Cons split: if_splits)
qed simp

text \<open>Without a byte limit, announcing a sequence of times to a fresh writer writes one stamp per run of equal times,
  in order, and nothing else.\<close>

theorem times_stamped_once:
  "ct_inner (w_out (fold set_time ts vcd_new)) = concat (map time_line (remdups_adj ts))"
proof (cases ts)
  case (Cons t r)
  have f: "w_byte_limit vcd_new = None" "\<not> w_limit_hit vcd_new" "\<not> w_time_written vcd_new" "ct_inner (w_out vcd_new) = []"
    by (simp_all add: vcd_new_def)
  note s = set_time_unlimited [OF f(1,2), of t]
  obtain q where "remdups_adj (t # r) = t # q" by (cases "remdups_adj (t # r)") (auto simp: remdups_adj_Cons split: list.splits if_splits)
  then show ?thesis using times_from [of "set_time t vcd_new" r] s f Cons by simp
qed (simp add: vcd_new_def)

section \<open>The byte limit\<close>

text \<open>The operations that ask the limit.\<close>

definition gated :: "vcd_op \<Rightarrow> bool" where
  "gated op \<longleftrightarrow> (case op of OpChange _ _ _ \<Rightarrow> True | OpTime _ \<Rightarrow> True | OpAll _ \<Rightarrow> True | OpOff \<Rightarrow> True | OpOn _ \<Rightarrow> True | _ \<Rightarrow> False)"

lemma write_changes_limit:
  "write_changes cs w = Some w' \<Longrightarrow> w_limit_hit w' = w_limit_hit w \<and> w_byte_limit w' = w_byte_limit w"
proof (induction cs w rule: write_changes.induct)
  case (2 i b wd cs w)
  then show ?case by (cases "is_real_var w i") (auto simp: write_change_def put_line_fields)
qed simp

lemma dump_block_limit: "dump_block key cs w = Some w' \<Longrightarrow> w_limit_hit w' = w_limit_hit w \<and> w_byte_limit w' = w_byte_limit w"
  using write_changes_limit [of cs "put_line key w"] by (auto simp: dump_block_def put_line_fields)

lemma fold_lines_limit:
  "w_limit_hit (fold (\<lambda>m. put_line (f m)) ms w) = w_limit_hit w" "w_byte_limit (fold (\<lambda>m. put_line (f m)) ms w) = w_byte_limit w"
  by (induction ms arbitrary: w) (simp_all add: put_line_fields)

text \<open>The records that ask it in the state they meet: a change while dumping is off and a time already written return first.\<close>

fun asks :: "vcd_op \<Rightarrow> vcd_writer \<Rightarrow> bool" where
  "asks (OpChange _ _ _) w \<longleftrightarrow> w_dumping w"
| "asks (OpTime t) w \<longleftrightarrow> \<not> (w_time_written w \<and> t = w_time w)"
| "asks (OpAll _) w \<longleftrightarrow> True"
| "asks OpOff w \<longleftrightarrow> True"
| "asks (OpOn _) w \<longleftrightarrow> True"
| "asks _ w \<longleftrightarrow> False"

text \<open>One gated step: past the limit nothing is written; before it, the step writes the comment as its only output exactly
  when it asks and the budget is used up.\<close>

lemma gated_step:
  assumes "gated op" and "vcd_step op w = Some w'"
  shows "w_byte_limit w' = w_byte_limit w"
    and "w_limit_hit w \<Longrightarrow> w_limit_hit w' \<and> w_out w' = w_out w"
    and "\<not> w_limit_hit w \<Longrightarrow> w_limit_hit w' \<longleftrightarrow> asks op w \<and> (\<exists>l. w_byte_limit w = Some l \<and> l \<le> ct_bytes (w_out w))"
    and "\<not> w_limit_hit w \<Longrightarrow> w_limit_hit w' \<Longrightarrow> ct_inner (w_out w') = ct_inner (w_out w) @ limit_comment @ newline"
proof -
  have c: "check_limit w = (True, w)" if "w_limit_hit w" for w using that by (simp add: check_limit_def)
  have n: "(\<forall>l. w_byte_limit w = Some l \<longrightarrow> ct_bytes (w_out w) < l) \<and> check_limit w = (False, w) \<or> (\<exists>l. w_byte_limit w = Some l \<and> l \<le> ct_bytes (w_out w)
      \<and> check_limit w = (True, put_line limit_comment (w\<lparr>w_limit_hit := True\<rparr>)))" if "\<not> w_limit_hit w" for w
    using that by (auto simp: check_limit_def split: option.splits)
  note all = put_line_fields write_change_def dump_block_limit fold_lines_limit
  have "w_byte_limit w' = w_byte_limit w \<and> (w_limit_hit w \<longrightarrow> w_limit_hit w' \<and> w_out w' = w_out w)
    \<and> (\<not> w_limit_hit w \<longrightarrow> (w_limit_hit w' \<longleftrightarrow> asks op w \<and> (\<exists>l. w_byte_limit w = Some l \<and> l \<le> ct_bytes (w_out w)))
      \<and> (w_limit_hit w' \<longrightarrow> ct_inner (w_out w') = ct_inner (w_out w) @ limit_comment @ newline))"
  proof (cases "w_limit_hit w")
    case True
    then show ?thesis using assms(1,2) c [of w] c [of "w\<lparr>w_dumping := True\<rparr>"]
      by (auto simp: gated_def vcd_step_def value_change_def set_time_def dump_all_def dump_off_def dump_on_def Let_def split: vcd_op.splits if_splits)
  next
    case False
    let ?d = "w\<lparr>w_dumping := True\<rparr>"
    show ?thesis
      using assms(1,2) False n [OF False] n [of ?d]
      by (cases op) (auto simp: gated_def vcd_step_def value_change_def set_time_def dump_all_def dump_off_def dump_on_def all Let_def
          dest: dump_block_limit split: if_splits)
  qed
  then show "w_byte_limit w' = w_byte_limit w"
    and "w_limit_hit w \<Longrightarrow> w_limit_hit w' \<and> w_out w' = w_out w"
    and "\<not> w_limit_hit w \<Longrightarrow> w_limit_hit w' \<longleftrightarrow> asks op w \<and> (\<exists>l. w_byte_limit w = Some l \<and> l \<le> ct_bytes (w_out w))"
    and "\<not> w_limit_hit w \<Longrightarrow> w_limit_hit w' \<Longrightarrow> ct_inner (w_out w') = ct_inner (w_out w) @ limit_comment @ newline"
    by blast+
qed

lemma past_limit: "vcd_run ops v = Some v' \<Longrightarrow> w_limit_hit v \<Longrightarrow> list_all gated ops \<Longrightarrow> w_limit_hit v' \<and> w_out v' = w_out v"
proof (induction ops arbitrary: v)
  case (Cons o2 os)
  then obtain v1 where v1: "vcd_step o2 v = Some v1" "vcd_run os v1 = Some v'" by (auto simp: bind_eq_Some_conv)
  then show ?case using gated_step(2) [OF _ v1(1)] Cons by auto
qed simp

text \<open>Every record of \<open>ops\<close> that asked the limit, run from \<open>w\<close>, met fewer than \<open>l\<close> bytes of output.\<close>

definition under_limit :: "nat \<Rightarrow> vcd_op list \<Rightarrow> vcd_writer \<Rightarrow> bool" where
  "under_limit l ops w \<longleftrightarrow>
     (\<forall>pre op post v. ops = pre @ op # post \<and> vcd_run pre w = Some v \<and> asks op v \<longrightarrow> length (ct_inner (w_out v)) < l)"

lemma under_limit_Cons:
  assumes "vcd_step op w = Some w1" and "asks op w \<Longrightarrow> length (ct_inner (w_out w)) < l" and "under_limit l ops w1"
  shows "under_limit l (op # ops) w"
  unfolding under_limit_def
proof (intro allI impI, elim conjE)
  fix pre o2 post v assume h: "op # ops = pre @ o2 # post" "vcd_run pre w = Some v" "asks o2 v"
  show "length (ct_inner (w_out v)) < l"
  proof (cases pre)
    case Nil
    then show ?thesis using h assms(2) by simp
  next
    case (Cons p ps)
    then have "ops = ps @ o2 # post" "vcd_run ps w1 = Some v" using h assms(1) by simp_all
    then show ?thesis using assms(3) h(3) unfolding under_limit_def by blast
  qed
qed

text \<open>C40: What a byte limit \<open>l\<close> does to a run of records that ask it (value changes, time stamps, dump blocks).  When the
  limit is hit, there is one record at which it happens: the first that asks with \<open>l\<close> or more bytes already written.
  The output is what was written before that record and then the limit comment, once: that record and all later ones
  write nothing.  When the limit is not hit, no record of the run asked with \<open>l\<close> or more bytes written.\<close>

theorem nothing_past_the_limit:
  assumes "writer_ok w" and "list_all gated ops" and "\<not> w_limit_hit w" and "vcd_run ops w = Some w'" and "w_byte_limit w = Some l"
  shows "if w_limit_hit w'
    then \<exists>before op rest u. ops = before @ op # rest \<and> vcd_run before w = Some u \<and> under_limit l before w
      \<and> asks op u \<and> l \<le> length (ct_inner (w_out u)) \<and> ct_inner (w_out w') = ct_inner (w_out u) @ limit_comment @ newline
    else under_limit l ops w"
  using assms
proof (induction ops arbitrary: w)
  case Nil
  then show ?case by (simp add: under_limit_def)
next
  case (Cons op ops)
  obtain w1 where w1: "vcd_step op w = Some w1" "vcd_run ops w1 = Some w'" using Cons.prems(4) by (auto simp: bind_eq_Some_conv)
  have g: "gated op" "list_all gated ops" using Cons.prems(2) by simp_all
  note s = gated_step [OF g(1) w1(1)]
  have "op \<noteq> OpPop" using g(1) by (auto simp: gated_def)
  then have ok1: "writer_ok w1" using vcd_step_ok [OF Cons.prems(1), of op] w1(1) by auto
  have bytes: "ct_bytes (w_out w) = length (ct_inner (w_out w))" using Cons.prems(1) by (simp add: writer_ok_def)
  show ?case
  proof (cases "w_limit_hit w1")
    case True
    have "w_limit_hit w'" "ct_inner (w_out w') = ct_inner (w_out w) @ limit_comment @ newline"
      using past_limit [OF w1(2) True g(2)] s(4) [OF Cons.prems(3) True] by simp_all
    moreover have "asks op w" "l \<le> length (ct_inner (w_out w))" using s(3) [OF Cons.prems(3)] True Cons.prems(5) bytes by auto
    moreover have "under_limit l [] w" by (simp add: under_limit_def)
    moreover have "op # ops = [] @ op # ops" "vcd_run [] w = Some w" by simp_all
    ultimately show ?thesis by (simp only: if_True) blast
  next
    case False
    have lt: "length (ct_inner (w_out w)) < l" if "asks op w" using s(3) [OF Cons.prems(3)] False Cons.prems(5) bytes that by auto
    note IH = Cons.IH [OF ok1 g(2) False w1(2)] s(1) Cons.prems(5)
    show ?thesis
    proof (cases "w_limit_hit w'")
      case True
      then obtain ds o2 rest u where h: "ops = ds @ o2 # rest" "vcd_run ds w1 = Some u" "under_limit l ds w1" "asks o2 u"
        "l \<le> length (ct_inner (w_out u))" "ct_inner (w_out w') = ct_inner (w_out u) @ limit_comment @ newline"
        using IH by auto
      have "op # ops = (op # ds) @ o2 # rest" "vcd_run (op # ds) w = Some u" using h w1(1) by simp_all
      then show ?thesis using True h(4-6) under_limit_Cons [OF w1(1) lt h(3)] by (simp only: if_True) blast
    next
      case not_hit: False
      then show ?thesis using IH under_limit_Cons [OF w1(1) lt] by simp
    qed
  qed
qed

theorem nothing_past_the_limit_witness:
  "\<exists>w w' before u. vcd_run sample_header vcd_new = Some w \<and> vcd_run sample_records w = Some w' \<and> w_limit_hit w'
    \<and> vcd_run before w = Some u \<and> 60 \<le> length (ct_inner (w_out u)) \<and> ct_inner (w_out w') = ct_inner (w_out u) @ limit_comment @ newline"
proof -
  have "\<exists>w w'. vcd_run sample_header vcd_new = Some w \<and> vcd_run sample_records w = Some w' \<and> w_limit_hit w' \<and> \<not> w_limit_hit w
      \<and> w_byte_limit w = Some 60"
    by (simp add: sample_header_def sample_records_def vcd_step_def declare_var_def Let_def vcd_new_def put_line_def ct_write_def set_limit_def set_time_def
        check_limit_def value_change_def write_change_def is_real_var_def encode_change_def encode_value_def dec_string_small id_text_def
        id_digits.simps var_keyword_def dump_off_def push_scope_def pop_scope_def scope_keyword_def)
  then obtain w w' where r: "vcd_run sample_header vcd_new = Some w" "vcd_run sample_records w = Some w'" "w_limit_hit w'"
    "\<not> w_limit_hit w" "w_byte_limit w = Some 60" by blast
  have "scopes_ok (w_scope_depth vcd_new) sample_header" by (simp add: sample_header_def sample_records_def vcd_new_def)
  then have "writer_ok w" using vcd_run_ok(1) [OF vcd_new_ok] r(1) by fastforce
  moreover have "list_all gated sample_records" by (simp add: sample_header_def sample_records_def gated_def)
  ultimately show ?thesis using nothing_past_the_limit [OF _ _ r(4,2,5)] r by auto
qed

end
