(* ===== verification/Render.thy ===== *)
theory Render
  imports Vcd StrOps F64Dyadic
begin

text \<open>
  How one value becomes text: the field rules of \<open>crates/diag/src/fmt.rs\<close> and the renderers of
  \<open>sim-engine/src/builtins\<close> (\<open>render.rs\<close>, \<open>radix_arr.rs\<close>, \<open>pattern.rs\<close>, \<open>queues_io.rs\<close>).  A Rust string is a list of
  characters, RTL text a list of bytes, \<open>as_bytes\<close> the conversion.
\<close>

definition as_bytes :: "string \<Rightarrow> u8 list" where
  "as_bytes s = map of_char s"

definition spaces :: "nat \<Rightarrow> string" where
  "spaces n = replicate n (CHR '' '')"

definition zeros_text :: "nat \<Rightarrow> string" where
  "zeros_text n = replicate n (CHR ''0'')"

section \<open>Field rules\<close>

text \<open>The field rules build the padded text for every width; that no allocation holds a field of \<open>2 ^ 63\<close> bytes or more is
  said where a conversion applies them (\<open>in_field\<close> below).\<close>

text \<open>\<open>std::f64::consts::LOG10_2\<close>.\<close>

definition f64_log10_2 :: f64 where "f64_log10_2 = 0x3FD34413509F79FF"

definition log10_2_times :: "nat \<Rightarrow> nat" where
  "log10_2_times n = nat (f64_trunc (f64_mul (f64_of_int (int n)) f64_log10_2))"

definition dec_field_width :: "nat \<Rightarrow> bool \<Rightarrow> nat" where
  "dec_field_width n sg =
     (if n = 0 then 1
      else if sg \<and> 1 < n
      then if n \<le> 128 then 1 + length (dec_string (2 ^ (n - 1))) else 2 + log10_2_times (n - 1)
      else if n \<le> 128 then length (dec_string (2 ^ n - 1)) else log10_2_times n + 1)"

definition push_justified :: "u8 list \<Rightarrow> u8 list \<Rightarrow> nat option \<Rightarrow> bool \<Rightarrow> u8 list" where
  "push_justified out content field_width left_just =
     (let pad = (case field_width of Some n \<Rightarrow> if length content < n then n - length content else 0 | None \<Rightarrow> 0)
      in if left_just then out @ content @ replicate pad 32 else out @ replicate pad 32 @ content)"

definition justify :: "u8 list \<Rightarrow> nat option \<Rightarrow> bool \<Rightarrow> u8 list" where
  "justify content field_width left_just = push_justified [] content field_width left_just"

text \<open>The zero fill of a number goes between the sign and the digits.\<close>

definition zero_fill :: "nat \<Rightarrow> string \<Rightarrow> string" where
  "zero_fill pad s =
     (case s of
        c # rest \<Rightarrow> (if c = CHR ''-'' \<or> c = CHR ''+'' then c # zeros_text pad @ rest else zeros_text pad @ s)
      | [] \<Rightarrow> zeros_text pad)"

definition pad_dec :: "string \<Rightarrow> bool \<Rightarrow> nat option \<Rightarrow> bool \<Rightarrow> nat \<Rightarrow> string" where
  "pad_dec s min_zero field_width left_just default_width =
     (let fw = (case field_width of Some n \<Rightarrow> (if min_zero \<and> n = 0 then 0 else n) | None \<Rightarrow> default_width)
      in if fw \<le> length s then s
         else if left_just then s @ spaces (fw - length s)
         else if min_zero then zero_fill (fw - length s) s
         else spaces (fw - length s) @ s)"

definition trim_zeros :: "string \<Rightarrow> string" where
  "trim_zeros s = dropWhile (\<lambda>c. c = CHR ''0'') s"

definition pad_radix :: "string \<Rightarrow> bool \<Rightarrow> nat option \<Rightarrow> bool \<Rightarrow> string" where
  "pad_radix s min_zero field_width left_just =
     (let base = (if min_zero \<and> field_width = Some 0 then (if trim_zeros s = [] then ''0'' else trim_zeros s) else s)
      in case field_width of
           Some w \<Rightarrow>
             (if length base < w
              then if left_just then base @ spaces (w - length base)
                   else replicate (w - length base) (if min_zero then CHR ''0'' else CHR '' '') @ base
              else base)
         | None \<Rightarrow> base)"

text \<open>The flags, the width and the precision between \<open>%\<close> and the conversion byte.\<close>

record fmt_flags =
  fl_left :: bool
  fl_plus :: bool
  fl_min_zero :: bool
  fl_width :: "nat option"
  fl_prec :: "nat option"

definition is_digit :: "u8 \<Rightarrow> bool" where
  "is_digit c \<longleftrightarrow> 48 \<le> c \<and> c \<le> 57"

fun flag_run :: "bool \<Rightarrow> bool \<Rightarrow> bool \<Rightarrow> u8 list \<Rightarrow> u8 list \<Rightarrow> (bool \<times> bool \<times> bool \<times> u8 list) \<times> u8 list" where
  "flag_run left_just sign min_zero width [] = ((left_just, sign, min_zero, width), [])"
| "flag_run left_just sign min_zero width (d # ds) =
     (if d = 45 \<and> width = [] then flag_run True sign min_zero width ds
      else if d = 43 \<and> width = [] then flag_run left_just True min_zero width ds
      else if d = 48 \<and> width = [] then flag_run left_just sign True [48] ds
      else if is_digit d then flag_run left_just sign min_zero (width @ [d]) ds
      else ((left_just, sign, min_zero, width), d # ds))"

text \<open>\<open>str::parse::<usize>\<close> of a run of digits.\<close>

definition parse_usize :: "u8 list \<Rightarrow> nat option" where
  "parse_usize ds =
     (let n = digits_num 10 (map (\<lambda>d. unat (d - 48)) ds) in if ds = [] \<or> 2 ^ 64 \<le> n then None else Some n)"

definition width_value :: "u8 list \<Rightarrow> nat option" where
  "width_value width =
     (case parse_usize (dropWhile (\<lambda>d. d = 48) width) of
        Some n \<Rightarrow> Some n
      | None \<Rightarrow> if width \<noteq> [] \<and> list_all (\<lambda>d. d = 48) width then Some 0 else None)"

definition parse_flags :: "u8 list \<Rightarrow> fmt_flags \<times> u8 list" where
  "parse_flags bytes =
     (let ((left_just, sign, min_zero, width), rest) = flag_run False False False [] bytes;
          (prec, rest) =
            (case rest of
               c # cs \<Rightarrow> (if c = 46 then (Some (case parse_usize (takeWhile is_digit cs) of Some n \<Rightarrow> n | None \<Rightarrow> 0), dropWhile is_digit cs)
                           else (None, rest))
             | [] \<Rightarrow> (None, rest))
      in (\<lparr>fl_left = left_just, fl_plus = sign, fl_min_zero = min_zero, fl_width = width_value width, fl_prec = prec\<rparr>, rest))"

text \<open>The text of a field that pads to a width of the template: \<open>repeat\<close>, \<open>resize\<close> and \<open>with_capacity\<close> refuse \<open>2 ^ 63\<close> bytes
  or more (capacity overflow), and no content is that long itself.  Running out of memory below that is not modelled.\<close>

definition in_field :: "fmt_flags \<Rightarrow> 'a \<Rightarrow> 'a option" where
  "in_field fl s = (case fl_width fl of Some n \<Rightarrow> (if 2 ^ 63 \<le> n then None else Some s) | None \<Rightarrow> Some s)"

section \<open>Integers\<close>

text \<open>The letter of a group of bits with an unknown one: lower case when all bits are unknown alike.\<close>

definition unknown_letter :: "bool \<Rightarrow> bool \<Rightarrow> bool \<Rightarrow> char option" where
  "unknown_letter has_known has_x has_z =
     (if \<not> has_x \<and> \<not> has_z then None
      else Some (case (has_known \<or> has_x \<and> has_z, has_x) of
                   (False, True) \<Rightarrow> CHR ''x'' | (False, False) \<Rightarrow> CHR ''z''
                 | (True, True) \<Rightarrow> CHR ''X'' | (True, False) \<Rightarrow> CHR ''Z''))"

definition bit4 :: "sim_value \<Rightarrow> nat \<Rightarrow> logic4" where
  "bit4 v i = (case get_vu v i of (b, u) \<Rightarrow> l4 (b = 1) (u = 1))"

definition group_bits :: "sim_value \<Rightarrow> nat \<Rightarrow> nat \<Rightarrow> logic4 list" where
  "group_bits v lo hi = map (bit4 v) [lo..<hi]"

definition unknown_group_char :: "sim_value \<Rightarrow> nat \<Rightarrow> nat \<Rightarrow> char option" where
  "unknown_group_char v lo hi =
     (let bs = group_bits v lo hi in unknown_letter (L0 \<in> set bs \<or> L1 \<in> set bs) (LX \<in> set bs) (LZ \<in> set bs))"

definition int_string :: "int \<Rightarrow> string" where
  "int_string i = (if i < 0 then CHR ''-'' # dec_string (nat (- i)) else dec_string (nat i))"

definition fmt_dec :: "sim_value \<Rightarrow> string option" where
  "fmt_dec v =
     (if v_real v then Some (int_string (f64_as_i64 (f64_round (to_f64_or_0 v))))
      else case unknown_group_char v 0 (v_width v) of
             Some c \<Rightarrow> Some [c]
           | None \<Rightarrow>
               (let words = map (wget (v_val v)) [0..<max (v_nwords (v_width v)) 1];
                    neg = v_signed v \<and> 1 \<le> v_width v \<and> fst (get_vu v (v_width v - 1)) = 1;
                    words = (if neg then mw_mask (mw_neg words) (v_width v) else words)
                in map_option (\<lambda>s. if neg then CHR ''-'' # s else s) (mw_decimal words)))"

definition digit_char :: "nat \<Rightarrow> char" where
  "digit_char d = ''0123456789abcdef'' ! d"

definition radix_digit :: "sim_value \<Rightarrow> nat \<Rightarrow> nat \<Rightarrow> char" where
  "radix_digit v k d =
     (let bs = group_bits v (d * k) (min (d * k + k) (v_width v))
      in case unknown_letter (L0 \<in> set bs \<or> L1 \<in> set bs) (LX \<in> set bs) (LZ \<in> set bs) of
           Some c \<Rightarrow> c
         | None \<Rightarrow> digit_char (horner_sum (\<lambda>b. of_bool (b = L1)) 2 bs))"

definition fmt_radix :: "sim_value \<Rightarrow> nat \<Rightarrow> bool \<Rightarrow> nat option \<Rightarrow> bool \<Rightarrow> string" where
  "fmt_radix v bits_per_digit min_zero field_width left_just =
     (if v_width v = 0 then ''0''
      else pad_radix (map (radix_digit v bits_per_digit) (rev [0..<(v_width v + bits_per_digit - 1) div bits_per_digit]))
             min_zero field_width left_just)"

definition char_of_value :: "sim_value \<Rightarrow> u8" where
  "char_of_value v = (if has_xz v then 0 else ucast (wget (v_val v) 0 AND 0xFF))"

definition strength_bit :: "sim_value \<Rightarrow> nat \<Rightarrow> string" where
  "strength_bit v i =
     (case bit4 v i of L0 \<Rightarrow> ''St0'' | L1 \<Rightarrow> ''St1'' | LZ \<Rightarrow> ''HiZ'' | LX \<Rightarrow> ''StX'')"

fun join_with :: "'a list \<Rightarrow> 'a list list \<Rightarrow> 'a list" where
  "join_with sep [] = []"
| "join_with sep [x] = x"
| "join_with sep (x # y # xs) = x @ sep @ join_with sep (y # xs)"

definition strength_form :: "sim_value \<Rightarrow> string" where
  "strength_form v = join_with ''_'' (map (strength_bit v) (rev [0..<max (v_width v) 1]))"

definition fmt_packed_chars_min :: "sim_value \<Rightarrow> u8 list" where
  "fmt_packed_chars_min v = packed_chars (packed_bytes_msb v) True"

section \<open>Reals\<close>

definition nonfinite_c :: "f64 \<Rightarrow> string" where
  "nonfinite_c x = (if f64_is_nan x then ''nan'' else if f64_sign x then ''-inf'' else ''inf'')"

definition real_sign :: "f64 \<Rightarrow> string" where
  "real_sign x = (if f64_sign x then ''-'' else [])"

text \<open>\<open>{x:.prec$}\<close> of a finite double.\<close>

definition fixed_real :: "nat \<Rightarrow> f64 \<Rightarrow> string" where
  "fixed_real prec x = real_sign x @ fixed_text prec (mag_units (f64_mag x)) (2 ^ 1074)"

definition fmt_real_e :: "f64 \<Rightarrow> nat option \<Rightarrow> string" where
  "fmt_real_e x prec =
     (if \<not> f64_is_finite x then nonfinite_c x
      else let p = (case prec of Some p \<Rightarrow> p | None \<Rightarrow> 6);
               (m, e) = sci_digits (p + 1) (mag_units (f64_mag x)) (2 ^ 1074)
           in real_sign x @ with_point p (dec_string m) @ ''e'' @ (if e < 0 then ''-'' else ''+'') @ zero_pad 2 (dec_string (nat \<bar>e\<bar>)))"

text \<open>\<open>prec as i32\<close> wraps.\<close>

definition format_g :: "f64 \<Rightarrow> nat option \<Rightarrow> string" where
  "format_g x prec = fmt_g x (sint (of_nat (max (case prec of Some p \<Rightarrow> p | None \<Rightarrow> 6) 1) :: 32 word))"

text \<open>The conversions \<open>%f\<close>, \<open>%e\<close> and \<open>%g\<close>; no caller passes another letter.\<close>

datatype real_conv = ConvF | ConvE | ConvG

definition real_body :: "f64 \<Rightarrow> real_conv \<Rightarrow> nat option \<Rightarrow> bool \<Rightarrow> string" where
  "real_body x spec prec force_sign =
     (let body = (if \<not> f64_is_finite x then nonfinite_c x
                  else case spec of
                         ConvF \<Rightarrow> fixed_real (case prec of Some p \<Rightarrow> p | None \<Rightarrow> 6) x
                       | ConvE \<Rightarrow> fmt_real_e x prec
                       | ConvG \<Rightarrow> format_g x prec)
      in if force_sign \<and> take 1 body \<noteq> ''-'' \<and> body \<noteq> ''nan'' then CHR ''+'' # body else body)"

definition fmt_real ::
  "sim_value \<Rightarrow> real_conv \<Rightarrow> nat option \<Rightarrow> nat option \<Rightarrow> bool \<Rightarrow> bool \<Rightarrow> bool \<Rightarrow> string" where
  "fmt_real v spec width prec left_just min_zero force_sign =
     (let x = to_f64_or_0 v;
          body = real_body x spec prec force_sign
      in case width of
           Some w \<Rightarrow>
             (if length body < w
              then if left_just then body @ spaces (w - length body)
                   else if min_zero \<and> f64_is_finite x then zero_fill (w - length body) body
                   else spaces (w - length body) @ body
              else body)
         | None \<Rightarrow> body)"

text \<open>Where rendering a double panics: \<open>{:.*e}\<close> asks the standard library for one digit more than its precision, which wraps
  to none at \<open>usize::MAX\<close>, and \<open>fmt_g\<close> computes \<open>p - 1 - exp\<close> in an \<open>i32\<close>.\<close>

definition real_refused :: "f64 \<Rightarrow> real_conv \<Rightarrow> nat option \<Rightarrow> bool" where
  "real_refused x conv prec \<longleftrightarrow>
     f64_is_finite x \<and>
     (case conv of
        ConvF \<Rightarrow> False
      | ConvE \<Rightarrow> prec = Some (2 ^ 64 - 1)
      | ConvG \<Rightarrow>
          (let p = max (sint (of_nat (max (case prec of Some p \<Rightarrow> p | None \<Rightarrow> 6) 1) :: 32 word)) 1;
               e = snd (sci_digits (nat p) (mag_units (f64_mag x)) (2 ^ 1074))
           in f64_mag x \<noteq> 0 \<and> - 4 \<le> e \<and> e < p \<and> 2 ^ 31 \<le> p - 1 - e))"

definition fmt_real_flags :: "sim_value \<Rightarrow> real_conv \<Rightarrow> fmt_flags \<Rightarrow> string option" where
  "fmt_real_flags v conv fl =
     (if real_refused (to_f64_or_0 v) conv (fl_prec fl) then None
      else in_field fl (fmt_real v conv (fl_width fl) (fl_prec fl) (fl_left fl) (fl_min_zero fl) (fl_plus fl)))"

section \<open>Times\<close>

text \<open>\<open>$timeformat\<close>.\<close>

record tf_state =
  tf_units_exp :: int
  tf_prec :: nat
  tf_suffix :: "u8 list"
  tf_minw :: int

text \<open>What \<open>SimState\<close> holds for the renderer: the \<open>$timeformat\<close> state, the global precision as an exponent of ten, the
  ticks of the displaying module's unit, and the names \<open>%m\<close> prints.\<close>

record fmt_state =
  fs_timeformat :: "tf_state option"
  fs_global_prec_exp :: int
  fs_cur_time_mult :: nat
  fs_cur_block_scope :: string
  fs_frame_scope :: "nat list"
  fs_func_names :: "string list"
  fs_cur_inst_scope :: string
  fs_cur_scope :: string

definition strip_minus :: "string \<Rightarrow> string \<times> string" where
  "strip_minus digits = (case digits of c # m \<Rightarrow> (if c = CHR ''-'' then (''-'', m) else ([], digits)) | [] \<Rightarrow> ([], digits))"

definition shift_body :: "string \<Rightarrow> int \<Rightarrow> nat \<Rightarrow> string" where
  "shift_body mag shift prec =
     (if 0 \<le> shift
      then let int_part = (if mag = ''0'' then mag else mag @ zeros_text (nat shift))
           in if 0 < prec then int_part @ ''.'' @ zeros_text prec else int_part
      else let p = nat (- shift);
               padded = (if length mag \<le> p then zeros_text (p + 1 - length mag) @ mag else mag);
               cut = length padded - p
           in if prec = 0 then take cut padded
              else take cut padded @ ''.'' @ take prec (drop cut padded @ zeros_text prec))"

definition time_digits_shift :: "string \<Rightarrow> int \<Rightarrow> nat \<Rightarrow> string" where
  "time_digits_shift digits shift prec = (let (sgn, mag) = strip_minus digits in sgn @ shift_body mag shift prec)"

definition clear_unknown :: "sim_value \<Rightarrow> sim_value" where
  "clear_unknown v =
     v\<lparr>v_val := map (\<lambda>i. (v_val v ! i) AND NOT (v_unk v ! i)) [0..<length (v_val v)],
       v_unk := replicate (length (v_val v)) 0 @ drop (length (v_val v)) (v_unk v)\<rparr>"

definition pad_time :: "u8 list \<Rightarrow> int \<Rightarrow> bool \<Rightarrow> bool \<Rightarrow> u8 list" where
  "pad_time full width left_just min_zero =
     (let n = int (length full)
      in if left_just then full @ replicate (nat (\<bar>width\<bar> - n)) 32
         else if 0 \<le> width then replicate (nat (width - n)) (if min_zero then 48 else 32) @ full
         else full @ replicate (nat (- width - n)) 32)"

text \<open>\<open>p10\<close> is \<open>f64::powi\<close> of the standard library at base ten, whose last digit the language leaves open.  The unit of
  a module is a power of ten, which a debug build asserts.  An explicit width is cast to \<open>i64\<close>, so \<open>2 ^ 63\<close> and more read as
  negative; \<open>i64::MIN\<close> has no magnitude, neither for \<open>abs\<close> nor for the negation.\<close>

definition fmt_time_spec ::
  "(int \<Rightarrow> f64) \<Rightarrow> fmt_state \<Rightarrow> sim_value \<Rightarrow> nat option \<Rightarrow> bool \<Rightarrow> bool \<Rightarrow> u8 list option" where
  "fmt_time_spec p10 st v explicit_width min_zero left_just =
     (let (units_exp, prec, suffix, minw) =
            (case fs_timeformat st of
               Some tf \<Rightarrow> (tf_units_exp tf, tf_prec tf, tf_suffix tf, tf_minw tf)
             | None \<Rightarrow> (fs_global_prec_exp st, 0, [], 20 :: int));
          k = units_exp - fs_global_prec_exp st;
          m = max (fs_cur_time_mult st) 1;
          mz = length (dec_string m) - 1;
          shift = int mz - k;
          body =
            (if v_real v
             then let x = f64_div (f64_mul (to_f64_or_0 v) (f64_of_int (int m))) (p10 k)
                  in Some (if f64_is_finite x then fixed_real prec x else nonfinite_c x)
             else case unknown_group_char v 0 (v_width v) of
                    Some c \<Rightarrow>
                      (if 0 \<le> shift
                       then Some (c # zeros_text (nat shift) @ (if 0 < prec then CHR ''.'' # zeros_text prec else []))
                       else map_option (\<lambda>s. time_digits_shift s shift prec) (fmt_dec (clear_unknown v)))
                  | None \<Rightarrow> map_option (\<lambda>s. time_digits_shift s shift prec) (fmt_dec v));
          width = (case explicit_width of Some w \<Rightarrow> sint (of_nat w :: 64 word) | None \<Rightarrow> minw)
      in if 10 ^ mz \<noteq> m \<or> width = - (2 ^ 63) then None
         else map_option (\<lambda>b. pad_time (as_bytes b @ suffix) width left_just min_zero) body)"

section \<open>Assignment patterns and scopes\<close>

definition quoted :: "u8 list \<Rightarrow> u8 list" where
  "quoted txt = 34 # txt @ [34]"

definition pattern_leaf :: "sim_value \<Rightarrow> u8 list" where
  "pattern_leaf v =
     (if v_real v then as_bytes (fmt_real v ConvG None None False False False)
      else if v_str v then quoted (to_str_bytes v)
      else as_bytes (CHR 0x27 # ''h'' @ fmt_radix v 4 True (Some 0) False))"

definition pattern_scalar :: "sim_value \<Rightarrow> fmt_flags \<Rightarrow> u8 list option" where
  "pattern_scalar v fl =
     (if v_real v then map_option as_bytes (fmt_real_flags v ConvG fl)
      else if v_str v \<or> fl_min_zero fl then in_field fl (justify (pattern_leaf v) (fl_width fl) (fl_left fl))
      else Option.bind (fmt_dec v) (\<lambda>s. in_field fl (justify (as_bytes s) (fl_width fl) (fl_left fl))))"

definition m_scope :: "fmt_state \<Rightarrow> string" where
  "m_scope st =
     (let blk = fs_cur_block_scope st
      in if take 1 blk = ''.'' then drop 1 blk
         else let name = (if fs_frame_scope st = [] then None else arena_get (fs_func_names st) (last (fs_frame_scope st)));
                  scope = (case name of
                             Some n \<Rightarrow>
                               (if take 1 n = ''.'' then drop 1 n
                                else if n \<noteq> [] then fs_cur_inst_scope st @ ''.'' @ n
                                else fs_cur_scope st)
                           | None \<Rightarrow> fs_cur_scope st)
              in if blk = [] then scope else scope @ ''.'' @ blk)"

definition dyn_items :: "('a \<Rightarrow> u8 list) \<Rightarrow> 'a list \<Rightarrow> u8 list" where
  "dyn_items leaf xs = join_with (as_bytes '', '') (map leaf xs)"

text \<open>The default rendering of an argument without a conversion; \<open>radix\<close> is that of the task (\<open>$displayh\<close> and the like).\<close>

definition push_default_radix :: "sim_value \<Rightarrow> u8 list \<Rightarrow> nat option \<Rightarrow> u8 list option" where
  "push_default_radix v out radix =
     (if v_real v then Some (out @ as_bytes (fmt_real v ConvG None None False False False))
      else if radix = Some 2 then Some (out @ as_bytes (fmt_radix v 1 False None False))
      else if radix = Some 8 then Some (out @ as_bytes (fmt_radix v 3 False None False))
      else if radix = Some 16 then Some (out @ as_bytes (fmt_radix v 4 False None False))
      else map_option
             (\<lambda>s. out @ replicate (dec_field_width (v_width v) (v_signed v) - length s) 32 @ as_bytes s) (fmt_dec v))"

end
