(* ===== verification/Format.thy ===== *)
theory Format
  imports Render EvalAll ForkJoin
begin

text \<open>
  The format engine of \<open>$display\<close>, \<open>crates/sim-engine/src/builtins\<close>: \<open>render_template\<close> (\<open>render.rs\<close>), the sequential
  printing of the arguments (\<open>format_args_str_with\<close>, \<open>queues_io.rs\<close>) and the assignment patterns (\<open>pattern.rs\<close>).
  An argument is evaluated when its conversion is reached, so the engine is a computation of the evaluator's monad.
\<close>

section \<open>The context\<close>

text \<open>The evaluator's context and stack, the renderer's part of \<open>SimState\<close>, the heap of dynamic objects and the table of
  unpacked dimensions.  The deferred range reports that the readers collect are written out by the caller.\<close>

record 's fmt_ctx =
  fc_cx :: "'s eval_ctx"
  fc_fuel :: nat
  fc_st :: fmt_state
  fc_p10 :: "int \<Rightarrow> f64"
  fc_heap :: "'s \<Rightarrow> nat \<Rightarrow> dyn_obj option"
  fc_dims :: "nat \<Rightarrow> (int \<times> nat) list option"

definition next_arg :: "'s fmt_ctx \<Rightarrow> nat list \<Rightarrow> nat \<Rightarrow> 's eval_m" where
  "next_arg F args argi =
     (case arena_get args argi of None \<Rightarrow> ev_ret x1 | Some e \<Rightarrow> eval_expr (fc_fuel F) (fc_cx F) e)"

section \<open>Whole aggregates\<close>

definition braced :: "u8 list \<Rightarrow> u8 list" where
  "braced items = as_bytes [CHR 0x27, CHR ''{''] @ items @ as_bytes ''}''"

fun render_dims :: "'s fmt_ctx \<Rightarrow> nat \<Rightarrow> (int \<times> nat) list \<Rightarrow> nat \<Rightarrow> ('s eval_state, u8 list) ev" where
  "render_dims F net [] base = (\<lambda>_. None)"
| "render_dims F net [d] base =
     ev_map (\<lambda>vs. braced (dyn_items pattern_leaf vs))
       (ev_seq (map (\<lambda>k. on_env (nr_read_net (ec_nets (fc_cx F)) net (Some (base + k)))) [0..<snd d]))"
| "render_dims F net (d # d' # ds) base =
     ev_map (\<lambda>ts. braced (join_with (as_bytes '', '') ts))
       (ev_seq (map (\<lambda>k. render_dims F net (d' # ds) (base + k * prod_list (map snd (d' # ds)))) [0..<snd d]))"

definition hex_string :: "nat \<Rightarrow> string" where
  "hex_string n = (if n = 0 then ''0'' else trim_zeros (map (\<lambda>d. digit_char (n div 16 ^ d mod 16)) (rev [0..<16])))"

definition heap_items :: "net_kind \<Rightarrow> dyn_obj option \<Rightarrow> u8 list" where
  "heap_items kind obj =
     (if kind = DynArray \<or> kind = Queue
      then case obj of
             Some (DO_DynArray es) \<Rightarrow> dyn_items pattern_leaf es
           | Some (DO_Queue es) \<Rightarrow> dyn_items pattern_leaf es
           | _ \<Rightarrow> []
      else if kind = Assoc
      then case obj of
             Some (DO_Assoc kvs) \<Rightarrow>
               dyn_items
                 (\<lambda>(k, v). as_bytes (CHR 0x27 # ''h'' @ hex_string (unat (word_of_int k :: u64)) @ '':'') @ pattern_leaf v) kvs
           | _ \<Rightarrow> []
      else case obj of
             Some (DO_AssocStr kvs) \<Rightarrow> dyn_items (\<lambda>(k, v). quoted k @ as_bytes '':'' @ pattern_leaf v) kvs
           | _ \<Rightarrow> [])"

text \<open>\<open>None\<close> as the value: the net is not an aggregate.\<close>

definition pattern_of_net :: "'s fmt_ctx \<Rightarrow> nat \<Rightarrow> ('s eval_state, u8 list option) ev" where
  "pattern_of_net F net =
     (case arena_get (x_nets (ec_ir (fc_cx F))) net of
        None \<Rightarrow> ev_ret None
      | Some nv \<Rightarrow>
          (if n_kind nv \<in> {DynArray, Queue, Assoc, AssocStr}
           then of_env (\<lambda>e. Some (braced (heap_items (n_kind nv) (fc_heap F e net))))
           else if n_kind nv = StringNet \<or> n_array_len nv \<le> 1 then ev_ret None
           else ev_map Some
                  (render_dims F net
                     (case fc_dims F net of
                        Some ds \<Rightarrow> (if ds \<noteq> [] then ds else [(0, n_array_len nv)])
                      | None \<Rightarrow> [(0, n_array_len nv)])
                     0)))"

section \<open>One conversion\<close>

text \<open>The text of a conversion and the arguments used so far; \<open>nested\<close> renders the arguments of a nested
  \<open>$sformatf\<close>.\<close>

type_synonym 's nested = "nat option \<Rightarrow> nat list \<Rightarrow> nat option \<Rightarrow> ('s eval_state, u8 list) ev"

definition dec_field :: "fmt_flags \<Rightarrow> sim_value \<Rightarrow> u8 list option" where
  "dec_field fl v =
     Option.bind (fmt_dec v)
       (\<lambda>s. let s = (if fl_plus fl \<and> take 1 s \<noteq> ''-'' then CHR ''+'' # s else s);
                default_w = (if v_real v then 0 else dec_field_width (v_width v) (v_signed v))
            in in_field fl (as_bytes (pad_dec s (fl_min_zero fl) (fl_width fl) (fl_left fl) default_w)))"

definition radix_field :: "fmt_flags \<Rightarrow> nat \<Rightarrow> sim_value \<Rightarrow> u8 list option" where
  "radix_field fl k v =
     (let s = as_bytes (fmt_radix v k (fl_min_zero fl) (fl_width fl) (fl_left fl))
      in if v_width v = 0 then Some s else in_field fl s)"

definition real_field :: "fmt_flags \<Rightarrow> u8 \<Rightarrow> sim_value \<Rightarrow> u8 list option" where
  "real_field fl spec v =
     (let c = (if spec \<in> set (as_bytes ''fF'') then ConvF else if spec \<in> set (as_bytes ''gG'') then ConvG else ConvE)
      in map_option (\<lambda>t. let s = as_bytes t in if spec \<in> set (as_bytes ''EG'') then map to_ascii_upper s else s)
           (fmt_real_flags v c fl))"

text \<open>The content of \<open>%s\<close> and its default width.\<close>

definition string_value :: "fmt_flags \<Rightarrow> sim_value \<Rightarrow> u8 list \<times> nat option" where
  "string_value fl v =
     (if v_str v then (to_str_bytes v, None)
      else if fl_left fl then (fmt_packed_chars_min v, Some (max ((v_width v + 7) div 8) 1))
      else if fl_width fl \<noteq> None then (fmt_packed_chars_min v, None)
      else (fmt_packed_chars v, None))"

definition string_content :: "'s fmt_ctx \<Rightarrow> 's nested \<Rightarrow> fmt_flags \<Rightarrow> nat option \<Rightarrow> ('s eval_state, u8 list \<times> nat option) ev" where
  "string_content F nested fl arg =
     (case arg of
        None \<Rightarrow> ev_ret ([], None)
      | Some eid \<Rightarrow>
          (case const_str_arg (fc_cx F) eid of
             Some s \<Rightarrow> ev_ret (s, None)
           | None \<Rightarrow>
               (case arena_get (x_exprs (ec_ir (fc_cx F))) eid of
                  Some (SysFunc (F_v7 S_Sformatf) sa) \<Rightarrow>
                    ev_map (\<lambda>t. (t, None)) (nested (arena_get sa 0) (drop 1 sa) None)
                | _ \<Rightarrow> ev_map (string_value fl) (eval_expr (fc_fuel F) (fc_cx F) eid))))"

definition or_else :: "'a option \<Rightarrow> 'a option \<Rightarrow> 'a option" where
  "or_else x y = (case x of Some _ \<Rightarrow> x | None \<Rightarrow> y)"

definition pattern_field :: "'s fmt_ctx \<Rightarrow> fmt_flags \<Rightarrow> nat list \<Rightarrow> nat \<Rightarrow> ('s eval_state, u8 list) ev" where
  "pattern_field F fl args argi =
     ev_bind
       (case Option.bind (arena_get args argi) (arena_get (x_exprs (ec_ir (fc_cx F)))) of
          Some (Signal net None) \<Rightarrow> pattern_of_net F net
        | _ \<Rightarrow> ev_ret None)
       (\<lambda>agg. case agg of
                Some s \<Rightarrow> ev_opt (in_field fl (justify s (fl_width fl) (fl_left fl)))
              | None \<Rightarrow> ev_bind (next_arg F args argi) (\<lambda>v. ev_opt (pattern_scalar v fl)))"

definition convert ::
  "'s fmt_ctx \<Rightarrow> 's nested \<Rightarrow> fmt_flags \<Rightarrow> u8 \<Rightarrow> nat list \<Rightarrow> nat \<Rightarrow> ('s eval_state, u8 list \<times> nat) ev" where
  "convert F nested fl spec args argi =
     (let just = (\<lambda>s. in_field fl (justify s (fl_width fl) (fl_left fl)));
          one = (\<lambda>m. ev_map (\<lambda>s. (s, argi + 1)) m);
          value_of = next_arg F args argi
      in if spec = 37 then ev_ret ([37], argi)
         else if spec \<in> set (as_bytes ''mM'') then ev_map (\<lambda>s. (s, argi)) (ev_opt (just (as_bytes (m_scope (fc_st F)))))
         else if spec \<in> set (as_bytes ''tT'')
         then one (ev_bind value_of (\<lambda>v. ev_opt (fmt_time_spec (fc_p10 F) (fc_st F) v (fl_width fl) (fl_min_zero fl) (fl_left fl))))
         else if spec \<in> set (as_bytes ''dD'') then one (ev_bind value_of (\<lambda>v. ev_opt (dec_field fl v)))
         else if spec \<in> set (as_bytes ''hHxX'') then one (ev_bind value_of (\<lambda>v. ev_opt (radix_field fl 4 v)))
         else if spec \<in> set (as_bytes ''oO'') then one (ev_bind value_of (\<lambda>v. ev_opt (radix_field fl 3 v)))
         else if spec \<in> set (as_bytes ''bB'') then one (ev_bind value_of (\<lambda>v. ev_opt (radix_field fl 1 v)))
         else if spec \<in> set (as_bytes ''fFgGeE'') then one (ev_bind value_of (\<lambda>v. ev_opt (real_field fl spec v)))
         else if spec \<in> set (as_bytes ''cC'') then one (ev_bind value_of (\<lambda>v. ev_opt (just [char_of_value v])))
         else if spec \<in> set (as_bytes ''sS'')
         then one (ev_bind (string_content F nested fl (arena_get args argi))
                     (\<lambda>(content, dw). ev_opt (in_field fl (justify content (or_else (fl_width fl) dw) (fl_left fl)))))
         else if spec \<in> set (as_bytes ''vV'') then one (ev_bind value_of (\<lambda>v. ev_opt (just (as_bytes (strength_form v)))))
         else if spec \<in> set (as_bytes ''uUzZ'') then one (ev_map (\<lambda>_. []) value_of)
         else if spec \<in> set (as_bytes ''pP'') then one (pattern_field F fl args argi)
         else ev_ret ([37, spec], argi))"

section \<open>A template\<close>

lemma flag_run_length: "length (snd (flag_run l s z w bs)) \<le> length bs"
proof (induction l s z w bs rule: flag_run.induct)
  case (2 l s z w d ds)
  then show ?case by (cases "d = 45 \<and> w = []"; cases "d = 43 \<and> w = []"; cases "d = 48 \<and> w = []"; cases "is_digit d") auto
qed simp

lemma parse_flags_length: "length (snd (parse_flags bs)) \<le> length bs"
proof -
  obtain q r where f: "flag_run False False False [] bs = (q, r)" by fastforce
  then have "length r \<le> length bs" using flag_run_length [of False False False "[]" bs] by simp
  moreover have "length (dropWhile is_digit cs) \<le> k" if "Suc (length cs) \<le> k" for cs k
    using length_dropWhile_le [of is_digit cs] that by linarith
  ultimately show ?thesis unfolding parse_flags_def f by (auto split: prod.splits list.splits)
qed

text \<open>The bytes left, the arguments used and the text so far.\<close>

function render_template ::
  "'s fmt_ctx \<Rightarrow> 's nested \<Rightarrow> nat list \<Rightarrow> u8 list \<Rightarrow> nat \<Rightarrow> u8 list \<Rightarrow> ('s eval_state, nat \<times> u8 list) ev" where
  "render_template F nested args [] argi out = ev_ret (argi, out)"
| "render_template F nested args (c # cs) argi out =
     (if c \<noteq> 37 then render_template F nested args cs argi (out @ [c])
      else ev_bind
             (convert F nested (fst (parse_flags cs)) (case snd (parse_flags cs) of [] \<Rightarrow> 37 | s # _ \<Rightarrow> s) args argi)
             (\<lambda>(txt, argi). render_template F nested args (drop 1 (snd (parse_flags cs))) argi (out @ txt)))"
  by pat_completeness auto
termination
  by (relation "measure (\<lambda>(F, nested, args, bs, argi, out). length bs)")
    (use parse_flags_length in \<open>auto simp: less_Suc_eq_le intro: le_trans [OF diff_le_self]\<close>)

declare render_template.simps [simp del]

section \<open>All arguments\<close>

text \<open>The arguments the template left print in order; one that is a string is a template itself.  Each turn uses at least
  one argument, so their number bounds the turns.\<close>

primrec rest_args ::
  "nat \<Rightarrow> 's fmt_ctx \<Rightarrow> 's nested \<Rightarrow> nat list \<Rightarrow> nat option \<Rightarrow> nat \<Rightarrow> u8 list \<Rightarrow> ('s eval_state, u8 list) ev" where
  "rest_args 0 F nested args radix argi out = (\<lambda>s. if argi < length args then None else Some (out, s))"
| "rest_args (Suc n) F nested args radix argi out =
     (if length args \<le> argi then ev_ret out
      else let again = (\<lambda>txt. ev_bind (render_template F nested args txt (argi + 1) out)
                                (\<lambda>(argi, out). rest_args n F nested args radix argi out))
           in case const_str_arg (fc_cx F) (args ! argi) of
                Some txt \<Rightarrow> again txt
              | None \<Rightarrow>
                  ev_bind (eval_expr (fc_fuel F) (fc_cx F) (args ! argi))
                    (\<lambda>v. if v_str v then again (to_str_bytes v)
                         else ev_bind (ev_opt (push_default_radix v out radix))
                                (\<lambda>out. rest_args n F nested args radix (argi + 1) out)))"

definition expr_const_bytes :: "'s fmt_ctx \<Rightarrow> nat \<Rightarrow> u8 list option" where
  "expr_const_bytes F eid =
     (case arena_get (x_exprs (ec_ir (fc_cx F))) eid of
        None \<Rightarrow> None
      | Some (Const val) \<Rightarrow> map_option const_bytes (arena_get (x_consts (ec_ir (fc_cx F))) val)
      | Some _ \<Rightarrow> Some [])"

text \<open>The fuel is the depth of nested \<open>$sformatf\<close> calls.\<close>

primrec format_args :: "nat \<Rightarrow> 's fmt_ctx \<Rightarrow> 's nested" where
  "format_args 0 F = (\<lambda>fmt args radix s. None)"
| "format_args (Suc n) F =
     (\<lambda>fmt args radix.
        ev_bind
          (case fmt of
             Some e \<Rightarrow> ev_bind (ev_opt (expr_const_bytes F e)) (\<lambda>txt. render_template F (format_args n F) args txt 0 [])
           | None \<Rightarrow> ev_ret (0, []))
          (\<lambda>(argi, out). rest_args (length args) F (format_args n F) args radix argi out))"

section \<open>\<open>$timeformat\<close>\<close>

definition clamp_to :: "int \<Rightarrow> int \<Rightarrow> int \<Rightarrow> int" where
  "clamp_to lo hi x = max lo (min hi x)"

definition int_arg :: "'s fmt_ctx \<Rightarrow> nat list \<Rightarrow> nat \<Rightarrow> ('s eval_state, int) ev" where
  "int_arg F args i =
     (case arena_get args i of
        None \<Rightarrow> ev_ret 0
      | Some e \<Rightarrow>
          ev_map (\<lambda>v. clamp_to (- (2 ^ 63)) (2 ^ 63 - 1) (case to_i128_signed v of Some x \<Rightarrow> sint x | None \<Rightarrow> 0))
            (eval_expr (fc_fuel F) (fc_cx F) e))"

text \<open>The new state of \<open>$timeformat\<close>; the caps keep a hostile argument from asking for a huge field.\<close>

definition run_timeformat :: "'s fmt_ctx \<Rightarrow> nat list \<Rightarrow> ('s eval_state, tf_state option) ev" where
  "run_timeformat F args =
     (if args = [] then ev_ret None
      else let gp = fs_global_prec_exp (fc_st F)
           in ev_bind (int_arg F args 0) (\<lambda>units.
              ev_bind (int_arg F args 1) (\<lambda>prec.
              ev_bind
                (case arena_get args 2 of
                   None \<Rightarrow> ev_ret []
                 | Some e \<Rightarrow>
                     (case const_str_arg (fc_cx F) e of
                        Some s \<Rightarrow> ev_ret s
                      | None \<Rightarrow> ev_map (\<lambda>v. if v_str v then to_str_bytes v else fmt_packed_chars_min v) (eval_expr (fc_fuel F) (fc_cx F) e)))
                (\<lambda>suffix.
              ev_bind (int_arg F args 3) (\<lambda>minw.
              ev_ret (Some \<lparr>tf_units_exp = clamp_to (gp - 64) (gp + 64) units, tf_prec = nat (clamp_to 0 64 prec),
                            tf_suffix = suffix, tf_minw = clamp_to (- 4096) 4096 minw\<rparr>))))))"

end
