(* ===== verification/RenderCorrect.thy ===== *)
theory RenderCorrect
  imports Render ArithCorrect
begin

text \<open>
  The renderers of \<open>Render\<close> against the number of a value: decimal and radix text read back, padding keeps the number
  and the width, the default decimal field is wide enough, and the shifted time truncates.
\<close>

section \<open>Decimal text\<close>

definition decimal_char :: "char \<Rightarrow> bool" where
  "decimal_char c \<longleftrightarrow> (48 :: nat) \<le> of_char c \<and> of_char c \<le> (57 :: nat)"

lemma dec_digit_decimal: "d < 10 \<Longrightarrow> decimal_char (dec_digit d)"
  by (simp add: decimal_char_def of_dec_digit)

lemma dec_string_decimal: "list_all decimal_char (dec_string n)"
proof (induction n rule: dec_string.induct)
  case (1 n)
  then show ?case by (cases "n < 10") (simp_all add: dec_string_small dec_string_big dec_digit_decimal)
qed

lemma dec_string_neq_Nil: "dec_string n \<noteq> []"
  by (cases "n < 10") (simp_all add: dec_string_small dec_string_big)

lemma dec_string_hd: "decimal_char (hd (dec_string n))"
  using dec_string_decimal [of n] dec_string_neq_Nil [of n] by (cases "dec_string n") simp_all

lemma decimal_char_not: "decimal_char c \<Longrightarrow> c \<noteq> CHR '' '' \<and> c \<noteq> CHR ''-'' \<and> c \<noteq> CHR ''+'' \<and> c \<noteq> CHR ''.''"
  by (auto simp: decimal_char_def)

lemma decimal_filter: "list_all decimal_char s \<Longrightarrow> c \<in> {CHR '' '', CHR ''.''} \<Longrightarrow> filter (\<lambda>x. x \<noteq> c) s = s"
  by (induction s) (auto dest: decimal_char_not)

lemma zeros_text_decimal: "list_all decimal_char (zeros_text n)"
  by (induction n) (simp_all add: zeros_text_def decimal_char_def)

lemma dec_value_from: "foldl (\<lambda>n c. 10 * n + (of_char c - 48)) m b = m * 10 ^ length b + dec_value b"
proof (induction b arbitrary: m)
  case (Cons c b)
  define x :: nat where "x = of_char c - 48"
  have "dec_value (c # b) = foldl (\<lambda>n c. 10 * n + (of_char c - 48)) x b" by (simp add: dec_value_def x_def)
  then have d: "dec_value (c # b) = x * 10 ^ length b + dec_value b" by (simp only: Cons)
  have "foldl (\<lambda>n c. 10 * n + (of_char c - 48)) m (c # b) = (10 * m + x) * 10 ^ length b + dec_value b"
    by (simp only: foldl_Cons x_def [symmetric] Cons)
  then show ?case by (simp add: d add_mult_distrib)
qed (simp add: dec_value_def)

lemma dec_value_append: "dec_value (a @ b) = dec_value a * 10 ^ length b + dec_value b"
proof -
  have "dec_value (a @ b) = foldl (\<lambda>n c. 10 * n + (of_char c - 48)) (dec_value a) b" by (simp add: dec_value_def)
  then show ?thesis by (simp only: dec_value_from)
qed

lemma dec_value_zeros: "dec_value (zeros_text n) = 0"
  by (induction n) (simp_all add: zeros_text_def dec_value_def)

lemma dec_value_pad: "dec_value (zeros_text n @ s) = dec_value s"
  by (simp add: dec_value_append dec_value_zeros)

lemma dec_string_length_mono: "m \<le> n \<Longrightarrow> length (dec_string m) \<le> length (dec_string n)"
proof (induction n arbitrary: m rule: dec_string.induct)
  case (1 n)
  show ?case
  proof (cases "m < 10")
    case True
    then show ?thesis using dec_string_neq_Nil [of n] by (simp add: dec_string_small Suc_le_eq)
  next
    case False
    then have "length (dec_string (m div 10)) \<le> length (dec_string (n div 10))"
      using "1.IH" [of "m div 10"] "1.prems" div_le_mono by auto
    then show ?thesis using False "1.prems" by (simp add: dec_string_big)
  qed
qed

text \<open>The integer a reader sees in a field of digits, a sign and blanks.\<close>

definition read_int :: "string \<Rightarrow> int" where
  "read_int s =
     (case filter (\<lambda>c. c \<noteq> CHR '' '') s of
        c # r \<Rightarrow> (if c = CHR ''-'' then - int (dec_value r) else if c = CHR ''+'' then int (dec_value r) else int (dec_value (c # r)))
      | [] \<Rightarrow> 0)"

lemma read_int_spaces [simp]: "read_int (spaces n @ s) = read_int s" "read_int (s @ spaces n) = read_int s"
  by (simp_all add: read_int_def spaces_def)

lemma read_digits:
  assumes "list_all decimal_char s"
  shows "read_int s = int (dec_value s)"
    and "read_int (CHR ''-'' # s) = - int (dec_value s)"
    and "read_int (CHR ''+'' # s) = int (dec_value s)"
proof -
  have f: "filter (\<lambda>c. c \<noteq> CHR '' '') s = s" using assms by (simp add: decimal_filter)
  show "read_int s = int (dec_value s)"
    using f assms by (cases s) (auto simp: read_int_def dec_value_def dest: decimal_char_not)
  show "read_int (CHR ''-'' # s) = - int (dec_value s)" "read_int (CHR ''+'' # s) = int (dec_value s)"
    using f by (simp_all add: read_int_def)
qed

lemma read_int_string: "read_int (int_string i) = i"
  by (simp add: int_string_def read_digits [OF dec_string_decimal] dec_value_dec_string)

text \<open>A signed run of digits.\<close>

definition number_text :: "string \<Rightarrow> bool" where
  "number_text s \<longleftrightarrow> (\<exists>d. list_all decimal_char d \<and> d \<noteq> [] \<and> (s = d \<or> s = CHR ''-'' # d \<or> s = CHR ''+'' # d))"

lemma int_string_number: "number_text (int_string i)"
  unfolding number_text_def int_string_def using dec_string_decimal dec_string_neq_Nil by auto

lemma zero_fill_reads:
  assumes "number_text s"
  shows "read_int (zero_fill n s) = read_int s" and "length (zero_fill n s) = n + length s"
proof -
  obtain d where d: "list_all decimal_char d" "d \<noteq> []" "s = d \<or> s = CHR ''-'' # d \<or> s = CHR ''+'' # d"
    using assms unfolding number_text_def by blast
  have z: "list_all decimal_char (zeros_text n @ d)" using d(1) zeros_text_decimal by simp
  obtain c r where cr: "d = c # r" using d(2) by (cases d) auto
  then have "c \<noteq> CHR ''-'' \<and> c \<noteq> CHR ''+''" using d(1) decimal_char_not [of c] by simp
  then have fd: "zero_fill n d = zeros_text n @ d" by (simp add: cr zero_fill_def)
  have fs: "zero_fill n (CHR ''-'' # d) = CHR ''-'' # zeros_text n @ d" "zero_fill n (CHR ''+'' # d) = CHR ''+'' # zeros_text n @ d"
    by (simp_all add: zero_fill_def)
  show "read_int (zero_fill n s) = read_int s"
    using d(3) fd fs read_digits [OF d(1)] read_digits [OF z] dec_value_pad by metis
  show "length (zero_fill n s) = n + length s" using d(3) fd fs by (auto simp: zeros_text_def)
qed

text \<open>The decimal field keeps the number and has its width, the text's own if that is longer.\<close>

lemma pad_dec_reads:
  assumes "number_text s"
  shows "read_int (pad_dec s mz fw lj dw) = read_int s"
    and "length (pad_dec s mz fw lj dw) = max (length s) (case fw of Some n \<Rightarrow> n | None \<Rightarrow> dw)"
proof -
  let ?w = "case fw of Some n \<Rightarrow> n | None \<Rightarrow> dw"
  have p: "pad_dec s mz fw lj dw =
      (if ?w \<le> length s then s else if lj then s @ spaces (?w - length s)
       else if mz then zero_fill (?w - length s) s else spaces (?w - length s) @ s)"
    by (cases fw) (simp_all add: pad_dec_def)
  show "read_int (pad_dec s mz fw lj dw) = read_int s"
    unfolding p by (simp add: zero_fill_reads [OF assms])
  show "length (pad_dec s mz fw lj dw) = max (length s) ?w"
    unfolding p by (auto simp: zero_fill_reads [OF assms] spaces_def max_def)
qed

section \<open>The digits of a value\<close>

lemma bit4_vbit: "bit4 v i = vbit v i"
  by (cases "vbit v i") (simp_all add: bit4_def get_vu_eq pair1_def vbit_def logic4_defs)

lemma group_bits_vbit: "group_bits v lo hi = map (vbit v) [lo..<hi]"
  by (simp add: group_bits_def bit4_vbit)

lemma unknown_group_known: "\<not> has_xz v \<Longrightarrow> hi \<le> v_width v \<Longrightarrow> unknown_group_char v lo hi = None"
  by (auto simp: unknown_group_char_def unknown_letter_def group_bits_vbit has_xz_iff vbit_def l4_def Let_def split: if_splits)

lemma fmt_dec_words:
  assumes "vec_ok v"
  shows "wval (map (wget (v_val v)) [0..<max (v_nwords (v_width v)) 1]) = vnum v"
proof -
  have "length (v_val v) \<le> max (v_nwords (v_width v)) 1"
    using assms by (simp add: vec_ok_def plane_ok_def nw1_def)
  then show ?thesis by (simp only: wval_map_wget vnum_def)
qed

lemma fmt_dec_known:
  assumes "vec_ok v" and "\<not> has_xz v"
  shows "fmt_dec v = Some (int_string (vint v))"
proof -
  define ws where "ws = map (wget (v_val v)) [0..<max (v_nwords (v_width v)) 1]"
  have wv: "wval ws = vnum v" unfolding ws_def by (rule fmt_dec_words [OF assms(1)])
  let ?neg = "v_signed v \<and> 1 \<le> v_width v \<and> fst (get_vu v (v_width v - 1)) = 1"
  have r: "\<not> v_real v" using assms(1) by (simp add: vec_ok_def)
  have f: "fmt_dec v = map_option (\<lambda>s. if ?neg then CHR ''-'' # s else s)
      (mw_decimal (if ?neg then mw_mask (mw_neg ws) (v_width v) else ws))"
    unfolding fmt_dec_def using r unknown_group_known [OF assms(2)] by (simp add: Let_def ws_def [symmetric] del: One_nat_def)
  have n: "?neg \<longleftrightarrow> v_signed v \<and> 0 < v_width v \<and> pbit (v_val v) (v_width v - 1)"
    by (auto simp: get_vu_eq pair1_def)
  have b: "vnum v < 2 ^ v_width v" by (rule vnum_bound [OF assms(1)])
  show ?thesis
  proof (cases ?neg)
    case True
    let ?w = "v_width v"
    have p: "0 < vnum v"
    proof (rule ccontr)
      assume "\<not> 0 < vnum v"
      then have "\<not> pbit (v_val v) (?w - 1)" using bit_wval [of "v_val v" "?w - 1"] by (simp add: vnum_def)
      then show False using True n by simp
    qed
    have "v_nwords ?w * 64 \<ge> ?w" unfolding v_nwords_def by linarith
    then have l: "?w \<le> 64 * length ws" by (simp add: ws_def max_def)
    have "(2 :: nat) ^ (64 * length ws) = 2 ^ (64 * length ws - ?w) * 2 ^ ?w" using l by (simp flip: power_add)
    then obtain q :: nat where q: "2 ^ (64 * length ws) = q * 2 ^ ?w" by blast
    have "0 < q" using q by (cases q) simp_all
    then have e: "q * 2 ^ ?w - vnum v = (2 ^ ?w - vnum v) + (q - 1) * 2 ^ ?w" using b by (cases q) simp_all
    then have m: "(2 ^ (64 * length ws) - vnum v) mod 2 ^ ?w = 2 ^ ?w - vnum v" unfolding q e mod_mult_self1 using p b by simp
    have "wval (mw_mask (mw_neg ws) ?w) = 2 ^ ?w - vnum v"
      using m p l by (simp add: wval_mw_mask wval_mw_neg wv mod_mod_cancel le_imp_power_dvd)
    moreover have "vint v = int (vnum v) - 2 ^ ?w" using True n by (simp add: vint_def pint_def vnum_def)
    ultimately show ?thesis unfolding f using True b by (simp add: mw_decimal_correct int_string_def nat_diff_distrib nat_power_eq)
  next
    case False
    then have "\<not> (v_signed v \<and> 0 < v_width v \<and> pbit (v_val v) (v_width v - 1))" using n by blast
    then have "vint v = int (vnum v)" by (simp only: vint_def pint_def vnum_def if_False diff_0_right)
    then show ?thesis unfolding f if_not_P [OF False] by (simp add: mw_decimal_correct wv int_string_def)
  qed
qed

lemma ball4: "(\<forall>c\<in>W. P c) \<longleftrightarrow> (L0 \<in> W \<longrightarrow> P L0) \<and> (L1 \<in> W \<longrightarrow> P L1) \<and> (LX \<in> W \<longrightarrow> P LX) \<and> (LZ \<in> W \<longrightarrow> P LZ)"
proof (intro iffI ballI)
  fix c assume "(L0 \<in> W \<longrightarrow> P L0) \<and> (L1 \<in> W \<longrightarrow> P L1) \<and> (LX \<in> W \<longrightarrow> P LX) \<and> (LZ \<in> W \<longrightarrow> P LZ)" "c \<in> W"
  then show "P c" by (cases c) auto
qed simp_all

text \<open>The letter of a decimal field with an unknown bit: lower case when every bit is x, or every bit z, and otherwise
  upper case, X when any bit is x.\<close>

theorem unknown_field_letter:
  assumes "vec_ok v" and "has_xz v"
  shows "fmt_dec v =
    Some (if \<forall>i<v_width v. vbit v i = LX then ''x'' else if \<forall>i<v_width v. vbit v i = LZ then ''z''
          else if \<exists>i<v_width v. vbit v i = LX then ''X'' else ''Z'')"
proof -
  let ?W = "set (map (vbit v) [0..<v_width v])"
  have W: "b \<in> ?W \<longleftrightarrow> (\<exists>i<v_width v. vbit v i = b)" for b by auto
  have u: "LX \<in> ?W \<or> LZ \<in> ?W" using assms(2) by (auto simp: has_xz_iff vbit_def l4_def)
  have a: "(\<forall>i<v_width v. vbit v i = b) \<longleftrightarrow> (\<forall>c\<in>?W. c = b)" for b by auto
  have c: "(\<forall>c\<in>?W. c = LX) \<longleftrightarrow> L0 \<notin> ?W \<and> L1 \<notin> ?W \<and> LZ \<notin> ?W" "(\<forall>c\<in>?W. c = LZ) \<longleftrightarrow> L0 \<notin> ?W \<and> L1 \<notin> ?W \<and> LX \<notin> ?W"
    by (simp_all add: ball4)
  have "unknown_group_char v 0 (v_width v) = unknown_letter (L0 \<in> ?W \<or> L1 \<in> ?W) (LX \<in> ?W) (LZ \<in> ?W)"
    by (simp only: unknown_group_char_def group_bits_vbit Let_def)
  then have g: "unknown_group_char v 0 (v_width v) = Some (if \<forall>i<v_width v. vbit v i = LX then CHR ''x''
      else if \<forall>i<v_width v. vbit v i = LZ then CHR ''z'' else if \<exists>i<v_width v. vbit v i = LX then CHR ''X'' else CHR ''Z'')"
    unfolding a c W [symmetric] unknown_letter_def using u by auto
  show ?thesis unfolding fmt_dec_def g option.case using assms(1) unfolding vec_ok_def by (simp only: if_False if_distrib [of "\<lambda>c. Some [c]"] if_distrib [of Some])
qed

theorem unknown_field_letter_witness: "fmt_dec (all_x 8 False) = Some ''x''"
proof -
  have "vbit (all_x 8 False) 0 = LX" by (simp add: vbit_all_x)
  then have "has_xz (all_x 8 False)" unfolding has_xz_iff by (intro exI [of _ 0]) (auto simp: vbit_def l4_def split: if_splits)
  then show ?thesis using unknown_field_letter [of "all_x 8 False"] by (simp add: vbit_all_x)
qed

section \<open>The default decimal field\<close>

lemma length_int_string:
  assumes "- (2 ^ (w - 1)) \<le> i" and "i < 2 ^ (w - 1)" and "1 < w"
  shows "length (int_string i) \<le> 1 + length (dec_string (2 ^ (w - 1)))"
proof -
  have "nat i \<le> 2 ^ (w - 1)" "nat (- i) \<le> 2 ^ (w - 1)" using assms(1,2) by (simp_all add: nat_le_iff)
  then show ?thesis using dec_string_length_mono by (auto simp: int_string_def intro: le_SucI)
qed

lemma dec_string_pos: "1 \<le> length (dec_string n)"
  using dec_string_neq_Nil [of n] by (cases "dec_string n") simp_all

lemma fmt_dec_fits:
  assumes "vec_ok v" and "v_width v \<le> 128" and "\<not> (v_signed v \<and> v_width v = 1)"
  shows "\<exists>s. fmt_dec v = Some s \<and> length s \<le> dec_field_width (v_width v) (v_signed v)"
proof (cases "has_xz v")
  case True
  have "1 \<le> dec_field_width (v_width v) (v_signed v)"
    using assms(2) dec_string_pos by (auto simp: dec_field_width_def)
  then show ?thesis using unknown_field_letter [OF assms(1) True] by auto
next
  case False
  let ?w = "v_width v"
  have k: "fmt_dec v = Some (int_string (vint v))" by (rule fmt_dec_known [OF assms(1) False])
  have p: "plane_ok ?w (v_val v)" using assms(1) by (simp add: vec_ok_def)
  show ?thesis
  proof (cases "v_signed v \<and> 1 < ?w")
    case True
    then have "- (2 ^ (?w - 1)) \<le> vint v \<and> vint v < 2 ^ (?w - 1)" using pint_range [OF p] by (simp add: vint_def)
    then show ?thesis using True k length_int_string [of ?w "vint v"] assms(2) by (simp add: dec_field_width_def)
  next
    case False
    then have "?w = 0 \<or> \<not> v_signed v" using assms(3) by auto
    then have i: "vint v = int (vnum v)" by (auto simp: vint_def pint_def vnum_def)
    have "vnum v < 2 ^ ?w" by (rule vnum_bound [OF assms(1)])
    then have "length (dec_string (vnum v)) \<le> length (dec_string (2 ^ ?w - 1))" by (intro dec_string_length_mono) simp
    then show ?thesis using False k assms(2) \<open>vnum v < 2 ^ ?w\<close> by (auto simp: i int_string_def dec_field_width_def dec_string_small)
  qed
qed

section \<open>Radix text\<close>

definition digit_value :: "char \<Rightarrow> nat" where
  "digit_value c = (let n = of_char c in if n < 58 then n - 48 else n - 87)"

text \<open>The number a reader sees in digits of base \<open>B\<close>, blanks skipped.\<close>

definition read_radix :: "nat \<Rightarrow> string \<Rightarrow> nat" where
  "read_radix B s = foldl (\<lambda>n c. n * B + digit_value c) 0 (filter (\<lambda>c. c \<noteq> CHR '' '') s)"

lemma digit_char_value: "d < 16 \<Longrightarrow> digit_value (digit_char d) = d \<and> digit_char d \<noteq> CHR '' ''"
proof -
  have "list_all (\<lambda>d. digit_value (digit_char d) = d \<and> digit_char d \<noteq> CHR '' '') [0..<16]" by code_simp
  then show "d < 16 \<Longrightarrow> ?thesis" by (simp only: list_all_iff set_upt atLeastLessThan_iff) simp
qed

lemma radix_from: "foldl (\<lambda>n c. n * B + digit_value c) m s = m * B ^ length s + foldl (\<lambda>n c. n * B + digit_value c) 0 s"
proof (induction s arbitrary: m)
  case (Cons c s)
  define x where "x = digit_value c"
  have "foldl (\<lambda>n c. n * B + digit_value c) 0 (c # s) = x * B ^ length s + foldl (\<lambda>n c. n * B + digit_value c) 0 s"
    using Cons [of x] by (simp add: x_def)
  moreover have "foldl (\<lambda>n c. n * B + digit_value c) m (c # s) = (m * B + x) * B ^ length s + foldl (\<lambda>n c. n * B + digit_value c) 0 s"
    by (simp only: foldl_Cons x_def [symmetric] Cons [of "m * B + x"])
  ultimately show ?case by (simp only: add_mult_distrib length_Cons power_Suc mult.assoc add.assoc)
qed simp

lemma read_radix_append: "read_radix B (a @ b) = read_radix B a * B ^ length (filter (\<lambda>c. c \<noteq> CHR '' '') b) + read_radix B b"
  unfolding read_radix_def filter_append foldl_append by (rule radix_from)

lemma read_radix_zeros: "read_radix B (zeros_text n) = 0"
  by (induction n) (simp_all add: zeros_text_def read_radix_def digit_value_def)

lemma read_radix_spaces: "read_radix B (spaces n @ s) = read_radix B s" "read_radix B (s @ spaces n) = read_radix B s"
  by (simp_all add: read_radix_def spaces_def)

lemma trim_zeros_split: "\<exists>n. s = zeros_text n @ trim_zeros s"
proof (intro exI)
  have "takeWhile (\<lambda>c. c = CHR ''0'') s = zeros_text (length (takeWhile (\<lambda>c. c = CHR ''0'') s))"
    by (induction s) (simp_all add: zeros_text_def)
  then show "s = zeros_text (length (takeWhile (\<lambda>c. c = CHR ''0'') s)) @ trim_zeros s"
    by (metis takeWhile_dropWhile_id trim_zeros_def)
qed

lemma pad_radix_reads: "read_radix B (pad_radix s mz fw lj) = read_radix B s"
proof -
  let ?b = "if mz \<and> fw = Some 0 then (if trim_zeros s = [] then ''0'' else trim_zeros s) else s"
  obtain n where n: "s = zeros_text n @ trim_zeros s" using trim_zeros_split by blast
  have t: "read_radix B (trim_zeros s) = read_radix B s"
    using n by (metis add_0 mult_zero_left read_radix_append read_radix_zeros)
  have "read_radix B ''0'' = read_radix B []" by (simp add: read_radix_def digit_value_def)
  then have b: "read_radix B ?b = read_radix B s" using t by auto
  have "read_radix B (replicate k (if mz then CHR ''0'' else CHR '' '') @ x) = read_radix B x" for k x
    using read_radix_append [of B "zeros_text k" x] read_radix_spaces(1) [of B k x] read_radix_zeros
    by (auto simp: spaces_def zeros_text_def)
  then show ?thesis
    using b by (auto simp: pad_radix_def Let_def read_radix_spaces split: option.split)
qed

lemma take_bit_group:
  assumes "a < 2 ^ w" and "lo \<le> w"
  shows "horner_sum of_bool 2 (map (bit a) [lo..<min (lo + k) w]) = (a :: nat) div 2 ^ lo mod 2 ^ k"
proof -
  let ?h = "min (lo + k) w"
  have "map (bit a) [lo..<?h] = map (bit (drop_bit lo a)) [0..<?h - lo]"
    using assms(2) by (intro nth_equalityI) (auto simp: bit_drop_bit_eq nth_upt min_def)
  then have "horner_sum of_bool 2 (map (bit a) [lo..<?h]) = take_bit (?h - lo) (drop_bit lo a)"
    by (simp only: horner_sum_bit_eq_take_bit)
  also have "\<dots> = take_bit k (drop_bit lo a)"
  proof (cases "lo + k \<le> w")
    case False
    have "drop_bit lo a < 2 ^ (w - lo)" using assms by (simp add: drop_bit_eq_div less_mult_imp_div_less flip: power_add)
    then have "take_bit j (drop_bit lo a) = drop_bit lo a" if "w - lo \<le> j" for j
      using that power_increasing [OF that, of "2 :: nat"] by (simp add: take_bit_nat_eq_self less_le_trans)
    then show ?thesis using False assms(2) by simp
  qed (use assms(2) in simp)
  finally show ?thesis by (simp add: take_bit_eq_mod drop_bit_eq_div)
qed

lemma radix_digit_known:
  assumes "vec_ok v" and "\<not> has_xz v" and "d * k \<le> v_width v"
  shows "radix_digit v k d = digit_char (vnum v div 2 ^ (d * k) mod 2 ^ k)"
proof -
  let ?h = "min (d * k + k) (v_width v)"
  have u: "\<not> pbit (v_unk v) i" for i using has_xz_zero_unk assms(1,2) by blast
  have b: "vbit v i = (if pbit (v_val v) i then L1 else L0)" for i using u by (simp add: vbit_def l4_def)
  have n: "LX \<notin> set (group_bits v lo hi)" "LZ \<notin> set (group_bits v lo hi)" for lo hi
    by (auto simp: group_bits_vbit b split: if_splits)
  have e: "(vbit v i = L1) = bit (vnum v) i" for i by (simp add: b vnum_def bit_wval)
  have "horner_sum (\<lambda>b. of_bool (b = L1)) 2 (group_bits v (d * k) ?h) = (horner_sum of_bool 2 (map (bit (vnum v)) [d * k..<?h]) :: nat)"
    by (simp add: group_bits_vbit horner_sum_foldr foldr_map comp_def e)
  then show ?thesis
    unfolding radix_digit_def Let_def using n take_bit_group [OF vnum_bound [OF assms(1)] assms(3), of k]
    by (simp add: unknown_letter_def)
qed

lemma radix_digits_value:
  assumes "vec_ok v" and "\<not> has_xz v" and "k \<le> 4" and "\<forall>d<n. d * k \<le> v_width v"
  shows "read_radix (2 ^ k) (map (radix_digit v k) (rev [0..<n])) = vnum v mod 2 ^ (k * n)
    \<and> CHR '' '' \<notin> set (map (radix_digit v k) (rev [0..<n]))"
  using assms(4)
proof (induction n)
  case (Suc n)
  let ?c = "vnum v div 2 ^ (n * k) mod 2 ^ k" and ?r = "map (radix_digit v k) (rev [0..<n])"
  have ih: "read_radix (2 ^ k) ?r = vnum v mod 2 ^ (k * n)" "CHR '' '' \<notin> set ?r" using Suc by simp_all
  have d: "radix_digit v k n = digit_char ?c" using radix_digit_known [OF assms(1,2)] Suc.prems by simp
  have "(2 :: nat) ^ k \<le> 2 ^ 4" using assms(3) by (intro power_increasing) simp_all
  moreover have "?c < 2 ^ k" by simp
  ultimately have "?c < 2 ^ 4" by (rule less_le_trans [rotated])
  then have "?c < 16" by simp
  note c = digit_char_value [OF this]
  have "filter (\<lambda>c. c \<noteq> CHR '' '') ?r = ?r" unfolding filter_id_conv using ih(2) by blast
  then have l: "length (filter (\<lambda>c. c \<noteq> CHR '' '') ?r) = n" by simp
  have "read_radix (2 ^ k) [radix_digit v k n] = ?c" using c by (simp add: d read_radix_def)
  then have "read_radix (2 ^ k) ([radix_digit v k n] @ ?r) = ?c * (2 ^ k) ^ n + vnum v mod 2 ^ (k * n)"
    by (simp only: read_radix_append l ih(1))
  also have "\<dots> = 2 ^ (k * n) * (vnum v div 2 ^ (k * n) mod 2 ^ k) + vnum v mod 2 ^ (k * n)"
    by (simp only: mult.commute [of n k] power_mult [symmetric] mult.commute [of _ "2 ^ (k * n)"])
  also have "\<dots> = vnum v mod (2 ^ (k * n) * 2 ^ k)" by (rule mod_mult2_eq [symmetric])
  also have "2 ^ (k * n) * 2 ^ k = (2 :: nat) ^ (k * Suc n)" by (simp add: power_add mult.commute)
  finally show ?case using c ih(2) by (auto simp: d)
qed (simp add: read_radix_def)

text \<open>C36: A value with no unknown bit prints as a binary, octal or hexadecimal numeral that reads back as its number, under every
  padding the flags ask for.\<close>

theorem radix_reads_back:
  assumes "vec_ok v" and "\<not> has_xz v" and "k \<in> {1, 3, 4}"
  shows "read_radix (2 ^ k) (fmt_radix v k mz fw lj) = vnum v"
proof (cases "v_width v = 0")
  case True
  then show ?thesis using vnum_bound [OF assms(1)] by (simp add: fmt_radix_def read_radix_def digit_value_def)
next
  case False
  let ?n = "(v_width v + k - 1) div k"
  have k: "0 < k" "k \<le> 4" using assms(3) by auto
  have "d * k \<le> v_width v" if "d < ?n" for d
  proof -
    have "Suc d * k \<le> v_width v + k - 1" using that less_eq_div_iff_mult_less_eq [OF k(1), of "Suc d" "v_width v + k - 1"] by simp
    then show ?thesis using k(1) by simp
  qed
  then have r: "read_radix (2 ^ k) (map (radix_digit v k) (rev [0..<?n])) = vnum v mod 2 ^ (k * ?n)"
    using radix_digits_value [OF assms(1,2) k(2)] by blast
  have "v_width v \<le> ?n * k" using k(1) div_mult_mod_eq [of "v_width v + k - 1" k] mod_less_divisor [OF k(1), of "v_width v + k - 1"] by linarith
  then have "v_width v \<le> k * ?n" by (simp only: mult.commute)
  then have "vnum v < 2 ^ (k * ?n)" using vnum_bound [OF assms(1)] power_increasing [of "v_width v" "k * ?n" "2 :: nat"] by linarith
  then show ?thesis using False r by (simp add: fmt_radix_def pad_radix_reads)
qed

theorem radix_reads_back_witness: "read_radix 8 (fmt_radix (byte_value 200) 3 True (Some 5) False) = 200"
  using radix_reads_back [of "byte_value 200" 3 True "Some 5" False] byte_value_ok(1) [of 200]
  by (simp add: val_ok_vec_ok vnum_def)

section \<open>Times\<close>

lemma dec_value_bound: "list_all decimal_char s \<Longrightarrow> dec_value s < 10 ^ length s"
proof (induction s rule: rev_induct)
  case (snoc c s)
  have "(48 :: nat) \<le> of_char c" "of_char c \<le> (57 :: nat)" using snoc.prems by (simp_all add: decimal_char_def)
  then have "dec_value [c] < 10" unfolding dec_value_def foldl_Cons foldl_Nil by linarith
  moreover have "dec_value s < 10 ^ length s" using snoc by simp
  ultimately show ?case by (simp add: dec_value_append)
qed (simp add: dec_value_def)

lemma dec_value_take:
  assumes "list_all decimal_char s"
  shows "dec_value (take j s) = dec_value s div 10 ^ (length s - j)"
proof -
  have "dec_value s = dec_value (take j s) * 10 ^ (length s - j) + dec_value (drop j s)"
    using dec_value_append [of "take j s" "drop j s"] by simp
  moreover have "list_all decimal_char (drop j s)" using assms by (metis append_take_drop_id list_all_append)
  then have "dec_value (drop j s) < 10 ^ (length s - j)" using dec_value_bound by fastforce
  ultimately show ?thesis by simp
qed

lemma div_power_ten: "p \<le> q \<Longrightarrow> m * 10 ^ p div 10 ^ q = (m :: nat) div 10 ^ (q - p)"
  using div_mult_mult1 [of "10 ^ p :: nat" m "10 ^ (q - p)"] by (simp add: mult.commute flip: power_add)

text \<open>C37: A time prints in its units as the whole part, and \<open>prec\<close> digits after the point, of the number shifted by the decimal
  distance of the units: digits that do not fit are cut off, never rounded, and a sign stays in front.\<close>

theorem shifted_time_truncates:
  "\<exists>ip frac. time_digits_shift (int_string i) shift prec = (if i < 0 then ''-'' else []) @ ip @ (if prec = 0 then [] else CHR ''.'' # frac)
     \<and> length frac = prec \<and> ip \<noteq> []
     \<and> dec_value (ip @ frac) = nat \<bar>i\<bar> * 10 ^ nat shift * 10 ^ prec div 10 ^ nat (- shift)"
proof -
  define m where "m = nat \<bar>i\<bar>"
  let ?s = "dec_string m"
  have "strip_minus (dec_string n) = ([], dec_string n)" for n
    using dec_string_hd [of n] by (cases "dec_string n") (auto simp: strip_minus_def dest: decimal_char_not)
  then have sm: "strip_minus (int_string i) = (if i < 0 then ''-'' else [], ?s)"
    by (auto simp: int_string_def m_def strip_minus_def [of "_ # _"])
  have "\<exists>ip frac. shift_body ?s shift prec = ip @ (if prec = 0 then [] else CHR ''.'' # frac) \<and> length frac = prec \<and> ip \<noteq> []
      \<and> dec_value (ip @ frac) = m * 10 ^ nat shift * 10 ^ prec div 10 ^ nat (- shift)"
  proof (cases "0 \<le> shift")
    case True
    let ?ip = "if ?s = ''0'' then ?s else ?s @ zeros_text (nat shift)"
    have v: "dec_value (a @ zeros_text n) = dec_value a * 10 ^ n" for a n
      by (simp add: dec_value_append dec_value_zeros) (simp add: zeros_text_def)
    have "?s = ''0'' \<longrightarrow> m = 0" using dec_value_dec_string [of m] by (auto simp: dec_value_def)
    moreover have "dec_value ''0'' = 0" by (simp add: dec_value_def)
    ultimately have "dec_value ?ip = m * 10 ^ nat shift" using v dec_value_dec_string by auto
    then have "dec_value (?ip @ zeros_text prec) = m * 10 ^ nat shift * 10 ^ prec div 10 ^ nat (- shift)"
      using True v [of ?ip prec] by simp
    moreover have "length (zeros_text prec) = prec" by (simp add: zeros_text_def)
    moreover have "?ip \<noteq> []" by (simp add: dec_string_neq_Nil)
    ultimately show ?thesis
      using True by (intro exI [of _ ?ip] exI [of _ "zeros_text prec"] conjI) (simp_all add: shift_body_def Let_def)
  next
    case False
    let ?p = "nat (- shift)"
    define padded where "padded = (if length ?s \<le> ?p then zeros_text (?p + 1 - length ?s) @ ?s else ?s)"
    let ?cut = "length padded - ?p"
    have dp: "list_all decimal_char padded" "dec_value padded = m" "?p < length padded"
      by (auto simp: padded_def dec_string_decimal zeros_text_decimal dec_value_pad dec_value_dec_string) (simp_all add: zeros_text_def)
    let ?ip = "take ?cut padded" and ?fr = "take prec (drop ?cut padded @ zeros_text prec)"
    have "?ip @ ?fr = take (?cut + prec) padded @ zeros_text (prec - ?p)"
      using dp(3) take_add [of ?cut prec padded] by (simp add: zeros_text_def min_def)
    moreover have "dec_value (take (?cut + prec) padded) = m div 10 ^ (?p - prec)"
      using dec_value_take [OF dp(1), of "?cut + prec"] dp(2,3) by (auto simp: min_def intro!: arg_cong [of _ _ "\<lambda>k. m div 10 ^ k"])
    ultimately have "dec_value (?ip @ ?fr) = m div 10 ^ (?p - prec) * 10 ^ (prec - ?p)"
      by (simp add: dec_value_append dec_value_zeros) (simp add: zeros_text_def)
    also have "\<dots> = m * 10 ^ nat shift * 10 ^ prec div 10 ^ ?p"
    proof (cases "prec \<le> ?p")
      case True
      then show ?thesis using False by (simp add: div_power_ten)
    next
      case f: False
      then have "(10 :: nat) ^ prec = 10 ^ (prec - ?p) * 10 ^ ?p" by (simp flip: power_add)
      then show ?thesis using f False by (simp flip: mult.assoc)
    qed
    finally have "dec_value (?ip @ ?fr) = m * 10 ^ nat shift * 10 ^ prec div 10 ^ ?p" .
    moreover have "length ?fr = prec" by (simp add: zeros_text_def)
    moreover have "?ip \<noteq> []" using dp(3) by auto
    ultimately show ?thesis
      using False by (intro exI [of _ ?ip] exI [of _ ?fr] conjI) (simp_all add: shift_body_def Let_def padded_def [symmetric])
  qed
  then show ?thesis unfolding time_digits_shift_def sm m_def by (simp del: append_assoc)
qed

end
