(* ===== verification/FormatCorrect.thy ===== *)
theory FormatCorrect
  imports Format RenderCorrect ArenaRead
begin

text \<open>
  What the format engine promises: a decimal field reads back, the default field is aligned, escaped text prints as it
  is, and over the store of a design of vectors every call returns.
\<close>

section \<open>Decimal fields\<close>

lemma in_field_small: "(case fl_width fl of Some n \<Rightarrow> n < 2 ^ 63 | None \<Rightarrow> True) \<Longrightarrow> in_field fl s = Some s"
  by (auto simp: in_field_def split: option.splits)

text \<open>C34: A \<open>%d\<close> field of a value with no unknown bit is the value's integer under any flags and any width below \<open>2 ^ 63\<close>: the
  text reads back as the value, and it is exactly as long as the width asked for (without one, the default width of the
  type), or as the number with its sign, the one \<open>+\<close> forces included, where that is longer.\<close>

theorem dec_field_reads_back:
  assumes "vec_ok v" and "\<not> has_xz v" and "case fl_width fl of Some n \<Rightarrow> n < 2 ^ 63 | None \<Rightarrow> True"
  shows "\<exists>t. dec_field fl v = Some (as_bytes t) \<and> read_int t = vint v
    \<and> length t = max (length (int_string (vint v)) + of_bool (fl_plus fl \<and> 0 \<le> vint v))
        (case fl_width fl of Some n \<Rightarrow> n | None \<Rightarrow> dec_field_width (v_width v) (v_signed v))"
proof -
  let ?s = "int_string (vint v)"
  let ?t = "if fl_plus fl \<and> take 1 ?s \<noteq> ''-'' then CHR ''+'' # ?s else ?s"
  let ?w = "if v_real v then 0 else dec_field_width (v_width v) (v_signed v)"
  have r: "\<not> v_real v" using assms(1) by (simp add: vec_ok_def)
  have e: "dec_field fl v = Some (as_bytes (pad_dec ?t (fl_min_zero fl) (fl_width fl) (fl_left fl) ?w))"
    by (simp add: dec_field_def fmt_dec_known [OF assms(1,2)] in_field_small [OF assms(3)] Let_def)
  have n: "number_text ?t \<and> read_int ?t = vint v \<and> length ?t = length ?s + of_bool (fl_plus fl \<and> 0 \<le> vint v)"
  proof (cases "vint v < 0")
    case True
    then show ?thesis using int_string_number [of "vint v"] read_int_string [of "vint v"] by (simp add: int_string_def)
  next
    case False
    let ?d = "dec_string (nat (vint v))"
    have "number_text (CHR ''+'' # ?d)" "number_text ?d"
      unfolding number_text_def using dec_string_decimal [of "nat (vint v)"] dec_string_neq_Nil [of "nat (vint v)"] by blast+
    moreover have "read_int (CHR ''+'' # ?d) = vint v" "read_int ?d = vint v"
      using False read_digits(1,3) [OF dec_string_decimal] by (simp_all add: dec_value_dec_string)
    moreover have "take 1 ?d \<noteq> ''-''"
      using dec_string_decimal [of "nat (vint v)"] by (cases ?d) (auto simp: decimal_char_def)
    ultimately show ?thesis using False by (simp add: int_string_def)
  qed
  let ?f = "pad_dec ?t (fl_min_zero fl) (fl_width fl) (fl_left fl) ?w"
  have "read_int ?f = vint v" "length ?f = max (length ?t) (case fl_width fl of Some n \<Rightarrow> n | None \<Rightarrow> ?w)"
    using pad_dec_reads n by simp_all
  then show ?thesis using e n unfolding if_not_P [OF r] by metis
qed

theorem dec_field_reads_back_witness:
  "\<exists>t. dec_field \<lparr>fl_left = False, fl_plus = True, fl_min_zero = True, fl_width = Some 9, fl_prec = None\<rparr> (byte_value 200) = Some (as_bytes t)
    \<and> read_int t = 200 \<and> length t = 9"
  using dec_field_reads_back [of "byte_value 200" "\<lparr>fl_left = False, fl_plus = True, fl_min_zero = True, fl_width = Some 9, fl_prec = None\<rparr>"]
    byte_value_ok(1) [of 200] by (simp add: val_ok_vec_ok vint_def pint_def int_string_def dec_string.simps)

text \<open>C35: A bare \<open>%d\<close> of a vector of at most 128 bits, known or not, is exactly as wide as the default width of its type, so that
  columns line up; the one exception of the code is a signed single bit, whose -1 does not fit the width 1.\<close>

theorem bare_decimal_is_aligned:
  assumes "vec_ok v" and "v_width v \<le> 128" and "\<not> (v_signed v \<and> v_width v = 1)"
    and "fl_width fl = None" and "\<not> fl_plus fl" and "\<not> fl_min_zero fl"
  shows "\<exists>t. dec_field fl v = Some t \<and> length t = dec_field_width (v_width v) (v_signed v)"
proof -
  obtain s where s: "fmt_dec v = Some s" "length s \<le> dec_field_width (v_width v) (v_signed v)"
    using fmt_dec_fits [OF assms(1-3)] by blast
  then show ?thesis using assms by (auto simp: dec_field_def in_field_def vec_ok_def pad_dec_def as_bytes_def spaces_def Let_def)
qed

theorem bare_decimal_is_aligned_witness:
  "\<exists>t. dec_field \<lparr>fl_left = False, fl_plus = False, fl_min_zero = False, fl_width = None, fl_prec = None\<rparr> (all_x 8 True) = Some t \<and> length t = 4"
proof -
  have "dec_field_width 8 True = 4" by (simp add: dec_field_width_def dec_string.simps)
  then show ?thesis
    using bare_decimal_is_aligned [of "all_x 8 True" "\<lparr>fl_left = False, fl_plus = False, fl_min_zero = False, fl_width = None, fl_prec = None\<rparr>"]
    by simp
qed

section \<open>Literal text\<close>

definition escape :: "u8 list \<Rightarrow> u8 list" where
  "escape s = concat (map (\<lambda>c. if c = 37 then [37, 37] else [c]) s)"

text \<open>Text whose percent signs are doubled prints as it is, byte for byte, and uses no argument.\<close>

theorem escaped_text_prints_verbatim:
  "render_template F nested args (escape s) argi out = ev_ret (argi, out @ s)"
proof (induction s arbitrary: out)
  case (Cons c cs)
  have p: "parse_flags (37 # bs) = (\<lparr>fl_left = False, fl_plus = False, fl_min_zero = False, fl_width = None, fl_prec = None\<rparr>, 37 # bs)" for bs
    by (simp add: parse_flags_def is_digit_def width_value_def parse_usize_def)
  show ?case
  proof (cases "c = 37")
    case True
    have "render_template F nested args (escape (c # cs)) argi out
        = ev_bind (ev_ret ([37], argi)) (\<lambda>(txt, argi). render_template F nested args (escape cs) argi (out @ txt))"
      by (simp add: True escape_def render_template.simps p convert_def)
    then show ?thesis using True by (simp add: ev_bind_def ev_ret_def Cons [unfolded ev_ret_def])
  next
    case False
    then show ?thesis using Cons by (simp add: escape_def render_template.simps)
  qed
qed (simp add: escape_def render_template.simps)

section \<open>Every call returns\<close>

lemma fmt_dec_returns: "\<exists>s. fmt_dec v = Some s"
  by (cases "v_real v"; cases "unknown_group_char v 0 (v_width v)") (simp_all add: fmt_dec_def mw_decimal_correct Let_def)

lemma dec_string_power: "length (dec_string (10 ^ k)) = Suc k"
proof (cases k)
  case (Suc j)
  have "dec_string (1 * 10 ^ Suc j + 0) = dec_string 1 @ zero_pad (Suc j) (dec_string 0)"
    by (rule dec_string_concat) simp_all
  then show ?thesis using Suc by (simp add: zero_pad_def dec_string_small)
qed (simp add: dec_string_small)

text \<open>The unit of a module is a power of ten, and the minimum width of \<open>$timeformat\<close> an \<open>i32\<close>.\<close>

definition unit_ok :: "fmt_state \<Rightarrow> bool" where
  "unit_ok st \<longleftrightarrow> (\<exists>k. max (fs_cur_time_mult st) 1 = 10 ^ k)
     \<and> (case fs_timeformat st of Some tf \<Rightarrow> - (2 ^ 31) \<le> tf_minw tf | None \<Rightarrow> True)"

text \<open>A conversion that asks for a field and a precision the renderer can hold.\<close>

definition flags_fit :: "fmt_flags \<Rightarrow> bool" where
  "flags_fit fl \<longleftrightarrow>
     (case fl_width fl of Some n \<Rightarrow> n < 2 ^ 63 | None \<Rightarrow> True) \<and> (case fl_prec fl of Some p \<Rightarrow> p < 2 ^ 31 - 4 | None \<Rightarrow> True)"

text \<open>A template whose conversions do: what follows each percent sign, read as flags.\<close>

fun template_fits :: "u8 list \<Rightarrow> bool" where
  "template_fits [] \<longleftrightarrow> True"
| "template_fits (c # cs) \<longleftrightarrow> (c = 37 \<longrightarrow> flags_fit (fst (parse_flags cs))) \<and> template_fits cs"

lemma suffix_Cons: "\<exists>n. r = drop n ds \<Longrightarrow> \<exists>n. r = drop n (d # ds)"
  by (metis drop_Suc_Cons)

lemma flag_run_suffix: "\<exists>n. snd (flag_run l s z w bs) = drop n bs"
proof (induction l s z w bs rule: flag_run.induct)
  case (2 l s z w d ds)
  have d0: "\<exists>n. d # ds = drop n (d # ds)" for d by (rule exI [of _ 0]) simp
  show ?case
    using 2 by (cases "d = 45 \<and> w = []"; cases "d = 43 \<and> w = []"; cases "d = 48 \<and> w = []"; cases "is_digit d")
      (simp_all add: suffix_Cons d0)
qed simp

lemma parse_flags_suffix: "\<exists>n. snd (parse_flags bs) = drop n bs"
proof -
  obtain q n where f: "flag_run False False False [] bs = (q, drop n bs)"
    using flag_run_suffix [of False False False "[]" bs] by (metis prod.collapse)
  have w: "\<exists>m. dropWhile is_digit cs = drop m cs" for cs by (metis dropWhile_eq_drop)
  show ?thesis
  proof (cases "drop n bs")
    case Nil
    then show ?thesis unfolding parse_flags_def f by (auto split: prod.splits intro: exI [of _ "length bs"])
  next
    case (Cons c cs)
    have k: "cs = drop (Suc n) bs" using Cons by (metis drop_Suc drop_tl list.sel(3))
    obtain m where m: "dropWhile is_digit cs = drop m cs" using w by blast
    also have "drop m cs = drop (m + Suc n) bs" by (simp add: k)
    finally have "dropWhile is_digit cs = drop (m + Suc n) bs" .
    then show ?thesis using Cons unfolding parse_flags_def f by (auto split: prod.splits intro: exI [of _ n] exI [of _ "m + Suc n"])
  qed
qed

lemma template_fits_drop: "template_fits bs \<Longrightarrow> template_fits (drop n bs)"
  by (induction bs arbitrary: n) (auto simp: drop_Cons split: nat.split)

lemma field_returns: "flags_fit fl \<Longrightarrow> in_field fl s = Some s"
  by (rule in_field_small) (simp add: flags_fit_def split: option.splits)

lemma field_ex: "flags_fit fl \<Longrightarrow> \<exists>t. in_field fl s = Some t"
  by (simp add: field_returns)

lemma real_returns:
  assumes "flags_fit fl"
  shows "\<exists>t. fmt_real_flags v c fl = Some t"
proof -
  have "\<not> real_refused x c (fl_prec fl)" for x
  proof (cases c)
    case ConvG
    let ?q = "max (case fl_prec fl of Some p \<Rightarrow> p | None \<Rightarrow> 6) 1"
    have q: "?q < 2 ^ 31 - 4" "1 \<le> ?q" using assms by (auto simp: flags_fit_def split: option.splits)
    then have "int ?q < 2 ^ 31" by simp
    then have "sint (of_int (int ?q) :: 32 word) = int ?q" unfolding int_word_sint by simp
    then have "sint (of_nat ?q :: 32 word) = int ?q" by (simp only: of_int_of_nat_eq)
    then show ?thesis using q ConvG by (auto simp: real_refused_def Let_def)
  qed (use assms in \<open>auto simp: real_refused_def flags_fit_def\<close>)
  then show ?thesis by (simp add: fmt_real_flags_def field_returns [OF assms])
qed

lemma time_returns:
  assumes "unit_ok st" and "flags_fit fl"
  shows "\<exists>b. fmt_time_spec p10 st v (fl_width fl) mz lj = Some b"
proof -
  obtain k where k: "max (fs_cur_time_mult st) 1 = 10 ^ k" using assms(1) by (auto simp: unit_ok_def)
  obtain a b where ab: "fmt_dec v = Some a" "fmt_dec (clear_unknown v) = Some b" using fmt_dec_returns by blast
  have w: "sint (of_nat n :: 64 word) \<noteq> - (2 ^ 63)" if "fl_width fl = Some n" for n
  proof -
    have "int n < 2 ^ 63" using assms(2) that by (simp add: flags_fit_def)
    then have "sint (of_int (int n) :: 64 word) = int n" unfolding int_word_sint by simp
    then have "sint (of_nat n :: 64 word) = int n" by (simp only: of_int_of_nat_eq)
    then show ?thesis by simp
  qed
  show ?thesis
    using ab w assms(1)
    unfolding fmt_time_spec_def Let_def k dec_string_power
    by (cases "fs_timeformat st"; cases "unknown_group_char v 0 (v_width v)"; cases "fl_width fl") (auto simp: unit_ok_def)
qed

lemma default_returns: "\<exists>b. push_default_radix v out r = Some b"
  using fmt_dec_returns [of v] by (auto simp: push_default_radix_def)

lemma pattern_returns: "flags_fit fl \<Longrightarrow> \<exists>b. pattern_scalar v fl = Some b"
  using fmt_dec_returns [of v] real_returns [of fl v ConvG] by (auto simp: pattern_scalar_def field_returns)

lemma dec_field_returns: "flags_fit fl \<Longrightarrow> \<exists>b. dec_field fl v = Some b"
  using fmt_dec_returns [of v] by (auto simp: dec_field_def field_returns Let_def)

lemma radix_field_returns: "flags_fit fl \<Longrightarrow> \<exists>b. radix_field fl k v = Some b"
  by (simp add: radix_field_def field_returns Let_def)

lemma real_field_returns: "flags_fit fl \<Longrightarrow> \<exists>b. real_field fl spec v = Some b"
  using real_returns [of fl v] by (auto simp: real_field_def Let_def)

context vector_reader
begin

text \<open>A context over the store: a design of vectors, a stack that holds every expression.\<close>

definition fmt_ok :: "'s fmt_ctx \<Rightarrow> bool" where
  "fmt_ok F \<longleftrightarrow> ec_nets (fc_cx F) = rd \<and> length (x_nets (ec_ir (fc_cx F))) \<le> n \<and> vector_design calls (fc_cx F)
     \<and> length (x_exprs (ec_ir (fc_cx F))) + 1 \<le> fc_fuel F \<and> unit_ok (fc_st F)"

definition args_ok :: "'s fmt_ctx \<Rightarrow> nat list \<Rightarrow> bool" where
  "args_ok F args \<longleftrightarrow> (\<forall>a \<in> set args. a < length (x_exprs (ec_ir (fc_cx F)))
     \<and> (case const_str_arg (fc_cx F) a of Some txt \<Rightarrow> template_fits txt | None \<Rightarrow> True))"

lemma eval_arg:
  assumes "fmt_ok F" and "a < length (x_exprs (ec_ir (fc_cx F)))"
  shows "ev_total J (eval_expr (fc_fuel F) (fc_cx F) a) plain"
proof -
  have "a + 2 \<le> fc_fuel F" using assms by (simp add: fmt_ok_def)
  then have "sub_ok (fc_cx F) J (eval_ctx (fc_fuel F) (fc_cx F)) a"
    using assms by (intro eval_ctx_sub_ok) (auto simp: fmt_ok_def)
  from eval_self_plain [OF this] show ?thesis
    unfolding eval_expr_def by (rule ev_total_weaken) simp
qed

lemma plain_x1: "plain (bit1 b)"
  by (simp add: plain_def) (simp add: bit1_def)

lemma next_arg_total: "fmt_ok F \<Longrightarrow> args_ok F args \<Longrightarrow> ev_total J (next_arg F args i) plain"
  using eval_arg [of F] by (auto simp: next_arg_def args_ok_def plain_x1 ev_total_ret split: option.split)

lemma read_total: "fmt_ok F \<Longrightarrow> net < length (x_nets (ec_ir (fc_cx F))) \<Longrightarrow>
    ev_total J (on_env (nr_read_net (ec_nets (fc_cx F)) net w)) plain"
  using on_env_total [OF read] by (simp add: fmt_ok_def)

lemma render_dims_total:
  "fmt_ok F \<Longrightarrow> net < length (x_nets (ec_ir (fc_cx F))) \<Longrightarrow> ds \<noteq> [] \<Longrightarrow> ev_total J (render_dims F net ds base) (\<lambda>_. True)"
proof (induction F net ds base rule: render_dims.induct)
  case (2 F net d base)
  have "ev_total J (ev_seq (map (\<lambda>k. on_env (nr_read_net (ec_nets (fc_cx F)) net (Some (base + k)))) [0..<snd d]))
      (\<lambda>vs. length vs = length [0..<snd d] \<and> list_all plain vs)"
    using ev_total_seq [of J plain "map (\<lambda>k. on_env (nr_read_net (ec_nets (fc_cx F)) net (Some (base + k)))) [0..<snd d]"]
      read_total [OF 2(1,2)] by (simp add: list_all_iff)
  then show ?case unfolding render_dims.simps by (rule ev_total_map) simp
next
  case (3 F net d d' ds base)
  have "ev_total J (ev_seq (map (\<lambda>k. render_dims F net (d' # ds) (base + k * prod_list (map snd (d' # ds)))) [0..<snd d]))
      (\<lambda>vs. length vs = length [0..<snd d] \<and> list_all (\<lambda>_. True) vs)"
    using ev_total_seq [of J "\<lambda>_. True" "map (\<lambda>k. render_dims F net (d' # ds) (base + k * prod_list (map snd (d' # ds)))) [0..<snd d]"]
      3 by (simp add: list_all_iff)
  then show ?case unfolding render_dims.simps by (rule ev_total_map) simp
qed simp

text \<open>What one conversion promises: it uses no argument twice.\<close>

lemma pattern_field_total:
  assumes "fmt_ok F" and "args_ok F args" and fl: "flags_fit fl"
  shows "ev_total J (pattern_field F fl args i) (\<lambda>_. True)"
proof -
  have p: "ev_total J (pattern_of_net F net) (\<lambda>_. True)" if "net < length (x_nets (ec_ir (fc_cx F)))" for net
    using render_dims_total [OF assms(1) that] that
    by (auto simp: pattern_of_net_def arena_get_in simp del: render_dims.simps split: option.split
        intro!: ev_total_ret of_env_total ev_total_map [of J _ "\<lambda>_. True"])
  have net: "net < length (x_nets (ec_ir (fc_cx F)))"
    if "Option.bind (arena_get args i) (arena_get (x_exprs (ec_ir (fc_cx F)))) = Some (Signal net None)" for net
  proof -
    from that obtain a where a: "arena_get (x_exprs (ec_ir (fc_cx F))) a = Some (Signal net None)"
      by (auto simp: bind_eq_Some_conv)
    then have "a < length (x_exprs (ec_ir (fc_cx F)))" "x_exprs (ec_ir (fc_cx F)) ! a = Signal net None"
      by (auto simp: arena_get_def split: if_splits)
    then show ?thesis using assms(1) unfolding fmt_ok_def vector_design_def by (auto simp: node_shape_def Let_def dest!: spec [of _ a])
  qed
  show ?thesis
    unfolding pattern_field_def
  proof (rule ev_total_bind [of J _ "\<lambda>_. True"])
    show "ev_total J (case Option.bind (arena_get args i) (arena_get (x_exprs (ec_ir (fc_cx F)))) of
          Some (Signal net None) \<Rightarrow> pattern_of_net F net | _ \<Rightarrow> ev_ret None) (\<lambda>_. True)"
      using p net by (auto split: option.split expr.split intro: ev_total_ret)
    show "ev_total J (case agg of Some s \<Rightarrow> ev_opt (in_field fl (justify s (fl_width fl) (fl_left fl)))
        | None \<Rightarrow> ev_bind (next_arg F args i) (\<lambda>v. ev_opt (pattern_scalar v fl))) (\<lambda>_. True)" for agg
      using next_arg_total [OF assms(1,2), of i] pattern_returns [OF fl] field_ex [OF fl]
      by (auto split: option.split intro!: ev_total_ret ev_total_bind [of J _ plain] ev_total_opt_ex)
  qed
qed

lemma string_content_total:
  assumes "fmt_ok F" and "args_ok F args"
  shows "ev_total J (string_content F nested fl (arena_get args i)) (\<lambda>_. True)"
proof (cases "arena_get args i")
  case (Some e)
  then have e: "e < length (x_exprs (ec_ir (fc_cx F)))"
    using assms(2) nth_mem by (auto simp: args_ok_def arena_get_def split: if_splits)
  have "x_exprs (ec_ir (fc_cx F)) ! e \<noteq> SysFunc (F_v7 S_Sformatf) sa" for sa
    using assms(1) e unfolding fmt_ok_def vector_design_def by (auto simp: node_shape_def vector_funcs_def Let_def dest!: spec [of _ e])
  then show ?thesis
    using eval_arg [OF assms(1) e] e Some
    by (auto simp: string_content_def arena_get_in split: option.split expr.split sys_func_id.split sf_v7.split
        intro!: ev_total_ret ev_total_map [of J _ plain])
next
  case None
  then show ?thesis unfolding string_content_def None by (simp add: ev_total_ret)
qed

lemma convert_total:
  assumes "fmt_ok F" and "args_ok F args" and fl: "flags_fit fl"
  shows "ev_total J (convert F nested fl spec args i) (\<lambda>(s, j). i \<le> j)"
proof -
  note v = next_arg_total [OF assms(1,2), of i]
  have one: "ev_total J (ev_map (\<lambda>s. (s, i + 1)) m) (\<lambda>(s, j). i \<le> j)" if "ev_total J m (\<lambda>_. True)" for m :: "('s eval_state, u8 list) ev"
    by (rule ev_total_map [OF that]) simp
  have none: "ev_total J (ev_map (\<lambda>s. (s, i)) (ev_opt (in_field fl t))) (\<lambda>(s :: u8 list, j). i \<le> j)" for t
    by (rule ev_total_map [of J _ "\<lambda>_. True"]) (simp_all add: field_returns [OF fl] ev_total_opt_ex)
  have via: "ev_total J (ev_bind (next_arg F args i) (\<lambda>v. ev_opt (f v))) (\<lambda>_. True)" if "\<And>v. \<exists>b. f v = Some b" for f :: "sim_value \<Rightarrow> u8 list option"
    by (rule ev_total_bind [OF v]) (use that in \<open>auto intro!: ev_total_opt_ex\<close>)
  have pure: "ev_total J (ev_map (f :: sim_value \<Rightarrow> u8 list) (next_arg F args i)) (\<lambda>_. True)" for f
    by (rule ev_total_map [OF v]) simp
  have str: "ev_total J (ev_bind (string_content F nested fl (arena_get args i))
      (\<lambda>(content, dw). ev_opt (in_field fl (justify content (or_else (fl_width fl) dw) (fl_left fl))))) (\<lambda>_. True)"
    by (rule ev_total_bind [OF string_content_total [OF assms(1,2)]]) (auto simp: field_returns [OF fl] intro: ev_total_opt_ex)
  have u: "unit_ok (fc_st F)" using assms(1) by (simp add: fmt_ok_def)
  have ret: "ev_total J (ev_ret (s, i)) (\<lambda>(s :: u8 list, j). i \<le> j)" for s by (rule ev_total_ret) simp
  show ?thesis
    unfolding convert_def Let_def
    by (intro if_split [where P = "\<lambda>m. ev_total J m _", THEN iffD2] conjI impI ret none one via pure str pattern_field_total [OF assms]
        time_returns [OF u fl] dec_field_returns [OF fl] radix_field_returns [OF fl] real_field_returns [OF fl] field_ex [OF fl])
qed

lemma template_total:
  "fmt_ok F \<Longrightarrow> args_ok F args \<Longrightarrow> template_fits bs \<Longrightarrow> ev_total J (render_template F nested args bs i out) (\<lambda>(j, t). i \<le> j)"
proof (induction F nested args bs i out rule: render_template.induct)
  case (1 F nested args i out)
  then show ?case by (simp add: render_template.simps ev_total_ret)
next
  case (2 F nested args c cs i out)
  show ?case
  proof (cases "c = 37")
    case False
    then show ?thesis using 2 by (simp add: render_template.simps)
  next
    case True
    let ?spec = "case snd (parse_flags cs) of [] \<Rightarrow> 37 | s # _ \<Rightarrow> s"
    have fl: "flags_fit (fst (parse_flags cs))" using "2.prems"(3) True by simp
    obtain n where "snd (parse_flags cs) = drop n cs" using parse_flags_suffix by blast
    then have rest: "template_fits (drop 1 (snd (parse_flags cs)))" using "2.prems"(3) template_fits_drop [of cs "n + 1"] by simp
    have step: "ev_total J (render_template F nested args (drop 1 (snd (parse_flags cs))) j (out @ t)) (\<lambda>(k, t). i \<le> k)"
      if "i \<le> j" for j t
      by (rule ev_total_weaken [OF "2.IH"(2) [OF _ "2.prems"(1,2)]]) (use True that rest in auto)
    have "ev_total J (ev_bind (convert F nested (fst (parse_flags cs)) ?spec args i)
        (\<lambda>(t, j). render_template F nested args (drop 1 (snd (parse_flags cs))) j (out @ t))) (\<lambda>(k, t). i \<le> k)"
      by (rule ev_total_bind [OF convert_total [OF "2.prems"(1,2) fl]]) (use step in \<open>auto split: prod.splits\<close>)
    then show ?thesis using True by (simp add: render_template.simps)
  qed
qed

lemma rest_args_total:
  "fmt_ok F \<Longrightarrow> args_ok F args \<Longrightarrow> length args \<le> i + k \<Longrightarrow> ev_total J (rest_args k F nested args radix i out) (\<lambda>_. True)"
proof (induction k arbitrary: i out)
  case 0
  then show ?case by (simp add: ev_total_def)
next
  case (Suc k)
  have again: "ev_total J (ev_bind (render_template F nested args t (i + 1) out) (\<lambda>(j, out). rest_args k F nested args radix j out)) (\<lambda>_. True)"
    if "template_fits t" for t
    by (rule ev_total_bind [OF template_total [OF Suc.prems(1,2) that]]) (use Suc in auto)
  have next_one: "ev_total J (ev_bind (ev_opt (push_default_radix v out radix)) (\<lambda>out. rest_args k F nested args radix (i + 1) out)) (\<lambda>_. True)" for v
    by (rule ev_total_bind [of J _ "\<lambda>_. True"]) (use default_returns Suc in \<open>auto intro!: ev_total_opt_ex\<close>)
  show ?case
  proof (cases "length args \<le> i")
    case True
    then show ?thesis by (simp add: ev_total_ret)
  next
    case False
    then have "ev_total J (eval_expr (fc_fuel F) (fc_cx F) (args ! i)) plain"
      using Suc.prems by (intro eval_arg) (auto simp: args_ok_def)
    then have "ev_total J (ev_bind (eval_expr (fc_fuel F) (fc_cx F) (args ! i))
        (\<lambda>v. if v_str v then ev_bind (render_template F nested args (to_str_bytes v) (i + 1) out) (\<lambda>(j, out). rest_args k F nested args radix j out)
             else ev_bind (ev_opt (push_default_radix v out radix)) (\<lambda>out. rest_args k F nested args radix (i + 1) out))) (\<lambda>_. True)"
      by (rule ev_total_bind) (use next_one in \<open>auto simp: plain_def\<close>)
    moreover have "template_fits t" if "const_str_arg (fc_cx F) (args ! i) = Some t" for t
    proof -
      have "args ! i \<in> set args" using False by simp
      then have "case const_str_arg (fc_cx F) (args ! i) of Some txt \<Rightarrow> template_fits txt | None \<Rightarrow> True"
        using Suc.prems(2) unfolding args_ok_def by blast
      then show ?thesis unfolding that by simp
    qed
    ultimately show ?thesis
      unfolding rest_args.simps Let_def if_not_P [OF False]
      using again by (cases "const_str_arg (fc_cx F) (args ! i)") (simp_all only: option.case)
  qed
qed

lemma format_total:
  assumes "fmt_ok F" and "args_ok F args" and "case fmt of Some e \<Rightarrow> e < length (x_exprs (ec_ir (fc_cx F))) | None \<Rightarrow> True"
    and fits: "case Option.bind fmt (expr_const_bytes F) of Some txt \<Rightarrow> template_fits txt | None \<Rightarrow> True"
  shows "ev_total J (format_args (Suc k) F fmt args radix) (\<lambda>_. True)"
proof -
  have lit: "\<exists>t. expr_const_bytes F e = Some t \<and> template_fits t" if "fmt = Some e" for e
  proof -
    have e: "e < length (x_exprs (ec_ir (fc_cx F)))" using assms(3) that by simp
    have po: "post_order (ec_ir (fc_cx F))" using assms(1) by (simp add: fmt_ok_def vector_design_def)
    have "\<exists>t. expr_const_bytes F e = Some t"
      using post_order_const [OF po e] e by (auto simp: expr_const_bytes_def arena_get_in split: expr.split)
    then show ?thesis using fits that by auto
  qed
  have rest: "ev_total J (rest_args (length args) F (format_args k F) args radix i out) (\<lambda>_. True)" for i out
    by (rule rest_args_total [OF assms(1,2)]) simp
  have tt: "ev_total J (render_template F nested args bs i out) (\<lambda>_. True)" if "template_fits bs" for nested bs i out
    by (rule ev_total_weaken [OF template_total [OF assms(1,2) that]]) simp
  have lead: "ev_total J (case fmt of
       Some e \<Rightarrow> ev_bind (ev_opt (expr_const_bytes F e)) (\<lambda>t. render_template F (format_args k F) args t 0 [])
     | None \<Rightarrow> ev_ret (0, [])) (\<lambda>_. True)"
    using lit tt
    by (auto split: option.split intro!: ev_total_ret ev_total_bind [of J _ template_fits] ev_total_opt_ex)
  show ?thesis
    unfolding format_args.simps by (rule ev_total_bind [OF lead]) (use rest in \<open>auto split: prod.split\<close>)
qed

end









end
