(* ===== verification/ArrOrder.thy ===== *)
theory ArrOrder
  imports ArithCorrect IrTypes "HOL-Library.Multiset"
begin

text \<open>
  The ordering methods of arrays and queues, \<open>crates/sim-engine/src/builtins/radix_arr.rs\<close>: the comparison
  \<open>arr_cmp\<close> and the in-place \<open>apply_order\<close>.  \<open>sort_by\<close> of the standard library is a stable sort by a
  comparison; the locale \<open>comparison\<close> states what it needs of one, and \<open>arr_cmp\<close> provides it.
\<close>

section \<open>Stable sorting\<close>

primrec insert_by :: "('a \<Rightarrow> 'a \<Rightarrow> ordering) \<Rightarrow> 'a \<Rightarrow> 'a list \<Rightarrow> 'a list" where
  "insert_by cmp x [] = [x]"
| "insert_by cmp x (y # ys) = (if cmp x y = Greater then y # insert_by cmp x ys else x # y # ys)"

definition sort_by :: "('a \<Rightarrow> 'a \<Rightarrow> ordering) \<Rightarrow> 'a list \<Rightarrow> 'a list" where
  "sort_by cmp xs = foldr (insert_by cmp) xs []"

definition opposite :: "ordering \<Rightarrow> ordering" where
  "opposite c = (case c of Less \<Rightarrow> Greater | Equal \<Rightarrow> Equal | Greater \<Rightarrow> Less)"

lemma opposite_simps [simp]:
  "opposite c = Equal \<longleftrightarrow> c = Equal" "opposite c = Greater \<longleftrightarrow> c = Less" "opposite c = Less \<longleftrightarrow> c = Greater"
  "opposite (opposite c) = c"
  by (cases c; simp add: opposite_def)+

locale comparison =
  fixes cmp :: "'a \<Rightarrow> 'a \<Rightarrow> ordering"
  assumes swap: "cmp b a = opposite (cmp a b)"
    and trans: "cmp a b \<noteq> Greater \<Longrightarrow> cmp b c \<noteq> Greater \<Longrightarrow> cmp a c \<noteq> Greater"
begin

lemma mset_insert: "mset (insert_by cmp x ys) = add_mset x (mset ys)"
  by (induction ys) auto

lemma mset_sort: "mset (sort_by cmp xs) = mset xs"
  by (induction xs) (simp_all add: sort_by_def mset_insert)

lemma set_insert: "set (insert_by cmp x ys) = insert x (set ys)"
  by (induction ys) auto

lemma sorted_insert:
  "sorted_wrt (\<lambda>a b. cmp a b \<noteq> Greater) ys \<Longrightarrow> sorted_wrt (\<lambda>a b. cmp a b \<noteq> Greater) (insert_by cmp x ys)"
proof (induction ys)
  case (Cons y ys)
  show ?case
  proof (cases "cmp x y = Greater")
    case True
    then have "cmp y x \<noteq> Greater" using swap [of y x] by simp
    then show ?thesis using True Cons by (auto simp: set_insert)
  next
    case False
    then show ?thesis using Cons.prems trans [of x y] by auto
  qed
qed simp

lemma sorted_sort: "sorted_wrt (\<lambda>a b. cmp a b \<noteq> Greater) (sort_by cmp xs)"
  by (induction xs) (simp_all add: sort_by_def sorted_insert)

lemma refl: "cmp a a = Equal"
  using swap [of a a] by (cases "cmp a a") (simp_all add: opposite_def)

lemma same_class: "cmp a z = Equal \<Longrightarrow> cmp b z = Equal \<Longrightarrow> cmp a b = Equal"
proof -
  assume a: "cmp a z = Equal" and b: "cmp b z = Equal"
  then have "cmp z b = Equal" "cmp z a = Equal" using swap [of b z] swap [of a z] by simp_all
  then have "cmp a b \<noteq> Greater" "cmp b a \<noteq> Greater" using a b trans [of a z b] trans [of b z a] by simp_all
  then show ?thesis using swap [of b a] by (cases "cmp a b") simp_all
qed

lemma filter_insert:
  "filter (\<lambda>y. cmp y z = Equal) (insert_by cmp x ys) = filter (\<lambda>y. cmp y z = Equal) (x # ys)"
  by (induction ys) (use same_class [of x z] in force)+

lemma stable_sort: "filter (\<lambda>y. cmp y z = Equal) (sort_by cmp xs) = filter (\<lambda>y. cmp y z = Equal) xs"
proof (induction xs)
  case (Cons x xs)
  have "filter (\<lambda>y. cmp y z = Equal) (sort_by cmp (x # xs)) = filter (\<lambda>y. cmp y z = Equal) (x # sort_by cmp xs)"
    by (simp only: sort_by_def foldr.simps o_apply filter_insert)
  then show ?case using Cons by simp
qed (simp add: sort_by_def)

end

section \<open>Comparing elements\<close>

text \<open>\<open>Ord\<close> of word slices, lexicographic.\<close>

fun words_cmp :: "u64 list \<Rightarrow> u64 list \<Rightarrow> ordering" where
  "words_cmp [] [] = Equal"
| "words_cmp [] (_ # _) = Less"
| "words_cmp (_ # _) [] = Greater"
| "words_cmp (x # xs) (y # ys) = (case cmp_of x y of Equal \<Rightarrow> words_cmp xs ys | c \<Rightarrow> c)"

text \<open>The integer an element stands for, 0 if it does not fit 128 bits.\<close>

definition arr_key :: "bool \<Rightarrow> sim_value \<Rightarrow> int" where
  "arr_key sg v =
     (if sg then (case to_i128_signed (v\<lparr>v_signed := True\<rparr>) of Some x \<Rightarrow> sint x | None \<Rightarrow> 0)
      else (case to_u128 v of Some x \<Rightarrow> uint x | None \<Rightarrow> 0))"

definition arr_cmp :: "bool \<Rightarrow> sim_value \<Rightarrow> sim_value \<Rightarrow> ordering" where
  "arr_cmp sg a b =
     (case (has_xz a, has_xz b) of
        (False, False) \<Rightarrow> cmp_of (arr_key sg a) (arr_key sg b)
      | (False, True) \<Rightarrow> Less
      | (True, False) \<Rightarrow> Greater
      | (True, True) \<Rightarrow> (case words_cmp (v_unk a) (v_unk b) of Equal \<Rightarrow> words_cmp (v_val a) (v_val b) | c \<Rightarrow> c))"

definition apply_order :: "sys_task_id \<Rightarrow> bool \<Rightarrow> sim_value list \<Rightarrow> sim_value list" where
  "apply_order which sg xs =
     (case which of
        T_ArrSort \<Rightarrow> sort_by (\<lambda>a b. arr_cmp sg a b) xs
      | T_ArrRsort \<Rightarrow> sort_by (\<lambda>a b. arr_cmp sg b a) xs
      | _ \<Rightarrow> rev xs)"

lemma cmp_of_swap: "cmp_of b a = opposite (cmp_of a b)"
  by (auto simp: cmp_of_def opposite_def)

lemma words_cmp_swap: "words_cmp b a = opposite (words_cmp a b)"
proof (induction a b rule: words_cmp.induct)
  case (4 x xs y ys)
  then show ?case by (auto simp: cmp_of_def opposite_def)
qed (simp_all add: opposite_def)

lemma words_cmp_Equal: "words_cmp a b = Equal \<longleftrightarrow> a = b"
  by (induction a b rule: words_cmp.induct) (auto simp: cmp_of_def)

lemma words_cmp_refl [simp]: "words_cmp a a = Equal"
  by (simp add: words_cmp_Equal)

lemma words_cmp_trans: "words_cmp a b \<noteq> Greater \<Longrightarrow> words_cmp b c \<noteq> Greater \<Longrightarrow> words_cmp a c \<noteq> Greater"
proof (induction a b arbitrary: c rule: words_cmp.induct)
  case (4 x xs y ys)
  then obtain z zs where c: "c = z # zs" by (cases c) auto
  show ?case using 4 unfolding c by (auto simp: cmp_of_def split: if_splits)
qed (auto elim: words_cmp.elims)

lemma arr_cmp_swap: "arr_cmp sg b a = opposite (arr_cmp sg a b)"
proof (cases "has_xz a"; cases "has_xz b")
  assume "has_xz a" "has_xz b"
  then show ?thesis
    using words_cmp_swap [of "v_unk b" "v_unk a"] words_cmp_swap [of "v_val b" "v_val a"]
    by (cases "words_cmp (v_unk a) (v_unk b)") (simp_all add: arr_cmp_def opposite_def)
next
  assume "\<not> has_xz a" "\<not> has_xz b"
  then show ?thesis using cmp_of_swap by (simp add: arr_cmp_def)
qed (simp_all add: arr_cmp_def opposite_def)

lemma arr_cmp_trans:
  assumes "arr_cmp sg a b \<noteq> Greater" and "arr_cmp sg b c \<noteq> Greater"
  shows "arr_cmp sg a c \<noteq> Greater"
proof (cases "has_xz a \<and> has_xz b \<and> has_xz c")
  case True
  let ?u = "\<lambda>a b. words_cmp (v_unk a) (v_unk b)" and ?v = "\<lambda>a b. words_cmp (v_val a) (v_val b)"
  have lex: "arr_cmp sg a b = (case ?u a b of Equal \<Rightarrow> ?v a b | c \<Rightarrow> c)" if "has_xz a" "has_xz b" for a b
    using that by (simp add: arr_cmp_def)
  have u: "?u a b \<noteq> Greater" "?u b c \<noteq> Greater" using assms True lex by (auto split: ordering.splits)
  then have ac: "?u a c \<noteq> Greater" by (rule words_cmp_trans)
  show ?thesis
  proof (cases "?u a c = Equal")
    case True
    then have e: "v_unk a = v_unk c" by (simp add: words_cmp_Equal)
    then have "?u b a \<noteq> Greater" using u(2) by simp
    then have "?u a b = Equal" using u(1) words_cmp_swap [of "v_unk b" "v_unk a"] by (cases "?u a b") (simp_all add: opposite_def)
    then have "?v a b \<noteq> Greater" "?v b c \<noteq> Greater"
      using assms lex \<open>has_xz a \<and> has_xz b \<and> has_xz c\<close> e by (auto simp: words_cmp_Equal)
    then have "?v a c \<noteq> Greater" by (rule words_cmp_trans)
    then show ?thesis using True lex \<open>has_xz a \<and> has_xz b \<and> has_xz c\<close> by simp
  next
    case False
    then show ?thesis using ac lex True by (cases "?u a c") simp_all
  qed
next
  case False
  then show ?thesis using assms
    by (cases "has_xz a"; cases "has_xz b"; cases "has_xz c") (auto simp: arr_cmp_def cmp_of_def split: if_splits)
qed

interpretation ascending: comparison "\<lambda>a b. arr_cmp sg a b" for sg
  by unfold_locales (rule arr_cmp_swap, rule arr_cmp_trans)

interpretation descending: comparison "\<lambda>a b. arr_cmp sg b a" for sg
  by unfold_locales (rule arr_cmp_swap, rule arr_cmp_trans)

text \<open>C38: The ordering methods permute the elements; sort leaves no element greater than a later one and rsort none less, and
  both keep the elements that compare equal in their order.\<close>

theorem ordering_methods_sort:
  "mset (apply_order which sg xs) = mset xs
   \<and> sorted_wrt (\<lambda>a b. arr_cmp sg a b \<noteq> Greater) (apply_order T_ArrSort sg xs)
   \<and> sorted_wrt (\<lambda>a b. arr_cmp sg a b \<noteq> Less) (apply_order T_ArrRsort sg xs)
   \<and> (\<forall>z. filter (\<lambda>y. arr_cmp sg y z = Equal) (apply_order T_ArrSort sg xs) = filter (\<lambda>y. arr_cmp sg y z = Equal) xs)
   \<and> (\<forall>z. filter (\<lambda>y. arr_cmp sg y z = Equal) (apply_order T_ArrRsort sg xs) = filter (\<lambda>y. arr_cmp sg y z = Equal) xs)"
proof (intro conjI allI)
  have e: "arr_cmp sg z y = Equal \<longleftrightarrow> arr_cmp sg y z = Equal" for y z using arr_cmp_swap [of sg z y] by simp
  have l: "arr_cmp sg b a \<noteq> Greater \<longleftrightarrow> arr_cmp sg a b \<noteq> Less" for a b using arr_cmp_swap [of sg b a] by simp
  show "mset (apply_order which sg xs) = mset xs"
    by (simp add: apply_order_def ascending.mset_sort descending.mset_sort split: sys_task_id.split)
  show "sorted_wrt (\<lambda>a b. arr_cmp sg a b \<noteq> Greater) (apply_order T_ArrSort sg xs)"
    by (simp add: apply_order_def ascending.sorted_sort)
  show "sorted_wrt (\<lambda>a b. arr_cmp sg a b \<noteq> Less) (apply_order T_ArrRsort sg xs)"
    using descending.sorted_sort [of sg xs] by (simp add: apply_order_def l)
  fix z
  show "filter (\<lambda>y. arr_cmp sg y z = Equal) (apply_order T_ArrSort sg xs) = filter (\<lambda>y. arr_cmp sg y z = Equal) xs"
    using ascending.stable_sort [of sg z xs] by (simp add: apply_order_def)
  show "filter (\<lambda>y. arr_cmp sg y z = Equal) (apply_order T_ArrRsort sg xs) = filter (\<lambda>y. arr_cmp sg y z = Equal) xs"
    using descending.stable_sort [of sg z xs] by (simp add: apply_order_def e)
qed

text \<open>The integer \<open>arr_cmp\<close> orders a known element by.  Up to 128 bits it is the number the element holds under the
  declared sign.  A wider element is read through 128 bits: a number of 2 ^ 128 or more as 0, and under a signed
  declaration one from 2 ^ 127 on as negative.\<close>

definition order_key :: "bool \<Rightarrow> sim_value \<Rightarrow> int" where
  "order_key sg v =
     (if v_width v \<le> 128 then pint (v_width v) sg (v_val v)
      else if 2 ^ 128 \<le> vnum v then 0
      else if sg \<and> 2 ^ 127 \<le> vnum v then int (vnum v) - 2 ^ 128
      else int (vnum v))"

text \<open>C39: Known elements of at most 128 bits compare as the integers they hold under the declared sign.  Wider ones do not,
  for either sign: they compare by \<open>order_key\<close>, so two elements whose words hold 2 ^ 128 or more (every negative
  one of more than 128 bits among them) compare equal whatever they hold, against the comment of \<open>arr_cmp\<close>.\<close>

theorem elements_compare_as_integers:
  assumes "vec_ok a" and "vec_ok b" and "\<not> has_xz a" and "\<not> has_xz b"
  shows "(v_width a \<le> 128 \<and> v_width b \<le> 128 \<longrightarrow>
            arr_cmp sg a b = cmp_of (pint (v_width a) sg (v_val a)) (pint (v_width b) sg (v_val b)))
       \<and> arr_cmp sg a b = cmp_of (order_key sg a) (order_key sg b)
       \<and> (2 ^ 128 \<le> vnum a \<and> 2 ^ 128 \<le> vnum b \<longrightarrow> arr_cmp sg a b = Equal)"
proof -
  have key: "arr_key sg v = pint (v_width v) sg (v_val v)" if v: "vec_ok v" "\<not> has_xz v" "v_width v \<le> 128" for v
  proof (cases sg)
    case True
    let ?s = "v\<lparr>v_signed := True\<rparr>"
    have "vec_ok ?s" "\<not> has_xz ?s" using v by (simp_all add: vec_ok_def has_xz_iff)
    then have "to_i128_signed ?s = Some (word_of_int (vint ?s))" using v(3) by (intro to_i128_signed_signed) simp_all
    moreover have "sint (word_of_int (vint ?s) :: u128) = vint ?s"
    proof (cases "v_width v = 0")
      case True
      then have "vnum v = 0" using vnum_bound [OF v(1)] by simp
      then show ?thesis using True by (simp add: vint_def pint_def vnum_def)
    next
      case False
      then have p: "- (2 ^ (v_width v - 1)) \<le> vint ?s \<and> vint ?s < 2 ^ (v_width v - 1)"
        using pint_range [of "v_width v" "v_val v"] v(1) by (simp add: vint_def vec_ok_def)
      moreover have "(2 :: int) ^ (v_width v - 1) \<le> 2 ^ 127" using v(3) by (intro power_increasing) simp_all
      ultimately show ?thesis by (simp add: sint_sbintrunc' signed_take_bit_int_eq_self)
    qed
    ultimately show ?thesis using True by (simp add: arr_key_def vint_def)
  next
    case False
    have "vnum v < 2 ^ 128" using vnum_bound [OF v(1)] v(3) power_increasing [of "v_width v" 128 "2 :: nat"] by linarith
    then show ?thesis using False v by (simp add: arr_key_def to_u128_eq vnum_def unsigned_of_nat take_bit_nat_eq_self)
  qed
  have wide: "arr_key sg v = order_key sg v" if v: "vec_ok v" "\<not> has_xz v" and w: "\<not> v_width v \<le> 128" for v
  proof -
    let ?s = "v\<lparr>v_signed := True\<rparr>"
    have s: "vec_ok ?s" "has_xz ?s \<longleftrightarrow> has_xz v" "vnum ?s = vnum v" using v by (simp_all add: vec_ok_def has_xz_iff vnum_def)
    have u: "to_u128 v = (if 2 ^ 128 \<le> vnum v then None else Some (word_of_nat (vnum v)))"
      "to_u128 ?s = (if 2 ^ 128 \<le> vnum v then None else Some (word_of_nat (vnum v)))"
      using to_u128_eq [OF v(1)] to_u128_eq [OF s(1)] v(2) s(2,3) by auto
    show ?thesis
    proof (cases "2 ^ 128 \<le> vnum v")
      case True
      then show ?thesis using w u by (simp add: arr_key_def order_key_def to_i128_signed_def)
    next
      case False
      then have n: "int (vnum v) < 2 ^ 128" by simp
      have "uint (word_of_nat (vnum v) :: u128) = int (vnum v)" using False by (simp add: unsigned_of_nat take_bit_nat_eq_self)
      moreover have "sint (word_of_nat (vnum v) :: u128) = (if 2 ^ 127 \<le> vnum v then int (vnum v) - 2 ^ 128 else int (vnum v))"
      proof -
        have "sint (word_of_int (int (vnum v)) :: u128) = (int (vnum v) + 2 ^ 127) mod 2 ^ 128 - 2 ^ 127"
          unfolding int_word_sint by simp
        moreover have "(int (vnum v) + 2 ^ 127) mod 2 ^ 128 = int (vnum v) - 2 ^ 127" if "2 ^ 127 \<le> vnum v"
        proof -
          have e: "int (vnum v) + 2 ^ 127 = (int (vnum v) - 2 ^ 127) + 2 ^ 128" by simp
          show ?thesis unfolding e mod_add_self2 by (rule mod_pos_pos_trivial) (use that n in simp_all)
        qed
        moreover have "(int (vnum v) + 2 ^ 127) mod 2 ^ 128 = int (vnum v) + 2 ^ 127" if "\<not> 2 ^ 127 \<le> vnum v"
        proof -
          have "int (vnum v) < 2 ^ 127" using that by simp
          then show ?thesis by simp
        qed
        ultimately show ?thesis by (simp only: of_int_of_nat_eq) auto
      qed
      ultimately show ?thesis using False w u by (simp add: arr_key_def order_key_def to_i128_signed_def)
    qed
  qed
  have k: "arr_cmp sg a b = cmp_of (order_key sg a) (order_key sg b)"
    using assms key [of a] key [of b] wide [of a] wide [of b]
    by (cases "v_width a \<le> 128"; cases "v_width b \<le> 128") (simp_all add: arr_cmp_def order_key_def)
  moreover have "order_key sg v = 0" if "2 ^ 128 \<le> vnum v" "vec_ok v" for v
  proof -
    have "\<not> v_width v \<le> 128"
    proof
      assume "v_width v \<le> 128"
      then have "(2 :: nat) ^ v_width v \<le> 2 ^ 128" by (rule power_increasing) simp
      then show False using vnum_bound [OF that(2)] that(1) by linarith
    qed
    then show ?thesis using that by (simp add: order_key_def)
  qed
  ultimately show ?thesis using assms by (simp add: order_key_def cmp_of_def)
qed

theorem elements_compare_as_integers_witness:
  "arr_cmp True (byte_value 200) (byte_value 3) = Less \<and> arr_cmp False (byte_value 200) (byte_value 3) = Greater"
proof -
  have b: "pbit [200] 7" "\<not> pbit [3] 7" by (simp_all add: pbit_def wget_def)
  show ?thesis
    using elements_compare_as_integers [of "byte_value 200" "byte_value 3"] byte_value_ok(1) [of 200] byte_value_ok(1) [of 3] b
    by (simp add: val_ok_vec_ok pint_def cmp_of_def)
qed

end
