(* ===== verification/DumpWords.thy ===== *)
theory DumpWords
  imports Vcd ValueResize IrTypes
begin

text \<open>
  The pieces of an unpacked array that a waveform dump names, \<open>crates/sim-engine/src/builtins/queues_io.rs\<close>: the bits of
  one word of a packed store, and the declared indices in a word's name.
\<close>

section \<open>One word of a store\<close>

fun copy_planes :: "(nat \<Rightarrow> u64 \<times> u64) \<Rightarrow> nat \<Rightarrow> nat \<Rightarrow> sim_value \<Rightarrow> sim_value option" where
  "copy_planes src i 0 v = Some v"
| "copy_planes src i (Suc n) v = (case src i of (b, u) \<Rightarrow> Option.bind (set_vu v i b u) (copy_planes src (i + 1) n))"

definition store_bit :: "bit_packed \<Rightarrow> nat \<Rightarrow> u64 \<times> u64" where
  "store_bit st k = (drop_bit (k mod 64) (wget (p_val st) (k div 64)) AND 1, drop_bit (k mod 64) (wget (p_unk st) (k div 64)) AND 1)"

text \<open>The bit index is a \<open>u32\<close>.\<close>

definition nth_word :: "bit_packed \<Rightarrow> nat \<Rightarrow> nat \<Rightarrow> bit_packed option" where
  "nth_word st width word =
     (if 2 ^ 32 < (word + 1) * width then None
      else let v = (zeros (max width 1) False)\<lparr>v_width := width\<rparr>
      in map_option (\<lambda>v. into_bitpacked v width) (copy_planes (\<lambda>i. store_bit st (word * width + i)) 0 width v))"

definition word0 :: "bit_packed \<Rightarrow> nat \<Rightarrow> bit_packed option" where
  "word0 st width =
     (let v = (zeros (max width 1) False)\<lparr>v_width := width\<rparr>
      in map_option (\<lambda>v. into_bitpacked v width) (copy_planes (store_bit st) 0 width v))"

definition value_bits :: "sim_value \<Rightarrow> nat \<Rightarrow> bit_packed option" where
  "value_bits v width =
     map_option (\<lambda>w. \<lparr>p_val = v_val w, p_unk = v_unk w\<rparr>)
       (copy_planes (get_vu v) 0 width ((zeros (max width 1) False)\<lparr>v_width := width\<rparr>))"

lemma copy_planes_result:
  assumes "vec_ok v" and "i + n \<le> v_width v" and "\<And>k. k < i \<Longrightarrow> vbit v k = b k" and "\<And>k. src k = pair1 (b k)"
  shows "\<exists>w. copy_planes src i n v = Some w \<and> vec_ok w \<and> v_width w = v_width v \<and> v_str w = v_str v \<and> v_signed w = v_signed v
    \<and> (\<forall>k < i + n. vbit w k = b k)"
  using assms
proof (induction n arbitrary: i v)
  case (Suc n)
  have i: "i < v_width v" using Suc.prems(2) by simp
  obtain w where w: "set_vu v i (fst (src i)) (snd (src i)) = Some w" "vec_ok w" "v_width w = v_width v" "v_signed w = v_signed v"
    "v_str w = v_str v" "\<And>j. vbit w j = (if j = i then l4 (bit (fst (src i)) 0) (bit (snd (src i)) 0) else vbit v j)"
    by (rule set_vu_in [OF Suc.prems(1) i, of "fst (src i)" "snd (src i)"]) simp_all
  have e: "l4 (bit (fst (src i)) 0) (bit (snd (src i)) 0) = b i"
    by (cases "b i") (simp_all add: Suc.prems(4) pair1_def l4_def logic4_defs)
  have low: "vbit w k = b k" if "k < i + 1" for k
    using that w(6) e Suc.prems(3) by (cases "k = i") simp_all
  have room: "i + 1 + n \<le> v_width w" using Suc.prems(2) w(3) by simp
  from Suc.IH [OF w(2) room low Suc.prems(4)] obtain x where
    x: "copy_planes src (i + 1) n w = Some x" "vec_ok x" "v_width x = v_width w" "v_str x = v_str w" "v_signed x = v_signed w"
      "\<forall>k < i + 1 + n. vbit x k = b k" by blast
  have "copy_planes src i (Suc n) v = Some x" using w(1) x(1) by (simp add: case_prod_beta)
  then show ?case using x w by auto
qed auto

lemma nw1_max1: "nw1 (max w 1) = nw1 w"
proof (cases w)
  case 0
  then show ?thesis by (simp add: nw1_def v_nwords_def)
next
  case (Suc n)
  then have "max w 1 = w" by simp
  then show ?thesis by (simp only:)
qed

lemma blank_ok: "vec_ok ((zeros (max w 1) False)\<lparr>v_width := w\<rparr>)"
proof -
  have "plane_ok w (replicate (nw1 (max w 1)) 0)" unfolding nw1_max1 by (rule plane_ok_zeros)
  then show ?thesis by (simp add: vec_ok_def)
qed

text \<open>The word a dump takes from a packed store has, bit for bit, the bits of its window of the store; a window past the end
  reads 0, and the first word is the word of index 0.\<close>

theorem dumped_word_is_window:
  assumes "(k + 1) * width \<le> 2 ^ 32" and "width \<le> 2 ^ 32"
  shows "(\<exists>p. nth_word st width k = Some p
      \<and> (\<forall>i. pk_bit p i = (if i < width then pk_bit st (k * width + i) else L0)))
   \<and> word0 st width = nth_word st width 0"
proof -
  let ?v = "(zeros (max width 1) False)\<lparr>v_width := width\<rparr>"
  have s: "store_bit st j = pair1 (pk_bit st j)" for j
    by (simp add: store_bit_def pk_bit_def pair1_def shift_and_1 pbit_def)
  have "\<exists>w. copy_planes (\<lambda>i. store_bit st (k * width + i)) 0 width ?v = Some w \<and> vec_ok w \<and> v_width w = v_width ?v
      \<and> v_str w = v_str ?v \<and> v_signed w = v_signed ?v \<and> (\<forall>i < 0 + width. vbit w i = pk_bit st (k * width + i))"
    by (rule copy_planes_result [OF blank_ok]) (simp_all add: s)
  then obtain w where w: "copy_planes (\<lambda>i. store_bit st (k * width + i)) 0 width ?v = Some w" "vec_ok w" "v_width w = width"
    "\<forall>i < width. vbit w i = pk_bit st (k * width + i)" by auto
  have "vbit w i = L0" if "width \<le> i" for i using vec_ok_bit_out [OF w(2)] w(3) that by simp
  then have "pk_bit (into_bitpacked w width) i = (if i < width then pk_bit st (k * width + i) else L0)" for i
    using w by (auto simp: into_bitpacked_def resize_def pk_bit_def vbit_def Let_def)
  then show ?thesis using w(1) assms by (auto simp: nth_word_def word0_def Let_def)
qed

theorem dumped_word_is_window_witness: "\<exists>p. nth_word \<lparr>p_val = [0x1234], p_unk = [0]\<rparr> 8 1 = Some p \<and> pk_bit p 1 = L1"
proof -
  have "pk_bit \<lparr>p_val = [0x1234], p_unk = [0]\<rparr> 9 = L1" by (simp add: pk_bit_def pbit_def wget_def l4_def)
  then show ?thesis using dumped_word_is_window [of 1 8 "\<lparr>p_val = [0x1234], p_unk = [0]\<rparr>"] by auto
qed

section \<open>Names of words\<close>

text \<open>The indices are found from the last dimension to the first.\<close>

fun split_word :: "(int \<times> nat) list \<Rightarrow> nat \<Rightarrow> nat list \<times> nat" where
  "split_word [] k = ([], k)"
| "split_word ((lo, n) # ds) k = (let (is, r) = split_word ds k; size = max n 1 in (r mod size # is, r div size))"

definition signed_text :: "int \<Rightarrow> string" where
  "signed_text i = (if i < 0 then CHR ''-'' # dec_string (nat (- i)) else dec_string (nat i))"

definition elem_indices :: "(int \<times> nat) list \<Rightarrow> nat \<Rightarrow> int list" where
  "elem_indices dims k = map2 (\<lambda>d i. fst d + int i) dims (fst (split_word dims k))"

definition elem_name :: "string \<Rightarrow> (int \<times> nat) list \<Rightarrow> nat \<Rightarrow> string" where
  "elem_name leaf dims k = leaf @ concat (map (\<lambda>i. CHR ''['' # signed_text i @ '']'') (elem_indices dims k))"

definition declared_array_base :: "(nat \<Rightarrow> (int \<times> nat) list option) \<Rightarrow> nat \<Rightarrow> nat option" where
  "declared_array_base dims net =
     (case Option.bind (dims net) (\<lambda>d. arena_get d 0) of
        Some (lo, _) \<Rightarrow> (if 0 \<le> lo then Some (nat lo) else None)
      | None \<Rightarrow> Some 0)"

text \<open>The word that indices name: row major, the last index varies fastest.\<close>

fun flat_word :: "(int \<times> nat) list \<Rightarrow> int list \<Rightarrow> int" where
  "flat_word ((lo, n) # ds) (i # is) = (i - lo) * int (prod_list (map snd ds)) + flat_word ds is"
| "flat_word _ _ = 0"

lemma split_word_length: "length (fst (split_word ds k)) = length ds"
  by (induction ds) (auto simp: Let_def split: prod.splits)

text \<open>The indices in the name of a word of an array lie in their declared ranges and name that word in row-major order, so
  different words have different names.\<close>

theorem element_indices_name_word:
  assumes "k < prod_list (map snd dims)"
  shows "flat_word dims (elem_indices dims k) = int k
    \<and> list_all2 (\<lambda>d i. fst d \<le> i \<and> i < fst d + int (snd d)) dims (elem_indices dims k)"
proof -
  have "int k = flat_word ds (elem_indices ds k) + int (snd (split_word ds k)) * int (prod_list (map snd ds))
      \<and> list_all2 (\<lambda>d i. fst d \<le> i \<and> i < fst d + int (snd d)) ds (elem_indices ds k)"
    if "\<forall>d \<in> set ds. 0 < snd d" for ds
    using that
  proof (induction ds)
    case (Cons d ds)
    obtain lo n where d: "d = (lo, n)" by (cases d)
    obtain js r where s: "split_word ds k = (js, r)" by (cases "split_word ds k")
    have n: "0 < n" "max n 1 = n" using Cons.prems d by auto
    have e: "elem_indices (d # ds) k = (lo + int (r mod n)) # elem_indices ds k" "split_word (d # ds) k = (r mod n # js, r div n)"
      using s n(2) by (simp_all add: elem_indices_def d)
    have "int k = flat_word ds (elem_indices ds k) + int r * int (prod_list (map snd ds))" using Cons s by simp
    moreover have "int r = int (r mod n) + int (r div n) * int n" by (simp flip: of_nat_mult of_nat_add)
    ultimately have "int k = flat_word (d # ds) (elem_indices (d # ds) k) + int (r div n) * int (prod_list (map snd (d # ds)))"
      unfolding e by (simp add: d algebra_simps)
    moreover have "list_all2 (\<lambda>d i. fst d \<le> i \<and> i < fst d + int (snd d)) (d # ds) (elem_indices (d # ds) k)"
      unfolding e using Cons n(1) by (simp add: d)
    ultimately show ?case unfolding e(2) snd_conv by blast
  qed (simp add: elem_indices_def)
  moreover have pos: "\<forall>d \<in> set dims. 0 < snd d"
  proof
    fix d assume "d \<in> set dims"
    then have "snd d dvd prod_list (map snd dims)" by (induction dims) auto
    then show "0 < snd d" using assms by (cases "snd d = 0") auto
  qed
  moreover have "snd (split_word ds k) = k div prod_list (map snd ds)" if "\<forall>d \<in> set ds. 0 < snd d" for ds
    using that
  proof (induction ds)
    case (Cons d ds)
    then have "max (snd d) 1 = snd d" by simp
    then show ?case using Cons by (cases d) (simp add: case_prod_beta Let_def mult.commute [of _ "prod_list _"] div_mult2_eq)
  qed simp
  ultimately show ?thesis using assms by simp
qed

theorem element_indices_name_word_witness: "flat_word [(0, 2), (0, 3)] (elem_indices [(0, 2), (0, 3)] 5) = 5"
  using element_indices_name_word [of 5 "[(0, 2), (0, 3)]"] by simp

end
