(* ===== verification/Spec2Isabelle.thy ===== *)
theory Spec2Isabelle
  imports CompareCorrect OpsBits Realness EdgeValue EdgeWalk Analysis Resolution ForkCorrect ArenaSpec VcdCorrect FormatCorrect ArrOrder DumpWords
begin

text \<open>
  A verification of the value, expression, storage, scheduling and text core of the RTL simulator, a shallow
  embedding of the Rust sources under \<open>src/crates\<close>.

  \<^bold>\<open>The program.\<close>  The elaborator lowers a design to the IR of the crate \<open>sim-ir\<close>: arenas of
  constants, nets, expressions, statements, basic blocks and functions that name one another by index.
  The static analyses of that crate (\<open>selfwidth.rs\<close>, \<open>realness.rs\<close>, \<open>analysis.rs\<close>) compute tables over
  the arenas once.  The engine (\<open>sim-engine\<close>) evaluates expressions over 4-state values
  (\<open>value.rs\<close>, \<open>eval\<close>), whose wide arithmetic is the limb kernel of \<open>sim-ir/src/mw.rs\<close>, reads and writes
  the nets through a flat store (\<open>native\<close>) that records what changed, and its scheduler (\<open>sched\<close>) runs the
  processes as activities in an arena, wakes them through a queue ordered by scheduling number and tie, and joins
  fork children through barriers.  System tasks turn values into text (\<open>builtins\<close>, \<open>diag/src/fmt.rs\<close>) and
  changes into a waveform (\<open>vcd-writer\<close>).

  \<^bold>\<open>Limbs.\<close>  \<open>Limbs\<close> and \<open>LimbPower\<close> model \<open>mw.rs\<close>: little-endian lists of 64-bit words read by
  \<open>mw_num\<close>.  Addition, negation, multiplication and masking are the ring operations modulo the word size;
  division, power and the decimal rendering are exact.  A loop bound by a word count is recursion over the
  list; the restoring division folds over the bit positions of the dividend.

  \<^bold>\<open>Values.\<close>  \<open>Logic4\<close> holds the bitwise tables of one word pair, with the locale \<open>word_op\<close> for an
  operation that acts bit by bit, interpreted on the operators of the code.  \<open>PlaneWords\<close> and \<open>Planes\<close> model
  the two-variant word vector \<open>Words\<close> as a list and prove that the inline and the heap form are one vector.
  \<open>Values\<close> has the record \<open>sim_value\<close> of \<open>value.rs\<close>, its constructors and the invariant \<open>val_ok\<close> (enough
  words, no bit above the width); \<open>ValueReads\<close> the integer reads, \<open>ValueResize\<close> the resizes, shifts, fills
  and packings, \<open>F64\<close>, \<open>ValueReal\<close>, \<open>F64Dyadic\<close> and \<open>ValueConv\<close> the real and string conversions and the
  sampling.  A 64-bit real is its bit pattern; an operation is exact on integral multiples of the least subnormal,
  followed by one rounding to nearest even, so no arithmetic of the real lane is a parameter.

  \<^bold>\<open>Operators.\<close>  \<open>OpsArith\<close> and \<open>ArithWide\<close> have \<open>arith\<close> on its native 64- and 128-bit lanes and its
  word-grid lane, \<open>OpsCompare\<close> the relational, equality, wildcard and logical operators with their one-word
  forms, \<open>OpsUnary\<close> negation, reductions and shifts, \<open>OpsBits\<close> the bit copies, concatenation, replication and
  selects.  \<open>ArithCorrect\<close> and \<open>CompareCorrect\<close> prove them equal to integer arithmetic and order on the
  operands' integers, X exactly where an operand bit is unknown or the divisor is zero, and equal on every lane.  The
  super-linear operators are exact up to the width cap of the code, beyond which the code gives X.  \<open>Selects\<close>
  states, independently of the code, which positions a select names; reads (\<open>OpsBits\<close>) and writes (\<open>SelectWrite\<close>)
  are both compared with it.

  \<^bold>\<open>Intermediate representation and analyses.\<close>  \<open>Ir\<close> and \<open>IrTypes\<close> have the datatypes of
  \<open>sim-ir/src/lib.rs\<close> with their constructors; the 86 system functions are nested groups of datatypes in the
  order of the source.  An arena is a list and \<open>arena_get\<close> its checked index.  \<open>ConstFold\<close> has the
  constant-count folder, \<open>SelfWidth\<close> the width table, \<open>EdgeValue\<close> the evaluation of a constant edge in its
  region's width and sign, \<open>EdgeWalk\<close> the two walks over the constant edges of a design, \<open>Realness\<close> the
  real-expression table and \<open>Analysis\<close> the two subroutine analyses.  The constant folder recurses through
  the arena without a visited set and returns on every arena in post-order; it is a \<open>partial_function\<close>, so that a
  run that does not return is \<open>None\<close>, and its theorem is that it returns.  The worklist walks and the
  fixpoint loops are functions with a termination proof, so they are total.

  \<^bold>\<open>The evaluator.\<close>  \<open>EvalMonad\<close> has the state and option monad of a computation that reads a store, may
  draw random numbers and may panic.  \<open>Eval\<close>, \<open>EvalSys\<close> and \<open>EvalAll\<close> model \<open>eval_core.rs\<close>, \<open>binops.rs\<close> and
  \<open>sysfunc.rs\<close>: one definition per arm of the dispatch, tied by \<open>eval_ctx\<close>, whose fuel is the nesting depth.
  \<open>Rng\<close>, \<open>StrOps\<close> and \<open>SysValues\<close> hold the random generators of \<open>rng.rs\<close>, the string operations and the pure
  system functions.  The store is a record of operations (\<open>net_reader\<close>), the trait of the source.  The locale
  \<open>vector_reader\<close> states what the evaluator needs of it for a design of vectors; in it, \<open>EvalValues\<close>, \<open>EvalSound\<close>
  and \<open>EvalTotal\<close> prove that evaluation returns, at the width \<open>max(self, context)\<close>, for every expression of an arena
  in post-order.  Children have smaller indices than their parents, so index \<open>i\<close> needs the fuel \<open>i + 2\<close>.

  \<^bold>\<open>The store.\<close>  \<open>DirtyBits\<close> has the two-level bitmap of \<open>native/dirty.rs\<close> and refines it to a set (the locale
  \<open>index_set\<close>, interpreted on its operations).  \<open>Arena\<close> and \<open>ArenaLayout\<close> model \<open>native/arena.rs\<close>: slots, the
  checked build and the initial planes; \<open>ArenaRead\<close> proves what a read returns and interprets \<open>vector_reader\<close> on the
  built store.  \<open>ArenaWrite\<close> models \<open>native/write.rs\<close>: the lvalue funnel, its word-parallel and bit-serial stores,
  the one-word entry, edges and the change channel.  \<open>ArenaStore\<close>, \<open>ArenaFunnel\<close>, \<open>ArenaLvalue\<close> and
  \<open>ArenaWriteSound\<close> show that every path stores one window of one element and marks it; \<open>SelectWrite\<close> says which bits
  those are in the positions of the language, chunk by chunk, and \<open>ArenaSpec\<close> what the funnel promises: writes return
  and mark, selects change the bits they name, concatenations hand out slices, the one-word entry is the general funnel,
  no edge of a run of writes is lost, and a written net reads back.

  \<^bold>\<open>Scheduling.\<close>  \<open>ReadyQueue\<close> has the ready entry, \<open>push_sorted\<close>, \<open>rejoin_sorted\<close> and the child tie of
  \<open>sched/wait_fork.rs\<close>; \<open>Resolution\<close> the multi-driver resolution, with the locale \<open>resolution\<close> (an
  extension of \<open>word_op\<close>) interpreted on the wire, wired-and and wired-or folds, and the transition delay.
  \<open>ForkJoin\<close> has the activity and barrier arenas of \<open>sched/mod.rs\<close> and the operations on them:
  \<open>exec_fork_into\<close> (\<open>sched/propagate.rs\<close>), \<open>on_child_complete_into\<close> and \<open>exec_wait_fork\<close>
  (\<open>sched/wait_fork.rs\<close>) and \<open>k_disable_fork\<close> (\<open>sched/kernel.rs\<close>).  \<open>ForkSteps\<close> makes them the steps
  of a run, an inductive relation whose guards are the facts the engine relies on (a process that runs is not
  parked, a fork is nested in no child), and proves the invariant of the arenas over every reachable state;
  \<open>ForkCorrect\<close> concludes what a fork, a join, a \<open>wait fork\<close> and a \<open>disable fork\<close> promise.

  \<^bold>\<open>Text and waveforms.\<close>  \<open>Render\<close> has the field rules of \<open>diag/src/fmt.rs\<close> and the conversions of one value
  (\<open>builtins/render.rs\<close>, \<open>radix_arr.rs\<close>, \<open>pattern.rs\<close>); \<open>RenderCorrect\<close> reads their output back.  \<open>Format\<close> is the
  engine of \<open>$display\<close>: templates, arguments in order, nested \<open>$sformatf\<close>, with the number of arguments and the nesting
  depth as fuel (the rest of the arguments takes at most one turn each; over a design of vectors no call nests, so depth
  1 is enough); \<open>FormatCorrect\<close> proves that it returns.  \<open>ArrOrder\<close> has the ordering methods of arrays, with the locale
  \<open>comparison\<close> interpreted on \<open>arr_cmp\<close> and on its reverse.  \<open>Vcd\<close> is the writer of \<open>vcd-writer/src/lib.rs\<close> over an
  in-memory sink, and \<open>VcdCorrect\<close> its decoder, its invariant over runs and its byte limit; \<open>DumpWords\<close> has the words
  of an array a dump names.

  \<^bold>\<open>Conventions.\<close>  A machine integer is a word where it wraps and a natural number where the code keeps it
  in range.  A \<open>Result\<close> or an \<open>Option\<close> of the source is a sum or an option; in addition \<open>None\<close> as the result
  of an operation stands for a panic of the Rust program (an index out of range, a failed assertion, an overflow that a
  debug build checks, a capacity overflow), so a theorem with \<open>Some\<close> in its conclusion says that there is none.  A
  function that mutates its receiver returns the new value.  Running out of memory is not modelled.

  \<^bold>\<open>Parameters.\<close>  Code that is not under \<open>src\<close> is an argument of the definitions: the vendored \<open>libm\<close> and
  \<open>f64::powi\<close>, the parser of a real number, the verdict of the frame analysis the build takes, the version the VCD
  preamble prints.  No theorem assumes anything of them.

  \<^bold>\<open>Not modelled.\<close>  The run loop of the scheduler and the statement interpreter, which need each other; the
  interpreter's own net store, which the native one mirrors, and writes to heap objects (dynamic arrays, queues,
  associative arrays, strings); the native kernels, the bytecode and the JIT, which evaluate the same expressions
  again; the FST writer; the system tasks around the format engine, most of which print or read files; the front end
  and the elaborator; the deferred reports that \<open>disable fork\<close> also cancels.
\<close>

end
